(* ===== verification/Prelude.thy ===== *)
theory Prelude
  imports Main "HOL-Library.Word" "HOL-Library.Multiset"
begin

text \<open>
  What every component theory shares: the machine integers of the simulator, the
  faults a C++ execution can end in, the error monad the fallible operations are
  written in, and checked access to the standard containers.

  \<^item> \<open>uint64_t\<close> is \<open>64 word\<close>, so that addition, subtraction and multiplication wrap as
    they do in the code.  \<open>int\<close> is the unbounded \<open>int\<close>: signed overflow has no meaning
    in C++, so executions that overflow are outside the model.  Mixed expressions
    convert the way the language does: \<open>int\<close> to \<open>uint64_t\<close> by \<open>u64_of_int\<close> (modulo
    $2^{64}$), \<open>uint64_t\<close> to \<open>int\<close> by \<open>int_of_u64\<close> (the low 32 bits, read as two's
    complement).
  \<^item> \<open>std::vector\<close> and \<open>std::queue\<close> are lists.  Reading outside a vector and \<open>front\<close> or
    \<open>pop\<close> on an empty queue are undefined in C++; the model stops with a fault there
    instead of inventing a value.
\<close>

section \<open>Collections of facts\<close>

named_theorems monad_simps \<open>unfolding the error monad and the checked accesses\<close>
named_theorems conv_simps \<open>conversions between the integer types\<close>

section \<open>Integers\<close>

type_synonym u64 = "64 word"
type_synonym u32 = "32 word"

definition u64_of_int :: "int \<Rightarrow> u64" where
  "u64_of_int i = word_of_int i"

definition int_of_u64 :: "u64 \<Rightarrow> int" where
  "int_of_u64 w = sint (ucast w :: u32)"

definition u64_of_nat :: "nat \<Rightarrow> u64" where
  "u64_of_nat n = of_nat n"

section \<open>Faults and the error monad\<close>

datatype fault =
    UB_Front        \<comment> \<open>\<open>front\<close> or \<open>pop\<close> on an empty queue\<close>
  | UB_Index        \<comment> \<open>\<open>v[i]\<close> outside the vector\<close>
  | UB_Division     \<comment> \<open>integer division or remainder by zero\<close>
  | UB_Conversion   \<comment> \<open>floating point value outside the target integer type\<close>
  | UB_Shift        \<comment> \<open>shift by a negative amount or by the width of the type or more\<close>
  | UB_NoReturn     \<comment> \<open>flowing off the end of a value-returning function\<close>
  | UB_Uninit       \<comment> \<open>reading a variable that was never written\<close>
  | Invalid_Argument \<comment> \<open>\<open>std::invalid_argument\<close>\<close>
  | Out_Of_Range    \<comment> \<open>\<open>std::out_of_range\<close>\<close>
  | Length_Error    \<comment> \<open>\<open>std::length_error\<close>\<close>
  | Abrupt_Exit     \<comment> \<open>\<open>AbruptExit\<close> or \<open>exit\<close>\<close>
  | Diverges        \<comment> \<open>a loop that never ends\<close>

type_synonym 'a result = "fault + 'a"

definition bindE :: "'a result \<Rightarrow> ('a \<Rightarrow> 'b result) \<Rightarrow> 'b result" where
  "bindE m f = (case m of Inl e \<Rightarrow> Inl e | Inr x \<Rightarrow> f x)"

definition checkE :: "bool \<Rightarrow> fault \<Rightarrow> unit result" where
  "checkE b e = (if b then Inr () else Inl e)"

text \<open>Folding a fallible step over a list stops at the first fault, as an exception
  leaving a loop does.\<close>

fun foldE :: "('a \<Rightarrow> 's \<Rightarrow> 's result) \<Rightarrow> 'a list \<Rightarrow> 's \<Rightarrow> 's result" where
  "foldE f [] s = Inr s"
| "foldE f (x # xs) s = bindE (f x s) (foldE f xs)"

fun mapE :: "('a \<Rightarrow> 'b result) \<Rightarrow> 'a list \<Rightarrow> 'b list result" where
  "mapE f [] = Inr []"
| "mapE f (x # xs) = bindE (f x) (\<lambda>y. bindE (mapE f xs) (\<lambda>ys. Inr (y # ys)))"

text \<open>Calling a stateful function \<open>n\<close> times and collecting what it returns.\<close>

primrec repeatE :: "nat \<Rightarrow> ('s \<Rightarrow> ('a \<times> 's) result) \<Rightarrow> 's \<Rightarrow> ('a list \<times> 's) result" where
  "repeatE 0 f s = Inr ([], s)"
| "repeatE (Suc n) f s =
     bindE (f s) (\<lambda>(x, s1). bindE (repeatE n f s1) (\<lambda>(xs, s2). Inr (x # xs, s2)))"

section \<open>Containers\<close>

definition vec_get :: "'a list \<Rightarrow> nat \<Rightarrow> 'a result" where
  "vec_get xs i = (if i < length xs then Inr (xs ! i) else Inl UB_Index)"

definition vec_set :: "'a list \<Rightarrow> nat \<Rightarrow> 'a \<Rightarrow> 'a list result" where
  "vec_set xs i v = (if i < length xs then Inr (xs[i := v]) else Inl UB_Index)"

definition q_front :: "'a list \<Rightarrow> 'a result" where
  "q_front xs = (case xs of [] \<Rightarrow> Inl UB_Front | x # _ \<Rightarrow> Inr x)"

definition q_pop :: "'a list \<Rightarrow> 'a list result" where
  "q_pop xs = (case xs of [] \<Rightarrow> Inl UB_Front | _ # ys \<Rightarrow> Inr ys)"

text \<open>The index an \<open>int\<close> or a \<open>uint64_t\<close> selects.  A negative \<open>int\<close> converts to an
  enormous \<open>size_t\<close>.\<close>

definition idx_of_int :: "int \<Rightarrow> nat" where
  "idx_of_int i = unat (u64_of_int i)"

text \<open>\<open>v.erase(v.begin() + i)\<close> for an \<open>i\<close> inside the vector.\<close>

fun erase_at :: "nat \<Rightarrow> 'a list \<Rightarrow> 'a list" where
  "erase_at i [] = []"
| "erase_at 0 (x # xs) = xs"
| "erase_at (Suc i) (x # xs) = x # erase_at i xs"

text \<open>The loop \<open>for (i = 0; i < n; i++) if (p i) { ...; break; }\<close>: the first index
  where \<open>p\<close> holds.\<close>

fun first_idx :: "('a \<Rightarrow> bool) \<Rightarrow> 'a list \<Rightarrow> nat option" where
  "first_idx p [] = None"
| "first_idx p (x # xs) = (if p x then Some 0 else map_option Suc (first_idx p xs))"

section \<open>Lemmas\<close>

subsection \<open>The error monad\<close>

lemma bindE_simps [simp, monad_simps]:
  "bindE (Inl e) f = Inl e"
  "bindE (Inr x) f = f x"
  by (simp_all add: bindE_def)

lemma bindE_eq_Inr [monad_simps]:
  "bindE m f = Inr y \<longleftrightarrow> (\<exists>x. m = Inr x \<and> f x = Inr y)"
  by (cases m) simp_all

lemma bindE_eq_Inl [monad_simps]:
  "bindE m f = Inl e \<longleftrightarrow> m = Inl e \<or> (\<exists>x. m = Inr x \<and> f x = Inl e)"
  by (cases m) auto

lemma bindE_assoc: "bindE (bindE m f) g = bindE m (\<lambda>x. bindE (f x) g)"
  by (cases m) simp_all

lemma bindE_cong [fundef_cong]:
  "m = m' \<Longrightarrow> (\<And>x. m' = Inr x \<Longrightarrow> f x = g x) \<Longrightarrow> bindE m f = bindE m' g"
  by (cases m') auto

lemma checkE_eq_Inr [simp, monad_simps]: "checkE b e = Inr u \<longleftrightarrow> b"
  by (simp add: checkE_def)

lemma checkE_simps [simp]: "checkE True e = Inr ()" "checkE False e = Inl e"
  by (simp_all add: checkE_def)

lemma mapE_ok: "\<forall>x \<in> set xs. f x = Inr (g x) \<Longrightarrow> mapE f xs = Inr (map g xs)"
  by (induction xs) auto

lemma mapE_all:
  "\<forall>x \<in> set xs. \<exists>y. f x = Inr y \<and> P y \<Longrightarrow> \<exists>ys. mapE f xs = Inr ys \<and> length ys = length xs \<and> (\<forall>y \<in> set ys. P y)"
proof (induction xs)
  case (Cons x xs)
  then obtain y ys where "f x = Inr y" "P y" "mapE f xs = Inr ys" "length ys = length xs" "\<forall>y \<in> set ys. P y" by auto
  then show ?case by simp
qed simp

lemma foldE_append: "foldE f (xs @ ys) s = bindE (foldE f xs s) (foldE f ys)"
proof (induction xs arbitrary: s)
  case (Cons x xs)
  then have "foldE f (xs @ ys) = (\<lambda>u. bindE (foldE f xs u) (foldE f ys))" by blast
  then show ?case by (simp add: bindE_assoc)
qed simp

text \<open>An invariant every successful step keeps is kept by the whole fold.\<close>

lemma foldE_invariant:
  assumes "foldE f xs s = Inr t" and "P s"
    and "\<And>x s t. x \<in> set xs \<Longrightarrow> P s \<Longrightarrow> f x s = Inr t \<Longrightarrow> P t"
  shows "P t"
  using assms
proof (induction xs arbitrary: s)
  case Nil
  then show ?case by simp
next
  case (Cons x xs)
  from Cons.prems(1) obtain u where u: "f x s = Inr u" and rest: "foldE f xs u = Inr t"
    by (auto simp: bindE_eq_Inr)
  have "P u" by (rule Cons.prems(3) [OF _ Cons.prems(2) u]) simp
  then show ?case
    by (rule Cons.IH [OF rest]) (use Cons.prems(3) in auto)
qed

text \<open>If every step succeeds from states satisfying the invariant, so does the fold.\<close>

lemma foldE_total:
  assumes "P s" and "\<And>x s. x \<in> set xs \<Longrightarrow> P s \<Longrightarrow> \<exists>t. f x s = Inr t \<and> P t"
  shows "\<exists>t. foldE f xs s = Inr t \<and> P t"
  using assms
proof (induction xs arbitrary: s)
  case Nil
  then show ?case by simp
next
  case (Cons x xs)
  from Cons.prems obtain u where "f x s = Inr u" and "P u" by auto
  then show ?case using Cons.IH Cons.prems(2) by simp
qed

lemma repeatE_add:
  "repeatE (m + n) f s =
     bindE (repeatE m f s) (\<lambda>(xs, s1). bindE (repeatE n f s1) (\<lambda>(ys, s2). Inr (xs @ ys, s2)))"
proof (induction m arbitrary: s)
  case 0
  show ?case by (cases "repeatE n f s") auto
next
  case (Suc m)
  show ?case by (cases "f s") (auto simp: Suc bindE_assoc case_prod_beta)
qed

text \<open>A step that returns \<open>h j\<close> and moves from \<open>P j\<close> to \<open>P (Suc j)\<close>, run \<open>n\<close> times.\<close>

lemma repeatE_steps:
  assumes "P (0 :: nat) s" and "\<And>j s. j < n \<Longrightarrow> P j s \<Longrightarrow> \<exists>s'. f s = Inr (h j, s') \<and> P (Suc j) s'"
  shows "\<exists>s'. repeatE n f s = Inr (map h [0 ..< n], s') \<and> P n s'"
proof -
  have "\<exists>s'. repeatE k f s = Inr (map h [n - k ..< n], s') \<and> P n s'" if "k \<le> n" "P (n - k) s" for k s
    using that
  proof (induction k arbitrary: s)
    case 0
    then show ?case by simp
  next
    case (Suc k)
    then obtain s1 where s1: "f s = Inr (h (n - Suc k), s1)" "P (Suc (n - Suc k)) s1"
      using assms(2) [of "n - Suc k" s] by auto
    have "Suc (n - Suc k) = n - k" using Suc.prems(1) by simp
    with s1 Suc.IH [of s1] Suc.prems(1) obtain s2 where
      s2: "repeatE k f s1 = Inr (map h [n - k ..< n], s2)" "P n s2" by auto
    have "[n - Suc k ..< n] = (n - Suc k) # [n - k ..< n]"
      using Suc.prems(1) by (simp add: upt_rec Suc_diff_Suc)
    then show ?case using s1 s2 by simp
  qed
  from this [of n s] assms(1) show ?thesis by simp
qed

subsection \<open>Containers\<close>

lemma vec_get_simps [simp]:
  "i < length xs \<Longrightarrow> vec_get xs i = Inr (xs ! i)"
  "\<not> i < length xs \<Longrightarrow> vec_get xs i = Inl UB_Index"
  by (simp_all add: vec_get_def)

lemma vec_get_eq_Inr [monad_simps]: "vec_get xs i = Inr x \<longleftrightarrow> i < length xs \<and> x = xs ! i"
  by (auto simp: vec_get_def)

lemma vec_set_simps [simp]:
  "i < length xs \<Longrightarrow> vec_set xs i v = Inr (xs[i := v])"
  "\<not> i < length xs \<Longrightarrow> vec_set xs i v = Inl UB_Index"
  by (simp_all add: vec_set_def)

lemma vec_set_eq_Inr [monad_simps]: "vec_set xs i v = Inr ys \<longleftrightarrow> i < length xs \<and> ys = xs[i := v]"
  by (auto simp: vec_set_def)

lemma q_simps [simp]:
  "q_front [] = Inl UB_Front" "q_front (x # xs) = Inr x"
  "q_pop [] = Inl UB_Front" "q_pop (x # xs) = Inr xs"
  by (simp_all add: q_front_def q_pop_def)

lemma q_front_eq_Inr [monad_simps]: "q_front xs = Inr x \<longleftrightarrow> (\<exists>ys. xs = x # ys)"
  by (cases xs) auto

lemma q_pop_eq_Inr [monad_simps]: "q_pop xs = Inr ys \<longleftrightarrow> (\<exists>x. xs = x # ys)"
  by (cases xs) auto

lemma length_erase_at [simp]: "i < length xs \<Longrightarrow> length (erase_at i xs) = length xs - 1"
  by (induction i xs rule: erase_at.induct) auto

lemma erase_at_take_drop: "i < length xs \<Longrightarrow> erase_at i xs = take i xs @ drop (Suc i) xs"
  by (induction i xs rule: erase_at.induct) auto

lemma mset_erase_at: "i < length xs \<Longrightarrow> add_mset (xs ! i) (mset (erase_at i xs)) = mset xs"
  by (induction i xs rule: erase_at.induct) auto

lemma erase_at_zip:
  "length xs = length ys \<Longrightarrow> zip (erase_at i xs) (erase_at i ys) = erase_at i (zip xs ys)"
proof (induction i xs arbitrary: ys rule: erase_at.induct)
  case (2 x xs)
  then show ?case by (cases ys) auto
next
  case (3 i x xs)
  then show ?case by (cases ys) auto
qed simp

lemma sum_list_update_mset:
  "i < length xs \<Longrightarrow> f y = add_mset p (f (xs ! i)) \<Longrightarrow> sum_list (map f (xs[i := y])) = add_mset p (sum_list (map f xs))"
  by (induction xs arbitrary: i) (auto split: nat.split)

lemma first_idx_Some:
  "first_idx p xs = Some i \<longleftrightarrow> i < length xs \<and> p (xs ! i) \<and> (\<forall>j < i. \<not> p (xs ! j))"
proof (induction xs arbitrary: i)
  case Nil
  then show ?case by simp
next
  case (Cons x xs)
  show ?case
    by (cases i) (auto simp: Cons.IH nth_Cons split: nat.splits)
qed

lemma first_idx_None: "first_idx p xs = None \<longleftrightarrow> (\<forall>x \<in> set xs. \<not> p x)"
  by (induction xs) auto

lemma first_idx_exists: "x \<in> set xs \<Longrightarrow> p x \<Longrightarrow> \<exists>i. first_idx p xs = Some i"
  using first_idx_None [of p xs] by (cases "first_idx p xs") auto

lemma erase_first_idx: "first_idx (\<lambda>y. y = x) xs = Some i \<Longrightarrow> erase_at i xs = remove1 x xs"
  by (induction xs arbitrary: i) (auto split: if_splits)

subsection \<open>Conversions\<close>

lemma uint_u64_of_int [conv_simps]: "0 \<le> i \<Longrightarrow> i < 2 ^ 64 \<Longrightarrow> uint (u64_of_int i) = i"
  by (simp add: u64_of_int_def uint_word_of_int)

lemma idx_of_int_nonneg [conv_simps]: "0 \<le> i \<Longrightarrow> i < 2 ^ 64 \<Longrightarrow> idx_of_int i = nat i"
  using uint_u64_of_int [of i] by (simp add: idx_of_int_def flip: nat_uint_eq)

lemma int_of_u64_small [conv_simps]:
  assumes "uint w < 2 ^ 31"
  shows "int_of_u64 w = uint w"
proof -
  have "- (2 ^ 31) \<le> uint w" by (rule order_trans [of _ 0]) simp_all
  then have "signed_take_bit 31 (uint w) = uint w"
    using assms by (intro signed_take_bit_int_eq_self) simp_all
  with assms show ?thesis
    by (simp add: int_of_u64_def sint_uint unsigned_ucast_eq take_bit_int_eq_self)
qed

lemma int_of_u64_range: "- (2 ^ 31) \<le> int_of_u64 w" "int_of_u64 w < 2 ^ 31"
  using sint_greater_eq [of "ucast w :: u32"] sint_less [of "ucast w :: u32"] by (simp_all add: int_of_u64_def)

lemma int_of_u64_nat:
  assumes "unat w < 2 ^ 31"
  shows "int_of_u64 w = int (unat w)"
proof -
  have e: "uint w = int (unat w)" by simp
  have "uint w < 2 ^ 31" unfolding e using assms of_nat_less_iff [of "unat w" "2 ^ 31", where 'a = int] by simp
  with e show ?thesis by (simp only: int_of_u64_small)
qed

lemma u64_of_int_unat: "u64_of_int (int (unat w)) = w"
  by (simp add: u64_of_int_def)

lemma unat_u64_of_int: "n < 2 ^ 64 \<Longrightarrow> unat (u64_of_int (int n)) = n"
  by (simp add: u64_of_int_def unsigned_of_nat take_bit_nat_eq_self)

lemma int_of_u64_of_int [conv_simps]:
  assumes "- (2 ^ 31) \<le> i" and "i < 2 ^ 31"
  shows "int_of_u64 (u64_of_int i) = i"
proof -
  have "int_of_u64 (u64_of_int i) = signed_take_bit 31 (take_bit 64 i)"
    by (simp add: int_of_u64_def u64_of_int_def signed_of_int unsigned_of_int)
  also have "\<dots> = signed_take_bit 31 i"
    by (subst signed_take_bit_take_bit) simp
  also have "\<dots> = i"
    using assms by (simp add: signed_take_bit_int_eq_self)
  finally show ?thesis .
qed

end
