(* ===== verification/Rounding.thy ===== *)
theory Rounding
  imports Complex_Main Prelude
begin

text \<open>
  The floating point arithmetic the simulator uses to size its loops.  The code writes
  \<open>ceil((float)x / n)\<close> and \<open>ceil((double)x / n)\<close> for "number of cache lines", so the
  counts depend on IEEE rounding.  A finite binary floating point value is a fraction
  \<open>(numerator, denominator)\<close>; \<open>fl_round p\<close> rounds a fraction to the nearest value with a
  \<open>p\<close>-bit significand, ties to even (\<open>p = 24\<close> for \<open>float\<close>, \<open>p = 53\<close> for \<open>double\<close>).
  Overflow to infinity and subnormal numbers are left out: every value the code rounds is
  a quotient or a product of 64-bit integers and of a configured ratio, far inside the
  exponent range.

  The lemmas give the two facts every count relies on: conversion and division are exact
  to a relative error of $2^{-p}$, and rounding never passes an integer that fits the
  significand.  Together they show that the rounded ceiling division is the exact one
  as long as both operands are below $2^p$.
\<close>

section \<open>Definitions\<close>

type_synonym fl = "int \<times> nat"

definition float_p :: nat where "float_p = 24"
definition double_p :: nat where "double_p = 53"

fun nbits :: "nat \<Rightarrow> nat" where
  "nbits n = (if n = 0 then 0 else Suc (nbits (n div 2)))"

declare nbits.simps [simp del]

definition round_half_even :: "nat \<Rightarrow> nat \<Rightarrow> nat" where
  "round_half_even n d =
     (let q = n div d; r = n mod d in
      if 2 * r < d \<or> (2 * r = d \<and> even q) then q else Suc q)"

text \<open>\<open>n / d\<close> divided by $2^e$, as a fraction.\<close>

definition fl_scale :: "int \<Rightarrow> nat \<Rightarrow> nat \<Rightarrow> nat \<times> nat" where
  "fl_scale e n d = (if 0 \<le> e then (n, d * 2 ^ nat e) else (n * 2 ^ nat (- e), d))"

text \<open>The exponent for which the scaled fraction lies in $[2^{p-1}, 2^p)$.\<close>

definition fl_exp :: "nat \<Rightarrow> nat \<Rightarrow> nat \<Rightarrow> int" where
  "fl_exp p n d =
     (let e = int (nbits n) - int (nbits d) - int p; (a, b) = fl_scale e n d in
      if a < b * 2 ^ p then e else e + 1)"

definition fl_round_pos :: "nat \<Rightarrow> nat \<Rightarrow> nat \<Rightarrow> nat \<times> nat" where
  "fl_round_pos p n d =
     (if n = 0 then (0, 1)
      else let e = fl_exp p n d; (a, b) = fl_scale e n d; m = round_half_even a b in
        if 0 \<le> e then (m * 2 ^ nat e, 1) else (m, 2 ^ nat (- e)))"

definition fl_round :: "nat \<Rightarrow> fl \<Rightarrow> fl" where
  "fl_round p x =
     (let (a, b) = fl_round_pos p (nat \<bar>fst x\<bar>) (snd x) in (sgn (fst x) * int a, b))"

definition fl_of_u64 :: "nat \<Rightarrow> u64 \<Rightarrow> fl" where
  "fl_of_u64 p w = fl_round p (uint w, 1)"

definition fl_of_nat :: "nat \<Rightarrow> nat \<Rightarrow> fl" where
  "fl_of_nat p n = fl_round p (int n, 1)"

definition fl_div :: "nat \<Rightarrow> fl \<Rightarrow> fl \<Rightarrow> fl" where
  "fl_div p x y =
     fl_round p (fst x * sgn (fst y) * int (snd y), snd x * nat \<bar>fst y\<bar>)"

definition fl_mul :: "nat \<Rightarrow> fl \<Rightarrow> fl \<Rightarrow> fl" where
  "fl_mul p x y = fl_round p (fst x * fst y, snd x * snd y)"

definition fl_ceil :: "fl \<Rightarrow> int" where
  "fl_ceil x = - ((- fst x) div int (snd x))"

definition fl_trunc :: "fl \<Rightarrow> int" where
  "fl_trunc x = sgn (fst x) * (\<bar>fst x\<bar> div int (snd x))"

text \<open>\<open>ceil((float)x / y)\<close> and \<open>ceil((double)x / y)\<close> for unsigned operands: both operands
  are converted, the quotient is rounded, the ceiling is exact.  Division by zero gives an
  infinity or a NaN, whose conversion to an integer is undefined.\<close>

definition ceil_div_fl :: "nat \<Rightarrow> u64 \<Rightarrow> u64 \<Rightarrow> int result" where
  "ceil_div_fl p x y =
     (if y = 0 then Inl UB_Conversion
      else Inr (fl_ceil (fl_div p (fl_of_u64 p x) (fl_of_u64 p y))))"

definition ceil_div :: "nat \<Rightarrow> nat \<Rightarrow> nat" where
  "ceil_div n d = (n + d - 1) div d"

text \<open>Conversion of a floating point value to \<open>uint64_t\<close>.\<close>

definition u64_of_fl :: "fl \<Rightarrow> u64 result" where
  "u64_of_fl x = (let t = fl_trunc x in
     if 0 \<le> t \<and> t < 2 ^ 64 then Inr (u64_of_int t) else Inl UB_Conversion)"

lemmas fl_eval = fl_of_u64_def fl_of_nat_def fl_div_def fl_mul_def fl_ceil_def fl_trunc_def
  fl_round_def fl_round_pos_def fl_exp_def fl_scale_def round_half_even_def nbits.simps Let_def

section \<open>Correctness\<close>

definition fl_val :: "fl \<Rightarrow> real" where
  "fl_val x = real_of_int (fst x) / real (snd x)"

lemma nbits_bounds: "0 < n \<Longrightarrow> 2 ^ (nbits n - 1) \<le> n \<and> n < 2 ^ nbits n \<and> 0 < nbits n"
proof (induction n rule: nbits.induct)
  case (1 n)
  show ?case
  proof (cases "n = 1")
    case True
    then show ?thesis by (simp add: nbits.simps [of "Suc 0"] nbits.simps [of 0])
  next
    case False
    with "1.prems" have pos: "0 < n div 2" by auto
    with "1.IH" "1.prems" have ih: "2 ^ (nbits (n div 2) - 1) \<le> n div 2"
      "n div 2 < 2 ^ nbits (n div 2)" "0 < nbits (n div 2)" by auto
    have eq: "nbits n = Suc (nbits (n div 2))" using "1.prems" by (simp add: nbits.simps [of n])
    obtain k where k: "nbits (n div 2) = Suc k" using ih(3) by (cases "nbits (n div 2)") auto
    from ih(1,2) show ?thesis by (simp add: eq k) linarith
  qed
qed

lemma fl_scale_val:
  assumes "0 < d" and "fl_scale e n d = (a, b)"
  shows "0 < b" and "real a / real b = real n / real d / 2 powr e"
proof -
  show "0 < b" using assms by (auto simp: fl_scale_def split: if_splits)
  show "real a / real b = real n / real d / 2 powr e"
  proof (cases "0 \<le> e")
    case True
    then have "2 powr real_of_int e = 2 ^ nat e" by (simp add: powr_real_of_int)
    with True assms show ?thesis by (auto simp: fl_scale_def)
  next
    case False
    then have "2 powr real_of_int e = inverse (2 ^ nat (- e))" by (simp add: powr_real_of_int)
    with False assms show ?thesis by (auto simp: fl_scale_def field_simps)
  qed
qed

lemma nbits_powr:
  assumes "0 < n"
  shows "2 powr (real (nbits n) - 1) \<le> real n" and "real n < 2 powr real (nbits n)"
proof -
  have "real (2 ^ (nbits n - 1)) \<le> real n"
    using nbits_bounds [OF assms] by (intro of_nat_mono) simp
  moreover have "2 powr (real (nbits n) - 1) = 2 ^ (nbits n - 1)"
    using nbits_bounds [OF assms] by (simp add: powr_realpow [symmetric] of_nat_diff)
  ultimately show "2 powr (real (nbits n) - 1) \<le> real n" by simp
  have "real n < real (2 ^ nbits n)"
    using nbits_bounds [OF assms] by (subst of_nat_less_iff) simp
  then show "real n < 2 powr real (nbits n)" by (simp add: powr_realpow)
qed

lemma quot_powr_bounds:
  assumes "0 < n" and "0 < d"
  shows "2 powr (real (nbits n) - real (nbits d) - 1) < real n / real d"
    and "real n / real d < 2 powr (real (nbits n) - real (nbits d) + 1)"
proof -
  note n = nbits_powr [OF assms(1)] and d = nbits_powr [OF assms(2)]
  have pos: "0 < real d" "0 < real n" using assms by auto
  have "2 powr (real (nbits n) - real (nbits d) - 1)
      = 2 powr (real (nbits n) - 1) / 2 powr real (nbits d)"
    by (simp add: powr_diff)
  also have "\<dots> \<le> real n / 2 powr real (nbits d)"
    using n by (simp add: divide_right_mono)
  also have "\<dots> < real n / real d"
    using d pos by (intro divide_strict_left_mono) auto
  finally show "2 powr (real (nbits n) - real (nbits d) - 1) < real n / real d" .
  have "real n / real d \<le> real n / 2 powr (real (nbits d) - 1)"
    using d pos by (intro divide_left_mono) auto
  also have "\<dots> < 2 powr real (nbits n) / 2 powr (real (nbits d) - 1)"
    using n by (intro divide_strict_right_mono) auto
  also have "\<dots> = 2 powr (real (nbits n) - real (nbits d) + 1)"
    by (simp add: powr_diff [symmetric] algebra_simps)
  finally show "real n / real d < 2 powr (real (nbits n) - real (nbits d) + 1)" .
qed

lemma fl_exp_range:
  assumes "0 < n" and "0 < d" and "0 < p"
  shows "2 ^ (p - 1) \<le> real n / real d / 2 powr fl_exp p n d"
    and "real n / real d / 2 powr fl_exp p n d < 2 ^ p"
proof -
  define e where "e = int (nbits n) - int (nbits d) - int p"
  define y where "y = real n / real d / 2 powr e"
  obtain a b where ab: "fl_scale e n d = (a, b)" by fastforce
  note sc = fl_scale_val [OF assms(2) ab]
  have ex: "fl_exp p n d = (if a < b * 2 ^ p then e else e + 1)"
    by (simp add: fl_exp_def e_def [symmetric] ab Let_def)
  have test: "a < b * 2 ^ p \<longleftrightarrow> y < 2 ^ p"
  proof -
    have "a < b * 2 ^ p \<longleftrightarrow> real a < real b * 2 ^ p"
      by (simp flip: of_nat_less_iff [where ?'a = real])
    also have "\<dots> \<longleftrightarrow> real a / real b < 2 ^ p" using sc(1) by (simp add: field_simps)
    finally show ?thesis using sc(2) by (simp add: y_def)
  qed
  have low: "2 ^ (p - 1) < y"
  proof -
    have "2 powr (real (nbits n) - real (nbits d) - 1) / 2 powr e < y"
      unfolding y_def using quot_powr_bounds(1) [OF assms(1,2)] by (intro divide_strict_right_mono) auto
    also have "2 powr (real (nbits n) - real (nbits d) - 1) / 2 powr e = 2 powr (real p - 1)"
      by (simp add: e_def powr_diff [symmetric])
    finally show ?thesis using assms(3) by (simp add: powr_realpow [symmetric] of_nat_diff)
  qed
  have high: "y < 2 * 2 ^ p"
  proof -
    have "y < 2 powr (real (nbits n) - real (nbits d) + 1) / 2 powr e"
      unfolding y_def using quot_powr_bounds(2) [OF assms(1,2)] by (intro divide_strict_right_mono) auto
    also have "\<dots> = 2 powr (real p + 1)"
      by (simp add: e_def powr_diff [symmetric] add.commute)
    finally show ?thesis by (simp add: powr_add powr_realpow)
  qed
  have half: "real n / real d / 2 powr (e + 1) = y / 2"
    by (simp add: y_def powr_add)
  have pp: "(2::real) ^ p = 2 * 2 ^ (p - 1)" using assms(3) by (cases p) auto
  define z where "z = real n / real d / 2 powr fl_exp p n d"
  have zy: "z = (if y < 2 ^ p then y else y / 2)"
    using half test unfolding z_def by (simp only: ex y_def split: if_splits) simp
  have "2 ^ (p - 1) \<le> z" and "z < 2 ^ p"
    using low high pp unfolding zy by (simp_all split: if_splits)
  then show "2 ^ (p - 1) \<le> real n / real d / 2 powr fl_exp p n d"
    and "real n / real d / 2 powr fl_exp p n d < 2 ^ p" by (simp_all only: z_def)
qed

lemma fl_exp_low:
  assumes "0 < n" and "0 < d" and "0 < p"
  shows "2 ^ (p - 1) * 2 powr fl_exp p n d \<le> real n / real d"
proof -
  have "0 < (2::real) powr fl_exp p n d" by simp
  from pos_le_divide_eq [OF this] fl_exp_range(1) [OF assms] show ?thesis by blast
qed

lemma round_half_even_err:
  assumes "0 < d"
  shows "\<bar>real (round_half_even n d) - real n / real d\<bar> \<le> 1 / 2"
proof -
  define q r where "q = n div d" and "r = n mod d"
  have n: "n = q * d + r" and r: "r < d" using assms by (simp_all add: q_def r_def)
  have x: "real n / real d = real q + real r / real d"
    using assms by (simp add: n field_simps)
  have rr: "round_half_even n d = (if 2 * r < d \<or> (2 * r = d \<and> even q) then q else Suc q)"
    by (simp add: round_half_even_def Let_def q_def r_def)
  show ?thesis
  proof (cases "2 * r < d \<or> (2 * r = d \<and> even q)")
    case True
    then have "2 * real r \<le> real d" by linarith
    then show ?thesis using True assms by (simp add: rr x field_simps)
  next
    case False
    then have "real d \<le> 2 * real r" by linarith
    moreover have "real r \<le> real d" using r by simp
    ultimately show ?thesis using False assms by (simp add: rr x abs_if field_simps)
  qed
qed

text \<open>Rounding to an integer never passes an integer.\<close>

lemma round_half_even_le:
  assumes "0 < d" and "real n / real d \<le> real k"
  shows "round_half_even n d \<le> k"
proof -
  have "real n \<le> real (k * d)" using assms by (simp add: field_simps)
  then have le: "n \<le> k * d" by (simp only: of_nat_le_iff)
  then have "n div d \<le> k" using assms(1) by (metis div_le_mono nonzero_mult_div_cancel_right less_numeral_extra(3))
  moreover have "n div d < k" if "n mod d \<noteq> 0"
  proof (rule ccontr)
    assume "\<not> n div d < k"
    with \<open>n div d \<le> k\<close> have "n = k * d + n mod d" by (metis div_mult_mod_eq le_antisym not_less)
    with le that show False by linarith
  qed
  ultimately show ?thesis using assms(1) by (auto simp: round_half_even_def Let_def)
qed

lemma fl_round_pos_val:
  assumes "0 < n" and "0 < d" and "0 < p" and "fl_round_pos p n d = (u, v)"
    and "fl_scale (fl_exp p n d) n d = (a, b)"
  shows "0 < v" and "real u / real v = real (round_half_even a b) * 2 powr fl_exp p n d"
proof -
  define e where "e = fl_exp p n d"
  have uv: "(u, v) = (if 0 \<le> e then (round_half_even a b * 2 ^ nat e, 1)
      else (round_half_even a b, 2 ^ nat (- e)))"
    using assms by (auto simp: fl_round_pos_def e_def Let_def split: if_splits)
  show "0 < v" using uv by (auto split: if_splits)
  show "real u / real v = real (round_half_even a b) * 2 powr fl_exp p n d"
    using uv by (cases "0 \<le> e") (auto simp: e_def [symmetric] powr_real_of_int divide_inverse)
qed

lemma fl_round_pos_err:
  assumes "0 < n" and "0 < d" and "0 < p" and "fl_round_pos p n d = (u, v)"
  shows "\<bar>real u / real v - real n / real d\<bar> \<le> real n / real d / 2 ^ p"
proof -
  define e where "e = fl_exp p n d"
  obtain a b where ab: "fl_scale e n d = (a, b)" by fastforce
  note sc = fl_scale_val [OF assms(2) ab]
  have uv: "real u / real v = real (round_half_even a b) * 2 powr e"
    using fl_round_pos_val(2) [OF assms] ab by (simp add: e_def)
  have x: "real n / real d = real a / real b * 2 powr e" using sc(2) by simp
  have "\<bar>real u / real v - real n / real d\<bar> = \<bar>real (round_half_even a b) - real a / real b\<bar> * 2 powr e"
    by (simp add: uv x abs_mult left_diff_distrib [symmetric] del: times_divide_eq_left)
  also have "\<dots> \<le> 1 / 2 * 2 powr e"
    using round_half_even_err [OF sc(1)] by (intro mult_right_mono) auto
  also have "\<dots> \<le> real n / real d / 2 ^ p"
  proof -
    have "2 ^ (p - 1) * 2 powr e \<le> real n / real d"
      unfolding e_def by (rule fl_exp_low [OF assms(1-3)])
    moreover have "(2::real) ^ p = 2 * 2 ^ (p - 1)" using assms(3) by (cases p) auto
    ultimately have "2 powr e * 2 ^ p \<le> 2 * (real n / real d)"
      by (simp only: mult.commute mult.left_commute mult_le_cancel_left) auto
    then have "1 / 2 * 2 powr e * 2 ^ p \<le> real n / real d" by linarith
    then show ?thesis by (subst pos_le_divide_eq) simp_all
  qed
  finally show ?thesis .
qed

lemma fl_round_pos_le:
  assumes "0 < n" and "0 < d" and "0 < p" and "fl_round_pos p n d = (u, v)"
    and "real n / real d \<le> real k" and "real n / real d < 2 ^ p"
  shows "real u / real v \<le> real k"
proof -
  define e where "e = fl_exp p n d"
  obtain a b where ab: "fl_scale e n d = (a, b)" by fastforce
  note sc = fl_scale_val [OF assms(2) ab]
  have "e \<le> 0"
  proof (rule ccontr)
    assume "\<not> e \<le> 0"
    then have "(2::real) powr 1 \<le> 2 powr e" by (intro powr_mono) auto
    then have "2 ^ (p - 1) * 2 \<le> (2 ^ (p - 1) * 2 powr e :: real)" by simp
    also have "\<dots> \<le> real n / real d"
      unfolding e_def by (rule fl_exp_low [OF assms(1-3)])
    finally show False using assms(3,6) by (cases p) auto
  qed
  define s where "s = nat (- e)"
  have p2: "2 powr e = 1 / 2 ^ s"
    using \<open>e \<le> 0\<close> by (cases "e = 0") (auto simp: s_def powr_real_of_int inverse_eq_divide)
  have "real a / real b \<le> real (k * 2 ^ s)"
    using mult_right_mono [OF assms(5), of "2 ^ s"] sc(2) by (simp add: p2)
  then have "real (round_half_even a b) \<le> real (k * 2 ^ s)"
    using round_half_even_le [OF sc(1)] by (simp del: of_nat_mult)
  then have "real (round_half_even a b) / 2 ^ s \<le> real k"
    by (simp add: divide_le_eq)
  then show ?thesis
    using fl_round_pos_val(2) [OF assms(1-4)] ab by (simp add: e_def [symmetric] p2)
qed

text \<open>Conversion of an integer that fits the significand is exact.\<close>

lemma fl_round_pos_exact:
  assumes "0 < n" and "0 < d" and "0 < p" and "fl_round_pos p n d = (u, v)"
    and "real n / real d = real k" and "k < 2 ^ p"
  shows "real u / real v = real k"
proof -
  have "real k < real (2 ^ p)" using assms(6) by (simp only: of_nat_less_iff)
  then have kp: "real k < 2 ^ p" by simp
  have "real u / real v \<le> real k"
    using fl_round_pos_le [OF assms(1-4)] assms(5) kp by simp
  moreover have "real k \<le> real u / real v"
  proof (rule ccontr)
    assume less: "\<not> real k \<le> real u / real v"
    obtain a b where ab: "fl_scale (fl_exp p n d) n d = (a, b)" by fastforce
    define e where "e = fl_exp p n d"
    note sc = fl_scale_val [OF assms(2) ab]
    note uv = fl_round_pos_val(2) [OF assms(1-4) ab]
    have "e \<le> 0"
    proof (rule ccontr)
      assume "\<not> e \<le> 0"
      then have "(2::real) powr 1 \<le> 2 powr e" by (intro powr_mono) auto
      then have "2 ^ (p - 1) * 2 \<le> (2 ^ (p - 1) * 2 powr e :: real)" by simp
      also have "\<dots> \<le> real n / real d" unfolding e_def by (rule fl_exp_low [OF assms(1-3)])
      finally show False using assms(3,5) kp by (cases p) auto
    qed
    then have p2: "2 powr e = 1 / 2 ^ nat (- e)"
      by (cases "e = 0") (auto simp: powr_real_of_int inverse_eq_divide)
    then have "real a / real b = real (k * 2 ^ nat (- e))"
      using sc(2) assms(5) by (simp add: e_def)
    then have "real a = real (k * 2 ^ nat (- e) * b)"
      using sc(1) by (simp add: field_simps)
    then have "a = k * 2 ^ nat (- e) * b" by (simp only: of_nat_eq_iff)
    then have "round_half_even a b = k * 2 ^ nat (- e)"
      using sc(1) by (simp add: round_half_even_def Let_def)
    then have "real u / real v = real k" using uv p2 by (simp add: e_def)
    with less show False by simp
  qed
  ultimately show ?thesis by simp
qed

lemma fl_of_u64_val:
  assumes "uint x < 2 ^ p" and "0 < p"
  shows "fl_val (fl_of_u64 p x) = real (unat x)" and "0 < snd (fl_of_u64 p x)"
    and "0 \<le> fst (fl_of_u64 p x)"
proof -
  obtain u v where uv: "fl_round_pos p (unat x) 1 = (u, v)" by fastforce
  have fl: "fl_of_u64 p x = (sgn (uint x) * int u, v)"
    using uv by (simp add: fl_of_u64_def fl_round_def)
  have "fl_val (fl_of_u64 p x) = real (unat x) \<and> 0 < snd (fl_of_u64 p x) \<and> 0 \<le> fst (fl_of_u64 p x)"
  proof (cases "x = 0")
    case True
    with uv have "u = 0" "v = 1" by (simp_all add: fl_round_pos_def)
    with True fl show ?thesis by (simp add: fl_val_def)
  next
    case False
    then have pos: "0 < unat x" by (simp add: unat_gt_0)
    have "int (unat x) < int (2 ^ p)" using assms(1) by simp
    then have less: "unat x < 2 ^ p" by (simp only: of_nat_less_iff)
    have "real u / real v = real (unat x)"
      by (rule fl_round_pos_exact [OF pos zero_less_one assms(2) uv _ less]) simp
    moreover have "0 < v"
      using fl_round_pos_val(1) [OF pos _ assms(2) uv] by (metis old.prod.exhaust zero_less_one)
    moreover have "sgn (uint x) = 1"
      using False uint_ge_0 [of x] by (simp add: sgn_if uint_0_iff) (simp add: less_le uint_0_iff)
    ultimately show ?thesis by (simp add: fl fl_val_def)
  qed
  then show "fl_val (fl_of_u64 p x) = real (unat x)" and "0 < snd (fl_of_u64 p x)"
    and "0 \<le> fst (fl_of_u64 p x)" by auto
qed

lemma fl_ceil_unique:
  assumes "0 < snd x" and "real_of_int k - 1 < fl_val x" and "fl_val x \<le> real_of_int k"
  shows "fl_ceil x = k"
proof -
  have "fl_ceil x = \<lceil>fl_val x\<rceil>"
    using floor_divide_of_int_eq [of "- fst x" "int (snd x)", where ?'a = real]
    by (simp add: fl_ceil_def fl_val_def ceiling_def)
  then show ?thesis using assms by (simp add: ceiling_eq_iff)
qed

lemma ceil_div_bounds:
  assumes "0 < d"
  shows "real n / real d \<le> real (ceil_div n d)"
    and "real (ceil_div n d) - 1 < real n / real d"
proof -
  have split: "n + d - 1 = ceil_div n d * d + (n + d - 1) mod d"
    by (simp add: ceil_div_def)
  have m: "(n + d - 1) mod d < d" using assms by simp
  have "n \<le> ceil_div n d * d" using split m assms by linarith
  then have "real n \<le> real (ceil_div n d * d)" by (simp only: of_nat_le_iff)
  then show "real n / real d \<le> real (ceil_div n d)" using assms by (simp add: field_simps)
  have "ceil_div n d * d < n + d" using split m assms by linarith
  then have "real (ceil_div n d * d) < real (n + d)" by (simp only: of_nat_less_iff)
  then show "real (ceil_div n d) - 1 < real n / real d" using assms by (simp add: field_simps)
qed

lemma ceil_div_le: "0 < d \<Longrightarrow> ceil_div n d \<le> n"
  by (cases n) (auto simp: ceil_div_def div_le_dividend intro: order_trans [OF div_le_mono2 [of 1]]
      simp del: div_by_1 simp add: Suc_leI le_div_geq)

text \<open>The exactness of the rounded ceiling division.\<close>

lemma ceil_div_fl_exact:
  assumes "0 < p" and "uint x < 2 ^ p" and "uint y < 2 ^ p" and "y \<noteq> 0"
  shows "ceil_div_fl p x y = Inr (int (ceil_div (unat x) (unat y)))"
proof -
  let ?fx = "fl_of_u64 p x" and ?fy = "fl_of_u64 p y"
  define nx ny where "nx = unat x" and "ny = unat y"
  note X = fl_of_u64_val [OF assms(2,1), folded nx_def]
    and Y = fl_of_u64_val [OF assms(3,1), folded ny_def]
  have d: "0 < ny" using assms(4) by (simp add: unat_gt_0 ny_def)
  then have vy: "fl_val ?fy > 0" by (simp only: Y(1) of_nat_0_less_iff)
  then have fy: "0 < fst ?fy" using Y(2) by (simp add: fl_val_def zero_less_divide_iff)
  define n m where "n = nat (fst ?fx * int (snd ?fy))" and "m = snd ?fx * nat (fst ?fy)"
  have m: "0 < m" using X(2) fy by (simp add: m_def)
  have q: "real n / real m = real nx / real ny"
  proof -
    have "real n / real m = fl_val ?fx / fl_val ?fy"
      using X(2,3) Y(2) fy by (simp add: n_def m_def fl_val_def field_simps)
    then show ?thesis by (simp only: X(1) Y(1))
  qed
  obtain u v where uv: "fl_round_pos p n m = (u, v)" by fastforce
  let ?k = "ceil_div nx ny"
  have div: "fl_div p ?fx ?fy = (sgn (int n) * int u, v)"
    using X(3) fy uv by (simp add: fl_div_def fl_round_def n_def m_def sgn_mult)
  have "fl_ceil (fl_div p ?fx ?fy) = int ?k"
  proof (cases "n = 0")
    case True
    then have "real nx / real ny = 0" using q by simp
    then have "nx = 0" using d by (simp only: divide_eq_0_iff of_nat_eq_0_iff) simp
    then have "?k = 0" using d by (simp add: ceil_div_def)
    with True uv show ?thesis by (simp add: div fl_ceil_def)
  next
    case False
    then have n: "0 < n" by simp
    obtain a b where ab: "fl_scale (fl_exp p n m) n m = (a, b)" by fastforce
    have v: "0 < v" by (rule fl_round_pos_val(1) [OF n m assms(1) uv ab])
    have "int nx < int (2 ^ p)" using assms(2) by (simp add: nx_def)
    then have "real nx < real (2 ^ p)" by (simp only: of_nat_less_iff)
    then have xs: "real nx < 2 ^ p" by simp
    have up: "real u / real v \<le> real ?k"
    proof (rule fl_round_pos_le [OF n m assms(1) uv])
      show "real n / real m \<le> real ?k" unfolding q by (rule ceil_div_bounds(1) [OF d])
      have "real nx / real ny \<le> real nx" using d by (simp add: divide_le_eq mult_le_cancel_left1)
      then show "real n / real m < 2 ^ p" unfolding q using xs by linarith
    qed
    have low: "real ?k - 1 < real u / real v"
    proof -
      let ?q = "real nx / real ny"
      have k1: "real ?k - 1 + 1 / real ny \<le> ?q"
      proof -
        have "real (?k * ny) < real (nx + ny)"
          using ceil_div_bounds(2) [OF d, of "nx"] d by (simp add: field_simps)
        then have "?k * ny + 1 \<le> nx + ny" by (simp only: of_nat_less_iff)
        then have "real (?k * ny + 1) \<le> real (nx + ny)" by (simp only: of_nat_le_iff)
        then have "(real ?k * real ny + 1 - real ny) / real ny \<le> ?q"
          by (intro divide_right_mono) simp_all
        then show ?thesis using d by (simp add: add_divide_distrib diff_divide_distrib)
      qed
      have "?q - ?q / 2 ^ p \<le> real u / real v"
        using fl_round_pos_err [OF n m assms(1) uv] by (simp add: q abs_le_iff)
      moreover have "?q / 2 ^ p < 1 / real ny"
        using xs d by (simp add: field_simps)
      ultimately show ?thesis using k1 by linarith
    qed
    show ?thesis
      by (rule fl_ceil_unique) (use up low v n in \<open>simp_all add: div fl_val_def\<close>)
  qed
  with assms(4) show ?thesis by (simp add: ceil_div_fl_def nx_def ny_def)
qed

end
