(* ===== verification/Common_Types.thy ===== *)
theory Common_Types
  imports Rounding
begin

text \<open>
  The shared declarations of \<open>Common.h\<close> and the global configuration variables that
  \<open>IniParser.cpp\<close> and \<open>DataReader.cpp\<close> define: the small structs passed between the
  readers, the buffer and the accelerator, the constants read from the ini file
  (\<open>ini_config\<close>) and the matrix dimensions (\<open>dims\<close>).
\<close>

definition MAX_QUEUE_SIZE :: int where "MAX_QUEUE_SIZE = 1000000"
definition READ :: bool where "READ = False"
definition WRITE :: bool where "WRITE = True"

datatype Type = X | A_ROW | A_COL

record DCFlag =
  x_over :: bool
  a_row_over :: bool
  a_col_over :: bool

record ReaderFlag =
  req_need :: bool
  q_empty :: bool

record ERData =
  rowindex :: u64
  colindex :: u64
  er_address :: u64
  er_pre_w_fold :: int
  er_pre_w_fold_start :: int
  er_pre_repeat :: int
  is_end :: bool

text \<open>\<open>float ifvalue\<close> is carried along and never inspected by the simulator.\<close>

record XRData =
  ifvalue :: fl
  xr_is_end :: bool

record RowInfo =
  row_start :: u64
  row_end :: u64

record RCNT =
  tot_read_cnt :: int
  pre_read_cnt :: int
  read_cnt_acm :: int

text \<open>A value-initialised \<open>ERData\<close>, which \<open>std::map::operator[]\<close> inserts for a missing key.\<close>

definition zero_ERData :: ERData where
  "zero_ERData = \<lparr>rowindex = 0, colindex = 0, er_address = 0, er_pre_w_fold = 0,
     er_pre_w_fold_start = 0, er_pre_repeat = 0, is_end = False\<rparr>"

record ini_config =
  gbsize :: u64
  xbsize :: u64
  tot_acc :: u64
  MAX_DRAM :: int
  CACHE_LINE_BYTE :: u64
  CACHE_LINE_COUNT :: u64
  UNIT_BYTE :: u64
  X_START :: u64
  A_ROW_START :: u64
  A_COL_START :: u64
  WEIGHT_START :: u64
  XW_START :: u64
  AXW_START :: u64
  SYSTOLIC_DIM :: int
  CACHE_REPL_ALGO :: u64
  DIVISION_TYPE :: int
  MECHA_TYPE :: int
  UNIT_W_READ :: int
  BLOOM_FILTER_NUM :: u64
  BF_RATIO :: fl
  BF_OVERLAP :: u64
  CACHE_WAY_N :: u64
  MEM_TYPE :: string

record dims =
  w_h :: u64
  w_w :: u64
  x_h :: u64
  x_w :: u64
  a_w :: u64
  a_h :: u64

text \<open>\<open>MAX_QUEUE_SIZE - q_space\<close> with an unsigned \<open>q_space\<close>: the literal is converted, so
  the difference wraps instead of going negative.\<close>

definition queue_room :: "u64 \<Rightarrow> u64" where
  "queue_room q = u64_of_int MAX_QUEUE_SIZE - q"

text \<open>Reading a \<open>std::map\<close> with \<open>operator[]\<close>: a missing key is inserted with a default.\<close>

definition map_index :: "'v \<Rightarrow> ('k \<rightharpoonup> 'v) \<Rightarrow> 'k \<Rightarrow> 'v \<times> ('k \<rightharpoonup> 'v)" where
  "map_index dflt m k = (case m k of Some v \<Rightarrow> (v, m) | None \<Rightarrow> (dflt, m(k \<mapsto> dflt)))"

lemma map_index_fst [simp]: "fst (map_index dflt m k) = (case m k of Some v \<Rightarrow> v | None \<Rightarrow> dflt)"
  by (simp add: map_index_def split: option.splits)

lemma map_index_get [simp]:
  "snd (map_index dflt m k) k = Some (fst (map_index dflt m k))"
  by (simp add: map_index_def split: option.splits)

lemma map_index_other [simp]: "j \<noteq> k \<Longrightarrow> snd (map_index dflt m k) j = m j"
  by (simp add: map_index_def split: option.splits)

section \<open>Conversions and integer division\<close>

text \<open>A floating point value converted to \<open>int\<close>, and the recurring
  \<open>ceil((double)x / y)\<close> stored in an \<open>int\<close>.\<close>

definition to_c_int :: "int \<Rightarrow> int result" where
  "to_c_int i = (if - (2 ^ 31) \<le> i \<and> i < 2 ^ 31 then Inr i else Inl UB_Conversion)"

definition ceil_div_int :: "nat \<Rightarrow> u64 \<Rightarrow> u64 \<Rightarrow> int result" where
  "ceil_div_int p x y = bindE (ceil_div_fl p x y) to_c_int"

text \<open>\<open>/\<close> and \<open>%\<close> on \<open>int\<close> round towards zero; on \<open>uint64_t\<close> they are \<open>div\<close> and \<open>mod\<close>.  A zero
  divisor is undefined.\<close>

definition c_div :: "int \<Rightarrow> int \<Rightarrow> int result" where
  "c_div a b = (if b = 0 then Inl UB_Division else Inr (sgn a * sgn b * (\<bar>a\<bar> div \<bar>b\<bar>)))"

definition c_rem :: "int \<Rightarrow> int \<Rightarrow> int result" where
  "c_rem a b = (if b = 0 then Inl UB_Division else Inr (sgn a * (\<bar>a\<bar> mod \<bar>b\<bar>)))"

definition u_div :: "u64 \<Rightarrow> u64 \<Rightarrow> u64 result" where
  "u_div a b = (if b = 0 then Inl UB_Division else Inr (a div b))"

definition u_rem :: "u64 \<Rightarrow> u64 \<Rightarrow> u64 result" where
  "u_rem a b = (if b = 0 then Inl UB_Division else Inr (a mod b))"

lemma c_rem_nonneg: "0 \<le> a \<Longrightarrow> 0 < b \<Longrightarrow> c_rem a b = Inr (a mod b)"
  by (cases "a = 0") (simp_all add: c_rem_def)

lemma c_div_nonneg: "0 \<le> a \<Longrightarrow> 0 < b \<Longrightarrow> c_div a b = Inr (a div b)"
  by (cases "a = 0") (simp_all add: c_div_def)

lemma ceil_div_int_exact:
  assumes "0 < p" and "unat x < 2 ^ p" and "unat y < 2 ^ p" and "y \<noteq> 0" and "unat x < 2 ^ 31"
  shows "ceil_div_int p x y = Inr (int (ceil_div (unat x) (unat y)))"
proof -
  have "0 < unat y" using assms(4) by (simp add: unat_gt_0)
  then have "ceil_div (unat x) (unat y) \<le> unat x" by (rule ceil_div_le)
  then have "ceil_div (unat x) (unat y) < 2 ^ 31" using assms(5) by (rule le_less_trans)
  then have "int (ceil_div (unat x) (unat y)) < 2 ^ 31"
    using of_nat_less_iff [of "ceil_div (unat x) (unat y)" "2 ^ 31", where 'a = int] by simp
  moreover have "uint x < 2 ^ p" "uint y < 2 ^ p"
    using assms(2,3) of_nat_less_iff [of "unat x" "2 ^ p", where 'a = int]
      of_nat_less_iff [of "unat y" "2 ^ p", where 'a = int] by simp_all
  ultimately show ?thesis
    using ceil_div_fl_exact [OF assms(1) _ _ assms(4), of x] by (simp add: ceil_div_int_def to_c_int_def)
qed

section \<open>Global variables of the readers\<close>

text \<open>Defined in \<open>DataReader.cpp\<close> (the request counts of the row blocks and their copies),
  \<open>DataController.cpp\<close> (\<open>v_limit\<close>, \<open>e_limit\<close>), \<open>VertexReader.cpp\<close> (\<open>v_cache\<close>), \<open>EdgeReader.cpp\<close>
  (\<open>e_cache\<close>, \<open>last_v\<close>, \<open>v_arch\<close>, \<open>block_cnt\<close>, \<open>zero_row\<close>), \<open>Distributer.cpp\<close> (\<open>w_fold\<close>) and
  \<open>RunSimulator.cpp\<close> (\<open>f_flag\<close>, \<open>max_v\<close>).\<close>

record globals =
  edge_req_count :: "u64 list"
  vertex_req_count :: "u64 list"
  edge_req_count_cnt :: "u64 list"
  vertex_req_count_cnt :: "u64 list"
  v_limit :: u64
  e_limit :: u64
  v_cache :: "u64 list"
  e_cache :: "u64 list"
  last_v :: u64
  v_arch :: u64
  block_cnt :: int
  zero_row :: "u64 list"
  f_flag :: bool
  max_v :: u64
  w_fold :: u64

end
