(* ===== verification/Recency_Policies.thy ===== *)
theory Recency_Policies
  imports Common_Types
begin

text \<open>
  The state of \<open>CacheReplacement.cpp\<close> (its file-level vectors) and the two policies that
  keep one ordered list of lines per cache set: \<open>FIFO\<close> and \<open>LRU\<close>.  A line is named by
  the pair (column index, weight block index); the code keeps the two components in two
  parallel vectors, and the lemmas read them together through \<open>fifo_pairs\<close> and
  \<open>lru_pairs\<close>.  The locale \<open>victim_policy\<close> states what the global buffer relies on:
  accessing a new line adds it to the tracked lines of its set, and replacing removes one
  tracked line and names it.  Both policies interpret it.
\<close>

section \<open>State\<close>

record repl_state =
  fifoList :: "int list list"
  fifoWeightBlkIdx :: "int list list"
  lruList :: "int list list"
  lruWeightBlkIdx :: "int list list"
  bfList :: "int list list"
  olBfList :: "int list list"
  bfIdx :: "int list"
  ovlBFIdx :: "int list"
  useOvlBF :: "bool list"
  rrpvList :: "int list list"
  lineOutcome :: "bool list"
  lineSignature :: "int list"
  SHCT :: "(int \<times> int) list"
  mvmTmp :: "int list"
  medians :: "fl option list"
  mvmBlkIdxVector :: "int list"
  mvmCurIdx :: int

definition empty_repl :: repl_state where
  "empty_repl = \<lparr>fifoList = [], fifoWeightBlkIdx = [], lruList = [], lruWeightBlkIdx = [],
     bfList = [], olBfList = [], bfIdx = [], ovlBFIdx = [], useOvlBF = [], rrpvList = [],
     lineOutcome = [], lineSignature = [], SHCT = [], mvmTmp = [], medians = [],
     mvmBlkIdxVector = [], mvmCurIdx = 0\<rparr>"

section \<open>FIFO\<close>

definition FIFO_new :: "int \<Rightarrow> int \<Rightarrow> repl_state \<Rightarrow> repl_state" where
  "FIFO_new wayN setN s =
     s\<lparr>fifoList := fifoList s @ replicate (nat setN) [],
       fifoWeightBlkIdx := fifoWeightBlkIdx s @ replicate (nat setN) []\<rparr>"

definition FIFO_access :: "int \<Rightarrow> int \<Rightarrow> int \<Rightarrow> repl_state \<Rightarrow> repl_state result" where
  "FIFO_access setIdx data weightBlkIdx s =
     (let i = idx_of_int setIdx in
      bindE (vec_get (fifoList s) i) (\<lambda>l.
      bindE (vec_get (fifoWeightBlkIdx s) i) (\<lambda>w.
      Inr (s\<lparr>fifoList := (fifoList s)[i := l @ [data]],
             fifoWeightBlkIdx := (fifoWeightBlkIdx s)[i := w @ [weightBlkIdx]]\<rparr>))))"

definition FIFO_replace :: "int \<Rightarrow> repl_state \<Rightarrow> ((int \<times> int) \<times> repl_state) result" where
  "FIFO_replace setIdx s =
     (let i = idx_of_int setIdx in
      bindE (vec_get (fifoList s) i) (\<lambda>l.
      bindE (vec_get (fifoWeightBlkIdx s) i) (\<lambda>w.
      bindE (vec_get l 0) (\<lambda>firstIn.
      bindE (vec_get w 0) (\<lambda>firstInBlkIdx.
      Inr ((firstIn, firstInBlkIdx),
           s\<lparr>fifoList := (fifoList s)[i := erase_at 0 l],
             fifoWeightBlkIdx := (fifoWeightBlkIdx s)[i := erase_at 0 w]\<rparr>))))))"

text \<open>\<open>clear\<close> rebuilds \<open>fifoList\<close> only; \<open>fifoWeightBlkIdx\<close> keeps its contents.\<close>

definition FIFO_clear :: "int \<Rightarrow> repl_state \<Rightarrow> repl_state" where
  "FIFO_clear setN s = s\<lparr>fifoList := replicate (nat setN) []\<rparr>"

section \<open>LRU\<close>

definition LRU_new :: "int \<Rightarrow> int \<Rightarrow> repl_state \<Rightarrow> repl_state" where
  "LRU_new wayN setN s =
     s\<lparr>lruList := lruList s @ replicate (nat setN) [],
       lruWeightBlkIdx := lruWeightBlkIdx s @ replicate (nat setN) []\<rparr>"

text \<open>The loop of \<open>LRU::access\<close>: it erases at index \<open>i\<close> while it runs, so the element that
  moves into position \<open>i\<close> is skipped.\<close>

function lru_scan :: "nat \<Rightarrow> int \<Rightarrow> int \<Rightarrow> int list \<Rightarrow> int list \<Rightarrow> (int list \<times> int list) result" where
  "lru_scan i data blk l w =
     (if i < length l then
        (if l ! i = data then
           bindE (vec_get w i) (\<lambda>wi.
             if wi = blk then lru_scan (Suc i) data blk (erase_at i l) (erase_at i w)
             else lru_scan (Suc i) data blk l w)
         else lru_scan (Suc i) data blk l w)
      else Inr (l, w))"
  by pat_completeness auto
termination
  by (relation "measure (\<lambda>(i, data, blk, l, w). length l - i)") auto

declare lru_scan.simps [simp del]

definition LRU_access :: "int \<Rightarrow> int \<Rightarrow> int \<Rightarrow> repl_state \<Rightarrow> repl_state result" where
  "LRU_access setIdx data weightBlkIdx s =
     (let i = idx_of_int setIdx in
      bindE (vec_get (lruList s) i) (\<lambda>l.
      bindE (vec_get (lruWeightBlkIdx s) i) (\<lambda>w.
      bindE (lru_scan 0 data weightBlkIdx l w) (\<lambda>(l', w').
      Inr (s\<lparr>lruList := (lruList s)[i := data # l'],
             lruWeightBlkIdx := (lruWeightBlkIdx s)[i := weightBlkIdx # w']\<rparr>)))))"

definition LRU_replace :: "int \<Rightarrow> repl_state \<Rightarrow> ((int \<times> int) \<times> repl_state) result" where
  "LRU_replace setIdx s =
     (let i = idx_of_int setIdx in
      bindE (vec_get (lruList s) i) (\<lambda>l.
      bindE (vec_get (lruWeightBlkIdx s) i) (\<lambda>w.
      bindE (if l = [] then Inl UB_Index else Inr (last l)) (\<lambda>target.
      bindE (if w = [] then Inl UB_Index else Inr (last w)) (\<lambda>targetWeightBlkIdx.
      Inr ((target, targetWeightBlkIdx),
           s\<lparr>lruList := (lruList s)[i := butlast l],
             lruWeightBlkIdx := (lruWeightBlkIdx s)[i := butlast w]\<rparr>))))))"

definition LRU_clear :: "int \<Rightarrow> repl_state \<Rightarrow> repl_state" where
  "LRU_clear setN s = s\<lparr>lruList := replicate (nat setN) []\<rparr>"

section \<open>The interface the global buffer relies on\<close>

definition valid_set :: "nat \<Rightarrow> int \<Rightarrow> bool" where
  "valid_set n i \<longleftrightarrow> 0 \<le> i \<and> i < 2 ^ 31 \<and> nat i < n"

locale victim_policy =
  fixes access :: "int \<Rightarrow> int \<Rightarrow> int \<Rightarrow> 's \<Rightarrow> 's result"
    and replace :: "int \<Rightarrow> 's \<Rightarrow> ((int \<times> int) \<times> 's) result"
    and tracked :: "'s \<Rightarrow> nat \<Rightarrow> (int \<times> int) list"
    and wf_pol :: "nat \<Rightarrow> 's \<Rightarrow> bool"
  assumes tracked_distinct: "wf_pol n s \<Longrightarrow> k < n \<Longrightarrow> distinct (tracked s k)"
    and access_new: "wf_pol n s \<Longrightarrow> valid_set n i \<Longrightarrow> (d, b) \<notin> set (tracked s (nat i)) \<Longrightarrow>
      \<exists>s'. access i d b s = Inr s' \<and> wf_pol n s'
        \<and> set (tracked s' (nat i)) = insert (d, b) (set (tracked s (nat i)))
        \<and> (\<forall>j. j \<noteq> nat i \<longrightarrow> tracked s' j = tracked s j)"
    and replace_victim: "wf_pol n s \<Longrightarrow> valid_set n i \<Longrightarrow> tracked s (nat i) \<noteq> [] \<Longrightarrow>
      \<exists>v s'. replace i s = Inr (v, s') \<and> wf_pol n s' \<and> v \<in> set (tracked s (nat i))
        \<and> set (tracked s' (nat i)) = set (tracked s (nat i)) - {v}
        \<and> (\<forall>j. j \<noteq> nat i \<longrightarrow> tracked s' j = tracked s j)"
begin

text \<open>Evicting and then recording the incoming line: the victim leaves, the new line
  enters, nothing else changes.\<close>

lemma replace_then_access:
  assumes wf: "wf_pol n s" and i: "valid_set n i" and ne: "tracked s (nat i) \<noteq> []"
    and new: "(d, b) \<notin> set (tracked s (nat i))"
  shows "\<exists>v s1 s2. replace i s = Inr (v, s1) \<and> access i d b s1 = Inr s2 \<and> wf_pol n s2
    \<and> v \<in> set (tracked s (nat i))
    \<and> set (tracked s2 (nat i)) = insert (d, b) (set (tracked s (nat i)) - {v})
    \<and> (\<forall>j. j \<noteq> nat i \<longrightarrow> tracked s2 j = tracked s j)"
proof -
  from replace_victim [OF wf i ne] obtain v s1 where r: "replace i s = Inr (v, s1)" "wf_pol n s1"
    "v \<in> set (tracked s (nat i))" "set (tracked s1 (nat i)) = set (tracked s (nat i)) - {v}"
    "\<forall>j. j \<noteq> nat i \<longrightarrow> tracked s1 j = tracked s j" by blast
  have "(d, b) \<notin> set (tracked s1 (nat i))" using new r(4) by simp
  from access_new [OF r(2) i this] obtain s2 where "access i d b s1 = Inr s2" "wf_pol n s2"
    "set (tracked s2 (nat i)) = insert (d, b) (set (tracked s1 (nat i)))"
    "\<forall>j. j \<noteq> nat i \<longrightarrow> tracked s2 j = tracked s1 j" by blast
  with r show ?thesis by auto
qed

end

locale touch_policy = victim_policy +
  assumes access_old: "wf_pol n s \<Longrightarrow> valid_set n i \<Longrightarrow> (d, b) \<in> set (tracked s (nat i)) \<Longrightarrow>
      \<exists>s'. access i d b s = Inr s' \<and> wf_pol n s'
        \<and> set (tracked s' (nat i)) = set (tracked s (nat i))
        \<and> (\<forall>j. j \<noteq> nat i \<longrightarrow> tracked s' j = tracked s j)"

section \<open>The pairs of a set\<close>

definition pairs_of :: "int list list \<Rightarrow> int list list \<Rightarrow> nat \<Rightarrow> (int \<times> int) list" where
  "pairs_of ls ws i = (if i < length ls \<and> i < length ws then zip (ls ! i) (ws ! i) else [])"

definition pairs_wf :: "nat \<Rightarrow> int list list \<Rightarrow> int list list \<Rightarrow> bool" where
  "pairs_wf n ls ws \<longleftrightarrow> length ls = n \<and> length ws = n
     \<and> (\<forall>i < n. length (ls ! i) = length (ws ! i) \<and> distinct (zip (ls ! i) (ws ! i)))"

definition fifo_pairs :: "repl_state \<Rightarrow> nat \<Rightarrow> (int \<times> int) list" where
  "fifo_pairs s = pairs_of (fifoList s) (fifoWeightBlkIdx s)"

definition lru_pairs :: "repl_state \<Rightarrow> nat \<Rightarrow> (int \<times> int) list" where
  "lru_pairs s = pairs_of (lruList s) (lruWeightBlkIdx s)"

definition fifo_wf :: "nat \<Rightarrow> repl_state \<Rightarrow> bool" where
  "fifo_wf n s \<longleftrightarrow> pairs_wf n (fifoList s) (fifoWeightBlkIdx s)"

definition lru_wf :: "nat \<Rightarrow> repl_state \<Rightarrow> bool" where
  "lru_wf n s \<longleftrightarrow> pairs_wf n (lruList s) (lruWeightBlkIdx s)"

lemma valid_set_idx: "valid_set n i \<Longrightarrow> idx_of_int i = nat i \<and> nat i < n"
  by (simp add: valid_set_def idx_of_int_nonneg)

lemma pairs_wf_distinct: "pairs_wf n ls ws \<Longrightarrow> i < n \<Longrightarrow> distinct (pairs_of ls ws i)"
  by (simp add: pairs_wf_def pairs_of_def)

text \<open>Updating one set of both vectors.\<close>

lemma pairs_of_update:
  assumes "i < length ls" and "i < length ws"
  shows "pairs_of (ls[i := l]) (ws[i := w]) j = (if j = i then zip l w else pairs_of ls ws j)"
  using assms by (simp add: pairs_of_def)

lemma pairs_wf_update:
  assumes "pairs_wf n ls ws" and "length l = length w" and "distinct (zip l w)"
  shows "pairs_wf n (ls[i := l]) (ws[i := w])"
  using assms unfolding pairs_wf_def
  by (cases "i < n") (simp_all add: nth_list_update)

lemma pairs_wf_new: "pairs_wf (nat m) (replicate (nat m) []) (replicate (nat m) [])"
  by (simp add: pairs_wf_def)

section \<open>FIFO is a queue\<close>

lemma FIFO_access_pairs:
  assumes "fifo_wf n s" and "valid_set n i"
  shows "\<exists>s'. FIFO_access i d b s = Inr s'
    \<and> fifo_pairs s' = (fifo_pairs s)(nat i := fifo_pairs s (nat i) @ [(d, b)])
    \<and> ((d, b) \<notin> set (fifo_pairs s (nat i)) \<longrightarrow> fifo_wf n s')"
proof -
  note ix = valid_set_idx [OF assms(2)]
  let ?l = "fifoList s ! nat i" and ?w = "fifoWeightBlkIdx s ! nat i"
  have len: "length ?l = length ?w" "nat i < length (fifoList s)" "nat i < length (fifoWeightBlkIdx s)"
    and dist: "distinct (zip ?l ?w)"
    using assms(1) ix by (auto simp: fifo_wf_def pairs_wf_def)
  have z: "zip (?l @ [d]) (?w @ [b]) = zip ?l ?w @ [(d, b)]" using len by simp
  show ?thesis
    using ix len dist assms(1)
    by (auto simp: FIFO_access_def Let_def fifo_pairs_def pairs_of_update fun_eq_iff z
        fifo_wf_def pairs_of_def intro!: pairs_wf_update)
qed

lemma FIFO_replace_pairs:
  assumes "fifo_wf n s" and "valid_set n i" and "fifo_pairs s (nat i) = v # vs"
  shows "\<exists>s'. FIFO_replace i s = Inr (v, s') \<and> fifo_wf n s'
    \<and> fifo_pairs s' = (fifo_pairs s)(nat i := vs)"
proof -
  note ix = valid_set_idx [OF assms(2)]
  have len: "nat i < length (fifoList s)" "nat i < length (fifoWeightBlkIdx s)"
    "length (fifoList s ! nat i) = length (fifoWeightBlkIdx s ! nat i)"
    and dist: "distinct (zip (fifoList s ! nat i) (fifoWeightBlkIdx s ! nat i))"
    using assms(1) ix by (auto simp: fifo_wf_def pairs_wf_def)
  have "zip (fifoList s ! nat i) (fifoWeightBlkIdx s ! nat i) = v # vs"
    using assms(3) len by (simp add: fifo_pairs_def pairs_of_def)
  then obtain x xs y ys where l: "fifoList s ! nat i = x # xs" and w: "fifoWeightBlkIdx s ! nat i = y # ys"
    and v: "v = (x, y)" and vs: "vs = zip xs ys"
    by (cases "fifoList s ! nat i"; cases "fifoWeightBlkIdx s ! nat i") auto
  show ?thesis
    using ix len dist assms(1) l w v vs
    by (auto simp: FIFO_replace_def Let_def fifo_pairs_def pairs_of_update fun_eq_iff
        fifo_wf_def intro!: pairs_wf_update)
qed

interpretation fifo: victim_policy FIFO_access FIFO_replace fifo_pairs fifo_wf
proof unfold_locales
  fix n s i
  show "fifo_wf n s \<Longrightarrow> i < n \<Longrightarrow> distinct (fifo_pairs s i)"
    by (simp add: fifo_wf_def fifo_pairs_def pairs_wf_distinct)
next
  fix n s i d b
  assume "fifo_wf n s" "valid_set n i" "(d, b) \<notin> set (fifo_pairs s (nat i))"
  then show "\<exists>s'. FIFO_access i d b s = Inr s' \<and> fifo_wf n s'
      \<and> set (fifo_pairs s' (nat i)) = insert (d, b) (set (fifo_pairs s (nat i)))
      \<and> (\<forall>j. j \<noteq> nat i \<longrightarrow> fifo_pairs s' j = fifo_pairs s j)"
    using FIFO_access_pairs [of n s i d b] by auto
next
  fix n s i
  assume a: "fifo_wf n s" "valid_set n i" "fifo_pairs s (nat i) \<noteq> []"
  then obtain v vs where eq: "fifo_pairs s (nat i) = v # vs" by (cases "fifo_pairs s (nat i)") auto
  have "distinct (v # vs)"
    using a eq valid_set_idx [OF a(2)] by (metis fifo_pairs_def fifo_wf_def pairs_wf_distinct)
  then show "\<exists>v s'. FIFO_replace i s = Inr (v, s') \<and> fifo_wf n s' \<and> v \<in> set (fifo_pairs s (nat i))
      \<and> set (fifo_pairs s' (nat i)) = set (fifo_pairs s (nat i)) - {v}
      \<and> (\<forall>j. j \<noteq> nat i \<longrightarrow> fifo_pairs s' j = fifo_pairs s j)"
    using FIFO_replace_pairs [OF a(1,2) eq] unfolding eq
    by (elim exE, intro exI [of _ v]) fastforce
qed

section \<open>LRU keeps recency order\<close>

lemma lru_scan_filter:
  assumes "length l = length w" and "distinct (zip l w)"
  shows "\<exists>l' w'. lru_scan i d b l w = Inr (l', w') \<and> length l' = length w'
    \<and> zip l' w' = take i (zip l w) @ filter (\<lambda>p. p \<noteq> (d, b)) (drop i (zip l w))"
  using assms
proof (induction i d b l w rule: lru_scan.induct)
  case (1 i d b l w)
  let ?P = "zip l w"
  show ?case
  proof (cases "i < length l")
    case False
    with "1.prems" show ?thesis by (simp add: lru_scan.simps [of i d b l w])
  next
    case True
    with "1.prems" have iw: "i < length w" and drop: "drop i ?P = (l ! i, w ! i) # drop (Suc i) ?P"
      by (simp_all add: Cons_nth_drop_Suc [symmetric])
    show ?thesis
    proof (cases "l ! i = d \<and> w ! i = b")
      case True2: True
      have erz: "zip (erase_at i l) (erase_at i w) = take i ?P @ drop (Suc i) ?P"
        using True iw "1.prems"(1) erase_at_take_drop [of i ?P] by (simp add: erase_at_zip)
      have lene: "length (erase_at i l) = length (erase_at i w)" using True iw "1.prems"(1) by simp
      have diste: "distinct (zip (erase_at i l) (erase_at i w))"
        unfolding erz using "1.prems"(2) by (metis append_take_drop_id distinct_append distinct_drop
            distinct_take drop drop_Suc_Cons drop0 list.set_intros(2) disjoint_iff)
      have notin: "(d, b) \<notin> set (drop (Suc i) ?P)"
        using distinct_drop [OF "1.prems"(2), of i] True2 by (simp add: drop)
      then have flt: "filter (\<lambda>p. p \<noteq> (d, b)) (drop (Suc i) ?P) = drop (Suc i) ?P"
        by (auto intro: filter_True)
      obtain l' w' where ih: "lru_scan (Suc i) d b (erase_at i l) (erase_at i w) = Inr (l', w')"
        "length l' = length w'"
        "zip l' w' = take (Suc i) (take i ?P @ drop (Suc i) ?P)
           @ filter (\<lambda>p. p \<noteq> (d, b)) (drop (Suc i) (take i ?P @ drop (Suc i) ?P))"
        using "1.IH"(1) [of "w ! i"] True True2 iw lene diste erz by auto
      have "filter (\<lambda>p. p \<noteq> (d, b)) (drop (Suc i) (take i ?P @ drop (Suc i) ?P))
          = drop (Suc i) (take i ?P @ drop (Suc i) ?P)"
        using notin True iw set_drop_subset_set_drop [of "Suc i" "Suc (Suc i)" ?P]
        by (auto intro!: filter_True)
      then have "zip l' w' = take i ?P @ drop (Suc i) ?P" using ih(3) by (simp only: append_take_drop_id)
      then show ?thesis
        using ih True True2 iw flt drop by (simp add: lru_scan.simps [of i d b l w])
    next
      case False
      obtain l' w' where ih: "lru_scan (Suc i) d b l w = Inr (l', w')" "length l' = length w'"
        "zip l' w' = take (Suc i) ?P @ filter (\<lambda>p. p \<noteq> (d, b)) (drop (Suc i) ?P)"
        using "1.IH"(2) [of "w ! i"] "1.IH"(3) "1.prems" True False iw by (cases "l ! i = d") auto
      then show ?thesis
        using True False iw drop by (auto simp: lru_scan.simps [of i d b l w] take_Suc_conv_app_nth)
    qed
  qed
qed

text \<open>\<open>LRU::access\<close> moves the line to the front of its set.\<close>

definition move_to_front :: "'a \<Rightarrow> 'a list \<Rightarrow> 'a list" where
  "move_to_front x xs = x # filter (\<lambda>y. y \<noteq> x) xs"

lemma LRU_access_pairs:
  assumes "lru_wf n s" and "valid_set n i"
  shows "\<exists>s'. LRU_access i d b s = Inr s' \<and> lru_wf n s'
    \<and> lru_pairs s' = (lru_pairs s)(nat i := move_to_front (d, b) (lru_pairs s (nat i)))"
proof -
  note ix = valid_set_idx [OF assms(2)]
  let ?l = "lruList s ! nat i" and ?w = "lruWeightBlkIdx s ! nat i"
  have len: "length ?l = length ?w" "nat i < length (lruList s)" "nat i < length (lruWeightBlkIdx s)"
    and dist: "distinct (zip ?l ?w)"
    using assms(1) ix by (auto simp: lru_wf_def pairs_wf_def)
  obtain l' w' where sc: "lru_scan 0 d b ?l ?w = Inr (l', w')" "length l' = length w'"
    "zip l' w' = filter (\<lambda>p. p \<noteq> (d, b)) (zip ?l ?w)"
    using lru_scan_filter [OF len(1) dist, of 0 d b] by auto
  show ?thesis
    using ix len dist assms(1) sc
    by (auto simp: LRU_access_def Let_def lru_pairs_def pairs_of_update fun_eq_iff
        lru_wf_def pairs_of_def move_to_front_def intro!: pairs_wf_update)
qed

lemma LRU_replace_pairs:
  assumes "lru_wf n s" and "valid_set n i" and "lru_pairs s (nat i) = vs @ [v]"
  shows "\<exists>s'. LRU_replace i s = Inr (v, s') \<and> lru_wf n s'
    \<and> lru_pairs s' = (lru_pairs s)(nat i := vs)"
proof -
  note ix = valid_set_idx [OF assms(2)]
  let ?l = "lruList s ! nat i" and ?w = "lruWeightBlkIdx s ! nat i"
  have len: "length ?l = length ?w" "nat i < length (lruList s)" "nat i < length (lruWeightBlkIdx s)"
    and dist: "distinct (zip ?l ?w)"
    using assms(1) ix by (auto simp: lru_wf_def pairs_wf_def)
  have z: "zip ?l ?w = vs @ [v]" using assms(3) len by (simp add: lru_pairs_def pairs_of_def)
  then have ne: "?l \<noteq> []" "?w \<noteq> []" by auto
  have "zip ?l ?w = zip (butlast ?l @ [last ?l]) (butlast ?w @ [last ?w])" using ne by simp
  also have "\<dots> = zip (butlast ?l) (butlast ?w) @ [(last ?l, last ?w)]"
    using len by (subst zip_append) auto
  finally have bl: "zip (butlast ?l) (butlast ?w) = vs" and v: "v = (last ?l, last ?w)"
    using z by auto
  show ?thesis
    using ix len dist assms(1) bl v ne z
    by (auto simp: LRU_replace_def Let_def lru_pairs_def pairs_of_update fun_eq_iff
        lru_wf_def intro!: pairs_wf_update)
qed

interpretation lru: touch_policy LRU_access LRU_replace lru_pairs lru_wf
proof unfold_locales
  fix n s i
  show "lru_wf n s \<Longrightarrow> i < n \<Longrightarrow> distinct (lru_pairs s i)"
    by (simp add: lru_wf_def lru_pairs_def pairs_wf_distinct)
next
  fix n s i d b
  assume "lru_wf n s" "valid_set n i" "(d, b) \<notin> set (lru_pairs s (nat i))"
  then show "\<exists>s'. LRU_access i d b s = Inr s' \<and> lru_wf n s'
      \<and> set (lru_pairs s' (nat i)) = insert (d, b) (set (lru_pairs s (nat i)))
      \<and> (\<forall>j. j \<noteq> nat i \<longrightarrow> lru_pairs s' j = lru_pairs s j)"
    using LRU_access_pairs [of n s i d b] by (fastforce simp: move_to_front_def)
next
  fix n s i
  assume a: "lru_wf n s" "valid_set n i" "lru_pairs s (nat i) \<noteq> []"
  then obtain v vs where eq: "lru_pairs s (nat i) = vs @ [v]"
    by (cases "lru_pairs s (nat i)" rule: rev_cases) auto
  have "distinct (vs @ [v])"
    using a eq valid_set_idx [OF a(2)] by (metis lru_pairs_def lru_wf_def pairs_wf_distinct)
  then show "\<exists>v s'. LRU_replace i s = Inr (v, s') \<and> lru_wf n s' \<and> v \<in> set (lru_pairs s (nat i))
      \<and> set (lru_pairs s' (nat i)) = set (lru_pairs s (nat i)) - {v}
      \<and> (\<forall>j. j \<noteq> nat i \<longrightarrow> lru_pairs s' j = lru_pairs s j)"
    using LRU_replace_pairs [OF a(1,2) eq] unfolding eq
    by (elim exE, intro exI [of _ v]) fastforce
next
  fix n s i d b
  assume "lru_wf n s" "valid_set n i" "(d, b) \<in> set (lru_pairs s (nat i))"
  then show "\<exists>s'. LRU_access i d b s = Inr s' \<and> lru_wf n s'
      \<and> set (lru_pairs s' (nat i)) = set (lru_pairs s (nat i))
      \<and> (\<forall>j. j \<noteq> nat i \<longrightarrow> lru_pairs s' j = lru_pairs s j)"
    using LRU_access_pairs [of n s i d b] by (fastforce simp: move_to_front_def)
qed

section \<open>Traces of accesses and evictions\<close>

abbreviation accesses :: "(int \<Rightarrow> int \<Rightarrow> int \<Rightarrow> 's \<Rightarrow> 's result) \<Rightarrow> int \<Rightarrow> (int \<times> int) list \<Rightarrow> 's \<Rightarrow> 's result" where
  "accesses acc i xs \<equiv> foldE (\<lambda>(d, b). acc i d b) xs"

lemma FIFO_accesses_pairs:
  assumes "fifo_wf n s" and "valid_set n i" and "distinct (fifo_pairs s (nat i) @ xs)"
  shows "\<exists>s'. accesses FIFO_access i xs s = Inr s' \<and> fifo_wf n s'
    \<and> fifo_pairs s' = (fifo_pairs s)(nat i := fifo_pairs s (nat i) @ xs)"
  using assms
proof (induction xs arbitrary: s)
  case (Cons x xs)
  obtain d b where x: "x = (d, b)" by (cases x)
  obtain s1 where s1: "FIFO_access i d b s = Inr s1" "fifo_wf n s1"
    "fifo_pairs s1 = (fifo_pairs s)(nat i := fifo_pairs s (nat i) @ [(d, b)])"
    using FIFO_access_pairs [OF Cons.prems(1,2), of d b] Cons.prems(3) x by auto
  then show ?case using Cons.IH [OF s1(2) Cons.prems(2)] Cons.prems(3) x by (auto simp: fun_eq_iff)
qed simp

lemma FIFO_evictions_pairs:
  assumes "fifo_wf n s" and "valid_set n i" and "k \<le> length (fifo_pairs s (nat i))"
  shows "\<exists>s'. repeatE k (FIFO_replace i) s = Inr (take k (fifo_pairs s (nat i)), s') \<and> fifo_wf n s'
    \<and> fifo_pairs s' = (fifo_pairs s)(nat i := drop k (fifo_pairs s (nat i)))"
  using assms
proof (induction k arbitrary: s)
  case (Suc k)
  then obtain v vs where vs: "fifo_pairs s (nat i) = v # vs" by (cases "fifo_pairs s (nat i)") auto
  obtain s1 where s1: "FIFO_replace i s = Inr (v, s1)" "fifo_wf n s1"
    "fifo_pairs s1 = (fifo_pairs s)(nat i := vs)"
    using FIFO_replace_pairs [OF Suc.prems(1,2) vs] by auto
  then show ?case using Suc.IH [OF s1(2) Suc.prems(2)] Suc.prems(3) vs by (auto simp: fun_eq_iff)
qed simp

lemma LRU_accesses_pairs:
  assumes "lru_wf n s" and "valid_set n i"
  shows "\<exists>s'. accesses LRU_access i xs s = Inr s' \<and> lru_wf n s'
    \<and> lru_pairs s' = (lru_pairs s)(nat i := fold move_to_front xs (lru_pairs s (nat i)))"
  using assms
proof (induction xs arbitrary: s)
  case (Cons x xs)
  obtain d b where x: "x = (d, b)" by (cases x)
  obtain s1 where s1: "LRU_access i d b s = Inr s1" "lru_wf n s1"
    "lru_pairs s1 = (lru_pairs s)(nat i := move_to_front (d, b) (lru_pairs s (nat i)))"
    using LRU_access_pairs [OF Cons.prems, of d b] by auto
  then show ?case using Cons.IH [OF s1(2) Cons.prems(2)] x by (auto simp: fun_eq_iff)
qed simp

text \<open>Folding \<open>move_to_front\<close> is the recency order of the trace: each line once, at its last
  use, most recent first.\<close>

lemma fold_move_to_front:
  "fold move_to_front xs [] = rev (remdups xs)"
proof (induction xs rule: rev_induct)
  case (snoc x xs)
  have "remdups (xs @ [x]) = filter (\<lambda>y. y \<noteq> x) (remdups xs) @ [x]"
    by (induction xs) auto
  then show ?case using snoc by (simp add: move_to_front_def rev_filter)
qed simp

lemma remdups_hd_last_use:
  assumes "xs \<noteq> []"
  shows "\<exists>ys zs. xs = ys @ hd (remdups xs) # zs \<and> hd (remdups xs) \<notin> set zs
    \<and> set ys \<subseteq> insert (hd (remdups xs)) (set zs)"
  using assms
proof (induction xs)
  case (Cons x xs)
  show ?case
  proof (cases "x \<in> set xs")
    case True
    then obtain ys zs where "xs = ys @ hd (remdups xs) # zs" "hd (remdups xs) \<notin> set zs"
      "set ys \<subseteq> insert (hd (remdups xs)) (set zs)"
      using Cons.IH by fastforce
    moreover from this have "set xs = insert (hd (remdups xs)) (set zs)"
      by (metis Un_absorb1 list.simps(15) set_append)
    ultimately have "x # xs = (x # ys) @ hd (remdups (x # xs)) # zs"
      "hd (remdups (x # xs)) \<notin> set zs" "set (x # ys) \<subseteq> insert (hd (remdups (x # xs))) (set zs)"
      using True by auto
    then show ?thesis by blast
  next
    case False
    then show ?thesis by fastforce
  qed
qed simp

end
