(* ===== verification/Rrip_Ship.thy ===== *)
theory Rrip_Ship
  imports Recency_Policies "HOL-Library.AList"
begin

text \<open>
  The way-indexed policies of \<open>CacheReplacement.cpp\<close>: \<open>RRIP\<close> (2-bit re-reference prediction)
  and \<open>SHiP\<close> (RRIP with signature history counters).  The search loop of \<open>replace\<close> has no
  bound in the code; it is \<open>rrip_loop\<close>, a partial function whose \<open>None\<close> means that the loop
  never ends, and \<open>rrip_loop_max\<close> shows that on a non-empty set of 2-bit values it returns
  the first way with the largest value and ages every way by the same amount.  The locale
  \<open>way_policy\<close> is what the global buffer uses: the victim is a way of the set and the shape
  of the state is kept.
\<close>

section \<open>RRIP\<close>

definition RRIP_new :: "int \<Rightarrow> int \<Rightarrow> repl_state \<Rightarrow> repl_state" where
  "RRIP_new wayN setN s = s\<lparr>rrpvList := rrpvList s @ replicate (nat setN) (replicate (nat wayN) 3)\<rparr>"

definition rrpv_set :: "int \<Rightarrow> int \<Rightarrow> int \<Rightarrow> repl_state \<Rightarrow> repl_state result" where
  "rrpv_set setIdx wayIdx v s =
     (let i = idx_of_int setIdx in
      bindE (vec_get (rrpvList s) i) (\<lambda>l.
      bindE (vec_set l (idx_of_int wayIdx) v) (\<lambda>l'.
      Inr (s\<lparr>rrpvList := (rrpvList s)[i := l']\<rparr>))))"

definition RRIP_access :: "int \<Rightarrow> int \<Rightarrow> repl_state \<Rightarrow> repl_state result" where
  "RRIP_access setIdx wayIdx s = rrpv_set setIdx wayIdx 0 s"

definition rrip_age :: "int \<Rightarrow> int" where
  "rrip_age v = (if v = 0 \<or> v = 1 \<or> v = 2 then v + 1 else v)"

partial_function (option) rrip_loop :: "int list \<Rightarrow> (nat \<times> int list) option" where
  "rrip_loop l =
     (case first_idx (\<lambda>v. v = 3) l of
        Some i \<Rightarrow> Some (i, l)
      | None \<Rightarrow> rrip_loop (map rrip_age l))"

text \<open>The search shared by both \<open>replace\<close> functions: it leaves the aged set in \<open>rrpvList\<close> and
  returns the way that was found.\<close>

definition rrip_search :: "int \<Rightarrow> repl_state \<Rightarrow> (int \<times> repl_state) result" where
  "rrip_search setIdx s =
     (let i = idx_of_int setIdx in
      bindE (vec_get (rrpvList s) i) (\<lambda>l.
      case rrip_loop l of
        None \<Rightarrow> Inl Diverges
      | Some (w, l') \<Rightarrow> Inr (int w, s\<lparr>rrpvList := (rrpvList s)[i := l']\<rparr>)))"

definition RRIP_replace :: "int \<Rightarrow> repl_state \<Rightarrow> ((int \<times> int) \<times> repl_state) result" where
  "RRIP_replace setIdx s =
     bindE (rrip_search setIdx s) (\<lambda>(wayIdx, s1).
     bindE (rrpv_set setIdx wayIdx 2 s1) (\<lambda>s2.
     Inr ((setIdx, wayIdx), s2)))"

section \<open>SHiP\<close>

definition SHiP_new :: "int \<Rightarrow> int \<Rightarrow> repl_state \<Rightarrow> repl_state" where
  "SHiP_new wayN setN s =
     s\<lparr>rrpvList := rrpvList s @ replicate (nat setN) (replicate (nat wayN) 3),
       lineOutcome := lineOutcome s @ replicate (nat wayN) False,
       lineSignature := lineSignature s @ replicate (nat wayN) (-1)\<rparr>"

text \<open>\<open>uint64_t sig = address >> 16\<close>, converted to \<open>int\<close> where it is used as a key.\<close>

definition ship_sig :: "u64 \<Rightarrow> int" where
  "ship_sig address = int_of_u64 (drop_bit 16 address)"

definition SHiP_access :: "int \<Rightarrow> int \<Rightarrow> u64 \<Rightarrow> repl_state \<Rightarrow> repl_state result" where
  "SHiP_access setIdx wayIdx address s =
     bindE (rrpv_set setIdx wayIdx 0 s) (\<lambda>s1.
     bindE (vec_set (lineOutcome s1) (idx_of_int wayIdx) True) (\<lambda>lo.
     let s2 = s1\<lparr>lineOutcome := lo\<rparr>; sig = ship_sig address in
     Inr (case map_of (SHCT s2) sig of
            Some c \<Rightarrow> s2\<lparr>SHCT := AList.update sig (c + 1) (SHCT s2)\<rparr>
          | None \<Rightarrow> s2)))"

text \<open>\<open>SHCT.insert(make_pair(sig, 0))\<close>, and the insertion \<open>SHCT[sig]\<close> performs on a missing key.\<close>

definition shct_default :: "int \<Rightarrow> (int \<times> int) list \<Rightarrow> (int \<times> int) list" where
  "shct_default k m = (case map_of m k of Some _ \<Rightarrow> m | None \<Rightarrow> AList.update k 0 m)"

definition SHiP_replace :: "int \<Rightarrow> u64 \<Rightarrow> repl_state \<Rightarrow> ((int \<times> int) \<times> repl_state) result" where
  "SHiP_replace setIdx address s =
     bindE (rrip_search setIdx s) (\<lambda>(wayIdx, s1).
     let w = idx_of_int wayIdx; sig = ship_sig address in
     bindE (vec_get (lineOutcome s1) w) (\<lambda>outcome.
     bindE (vec_get (lineSignature s1) w) (\<lambda>sg.
     let s2 = (if \<not> outcome \<and> sg \<noteq> -1 then
                 (case map_of (SHCT s1) sg of
                    Some c \<Rightarrow> s1\<lparr>SHCT := AList.update sg (c - 1) (SHCT s1)\<rparr>
                  | None \<Rightarrow> s1)
               else s1);
         s3 = s2\<lparr>lineOutcome := (lineOutcome s2)[w := True]\<rparr>;
         s4 = s3\<lparr>lineSignature := (lineSignature s3)[w := sig],
                 SHCT := (if sg = -1 then shct_default sig (SHCT s3) else SHCT s3)\<rparr>;
         s5 = s4\<lparr>SHCT := shct_default sig (SHCT s4)\<rparr> in
     bindE (rrpv_set setIdx wayIdx (if map_of (SHCT s5) sig = Some 0 then 3 else 2) s5) (\<lambda>s6.
     Inr ((setIdx, wayIdx), s6)))))"

definition SHiP_getSHCTSize :: "repl_state \<Rightarrow> nat" where
  "SHiP_getSHCTSize s = length (SHCT s)"

section \<open>Invariants\<close>

definition rrpv_ok :: "int list \<Rightarrow> bool" where
  "rrpv_ok l \<longleftrightarrow> (\<forall>v \<in> set l. 0 \<le> v \<and> v \<le> 3)"

definition rrip_wf :: "nat \<Rightarrow> nat \<Rightarrow> repl_state \<Rightarrow> bool" where
  "rrip_wf n k s \<longleftrightarrow> length (rrpvList s) = n
     \<and> (\<forall>l \<in> set (rrpvList s). length l = k \<and> rrpv_ok l)"

text \<open>A way whose outcome bit is clear has never been filled: both facts change together.\<close>

definition ship_wf :: "nat \<Rightarrow> nat \<Rightarrow> repl_state \<Rightarrow> bool" where
  "ship_wf n k s \<longleftrightarrow> rrip_wf n k s \<and> length (lineOutcome s) = k \<and> length (lineSignature s) = k
     \<and> (\<forall>w < k. \<not> lineOutcome s ! w \<longrightarrow> lineSignature s ! w = -1)"

definition shct_count :: "repl_state \<Rightarrow> int \<Rightarrow> int" where
  "shct_count s k = (case map_of (SHCT s) k of Some c \<Rightarrow> c | None \<Rightarrow> 0)"

locale way_policy =
  fixes access :: "int \<Rightarrow> int \<Rightarrow> u64 \<Rightarrow> 's \<Rightarrow> 's result"
    and replace :: "int \<Rightarrow> u64 \<Rightarrow> 's \<Rightarrow> ((int \<times> int) \<times> 's) result"
    and wf_pol :: "nat \<Rightarrow> nat \<Rightarrow> 's \<Rightarrow> bool"
  assumes access_way: "wf_pol n k s \<Longrightarrow> valid_set n i \<Longrightarrow> valid_set k w \<Longrightarrow>
      \<exists>s'. access i w a s = Inr s' \<and> wf_pol n k s'"
    and replace_way: "wf_pol n k s \<Longrightarrow> valid_set n i \<Longrightarrow> 0 < k \<Longrightarrow> k < 2 ^ 31 \<Longrightarrow>
      \<exists>w s'. replace i a s = Inr ((i, w), s') \<and> valid_set k w \<and> wf_pol n k s'"
begin

text \<open>Evicting and then touching the way that was chosen, which is what a fill does.\<close>

lemma replace_then_touch:
  assumes "wf_pol n k s" "valid_set n i" "0 < k" "k < 2 ^ 31"
  shows "\<exists>w s1 s2. replace i a s = Inr ((i, w), s1) \<and> access i w a s1 = Inr s2
    \<and> valid_set k w \<and> wf_pol n k s2"
  using replace_way [OF assms, of a] access_way [OF _ assms(2), of k _ _ a] by blast

end

section \<open>The search\<close>

lemma rrip_loop_found:
  "first_idx (\<lambda>v. v = 3) l = Some i \<Longrightarrow> rrip_loop l = Some (i, l)"
  by (subst rrip_loop.simps) simp

lemma rrip_loop_age:
  "first_idx (\<lambda>v. v = 3) l = None \<Longrightarrow> rrip_loop l = rrip_loop (map rrip_age l)"
  by (subst rrip_loop.simps) simp

lemma first_idx_map: "first_idx p (map f l) = first_idx (\<lambda>x. p (f x)) l"
  by (induction l) auto

lemma first_idx_cong: "(\<And>x. x \<in> set l \<Longrightarrow> p x = q x) \<Longrightarrow> first_idx p l = first_idx q l"
  by (induction l) auto

lemma rrip_loop_level:
  assumes "l \<noteq> []" and "\<forall>v \<in> set l. 0 \<le> v \<and> v \<le> m" and "m \<in> set l" and "m \<le> 3"
  shows "\<exists>i. first_idx (\<lambda>v. v = m) l = Some i \<and> rrip_loop l = Some (i, map (\<lambda>v. v + (3 - m)) l)"
  using assms
proof (induction "nat (3 - m)" arbitrary: l m)
  case 0
  then have "m = 3" by simp
  with 0 obtain i where "first_idx (\<lambda>v. v = 3) l = Some i" using first_idx_exists [of 3 l "\<lambda>v. v = 3"] by auto
  then show ?case using \<open>m = 3\<close> by (simp add: rrip_loop_found)
next
  case (Suc d)
  then have m: "m < 3" "0 \<le> m" by auto
  have none: "first_idx (\<lambda>v. v = 3) l = None" using Suc.prems(2) m by (auto simp: first_idx_None)
  have age: "map rrip_age l = map (\<lambda>v. v + 1) l"
    using Suc.prems(2) m by (auto simp: rrip_age_def)
  have "d = nat (3 - (m + 1))" using Suc.hyps(2) by simp
  from Suc.hyps(1) [OF this, of "map (\<lambda>v. v + 1) l"] Suc.prems m
  obtain i where "first_idx (\<lambda>v. v = m + 1) (map (\<lambda>v. v + 1) l) = Some i"
    "rrip_loop (map (\<lambda>v. v + 1) l) = Some (i, map (\<lambda>v. v + (3 - (m + 1))) (map (\<lambda>v. v + 1) l))"
    by force
  then show ?case
    by (simp add: rrip_loop_age [OF none] age first_idx_map comp_def algebra_simps)
qed

lemma rrip_loop_max:
  assumes "l \<noteq> []" and "rrpv_ok l"
  shows "\<exists>i. first_idx (\<lambda>v. v = Max (set l)) l = Some i
    \<and> rrip_loop l = Some (i, map (\<lambda>v. v + (3 - Max (set l))) l)"
  using assms by (intro rrip_loop_level) (auto simp: rrpv_ok_def)

text \<open>Whatever the loop returns is a way holding 3; in particular a set without ways makes
  it run forever.\<close>

lemma rrip_loop_result:
  "rrip_loop l = Some r \<Longrightarrow> length (snd r) = length l \<and> fst r < length l \<and> snd r ! fst r = 3"
  by (rule rrip_loop.raw_induct [of "\<lambda>l r. length (snd r) = length l \<and> fst r < length l \<and> snd r ! fst r = 3"])
    (fastforce split: option.splits simp: first_idx_Some)+

lemma rrip_loop_no_ways: "rrip_loop [] = None"
  using rrip_loop_result [of "[]"] by (cases "rrip_loop []") auto

section \<open>RRIP satisfies the interface\<close>

lemma rrip_wf_get: "rrip_wf n k s \<Longrightarrow> i < n \<Longrightarrow> length (rrpvList s ! i) = k \<and> rrpv_ok (rrpvList s ! i)"
  by (auto simp: rrip_wf_def)

lemma rrip_wf_upd:
  assumes "rrip_wf n k s" and "length l = k" and "rrpv_ok l"
  shows "rrip_wf n k (s\<lparr>rrpvList := (rrpvList s)[i := l]\<rparr>)"
  using assms set_update_subset_insert [of "rrpvList s" i l] by (auto simp: rrip_wf_def)

lemma rrpv_ok_upd: "rrpv_ok l \<Longrightarrow> 0 \<le> v \<Longrightarrow> v \<le> 3 \<Longrightarrow> rrpv_ok (l[j := v])"
  using set_update_subset_insert [of l j v] by (auto simp: rrpv_ok_def)

lemma rrpv_set_eq:
  assumes "rrip_wf n k s" and "valid_set n i" and "valid_set k w"
  shows "rrpv_set i w v s = Inr (s\<lparr>rrpvList := (rrpvList s)[nat i := (rrpvList s ! nat i)[nat w := v]]\<rparr>)"
  using assms valid_set_idx [OF assms(2)] valid_set_idx [OF assms(3)] rrip_wf_get [OF assms(1), of "nat i"]
  by (auto simp: rrpv_set_def Let_def rrip_wf_def)

lemma rrpv_set_wf:
  assumes "rrip_wf n k s" and "valid_set n i" and "valid_set k w" and "0 \<le> v" and "v \<le> 3"
  shows "\<exists>s'. rrpv_set i w v s = Inr s' \<and> rrip_wf n k s'"
  using rrpv_set_eq [OF assms(1-3)] rrip_wf_get [OF assms(1)] valid_set_idx [OF assms(2)] assms
  by (auto intro!: rrip_wf_upd rrpv_ok_upd)

lemma rrip_search_eq:
  assumes "rrip_wf n k s" and "valid_set n i" and "0 < k" and "k < 2 ^ 31"
  shows "\<exists>w. rrip_search i s = Inr (int w, s\<lparr>rrpvList := (rrpvList s)[nat i :=
        map (\<lambda>v. v + (3 - Max (set (rrpvList s ! nat i)))) (rrpvList s ! nat i)]\<rparr>)
    \<and> first_idx (\<lambda>v. v = Max (set (rrpvList s ! nat i))) (rrpvList s ! nat i) = Some w \<and> w < k
    \<and> rrpv_ok (map (\<lambda>v. v + (3 - Max (set (rrpvList s ! nat i)))) (rrpvList s ! nat i))"
proof -
  let ?l = "rrpvList s ! nat i"
  note ix = valid_set_idx [OF assms(2)]
  have l: "length ?l = k" "rrpv_ok ?l" "?l \<noteq> []" using rrip_wf_get [OF assms(1), of "nat i"] ix assms(3) by auto
  from rrip_loop_max [OF l(3,2)] obtain w where w: "first_idx (\<lambda>v. v = Max (set ?l)) ?l = Some w"
    "rrip_loop ?l = Some (w, map (\<lambda>v. v + (3 - Max (set ?l))) ?l)" by blast
  moreover have "w < k" using w(1) l(1) by (simp add: first_idx_Some)
  moreover have "rrpv_ok (map (\<lambda>v. v + (3 - Max (set ?l))) ?l)"
  proof -
    have mx: "Max (set ?l) \<in> set ?l" using l(3) by simp
    have "0 \<le> v + (3 - Max (set ?l)) \<and> v + (3 - Max (set ?l)) \<le> 3" if "v \<in> set ?l" for v
      using that mx l(2) Max_ge [of "set ?l" v] by (fastforce simp: rrpv_ok_def)
    then show ?thesis by (auto simp: rrpv_ok_def)
  qed
  moreover have "nat i < length (rrpvList s)" using assms(1) ix by (simp add: rrip_wf_def)
  ultimately show ?thesis using ix by (auto simp: rrip_search_def Let_def)
qed

lemma rrip_search_wf:
  assumes "rrip_wf n k s" and "valid_set n i" and "0 < k" and "k < 2 ^ 31"
  shows "\<exists>w l. rrip_search i s = Inr (int w, s\<lparr>rrpvList := l\<rparr>) \<and> w < k
    \<and> rrip_wf n k (s\<lparr>rrpvList := l\<rparr>)"
  using rrip_search_eq [OF assms] rrip_wf_get [OF assms(1)] valid_set_idx [OF assms(2)] assms(1)
  by (fastforce intro!: rrip_wf_upd)

lemma valid_way: "w < k \<Longrightarrow> k < 2 ^ 31 \<Longrightarrow> valid_set k (int w)"
  by (simp add: valid_set_def)

lemma rrip_wf_more:
  "rrip_wf n k (s\<lparr>lineOutcome := a\<rparr>) = rrip_wf n k s"
  "rrip_wf n k (s\<lparr>lineSignature := b\<rparr>) = rrip_wf n k s"
  "rrip_wf n k (s\<lparr>SHCT := c\<rparr>) = rrip_wf n k s"
  by (simp_all add: rrip_wf_def)

lemma RRIP_replace_wf:
  assumes "rrip_wf n k s" and "valid_set n i" and "0 < k" and "k < 2 ^ 31"
  shows "\<exists>w s'. RRIP_replace i s = Inr ((i, w), s') \<and> valid_set k w \<and> rrip_wf n k s'"
proof -
  from rrip_search_wf [OF assms] obtain w l where w: "rrip_search i s = Inr (int w, s\<lparr>rrpvList := l\<rparr>)"
    "w < k" "rrip_wf n k (s\<lparr>rrpvList := l\<rparr>)" by blast
  from rrpv_set_wf [OF w(3) assms(2) valid_way [OF w(2) assms(4)], of 2] w valid_way [OF w(2) assms(4)]
  show ?thesis by (auto simp: RRIP_replace_def)
qed

interpretation rrip: way_policy "\<lambda>i w _. RRIP_access i w" "\<lambda>i _. RRIP_replace i" rrip_wf
  by unfold_locales (auto simp: RRIP_access_def intro: rrpv_set_wf RRIP_replace_wf)

section \<open>SHiP satisfies the interface, and its counters only grow\<close>

lemma rrpv_set_frame:
  "rrpv_set i w v s = Inr s' \<Longrightarrow>
    lineOutcome s' = lineOutcome s \<and> lineSignature s' = lineSignature s \<and> SHCT s' = SHCT s"
  by (auto simp: rrpv_set_def Let_def monad_simps)

lemma shct_default_count:
  "(case map_of (shct_default k m) j of Some c \<Rightarrow> c | None \<Rightarrow> 0)
     = (case map_of m j of Some c \<Rightarrow> c | None \<Rightarrow> (0::int))"
  by (auto simp: shct_default_def update_conv' split: option.splits)

lemma SHiP_access_spec:
  assumes "ship_wf n k s" and "valid_set n i" and "valid_set k w"
  shows "\<exists>s'. SHiP_access i w a s = Inr s' \<and> ship_wf n k s' \<and> (\<forall>j. shct_count s j \<le> shct_count s' j)"
proof -
  have wf: "rrip_wf n k s" using assms(1) by (simp add: ship_wf_def)
  note iw = valid_set_idx [OF assms(3)]
  from rrpv_set_wf [OF wf assms(2,3), of 0] obtain s1 where s1: "rrpv_set i w 0 s = Inr s1" "rrip_wf n k s1"
    by auto
  note fr = rrpv_set_frame [OF s1(1)]
  have lo: "vec_set (lineOutcome s1) (idx_of_int w) True = Inr ((lineOutcome s1)[nat w := True])"
    using assms(1) iw fr by (simp add: ship_wf_def)
  show ?thesis
    using s1 fr lo iw assms(1)
    by (auto simp: SHiP_access_def Let_def ship_wf_def rrip_wf_more shct_count_def update_conv'
        nth_list_update split: option.splits if_splits)
qed

lemma SHiP_replace_spec:
  assumes "ship_wf n k s" and "valid_set n i" and "0 < k" and "k < 2 ^ 31"
  shows "\<exists>w s'. SHiP_replace i a s = Inr ((i, w), s') \<and> valid_set k w \<and> ship_wf n k s'
    \<and> shct_count s' = shct_count s"
proof -
  have wf: "rrip_wf n k s" using assms(1) by (simp add: ship_wf_def)
  from rrip_search_wf [OF wf assms(2-4)] obtain w l where
    w: "rrip_search i s = Inr (int w, s\<lparr>rrpvList := l\<rparr>)" "w < k" "rrip_wf n k (s\<lparr>rrpvList := l\<rparr>)" by blast
  note vw = valid_way [OF w(2) assms(4)]
  have ix: "idx_of_int (int w) = w" using valid_set_idx [OF vw] by simp
  let ?s = "s\<lparr>rrpvList := l\<rparr>"
  have dead: "lineSignature s ! w \<noteq> -1 \<Longrightarrow> lineOutcome s ! w"
    using assms(1) w(2) by (auto simp: ship_wf_def)
  have len: "w < length (lineOutcome s)" "w < length (lineSignature s)"
    using assms(1) w(2) by (auto simp: ship_wf_def)
  define t where "t = ?s\<lparr>lineOutcome := (lineOutcome s)[w := True],
     lineSignature := (lineSignature s)[w := ship_sig a],
     SHCT := shct_default (ship_sig a) (if lineSignature s ! w = -1 then shct_default (ship_sig a) (SHCT s) else SHCT s)\<rparr>"
  have tw: "rrip_wf n k t" using w(3) by (simp add: t_def rrip_wf_def)
  have cnt: "shct_count t = shct_count s"
    by (auto simp: t_def shct_count_def shct_default_count fun_eq_iff)
  define v where "v = (if map_of (SHCT t) (ship_sig a) = Some 0 then 3 else 2 :: int)"
  have "0 \<le> v \<and> v \<le> 3" by (simp add: v_def)
  with rrpv_set_wf [OF tw assms(2) vw, of v] obtain t' where
    t': "rrpv_set i (int w) v t = Inr t'" "rrip_wf n k t'" by blast
  note fr = rrpv_set_frame [OF t'(1)]
  have "SHiP_replace i a s = bindE (rrpv_set i (int w) v t) (\<lambda>s6. Inr ((i, int w), s6))"
    using w(1) ix len 
    by (cases "lineSignature s ! w = -1")
      (simp_all add: dead SHiP_replace_def Let_def v_def t_def cong: if_cong split del: if_split)
  with t'(1) have eq: "SHiP_replace i a s = Inr ((i, int w), t')" by simp
  have "ship_wf n k t'"
    using t'(2) fr assms(1) len by (auto simp: ship_wf_def t_def nth_list_update split: if_splits)
  moreover have "shct_count t' = shct_count s" using cnt fr by (simp add: shct_count_def fun_eq_iff)
  ultimately show ?thesis using eq vw by blast
qed

interpretation ship: way_policy SHiP_access SHiP_replace ship_wf
proof unfold_locales
  fix n k s i w a
  assume "ship_wf n k s" "valid_set n i" "valid_set k w"
  then show "\<exists>s'. SHiP_access i w a s = Inr s' \<and> ship_wf n k s'" using SHiP_access_spec by blast
next
  fix n k s i a
  assume "ship_wf n k s" "valid_set n i" "0 < k" "k < 2 ^ 31"
  then show "\<exists>w s'. SHiP_replace i a s = Inr ((i, w), s') \<and> valid_set k w \<and> ship_wf n k s'"
    using SHiP_replace_spec by blast
qed

lemma SHiP_new_wf: "ship_wf (nat n) (nat k) (SHiP_new k n empty_repl)"
  by (simp add: ship_wf_def SHiP_new_def empty_repl_def rrip_wf_def rrpv_ok_def)

lemma RRIP_new_wf: "rrip_wf (nat n) (nat k) (RRIP_new k n empty_repl)"
  by (simp add: RRIP_new_def empty_repl_def rrip_wf_def rrpv_ok_def)

end
