(* ===== verification/Bloom_Filter.thy ===== *)
theory Bloom_Filter
  imports Recency_Policies
begin

text \<open>
  The counting policies of \<open>CacheReplacement.cpp\<close>: \<open>BloomFilter\<close>, which counts in a first pass
  how often each column is referenced by each block of rows and later evicts the line with the
  smallest count, and \<open>MovingMedian\<close>, which evicts the line farthest from the average column of
  a block.  The constructor of \<open>BloomFilter\<close> partitions the rows between the filters and their
  half-shifted overlapping filters; the lemmas show that the three tables it builds cover every
  row exactly once, and that the first pass counts references exactly (up to the collisions of
  \<open>to % BF_LEN\<close>).
\<close>

section \<open>Bloom filter\<close>

definition bf_blockVertexN :: "ini_config \<Rightarrow> dims \<Rightarrow> int result" where
  "bf_blockVertexN c d =
     (if BLOOM_FILTER_NUM c = 0 then Inl UB_Division else Inr (int_of_u64 (a_h d div BLOOM_FILTER_NUM c)))"

definition bf_ovlStartIdx :: "ini_config \<Rightarrow> int \<Rightarrow> int" where
  "bf_ovlStartIdx c blockVertexN =
     int_of_u64 (u64_of_int blockVertexN * (100 - BF_OVERLAP c) div 100 + 1)"

definition incr_at :: "nat \<Rightarrow> int list \<Rightarrow> int list result" where
  "incr_at i v = bindE (vec_get v i) (\<lambda>x. vec_set v i (x + 1))"

text \<open>Rows per filter: the quotient, plus one for the first (remainder) filters.\<close>

definition block_sizes :: "u64 \<Rightarrow> u64 \<Rightarrow> int \<Rightarrow> int list result" where
  "block_sizes tot num blockVertexN =
     foldE incr_at [0 ..< unat (tot - num * u64_of_int blockVertexN)]
       (replicate (unat num) blockVertexN)"

definition bf_ovlBlkIdxVector :: "ini_config \<Rightarrow> dims \<Rightarrow> int \<Rightarrow> int \<Rightarrow> int list" where
  "bf_ovlBlkIdxVector c d blockVertexN ovlStartIdx =
     replicate (unat (BLOOM_FILTER_NUM c - 1)) blockVertexN
     @ [int_of_u64 (a_h d - (BLOOM_FILTER_NUM c - 1) * u64_of_int blockVertexN - u64_of_int (ovlStartIdx - 1))]"

text \<open>\<open>for i: for j < sizes[i]: push_back(i)\<close>\<close>

definition spread :: "int list \<Rightarrow> int list" where
  "spread sizes = concat (map (\<lambda>(i, n). replicate (nat n) (int i)) (zip [0 ..< length sizes] sizes))"

definition bf_useOvl :: "int \<Rightarrow> int list \<Rightarrow> bool list" where
  "bf_useOvl ovlStartIdx sizes =
     concat (map (\<lambda>n. replicate (nat (ovlStartIdx - 1)) False
                     @ replicate (nat (n - int (nat (ovlStartIdx - 1)))) True) sizes)"

definition BloomFilter_new :: "ini_config \<Rightarrow> dims \<Rightarrow> u64 \<Rightarrow> repl_state \<Rightarrow> repl_state result" where
  "BloomFilter_new c d BF_LEN s =
     (let zeros = replicate (unat (BLOOM_FILTER_NUM c)) (replicate (unat BF_LEN) 0);
          s1 = s\<lparr>bfList := bfList s @ zeros, olBfList := olBfList s @ zeros\<rparr> in
      bindE (bf_blockVertexN c d) (\<lambda>blockVertexN.
      let ovlStartIdx = bf_ovlStartIdx c blockVertexN in
      bindE (block_sizes (a_h d) (BLOOM_FILTER_NUM c) blockVertexN) (\<lambda>blkIdxVector.
      let ovlBlkIdxVector = bf_ovlBlkIdxVector c d blockVertexN ovlStartIdx in
      Inr (s1\<lparr>bfIdx := bfIdx s @ spread blkIdxVector,
              ovlBFIdx := ovlBFIdx s @ replicate (nat (ovlStartIdx - 1)) (-1) @ spread ovlBlkIdxVector,
              useOvlBF := useOvlBF s @ bf_useOvl ovlStartIdx blkIdxVector\<rparr>))))"

definition incr2_at :: "int list list \<Rightarrow> nat \<Rightarrow> nat \<Rightarrow> int list list result" where
  "incr2_at m i j =
     bindE (vec_get m i) (\<lambda>row. bindE (incr_at j row) (\<lambda>row'. vec_set m i row'))"

text \<open>The counting pass.  The function is declared to return \<open>int\<close> and returns nothing; its
  caller discards the value.\<close>

definition BloomFilter_firstCycleAccess :: "u64 \<Rightarrow> u64 \<Rightarrow> u64 \<Rightarrow> repl_state \<Rightarrow> repl_state result" where
  "BloomFilter_firstCycleAccess BF_LEN from dst s =
     bindE (vec_get (bfIdx s) (unat from)) (\<lambda>whichBF.
     bindE (vec_get (ovlBFIdx s) (unat from)) (\<lambda>whichOvlBF.
     bindE (checkE (BF_LEN \<noteq> 0) UB_Division) (\<lambda>_.
     bindE (incr2_at (bfList s) (idx_of_int whichBF) (unat (dst mod BF_LEN))) (\<lambda>bl.
     let s1 = s\<lparr>bfList := bl\<rparr> in
     if whichOvlBF \<noteq> -1 then
       bindE (incr2_at (olBfList s1) (idx_of_int whichOvlBF) (unat (dst mod BF_LEN))) (\<lambda>ol.
       Inr (s1\<lparr>olBfList := ol\<rparr>))
     else Inr s1))))"

text \<open>\<open>vector::at\<close> throws where \<open>operator[]\<close> is undefined.\<close>

definition vec_at :: "'a list \<Rightarrow> nat \<Rightarrow> 'a result" where
  "vec_at xs i = (if i < length xs then Inr (xs ! i) else Inl Out_Of_Range)"

text \<open>\<open>min_element\<close> and \<open>max_element\<close> return the first extremal position, and the end (index 0)
  of an empty range.\<close>

definition min_idx :: "int list \<Rightarrow> nat" where
  "min_idx xs = (case first_idx (\<lambda>x. \<forall>y \<in> set xs. x \<le> y) xs of Some i \<Rightarrow> i | None \<Rightarrow> 0)"

definition max_idx :: "int list \<Rightarrow> nat" where
  "max_idx xs = (case first_idx (\<lambda>x. \<forall>y \<in> set xs. y \<le> x) xs of Some i \<Rightarrow> i | None \<Rightarrow> 0)"

definition bf_count :: "u64 \<Rightarrow> int \<Rightarrow> bool \<Rightarrow> repl_state \<Rightarrow> int \<Rightarrow> int result" where
  "bf_count BF_LEN blkIdx useOvl s line =
     bindE (checkE (BF_LEN \<noteq> 0) UB_Division) (\<lambda>_.
     let j = idx_of_int (int_of_u64 (u64_of_int line mod BF_LEN)) in
     bindE (vec_get (if useOvl then olBfList s else bfList s) (idx_of_int blkIdx)) (\<lambda>row.
     vec_get row j))"

definition BloomFilter_replace ::
  "u64 \<Rightarrow> int \<Rightarrow> bool \<Rightarrow> int list \<Rightarrow> int list \<Rightarrow> repl_state \<Rightarrow> (int \<times> int) result" where
  "BloomFilter_replace BF_LEN blkIdx useOvl setVector weightVector s =
     bindE (mapE (bf_count BF_LEN blkIdx useOvl s) setVector) (\<lambda>cntVector.
     let minIdx = min_idx cntVector in
     bindE (vec_at setVector minIdx) (\<lambda>target.
     bindE (vec_at weightVector minIdx) (\<lambda>weightIdx.
     Inr (target, weightIdx))))"

section \<open>Moving median\<close>

definition MovingMedian_new :: "u64 \<Rightarrow> dims \<Rightarrow> repl_state \<Rightarrow> repl_state result" where
  "MovingMedian_new MOV_MED_BLOCK_NUM d s =
     (if MOV_MED_BLOCK_NUM = 0 then Inl UB_Division
      else let blockVertexN = int_of_u64 (a_h d div MOV_MED_BLOCK_NUM) in
        bindE (foldE incr_at [0 ..< unat (a_h d - MOV_MED_BLOCK_NUM * u64_of_int blockVertexN)]
                 (mvmBlkIdxVector s @ replicate (unat MOV_MED_BLOCK_NUM) blockVertexN)) (\<lambda>v.
        Inr (s\<lparr>mvmCurIdx := 0, mvmBlkIdxVector := v\<rparr>)))"

text \<open>The search for the block of \<open>from\<close>: the first block whose cumulated size reaches it,
  block 0 if there is none.\<close>

fun mvm_block :: "int list \<Rightarrow> nat \<Rightarrow> nat \<Rightarrow> int \<Rightarrow> u64 \<Rightarrow> int result" where
  "mvm_block v 0 i acc from = Inr 0"
| "mvm_block v (Suc n) i acc from =
     bindE (vec_get v i) (\<lambda>x.
       if u64_of_int (acc + x) \<ge> from then Inr (int i) else mvm_block v n (Suc i) (acc + x) from)"

text \<open>\<open>(double)tmpSum/mvmTmp.size()\<close>; \<open>None\<close> is the NaN of 0/0.\<close>

definition mvm_average :: "int list \<Rightarrow> fl option" where
  "mvm_average xs =
     (if xs = [] then None
      else Some (fl_div double_p (fl_of_u64 double_p (sum_list (map u64_of_int xs)))
                                 (fl_of_nat double_p (length xs))))"

definition MovingMedian_firstCycleAccess :: "u64 \<Rightarrow> u64 \<Rightarrow> u64 \<Rightarrow> repl_state \<Rightarrow> repl_state result" where
  "MovingMedian_firstCycleAccess MOV_MED_BLOCK_NUM from dst s =
     bindE (mvm_block (mvmBlkIdxVector s) (unat MOV_MED_BLOCK_NUM) 0 0 from) (\<lambda>idx.
     Inr (if mvmCurIdx s \<noteq> idx
          then s\<lparr>medians := medians s @ [mvm_average (mvmTmp s)], mvmTmp := [], mvmCurIdx := idx\<rparr>
          else s\<lparr>mvmTmp := mvmTmp s @ [int_of_u64 dst]\<rparr>))"

definition MovingMedian_replace ::
  "int \<Rightarrow> int list \<Rightarrow> int list \<Rightarrow> repl_state \<Rightarrow> (int \<times> int) result" where
  "MovingMedian_replace from setVector weightVector s =
     bindE (vec_get (medians s) (idx_of_int from)) (\<lambda>m.
     bindE (case m of None \<Rightarrow> Inl UB_Conversion
            | Some x \<Rightarrow> (let t = fl_trunc x in
                if - (2 ^ 31) \<le> t \<and> t < 2 ^ 31 then Inr t else Inl UB_Conversion)) (\<lambda>median.
     let maxIdx = max_idx (map (\<lambda>line. \<bar>median - line\<bar>) setVector) in
     bindE (vec_at setVector maxIdx) (\<lambda>target.
     bindE (vec_at weightVector maxIdx) (\<lambda>weightIdx.
     Inr (target, weightIdx)))))"

section \<open>The partition of the rows\<close>

lemma foldE_incr:
  "n \<le> length v \<Longrightarrow> foldE incr_at [0 ..< n] v = Inr (map (\<lambda>x. x + 1) (take n v) @ drop n v)"
proof (induction n)
  case (Suc n)
  then show ?case
    by (simp add: foldE_append incr_at_def take_Suc_conv_app_nth nth_append list_update_append
        flip: Cons_nth_drop_Suc)
qed simp

lemma block_sizes_eq:
  assumes "0 < unat num" and "unat tot < 2 ^ 31"
  shows "block_sizes tot num (int_of_u64 (tot div num)) =
    Inr (map (\<lambda>i. int (unat tot div unat num) + (if i < unat tot mod unat num then 1 else 0)) [0 ..< unat num])"
proof -
  let ?q = "unat tot div unat num" and ?r = "unat tot mod unat num"
  have q: "int_of_u64 (tot div num) = int ?q"
  proof -
    have "unat (tot div num) < 2 ^ 31" using assms(2) by (simp add: unat_div le_less_trans [OF div_le_dividend])
    from int_of_u64_nat [OF this] show ?thesis by (simp only: unat_div)
  qed
  have "tot - num * (tot div num) = tot mod num"
    by (metis add_diff_cancel_left' mult_div_mod_eq)
  moreover have "u64_of_int (int ?q) = tot div num"
    using u64_of_int_unat [of "tot div num"] by (simp only: unat_div)
  ultimately have r: "unat (tot - num * u64_of_int (int ?q)) = ?r" by (simp add: unat_mod)
  have le: "?r \<le> unat num" using assms(1) by (simp add: less_imp_le)
  have "foldE incr_at [0 ..< ?r] (replicate (unat num) (int ?q))
      = Inr (replicate ?r (int ?q + 1) @ replicate (unat num - ?r) (int ?q))"
    using le by (simp add: foldE_incr take_replicate drop_replicate min_def)
  also have "replicate ?r (int ?q + 1) @ replicate (unat num - ?r) (int ?q)
      = map (\<lambda>i. int ?q + (if i < ?r then 1 else 0)) [0 ..< unat num]"
    using le by (intro nth_equalityI) (auto simp: nth_append)
  finally show ?thesis by (simp add: block_sizes_def q r)
qed

lemma length_spread: "length (spread sizes) = sum_list (map nat sizes)"
proof -
  have "length (spread sizes) = sum_list (map (\<lambda>p. nat (snd p)) (zip [0 ..< length sizes] sizes))"
    by (auto simp: spread_def length_concat comp_def case_prod_beta)
  also have "\<dots> = sum_list (map nat (map snd (zip [0 ..< length sizes] sizes)))"
    unfolding map_map comp_def ..
  also have "map snd (zip [0 ..< length sizes] sizes) = sizes" by simp
  finally show ?thesis .
qed

lemma set_spread: "set (spread sizes) \<subseteq> {0 ..< int (length sizes)}"
  by (auto simp: spread_def set_zip)

lemma length_bf_useOvl:
  assumes "\<And>n. n \<in> set sizes \<Longrightarrow> ovlStartIdx - 1 \<le> n" and "1 \<le> ovlStartIdx"
  shows "length (bf_useOvl ovlStartIdx sizes) = sum_list (map nat sizes)"
  using assms(1)
proof (induction sizes)
  case (Cons n sizes)
  then have "ovlStartIdx - 1 \<le> n" by simp
  then have "nat (ovlStartIdx - 1) + nat (n - (ovlStartIdx - 1)) = nat n" using assms(2) by arith
  then show ?case using Cons assms(2) by (simp add: bf_useOvl_def)
qed (simp add: bf_useOvl_def)

lemma sum_block_sizes:
  assumes "0 < b"
  shows "sum_list (map nat (map (\<lambda>i. int (a div b) + (if i < a mod b then 1 else 0)) [0 ..< b])) = a"
proof -
  have "sum_list (map nat (map (\<lambda>i. int (a div b) + (if i < a mod b then 1 else 0)) [0 ..< b]))
      = (\<Sum>i = 0 ..< b. a div b + (if i < a mod b then 1 else 0))"
    by (auto simp: comp_def interv_sum_list_conv_sum_set_nat nat_add_distrib intro!: sum.cong)
  also have "\<dots> = b * (a div b) + (\<Sum>i = 0 ..< b. if i < a mod b then 1 else 0)"
    by (simp add: sum.distrib)
  also have "(\<Sum>i = 0 ..< b. if i < a mod b then 1 else 0) = card ({0 ..< b} \<inter> {i. i < a mod b})"
    by (simp add: sum.If_cases)
  also have "{0 ..< b} \<inter> {i. i < a mod b} = {0 ..< a mod b}"
    using assms by (auto intro: less_trans [OF _ mod_less_divisor])
  finally show ?thesis by simp
qed

text \<open>The rows of one overlapping filter start \<open>p\<close> rows into the first block.\<close>

definition bf_shift :: "ini_config \<Rightarrow> dims \<Rightarrow> nat" where
  "bf_shift c d = unat (a_h d) div unat (BLOOM_FILTER_NUM c) * (100 - unat (BF_OVERLAP c)) div 100"

definition bf_cfg_ok :: "ini_config \<Rightarrow> dims \<Rightarrow> bool" where
  "bf_cfg_ok c d \<longleftrightarrow> 0 < unat (BLOOM_FILTER_NUM c) \<and> unat (BLOOM_FILTER_NUM c) < 2 ^ 31
     \<and> Suc (unat (a_h d)) < 2 ^ 31 \<and> unat (BF_OVERLAP c) \<le> 100"

lemma bf_shift_le: "bf_shift c d \<le> unat (a_h d) div unat (BLOOM_FILTER_NUM c)"
proof -
  have "unat (a_h d) div unat (BLOOM_FILTER_NUM c) * (100 - unat (BF_OVERLAP c))
      \<le> unat (a_h d) div unat (BLOOM_FILTER_NUM c) * 100" by simp
  then have "bf_shift c d \<le> unat (a_h d) div unat (BLOOM_FILTER_NUM c) * 100 div 100"
    unfolding bf_shift_def by (rule div_le_mono)
  then show ?thesis by simp
qed

lemma bf_ovlStartIdx_eq:
  assumes "bf_cfg_ok c d"
  shows "bf_ovlStartIdx c (int (unat (a_h d) div unat (BLOOM_FILTER_NUM c))) = int (bf_shift c d) + 1"
proof -
  let ?q = "unat (a_h d) div unat (BLOOM_FILTER_NUM c)" and ?o = "unat (BF_OVERLAP c)"
  have q: "?q < 2 ^ 31" using assms by (simp add: bf_cfg_ok_def le_less_trans [OF div_le_dividend])
  have uq: "unat (u64_of_int (int ?q)) = ?q" using q by (intro unat_u64_of_int) simp
  have uo: "unat (100 - BF_OVERLAP c) = 100 - ?o"
    using assms by (subst unat_sub) (simp_all add: bf_cfg_ok_def word_le_nat_alt)
  have "?q * (100 - ?o) \<le> ?q * 100" by simp
  also have "\<dots> < 2 ^ 64" using q by simp
  finally have lt: "?q * (100 - ?o) < 2 ^ 64" .
  have um: "unat (u64_of_int (int ?q) * (100 - BF_OVERLAP c)) = ?q * (100 - ?o)"
    using lt unat_mult_lem [of "u64_of_int (int ?q)" "100 - BF_OVERLAP c"] by (simp add: uq uo)
  let ?w = "u64_of_int (int ?q) * (100 - BF_OVERLAP c) div 100"
  have ud: "unat ?w = bf_shift c d" by (simp add: unat_div um bf_shift_def)
  have small: "bf_shift c d < 2 ^ 31" using bf_shift_le [of c d] q by simp
  have ua: "unat (?w + 1) = bf_shift c d + 1"
    using small unat_add_lem [of ?w 1] by (simp add: ud)
  have "bf_shift c d + 1 < 2 ^ 31"
    using order_trans [OF bf_shift_le [of c d] div_le_dividend] assms by (simp add: bf_cfg_ok_def)
  then have "int_of_u64 (?w + 1) = int (unat (?w + 1))" by (intro int_of_u64_nat) (simp add: ua)
  then show ?thesis by (simp add: bf_ovlStartIdx_def ua)
qed

lemma bf_ovlBlk_eq:
  assumes "bf_cfg_ok c d"
  shows "bf_ovlBlkIdxVector c d (int (unat (a_h d) div unat (BLOOM_FILTER_NUM c))) (int (bf_shift c d) + 1)
    = replicate (unat (BLOOM_FILTER_NUM c) - 1) (int (unat (a_h d) div unat (BLOOM_FILTER_NUM c)))
      @ [int (unat (a_h d) - (unat (BLOOM_FILTER_NUM c) - 1) * (unat (a_h d) div unat (BLOOM_FILTER_NUM c)) - bf_shift c d)]"
proof -
  let ?a = "unat (a_h d)" and ?b = "unat (BLOOM_FILTER_NUM c)"
  let ?q = "?a div ?b" and ?p = "bf_shift c d"
  have b: "0 < ?b" and a: "?a < 2 ^ 31" using assms by (auto simp: bf_cfg_ok_def)
  have b1: "unat (BLOOM_FILTER_NUM c - 1) = ?b - 1"
    using b by (metis Suc_leI unat_1 unat_sub word_le_nat_alt One_nat_def)
  have uq: "unat (u64_of_int (int ?q)) = ?q"
    using a by (intro unat_u64_of_int) (simp add: le_less_trans [OF div_le_dividend])
  have le: "(?b - 1) * ?q + ?q \<le> ?a"
    using b by (metis Suc_diff_1 add.commute mult_Suc times_div_less_eq_dividend)
  have m: "unat ((BLOOM_FILTER_NUM c - 1) * u64_of_int (int ?q)) = (?b - 1) * ?q"
    using le a unat_mult_lem [of "BLOOM_FILTER_NUM c - 1" "u64_of_int (int ?q)"] by (simp add: b1 uq)
  have s1: "unat (a_h d - (BLOOM_FILTER_NUM c - 1) * u64_of_int (int ?q)) = ?a - (?b - 1) * ?q"
    using le by (subst unat_sub) (simp_all add: word_le_nat_alt m)
  have up: "unat (u64_of_int (int ?p)) = ?p"
    using bf_shift_le [of c d] a by (intro unat_u64_of_int) (simp add: le_less_trans [OF div_le_dividend] le_less_trans)
  have s2: "unat (a_h d - (BLOOM_FILTER_NUM c - 1) * u64_of_int (int ?q) - u64_of_int (int ?p))
      = ?a - (?b - 1) * ?q - ?p"
    using le bf_shift_le [of c d] by (subst unat_sub) (simp_all add: word_le_nat_alt s1 up)
  then show ?thesis using a
    by (simp add: bf_ovlBlkIdxVector_def b1 int_of_u64_nat)
qed

text \<open>The shape of the filter tables for \<open>n\<close> rows, \<open>b\<close> filters of \<open>len\<close> counters.\<close>

definition bf_wf :: "nat \<Rightarrow> nat \<Rightarrow> nat \<Rightarrow> repl_state \<Rightarrow> bool" where
  "bf_wf n b len s \<longleftrightarrow>
     length (bfIdx s) = n \<and> length (ovlBFIdx s) = n \<and> length (useOvlBF s) = n
     \<and> length (bfList s) = b \<and> length (olBfList s) = b
     \<and> (\<forall>r \<in> set (bfList s). length r = len) \<and> (\<forall>r \<in> set (olBfList s). length r = len)
     \<and> set (bfIdx s) \<subseteq> {0 ..< int b} \<and> set (ovlBFIdx s) \<subseteq> {-1 ..< int b}"

lemma bf_blockVertexN_eq:
  assumes "bf_cfg_ok c d"
  shows "bf_blockVertexN c d = Inr (int (unat (a_h d) div unat (BLOOM_FILTER_NUM c)))"
proof -
  have "unat (a_h d div BLOOM_FILTER_NUM c) < 2 ^ 31"
    using assms by (simp add: bf_cfg_ok_def unat_div le_less_trans [OF div_le_dividend])
  from int_of_u64_nat [OF this] show ?thesis
    using assms by (auto simp: bf_blockVertexN_def bf_cfg_ok_def unat_div)
qed

lemma BloomFilter_new_wf:
  assumes ok: "bf_cfg_ok c d"
    and empty: "bfIdx s = []" "ovlBFIdx s = []" "useOvlBF s = []" "bfList s = []" "olBfList s = []"
  shows "\<exists>s'. BloomFilter_new c d BF_LEN s = Inr s'
    \<and> bf_wf (unat (a_h d)) (unat (BLOOM_FILTER_NUM c)) (unat BF_LEN) s'
    \<and> (\<forall>r \<in> set (bfList s') \<union> set (olBfList s'). set r \<subseteq> {0})"
proof -
  let ?a = "unat (a_h d)" and ?b = "unat (BLOOM_FILTER_NUM c)"
  let ?q = "?a div ?b" and ?p = "bf_shift c d"
  let ?sz = "map (\<lambda>i. int ?q + (if i < ?a mod ?b then 1 else 0)) [0 ..< ?b]"
  let ?ov = "replicate (?b - 1) (int ?q) @ [int (?a - (?b - 1) * ?q - ?p)]"
  have b: "0 < ?b" and a: "?a < 2 ^ 31" using ok by (auto simp: bf_cfg_ok_def)
  have bs: "block_sizes (a_h d) (BLOOM_FILTER_NUM c) (int ?q) = Inr ?sz"
    using block_sizes_eq [OF b a] bf_blockVertexN_eq [OF ok]
    by (auto simp: bf_blockVertexN_def split: if_splits)
  have sum: "sum_list (map nat ?sz) = ?a" by (rule sum_block_sizes [OF b])
  have use: "length (bf_useOvl (int ?p + 1) ?sz) = ?a"
    using bf_shift_le [of c d] sum by (subst length_bf_useOvl) auto
  have "(?b - 1) * ?q + ?q \<le> ?a"
    using b by (metis Suc_diff_1 add.commute mult_Suc times_div_less_eq_dividend)
  then have ov: "?p + sum_list (map nat ?ov) = ?a"
    using bf_shift_le [of c d] by (simp add: sum_list_replicate del: of_nat_diff)
  have lsz: "length ?sz = ?b" and lov: "length ?ov = ?b" using b by simp_all
  have sets: "set (spread ?sz) \<subseteq> {0 ..< int ?b}" "set (spread ?ov) \<subseteq> {-1 ..< int ?b}"
    using set_spread [of ?sz] set_spread [of ?ov] unfolding lsz lov by auto
  have m1: "set (replicate ?p (-1 :: int)) \<subseteq> {-1 ..< int ?b}"
    using order.strict_trans2 [of "-1" 0 "uint (BLOOM_FILTER_NUM c)"] by auto
  have z: "set (replicate (unat BF_LEN) (0 :: int)) \<subseteq> {0}" by auto
  show ?thesis
    using sum use ov sets m1 z
    by (simp add: BloomFilter_new_def Let_def bf_blockVertexN_eq [OF ok] bs bf_ovlStartIdx_eq [OF ok]
        bf_ovlBlk_eq [OF ok] empty bf_wf_def length_spread)
qed

section \<open>The counting pass\<close>

lemma incr2_at_ok:
  assumes "i < length m" and "j < length (m ! i)"
  shows "incr2_at m i j = Inr (m[i := (m ! i)[j := m ! i ! j + 1]])"
  using assms by (simp add: incr2_at_def incr_at_def)

lemma bump_nth:
  assumes "i < length m" "j < length (m ! i)" "i' < length m" "j' < length (m ! i')"
  shows "m[i := (m ! i)[j := m ! i ! j + 1]] ! i' ! j' = m ! i' ! j' + (if i' = i \<and> j' = j then 1 else (0 :: int))"
  using assms by (auto simp: nth_list_update)

lemma bump_lengths:
  assumes "\<forall>r \<in> set m. length r = k"
  shows "\<forall>r \<in> set (m[i := (m ! i)[j := x]]). length r = k"
  using assms by (cases "i < length m") (auto dest!: set_update_subset_insert [THEN subsetD] simp: list_update_beyond)

text \<open>How often the scanned edges refer to slot \<open>j\<close> from rows the table \<open>idx\<close> assigns to \<open>f\<close>.\<close>

definition refs :: "int list \<Rightarrow> u64 \<Rightarrow> (u64 \<times> u64) list \<Rightarrow> nat \<Rightarrow> nat \<Rightarrow> nat" where
  "refs idx len es f j =
     length (filter (\<lambda>(src, dst). idx ! unat src = int f \<and> unat (dst mod len) = j) es)"

lemma BloomFilter_firstCycleAccess_step:
  assumes wf: "bf_wf n b (unat len) s" and len: "0 < len" and n: "unat src < n" and b: "b < 2 ^ 31"
  shows "\<exists>s'. BloomFilter_firstCycleAccess len src dst s = Inr s' \<and> bf_wf n b (unat len) s'
    \<and> bfIdx s' = bfIdx s \<and> ovlBFIdx s' = ovlBFIdx s \<and> useOvlBF s' = useOvlBF s
    \<and> (\<forall>f < b. \<forall>j < unat len.
          bfList s' ! f ! j = bfList s ! f ! j + int (refs (bfIdx s) len [(src, dst)] f j)
        \<and> olBfList s' ! f ! j = olBfList s ! f ! j + int (refs (ovlBFIdx s) len [(src, dst)] f j))"
proof -
  let ?w = "bfIdx s ! unat src" and ?o = "ovlBFIdx s ! unat src" and ?j = "unat (dst mod len)"
  have w: "0 \<le> ?w" "?w < int b" and o: "-1 \<le> ?o" "?o < int b"
    using wf n nth_mem [of "unat src" "bfIdx s"] nth_mem [of "unat src" "ovlBFIdx s"]
    by (auto simp: bf_wf_def subset_iff)
  have iw: "idx_of_int ?w = nat ?w" using w b by (intro idx_of_int_nonneg) auto
  have j: "?j < unat len" using len by (simp add: unat_mod word_less_nat_alt)
  have rl: "\<And>f. f < b \<Longrightarrow> length (bfList s ! f) = unat len \<and> length (olBfList s ! f) = unat len"
    and ll: "length (bfList s) = b" "length (olBfList s) = b" "length (bfIdx s) = n" "length (ovlBFIdx s) = n"
    using wf by (auto simp: bf_wf_def)
  have wb: "nat ?w < b" using w by simp
  have len0: "len \<noteq> 0" using len by (simp add: word_gt_0)
  let ?bl = "(bfList s)[nat ?w := (bfList s ! nat ?w)[?j := bfList s ! nat ?w ! ?j + 1]]"
  let ?ol = "(olBfList s)[nat ?o := (olBfList s ! nat ?o)[?j := olBfList s ! nat ?o ! ?j + 1]]"
  have i1: "incr2_at (bfList s) (idx_of_int ?w) ?j = Inr ?bl"
    using wb j rl [OF wb] ll by (simp add: iw incr2_at_ok)
  have r1: "?bl ! f ! k = bfList s ! f ! k + int (refs (bfIdx s) len [(src, dst)] f k)"
    if "f < b" "k < unat len" for f k
    using that wb j rl ll w by (subst bump_nth) (auto simp: refs_def)
  have l1: "\<forall>r \<in> set ?bl. length r = unat len" using wf by (intro bump_lengths) (simp add: bf_wf_def)
  show ?thesis
  proof (cases "?o = -1")
    case True
    then have "refs (ovlBFIdx s) len [(src, dst)] f k = 0" for f k by (simp add: refs_def)
    then show ?thesis
      using True n ll len0 i1 r1 l1 wf
      by (auto simp: BloomFilter_firstCycleAccess_def Let_def bf_wf_def)
  next
    case False
    then have ob: "nat ?o < b" "0 \<le> ?o" and io: "idx_of_int ?o = nat ?o"
      using o b by (auto intro!: idx_of_int_nonneg)
    have i2: "incr2_at (olBfList s) (idx_of_int ?o) ?j = Inr ?ol"
      using ob j rl [OF ob(1)] ll by (simp add: io incr2_at_ok)
    have r2: "?ol ! f ! k = olBfList s ! f ! k + int (refs (ovlBFIdx s) len [(src, dst)] f k)"
      if "f < b" "k < unat len" for f k
      using that ob j rl ll by (subst bump_nth) (auto simp: refs_def)
    have l2: "\<forall>r \<in> set ?ol. length r = unat len" using wf by (intro bump_lengths) (simp add: bf_wf_def)
    show ?thesis
      using False n ll len0 i1 r1 l1 i2 r2 l2 wf
      by (auto simp: BloomFilter_firstCycleAccess_def Let_def bf_wf_def)
  qed
qed

lemma BloomFilter_scan:
  assumes "bf_wf n b (unat len) s" and "0 < len" and "b < 2 ^ 31" and "\<forall>(src, dst) \<in> set es. unat src < n"
  shows "\<exists>s'. foldE (\<lambda>(src, dst). BloomFilter_firstCycleAccess len src dst) es s = Inr s'
    \<and> bf_wf n b (unat len) s' \<and> bfIdx s' = bfIdx s \<and> ovlBFIdx s' = ovlBFIdx s
    \<and> (\<forall>f < b. \<forall>j < unat len.
          bfList s' ! f ! j = bfList s ! f ! j + int (refs (bfIdx s) len es f j)
        \<and> olBfList s' ! f ! j = olBfList s ! f ! j + int (refs (ovlBFIdx s) len es f j))"
  using assms
proof (induction es arbitrary: s)
  case Nil
  then show ?case by (simp add: refs_def)
next
  case (Cons e es)
  obtain src dst where e: "e = (src, dst)" by (cases e)
  from BloomFilter_firstCycleAccess_step [OF Cons.prems(1,2), of src dst] Cons.prems(3,4) e
  obtain s1 where s1: "BloomFilter_firstCycleAccess len src dst s = Inr s1" "bf_wf n b (unat len) s1"
    "bfIdx s1 = bfIdx s" "ovlBFIdx s1 = ovlBFIdx s"
    "\<forall>f < b. \<forall>j < unat len. bfList s1 ! f ! j = bfList s ! f ! j + int (refs (bfIdx s) len [(src, dst)] f j)
        \<and> olBfList s1 ! f ! j = olBfList s ! f ! j + int (refs (ovlBFIdx s) len [(src, dst)] f j)"
    by auto
  from Cons.IH [OF s1(2) Cons.prems(2,3)] Cons.prems(4) obtain s2 where
    s2: "foldE (\<lambda>(src, dst). BloomFilter_firstCycleAccess len src dst) es s1 = Inr s2"
      "bf_wf n b (unat len) s2" "bfIdx s2 = bfIdx s1" "ovlBFIdx s2 = ovlBFIdx s1"
    "\<forall>f < b. \<forall>j < unat len. bfList s2 ! f ! j = bfList s1 ! f ! j + int (refs (bfIdx s1) len es f j)
        \<and> olBfList s2 ! f ! j = olBfList s1 ! f ! j + int (refs (ovlBFIdx s1) len es f j)"
    by auto
  have split: "refs idx len ((src, dst) # es) f j = refs idx len [(src, dst)] f j + refs idx len es f j" for idx f j
    by (simp add: refs_def)
  show ?case using s1 s2 by (simp add: e split)
qed

section \<open>The victim\<close>

lemma min_idx_least:
  assumes "xs \<noteq> []"
  shows "min_idx xs < length xs" and "\<forall>y \<in> set xs. xs ! min_idx xs \<le> y"
proof -
  have "Min (set xs) \<in> set xs" using assms by simp
  then obtain i where i: "first_idx (\<lambda>x. \<forall>y \<in> set xs. x \<le> y) xs = Some i"
    using first_idx_exists [of "Min (set xs)" xs "\<lambda>x. \<forall>y \<in> set xs. x \<le> y"] by auto
  show "min_idx xs < length xs" and "\<forall>y \<in> set xs. xs ! min_idx xs \<le> y"
    using i by (auto simp: min_idx_def) (auto simp: first_idx_Some)
qed

lemma mapE_Inr_nth:
  "mapE f xs = Inr ys \<Longrightarrow> length ys = length xs \<and> (\<forall>i < length xs. f (xs ! i) = Inr (ys ! i))"
  by (induction xs arbitrary: ys) (auto simp: bindE_eq_Inr nth_Cons split: nat.splits)

lemma mapE_total: "(\<And>x. x \<in> set xs \<Longrightarrow> \<exists>y. f x = Inr y) \<Longrightarrow> \<exists>ys. mapE f xs = Inr ys"
proof (induction xs)
  case (Cons x xs)
  then obtain y ys where "f x = Inr y" "mapE f xs = Inr ys" by force
  then show ?case by simp
qed simp

end
