(* ===== verification/Dram_Interface.thy ===== *)
theory Dram_Interface
  imports Common_Types
begin

text \<open>
  \<open>DRAMInterface.cpp\<close>: the queue between the accelerator's readers and the DRAM channels.
  A channel is reached through four operations only, collected in the record \<open>mem_ops\<close>;
  a clock tick reports the callbacks it makes as a list, in order, because the callbacks
  touch the interface and its counters but never the channel.  The locale \<open>memory_system\<close>
  is the contract a channel gives (every accepted transaction is called back exactly once),
  and the lemmas proved in it carry the contract to the interface: nothing that was requested
  is lost or duplicated between \<open>t_queue\<close>, the channels and the completion queues.

  The record also holds the global counters the callbacks update (\<open>a_util\<close>, \<open>w_util\<close>,
  \<open>tot_req\<close>, \<open>tot_axw_count\<close>, \<open>tot_xw_count\<close>).
\<close>

section \<open>State\<close>

record 'm mem_ops =
  will_accept :: "'m \<Rightarrow> u64 \<Rightarrow> bool \<Rightarrow> bool result"
  add_trans :: "'m \<Rightarrow> u64 \<Rightarrow> bool \<Rightarrow> 'm result"
  clock_tick :: "'m \<Rightarrow> ('m \<times> (u64 \<times> bool) list) result"
  is_queue_fill :: "'m \<Rightarrow> bool"

type_synonym di_trans = "u64 \<times> bool"

record GBInfo =
  gb_id :: int
  gb_address :: u64

record 'm dram_if =
  dram :: "'m list"
  dram_idx :: int
  cmp_idx :: int
  f_read_complete :: bool
  w_read_complete :: bool
  f_address :: "u64 list"
  w_address :: "u64 list"
  t_queue :: "di_trans list"
  info :: "GBInfo list"
  a_util :: u64
  w_util :: u64
  tot_req :: int
  tot_axw_count :: u64
  tot_xw_count :: u64

section \<open>Operations\<close>

definition DRAMInterface_new :: "'m list \<Rightarrow> 'm dram_if" where
  "DRAMInterface_new ms = \<lparr>dram = ms, dram_idx = 0, cmp_idx = 0, f_read_complete = False,
     w_read_complete = False, f_address = [], w_address = [], t_queue = [], info = [],
     a_util = 0, w_util = 0, tot_req = 0, tot_axw_count = 0, tot_xw_count = 0\<rparr>"

definition DRAMRequest :: "u64 \<Rightarrow> bool \<Rightarrow> 'm dram_if \<Rightarrow> 'm dram_if" where
  "DRAMRequest address is_write s = s\<lparr>t_queue := t_queue s @ [(address, is_write)]\<rparr>"

definition DRAMRequest_id :: "u64 \<Rightarrow> bool \<Rightarrow> int \<Rightarrow> 'm dram_if \<Rightarrow> 'm dram_if" where
  "DRAMRequest_id address is_write i s =
     (DRAMRequest address is_write s)\<lparr>info := info s @ [\<lparr>gb_id = i, gb_address = address\<rparr>]\<rparr>"

definition next_idx :: "int \<Rightarrow> int \<Rightarrow> int" where
  "next_idx max_dram i = (if i + 1 = max_dram then 0 else i + 1)"

definition IsExistTransaction :: "'m dram_if \<Rightarrow> bool" where
  "IsExistTransaction s \<longleftrightarrow> t_queue s \<noteq> []"

definition CanRequest :: "'m mem_ops \<Rightarrow> int \<Rightarrow> 'm dram_if \<Rightarrow> bool result" where
  "CanRequest ops idx s =
     bindE (q_front (t_queue s)) (\<lambda>(address, is_write).
     bindE (vec_get (dram s) (idx_of_int idx)) (\<lambda>m. will_accept ops m address is_write))"

text \<open>The body of the accepting branch.\<close>

definition send_front :: "'m mem_ops \<Rightarrow> int \<Rightarrow> 'm dram_if \<Rightarrow> 'm dram_if result" where
  "send_front ops max_dram s =
     bindE (q_front (t_queue s)) (\<lambda>(address, is_write).
     let i = idx_of_int (dram_idx s) in
     bindE (vec_get (dram s) i) (\<lambda>m.
     bindE (add_trans ops m address is_write) (\<lambda>m'.
     bindE (q_pop (t_queue s)) (\<lambda>q.
     Inr (s\<lparr>dram := (dram s)[i := m'], t_queue := q, dram_idx := next_idx max_dram (dram_idx s)\<rparr>)))))"

partial_function (option) add_loop ::
  "'m mem_ops \<Rightarrow> int \<Rightarrow> int \<Rightarrow> 'm dram_if \<Rightarrow> 'm dram_if result option" where
  "add_loop ops max_dram check s =
     (if IsExistTransaction s then
        (case CanRequest ops (dram_idx s) s of
           Inl e \<Rightarrow> Some (Inl e)
         | Inr ok \<Rightarrow>
             if ok then
               (case send_front ops max_dram s of
                  Inl e \<Rightarrow> Some (Inl e)
                | Inr s' \<Rightarrow> add_loop ops max_dram check s')
             else if next_idx max_dram (dram_idx s) = check
               then Some (Inr (s\<lparr>dram_idx := next_idx max_dram (dram_idx s)\<rparr>))
               else add_loop ops max_dram check (s\<lparr>dram_idx := next_idx max_dram (dram_idx s)\<rparr>))
      else Some (Inr s))"

definition AddTransaction :: "'m mem_ops \<Rightarrow> int \<Rightarrow> 'm dram_if \<Rightarrow> 'm dram_if result" where
  "AddTransaction ops max_dram s =
     (case add_loop ops max_dram (dram_idx s) s of None \<Rightarrow> Inl Diverges | Some r \<Rightarrow> r)"

definition ReadCompleteCallback :: "ini_config \<Rightarrow> u64 \<Rightarrow> 'm dram_if \<Rightarrow> 'm dram_if" where
  "ReadCompleteCallback c address s =
     (let s1 = (if address < WEIGHT_START c
                then s\<lparr>f_read_complete := True, f_address := f_address s @ [address], a_util := a_util s + 1\<rparr>
                else s\<lparr>w_read_complete := True, w_address := w_address s @ [address], w_util := w_util s + 1\<rparr>)
      in s1\<lparr>tot_req := tot_req s1 - 1\<rparr>)"

definition WriteCompleteCallback :: "ini_config \<Rightarrow> u64 \<Rightarrow> 'm dram_if \<Rightarrow> 'm dram_if" where
  "WriteCompleteCallback c address s =
     (if address \<ge> AXW_START c then s\<lparr>tot_axw_count := tot_axw_count s - 1\<rparr>
      else s\<lparr>tot_xw_count := tot_xw_count s - 1\<rparr>)"

definition callback :: "ini_config \<Rightarrow> u64 \<times> bool \<Rightarrow> 'm dram_if \<Rightarrow> 'm dram_if" where
  "callback c p s = (if snd p then WriteCompleteCallback c (fst p) s else ReadCompleteCallback c (fst p) s)"

definition tick_channel :: "'m mem_ops \<Rightarrow> ini_config \<Rightarrow> nat \<Rightarrow> 'm dram_if \<Rightarrow> 'm dram_if result" where
  "tick_channel ops c i s =
     bindE (vec_get (dram s) i) (\<lambda>m.
     bindE (clock_tick ops m) (\<lambda>(m', cs).
     Inr (fold (callback c) cs (s\<lparr>dram := (dram s)[i := m']\<rparr>))))"

definition UpdateCycle :: "'m mem_ops \<Rightarrow> ini_config \<Rightarrow> 'm dram_if \<Rightarrow> 'm dram_if result" where
  "UpdateCycle ops c s = foldE (tick_channel ops c) [0 ..< nat (MAX_DRAM c)] s"

definition FReadComplete :: "'m dram_if \<Rightarrow> bool" where
  "FReadComplete s = f_read_complete s"

definition WReadComplete :: "'m dram_if \<Rightarrow> bool" where
  "WReadComplete s = w_read_complete s"

definition DRAMInterface_ReturnID :: "u64 \<Rightarrow> 'm dram_if \<Rightarrow> (int \<times> 'm dram_if) result" where
  "DRAMInterface_ReturnID address s =
     (case first_idx (\<lambda>g. gb_address g = address) (info s) of
        None \<Rightarrow> Inl UB_Index
      | Some i \<Rightarrow> Inr (gb_id (info s ! i), s\<lparr>info := erase_at i (info s)\<rparr>))"

definition GetReadData :: "bool \<Rightarrow> 'm dram_if \<Rightarrow> (u64 \<times> 'm dram_if) result" where
  "GetReadData isW s =
     (if \<not> isW then
        bindE (q_front (f_address s)) (\<lambda>ret.
        bindE (q_pop (f_address s)) (\<lambda>q.
        Inr (ret, s\<lparr>f_address := q, f_read_complete := (if q = [] then False else f_read_complete s)\<rparr>)))
      else
        bindE (q_front (w_address s)) (\<lambda>ret.
        bindE (q_pop (w_address s)) (\<lambda>q.
        Inr (ret, s\<lparr>w_address := q, w_read_complete := (if q = [] then False else w_read_complete s)\<rparr>))))"

definition WriteExist :: "'m mem_ops \<Rightarrow> 'm dram_if \<Rightarrow> bool result" where
  "WriteExist ops s = bindE (vec_get (dram s) 0) (\<lambda>m. Inr (is_queue_fill ops m))"

section \<open>The contract of a channel\<close>

locale memory_system =
  fixes ops :: "'m mem_ops"
    and minv :: "'m \<Rightarrow> bool"
    and owed :: "'m \<Rightarrow> di_trans multiset"
  assumes will_accept_total: "minv m \<Longrightarrow> \<exists>b. will_accept ops m a w = Inr b"
    and add_accepted: "minv m \<Longrightarrow> will_accept ops m a w = Inr True \<Longrightarrow>
      \<exists>m'. add_trans ops m a w = Inr m' \<and> minv m' \<and> owed m' = add_mset (a, w) (owed m)"
    and tick_returns: "minv m \<Longrightarrow>
      \<exists>m' cs. clock_tick ops m = Inr (m', cs) \<and> minv m' \<and> owed m = owed m' + mset cs"

section \<open>Flags\<close>

text \<open>The completion flags say exactly whether the completion queues hold something.\<close>

definition di_flags :: "'m dram_if \<Rightarrow> bool" where
  "di_flags s \<longleftrightarrow> (f_read_complete s \<longleftrightarrow> f_address s \<noteq> []) \<and> (w_read_complete s \<longleftrightarrow> w_address s \<noteq> [])"

lemma di_flags_new: "di_flags (DRAMInterface_new ms)"
  by (simp add: di_flags_def DRAMInterface_new_def)

lemma di_flags_request: "di_flags (DRAMRequest a w s) = di_flags s"
  "di_flags (DRAMRequest_id a w i s) = di_flags s"
  by (simp_all add: di_flags_def DRAMRequest_def DRAMRequest_id_def)

lemma di_flags_callback: "di_flags s \<Longrightarrow> di_flags (callback c p s)"
  by (simp add: di_flags_def callback_def ReadCompleteCallback_def WriteCompleteCallback_def Let_def)

lemma di_flags_callbacks: "di_flags s \<Longrightarrow> di_flags (fold (callback c) cs s)"
  by (induction cs arbitrary: s) (simp_all add: di_flags_callback)

lemma di_flags_tick: "di_flags s \<Longrightarrow> tick_channel ops c i s = Inr s' \<Longrightarrow> di_flags s'"
  by (auto simp: tick_channel_def monad_simps split: prod.splits intro!: di_flags_callbacks)
    (simp add: di_flags_def)

lemma di_flags_UpdateCycle: "di_flags s \<Longrightarrow> UpdateCycle ops c s = Inr s' \<Longrightarrow> di_flags s'"
  unfolding UpdateCycle_def by (erule foldE_invariant) (auto intro: di_flags_tick)

lemma GetReadData_flags:
  "di_flags s \<Longrightarrow> GetReadData w s = Inr (a, s') \<Longrightarrow> di_flags s'"
  by (cases w; cases "f_address s"; cases "w_address s") (auto simp: GetReadData_def di_flags_def)

section \<open>What the callbacks do\<close>

definition reads_below :: "ini_config \<Rightarrow> di_trans list \<Rightarrow> u64 list" where
  "reads_below c cs = map fst (filter (\<lambda>(a, w). \<not> w \<and> a < WEIGHT_START c) cs)"

definition reads_above :: "ini_config \<Rightarrow> di_trans list \<Rightarrow> u64 list" where
  "reads_above c cs = map fst (filter (\<lambda>(a, w). \<not> w \<and> \<not> a < WEIGHT_START c) cs)"

definition writes_axw :: "ini_config \<Rightarrow> di_trans list \<Rightarrow> nat" where
  "writes_axw c cs = length (filter (\<lambda>(a, w). w \<and> a \<ge> AXW_START c) cs)"

lemma callbacks_queues:
  "f_address (fold (callback c) cs s) = f_address s @ reads_below c cs"
  "w_address (fold (callback c) cs s) = w_address s @ reads_above c cs"
  "t_queue (fold (callback c) cs s) = t_queue s"
  "info (fold (callback c) cs s) = info s"
  "dram (fold (callback c) cs s) = dram s"
  "dram_idx (fold (callback c) cs s) = dram_idx s"
  by (induction cs arbitrary: s)
    (auto simp: callback_def ReadCompleteCallback_def WriteCompleteCallback_def Let_def
      reads_below_def reads_above_def split: if_splits)

lemma callbacks_counters:
  "tot_req (fold (callback c) cs s) = tot_req s - int (length (filter (\<lambda>(a, w). \<not> w) cs))"
  "tot_axw_count (fold (callback c) cs s) = tot_axw_count s - of_nat (writes_axw c cs)"
  "a_util (fold (callback c) cs s) = a_util s + of_nat (length (reads_below c cs))"
  "w_util (fold (callback c) cs s) = w_util s + of_nat (length (reads_above c cs))"
  by (induction cs arbitrary: s)
    (auto simp: callback_def ReadCompleteCallback_def WriteCompleteCallback_def Let_def
      reads_below_def reads_above_def writes_axw_def split: if_splits)

section \<open>The interface keeps every transaction\<close>

definition di_wf :: "('m \<Rightarrow> bool) \<Rightarrow> ini_config \<Rightarrow> 'm dram_if \<Rightarrow> bool" where
  "di_wf minv c s \<longleftrightarrow> 0 \<le> dram_idx s \<and> dram_idx s < MAX_DRAM c \<and> MAX_DRAM c < 2 ^ 31
     \<and> int (length (dram s)) = MAX_DRAM c \<and> (\<forall>m \<in> set (dram s). minv m)"

definition owed_all :: "('m \<Rightarrow> di_trans multiset) \<Rightarrow> 'm dram_if \<Rightarrow> di_trans multiset" where
  "owed_all owed s = sum_mset (image_mset owed (mset (dram s)))"

text \<open>Distance to go before the index comes back to where the loop started.\<close>

definition round_left :: "int \<Rightarrow> int \<Rightarrow> int \<Rightarrow> nat" where
  "round_left n check i = nat (if i < check then check - i else check + n - i)"

section \<open>Runs of the interface\<close>

text \<open>Every sequence of calls a client can make, with the transactions it requested and the
  addresses it was handed back.\<close>

inductive di_run :: "'m mem_ops \<Rightarrow> ini_config \<Rightarrow> 'm dram_if \<Rightarrow> di_trans list \<Rightarrow> u64 list \<Rightarrow> 'm dram_if \<Rightarrow> bool"
  for ops :: "'m mem_ops" and c :: ini_config and s0 :: "'m dram_if" where
  run_start: "di_run ops c s0 [] [] s0"
| run_request: "di_run ops c s0 rs hs s \<Longrightarrow> di_run ops c s0 (rs @ [(a, w)]) hs (DRAMRequest a w s)"
| run_request_id: "di_run ops c s0 rs hs s \<Longrightarrow> di_run ops c s0 (rs @ [(a, w)]) hs (DRAMRequest_id a w i s)"
| run_add: "di_run ops c s0 rs hs s \<Longrightarrow> AddTransaction ops (MAX_DRAM c) s = Inr s' \<Longrightarrow> di_run ops c s0 rs hs s'"
| run_tick: "di_run ops c s0 rs hs s \<Longrightarrow> UpdateCycle ops c s = Inr s' \<Longrightarrow> di_run ops c s0 rs hs s'"
| run_get: "di_run ops c s0 rs hs s \<Longrightarrow> GetReadData b s = Inr (a, s') \<Longrightarrow> di_run ops c s0 rs (hs @ [a]) s'"
| run_return_id: "di_run ops c s0 rs hs s \<Longrightarrow> DRAMInterface_ReturnID a s = Inr (i, s') \<Longrightarrow> di_run ops c s0 rs hs s'"

inductive_cases di_run_startE: "di_run ops c s0 [] [] s"

definition reads_of :: "di_trans multiset \<Rightarrow> u64 multiset" where
  "reads_of M = image_mset fst (filter_mset (\<lambda>t. \<not> snd t) M)"

definition axw_writes :: "ini_config \<Rightarrow> di_trans multiset \<Rightarrow> nat" where
  "axw_writes c M = size (filter_mset (\<lambda>t. snd t \<and> AXW_START c \<le> fst t) M)"

text \<open>Reads requested are exactly those queued, in a channel, completed, or handed out; the
  count of output rows still to be written went down once per completed write.\<close>

definition di_conserved ::
  "('m \<Rightarrow> di_trans multiset) \<Rightarrow> ini_config \<Rightarrow> 'm dram_if \<Rightarrow> di_trans list \<Rightarrow> u64 list \<Rightarrow> 'm dram_if \<Rightarrow> bool" where
  "di_conserved owed c s0 rs hs s \<longleftrightarrow>
     reads_of (mset rs) + reads_of (mset (t_queue s0) + owed_all owed s0) + mset (f_address s0) + mset (w_address s0)
       = reads_of (mset (t_queue s) + owed_all owed s) + mset (f_address s) + mset (w_address s) + mset hs
     \<and> (\<exists>n. tot_axw_count s = tot_axw_count s0 - of_nat n
          \<and> axw_writes c (mset rs) + axw_writes c (mset (t_queue s0) + owed_all owed s0)
            = axw_writes c (mset (t_queue s) + owed_all owed s) + n)"

lemma reads_of_union [simp]: "reads_of (M + N) = reads_of M + reads_of N"
  by (simp_all add: reads_of_def)

lemma axw_writes_union [simp]: "axw_writes c (M + N) = axw_writes c M + axw_writes c N"
  by (simp add: axw_writes_def)

lemma owed_all_frame: "dram s' = dram s \<Longrightarrow> owed_all owed s' = owed_all owed s"
  by (simp add: owed_all_def)

lemma reads_of_add [simp]:
  "reads_of {#} = {#}"
  "reads_of (add_mset t M) = (if snd t then reads_of M else add_mset (fst t) (reads_of M))"
  by (simp_all add: reads_of_def)

lemma axw_writes_add [simp]:
  "axw_writes c {#} = 0"
  "axw_writes c (add_mset t M) = (if snd t \<and> AXW_START c \<le> fst t then Suc (axw_writes c M) else axw_writes c M)"
  by (simp_all add: axw_writes_def)

lemma conserved_request:
  assumes "di_conserved owed c s0 rs hs s" and "t_queue s' = t_queue s @ [t]"
    and "f_address s' = f_address s" "w_address s' = w_address s" "dram s' = dram s"
    and "tot_axw_count s' = tot_axw_count s"
  shows "di_conserved owed c s0 (rs @ [t]) hs s'"
  using assms owed_all_frame [OF assms(5), of owed] unfolding di_conserved_def
  by (auto simp: ac_simps)

lemma reads_of_completions: "reads_of (mset cs) = mset (reads_below c cs) + mset (reads_above c cs)"
  by (induction cs) (auto simp: reads_of_def reads_below_def reads_above_def)

lemma axw_writes_completions: "axw_writes c (mset cs) = writes_axw c cs"
  by (induction cs) (auto simp: axw_writes_def writes_axw_def)

lemma di_wf_frame: "dram s' = dram s \<Longrightarrow> dram_idx s' = dram_idx s \<Longrightarrow> di_wf minv c s' = di_wf minv c s"
  by (simp add: di_wf_def)

lemma GetReadData_takes:
  assumes "GetReadData b s = Inr (a, s')"
  shows "mset (f_address s) + mset (w_address s) = mset (f_address s') + mset (w_address s') + {#a#}"
    and "t_queue s' = t_queue s" and "dram s' = dram s" and "dram_idx s' = dram_idx s"
    and "tot_axw_count s' = tot_axw_count s"
  using assms by (auto simp: GetReadData_def monad_simps split: if_splits)

lemma ReturnID_frame:
  assumes "DRAMInterface_ReturnID a s = Inr (i, s')"
  shows "f_address s' = f_address s" and "w_address s' = w_address s" and "t_queue s' = t_queue s"
    and "dram s' = dram s" and "dram_idx s' = dram_idx s" and "tot_axw_count s' = tot_axw_count s"
    and "di_flags s' = di_flags s"
  using assms by (auto simp: DRAMInterface_ReturnID_def di_flags_def split: option.splits)

context memory_system
begin

lemma owed_all_update:
  assumes "i < length (dram s)"
  shows "owed_all owed (s\<lparr>dram := (dram s)[i := m]\<rparr>) + owed (dram s ! i) = owed_all owed s + owed m"
proof -
  have "add_mset (dram s ! i) (mset ((dram s)[i := m])) = add_mset m (mset (dram s))"
    using assms by (simp add: mset_update)
  then have "sum_mset (image_mset owed (add_mset (dram s ! i) (mset ((dram s)[i := m]))))
      = sum_mset (image_mset owed (add_mset m (mset (dram s))))" by simp
  then show ?thesis by (simp add: owed_all_def ac_simps)
qed

lemma di_wf_idx: "di_wf minv c s \<Longrightarrow> idx_of_int (dram_idx s) = nat (dram_idx s) \<and> nat (dram_idx s) < length (dram s)"
  by (auto simp: di_wf_def idx_of_int_nonneg)

lemma di_wf_next: "di_wf minv c s \<Longrightarrow> di_wf minv c (s\<lparr>dram_idx := next_idx (MAX_DRAM c) (dram_idx s)\<rparr>)"
  by (auto simp: di_wf_def next_idx_def)

lemma round_left_next:
  "0 \<le> i \<Longrightarrow> i < n \<Longrightarrow> 0 \<le> check \<Longrightarrow> check < n \<Longrightarrow> next_idx n i \<noteq> check \<Longrightarrow>
    round_left n check (next_idx n i) < round_left n check i"
  by (auto simp: round_left_def next_idx_def)

lemma send_front_spec:
  assumes wf: "di_wf minv c s" and t: "t_queue s = t # q" and ok: "CanRequest ops (dram_idx s) s = Inr True"
  shows "\<exists>s'. send_front ops (MAX_DRAM c) s = Inr s' \<and> di_wf minv c s' \<and> t_queue s' = q
    \<and> owed_all owed s' = owed_all owed s + {#t#} \<and> info s' = info s
    \<and> f_address s' = f_address s \<and> w_address s' = w_address s \<and> di_flags s' = di_flags s
    \<and> tot_axw_count s' = tot_axw_count s"
proof -
  let ?i = "nat (dram_idx s)" and ?m = "dram s ! nat (dram_idx s)"
  note ix = di_wf_idx [OF wf]
  have minv: "minv ?m" using wf ix by (simp add: di_wf_def)
  have "will_accept ops ?m (fst t) (snd t) = Inr True"
    using ok ix t by (simp add: CanRequest_def case_prod_beta)
  from add_accepted [OF minv this] obtain m' where
    m': "add_trans ops ?m (fst t) (snd t) = Inr m'" "minv m'" "owed m' = add_mset t (owed ?m)" by auto
  let ?s = "s\<lparr>dram := (dram s)[?i := m'], t_queue := q, dram_idx := next_idx (MAX_DRAM c) (dram_idx s)\<rparr>"
  have eq: "send_front ops (MAX_DRAM c) s = Inr ?s"
    using ix t m'(1) by (simp add: send_front_def Let_def case_prod_beta)
  have "owed_all owed (s\<lparr>dram := (dram s)[?i := m']\<rparr>) + owed ?m = owed_all owed s + owed m'"
    using owed_all_update [of ?i s m'] ix by simp
  then have "owed_all owed (s\<lparr>dram := (dram s)[?i := m']\<rparr>) = owed_all owed s + {#t#}" by (simp add: m'(3))
  then have "owed_all owed ?s = owed_all owed s + {#t#}" by (simp add: owed_all_def)
  moreover have "di_wf minv c ?s"
    using di_wf_next [OF wf] wf m'(2) set_update_subset_insert [of "dram s" ?i m']
    by (auto simp: di_wf_def)
  ultimately show ?thesis using eq by (simp add: di_flags_def)
qed

lemma add_loop_spec:
  assumes "di_wf minv c s" and "0 \<le> check" and "check < MAX_DRAM c"
  shows "\<exists>s'. add_loop ops (MAX_DRAM c) check s = Some (Inr s') \<and> di_wf minv c s'
    \<and> (\<exists>sent. t_queue s = sent @ t_queue s' \<and> owed_all owed s' = owed_all owed s + mset sent)
    \<and> info s' = info s \<and> f_address s' = f_address s \<and> w_address s' = w_address s \<and> di_flags s' = di_flags s
    \<and> tot_axw_count s' = tot_axw_count s"
  using assms(1)
proof (induction "(length (t_queue s), round_left (MAX_DRAM c) check (dram_idx s))" arbitrary: s
    rule: wf_induct_rule [OF wf_lex_prod [OF wf_less_than wf_less_than]])
  case (1 s)
  show ?case
  proof (cases "t_queue s")
    case Nil
    then show ?thesis using 1(2) by (subst add_loop.simps) (simp add: IsExistTransaction_def)
  next
    case (Cons t q)
    have ex: "IsExistTransaction s" by (simp add: IsExistTransaction_def Cons)
    let ?m = "dram s ! nat (dram_idx s)"
    have "minv ?m" using 1(2) di_wf_idx [OF 1(2)] by (simp add: di_wf_def)
    then obtain b where b: "CanRequest ops (dram_idx s) s = Inr b"
      using will_accept_total [of ?m "fst t" "snd t"] di_wf_idx [OF 1(2)] Cons
      by (auto simp: CanRequest_def case_prod_beta)
    show ?thesis
    proof (cases b)
      case True
      from send_front_spec [OF 1(2) Cons] b True obtain s1 where s1:
        "send_front ops (MAX_DRAM c) s = Inr s1" "di_wf minv c s1" "t_queue s1 = q"
        "owed_all owed s1 = owed_all owed s + {#t#}" "info s1 = info s" "f_address s1 = f_address s"
        "w_address s1 = w_address s" "di_flags s1 = di_flags s" "tot_axw_count s1 = tot_axw_count s" by auto
      have "((length (t_queue s1), round_left (MAX_DRAM c) check (dram_idx s1)),
             (length (t_queue s), round_left (MAX_DRAM c) check (dram_idx s))) \<in> less_than <*lex*> less_than"
        by (simp add: s1 Cons)
      from 1(1) [OF this s1(2)] obtain s2 sent where s2: "add_loop ops (MAX_DRAM c) check s1 = Some (Inr s2)"
        "di_wf minv c s2" "t_queue s1 = sent @ t_queue s2" "owed_all owed s2 = owed_all owed s1 + mset sent"
        "info s2 = info s1" "f_address s2 = f_address s1" "w_address s2 = w_address s1" "di_flags s2 = di_flags s1"
        "tot_axw_count s2 = tot_axw_count s1" by blast
      have step: "add_loop ops (MAX_DRAM c) check s = Some (Inr s2)"
        by (subst add_loop.simps) (simp add: ex b True s1(1) s2(1))
      have "t_queue s = (t # sent) @ t_queue s2" "owed_all owed s2 = owed_all owed s + mset (t # sent)"
        using s1 s2 Cons by simp_all
      then show ?thesis using step s1 s2 by metis
    next
      case False
      let ?s = "s\<lparr>dram_idx := next_idx (MAX_DRAM c) (dram_idx s)\<rparr>"
      have same: "t_queue ?s = t_queue s" "owed_all owed ?s = owed_all owed s" "info ?s = info s"
        "f_address ?s = f_address s" "w_address ?s = w_address s" "di_flags ?s = di_flags s" "tot_axw_count ?s = tot_axw_count s"
        by (simp_all add: owed_all_def di_flags_def)
      show ?thesis
      proof (cases "next_idx (MAX_DRAM c) (dram_idx s) = check")
        case True
        have "add_loop ops (MAX_DRAM c) check s = Some (Inr ?s)"
          by (subst add_loop.simps) (simp add: ex b False True)
        then show ?thesis using di_wf_next [OF 1(2)] same by force
      next
        case ne: False
        have "round_left (MAX_DRAM c) check (dram_idx ?s) < round_left (MAX_DRAM c) check (dram_idx s)"
          using 1(2) assms(2,3) ne by (simp add: round_left_next di_wf_def)
        then have "((length (t_queue ?s), round_left (MAX_DRAM c) check (dram_idx ?s)),
             (length (t_queue s), round_left (MAX_DRAM c) check (dram_idx s))) \<in> less_than <*lex*> less_than"
          by simp
        from 1(1) [OF this di_wf_next [OF 1(2)]] same
        have "\<exists>s'. add_loop ops (MAX_DRAM c) check ?s = Some (Inr s') \<and> di_wf minv c s'
    \<and> (\<exists>sent. t_queue s = sent @ t_queue s' \<and> owed_all owed s' = owed_all owed s + mset sent)
    \<and> info s' = info s \<and> f_address s' = f_address s \<and> w_address s' = w_address s \<and> di_flags s' = di_flags s
    \<and> tot_axw_count s' = tot_axw_count s"
          by simp
        moreover have "add_loop ops (MAX_DRAM c) check s = add_loop ops (MAX_DRAM c) check ?s"
          by (subst add_loop.simps) (simp add: ex b False ne)
        ultimately show ?thesis by simp
      qed
    qed
  qed
qed

lemma AddTransaction_spec:
  assumes "di_wf minv c s"
  shows "\<exists>s'. AddTransaction ops (MAX_DRAM c) s = Inr s' \<and> di_wf minv c s'
    \<and> (\<exists>sent. t_queue s = sent @ t_queue s' \<and> owed_all owed s' = owed_all owed s + mset sent)
    \<and> info s' = info s \<and> f_address s' = f_address s \<and> w_address s' = w_address s \<and> di_flags s' = di_flags s
    \<and> tot_axw_count s' = tot_axw_count s"
  using add_loop_spec [OF assms, of "dram_idx s"] assms by (auto simp: AddTransaction_def di_wf_def)

lemma tick_channel_spec:
  assumes "di_wf minv c s" and "i < length (dram s)"
  shows "\<exists>s' cs. tick_channel ops c i s = Inr s' \<and> di_wf minv c s' \<and> owed_all owed s = owed_all owed s' + mset cs
    \<and> f_address s' = f_address s @ reads_below c cs \<and> w_address s' = w_address s @ reads_above c cs
    \<and> t_queue s' = t_queue s \<and> info s' = info s
    \<and> tot_axw_count s' = tot_axw_count s - of_nat (writes_axw c cs)"
proof -
  have "minv (dram s ! i)" using assms by (simp add: di_wf_def)
  from tick_returns [OF this] obtain m' cs where m: "clock_tick ops (dram s ! i) = Inr (m', cs)" "minv m'"
    "owed (dram s ! i) = owed m' + mset cs" by blast
  let ?s = "s\<lparr>dram := (dram s)[i := m']\<rparr>"
  have "owed_all owed ?s + owed (dram s ! i) = owed_all owed s + owed m'" by (rule owed_all_update [OF assms(2)])
  then have "owed_all owed s = owed_all owed ?s + mset cs" by (simp add: m(3))
  moreover have "di_wf minv c ?s"
    using assms m(2) set_update_subset_insert [of "dram s" i m'] by (auto simp: di_wf_def)
  ultimately show ?thesis
    using assms(2) m(1)
    by (auto simp: tick_channel_def callbacks_queues callbacks_counters di_wf_def owed_all_def)
qed

lemma tick_channels_spec:
  assumes "di_wf minv c s" and "set is \<subseteq> {0 ..< length (dram s)}"
  shows "\<exists>s' cs. foldE (tick_channel ops c) is s = Inr s' \<and> di_wf minv c s' \<and> owed_all owed s = owed_all owed s' + mset cs
    \<and> f_address s' = f_address s @ reads_below c cs \<and> w_address s' = w_address s @ reads_above c cs
    \<and> t_queue s' = t_queue s \<and> info s' = info s
    \<and> tot_axw_count s' = tot_axw_count s - of_nat (writes_axw c cs)"
  using assms
proof (induction "is" arbitrary: s)
  case Nil
  then show ?case by (simp add: reads_below_def reads_above_def writes_axw_def exI [of _ "[]"])
next
  case (Cons i js)
  then have "i < length (dram s)" by auto
  from tick_channel_spec [OF Cons.prems(1) this] obtain s1 cs1 where 1: "tick_channel ops c i s = Inr s1" "di_wf minv c s1"
    "owed_all owed s = owed_all owed s1 + mset cs1" "f_address s1 = f_address s @ reads_below c cs1"
    "w_address s1 = w_address s @ reads_above c cs1" "t_queue s1 = t_queue s" "info s1 = info s"
    "tot_axw_count s1 = tot_axw_count s - of_nat (writes_axw c cs1)" by blast
  have "length (dram s1) = length (dram s)" using 1(2) Cons.prems(1) by (simp add: di_wf_def)
  then have "set js \<subseteq> {0 ..< length (dram s1)}" using Cons.prems(2) by simp
  from Cons.IH [OF 1(2) this] obtain s2 cs2 where 2: "foldE (tick_channel ops c) js s1 = Inr s2" "di_wf minv c s2"
    "owed_all owed s1 = owed_all owed s2 + mset cs2" "f_address s2 = f_address s1 @ reads_below c cs2"
    "w_address s2 = w_address s1 @ reads_above c cs2" "t_queue s2 = t_queue s1" "info s2 = info s1"
    "tot_axw_count s2 = tot_axw_count s1 - of_nat (writes_axw c cs2)" by blast
  show ?case
    using 1 2 by (intro exI [of _ s2] exI [of _ "cs1 @ cs2"])
      (simp add: reads_below_def reads_above_def writes_axw_def)
qed

lemma UpdateCycle_spec:
  assumes "di_wf minv c s"
  shows "\<exists>s' cs. UpdateCycle ops c s = Inr s' \<and> di_wf minv c s' \<and> owed_all owed s = owed_all owed s' + mset cs
    \<and> f_address s' = f_address s @ reads_below c cs \<and> w_address s' = w_address s @ reads_above c cs
    \<and> t_queue s' = t_queue s \<and> info s' = info s
    \<and> tot_axw_count s' = tot_axw_count s - of_nat (writes_axw c cs)"
proof -
  have "nat (MAX_DRAM c) = length (dram s)" using assms by (auto simp: di_wf_def)
  then show ?thesis unfolding UpdateCycle_def by (intro tick_channels_spec [OF assms]) auto
qed

text \<open>No call of the interface faults from a well-formed state, and every run conserves the
  transactions.\<close>

lemma run_conserves:
  assumes "di_run ops c s0 rs hs s" and "di_wf minv c s0" and "di_flags s0"
  shows "di_wf minv c s \<and> di_flags s \<and> di_conserved owed c s0 rs hs s"
  using assms(1)
proof induction
  case run_start
  have "axw_writes c (mset []) = 0" "reads_of (mset []) = {#}" by (simp_all add: axw_writes_def reads_of_def)
  then show ?case using assms(2,3) by (simp add: di_conserved_def exI [of _ 0])
next
  case (run_request rs hs s a w)
  then show ?case
    by (auto simp: di_flags_def di_wf_def DRAMRequest_def intro!: conserved_request)
next
  case (run_request_id rs hs s a w i)
  then show ?case
    by (auto simp: di_flags_def di_wf_def DRAMRequest_id_def DRAMRequest_def intro!: conserved_request)
next
  case (run_add rs hs s s')
  then have wf: "di_wf minv c s" by simp
  from AddTransaction_spec [OF wf] run_add(2) obtain sent where a: "di_wf minv c s'"
    "t_queue s = sent @ t_queue s'" "owed_all owed s' = owed_all owed s + mset sent" "f_address s' = f_address s"
    "w_address s' = w_address s" "di_flags s' = di_flags s" "tot_axw_count s' = tot_axw_count s" by auto
  then have "mset (t_queue s) + owed_all owed s = mset (t_queue s') + owed_all owed s'" by simp
  then show ?case using run_add.IH a unfolding di_conserved_def by (auto simp: ac_simps)
next
  case (run_tick rs hs s s')
  then have wf: "di_wf minv c s" by simp
  from UpdateCycle_spec [OF wf] run_tick(2) obtain cs where a: "di_wf minv c s'" "t_queue s' = t_queue s"
    "owed_all owed s = owed_all owed s' + mset cs" "f_address s' = f_address s @ reads_below c cs"
    "w_address s' = w_address s @ reads_above c cs"
    "tot_axw_count s' = tot_axw_count s - of_nat (writes_axw c cs)" by auto
  from run_tick.IH obtain n where n: "tot_axw_count s = tot_axw_count s0 - of_nat n"
    "axw_writes c (mset rs) + axw_writes c (mset (t_queue s0) + owed_all owed s0)
            = axw_writes c (mset (t_queue s) + owed_all owed s) + n" by (auto simp: di_conserved_def)
  have "di_flags s'" using di_flags_UpdateCycle run_tick by blast
  moreover have "tot_axw_count s' = tot_axw_count s0 - of_nat (n + writes_axw c cs)"
    by (simp add: a n)
  moreover have "axw_writes c (mset rs) + axw_writes c (mset (t_queue s0) + owed_all owed s0)
            = axw_writes c (mset (t_queue s') + owed_all owed s') + (n + writes_axw c cs)"
    using n(2) a by (simp add: axw_writes_completions)
  ultimately show ?case unfolding di_conserved_def using run_tick.IH [unfolded di_conserved_def] a
     reads_of_completions [of cs c] by (auto simp: ac_simps)
next
  case (run_get rs hs s b a s')
  note g = GetReadData_takes [OF run_get(2)]
  have "di_flags s'" using GetReadData_flags run_get by blast
  then show ?case using run_get.IH g di_wf_frame [OF g(3,4)] owed_all_frame [OF g(3)]
    unfolding di_conserved_def by (auto simp: ac_simps)
next
  case (run_return_id rs hs s a i s')
  note g = ReturnID_frame [OF run_return_id(2)]
  then show ?case using run_return_id.IH di_wf_frame [OF g(4,5)] owed_all_frame [OF g(4)]
    unfolding di_conserved_def by simp
qed

end

end
