(* ===== verification/Global_Buffer.thy ===== *)
theory Global_Buffer
  imports Rrip_Ship Bloom_Filter Dram_Interface
begin

text \<open>
  \<open>GlobalBuffer.cpp\<close>: the set-associative cache of feature lines in front of the DRAM, with
  its miss queue.  The record \<open>gbuf\<close> holds the fields of the class and the two globals of the
  file (\<open>BF_LEN\<close>, \<open>set_util\<close>); \<open>gb_sys\<close> puts it beside the replacement state and the DRAM
  interface it calls.  A cached line is the pair (column, weight block).  The lemmas show that
  a miss is requested once, that a fill puts the line in its set and keeps the policy's view
  equal to the cache, and that the queue flags mean what their names say.
\<close>

section \<open>State\<close>

definition FIFO_ALGO :: u64 where "FIFO_ALGO = 0"
definition LRU_ALGO :: u64 where "LRU_ALGO = 1"
definition RRIP_ALGO :: u64 where "RRIP_ALGO = 2"
definition BF_ALGO :: u64 where "BF_ALGO = 3"
definition SHiP_ALGO :: u64 where "SHiP_ALGO = 4"
definition OPTIMAL_ALGO :: u64 where "OPTIMAL_ALGO = 5"
definition MOVING_MED_ALGO :: u64 where "MOVING_MED_ALGO = 6"
definition LIMIT_WQ_SIZE :: nat where "LIMIT_WQ_SIZE = 32"

lemmas algo_defs = FIFO_ALGO_def LRU_ALGO_def RRIP_ALGO_def BF_ALGO_def SHiP_ALGO_def
  OPTIMAL_ALGO_def MOVING_MED_ALGO_def

record XWFlag =
  w_fill_complete :: bool
  xw_can_transfer :: bool

record AXWFlag =
  axw_can_transfer :: bool
  can_receive :: bool
  cache_full :: bool
  axw_q_empty :: bool

record gbuf =
  w_fold_save :: int
  gb_pre_repeat :: int
  xwflag :: XWFlag
  axwflag :: AXWFlag
  gb_number :: int
  c_space :: int
  gb_size :: u64
  tot_w :: u64
  isA :: bool
  x_data :: XRData
  blockN :: int
  setN :: int
  wayN :: int
  cache :: "int list list"
  weight_blk_idx :: "int list list"
  wq :: "ERData list"
  w_map :: "u64 \<Rightarrow> ERData option"
  w_req_table :: "u64 \<Rightarrow> bool option"
  BF_LEN :: u64
  set_util :: "u64 list"

record 'm gb_sys =
  buf :: gbuf
  repl :: repl_state
  mem :: "'m dram_if"

section \<open>Construction\<close>

text \<open>\<open>BF_LEN = (uint64_t)a_w*BF_RATIO\<close> is a \<open>float\<close> product converted back.\<close>

definition bf_len :: "ini_config \<Rightarrow> dims \<Rightarrow> u64 result" where
  "bf_len c d = u64_of_fl (fl_mul float_p (fl_of_u64 float_p (a_w d)) (BF_RATIO c))"

definition policy_new :: "ini_config \<Rightarrow> dims \<Rightarrow> u64 \<Rightarrow> u64 \<Rightarrow> int \<Rightarrow> int \<Rightarrow> repl_state \<Rightarrow> repl_state result" where
  "policy_new c d mov_med len wN sN r =
     (let algo = CACHE_REPL_ALGO c in
      if algo = FIFO_ALGO then Inr (FIFO_new wN sN r)
      else if algo = LRU_ALGO then Inr (LRU_new wN sN r)
      else if algo = BF_ALGO then BloomFilter_new c d len (LRU_new wN sN r)
      else if algo = RRIP_ALGO then Inr (RRIP_new wN sN r)
      else if algo = SHiP_ALGO then Inr (SHiP_new wN sN r)
      else if algo = MOVING_MED_ALGO then MovingMedian_new mov_med d (LRU_new wN sN r)
      else Inr r)"

text \<open>\<open>x0\<close> is the indeterminate initial value of \<open>x_data\<close>; \<open>su\<close> and \<open>r\<close> are the global vectors
  the constructor appends to.\<close>

definition GlobalBuffer_new ::
  "ini_config \<Rightarrow> dims \<Rightarrow> u64 \<Rightarrow> XRData \<Rightarrow> int \<Rightarrow> u64 \<Rightarrow> u64 \<Rightarrow> u64 list \<Rightarrow> repl_state \<Rightarrow> (gbuf \<times> repl_state) result" where
  "GlobalBuffer_new c d mov_med x0 i sz totw su r =
     bindE (bf_len c d) (\<lambda>len.
     bindE (checkE (CACHE_LINE_BYTE c \<noteq> 0) UB_Division) (\<lambda>_.
     bindE (checkE (CACHE_WAY_N c \<noteq> 0) UB_Division) (\<lambda>_.
     let bN = int_of_u64 (sz div CACHE_LINE_BYTE c);
         sN = int_of_u64 (u64_of_int bN div CACHE_WAY_N c);
         wN = int_of_u64 (CACHE_WAY_N c);
         row = replicate (unat (CACHE_WAY_N c)) (-1) in
     bindE (policy_new c d mov_med len wN sN r) (\<lambda>r'.
     Inr (\<lparr>w_fold_save = 0, gb_pre_repeat = 0,
           xwflag = \<lparr>w_fill_complete = False, xw_can_transfer = False\<rparr>,
           axwflag = \<lparr>axw_can_transfer = False, can_receive = True, cache_full = False, axw_q_empty = True\<rparr>,
           gb_number = i, c_space = 0, gb_size = sz, tot_w = totw, isA = False, x_data = x0,
           blockN = bN, setN = sN, wayN = wN,
           cache = replicate (nat sN) row, weight_blk_idx = replicate (nat sN) row,
           wq = [], w_map = (\<lambda>_. None), w_req_table = (\<lambda>_. None),
           BF_LEN = len, set_util = su @ replicate (nat sN) 0\<rparr>, r')))))"

section \<open>Filling the weights\<close>

text \<open>One cycle of the request loop and of the waiting loop of \<open>FillWeight\<close>.\<close>

definition fill_cycle :: "'m mem_ops \<Rightarrow> ini_config \<Rightarrow> 'm dram_if \<Rightarrow> 'm dram_if result" where
  "fill_cycle ops c s = bindE (AddTransaction ops (MAX_DRAM c) s) (UpdateCycle ops c)"

fun fill_requests :: "'m mem_ops \<Rightarrow> ini_config \<Rightarrow> nat \<Rightarrow> u64 \<Rightarrow> u64 \<Rightarrow> 'm dram_if \<Rightarrow> ('m dram_if \<times> u64) result" where
  "fill_requests ops c 0 address cycle s = Inr (s, cycle)"
| "fill_requests ops c (Suc n) address cycle s =
     bindE (fill_cycle ops c (DRAMRequest address READ s)) (\<lambda>s'.
     fill_requests ops c n (address + CACHE_LINE_BYTE c) (cycle + 1) s')"

partial_function (option) fill_wait ::
  "'m mem_ops \<Rightarrow> ini_config \<Rightarrow> u64 \<Rightarrow> 'm dram_if \<Rightarrow> ('m dram_if \<times> u64) result option" where
  "fill_wait ops c cycle s =
     (if tot_req s \<noteq> 0 then
        (case fill_cycle ops c s of
           Inl e \<Rightarrow> Some (Inl e)
         | Inr s' \<Rightarrow> fill_wait ops c (cycle + 1) s')
      else Some (Inr (s, cycle)))"

definition drain_one :: "nat \<Rightarrow> 'm dram_if \<Rightarrow> 'm dram_if result" where
  "drain_one i s = (if WReadComplete s then bindE (GetReadData True s) (\<lambda>(a, s'). Inr s') else Inr s)"

definition FillWeight :: "'m mem_ops \<Rightarrow> ini_config \<Rightarrow> u64 \<Rightarrow> 'm gb_sys \<Rightarrow> ('m gb_sys \<times> u64) result" where
  "FillWeight ops c cycle g =
     bindE (ceil_div_int float_p (tot_w (buf g)) (CACHE_LINE_COUNT c)) (\<lambda>n.
     bindE (fill_requests ops c (nat n) (WEIGHT_START c) cycle ((mem g)\<lparr>tot_req := n\<rparr>)) (\<lambda>(s1, cycle1).
     bindE (case fill_wait ops c cycle1 s1 of None \<Rightarrow> Inl Diverges | Some r \<Rightarrow> r) (\<lambda>(s2, cycle2).
     bindE (foldE drain_one [0 ..< nat (MAX_DRAM c)] s2) (\<lambda>s3.
     Inr (g\<lparr>buf := (buf g)\<lparr>xwflag := (xwflag (buf g))\<lparr>w_fill_complete := True\<rparr>\<rparr>, mem := s3\<rparr>, cycle2)))))"

section \<open>Receiving an X element\<close>

definition GB_ReceiveX :: "XRData \<Rightarrow> gbuf \<Rightarrow> gbuf" where
  "GB_ReceiveX data g =
     (let g1 = (if w_fill_complete (xwflag g)
                then g\<lparr>xwflag := (xwflag g)\<lparr>xw_can_transfer := True\<rparr>\<rparr> else g)
      in g1\<lparr>x_data := data\<rparr>)"

section \<open>Receiving an edge\<close>

text \<open>The loops over the ways of a set: the first way whose column satisfies \<open>p\<close> and whose
  weight block satisfies \<open>q\<close>.\<close>

fun scan_ways :: "(int \<Rightarrow> bool) \<Rightarrow> (int \<Rightarrow> bool) \<Rightarrow> int list \<Rightarrow> int list \<Rightarrow> nat \<Rightarrow> nat \<Rightarrow> nat option result" where
  "scan_ways p q row wrow 0 i = Inr None"
| "scan_ways p q row wrow (Suc n) i =
     bindE (vec_get row i) (\<lambda>x.
       if p x then
         bindE (vec_get wrow i) (\<lambda>b. if q b then Inr (Some i) else scan_ways p q row wrow n (Suc i))
       else scan_ways p q row wrow n (Suc i))"

definition gb_setIdx :: "gbuf \<Rightarrow> u64 \<Rightarrow> u64 result" where
  "gb_setIdx g dst = (if u64_of_int (setN g) = 0 then Inl UB_Division else Inr (dst mod u64_of_int (setN g)))"

text \<open>\<open>cache[setIdx][i] == to\<close> compares an \<open>int\<close> with a \<open>uint64_t\<close>.\<close>

definition find_line :: "gbuf \<Rightarrow> nat \<Rightarrow> u64 \<Rightarrow> int \<Rightarrow> nat option result" where
  "find_line g si dst blk =
     bindE (vec_get (cache g) si) (\<lambda>row.
     bindE (vec_get (weight_blk_idx g) si) (\<lambda>wrow.
     scan_ways (\<lambda>x. u64_of_int x = dst) (\<lambda>b. b = blk) row wrow (nat (wayN g)) 0))"

definition gb_Request :: "ERData \<Rightarrow> 'm gb_sys \<Rightarrow> 'm gb_sys" where
  "gb_Request data g =
     g\<lparr>buf := (buf g)\<lparr>w_map := (w_map (buf g))(er_address data \<mapsto> data),
                      w_req_table := (w_req_table (buf g))(er_address data \<mapsto> True)\<rparr>,
       mem := DRAMRequest_id (er_address data) READ (gb_number (buf g)) (mem g)\<rparr>"

definition first_cycle :: "ini_config \<Rightarrow> u64 \<Rightarrow> ERData \<Rightarrow> gbuf \<Rightarrow> repl_state \<Rightarrow> repl_state result" where
  "first_cycle c mov_med data g r =
     bindE (if CACHE_REPL_ALGO c = BF_ALGO \<and> er_pre_w_fold data = 0
            then BloomFilter_firstCycleAccess (BF_LEN g) (rowindex data) (colindex data) r else Inr r) (\<lambda>r1.
     if CACHE_REPL_ALGO c = MOVING_MED_ALGO \<and> er_pre_w_fold data = 0
     then MovingMedian_firstCycleAccess mov_med (rowindex data) (colindex data) r1 else Inr r1)"

definition hit_update :: "ini_config \<Rightarrow> u64 \<Rightarrow> nat \<Rightarrow> ERData \<Rightarrow> repl_state \<Rightarrow> repl_state result" where
  "hit_update c setIdx i data r =
     (let algo = CACHE_REPL_ALGO c; si = int_of_u64 setIdx; blk = er_pre_w_fold data in
      if algo = LRU_ALGO then LRU_access si (int_of_u64 (colindex data)) blk r
      else if (algo = BF_ALGO \<or> algo = MOVING_MED_ALGO) \<and> blk = 0
        then LRU_access si (int_of_u64 (colindex data)) blk r
      else if algo = RRIP_ALGO then RRIP_access si (int i) r
      else if algo = SHiP_ALGO then SHiP_access si (int i) (er_address data) r
      else Inr r)"

definition push_edge :: "ERData \<Rightarrow> gbuf \<Rightarrow> gbuf" where
  "push_edge data b =
     (let q = wq b @ [data] in
      b\<lparr>wq := q, axwflag := (axwflag b)\<lparr>axw_q_empty := False,
          can_receive := (if length q = LIMIT_WQ_SIZE then False else can_receive (axwflag b))\<rparr>\<rparr>)"

text \<open>A miss is requested unless \<open>w_req_table\<close> says that the request is already under way.\<close>

definition request_if_new :: "ERData \<Rightarrow> 'm gb_sys \<Rightarrow> 'm gb_sys" where
  "request_if_new data g =
     (case w_req_table (buf g) (er_address data) of
        None \<Rightarrow> gb_Request data g
      | Some pending \<Rightarrow> if pending then g else gb_Request data g)"

definition GB_ReceiveEdge :: "ini_config \<Rightarrow> u64 \<Rightarrow> ERData \<Rightarrow> 'm gb_sys \<Rightarrow> 'm gb_sys result" where
  "GB_ReceiveEdge c mov_med data g =
     (let b1 = push_edge data (buf g) in
      bindE (first_cycle c mov_med data b1 (repl g)) (\<lambda>r1.
      bindE (gb_setIdx b1 (colindex data)) (\<lambda>setIdx.
      let si = unat setIdx in
      bindE (vec_get (set_util b1) si) (\<lambda>u.
      let b2 = b1\<lparr>set_util := (set_util b1)[si := u + 1]\<rparr> in
      bindE (find_line b2 si (colindex data) (er_pre_w_fold data)) (\<lambda>hit.
      case hit of
        Some i \<Rightarrow>
          bindE (hit_update c setIdx i data r1) (\<lambda>r2.
          Inr (g\<lparr>buf := b2\<lparr>axwflag := (axwflag b2)\<lparr>axw_can_transfer := True\<rparr>\<rparr>, repl := r2\<rparr>))
      | None \<Rightarrow> Inr (request_if_new data (g\<lparr>buf := b2, repl := r1\<rparr>)))))))"

section \<open>Receiving a line from DRAM\<close>

definition fill_way :: "nat \<Rightarrow> nat \<Rightarrow> int \<Rightarrow> int \<Rightarrow> gbuf \<Rightarrow> gbuf result" where
  "fill_way si i line blk g =
     bindE (vec_get (cache g) si) (\<lambda>row.
     bindE (vec_set row i line) (\<lambda>row'.
     bindE (vec_get (weight_blk_idx g) si) (\<lambda>wrow.
     bindE (vec_set wrow i blk) (\<lambda>wrow'.
     Inr (g\<lparr>cache := (cache g)[si := row'], weight_blk_idx := (weight_blk_idx g)[si := wrow']\<rparr>)))))"

text \<open>\<open>access\<close> of the policy that tracks the line when it enters the cache.\<close>

definition track :: "ini_config \<Rightarrow> int \<Rightarrow> int \<Rightarrow> int \<Rightarrow> repl_state \<Rightarrow> repl_state result" where
  "track c si line blk r =
     (let algo = CACHE_REPL_ALGO c in
      if algo = FIFO_ALGO then FIFO_access si line blk r
      else if algo = LRU_ALGO then LRU_access si line blk r
      else if (algo = BF_ALGO \<or> algo = MOVING_MED_ALGO) \<and> blk = 0 then LRU_access si line blk r
      else Inr r)"

text \<open>\<open>replace\<close> of the policy that is in charge; \<open>None\<close> is the warning branch.\<close>

definition pick_bf :: "ini_config \<Rightarrow> ERData \<Rightarrow> nat \<Rightarrow> gbuf \<Rightarrow> repl_state \<Rightarrow> (int \<times> int) result" where
  "pick_bf c data si g r =
     bindE (vec_get (useOvlBF r) (unat (rowindex data))) (\<lambda>useOvl.
     bindE (vec_get (bfIdx r) (idx_of_int (int_of_u64 (rowindex data)))) (\<lambda>whichBF.
     bindE (vec_get (ovlBFIdx r) (idx_of_int (int_of_u64 (rowindex data)))) (\<lambda>whichOlBF.
     bindE (vec_get (cache g) si) (\<lambda>row.
     bindE (vec_get (weight_blk_idx g) si) (\<lambda>wrow.
     if BF_OVERLAP c = 0 then BloomFilter_replace (BF_LEN g) whichBF False row wrow r
     else if \<not> useOvl then BloomFilter_replace (BF_LEN g) whichBF useOvl row wrow r
     else BloomFilter_replace (BF_LEN g) whichOlBF useOvl row wrow r)))))"

definition pick_mvm :: "ERData \<Rightarrow> nat \<Rightarrow> gbuf \<Rightarrow> repl_state \<Rightarrow> (int \<times> int) result" where
  "pick_mvm data si g r =
     bindE (vec_get (cache g) si) (\<lambda>row.
     bindE (vec_get (weight_blk_idx g) si) (\<lambda>wrow.
     MovingMedian_replace (int_of_u64 (rowindex data)) row wrow r))"

definition pick_victim ::
  "ini_config \<Rightarrow> ERData \<Rightarrow> u64 \<Rightarrow> gbuf \<Rightarrow> repl_state \<Rightarrow> ((int \<times> int) option \<times> repl_state) result" where
  "pick_victim c data setIdx g r =
     (let algo = CACHE_REPL_ALGO c; si = int_of_u64 setIdx; blk = er_pre_w_fold data;
          lru_pick = bindE (LRU_replace si r) (\<lambda>(v, r'). Inr (Some v, r')) in
      if algo = FIFO_ALGO then bindE (FIFO_replace si r) (\<lambda>(v, r'). Inr (Some v, r'))
      else if algo = LRU_ALGO then lru_pick
      else if algo = BF_ALGO \<and> blk = 0 then lru_pick
      else if algo = BF_ALGO then bindE (pick_bf c data (unat setIdx) g r) (\<lambda>v. Inr (Some v, r))
      else if algo = MOVING_MED_ALGO \<and> blk = 0 then lru_pick
      else if algo = MOVING_MED_ALGO then bindE (pick_mvm data (unat setIdx) g r) (\<lambda>v. Inr (Some v, r))
      else Inr (None, r))"

text \<open>Scan for a free way, otherwise evict.\<close>

definition scan_and_fill ::
  "ini_config \<Rightarrow> ERData \<Rightarrow> u64 \<Rightarrow> gbuf \<Rightarrow> repl_state \<Rightarrow> (gbuf \<times> repl_state) result" where
  "scan_and_fill c data setIdx g r =
     (let si = unat setIdx; line = int_of_u64 (colindex data); blk = er_pre_w_fold data in
      bindE (vec_get (cache g) si) (\<lambda>row.
      bindE (vec_get (weight_blk_idx g) si) (\<lambda>wrow.
      bindE (scan_ways (\<lambda>x. x = -1) (\<lambda>_. True) row wrow (nat (wayN g)) 0) (\<lambda>free.
      case free of
        Some i \<Rightarrow>
          bindE (fill_way si i line blk g) (\<lambda>g'.
          bindE (track c (int_of_u64 setIdx) line blk r) (\<lambda>r'. Inr (g', r')))
      | None \<Rightarrow>
          bindE (pick_victim c data setIdx g r) (\<lambda>(v, r1).
          case v of
            None \<Rightarrow> Inr (g, r1)
          | Some (val, vblk) \<Rightarrow>
              bindE (scan_ways (\<lambda>x. x = val) (\<lambda>b. b = vblk) row wrow (nat (wayN g)) 0) (\<lambda>pos.
              case pos of
                None \<Rightarrow> Inr (g, r1)
              | Some i \<Rightarrow>
                  bindE (fill_way si i line blk g) (\<lambda>g'.
                  bindE (track c (int_of_u64 setIdx) line blk r1) (\<lambda>r'. Inr (g', r')))))))))"

definition fill_line ::
  "ini_config \<Rightarrow> u64 \<Rightarrow> ERData \<Rightarrow> u64 \<Rightarrow> gbuf \<Rightarrow> repl_state \<Rightarrow> (gbuf \<times> repl_state) result" where
  "fill_line c address data setIdx g r =
     (let si = unat setIdx; line = int_of_u64 (colindex data); blk = er_pre_w_fold data in
      if CACHE_REPL_ALGO c = RRIP_ALGO then
        bindE (RRIP_replace (int_of_u64 setIdx) r) (\<lambda>((s0, w), r').
        bindE (fill_way si (idx_of_int w) line blk g) (\<lambda>g'. Inr (g', r')))
      else if CACHE_REPL_ALGO c = SHiP_ALGO then
        bindE (SHiP_replace (int_of_u64 setIdx) address r) (\<lambda>((s0, w), r').
        bindE (fill_way si (idx_of_int w) line blk g) (\<lambda>g'. Inr (g', r')))
      else scan_and_fill c data setIdx g r)"

definition GB_ReceiveLine :: "ini_config \<Rightarrow> u64 \<Rightarrow> 'm gb_sys \<Rightarrow> 'm gb_sys result" where
  "GB_ReceiveLine c address g =
     (let (data, wm) = map_index zero_ERData (w_map (buf g)) address;
          b0 = (buf g)\<lparr>w_map := wm\<rparr> in
      bindE (gb_setIdx b0 (colindex data)) (\<lambda>setIdx.
      bindE (fill_line c address data setIdx b0 (repl g)) (\<lambda>(b1, r1).
      let b2 = b1\<lparr>w_req_table := (w_req_table b1)(address \<mapsto> False)\<rparr> in
      bindE (q_front (wq b2)) (\<lambda>front.
      Inr (g\<lparr>buf := (if address = er_address front
                     then b2\<lparr>axwflag := (axwflag b2)\<lparr>axw_can_transfer := True\<rparr>\<rparr> else b2),
             repl := r1\<rparr>)))))"

section \<open>Transfer\<close>

text \<open>The end of \<open>CanTransfer\<close>, once the front of the queue has been looked up.\<close>

definition settle_front :: "ERData \<Rightarrow> nat option \<Rightarrow> 'm gb_sys \<Rightarrow> 'm gb_sys" where
  "settle_front data hit g =
     (let g1 = (if hit = None then
                  (let (pending, rt) = map_index False (w_req_table (buf g)) (er_address data);
                       g0 = g\<lparr>buf := (buf g)\<lparr>w_req_table := rt\<rparr>\<rparr> in
                   if pending then g0 else gb_Request data g0)
                else g) in
      g1\<lparr>buf := (buf g1)\<lparr>axwflag := (axwflag (buf g1))\<lparr>axw_can_transfer := hit \<noteq> None\<rparr>\<rparr>\<rparr>)"

definition GB_CanTransfer :: "'m gb_sys \<Rightarrow> 'm gb_sys result" where
  "GB_CanTransfer g =
     (if axw_q_empty (axwflag (buf g))
      then Inr (g\<lparr>buf := (buf g)\<lparr>axwflag := (axwflag (buf g))\<lparr>axw_can_transfer := False\<rparr>\<rparr>\<rparr>)
      else
        bindE (q_front (wq (buf g))) (\<lambda>data.
        bindE (gb_setIdx (buf g) (colindex data)) (\<lambda>setIdx.
        bindE (find_line (buf g) (unat setIdx) (colindex data) (er_pre_w_fold data)) (\<lambda>hit.
        Inr (settle_front data hit g)))))"

definition GB_TransferXData :: "gbuf \<Rightarrow> XRData \<times> gbuf" where
  "GB_TransferXData g = (x_data g, g\<lparr>xwflag := (xwflag g)\<lparr>xw_can_transfer := False\<rparr>\<rparr>)"

definition GB_TransferAData :: "gbuf \<Rightarrow> (ERData \<times> gbuf) result" where
  "GB_TransferAData g =
     (let g1 = g\<lparr>axwflag := (axwflag g)\<lparr>can_receive := True\<rparr>\<rparr> in
      bindE (q_front (wq g1)) (\<lambda>ret.
      bindE (q_pop (wq g1)) (\<lambda>q.
      Inr (ret, g1\<lparr>wq := q, axwflag := (axwflag g1)\<lparr>axw_q_empty := (if q = [] then True else axw_q_empty (axwflag g1))\<rparr>\<rparr>))))"

section \<open>Scans and shapes\<close>

lemma scan_ways_from:
  assumes "length row = length wrow" and "i + n = length row"
  shows "scan_ways p q row wrow n i =
    Inr (map_option ((+) i) (first_idx (\<lambda>(x, b). p x \<and> q b) (zip (drop i row) (drop i wrow))))"
  using assms(2)
proof (induction n arbitrary: i)
  case 0
  then show ?case by simp
next
  case (Suc n)
  then have i: "i < length row" "i < length wrow" using assms(1) by simp_all
  have "drop i row = row ! i # drop (Suc i) row" "drop i wrow = wrow ! i # drop (Suc i) wrow"
    using i by (simp_all add: Cons_nth_drop_Suc)
  then show ?case
    using i Suc.IH [of "Suc i"] Suc.prems
    by (auto simp: option.map_comp comp_def intro!: option.map_cong0)
qed

lemma scan_ways_first:
  assumes "length row = length wrow" and "n = length row"
  shows "scan_ways p q row wrow n 0 = Inr (first_idx (\<lambda>(x, b). p x \<and> q b) (zip row wrow))"
  using scan_ways_from [OF assms(1), of 0 n p q] assms(2)
  by (cases "first_idx (\<lambda>(x, b). p x \<and> q b) (zip row wrow)") simp_all

definition gb_shape :: "gbuf \<Rightarrow> bool" where
  "gb_shape g \<longleftrightarrow> 0 < setN g \<and> setN g < 2 ^ 31 \<and> 0 < wayN g \<and> wayN g < 2 ^ 31
     \<and> length (cache g) = nat (setN g) \<and> length (weight_blk_idx g) = nat (setN g)
     \<and> nat (setN g) \<le> length (set_util g)
     \<and> (\<forall>row \<in> set (cache g). length row = nat (wayN g))
     \<and> (\<forall>row \<in> set (weight_blk_idx g). length row = nat (wayN g))"

text \<open>The lines a set holds.\<close>

definition gb_lines :: "gbuf \<Rightarrow> nat \<Rightarrow> (int \<times> int) list" where
  "gb_lines g si = filter (\<lambda>p. fst p \<noteq> -1) (zip (cache g ! si) (weight_blk_idx g ! si))"

lemma gb_shape_row:
  assumes "gb_shape g" and "si < nat (setN g)"
  shows "length (cache g ! si) = nat (wayN g)" and "length (weight_blk_idx g ! si) = nat (wayN g)"
    and "si < length (cache g)" and "si < length (weight_blk_idx g)"
  using assms by (auto simp: gb_shape_def)

lemma gb_setIdx_ok:
  assumes "gb_shape g"
  shows "\<exists>w. gb_setIdx g dst = Inr w \<and> unat w < nat (setN g) \<and> int_of_u64 w = int (unat w)
    \<and> unat w = unat dst mod nat (setN g)"
proof -
  have s: "0 < setN g" "setN g < 2 ^ 31" using assms by (auto simp: gb_shape_def)
  have u: "unat (u64_of_int (setN g)) = nat (setN g)"
    using s unat_u64_of_int [of "nat (setN g)"] by simp
  then have nz: "u64_of_int (setN g) \<noteq> 0" using s by (metis unat_0 nat_0_iff not_le)
  have e: "unat (dst mod u64_of_int (setN g)) = unat dst mod nat (setN g)" by (simp add: unat_mod u)
  have lt: "unat dst mod nat (setN g) < nat (setN g)" using s by simp
  then have "unat dst mod nat (setN g) < 2 ^ 31"
    using s nat_less_iff [of "setN g" "2 ^ 31"] by (intro less_trans [OF lt]) simp
  then have "int_of_u64 (dst mod u64_of_int (setN g)) = int (unat (dst mod u64_of_int (setN g)))"
    using e by (intro int_of_u64_nat) simp
  then show ?thesis using nz lt by (simp add: gb_setIdx_def e del: of_nat_unat)
qed

lemma fill_way_eq:
  assumes "gb_shape g" and "si < nat (setN g)" and "i < nat (wayN g)"
  shows "fill_way si i x b g = Inr (g\<lparr>cache := (cache g)[si := (cache g ! si)[i := x]],
    weight_blk_idx := (weight_blk_idx g)[si := (weight_blk_idx g ! si)[i := b]]\<rparr>)"
  using gb_shape_row [OF assms(1,2)] assms(3) by (simp add: fill_way_def)

lemma fill_way_shape:
  assumes "gb_shape g" and "si < nat (setN g)" and "fill_way si i x b g = Inr g'"
  shows "gb_shape g'"
proof -
  have "\<forall>row \<in> set ((cache g)[si := (cache g ! si)[i := x]]). length row = nat (wayN g)"
    "\<forall>row \<in> set ((weight_blk_idx g)[si := (weight_blk_idx g ! si)[i := b]]). length row = nat (wayN g)"
    using assms(1) gb_shape_row [OF assms(1,2)]
    by (auto dest!: set_update_subset_insert [THEN subsetD] simp: gb_shape_def)
  then show ?thesis using assms(1,3) by (auto simp: fill_way_def monad_simps gb_shape_def)
qed

text \<open>Filling a way of a set whose non-free lines are distinct replaces the line that was there.\<close>

lemma filter_update_zip:
  assumes "i < length xs" and "length ys = length xs" and "fst new \<noteq> (-1 :: int)"
    and "distinct (filter (\<lambda>p. fst p \<noteq> -1) (zip xs ys))"
    and "new \<notin> set (filter (\<lambda>p. fst p \<noteq> -1) (zip xs ys))"
  shows "set (filter (\<lambda>p. fst p \<noteq> -1) (zip (xs[i := fst new]) (ys[i := snd new])))
      = insert new (set (filter (\<lambda>p. fst p \<noteq> -1) (zip xs ys)) - {(xs ! i, ys ! i)})"
    and "distinct (filter (\<lambda>p. fst p \<noteq> -1) (zip (xs[i := fst new]) (ys[i := snd new])))"
proof -
  let ?f = "filter (\<lambda>p. fst p \<noteq> (-1 :: int))"
  let ?A = "take i (zip xs ys)" and ?B = "drop (Suc i) (zip xs ys)"
  have old: "zip xs ys = ?A @ (xs ! i, ys ! i) # ?B"
    using assms(1,2) id_take_nth_drop [of i "zip xs ys"] by simp
  have new: "zip (xs[i := fst new]) (ys[i := snd new]) = ?A @ new # ?B"
    using assms(1,2) upd_conv_take_nth_drop [of i "zip xs ys" new] update_zip [of xs ys i new] by simp
  have fo: "?f (zip xs ys) = ?f ?A @ ?f [(xs ! i, ys ! i)] @ ?f ?B" by (subst old) simp
  have d: "distinct (?f ?A @ ?f [(xs ! i, ys ! i)] @ ?f ?B)" using assms(4) unfolding fo .
  have n: "new \<notin> set (?f ?A @ ?f [(xs ! i, ys ! i)] @ ?f ?B)" using assms(5) unfolding fo .
  have fn: "?f (zip (xs[i := fst new]) (ys[i := snd new])) = ?f ?A @ new # ?f ?B"
    unfolding new using assms(3) by simp
  show "set (?f (zip (xs[i := fst new]) (ys[i := snd new])))
      = insert new (set (?f (zip xs ys)) - {(xs ! i, ys ! i)})"
    unfolding fo fn using d n by (cases "xs ! i = -1") auto
  show "distinct (?f (zip (xs[i := fst new]) (ys[i := snd new])))"
    unfolding fn using d n by (cases "xs ! i = -1") auto
qed

lemma fill_way_lines:
  assumes "gb_shape g" and "si < nat (setN g)" and "i < nat (wayN g)" and "line \<noteq> -1"
    and "distinct (gb_lines g si)" and "(line, blk) \<notin> set (gb_lines g si)"
    and "fill_way si i line blk g = Inr g'"
  shows "set (gb_lines g' si) = insert (line, blk) (set (gb_lines g si) - {(cache g ! si ! i, weight_blk_idx g ! si ! i)})"
    and "distinct (gb_lines g' si)" and "\<And>sj. sj \<noteq> si \<Longrightarrow> gb_lines g' sj = gb_lines g sj"
proof -
  note r = gb_shape_row [OF assms(1,2)]
  have g': "g' = g\<lparr>cache := (cache g)[si := (cache g ! si)[i := line]],
    weight_blk_idx := (weight_blk_idx g)[si := (weight_blk_idx g ! si)[i := blk]]\<rparr>"
    using fill_way_eq [OF assms(1-3), of line blk] assms(7) by simp
  note f = filter_update_zip [of i "cache g ! si" "weight_blk_idx g ! si" "(line, blk)"]
  show "set (gb_lines g' si) = insert (line, blk) (set (gb_lines g si) - {(cache g ! si ! i, weight_blk_idx g ! si ! i)})"
    "distinct (gb_lines g' si)"
    using f assms(3-6) r by (auto simp: gb_lines_def g')
  show "\<And>sj. sj \<noteq> si \<Longrightarrow> gb_lines g' sj = gb_lines g sj" by (simp add: gb_lines_def g')
qed

section \<open>A fill puts the line in its set\<close>

text \<open>The contract between the buffer and a policy that names victims: the buffer tracks lines
  with the policy's \<open>access\<close> and evicts what its \<open>replace\<close> names.\<close>

locale cache_policy = victim_policy access replace tracked wf_pol
  for access :: "int \<Rightarrow> int \<Rightarrow> int \<Rightarrow> repl_state \<Rightarrow> repl_state result"
    and replace :: "int \<Rightarrow> repl_state \<Rightarrow> ((int \<times> int) \<times> repl_state) result"
    and tracked :: "repl_state \<Rightarrow> nat \<Rightarrow> (int \<times> int) list"
    and wf_pol :: "nat \<Rightarrow> repl_state \<Rightarrow> bool" +
  fixes c :: ini_config
  assumes scans: "CACHE_REPL_ALGO c \<noteq> RRIP_ALGO" "CACHE_REPL_ALGO c \<noteq> SHiP_ALGO"
    and track_eq: "track c si line blk r = access si line blk r"
    and pick_eq: "pick_victim c data setIdx g r = bindE (replace (int_of_u64 setIdx) r) (\<lambda>(v, r'). Inr (Some v, r'))"

definition policy_agrees :: "(repl_state \<Rightarrow> nat \<Rightarrow> (int \<times> int) list) \<Rightarrow> gbuf \<Rightarrow> repl_state \<Rightarrow> bool" where
  "policy_agrees tracked g r \<longleftrightarrow>
     (\<forall>si < nat (setN g). set (tracked r si) = set (gb_lines g si) \<and> distinct (gb_lines g si))"

text \<open>What a fill leaves behind: the new line is in its set, at most one other line is gone,
  and the other sets are untouched.\<close>

definition filled :: "nat \<Rightarrow> int \<times> int \<Rightarrow> gbuf \<Rightarrow> gbuf \<Rightarrow> bool" where
  "filled si new g g' \<longleftrightarrow>
     (\<exists>v. set (gb_lines g' si) = insert new (set (gb_lines g si) - {v}))
     \<and> (\<forall>sj. sj \<noteq> si \<longrightarrow> gb_lines g' sj = gb_lines g sj)"

lemma valid_set_nat: "k < nat n \<Longrightarrow> n < 2 ^ 31 \<Longrightarrow> valid_set (nat n) (int k)"
  by (simp add: valid_set_def)

lemma first_idx_zip:
  assumes "first_idx P (zip xs ys) = Some i" and "length xs = length ys"
  shows "i < length xs" and "P (xs ! i, ys ! i)"
  using assms by (auto simp: first_idx_Some)

lemma fill_way_frame:
  assumes "fill_way si i x b g = Inr g'"
  shows "setN g' = setN g" "wayN g' = wayN g" "wq g' = wq g" "w_map g' = w_map g"
    "w_req_table g' = w_req_table g" "axwflag g' = axwflag g" "BF_LEN g' = BF_LEN g" "gb_number g' = gb_number g"
  using assms by (auto simp: fill_way_def monad_simps)

context cache_policy
begin

lemma place_line:
  assumes sh: "gb_shape g" and ag: "policy_agrees tracked g r" and wf: "wf_pol (nat (setN g)) r1"
    and si: "si < nat (setN g)" and u: "int_of_u64 w = int si" and i: "i < nat (wayN g)"
    and l: "line \<noteq> -1" and new: "(line, blk) \<notin> set (gb_lines g si)"
    and t1: "set (tracked r1 si) = set (gb_lines g si) - {(cache g ! si ! i, weight_blk_idx g ! si ! i)}"
    and t2: "\<And>sj. sj \<noteq> si \<Longrightarrow> tracked r1 sj = tracked r sj"
  shows "\<exists>g' r'. bindE (fill_way si i line blk g) (\<lambda>g'. bindE (track c (int_of_u64 w) line blk r1) (\<lambda>r'. Inr (g', r')))
      = Inr (g', r') \<and> gb_shape g' \<and> wf_pol (nat (setN g)) r' \<and> policy_agrees tracked g' r'
    \<and> filled si (line, blk) g g' \<and> setN g' = setN g \<and> wayN g' = wayN g \<and> wq g' = wq g
    \<and> w_map g' = w_map g \<and> w_req_table g' = w_req_table g \<and> axwflag g' = axwflag g"
proof -
  obtain g' where g': "fill_way si i line blk g = Inr g'" using fill_way_eq [OF sh si i] by blast
  have dl: "distinct (gb_lines g si)" using ag si by (simp add: policy_agrees_def)
  note L = fill_way_lines [OF sh si i l dl new g'] and F = fill_way_frame [OF g']
  have "setN g < 2 ^ 31" using sh by (simp add: gb_shape_def)
  then have vs: "valid_set (nat (setN g)) (int si)" by (rule valid_set_nat [OF si])
  have "(line, blk) \<notin> set (tracked r1 (nat (int si)))" using new t1 by simp
  from access_new [OF wf vs this] obtain r' where r': "access (int si) line blk r1 = Inr r'"
    "wf_pol (nat (setN g)) r'" "set (tracked r' si) = insert (line, blk) (set (tracked r1 si))"
    "\<forall>j. j \<noteq> si \<longrightarrow> tracked r' j = tracked r1 j" by auto
  have "set (tracked r' sj) = set (gb_lines g' sj) \<and> distinct (gb_lines g' sj)" if "sj < nat (setN g)" for sj
    using ag that t1 t2 [of sj] r' L(1,2) L(3) [of sj] by (cases "sj = si") (auto simp: policy_agrees_def)
  then have "policy_agrees tracked g' r'" using F by (simp add: policy_agrees_def)
  then show ?thesis
    using g' r' u track_eq L F fill_way_shape [OF sh si g'] by (auto simp: filled_def)
qed

lemma fill_line_spec:
  assumes sh: "gb_shape g" and ag: "policy_agrees tracked g r" and wf: "wf_pol (nat (setN g)) r"
    and si: "unat w < nat (setN g)" and u: "int_of_u64 w = int (unat w)"
    and l: "int_of_u64 (colindex data) \<noteq> -1"
    and new: "(int_of_u64 (colindex data), er_pre_w_fold data) \<notin> set (gb_lines g (unat w))"
  shows "\<exists>g' r'. fill_line c address data w g r = Inr (g', r') \<and> gb_shape g' \<and> wf_pol (nat (setN g)) r'
    \<and> policy_agrees tracked g' r'
    \<and> filled (unat w) (int_of_u64 (colindex data), er_pre_w_fold data) g g'
    \<and> setN g' = setN g \<and> wayN g' = wayN g \<and> wq g' = wq g
    \<and> w_map g' = w_map g \<and> w_req_table g' = w_req_table g \<and> axwflag g' = axwflag g"
proof -
  let ?si = "unat w" and ?line = "int_of_u64 (colindex data)" and ?blk = "er_pre_w_fold data"
  let ?row = "cache g ! ?si" and ?wrow = "weight_blk_idx g ! ?si"
  note R = gb_shape_row [OF sh si]
  have sc: "scan_ways p q ?row ?wrow (nat (wayN g)) 0 = Inr (first_idx (\<lambda>(x, b). p x \<and> q b) (zip ?row ?wrow))" for p q
    using R by (intro scan_ways_first) simp_all
  have trk: "set (tracked r ?si) = set (gb_lines g ?si)" and dl: "distinct (gb_lines g ?si)"
    using ag si by (auto simp: policy_agrees_def)
  have fl: "fill_line c address data w g r = scan_and_fill c data w g r"
    using scans by (simp add: fill_line_def)
  show ?thesis
  proof (cases "first_idx (\<lambda>(x, b). x = -1 \<and> True) (zip ?row ?wrow)")
    case (Some i)
    with first_idx_zip [OF this] R have i: "i < nat (wayN g)" "?row ! i = -1" by auto
    have "(?row ! i, ?wrow ! i) \<notin> set (gb_lines g ?si)" using i by (auto simp: gb_lines_def)
    then have "set (tracked r ?si) = set (gb_lines g ?si) - {(?row ! i, ?wrow ! i)}" using trk by simp
    from place_line [OF sh ag wf si u i(1) l new this] Some R
    show ?thesis unfolding fl scan_and_fill_def Let_def by (simp add: sc)
  next
    case None
    then have nofree: "\<forall>p \<in> set (zip ?row ?wrow). fst p \<noteq> -1" by (auto simp: first_idx_None)
    then have gl: "gb_lines g ?si = zip ?row ?wrow" by (auto simp: gb_lines_def intro: filter_True)
    have "0 < length (zip ?row ?wrow)" using R(1,2) sh by (simp add: gb_shape_def)
    then have "zip ?row ?wrow \<noteq> []" by blast
    then have ne: "tracked r ?si \<noteq> []" using trk gl by auto
    have "setN g < 2 ^ 31" using sh by (simp add: gb_shape_def)
    then have vs: "valid_set (nat (setN g)) (int ?si)" by (rule valid_set_nat [OF si])
    have "tracked r (nat (int ?si)) \<noteq> []" using ne by simp
    from replace_victim [OF wf vs this] obtain v r1 where v: "replace (int ?si) r = Inr (v, r1)"
      "wf_pol (nat (setN g)) r1" "v \<in> set (tracked r ?si)" "set (tracked r1 ?si) = set (tracked r ?si) - {v}"
      "\<forall>j. j \<noteq> ?si \<longrightarrow> tracked r1 j = tracked r j" by auto
    have "v \<in> set (zip ?row ?wrow)" using v(3) trk gl by simp
    then obtain i where fi: "first_idx (\<lambda>(x, b). x = fst v \<and> b = snd v) (zip ?row ?wrow) = Some i"
      using first_idx_exists [of v "zip ?row ?wrow" "\<lambda>(x, b). x = fst v \<and> b = snd v"] by (auto simp: case_prod_beta)
    with first_idx_zip [OF this] R have i: "i < nat (wayN g)" "v = (?row ! i, ?wrow ! i)" by auto
    have t1: "set (tracked r1 ?si) = set (gb_lines g ?si) - {(?row ! i, ?wrow ! i)}" using v(4) trk i(2) by simp
    have pk: "pick_victim c data w g r = Inr (Some v, r1)" using v(1) u by (simp add: pick_eq)
    from place_line [OF sh ag v(2) si u i(1) l new t1] v(5) None R pk fi
    show ?thesis unfolding fl scan_and_fill_def Let_def by (simp add: sc case_prod_beta)
  qed
qed

end

interpretation fifo_cache: cache_policy FIFO_access FIFO_replace fifo_pairs fifo_wf "c\<lparr>CACHE_REPL_ALGO := FIFO_ALGO\<rparr>" for c
  by unfold_locales (auto simp: track_def pick_victim_def algo_defs)

interpretation lru_cache: cache_policy LRU_access LRU_replace lru_pairs lru_wf "c\<lparr>CACHE_REPL_ALGO := LRU_ALGO\<rparr>" for c
  by unfold_locales (auto simp: track_def pick_victim_def algo_defs Let_def)

text \<open>The same for the policies that name a way.\<close>

locale way_cache = way_policy access replace wf_pol
  for access :: "int \<Rightarrow> int \<Rightarrow> u64 \<Rightarrow> repl_state \<Rightarrow> repl_state result"
    and replace :: "int \<Rightarrow> u64 \<Rightarrow> repl_state \<Rightarrow> ((int \<times> int) \<times> repl_state) result"
    and wf_pol :: "nat \<Rightarrow> nat \<Rightarrow> repl_state \<Rightarrow> bool" +
  fixes c :: ini_config
  assumes fill_eq: "fill_line c address data w g r =
      bindE (replace (int_of_u64 w) address r) (\<lambda>((s0, wy), r').
      bindE (fill_way (unat w) (idx_of_int wy) (int_of_u64 (colindex data)) (er_pre_w_fold data) g) (\<lambda>g'.
      Inr (g', r')))"
begin

lemma way_fill_spec:
  assumes sh: "gb_shape g" and wf: "wf_pol (nat (setN g)) (nat (wayN g)) r"
    and si: "unat w < nat (setN g)" and u: "int_of_u64 w = int (unat w)"
    and l: "int_of_u64 (colindex data) \<noteq> -1"
  shows "\<exists>g' r'. fill_line c address data w g r = Inr (g', r') \<and> gb_shape g'
    \<and> wf_pol (nat (setN g)) (nat (wayN g)) r'
    \<and> (int_of_u64 (colindex data), er_pre_w_fold data) \<in> set (gb_lines g' (unat w))
    \<and> (\<forall>sj. sj \<noteq> unat w \<longrightarrow> gb_lines g' sj = gb_lines g sj)
    \<and> setN g' = setN g \<and> wayN g' = wayN g \<and> wq g' = wq g
    \<and> w_map g' = w_map g \<and> w_req_table g' = w_req_table g \<and> axwflag g' = axwflag g"
proof -
  have b: "setN g < 2 ^ 31" "0 < nat (wayN g)" "nat (wayN g) < 2 ^ 31" using sh by (auto simp: gb_shape_def)
  from replace_way [OF wf valid_set_nat [OF si b(1)] b(2,3), of address]
  obtain wy r' where r': "replace (int (unat w)) address r = Inr ((int (unat w), wy), r')"
    "valid_set (nat (wayN g)) wy" "wf_pol (nat (setN g)) (nat (wayN g)) r'" by blast
  note wx = valid_set_idx [OF r'(2)]
  obtain g' where g': "fill_way (unat w) (nat wy) (int_of_u64 (colindex data)) (er_pre_w_fold data) g = Inr g'"
    using fill_way_eq [OF sh si, of "nat wy"] wx by blast
  have "fill_line c address data w g r = Inr (g', r')" using r'(1) u wx g' by (simp add: fill_eq)
  moreover have "(int_of_u64 (colindex data), er_pre_w_fold data) \<in> set (gb_lines g' (unat w))"
    using g' fill_way_eq [OF sh si, of "nat wy"] wx gb_shape_row [OF sh si] l
    by (auto simp: gb_lines_def set_zip intro!: exI [of _ "nat wy"])
  moreover have "\<forall>sj. sj \<noteq> unat w \<longrightarrow> gb_lines g' sj = gb_lines g sj"
    using g' fill_way_eq [OF sh si, of "nat wy"] wx by (auto simp: gb_lines_def)
  ultimately show ?thesis using fill_way_frame [OF g'] fill_way_shape [OF sh si g'] r'(3) by simp
qed

end

interpretation rrip_cache: way_cache "\<lambda>i w _. RRIP_access i w" "\<lambda>i _. RRIP_replace i" rrip_wf
  "c\<lparr>CACHE_REPL_ALGO := RRIP_ALGO\<rparr>" for c
  by unfold_locales (auto simp: fill_line_def Let_def)

interpretation ship_cache: way_cache SHiP_access SHiP_replace ship_wf "c\<lparr>CACHE_REPL_ALGO := SHiP_ALGO\<rparr>" for c
  by unfold_locales (auto simp: fill_line_def Let_def algo_defs)

section \<open>Filling, for every policy in one statement\<close>

text \<open>What each policy keeps in step with the cache.\<close>

definition policy_ok :: "ini_config \<Rightarrow> gbuf \<Rightarrow> repl_state \<Rightarrow> bool" where
  "policy_ok c g r \<longleftrightarrow>
     (if CACHE_REPL_ALGO c = FIFO_ALGO then fifo_wf (nat (setN g)) r \<and> policy_agrees fifo_pairs g r
      else if CACHE_REPL_ALGO c = LRU_ALGO then lru_wf (nat (setN g)) r \<and> policy_agrees lru_pairs g r
      else if CACHE_REPL_ALGO c = RRIP_ALGO then rrip_wf (nat (setN g)) (nat (wayN g)) r
      else if CACHE_REPL_ALGO c = SHiP_ALGO then ship_wf (nat (setN g)) (nat (wayN g)) r
      else False)"

lemma algo_cases:
  assumes "policy_ok c g r"
  obtains "c = c\<lparr>CACHE_REPL_ALGO := FIFO_ALGO\<rparr>" | "c = c\<lparr>CACHE_REPL_ALGO := LRU_ALGO\<rparr>"
    | "c = c\<lparr>CACHE_REPL_ALGO := RRIP_ALGO\<rparr>" | "c = c\<lparr>CACHE_REPL_ALGO := SHiP_ALGO\<rparr>"
  using assms by (cases c) (auto simp: policy_ok_def split: if_splits)

lemma policy_ok_set:
  "policy_ok (c\<lparr>CACHE_REPL_ALGO := FIFO_ALGO\<rparr>) g r \<longleftrightarrow> fifo_wf (nat (setN g)) r \<and> policy_agrees fifo_pairs g r"
  "policy_ok (c\<lparr>CACHE_REPL_ALGO := LRU_ALGO\<rparr>) g r \<longleftrightarrow> lru_wf (nat (setN g)) r \<and> policy_agrees lru_pairs g r"
  "policy_ok (c\<lparr>CACHE_REPL_ALGO := RRIP_ALGO\<rparr>) g r \<longleftrightarrow> rrip_wf (nat (setN g)) (nat (wayN g)) r"
  "policy_ok (c\<lparr>CACHE_REPL_ALGO := SHiP_ALGO\<rparr>) g r \<longleftrightarrow> ship_wf (nat (setN g)) (nat (wayN g)) r"
  by (simp_all add: policy_ok_def algo_defs)

lemma filled_in: "filled si new g g' \<Longrightarrow> new \<in> set (gb_lines g' si)"
  by (auto simp: filled_def)

lemma fill_line_any:
  assumes pol: "policy_ok c g r" and sh: "gb_shape g"
    and si: "unat w < nat (setN g)" and u: "int_of_u64 w = int (unat w)"
    and l: "int_of_u64 (colindex data) \<noteq> -1"
    and new: "(int_of_u64 (colindex data), er_pre_w_fold data) \<notin> set (gb_lines g (unat w))"
  shows "\<exists>g' r'. fill_line c address data w g r = Inr (g', r') \<and> gb_shape g' \<and> policy_ok c g' r'
    \<and> (int_of_u64 (colindex data), er_pre_w_fold data) \<in> set (gb_lines g' (unat w))
    \<and> (\<forall>sj. sj \<noteq> unat w \<longrightarrow> gb_lines g' sj = gb_lines g sj)
    \<and> setN g' = setN g \<and> wayN g' = wayN g \<and> wq g' = wq g
    \<and> w_map g' = w_map g \<and> w_req_table g' = w_req_table g \<and> axwflag g' = axwflag g"
  using pol
proof (cases rule: algo_cases)
  case 1
  then have "fifo_wf (nat (setN g)) r" "policy_agrees fifo_pairs g r" using pol policy_ok_set(1) by metis+
  from fifo_cache.fill_line_spec [OF sh this(2,1) si u l new, of c address] show ?thesis
    unfolding 1 [symmetric] by (subst 1, subst policy_ok_set) (use filled_in in \<open>fastforce simp: filled_def\<close>)
next
  case 2
  then have "lru_wf (nat (setN g)) r" "policy_agrees lru_pairs g r" using pol policy_ok_set(2) by metis+
  from lru_cache.fill_line_spec [OF sh this(2,1) si u l new, of c address] show ?thesis
    unfolding 2 [symmetric] by (subst 2, subst policy_ok_set) (use filled_in in \<open>fastforce simp: filled_def\<close>)
next
  case 3
  then have "rrip_wf (nat (setN g)) (nat (wayN g)) r" using pol policy_ok_set(3) by metis
  from rrip_cache.way_fill_spec [OF sh this si u l, of c address] show ?thesis
    unfolding 3 [symmetric] by (subst 3, subst policy_ok_set) fastforce
next
  case 4
  then have "ship_wf (nat (setN g)) (nat (wayN g)) r" using pol policy_ok_set(4) by metis
  from ship_cache.way_fill_spec [OF sh this si u l, of c address] show ?thesis
    unfolding 4 [symmetric] by (subst 4, subst policy_ok_set) fastforce
qed

lemma find_line_hit:
  assumes sh: "gb_shape g" and si: "si < nat (setN g)" and d: "unat dst < 2 ^ 31"
    and "(int_of_u64 dst, blk) \<in> set (gb_lines g si)"
  shows "\<exists>i. find_line g si dst blk = Inr (Some i)"
proof -
  note R = gb_shape_row [OF sh si]
  have e: "u64_of_int (int_of_u64 dst) = dst" using int_of_u64_nat [OF d] u64_of_int_unat by metis
  have "(int_of_u64 dst, blk) \<in> set (zip (cache g ! si) (weight_blk_idx g ! si))"
    using assms(4) by (simp add: gb_lines_def)
  from first_idx_exists [OF this, of "\<lambda>(x, b). u64_of_int x = dst \<and> b = blk"] e
  obtain i where "first_idx (\<lambda>(x, b). u64_of_int x = dst \<and> b = blk) (zip (cache g ! si) (weight_blk_idx g ! si)) = Some i"
    by auto
  then show ?thesis using R by (simp add: find_line_def scan_ways_first)
qed

section \<open>The miss queue and the outstanding requests\<close>

lemma fill_line_frame:
  assumes "fill_line c a data w g r = Inr (g', r')"
  shows "wq g' = wq g \<and> w_map g' = w_map g \<and> w_req_table g' = w_req_table g \<and> axwflag g' = axwflag g
    \<and> gb_number g' = gb_number g"
proof -
  have fr: "fill_way si i x b g = Inr h \<Longrightarrow> wq h = wq g \<and> w_map h = w_map g \<and> w_req_table h = w_req_table g
      \<and> axwflag h = axwflag g \<and> gb_number h = gb_number g" for si i x b h
    using fill_way_frame by metis
  have sf: "scan_and_fill c data w g r = Inr (g', r') \<Longrightarrow> ?thesis"
    unfolding scan_and_fill_def Let_def
    by (auto simp: bindE_eq_Inr split: option.splits prod.splits dest!: fr)
  show ?thesis
    using assms unfolding fill_line_def Let_def
    by (auto simp: bindE_eq_Inr split: if_splits prod.splits dest!: fr sf)
qed

text \<open>The addresses requested between two states, read off the list the DRAM interface keeps.\<close>

definition requested :: "'m gb_sys \<Rightarrow> 'm gb_sys \<Rightarrow> u64 list" where
  "requested g g' = map gb_address (drop (length (info (mem g))) (info (mem g')))"

inductive gb_run :: "ini_config \<Rightarrow> u64 \<Rightarrow> 'm gb_sys \<Rightarrow> u64 list \<Rightarrow> 'm gb_sys \<Rightarrow> bool"
  for c :: ini_config and mov_med :: u64 and g0 :: "'m gb_sys" where
  gb_start: "gb_run c mov_med g0 [] g0"
| gb_edge: "gb_run c mov_med g0 out g \<Longrightarrow> can_receive (axwflag (buf g)) \<Longrightarrow>
    GB_ReceiveEdge c mov_med data g = Inr g' \<Longrightarrow> gb_run c mov_med g0 (out @ requested g g') g'"
| gb_line: "gb_run c mov_med g0 out g \<Longrightarrow> a \<in> set out \<Longrightarrow>
    GB_ReceiveLine c a g = Inr g' \<Longrightarrow> gb_run c mov_med g0 (remove1 a out) g'"
| gb_can: "gb_run c mov_med g0 out g \<Longrightarrow> GB_CanTransfer g = Inr g' \<Longrightarrow>
    gb_run c mov_med g0 (out @ requested g g') g'"
| gb_transfer: "gb_run c mov_med g0 out g \<Longrightarrow> GB_TransferAData (buf g) = Inr (e, b) \<Longrightarrow>
    gb_run c mov_med g0 out (g\<lparr>buf := b\<rparr>)"
| gb_mem: "gb_run c mov_med g0 out g \<Longrightarrow> gb_run c mov_med g0 out (g\<lparr>mem := m\<rparr>)"

definition mshr_inv :: "u64 list \<Rightarrow> gbuf \<Rightarrow> bool" where
  "mshr_inv out b \<longleftrightarrow> distinct out \<and> (\<forall>a. a \<in> set out \<longleftrightarrow> w_req_table b a = Some True)
     \<and> (\<forall>a \<in> set out. \<exists>d. w_map b a = Some d \<and> er_address d = a)
     \<and> (axw_q_empty (axwflag b) \<longleftrightarrow> wq b = []) \<and> length (wq b) \<le> LIMIT_WQ_SIZE
     \<and> (can_receive (axwflag b) \<longleftrightarrow> length (wq b) < LIMIT_WQ_SIZE)"

lemma gb_Request_buf:
  "wq (buf (gb_Request d g)) = wq (buf g)" "axwflag (buf (gb_Request d g)) = axwflag (buf g)"
  "w_map (buf (gb_Request d g)) = (w_map (buf g))(er_address d \<mapsto> d)"
  "w_req_table (buf (gb_Request d g)) = (w_req_table (buf g))(er_address d \<mapsto> True)"
  "info (mem (gb_Request d g)) = info (mem g) @ [\<lparr>gb_id = gb_number (buf g), gb_address = er_address d\<rparr>]"
  by (simp_all add: gb_Request_def DRAMRequest_id_def)

lemma mshr_request:
  assumes "mshr_inv out b" and "w_req_table b (er_address d) \<noteq> Some True"
    and "wq b' = wq b" "axw_q_empty (axwflag b') = axw_q_empty (axwflag b)"
    "can_receive (axwflag b') = can_receive (axwflag b)"
    and "w_map b' = (w_map b)(er_address d \<mapsto> d)" "w_req_table b' = (w_req_table b)(er_address d \<mapsto> True)"
  shows "mshr_inv (out @ [er_address d]) b'"
  using assms by (auto simp: mshr_inv_def)

lemma mshr_same:
  assumes "mshr_inv out b" and "wq b' = wq b" "axw_q_empty (axwflag b') = axw_q_empty (axwflag b)"
    "can_receive (axwflag b') = can_receive (axwflag b)" "w_map b' = w_map b"
    "\<And>a. (w_req_table b' a = Some True) = (w_req_table b a = Some True)"
  shows "mshr_inv out b'"
  using assms by (simp add: mshr_inv_def)

lemma mshr_push:
  assumes "mshr_inv out b" and "can_receive (axwflag b)"
  shows "mshr_inv out ((push_edge e b)\<lparr>set_util := u\<rparr>)"
  using assms by (auto simp: mshr_inv_def push_edge_def Let_def)

lemma mshr_edge:
  assumes "mshr_inv out (buf g)" and "can_receive (axwflag (buf g))" and "GB_ReceiveEdge c mov_med data g = Inr g'"
  shows "mshr_inv (out @ requested g g') (buf g')"
proof -
  note push = mshr_push [OF assms(1,2), where e = data]
  from assms(3) obtain r1 w u hit where e: "(case hit of
        Some i \<Rightarrow>
          bindE (hit_update c w i data r1) (\<lambda>r2.
          Inr (g\<lparr>buf := (push_edge data (buf g))\<lparr>set_util := u,
            axwflag := (axwflag (push_edge data (buf g)))\<lparr>axw_can_transfer := True\<rparr>\<rparr>, repl := r2\<rparr>))
      | None \<Rightarrow> Inr (request_if_new data (g\<lparr>buf := (push_edge data (buf g))\<lparr>set_util := u\<rparr>, repl := r1\<rparr>))) = Inr g'"
    unfolding GB_ReceiveEdge_def Let_def by (clarsimp simp: bindE_eq_Inr)
  consider
    (hit) u r where "g' = g\<lparr>buf := ((push_edge data (buf g))\<lparr>set_util := u\<rparr>)\<lparr>axwflag :=
        (axwflag (push_edge data (buf g)))\<lparr>axw_can_transfer := True\<rparr>\<rparr>, repl := r\<rparr>"
  | (miss) u r where "g' = gb_Request data (g\<lparr>buf := (push_edge data (buf g))\<lparr>set_util := u\<rparr>, repl := r\<rparr>)"
      "w_req_table (push_edge data (buf g)) (er_address data) \<noteq> Some True"
  | (pending) u r where "g' = g\<lparr>buf := (push_edge data (buf g))\<lparr>set_util := u\<rparr>, repl := r\<rparr>"
  proof (cases hit)
    case None
    with e have "g' = request_if_new data (g\<lparr>buf := (push_edge data (buf g))\<lparr>set_util := u\<rparr>, repl := r1\<rparr>)" by simp
    then show ?thesis using miss [where u = u and r = r1] pending [where u = u and r = r1]
      by (cases "w_req_table (push_edge data (buf g)) (er_address data)") (auto simp: request_if_new_def split: if_split_asm)
  next
    case (Some i)
    with e obtain r2 where "g' = g\<lparr>buf := (push_edge data (buf g))\<lparr>set_util := u,
            axwflag := (axwflag (push_edge data (buf g)))\<lparr>axw_can_transfer := True\<rparr>\<rparr>, repl := r2\<rparr>"
      by (auto simp: bindE_eq_Inr)
    then show ?thesis by (rule hit)
  qed
  then show ?thesis
  proof cases
    case hit
    then have "requested g g' = []" by (simp add: requested_def)
    with hit show ?thesis by (auto intro!: mshr_same [OF push [where u = u]])
  next
    case miss
    then have "requested g g' = [er_address data]" by (simp add: requested_def gb_Request_buf)
    moreover have "mshr_inv (out @ [er_address data]) (buf g')"
      by (rule mshr_request [OF push [where u = u]]) (use miss in \<open>simp_all add: gb_Request_buf\<close>)
    ultimately show ?thesis by simp
  next
    case pending
    then have "requested g g' = []" by (simp add: requested_def)
    with pending show ?thesis using push [where u = u] by simp
  qed
qed

lemma mshr_transfer:
  assumes "mshr_inv out b" and "GB_TransferAData b = Inr (e, b')"
  shows "mshr_inv out b'"
  using assms by (cases "wq b") (auto simp: GB_TransferAData_def Let_def mshr_inv_def split: if_splits)

lemma mshr_line:
  assumes inv: "mshr_inv out (buf g)" and a: "a \<in> set out" and r: "GB_ReceiveLine c a g = Inr g'"
  shows "mshr_inv (remove1 a out) (buf g')"
proof -
  obtain d where d: "w_map (buf g) a = Some d" using inv a by (auto simp: mshr_inv_def)
  then have mi: "map_index zero_ERData (w_map (buf g)) a = (d, w_map (buf g))" by (simp add: map_index_def)
  from r obtain w b1 r1 where f: "fill_line c a d w ((buf g)\<lparr>w_map := w_map (buf g)\<rparr>) (repl g) = Inr (b1, r1)"
    and g': "wq (buf g') = wq b1" "axw_q_empty (axwflag (buf g')) = axw_q_empty (axwflag b1)"
      "can_receive (axwflag (buf g')) = can_receive (axwflag b1)" "w_map (buf g') = w_map b1"
      "w_req_table (buf g') = (w_req_table b1)(a \<mapsto> False)"
    unfolding GB_ReceiveLine_def mi Let_def by (auto simp: bindE_eq_Inr split: if_splits)
  have "mshr_inv out b1" using fill_line_frame [OF f] inv by (simp add: mshr_inv_def)
  then show ?thesis using g' a by (auto simp: mshr_inv_def)
qed

lemma mshr_can:
  assumes inv: "mshr_inv out (buf g)" and r: "GB_CanTransfer g = Inr g'"
  shows "mshr_inv (out @ requested g g') (buf g')"
proof (cases "axw_q_empty (axwflag (buf g))")
  case True
  then have "g' = g\<lparr>buf := (buf g)\<lparr>axwflag := (axwflag (buf g))\<lparr>axw_can_transfer := False\<rparr>\<rparr>\<rparr>"
    using r by (simp add: GB_CanTransfer_def)
  then show ?thesis using inv by (simp add: requested_def mshr_inv_def)
next
  case False
  from r False obtain data hit where g': "g' = settle_front data hit g"
    by (auto simp: GB_CanTransfer_def bindE_eq_Inr)
  let ?mi = "map_index False (w_req_table (buf g)) (er_address data)"
  let ?g0 = "g\<lparr>buf := (buf g)\<lparr>w_req_table := snd ?mi\<rparr>\<rparr>"
  have inv0: "mshr_inv out (buf ?g0)"
    by (rule mshr_same [OF inv]) (auto simp: map_index_def split: option.splits)
  consider (hit) i where "hit = Some i" | (pend) "hit = None" "fst ?mi" | (req) "hit = None" "\<not> fst ?mi"
    by (cases hit) auto
  then show ?thesis
  proof cases
    case hit
    then show ?thesis using inv by (simp add: g' settle_front_def requested_def mshr_inv_def Let_def)
  next
    case pend
    then have "requested g g' = []" by (simp add: g' settle_front_def requested_def Let_def case_prod_beta)
    moreover have "mshr_inv out (buf g')"
      by (rule mshr_same [OF inv0]) (use pend in \<open>simp_all add: g' settle_front_def Let_def case_prod_beta\<close>)
    ultimately show ?thesis by simp
  next
    case req
    then have nt: "w_req_table (buf ?g0) (er_address data) \<noteq> Some True"
      by (auto simp: map_index_def split: option.splits)
    have "requested g g' = [er_address data]"
      using req by (simp add: g' settle_front_def requested_def Let_def case_prod_beta gb_Request_buf)
    moreover have "mshr_inv (out @ [er_address data]) (buf g')"
      by (rule mshr_request [OF inv0 nt]) (use req in \<open>simp_all add: g' settle_front_def Let_def case_prod_beta gb_Request_buf\<close>)
    ultimately show ?thesis by simp
  qed
qed

lemma mshr_run:
  assumes "gb_run c mov_med g0 out g" and "mshr_inv [] (buf g0)"
  shows "mshr_inv out (buf g)"
  using assms by induction (auto intro: mshr_edge mshr_line mshr_can mshr_transfer)

end
