(* ===== verification/Cache_Properties.thy ===== *)
theory Cache_Properties
  imports Global_Buffer
begin

text \<open>
  What the replacement policies of \<open>CacheReplacement.cpp\<close> and the buffer of \<open>GlobalBuffer.cpp\<close>
  guarantee: the eviction orders, the exactness of the Bloom filter counts, that a received line
  is found by the next lookup, and that no line is requested twice while its request is under way.
\<close>

section \<open>Recency and insertion order\<close>

lemma LRU_new_empty: "lru_wf (nat m) (LRU_new k m empty_repl)" "lru_pairs (LRU_new k m empty_repl) = (\<lambda>_. [])"
  by (auto simp: lru_wf_def lru_pairs_def LRU_new_def empty_repl_def pairs_wf_new pairs_of_def fun_eq_iff)

lemma FIFO_new_empty: "fifo_wf (nat m) (FIFO_new k m empty_repl)" "fifo_pairs (FIFO_new k m empty_repl) = (\<lambda>_. [])"
  by (auto simp: fifo_wf_def fifo_pairs_def FIFO_new_def empty_repl_def pairs_wf_new pairs_of_def fun_eq_iff)

text \<open>C24: after any sequence of accesses to a set, \<open>LRU::replace\<close> evicts the least recently used
  line: every other line has been used after the victim's last use.\<close>

theorem lru_evicts_least_recent:
  assumes "valid_set (nat m) i" and "xs \<noteq> []"
  shows "\<exists>s v s'. accesses LRU_access i xs (LRU_new k m empty_repl) = Inr s \<and> LRU_replace i s = Inr (v, s')
    \<and> (\<exists>ys zs. xs = ys @ v # zs \<and> v \<notin> set zs \<and> set ys \<subseteq> insert v (set zs))"
proof -
  obtain s where s: "accesses LRU_access i xs (LRU_new k m empty_repl) = Inr s" "lru_wf (nat m) s"
    "lru_pairs s (nat i) = rev (remdups xs)"
    using LRU_accesses_pairs [OF LRU_new_empty(1) assms(1), of xs k]
    by (auto simp: LRU_new_empty(2) fold_move_to_front)
  have "remdups xs = hd (remdups xs) # tl (remdups xs)" using assms(2) by simp
  then have "lru_pairs s (nat i) = rev (tl (remdups xs)) @ [hd (remdups xs)]" using s(3) by (metis rev.simps(2))
  from LRU_replace_pairs [OF s(2) assms(1) this] show ?thesis
    using s(1) remdups_hd_last_use [OF assms(2)] by fast
qed

theorem lru_evicts_least_recent_witness:
  "\<exists>s v s'. accesses LRU_access 1 [(5, 0), (7, 0), (5, 0)] (LRU_new 2 2 empty_repl) = Inr s \<and> LRU_replace 1 s = Inr (v, s')
    \<and> (\<exists>ys zs. [(5, 0), (7, 0), (5, 0)] = ys @ v # zs \<and> v \<notin> set zs \<and> set ys \<subseteq> insert v (set zs))"
  by (rule lru_evicts_least_recent) (simp_all add: valid_set_def)

text \<open>Lines accessed under FIFO leave in the order they came: evicting as many times as there
  were (distinct) accesses returns exactly the access sequence and leaves the set empty.\<close>

theorem fifo_evicts_in_order:
  assumes "valid_set (nat m) i" and "distinct xs"
  shows "\<exists>s s'. accesses FIFO_access i xs (FIFO_new k m empty_repl) = Inr s
    \<and> repeatE (length xs) (FIFO_replace i) s = Inr (xs, s') \<and> fifo_pairs s' (nat i) = []"
proof -
  obtain s where s: "accesses FIFO_access i xs (FIFO_new k m empty_repl) = Inr s" "fifo_wf (nat m) s"
    "fifo_pairs s (nat i) = xs"
    using FIFO_accesses_pairs [OF FIFO_new_empty(1) assms(1), of k xs] assms(2)
    by (auto simp: FIFO_new_empty(2))
  then show ?thesis using FIFO_evictions_pairs [OF s(2) assms(1), of "length xs"] by auto
qed

theorem fifo_evicts_in_order_witness:
  "\<exists>s s'. accesses FIFO_access 0 [(5, 0), (7, 0), (5, 1)] (FIFO_new 4 1 empty_repl) = Inr s
    \<and> repeatE (length [(5 :: int, 0 :: int), (7, 0), (5, 1)]) (FIFO_replace 0) s = Inr ([(5, 0), (7, 0), (5, 1)], s')
    \<and> fifo_pairs s' (nat 0) = []"
  by (rule fifo_evicts_in_order) (simp_all add: valid_set_def)

section \<open>Re-reference prediction\<close>

text \<open>C25: \<open>RRIP::replace\<close> returns the first way with the largest prediction value of its set, ages
  all ways of the set by the same amount and gives the refilled way the value 2; the unbounded
  search loop ends on every set that has a way.\<close>

theorem rrip_evicts_first_largest:
  assumes "rrip_wf n k s" and "valid_set n i" and "0 < k" and "k < 2 ^ 31"
  defines "l \<equiv> rrpvList s ! nat i"
  shows "\<exists>w s'. RRIP_replace i s = Inr ((i, int w), s') \<and> rrip_wf n k s'
    \<and> first_idx (\<lambda>v. v = Max (set l)) l = Some w
    \<and> rrpvList s' = (rrpvList s)[nat i := (map (\<lambda>v. v + (3 - Max (set l))) l)[w := 2]]"
proof -
  let ?l = "map (\<lambda>v. v + (3 - Max (set l))) l"
  obtain w where w: "rrip_search i s = Inr (int w, s\<lparr>rrpvList := (rrpvList s)[nat i := ?l]\<rparr>)"
    "first_idx (\<lambda>v. v = Max (set l)) l = Some w" "w < k" "rrpv_ok ?l"
    using rrip_search_eq [OF assms(1-4)] unfolding l_def by blast
  let ?s = "s\<lparr>rrpvList := (rrpvList s)[nat i := ?l]\<rparr>"
  have ix: "nat i < n" "length l = k" using rrip_wf_get [OF assms(1)] valid_set_idx [OF assms(2)] by (auto simp: l_def)
  have wf: "rrip_wf n k ?s" using rrip_wf_upd [OF assms(1) _ w(4)] ix by simp
  have "length (rrpvList s) = n" using assms(1) by (simp add: rrip_wf_def)
  then have eq: "RRIP_replace i s = Inr ((i, int w), ?s\<lparr>rrpvList := (rrpvList s)[nat i := ?l[w := 2]]\<rparr>)"
    using w(1) rrpv_set_eq [OF wf assms(2) valid_way [OF w(3) assms(4)], of 2] ix
    by (simp add: RRIP_replace_def)
  have "rrip_wf n k (?s\<lparr>rrpvList := (rrpvList ?s)[nat i := ?l[w := 2]]\<rparr>)"
    by (rule rrip_wf_upd [OF wf]) (use ix w(4) in \<open>simp_all add: rrpv_ok_upd\<close>)
  then show ?thesis using eq w(2) by simp
qed

theorem rrip_evicts_first_largest_witness:
  "\<exists>w s'. RRIP_replace 0 (empty_repl\<lparr>rrpvList := [[1, 2, 0, 2]]\<rparr>) = Inr ((0, int w), s') \<and> rrip_wf 1 4 s'
    \<and> first_idx (\<lambda>v. v = Max (set (rrpvList (empty_repl\<lparr>rrpvList := [[1, 2, 0, 2]]\<rparr>) ! nat 0)))
        (rrpvList (empty_repl\<lparr>rrpvList := [[1, 2, 0, 2]]\<rparr>) ! nat 0) = Some w
    \<and> rrpvList s' = (rrpvList (empty_repl\<lparr>rrpvList := [[1, 2, 0, 2]]\<rparr>))[nat 0 := (map (\<lambda>v. v + (3 -
        Max (set (rrpvList (empty_repl\<lparr>rrpvList := [[1, 2, 0, 2]]\<rparr>) ! nat 0))))
        (rrpvList (empty_repl\<lparr>rrpvList := [[1, 2, 0, 2]]\<rparr>) ! nat 0))[w := 2]]"
  by (rule rrip_evicts_first_largest) (simp_all add: rrip_wf_def rrpv_ok_def valid_set_def)

text \<open>On a set without ways the search loop of \<open>RRIP::replace\<close> never ends.\<close>

theorem rrip_no_ways_diverges:
  assumes "valid_set (nat m) i"
  shows "RRIP_replace i (RRIP_new 0 m empty_repl) = Inl Diverges"
  using assms valid_set_idx [OF assms]
  by (simp add: RRIP_replace_def rrip_search_def RRIP_new_def empty_repl_def rrip_loop_no_ways Let_def)

theorem rrip_no_ways_diverges_witness: "RRIP_replace 1 (RRIP_new 0 2 empty_repl) = Inl Diverges"
  by (rule rrip_no_ways_diverges) (simp add: valid_set_def)

datatype ship_op = Hit int int u64 | Miss int u64

definition ship_step :: "ship_op \<Rightarrow> repl_state \<Rightarrow> repl_state result" where
  "ship_step op s = (case op of Hit i w a \<Rightarrow> SHiP_access i w a s | Miss i a \<Rightarrow> bindE (SHiP_replace i a s) (\<lambda>(_, s'). Inr s'))"

definition ship_op_ok :: "nat \<Rightarrow> nat \<Rightarrow> ship_op \<Rightarrow> bool" where
  "ship_op_ok n k op \<longleftrightarrow> (case op of Hit i w a \<Rightarrow> valid_set n i \<and> valid_set k w | Miss i a \<Rightarrow> valid_set n i)"

lemma ship_steps_mono:
  assumes "ship_wf n k s" and "0 < k" and "k < 2 ^ 31" and "\<forall>op \<in> set ops. ship_op_ok n k op"
  shows "\<exists>s'. foldE ship_step ops s = Inr s' \<and> ship_wf n k s' \<and> (\<forall>j. shct_count s j \<le> shct_count s' j)"
  using assms(1,4)
proof (induction ops arbitrary: s)
  case (Cons op ops)
  have "\<exists>s1. ship_step op s = Inr s1 \<and> ship_wf n k s1 \<and> (\<forall>j. shct_count s j \<le> shct_count s1 j)"
  proof (cases op)
    case (Hit i w a)
    then show ?thesis using SHiP_access_spec [OF Cons.prems(1), of i w a] Cons.prems(2)
      by (simp add: ship_step_def ship_op_ok_def)
  next
    case (Miss i a)
    then obtain w s1 where "SHiP_replace i a s = Inr ((i, w), s1)" "ship_wf n k s1" "shct_count s1 = shct_count s"
      using SHiP_replace_spec [OF Cons.prems(1) _ assms(2,3), of i a] Cons.prems(2) by (auto simp: ship_op_ok_def)
    then show ?thesis using Miss by (simp add: ship_step_def)
  qed
  then obtain s1 where s1: "ship_step op s = Inr s1" "ship_wf n k s1" "\<forall>j. shct_count s j \<le> shct_count s1 j" by blast
  from Cons.IH [OF s1(2)] Cons.prems(2) obtain s2 where "foldE ship_step ops s1 = Inr s2" "ship_wf n k s2"
    "\<forall>j. shct_count s1 j \<le> shct_count s2 j" by auto
  then show ?case using s1 by (auto intro: order_trans)
qed simp

text \<open>Under \<open>SHiP\<close> no sequence of hits and replacements lowers a signature counter: the
  decrementing branch of \<open>SHiP::replace\<close> is never taken from the constructed state.\<close>

theorem ship_counters_never_decrease:
  assumes "0 < k" and "k < 2 ^ 31" and "\<forall>op \<in> set (ops1 @ ops2). ship_op_ok (nat m) (nat k) op"
  shows "\<exists>s1 s2. foldE ship_step ops1 (SHiP_new k m empty_repl) = Inr s1 \<and> foldE ship_step ops2 s1 = Inr s2
    \<and> (\<forall>j. shct_count s1 j \<le> shct_count s2 j)"
proof -
  have k: "0 < nat k" "nat k < 2 ^ 31" using assms(1,2) by (simp_all add: nat_less_iff)
  obtain s1 where s1: "foldE ship_step ops1 (SHiP_new k m empty_repl) = Inr s1" "ship_wf (nat m) (nat k) s1"
    using ship_steps_mono [OF SHiP_new_wf [of m k] k, of ops1] assms(3) by auto
  then show ?thesis using ship_steps_mono [OF s1(2) k, of ops2] assms(3) by auto
qed

theorem ship_counters_never_decrease_witness:
  "\<exists>s1 s2. foldE ship_step [Miss 0 65536] (SHiP_new 2 1 empty_repl) = Inr s1
    \<and> foldE ship_step [Hit 0 0 65536, Miss 0 131072] s1 = Inr s2 \<and> (\<forall>j. shct_count s1 j \<le> shct_count s2 j)"
  by (rule ship_counters_never_decrease) (simp_all add: ship_op_ok_def valid_set_def)

section \<open>Bloom filter\<close>



definition demo_cfg :: ini_config where
  "demo_cfg = \<lparr>gbsize = 128, xbsize = 1024, tot_acc = 1, MAX_DRAM = 1, CACHE_LINE_BYTE = 64, CACHE_LINE_COUNT = 8,
     UNIT_BYTE = 8, X_START = 0, A_ROW_START = 4096, A_COL_START = 8192, WEIGHT_START = 12288, XW_START = 16384,
     AXW_START = 20480, SYSTOLIC_DIM = 4, CACHE_REPL_ALGO = LRU_ALGO, DIVISION_TYPE = 1, MECHA_TYPE = 0, UNIT_W_READ = 1,
     BLOOM_FILTER_NUM = 2, BF_RATIO = (1, 1), BF_OVERLAP = 50, CACHE_WAY_N = 2, MEM_TYPE = ''demo''\<rparr>"

definition demo_dims :: dims where
  "demo_dims = \<lparr>w_h = 4, w_w = 2, x_h = 5, x_w = 4, a_w = 5, a_h = 5\<rparr>"


text \<open>The victim of \<open>BloomFilter::replace\<close> is the line of the first way whose counter is minimal
  among the lines of the set.\<close>

theorem bloom_victim_minimal:
  assumes "bf_wf n b (unat len) s" and "0 < len" and "unat len < 2 ^ 31" and "valid_set b blk"
    and "setVector \<noteq> []" and "length weightVector = length setVector"
  shows "\<exists>w. w < length setVector
    \<and> BloomFilter_replace len blk ovl setVector weightVector s = Inr (setVector ! w, weightVector ! w)
    \<and> (\<forall>i < length setVector. \<exists>x y. bf_count len blk ovl s (setVector ! w) = Inr x
          \<and> bf_count len blk ovl s (setVector ! i) = Inr y \<and> x \<le> y \<and> (i < w \<longrightarrow> x < y))"
proof -
  have ix: "idx_of_int blk = nat blk" "nat blk < b" using valid_set_idx [OF assms(4)] by auto
  have "\<exists>y. bf_count len blk ovl s line = Inr y" for line
  proof -
    let ?w = "u64_of_int line mod len"
    have m: "unat ?w < unat len" using assms(2) by (simp add: unat_mod word_less_nat_alt)
    then have "int_of_u64 ?w = int (unat ?w)" using assms(3) by (intro int_of_u64_nat) simp
    then have "idx_of_int (int_of_u64 ?w) = unat ?w" using m assms(3) by (simp add: idx_of_int_def u64_of_int_unat del: of_nat_unat)
    moreover have "nat blk < length (if ovl then olBfList s else bfList s)" "length ((if ovl then olBfList s else bfList s) ! nat blk) = unat len"
      using assms(1) ix(2) by (auto simp: bf_wf_def)
    ultimately show ?thesis using m ix word_gt_0 [of len] assms(2) by (auto simp: bf_count_def Let_def)
  qed
  then obtain cs where cs: "mapE (bf_count len blk ovl s) setVector = Inr cs" using mapE_total by metis
  note nth = mapE_Inr_nth [OF cs]
  then have ne: "cs \<noteq> []" using assms(5) by (metis length_0_conv)
  note least = min_idx_least [OF ne]
  have first: "cs ! min_idx cs < cs ! i" if "i < min_idx cs" for i
  proof -
    obtain k where k: "first_idx (\<lambda>x. \<forall>y \<in> set cs. x \<le> y) cs = Some k"
      using first_idx_exists [of "cs ! min_idx cs" cs "\<lambda>x. \<forall>y \<in> set cs. x \<le> y"] least by auto
    then have "min_idx cs = k" by (simp add: min_idx_def)
    then have "\<not> (\<forall>y \<in> set cs. cs ! i \<le> y)" using k that by (auto simp: first_idx_Some)
    then show ?thesis using least by fastforce
  qed
  show ?thesis
    using nth least first cs assms(5,6) by (intro exI [of _ "min_idx cs"]) (auto simp: BloomFilter_replace_def Let_def vec_at_def)
qed

theorem bloom_victim_minimal_witness:
  "\<exists>w. w < length [3, 4 :: int]
    \<and> BloomFilter_replace 5 0 False [3, 4] [0, 1] (empty_repl\<lparr>bfList := [[0, 0, 0, 2, 1]], olBfList := [[0, 0, 0, 0, 0]]\<rparr>)
        = Inr ([3, 4] ! w, [0, 1] ! w)
    \<and> (\<forall>i < length [3, 4 :: int]. \<exists>x y.
          bf_count 5 0 False (empty_repl\<lparr>bfList := [[0, 0, 0, 2, 1]], olBfList := [[0, 0, 0, 0, 0]]\<rparr>) ([3, 4] ! w) = Inr x
        \<and> bf_count 5 0 False (empty_repl\<lparr>bfList := [[0, 0, 0, 2, 1]], olBfList := [[0, 0, 0, 0, 0]]\<rparr>) ([3, 4] ! i) = Inr y
        \<and> x \<le> y \<and> (i < w \<longrightarrow> x < y))"
  by (rule bloom_victim_minimal [where n = 0 and b = 1]) (simp_all add: bf_wf_def empty_repl_def valid_set_def)

section \<open>The buffer\<close>

lemma policy_ok_cong:
  "gb_lines g' = gb_lines g \<Longrightarrow> setN g' = setN g \<Longrightarrow> wayN g' = wayN g \<Longrightarrow> policy_ok c g' r = policy_ok c g r"
  by (simp add: policy_ok_def policy_agrees_def)

text \<open>C27: for each of the four policies that drive the buffer, receiving an outstanding line from
  DRAM puts it into the set its column selects, so that the lookup done for a later edge hits; the
  buffer and its policy stay in step, and the request is marked as answered.\<close>

theorem received_line_is_found:
  assumes "policy_ok c (buf g) (repl g)" and "gb_shape (buf g)" and "w_map (buf g) a = Some data"
    and "unat (colindex data) < 2 ^ 31" and "wq (buf g) \<noteq> []"
    and "\<forall>si < nat (setN (buf g)). (int_of_u64 (colindex data), er_pre_w_fold data) \<notin> set (gb_lines (buf g) si)"
  shows "\<exists>g' w i. GB_ReceiveLine c a g = Inr g' \<and> gb_shape (buf g') \<and> policy_ok c (buf g') (repl g')
    \<and> w_req_table (buf g') a = Some False \<and> wq (buf g') = wq (buf g) \<and> mem g' = mem g
    \<and> gb_setIdx (buf g') (colindex data) = Inr w
    \<and> find_line (buf g') (unat w) (colindex data) (er_pre_w_fold data) = Inr (Some i)"
proof -
  let ?b = "buf g" and ?line = "(int_of_u64 (colindex data), er_pre_w_fold data)"
  obtain w where w: "gb_setIdx ?b (colindex data) = Inr w" "unat w < nat (setN ?b)" "int_of_u64 w = int (unat w)"
    using gb_setIdx_ok [OF assms(2)] by blast
  have l: "int_of_u64 (colindex data) \<noteq> -1" using int_of_u64_nat [OF assms(4)] by (simp del: of_nat_unat)
  obtain b' r' where f: "fill_line c a data w ?b (repl g) = Inr (b', r')" "gb_shape b'" "policy_ok c b' r'"
    "?line \<in> set (gb_lines b' (unat w))" "setN b' = setN ?b" "wq b' = wq ?b"
    using fill_line_any [OF assms(1,2) w(2,3) l assms(6) [rule_format, OF w(2)]] by blast
  obtain e q where q: "wq ?b = e # q" using assms(5) by (cases "wq ?b") auto
  let ?b2 = "b'\<lparr>w_req_table := (w_req_table b')(a \<mapsto> False)\<rparr>"
  let ?b3 = "if a = er_address e then ?b2\<lparr>axwflag := (axwflag ?b2)\<lparr>axw_can_transfer := True\<rparr>\<rparr> else ?b2"
  have eq: "GB_ReceiveLine c a g = Inr (g\<lparr>buf := ?b3, repl := r'\<rparr>)"
    using w(1) f(1,6) q assms(3) by (simp add: GB_ReceiveLine_def map_index_def q_front_def Let_def)
  have sh: "gb_shape ?b3" using f(2) by (simp add: gb_shape_def)
  have lines: "gb_lines ?b3 = gb_lines b'" by (auto simp: gb_lines_def fun_eq_iff)
  have pol: "policy_ok c ?b3 r'" using f(3) policy_ok_cong [OF lines, of c r'] by simp
  have "gb_setIdx ?b3 (colindex data) = Inr w" using w(1) f(5) by (simp add: gb_setIdx_def split: if_split_asm)
  moreover have "\<exists>i. find_line ?b3 (unat w) (colindex data) (er_pre_w_fold data) = Inr (Some i)"
    by (rule find_line_hit [OF sh _ assms(4)]) (use w(2) f(4,5) lines in auto)
  ultimately show ?thesis using eq sh pol f(6) by auto
qed

lemma policy_new_ok:
  assumes "CACHE_REPL_ALGO c \<in> {FIFO_ALGO, LRU_ALGO, RRIP_ALGO, SHiP_ALGO}"
    and "policy_new c d mov_med len (wayN g) (setN g) empty_repl = Inr r"
    and "\<And>si. si < nat (setN g) \<Longrightarrow> gb_lines g si = []"
  shows "policy_ok c g r"
  using assms FIFO_new_empty LRU_new_empty RRIP_new_wf SHiP_new_wf
  by (auto simp: policy_new_def policy_ok_def policy_agrees_def algo_defs)

lemma GlobalBuffer_new_ok:
  assumes "GlobalBuffer_new c d mov_med x0 i sz tw su empty_repl = Inr (b, r)"
    and "CACHE_REPL_ALGO c \<in> {FIFO_ALGO, LRU_ALGO, RRIP_ALGO, SHiP_ALGO}" and "0 < setN b" and "0 < wayN b"
    and "unat (CACHE_WAY_N c) < 2 ^ 31"
  shows "gb_shape b" and "policy_ok c b r"
proof -
  let ?row = "replicate (unat (CACHE_WAY_N c)) (-1 :: int)"
  have b: "setN b < 2 ^ 31" "wayN b = int (unat (CACHE_WAY_N c))" "set_util b = su @ replicate (nat (setN b)) 0"
    "cache b = replicate (nat (setN b)) ?row" "weight_blk_idx b = replicate (nat (setN b)) ?row"
    "\<exists>len. policy_new c d mov_med len (wayN b) (setN b) empty_repl = Inr r"
    using assms(1) int_of_u64_nat [OF assms(5)] int_of_u64_range
    by (auto simp: GlobalBuffer_new_def bindE_eq_Inr Let_def simp del: of_nat_unat)
  show "gb_shape b" using assms(3,4,5) b by (auto simp: gb_shape_def simp del: of_nat_unat)
  obtain len where "policy_new c d mov_med len (wayN b) (setN b) empty_repl = Inr r" using b(6) by blast
  then show "policy_ok c b r"
    by (rule policy_new_ok [OF assms(2)]) (use b(4,5) in \<open>auto simp: gb_lines_def filter_empty_conv dest: set_zip_leftD\<close>)
qed

definition demo_edge :: ERData where
  "demo_edge = zero_ERData\<lparr>rowindex := 1, colindex := 3, er_address := 64\<rparr>"

definition demo_buf :: gbuf where
  "demo_buf = \<lparr>w_fold_save = 0, gb_pre_repeat = 0, xwflag = \<lparr>w_fill_complete = False, xw_can_transfer = False\<rparr>,
     axwflag = \<lparr>axw_can_transfer = False, can_receive = True, cache_full = False, axw_q_empty = True\<rparr>,
     gb_number = 0, c_space = 0, gb_size = 128, tot_w = 8, isA = False, x_data = \<lparr>ifvalue = (0, 1), xr_is_end = False\<rparr>,
     blockN = 2, setN = 1, wayN = 2, cache = [[-1, -1]], weight_blk_idx = [[-1, -1]], wq = [],
     w_map = (\<lambda>_. None), w_req_table = (\<lambda>_. None), BF_LEN = 5, set_util = [0]\<rparr>"

definition demo_sys :: "unit gb_sys" where
  "demo_sys = \<lparr>buf = demo_buf, repl = LRU_new 2 1 empty_repl, mem = DRAMInterface_new []\<rparr>"

lemmas demo_defs = demo_edge_def demo_buf_def demo_sys_def demo_cfg_def demo_dims_def zero_ERData_def empty_repl_def

lemma demo_buf_new:
  "GlobalBuffer_new demo_cfg demo_dims 1 \<lparr>ifvalue = (0, 1), xr_is_end = False\<rparr> 0 128 8 [] empty_repl
     = Inr (demo_buf, LRU_new 2 1 empty_repl)"
proof -
  have len: "bf_len demo_cfg demo_dims = Inr 5"
    by (simp add: bf_len_def demo_cfg_def demo_dims_def fl_eval u64_of_fl_def float_p_def u64_of_int_def)
  have n: "int_of_u64 (128 div CACHE_LINE_BYTE demo_cfg) = 2" "int_of_u64 (u64_of_int 2 div CACHE_WAY_N demo_cfg) = 1"
    "int_of_u64 (CACHE_WAY_N demo_cfg) = 2" "unat (CACHE_WAY_N demo_cfg) = 2" by code_simp+
  have p: "policy_new demo_cfg demo_dims 1 5 2 1 empty_repl = Inr (LRU_new 2 1 empty_repl)"
    by (simp add: policy_new_def demo_cfg_def algo_defs)
  have ne: "CACHE_LINE_BYTE demo_cfg \<noteq> 0" "CACHE_WAY_N demo_cfg \<noteq> 0" by (simp_all add: demo_cfg_def)
  show ?thesis unfolding GlobalBuffer_new_def len n Let_def
    by (simp add: ne p demo_buf_def numeral_2_eq_2 checkE_def)
qed

lemma demo_buf_ok: "gb_shape demo_buf" "policy_ok demo_cfg demo_buf (LRU_new 2 1 empty_repl)"
  using GlobalBuffer_new_ok [OF demo_buf_new] by (simp_all add: demo_defs)

theorem received_line_is_found_witness:
  "\<exists>g' w i. GB_ReceiveLine demo_cfg 64 (demo_sys\<lparr>buf := demo_buf\<lparr>wq := [demo_edge], w_map := [64 \<mapsto> demo_edge]\<rparr>\<rparr>) = Inr g'
    \<and> gb_shape (buf g') \<and> policy_ok demo_cfg (buf g') (repl g')
    \<and> w_req_table (buf g') 64 = Some False
    \<and> wq (buf g') = wq (buf (demo_sys\<lparr>buf := demo_buf\<lparr>wq := [demo_edge], w_map := [64 \<mapsto> demo_edge]\<rparr>\<rparr>))
    \<and> mem g' = mem (demo_sys\<lparr>buf := demo_buf\<lparr>wq := [demo_edge], w_map := [64 \<mapsto> demo_edge]\<rparr>\<rparr>)
    \<and> gb_setIdx (buf g') (colindex demo_edge) = Inr w
    \<and> find_line (buf g') (unat w) (colindex demo_edge) (er_pre_w_fold demo_edge) = Inr (Some i)"
proof (rule received_line_is_found)
  let ?b = "demo_buf\<lparr>wq := [demo_edge], w_map := [64 \<mapsto> demo_edge]\<rparr>"
  have lines: "gb_lines ?b = gb_lines demo_buf" by (auto simp: gb_lines_def fun_eq_iff)
  show "gb_shape (buf (demo_sys\<lparr>buf := ?b\<rparr>))" using demo_buf_ok(1) by (simp add: gb_shape_def)
  show "policy_ok demo_cfg (buf (demo_sys\<lparr>buf := ?b\<rparr>)) (repl (demo_sys\<lparr>buf := ?b\<rparr>))"
    using demo_buf_ok(2) policy_ok_cong [OF lines, of demo_cfg "LRU_new 2 1 empty_repl"] by (simp add: demo_sys_def)
  show "\<forall>si < nat (setN (buf (demo_sys\<lparr>buf := ?b\<rparr>))).
      (int_of_u64 (colindex demo_edge), er_pre_w_fold demo_edge) \<notin> set (gb_lines (buf (demo_sys\<lparr>buf := ?b\<rparr>)) si)"
    by (auto simp: gb_lines_def demo_buf_def demo_edge_def int_of_u64_small)
qed (simp_all add: demo_edge_def)

lemma GlobalBuffer_new_idle:
  assumes "GlobalBuffer_new c d mov_med x0 i sz tw su r = Inr (b, r')"
  shows "wq b = []" "w_req_table b = (\<lambda>_. None)" "axw_q_empty (axwflag b)" "can_receive (axwflag b)"
  using assms by (auto simp: GlobalBuffer_new_def bindE_eq_Inr Let_def)

text \<open>C28: along every interleaving of the buffer's operations from the constructed buffer, a line is
  requested at most once while its request is outstanding, the outstanding lines are exactly those
  marked in \<open>w_req_table\<close>, the miss queue holds at most \<open>LIMIT_WQ_SIZE\<close> edges and the flags
  \<open>q_empty\<close> and \<open>can_receive\<close> describe it.\<close>

theorem misses_requested_once:
  assumes "GlobalBuffer_new c d mov_med x0 i sz tw su r = Inr (buf g0, repl g0)" and "gb_run c mov_med g0 out g"
  shows "distinct out \<and> set out = {a. w_req_table (buf g) a = Some True}
    \<and> (axw_q_empty (axwflag (buf g)) \<longleftrightarrow> wq (buf g) = []) \<and> length (wq (buf g)) \<le> LIMIT_WQ_SIZE
    \<and> (can_receive (axwflag (buf g)) \<longleftrightarrow> length (wq (buf g)) < LIMIT_WQ_SIZE)"
proof -
  have "mshr_inv [] (buf g0)"
    using GlobalBuffer_new_idle [OF assms(1)] by (simp add: mshr_inv_def LIMIT_WQ_SIZE_def)
  from mshr_run [OF assms(2) this] show ?thesis by (auto simp: mshr_inv_def)
qed

lemma demo_two_edges:
  "case GB_ReceiveEdge demo_cfg 1 demo_edge demo_sys of Inl _ \<Rightarrow> False | Inr g1 \<Rightarrow>
     (case GB_ReceiveEdge demo_cfg 1 demo_edge g1 of Inl _ \<Rightarrow> False | Inr g2 \<Rightarrow>
        can_receive (axwflag (buf demo_sys)) \<and> can_receive (axwflag (buf g1))
        \<and> requested demo_sys g1 = [64] \<and> requested g1 g2 = [])"
  by code_simp

theorem misses_requested_once_witness:
  "\<exists>g. gb_run demo_cfg 1 demo_sys [64] g \<and> set [64] = {a. w_req_table (buf g) a = Some True}"
proof -
  obtain g1 g2 where "GB_ReceiveEdge demo_cfg 1 demo_edge demo_sys = Inr g1" "GB_ReceiveEdge demo_cfg 1 demo_edge g1 = Inr g2"
    "can_receive (axwflag (buf demo_sys))" "can_receive (axwflag (buf g1))" "requested demo_sys g1 = [64]" "requested g1 g2 = []"
    using demo_two_edges by (auto split: sum.splits)
  then have run: "gb_run demo_cfg 1 demo_sys [64] g2"
    using gb_edge [OF gb_edge [OF gb_start [of demo_cfg 1 demo_sys]]] by (metis append.left_neutral append.right_neutral)
  have "GlobalBuffer_new demo_cfg demo_dims 1 \<lparr>ifvalue = (0, 1), xr_is_end = False\<rparr> 0 128 8 [] empty_repl
     = Inr (buf demo_sys, repl demo_sys)" using demo_buf_new by (simp add: demo_sys_def)
  from misses_requested_once [OF this run] run show ?thesis by blast
qed

end
