(* ===== verification/Data_Controller.thy ===== *)
theory Data_Controller
  imports Common_Types
begin

text \<open>
  \<open>DataController.cpp\<close>: hands the CSR arrays of the adjacency matrix to the readers one cache
  line at a time.  The rows are processed in blocks (\<open>max_v\<close> rows each); the queues
  \<open>vertex_req_count_cnt\<close> and \<open>edge_req_count_cnt\<close> hold the number of entries of each block, and
  a line never crosses a block boundary.  The lemmas show that \<open>ceil(n / line)\<close> calls deliver
  exactly the $n$ entries of a block, in order, and leave the controller at the next block.
\<close>

record dctrl =
  dc_id :: int
  dc_flag :: DCFlag
  adjrowindex :: "u64 list"
  adjrowindex_archive :: "u64 list"
  adjcolindex :: "u64 list"
  adjcolindex_archive :: "u64 list"

definition DataController_new :: "int \<Rightarrow> u64 list \<Rightarrow> u64 list \<Rightarrow> dctrl" where
  "DataController_new i rows cols =
     \<lparr>dc_id = i, dc_flag = \<lparr>x_over = False, a_row_over = False, a_col_over = False\<rparr>,
      adjrowindex = rows, adjrowindex_archive = rows, adjcolindex = cols, adjcolindex_archive = cols\<rparr>"

text \<open>An address of another region makes the function flow off its end.\<close>

definition ReturnDataType :: "ini_config \<Rightarrow> u64 \<Rightarrow> Type result" where
  "ReturnDataType c address =
     (if address \<ge> X_START c \<and> address < A_ROW_START c then Inr X
      else if address \<ge> A_ROW_START c \<and> address < A_COL_START c then Inr A_ROW
      else if address \<ge> A_COL_START c \<and> address < WEIGHT_START c then Inr A_COL
      else Inl UB_NoReturn)"

definition XDataReturn :: "fl list" where
  "XDataReturn = []"

text \<open>\<open>for (i < count) \<lbrace> ret.push(q.front()); q.pop(); \<rbrace>\<close>\<close>

definition take_q :: "int \<Rightarrow> 'a list \<Rightarrow> ('a list \<times> 'a list) result" where
  "take_q n q = (if nat n \<le> length q then Inr (take (nat n) q, drop (nat n) q) else Inl UB_Front)"

text \<open>The counting both functions share: how many entries this line holds, and the remaining
  limit and block queue.\<close>

definition line_count :: "ini_config \<Rightarrow> u64 \<Rightarrow> u64 list \<Rightarrow> (int \<times> u64 \<times> u64 list) result" where
  "line_count c limit blocks =
     bindE (q_front blocks) (\<lambda>n.
     if limit + CACHE_LINE_COUNT c \<ge> n
     then bindE (q_pop blocks) (\<lambda>rest. Inr (int_of_u64 (n - limit), 0, rest))
     else Inr (int_of_u64 (CACHE_LINE_COUNT c), limit + CACHE_LINE_COUNT c, blocks))"

definition AdjRowDataReturn :: "ini_config \<Rightarrow> dctrl \<Rightarrow> globals \<Rightarrow> (u64 list \<times> dctrl \<times> globals) result" where
  "AdjRowDataReturn c d g =
     bindE (line_count c (v_limit g) (vertex_req_count_cnt g)) (\<lambda>(count, lm, blocks).
     bindE (take_q count (adjrowindex d)) (\<lambda>(ret, rest).
     Inr (ret, d\<lparr>adjrowindex := rest\<rparr>, g\<lparr>v_limit := lm, vertex_req_count_cnt := blocks\<rparr>)))"

definition AdjColDataReturn :: "ini_config \<Rightarrow> dctrl \<Rightarrow> globals \<Rightarrow> (u64 list \<times> dctrl \<times> globals) result" where
  "AdjColDataReturn c d g =
     bindE (line_count c (e_limit g) (edge_req_count_cnt g)) (\<lambda>(count, lm, blocks).
     bindE (take_q count (adjcolindex d)) (\<lambda>(ret, rest).
     Inr (ret, d\<lparr>adjcolindex := rest\<rparr>, g\<lparr>e_limit := lm, edge_req_count_cnt := blocks\<rparr>)))"

definition NeedRefill :: "Type \<Rightarrow> dctrl \<Rightarrow> bool result" where
  "NeedRefill t d = (case t of A_ROW \<Rightarrow> Inr (adjrowindex d = []) | A_COL \<Rightarrow> Inr (adjcolindex d = [])
     | X \<Rightarrow> Inl UB_NoReturn)"

definition RefillQueue :: "Type \<Rightarrow> dctrl \<Rightarrow> dctrl" where
  "RefillQueue t d = (case t of A_ROW \<Rightarrow> d\<lparr>adjrowindex := adjrowindex_archive d\<rparr>
     | A_COL \<Rightarrow> d\<lparr>adjcolindex := adjcolindex_archive d\<rparr> | X \<Rightarrow> d)"

section \<open>Line by line delivery of a block\<close>

text \<open>The sequence of lines: one queue of entries, one limit, one queue of block sizes.\<close>

fun deliver :: "ini_config \<Rightarrow> nat \<Rightarrow> u64 \<Rightarrow> u64 list \<Rightarrow> 'a list \<Rightarrow> ('a list list \<times> u64 \<times> u64 list \<times> 'a list) result" where
  "deliver c 0 lm blocks q = Inr ([], lm, blocks, q)"
| "deliver c (Suc k) lm blocks q =
     bindE (line_count c lm blocks) (\<lambda>(count, lm1, blocks1).
     bindE (take_q count q) (\<lambda>(ret, q1).
     bindE (deliver c k lm1 blocks1 q1) (\<lambda>(rets, lm2, blocks2, q2).
     Inr (ret # rets, lm2, blocks2, q2))))"

text \<open>Repeated calls of the two functions are \<open>deliver\<close> on their own fields.\<close>

fun row_lines :: "ini_config \<Rightarrow> nat \<Rightarrow> dctrl \<Rightarrow> globals \<Rightarrow> (u64 list list \<times> dctrl \<times> globals) result" where
  "row_lines c 0 d g = Inr ([], d, g)"
| "row_lines c (Suc k) d g =
     bindE (AdjRowDataReturn c d g) (\<lambda>(ret, d1, g1).
     bindE (row_lines c k d1 g1) (\<lambda>(rets, d2, g2). Inr (ret # rets, d2, g2)))"

fun col_lines :: "ini_config \<Rightarrow> nat \<Rightarrow> dctrl \<Rightarrow> globals \<Rightarrow> (u64 list list \<times> dctrl \<times> globals) result" where
  "col_lines c 0 d g = Inr ([], d, g)"
| "col_lines c (Suc k) d g =
     bindE (AdjColDataReturn c d g) (\<lambda>(ret, d1, g1).
     bindE (col_lines c k d1 g1) (\<lambda>(rets, d2, g2). Inr (ret # rets, d2, g2)))"

lemma row_lines_deliver:
  "deliver c k (v_limit g) (vertex_req_count_cnt g) (adjrowindex d) = Inr (rets, lm, blocks, q) \<Longrightarrow>
   row_lines c k d g = Inr (rets, d\<lparr>adjrowindex := q\<rparr>, g\<lparr>v_limit := lm, vertex_req_count_cnt := blocks\<rparr>)"
  by (induction k arbitrary: d g rets)
    (fastforce simp: AdjRowDataReturn_def bindE_eq_Inr split: prod.splits)+

lemma col_lines_deliver:
  "deliver c k (e_limit g) (edge_req_count_cnt g) (adjcolindex d) = Inr (rets, lm, blocks, q) \<Longrightarrow>
   col_lines c k d g = Inr (rets, d\<lparr>adjcolindex := q\<rparr>, g\<lparr>e_limit := lm, edge_req_count_cnt := blocks\<rparr>)"
  by (induction k arbitrary: d g rets)
    (fastforce simp: AdjColDataReturn_def bindE_eq_Inr split: prod.splits)+

text \<open>The lines still needed when \<open>lm\<close> entries of a block of \<open>n\<close> are out.\<close>

lemma deliver_block:
  assumes "0 < unat (CACHE_LINE_COUNT c)" and "unat (CACHE_LINE_COUNT c) < 2 ^ 31" and "unat n < 2 ^ 31"
    and "unat lm < unat n" and "length q \<ge> unat n - unat lm"
    and "k = ceil_div (unat n - unat lm) (unat (CACHE_LINE_COUNT c))"
  shows "\<exists>rets. deliver c k lm (n # blocks) q = Inr (rets, 0, blocks, drop (unat n - unat lm) q)
    \<and> concat rets = take (unat n - unat lm) q \<and> length rets = k
    \<and> (\<forall>r \<in> set rets. 0 < length r \<and> length r \<le> unat (CACHE_LINE_COUNT c))"
  using assms(4-6)
proof (induction k arbitrary: lm q)
  case 0
  then show ?case using assms(1) by (auto simp: ceil_div_def div_eq_0_iff)
next
  case (Suc k)
  let ?L = "unat (CACHE_LINE_COUNT c)"
  have sumu: "unat (lm + CACHE_LINE_COUNT c) = unat lm + ?L"
    using Suc.prems(1) assms(2,3) unat_add_lem [of lm "CACHE_LINE_COUNT c"] by simp
  have subu: "unat (n - lm) = unat n - unat lm"
    using Suc.prems(1) by (simp add: unat_sub word_le_nat_alt)
  show ?case
  proof (cases "unat n \<le> unat lm + ?L")
    case True
    then have lc: "line_count c lm (n # blocks) = Inr (int (unat n - unat lm), 0, blocks)"
      using sumu subu assms(3) int_of_u64_nat [of "n - lm"]
      by (simp add: line_count_def word_le_nat_alt)
    have "ceil_div (unat n - unat lm) ?L = 1"
      using True Suc.prems(1) assms(1) by (auto simp: ceil_div_def intro!: div_nat_eqI)
    then have "k = 0" using Suc.prems(3) by simp
    moreover have "take_q (int (unat n - unat lm)) q = Inr (take (unat n - unat lm) q, drop (unat n - unat lm) q)"
      using Suc.prems(2) by (simp only: take_q_def nat_int if_True)
    ultimately show ?thesis using lc Suc.prems(1,2) True by (auto simp del: of_nat_diff)
  next
    case False
    then have lc: "line_count c lm (n # blocks) = Inr (int ?L, lm + CACHE_LINE_COUNT c, n # blocks)"
      using sumu int_of_u64_nat [OF assms(2)] by (simp add: line_count_def word_le_nat_alt)
    let ?m = "unat n - unat lm"
    have m: "?m = ?L + (?m - ?L)" "0 < ?m - ?L" using False by simp_all
    have "ceil_div ?m ?L = Suc (ceil_div (?m - ?L) ?L)"
    proof -
      have "?m + ?L - 1 = (?m - ?L + ?L - 1) + ?L" using m by simp
      then have "(?m + ?L - 1) div ?L = (?m - ?L + ?L - 1) div ?L + 1"
        using assms(1) by (simp only: div_add_self2 neq0_conv)
      then show ?thesis by (simp only: ceil_div_def Suc_eq_plus1)
    qed
    then have k: "k = ceil_div (unat n - unat (lm + CACHE_LINE_COUNT c)) ?L"
      using Suc.prems(3) by (simp add: sumu)
    have lt: "unat (lm + CACHE_LINE_COUNT c) < unat n" using False by (simp add: sumu)
    have lq: "length (drop ?L q) \<ge> unat n - unat (lm + CACHE_LINE_COUNT c)"
      using Suc.prems(2) by (simp add: sumu)
    from Suc.IH [OF lt lq k] obtain rets where ih: "deliver c k (lm + CACHE_LINE_COUNT c) (n # blocks) (drop ?L q)
        = Inr (rets, 0, blocks, drop (?m - ?L) (drop ?L q))"
      "concat rets = take (?m - ?L) (drop ?L q)" "length rets = k"
      "\<forall>r \<in> set rets. 0 < length r \<and> length r \<le> ?L"
      by (auto simp: sumu)
    have Lq: "?L \<le> length q" using Suc.prems(2) False by simp
    have "take ?L q @ take (?m - ?L) (drop ?L q) = take ?m q"
      using m(1) by (metis take_add)
    then show ?thesis
      using lc ih Lq assms(1) m(2) by (auto simp: take_q_def)
  qed
qed

end
