(* ===== verification/Data_Reader.thy ===== *)
theory Data_Reader
  imports Data_Controller
begin

text \<open>
  \<open>DataReader.cpp\<close>: reads the matrix dimensions and the CSR arrays from two text files, and cuts
  the rows into blocks of \<open>max_v\<close>: \<open>edge_req_count\<close> gets the number of edges of each block and
  \<open>vertex_req_count\<close> the number of row pointers.  A file is its list of lines (\<open>None\<close> when it
  cannot be opened).  \<open>stoull\<close>, \<open>stoi\<close> and \<open>stof\<close> are modelled on decimal numerals (\<open>stof\<close> on
  plain integers, which is all the first CSR token can be).  The lemmas show that the blocks
  partition both arrays, so that the line by line delivery of \<open>Data_Controller\<close> ends exactly with
  the last entry.
\<close>

section \<open>Numerals and tokens\<close>

definition is_space_char :: "char \<Rightarrow> bool" where
  "is_space_char ch \<longleftrightarrow> ch = CHR '' '' \<or> ((9 :: nat) \<le> of_char ch \<and> of_char ch \<le> (13 :: nat))"

definition is_digit :: "char \<Rightarrow> bool" where
  "is_digit ch \<longleftrightarrow> 48 \<le> (of_char ch :: nat) \<and> (of_char ch :: nat) \<le> 57"

definition digits_val :: "string \<Rightarrow> nat" where
  "digits_val ds = foldl (\<lambda>n ch. 10 * n + (of_char ch - 48)) 0 ds"

text \<open>Leading white space, an optional sign, digits; what follows the digits is ignored.\<close>

definition split_sign :: "string \<Rightarrow> bool \<times> string" where
  "split_sign s = (case dropWhile is_space_char s of
       [] \<Rightarrow> (False, [])
     | ch # cs \<Rightarrow> if ch = CHR ''-'' then (True, cs) else if ch = CHR ''+'' then (False, cs) else (False, ch # cs))"

definition parse_dec :: "string \<Rightarrow> int result" where
  "parse_dec s = (let (neg, r) = split_sign s; ds = takeWhile is_digit r in
     if ds = [] then Inl Invalid_Argument
     else Inr (if neg then - int (digits_val ds) else int (digits_val ds)))"

definition stoull :: "string \<Rightarrow> u64 result" where
  "stoull s = bindE (parse_dec s) (\<lambda>i. if \<bar>i\<bar> < 2 ^ 64 then Inr (word_of_int i) else Inl Out_Of_Range)"

definition stoi :: "string \<Rightarrow> int result" where
  "stoi s = bindE (parse_dec s) (\<lambda>i. if - (2 ^ 31) \<le> i \<and> i < 2 ^ 31 then Inr i else Inl Out_Of_Range)"

text \<open>\<open>internal.push(stof(temp))\<close>: the token becomes a \<open>float\<close> and then an index.\<close>

definition stof_u64 :: "string \<Rightarrow> u64 result" where
  "stof_u64 s = bindE (parse_dec s) (\<lambda>i. u64_of_fl (fl_round float_p (i, 1)))"

text \<open>\<open>getline\<close> with a delimiter: a delimiter at the very end does not start another token.\<close>

fun tokens_from :: "char \<Rightarrow> string \<Rightarrow> string \<Rightarrow> string list" where
  "tokens_from dl acc [] = (if acc = [] then [] else [acc])"
| "tokens_from dl acc (ch # cs) = (if ch = dl then acc # tokens_from dl [] cs else tokens_from dl (acc @ [ch]) cs)"

definition tokens :: "char \<Rightarrow> string \<Rightarrow> string list" where
  "tokens dl s = tokens_from dl [] s"

section \<open>Reading\<close>

text \<open>The block counting of \<open>GetUint64Val\<close>, once the tokens are numbers.\<close>

fun block_scan :: "u64 \<Rightarrow> u64 \<Rightarrow> u64 \<Rightarrow> u64 \<Rightarrow> u64 \<Rightarrow> u64 list \<Rightarrow> (u64 list \<times> u64 list) result" where
  "block_scan ah mv parse_count v_count start_v [] = Inr ([], [])"
| "block_scan ah mv parse_count v_count start_v (x # xs) =
     bindE (u_rem (parse_count + 1) mv) (\<lambda>r.
     if r = 0 \<or> parse_count + 1 = ah then
       bindE (block_scan ah mv (parse_count + 1) 0 x xs) (\<lambda>(es, vs). Inr ((x - start_v) # es, (v_count + 1) # vs))
     else block_scan ah mv (parse_count + 1) (v_count + 1) start_v xs)"

definition GetUint64Val :: "dims \<Rightarrow> bool \<Rightarrow> string \<Rightarrow> globals \<Rightarrow> (u64 list \<times> globals) result" where
  "GetUint64Val d is_vertex line g =
     (case tokens (CHR '' '') line of
        [] \<Rightarrow> Inl Invalid_Argument
      | t # ts \<Rightarrow>
          bindE (stof_u64 t) (\<lambda>first.
          bindE (mapE stoull ts) (\<lambda>rest.
          if is_vertex then
            bindE (block_scan (a_h d) (max_v g) 0 1 0 rest) (\<lambda>(es, vs).
            Inr (first # rest, g\<lparr>edge_req_count := edge_req_count g @ es, vertex_req_count := vertex_req_count g @ vs\<rparr>))
          else Inr (first # rest, g))))"

text \<open>\<open>GetFloatVal\<close> is never called by the program; it is the same tokenisation with \<open>stof\<close>.\<close>

definition GetFloatVal :: "string \<Rightarrow> fl list result" where
  "GetFloatVal line = mapE (\<lambda>t. bindE (parse_dec t) (\<lambda>i. Inr (fl_round float_p (i, 1)))) (tokens (CHR '' '') line)"

definition nth_line :: "string list \<Rightarrow> nat \<Rightarrow> string" where
  "nth_line ls i = (if i < length ls then ls ! i else [])"

definition ReadDims :: "string list \<Rightarrow> dims result" where
  "ReadDims ls =
     bindE (stoi (nth_line ls 0)) (\<lambda>wh.
     bindE (stoi (nth_line ls 1)) (\<lambda>ww.
     bindE (stoi (nth_line ls 2)) (\<lambda>xh.
     Inr \<lparr>w_h = u64_of_int wh, w_w = u64_of_int ww, x_h = u64_of_int xh, x_w = u64_of_int wh,
          a_w = u64_of_int xh, a_h = u64_of_int xh\<rparr>)))"

text \<open>\<open>tot_axw_count = ceil((double)a_h / CACHE_LINE_COUNT) * w_w * edge_req_count.size()\<close>, computed in
  \<open>double\<close> and converted back.\<close>

definition axw_total :: "ini_config \<Rightarrow> dims \<Rightarrow> nat \<Rightarrow> u64 result" where
  "axw_total c d nblocks =
     bindE (ceil_div_fl double_p (a_h d) (CACHE_LINE_COUNT c)) (\<lambda>lines.
     u64_of_fl (fl_mul double_p (fl_mul double_p (lines, 1) (fl_of_u64 double_p (w_w d))) (fl_of_nat double_p nblocks)))"

definition ReadData ::
  "ini_config \<Rightarrow> string list option \<Rightarrow> string list option \<Rightarrow> globals
    \<Rightarrow> (dims \<times> u64 list \<times> u64 list \<times> u64 \<times> globals) result" where
  "ReadData c file1 file2 g =
     (case file1 of None \<Rightarrow> Inl Invalid_Argument | Some ls1 \<Rightarrow>
      bindE (ReadDims ls1) (\<lambda>d.
      case file2 of None \<Rightarrow> Inl Invalid_Argument | Some ls2 \<Rightarrow>
      bindE (GetUint64Val d True (nth_line ls2 0) g) (\<lambda>(rows, g1).
      let g2 = g1\<lparr>edge_req_count_cnt := edge_req_count g1, vertex_req_count_cnt := vertex_req_count g1\<rparr> in
      bindE (GetUint64Val d False (nth_line ls2 1) g2) (\<lambda>(cols, g3).
      bindE (axw_total c d (length (edge_req_count g3))) (\<lambda>tot.
      Inr (d, rows, cols, tot, g3))))))"

section \<open>The blocks partition the arrays\<close>

definition scan_ok :: "u64 \<Rightarrow> u64 \<Rightarrow> u64 \<Rightarrow> u64 list \<Rightarrow> bool" where
  "scan_ok ah mv pc xs \<longleftrightarrow> mv \<noteq> 0 \<and> unat pc + length xs = unat ah"

lemma u64_suc: "unat (w :: u64) + 1 \<le> unat (v :: u64) \<Longrightarrow> unat (w + 1) = unat w + 1"
  using unat_add_lem [of w 1] unsigned_less [of v, where 'a = nat] by simp

lemma block_scan_total:
  assumes "scan_ok ah mv pc xs" and "xs \<noteq> []" and "unat vc + length xs < 2 ^ 64"
  shows "\<exists>es vs. block_scan ah mv pc vc st xs = Inr (es, vs) \<and> length es = length vs \<and> es \<noteq> []
    \<and> sum_list (map unat vs) = unat vc + length xs \<and> sum_list es = last xs - st"
  using assms
proof (induction xs arbitrary: pc vc st)
  case (Cons x xs)
  have pc: "unat (pc + 1) = unat pc + 1" using Cons.prems(1) by (intro u64_suc [of _ ah]) (simp add: scan_ok_def)
  have vc: "unat (vc + 1) = unat vc + 1" using Cons.prems(3) unat_add_lem [of vc 1] by simp
  have ok: "scan_ok ah mv (pc + 1) xs" using Cons.prems(1) pc by (simp add: scan_ok_def)
  have mv: "mv \<noteq> 0" using Cons.prems(1) by (simp add: scan_ok_def)
  let ?hit = "(pc + 1) mod mv = 0 \<or> pc + 1 = ah"
  show ?case
  proof (cases "xs = []")
    case True
    then have "pc + 1 = ah" using Cons.prems(1) pc by (simp add: scan_ok_def word_unat_eq_iff)
    then show ?thesis using True mv vc by (simp add: u_rem_def)
  next
    case False
    show ?thesis
    proof (cases ?hit)
      case True
      have "unat (0 :: u64) + length xs < 2 ^ 64" using Cons.prems(3) by simp
      from Cons.IH [OF ok False this, of x] obtain es vs where
        "block_scan ah mv (pc + 1) 0 x xs = Inr (es, vs)" "length es = length vs"
        "sum_list (map unat vs) = length xs" "sum_list es = last xs - x" by auto
      then show ?thesis using True mv vc False by (auto simp: u_rem_def)
    next
      case nh: False
      have "unat (vc + 1) + length xs < 2 ^ 64" using Cons.prems(3) vc by simp
      from Cons.IH [OF ok False this, of st] show ?thesis using nh mv vc False by (auto simp: u_rem_def)
    qed
  qed
qed simp

text \<open>With non-decreasing row pointers the edge counts add up without wrapping.\<close>

lemma block_scan_edges:
  assumes "scan_ok ah mv pc xs" and "xs \<noteq> []" and "sorted (map unat (st # xs))"
    and "block_scan ah mv pc vc st xs = Inr (es, vs)"
  shows "sum_list (map unat es) = unat (last xs) - unat st"
  using assms
proof (induction xs arbitrary: pc vc st es vs)
  case (Cons x xs)
  have pc: "unat (pc + 1) = unat pc + 1" using Cons.prems(1) by (intro u64_suc [of _ ah]) (simp add: scan_ok_def)
  have ok: "scan_ok ah mv (pc + 1) xs" using Cons.prems(1) pc by (simp add: scan_ok_def)
  have mv: "mv \<noteq> 0" using Cons.prems(1) by (simp add: scan_ok_def)
  have xst: "unat (x - st) = unat x - unat st" using Cons.prems(3) by (simp add: unat_sub word_le_nat_alt)
  have le: "unat st \<le> unat x" "xs \<noteq> [] \<Longrightarrow> unat x \<le> unat (last xs)" using Cons.prems(3) by auto
  have s1: "sorted (map unat (x # xs))" and s2: "sorted (map unat (st # xs))" using Cons.prems(3) by auto
  show ?case
  proof (cases "(pc + 1) mod mv = 0 \<or> pc + 1 = ah")
    case True
    with Cons.prems(4) mv obtain es' vs' where e: "block_scan ah mv (pc + 1) 0 x xs = Inr (es', vs')" "es = (x - st) # es'"
      by (auto simp: u_rem_def bindE_eq_Inr)
    show ?thesis
    proof (cases "xs = []")
      case True
      then show ?thesis using e xst by simp
    next
      case False
      from Cons.IH [OF ok False s1 e(1)] show ?thesis using e(2) xst le False by simp
    qed
  next
    case False
    then have ne: "xs \<noteq> []" using Cons.prems(1) pc by (auto simp: scan_ok_def word_unat_eq_iff)
    have "block_scan ah mv (pc + 1) (vc + 1) st xs = Inr (es, vs)" using False Cons.prems(4) mv by (auto simp: u_rem_def)
    from Cons.IH [OF ok ne s2 this] show ?thesis using ne by simp
  qed
qed simp

section \<open>Delivering all blocks\<close>

text \<open>Delivery of a list of non-empty blocks, line by line, returns the whole array.\<close>

lemma deliver_append:
  "deliver c (k + l) lm blocks q =
     bindE (deliver c k lm blocks q) (\<lambda>(r1, lm1, b1, q1).
     bindE (deliver c l lm1 b1 q1) (\<lambda>(r2, lm2, b2, q2). Inr (r1 @ r2, lm2, b2, q2)))"
proof (induction k arbitrary: lm blocks q)
  case 0
  show ?case by (cases "deliver c l lm blocks q") auto
next
  case (Suc k)
  show ?case
    by (cases "line_count c lm blocks") (auto simp: Suc bindE_assoc split_def)
qed

lemma deliver_all:
  assumes "0 < unat (CACHE_LINE_COUNT c)" and "unat (CACHE_LINE_COUNT c) < 2 ^ 31"
    and "\<forall>n \<in> set blocks. 0 < unat n \<and> unat n < 2 ^ 31" and "length q = sum_list (map unat blocks)"
  shows "\<exists>rets. deliver c (sum_list (map (\<lambda>n. ceil_div (unat n) (unat (CACHE_LINE_COUNT c))) blocks)) 0 blocks q
      = Inr (rets, 0, [], []) \<and> concat rets = q"
  using assms(3,4)
proof (induction blocks arbitrary: q)
  case Nil
  then show ?case by simp
next
  case (Cons n blocks)
  let ?k = "ceil_div (unat n) (unat (CACHE_LINE_COUNT c))"
  have "\<exists>rets. deliver c ?k 0 (n # blocks) q = Inr (rets, 0, blocks, drop (unat n) q) \<and> concat rets = take (unat n) q"
    using deliver_block [OF assms(1,2), of n 0 q ?k blocks] Cons.prems by auto
  then obtain r1 where r1: "deliver c ?k 0 (n # blocks) q = Inr (r1, 0, blocks, drop (unat n) q)" "concat r1 = take (unat n) q"
    by blast
  from Cons.IH [of "drop (unat n) q"] Cons.prems obtain r2 where
    r2: "deliver c (sum_list (map (\<lambda>n. ceil_div (unat n) (unat (CACHE_LINE_COUNT c))) blocks)) 0 blocks (drop (unat n) q)
      = Inr (r2, 0, [], [])" "concat r2 = drop (unat n) q" by auto
  show ?case using r1 r2 by (simp add: deliver_append)
qed

end
