(* ===== verification/Distributer.thy ===== *)
theory Distributer
  imports Data_Reader
begin

text \<open>
  \<open>Distributer.cpp\<close>: splits the CSR arrays over the accelerator units and gives every unit its
  own address range ($2^{52}$ bytes apart).  \<open>a_row_info\<close> and \<open>axw_count\<close> are fresh memory that
  division type 0 fills only for unit 0, so their initial contents are arguments.  Division type
  1 deals whole rows to the units until each holds its share of the edges; the lemmas show that
  the columns and the row degrees handed out are those of the input, in order, and that nothing
  is left over when the array is a consistent CSR array.
\<close>

unbundle bit_operations_syntax

record distr =
  dt_adjcol :: "u64 list list"
  dt_adjrow :: "u64 list list"
  a_col_offset :: "u64 list"
  a_row_offset :: "u64 list"
  axw_offset :: "u64 list"
  a_row_info :: "RowInfo list"
  dt_axw_count :: "u64 list"

definition UNIT_SPAN :: u64 where "UNIT_SPAN = 0x0010000000000000"

definition unit_offsets :: "nat \<Rightarrow> u64 list" where
  "unit_offsets n = map (\<lambda>i. UNIT_SPAN * of_nat i) [0 ..< n]"

section \<open>Dealing rows to one unit\<close>

text \<open>The \<open>while (true)\<close> loop for one unit: \<open>ar\<close> and \<open>ac\<close> are the unit's queues, \<open>rs\<close> and \<open>cs\<close> what
  is left of the input, \<open>base\<close> is the variable \<open>last\<close>.  Each round takes a row pointer, so the
  loop ends; running out of row pointers is a \<open>front\<close> on an empty queue.\<close>

fun deal_unit ::
  "u64 \<Rightarrow> u64 \<Rightarrow> u64 list \<Rightarrow> u64 list \<Rightarrow> int \<Rightarrow> u64 list \<Rightarrow> u64 list
    \<Rightarrow> (u64 list \<times> u64 list \<times> int \<times> u64 \<times> u64 list \<times> u64 list) result" where
  "deal_unit unit_edge base ar ac row [] cs = Inl UB_Front"
| "deal_unit unit_edge base ar ac row (r # rs) cs =
     (let before = int_of_u64 (last ar);
          cur = r - base;
          col_size = int_of_u64 (cur - u64_of_int before) in
      bindE (take_q col_size cs) (\<lambda>(xs, cs1).
      if cs1 = [] then Inr (ar @ [cur] @ map (\<lambda>x. x - base) rs, ac @ xs, row + 1, base, [], [])
      else if cur \<ge> unit_edge then Inr (ar @ [cur], ac @ xs, row + 1, base + cur, rs, cs1)
      else deal_unit unit_edge base (ar @ [cur]) (ac @ xs) (row + 1) rs cs1))"

text \<open>The loop over the units; \<open>row_end\<close> of the last one is fixed up afterwards.\<close>

fun deal_units ::
  "nat \<Rightarrow> u64 \<Rightarrow> u64 \<Rightarrow> int \<Rightarrow> u64 list \<Rightarrow> u64 list
    \<Rightarrow> ((u64 list \<times> u64 list \<times> RowInfo) list \<times> u64 list \<times> u64 list) result" where
  "deal_units 0 unit_edge base row rs cs = Inr ([], rs, cs)"
| "deal_units (Suc n) unit_edge base row rs cs =
     bindE (deal_unit unit_edge base [0] [] row rs cs) (\<lambda>(ar, ac, row1, base1, rs1, cs1).
     bindE (deal_units n unit_edge base1 row1 rs1 cs1) (\<lambda>(us, rs2, cs2).
     Inr ((ar, ac, \<lparr>row_start = u64_of_int row, row_end = u64_of_int (row1 - 1)\<rparr>) # us, rs2, cs2)))"

section \<open>The whole division\<close>

definition Distribute :: "ini_config \<Rightarrow> dims \<Rightarrow> u64 list \<Rightarrow> u64 list \<Rightarrow> distr \<Rightarrow> distr result" where
  "Distribute c d rows cols s =
     bindE (ceil_div_int float_p (x_h d) (tot_acc c)) (\<lambda>sz.
     if DIVISION_TYPE c = 0 then
       bindE (vec_set (dt_adjrow s) 0 rows) (\<lambda>ars.
       bindE (vec_set (dt_adjcol s) 0 cols) (\<lambda>acs.
       bindE (vec_set (a_row_info s) 0 \<lparr>row_start = 0, row_end = x_h d\<rparr>) (\<lambda>infos.
       bindE (vec_set (dt_axw_count s) 0 (x_h d)) (\<lambda>cnts.
       Inr (s\<lparr>dt_adjrow := ars, dt_adjcol := acs, a_row_info := infos, dt_axw_count := cnts\<rparr>)))))
     else if DIVISION_TYPE c = 1 then
       bindE (ceil_div_fl float_p (of_nat (length cols)) (tot_acc c)) (\<lambda>ue.
       bindE (u64_of_fl (ue, 1)) (\<lambda>unit_edge.
       bindE (q_pop rows) (\<lambda>rs.
       bindE (deal_units (unat (tot_acc c)) unit_edge 0 0 rs cols) (\<lambda>(us, rs1, cs1).
       let infos = map (\<lambda>u. snd (snd u)) us; n = length us - 1 in
       bindE (vec_get infos n) (\<lambda>lst.
       Inr (s\<lparr>dt_adjrow := map fst us, dt_adjcol := map (\<lambda>u. fst (snd u)) us,
              a_row_info := infos[n := lst\<lparr>row_end := x_h d - 1\<rparr>],
              dt_axw_count := map (\<lambda>u. of_nat (length (fst u)) - 1) us\<rparr>))))))
     else Inr s)"

text \<open>The constructor also sets \<open>w_fold = w_w\<close>, and \<open>Distribute\<close> empties the reader's arrays.\<close>

definition Distributer_new ::
  "ini_config \<Rightarrow> dims \<Rightarrow> RowInfo list \<Rightarrow> u64 list \<Rightarrow> u64 list \<Rightarrow> u64 list \<Rightarrow> globals \<Rightarrow> (distr \<times> globals) result" where
  "Distributer_new c d fresh_info fresh_count rows cols g =
     (let n = unat (tot_acc c);
          s = \<lparr>dt_adjcol = replicate n [], dt_adjrow = replicate n [], a_col_offset = unit_offsets n,
               a_row_offset = unit_offsets n, axw_offset = unit_offsets n, a_row_info = take n fresh_info,
               dt_axw_count = take n fresh_count\<rparr> in
      bindE (ceil_div_int float_p (x_h d) (tot_acc c)) (\<lambda>cnt.
      bindE (Distribute c d rows cols s) (\<lambda>s1. Inr (s1, g\<lparr>w_fold := w_w d\<rparr>))))"

definition Distributer_ReturnID :: "u64 \<Rightarrow> int" where
  "Distributer_ReturnID address = int_of_u64 ((address AND 0x00ffffffffffffff) div UNIT_SPAN)"

section \<open>Unit numbers in addresses\<close>

text \<open>An address inside unit \<open>i\<close>'s range names that unit, for the 16 units the mask leaves room for.\<close>

lemma ReturnID_unit:
  assumes "i < 16" and "a < UNIT_SPAN"
  shows "Distributer_ReturnID (UNIT_SPAN * of_nat i + a) = int i"
proof -
  have a: "unat a < 2 ^ 52" using assms(2) by (simp add: UNIT_SPAN_def word_less_nat_alt)
  have i: "unat (of_nat i :: u64) = i" using assms(1) unat_u64_of_int [of i] by (simp add: u64_of_int_def)
  have m: "unat (UNIT_SPAN * of_nat i) = 2 ^ 52 * i"
    using assms(1) unat_mult_lem [of UNIT_SPAN "of_nat i"] i by (simp add: UNIT_SPAN_def)
  have s: "unat (UNIT_SPAN * of_nat i + a) = 2 ^ 52 * i + unat a"
    using m a assms(1) unat_add_lem [of "UNIT_SPAN * of_nat i" a] by simp
  have "unat ((UNIT_SPAN * of_nat i + a) AND 0x00ffffffffffffff) = take_bit 56 (unat (UNIT_SPAN * of_nat i + a))"
  proof -
    have "(0x00ffffffffffffff :: u64) = mask 56" by (simp add: mask_eq_exp_minus_1)
    then show ?thesis by (simp only: unsigned_take_bit_eq flip: take_bit_eq_mask)
  qed
  also have "\<dots> = 2 ^ 52 * i + unat a" using s a assms(1) by (simp add: take_bit_nat_eq_self)
  finally have "unat (((UNIT_SPAN * of_nat i + a) AND 0x00ffffffffffffff) div UNIT_SPAN) = (2 ^ 52 * i + unat a) div 2 ^ 52"
    by (simp add: unat_div UNIT_SPAN_def)
  also have "\<dots> = i" using a by simp
  finally have "unat (((UNIT_SPAN * of_nat i + a) AND 0x00ffffffffffffff) div UNIT_SPAN) = i" .
  then show ?thesis using assms(1) int_of_u64_nat by (simp add: Distributer_ReturnID_def del: of_nat_unat)
qed

section \<open>The division is a partition\<close>

definition degrees :: "u64 list \<Rightarrow> u64 list" where
  "degrees xs = map2 (\<lambda>y x. y - x) (tl xs) xs"

lemma degrees_Cons2 [simp]: "degrees (x # y # zs) = (y - x) # degrees (y # zs)"
  by (simp add: degrees_def)

lemma degrees_single [simp]: "degrees [x] = []" "degrees [] = []"
  by (simp_all add: degrees_def)

lemma degrees_snoc: "xs \<noteq> [] \<Longrightarrow> degrees (xs @ [y]) = degrees xs @ [y - last xs]"
proof (induction xs)
  case (Cons x xs)
  then show ?case by (cases xs) auto
qed simp

lemma degrees_shift: "degrees (map (\<lambda>x. x - b) xs) = degrees xs"
proof (induction xs)
  case (Cons x xs)
  then show ?case by (cases xs) auto
qed simp

lemma degrees_append: "xs \<noteq> [] \<Longrightarrow> degrees (xs @ ys) = degrees xs @ degrees (last xs # ys)"
proof (induction xs)
  case (Cons x xs)
  then show ?case by (cases xs; cases ys) auto
qed simp

lemma take_q_split: "take_q n q = Inr (xs, q1) \<Longrightarrow> q = xs @ q1"
  by (auto simp: take_q_def split: if_splits)

lemma deal_unit_partition:
  assumes "deal_unit ue base ar ac row rs cs = Inr (ar', ac', row', base', rs', cs')" and "ar \<noteq> []"
  shows "\<exists>xs. ac' = ac @ xs \<and> cs = xs @ cs'
    \<and> degrees ar @ degrees ((base + last ar) # rs) = degrees ar' @ degrees (base' # rs') \<and> ar' \<noteq> []"
  using assms
proof (induction ue base ar ac row rs cs rule: deal_unit.induct)
  case (2 ue base ar ac row r rs cs)
  let ?cur = "r - base"
  from "2.prems"(1) obtain xs cs1 where t: "take_q (int_of_u64 (?cur - u64_of_int (int_of_u64 (last ar)))) cs = Inr (xs, cs1)"
    by (auto simp: Let_def bindE_eq_Inr)
  note cs = take_q_split [OF t]
  have snoc: "degrees (ar @ [?cur]) = degrees ar @ [?cur - last ar]" by (rule degrees_snoc [OF "2.prems"(2)])
  have head: "degrees ((base + last ar) # r # rs) = (?cur - last ar) # degrees (r # rs)" by simp
  consider "cs1 = []" | "cs1 \<noteq> []" "?cur \<ge> ue" | "cs1 \<noteq> []" "\<not> ?cur \<ge> ue" by blast
  then show ?case
  proof cases
    case 1
    have "degrees ((ar @ [?cur]) @ map (\<lambda>x. x - base) rs) = degrees (ar @ [?cur]) @ degrees (map (\<lambda>x. x - base) (r # rs))"
      by (subst degrees_append) simp_all
    also have "\<dots> = degrees (ar @ [?cur]) @ degrees (r # rs)" by (simp only: degrees_shift)
    finally show ?thesis using 1 "2.prems"(1) t cs snoc head by (auto simp: Let_def)
  next
    case 2
    then show ?thesis using "2.prems"(1) t cs snoc head by (auto simp: Let_def)
  next
    case 3
    then have "deal_unit ue base (ar @ [?cur]) (ac @ xs) (row + 1) rs cs1 = Inr (ar', ac', row', base', rs', cs')"
      using "2.prems"(1) t by (auto simp: Let_def)
    from "2.IH" [OF refl refl refl t refl 3(1) 3(2) this] obtain ys where
      "ac' = (ac @ xs) @ ys" "cs1 = ys @ cs'"
      "degrees (ar @ [?cur]) @ degrees ((base + last (ar @ [?cur])) # rs) = degrees ar' @ degrees (base' # rs')" "ar' \<noteq> []"
      by auto
    then show ?thesis using cs snoc head by (simp add: diff_diff_eq)
  qed
qed simp

lemma deal_units_partition:
  assumes "deal_units n ue base row rs cs = Inr (us, rs', cs')"
  shows "\<exists>base'. length us = n \<and> cs = concat (map (\<lambda>u. fst (snd u)) us) @ cs'
    \<and> degrees (base # rs) = concat (map (\<lambda>u. degrees (fst u)) us) @ degrees (base' # rs')"
  using assms
proof (induction n arbitrary: base row rs cs us)
  case 0
  then show ?case by auto
next
  case (Suc n)
  from Suc.prems obtain ar ac row1 base1 rs1 cs1 vs where
    u: "deal_unit ue base [0] [] row rs cs = Inr (ar, ac, row1, base1, rs1, cs1)"
    and v: "deal_units n ue base1 row1 rs1 cs1 = Inr (vs, rs', cs')"
    and us: "us = (ar, ac, \<lparr>row_start = u64_of_int row, row_end = u64_of_int (row1 - 1)\<rparr>) # vs"
    by (auto simp: bindE_eq_Inr)
  from deal_unit_partition [OF u] Suc.IH [OF v] show ?case by (auto simp: us)
qed

section \<open>Nothing is left over\<close>

text \<open>What remains to be dealt is a consistent CSR array whose row pointers start at \<open>b\<close>.\<close>

definition csr_rest :: "nat \<Rightarrow> u64 \<Rightarrow> u64 list \<Rightarrow> u64 list \<Rightarrow> bool" where
  "csr_rest n b rs cs \<longleftrightarrow> n < 2 ^ 31 \<and> sorted (map unat (b # rs)) \<and> unat (last (b # rs)) = n \<and> unat b + length cs = n"

lemma csr_rest_row:
  assumes "csr_rest n b (r # rs) cs"
  shows "int_of_u64 (r - b) = int (unat r - unat b)" and "unat r - unat b \<le> length cs"
    and "csr_rest n r rs (drop (unat r - unat b) cs)"
proof -
  have s: "sorted (map unat (r # rs))" and br: "unat b \<le> unat r" and l: "unat (last (r # rs)) = n"
    and n: "n < 2 ^ 31" "unat b + length cs = n"
    using assms by (auto simp: csr_rest_def)
  have rl: "unat r \<le> unat (last (r # rs))" using s by (cases "rs = []") auto
  have d: "unat (r - b) = unat r - unat b" using br by (simp add: unat_sub word_le_nat_alt)
  have "unat (r - b) < 2 ^ 31" using d rl l n by simp
  from int_of_u64_nat [OF this] show "int_of_u64 (r - b) = int (unat r - unat b)" by (simp only: d)
  show "unat r - unat b \<le> length cs" using rl l n by simp
  show "csr_rest n r rs (drop (unat r - unat b) cs)" using s l n rl br by (simp add: csr_rest_def)
qed

lemma deal_unit_rest:
  assumes "deal_unit ue base ar ac row rs cs = Inr (ar', ac', row', base', rs', cs')" and "ar \<noteq> []"
    and "csr_rest n (base + last ar) rs cs" and "unat (base + last ar) = unat base + unat (last ar)"
  shows "if cs' = [] then rs' = [] else csr_rest n base' rs' cs' \<and> unat base + unat ue \<le> unat base'"
  using assms
proof (induction ue base ar ac row rs cs rule: deal_unit.induct)
  case (2 ue base ar ac row r rs cs)
  let ?cur = "r - base" and ?k = "unat r - unat (base + last ar)"
  note row = csr_rest_row [OF "2.prems"(3)]
  have le: "unat base + unat (last ar) \<le> unat r" using "2.prems"(3,4) by (simp add: csr_rest_def)
  then have cur: "unat ?cur = unat r - unat base" by (simp add: unat_sub word_le_nat_alt)
  have rn: "unat r \<le> n" using row(3) by (simp add: csr_rest_def)
  have "unat (last ar) < 2 ^ 31" using le rn "2.prems"(3) by (simp add: csr_rest_def)
  then have "u64_of_int (int_of_u64 (last ar)) = last ar"
    by (simp only: int_of_u64_nat u64_of_int_unat)
  then have t: "take_q (int_of_u64 (?cur - u64_of_int (int_of_u64 (last ar)))) cs = Inr (take ?k cs, drop ?k cs)"
    using row(1,2) by (simp add: take_q_def diff_diff_eq)
  have rest: "csr_rest n (base + ?cur) rs (drop ?k cs)" and sum: "unat (base + ?cur) = unat base + unat ?cur"
    using row(3) cur le by simp_all
  show ?case
  proof (cases "drop ?k cs = []")
    case True
    then show ?thesis using "2.prems"(1) t by (auto simp: Let_def)
  next
    case ne: False
    show ?thesis
    proof (cases "?cur \<ge> ue")
      case True
      then have "unat ue \<le> unat ?cur" by (simp add: word_le_nat_alt)
      then show ?thesis using "2.prems"(1) t ne True rest sum by (auto simp: Let_def)
    next
      case False
      then have "deal_unit ue base (ar @ [?cur]) (ac @ take ?k cs) (row + 1) rs (drop ?k cs)
          = Inr (ar', ac', row', base', rs', cs')"
        using "2.prems"(1) t ne by (auto simp: Let_def)
      from "2.IH" [OF refl refl refl t refl ne False this] rest sum show ?thesis by simp
    qed
  qed
qed simp

lemma deal_units_rest:
  assumes "deal_units k ue base row rs cs = Inr (us, rs', cs')" and "csr_rest n base rs cs" and "cs \<noteq> []"
    and "n \<le> unat base + k * unat ue"
  shows "rs' = [] \<and> cs' = []"
  using assms
proof (induction k arbitrary: base row rs cs us)
  case 0
  have "unat base + length cs = n" using "0.prems"(2) by (simp add: csr_rest_def)
  moreover have "0 < length cs" using "0.prems"(3) by simp
  ultimately have False using "0.prems"(4) by simp
  then show ?case ..
next
  case (Suc k)
  from Suc.prems(1) obtain ar ac row1 base1 rs1 cs1 vs where
    u: "deal_unit ue base [0] [] row rs cs = Inr (ar, ac, row1, base1, rs1, cs1)"
    and v: "deal_units k ue base1 row1 rs1 cs1 = Inr (vs, rs', cs')"
    by (auto simp: bindE_eq_Inr)
  have r: "if cs1 = [] then rs1 = [] else csr_rest n base1 rs1 cs1 \<and> unat base + unat ue \<le> unat base1"
    using deal_unit_rest [OF u, of n] Suc.prems(2) by simp
  show ?case
  proof (cases "cs1 = []")
    case True
    then show ?thesis using r v by (cases k) auto
  next
    case False
    with r have "n \<le> unat base1 + k * unat ue" using Suc.prems(4) by simp
    then show ?thesis using Suc.IH [OF v _ False] r False by simp
  qed
qed

lemma ceil_div_covers:
  assumes "0 < d"
  shows "n \<le> d * ceil_div n d"
proof -
  have "real n \<le> real d * real (ceil_div n d)" using ceil_div_bounds(1) [OF assms, of n] assms by (simp add: field_simps)
  then show ?thesis by (simp flip: of_nat_mult)
qed

lemma uint_nat_lt: "unat (w :: u64) < 2 ^ k \<Longrightarrow> uint w < 2 ^ k"
  using of_nat_less_iff [of "unat w" "2 ^ k", where 'a = int] by simp

text \<open>Division type 1 on a consistent CSR array with fewer than $2^{24}$ edges and units: whenever
  it succeeds, the units' columns and row degrees are those of the input, in order.\<close>

lemma Distribute_balanced:
  assumes "DIVISION_TYPE c = 1" and "csr_rest (length cols) 0 rows cols" and "cols \<noteq> []"
    and "length cols < 2 ^ 24" and "unat (tot_acc c) < 2 ^ 24"
    and "Distribute c d (0 # rows) cols s = Inr s'"
  shows "concat (dt_adjcol s') = cols \<and> concat (map degrees (dt_adjrow s')) = degrees (0 # rows)
    \<and> length (dt_adjcol s') = unat (tot_acc c) \<and> length (dt_adjrow s') = unat (tot_acc c)"
proof -
  let ?n = "unat (tot_acc c)" and ?E = "length cols"
  from assms(1,6) have "tot_acc c \<noteq> 0"
    by (auto simp: Distribute_def ceil_div_int_def ceil_div_fl_def bindE_eq_Inr split: if_splits)
  then have n0: "0 < ?n" by (simp add: unat_gt_0)
  have E: "unat (of_nat ?E :: u64) = ?E" using assms(4) unat_u64_of_int [of ?E] by (simp add: u64_of_int_def)
  have b: "uint (of_nat ?E :: u64) < 2 ^ 24" "uint (tot_acc c) < 2 ^ 24"
    by (rule uint_nat_lt, use assms(4,5) E in simp)+
  have ue: "ceil_div_fl float_p (of_nat ?E) (tot_acc c) = Inr (int (ceil_div ?E ?n))"
    using ceil_div_fl_exact [of float_p "of_nat ?E" "tot_acc c"] b \<open>tot_acc c \<noteq> 0\<close> E by (simp add: float_p_def)
  have small: "ceil_div ?E ?n < 2 ^ 64" using ceil_div_le [OF n0, of ?E] assms(4) by simp
  have "u64_of_fl (int (ceil_div ?E ?n), 1) = Inr (u64_of_int (int (ceil_div ?E ?n)))"
  proof -
    have "int (ceil_div ?E ?n) < 2 ^ 64" using small of_nat_less_iff [of "ceil_div ?E ?n" "2 ^ 64", where 'a = int] by simp
    then show ?thesis by (cases "ceil_div ?E ?n = 0") (simp_all add: u64_of_fl_def fl_trunc_def)
  qed
  with assms(1,6) ue obtain us rs1 cs1 where
    u: "deal_units ?n (u64_of_int (int (ceil_div ?E ?n))) 0 0 rows cols = Inr (us, rs1, cs1)"
    and s': "dt_adjcol s' = map (\<lambda>u. fst (snd u)) us" "dt_adjrow s' = map fst us"
    by (auto simp: Distribute_def bindE_eq_Inr Let_def)
  have "?E \<le> unat (0 :: u64) + ?n * unat (u64_of_int (int (ceil_div ?E ?n)))"
    using ceil_div_covers [OF n0, of ?E] unat_u64_of_int [OF small] by simp
  from deal_units_rest [OF u assms(2,3) this] deal_units_partition [OF u]
  show ?thesis by (auto simp: s' comp_def)
qed

end
