(* ===== verification/Ini_Parser.thy ===== *)
theory Ini_Parser
  imports Data_Reader
begin

text \<open>
  \<open>IniParser.cpp\<close>: a line is cut at its first \<open> = \<close> (or \<open>=\<close>), the pairs go into a string map, and
  \<open>ParseIni\<close> fills the global configuration from it, throwing when a key is missing or its value
  is not a number.  \<open>stoull(s, NULL, 0)\<close> takes the base from the prefix.  \<open>stof\<close> is modelled on
  decimal notation with an optional exponent; hexadecimal floats, \<open>inf\<close> and \<open>nan\<close> are left out.
  The lemmas are the round trip: a file printed from a table is read back as that table, and
  printed numbers are read back as themselves.
\<close>

section \<open>Strings\<close>

text \<open>\<open>s.find(pat)\<close>.\<close>

fun str_find :: "string \<Rightarrow> string \<Rightarrow> nat option" where
  "str_find pat s =
     (if take (length pat) s = pat then Some 0
      else case s of [] \<Rightarrow> None | _ # cs \<Rightarrow> map_option Suc (str_find pat cs))"

declare str_find.simps [simp del]

text \<open>A line without any delimiter: \<open>find\<close> gives \<open>npos\<close>, the key is the whole line, and
  \<open>npos + 1\<close> wraps to 0, so the value is the whole line too.\<close>

definition split_line :: "string \<Rightarrow> string \<times> string" where
  "split_line line =
     (let delim = (if str_find '' = '' line = None then ''='' else '' = '') in
      case str_find delim line of
        Some i \<Rightarrow> (take i line, drop (i + length delim) line)
      | None \<Rightarrow> (line, line))"

section \<open>Numbers\<close>

definition hex_val :: "char \<Rightarrow> nat option" where
  "hex_val ch = (let n = (of_char ch :: nat) in
     if 48 \<le> n \<and> n \<le> 57 then Some (n - 48)
     else if 97 \<le> n \<and> n \<le> 102 then Some (n - 87)
     else if 65 \<le> n \<and> n \<le> 70 then Some (n - 55) else None)"

definition in_base :: "nat \<Rightarrow> char \<Rightarrow> bool" where
  "in_base b ch = (case hex_val ch of Some v \<Rightarrow> v < b | None \<Rightarrow> False)"

definition base_val :: "nat \<Rightarrow> string \<Rightarrow> nat" where
  "base_val b ds = foldl (\<lambda>n ch. b * n + (case hex_val ch of Some v \<Rightarrow> v | None \<Rightarrow> 0)) 0 ds"

definition detect_base :: "string \<Rightarrow> nat \<times> string" where
  "detect_base s =
     (if take 1 s = ''0'' then
        if (take 2 s = ''0x'' \<or> take 2 s = ''0X'') \<and> length s > 2 \<and> in_base 16 (s ! 2) then (16, drop 2 s) else (8, s)
      else (10, s))"

definition stoull_any_base :: "string \<Rightarrow> u64 result" where
  "stoull_any_base s =
     (let (neg, r) = split_sign s; (b, t) = detect_base r; ds = takeWhile (in_base b) t; v = base_val b ds in
      if ds = [] then Inl Invalid_Argument
      else if v \<ge> 2 ^ 64 then Inl Out_Of_Range
      else Inr (if neg then - of_nat v else of_nat v))"

definition fraction_part :: "string \<Rightarrow> string \<times> string" where
  "fraction_part s = (case s of
       [] \<Rightarrow> ([], [])
     | ch # cs \<Rightarrow> if ch = CHR ''.'' then (takeWhile is_digit cs, dropWhile is_digit cs) else ([], s))"

definition exponent_part :: "string \<Rightarrow> int" where
  "exponent_part s = (case s of
       [] \<Rightarrow> 0
     | ch # cs \<Rightarrow>
         if ch = CHR ''e'' \<or> ch = CHR ''E'' then
           let (neg, r) = (case cs of [] \<Rightarrow> (False, []) | x # xs \<Rightarrow>
                 if x = CHR ''-'' then (True, xs) else if x = CHR ''+'' then (False, xs) else (False, cs));
               v = int (digits_val (takeWhile is_digit r)) in
           (if neg then - v else v)
         else 0)"

definition stof :: "string \<Rightarrow> fl result" where
  "stof s =
     (let (neg, r) = split_sign s; ip = takeWhile is_digit r; (fp, tl) = fraction_part (dropWhile is_digit r);
          e = exponent_part tl - int (length fp); v = int (digits_val (ip @ fp)); sv = (if neg then - v else v) in
      if ip = [] \<and> fp = [] then Inl Invalid_Argument
      else Inr (fl_round float_p (if e \<ge> 0 then (sv * 10 ^ nat e, 1) else (sv, 10 ^ nat (- e)))))"

section \<open>The table\<close>

type_synonym ini_table = "string \<rightharpoonup> string"

definition add_line :: "string \<Rightarrow> ini_table \<Rightarrow> ini_table" where
  "add_line line t = (case split_line line of (k, v) \<Rightarrow> t(k \<mapsto> v))"

definition Contain :: "ini_table \<Rightarrow> string \<Rightarrow> bool" where
  "Contain t name \<longleftrightarrow> t name \<noteq> None"

definition ini_get :: "ini_table \<Rightarrow> string \<Rightarrow> string result" where
  "ini_get t name = (case t name of Some v \<Rightarrow> Inr v | None \<Rightarrow> Inl Invalid_Argument)"

definition GetBool :: "ini_table \<Rightarrow> string \<Rightarrow> bool result" where
  "GetBool t name = bindE (ini_get t name) (\<lambda>v. Inr (take 1 v = ''t'' \<or> take 1 v = ''T''))"

definition GetString :: "ini_table \<Rightarrow> string \<Rightarrow> string result" where
  "GetString t name = bindE (ini_get t name) (\<lambda>v.
     if CHR 0x22 \<notin> set v then Inr v
     else Inr (if length v = 1 then [] else take (length v - 2) (drop 1 v)))"

definition GetFloat :: "ini_table \<Rightarrow> string \<Rightarrow> fl result" where
  "GetFloat t name = bindE (ini_get t name) stof"

definition GetInt :: "ini_table \<Rightarrow> string \<Rightarrow> int result" where
  "GetInt t name = bindE (ini_get t name) stoi"

definition GetUint64 :: "ini_table \<Rightarrow> string \<Rightarrow> u64 result" where
  "GetUint64 t name = bindE (ini_get t name) stoull_any_base"

definition ParseIni :: "ini_table \<Rightarrow> ini_config result" where
  "ParseIni t =
     bindE (GetUint64 t ''GlobalBufferSize'') (\<lambda>gbs.
     bindE (GetUint64 t ''XBufferSize'') (\<lambda>xbs.
     bindE (GetUint64 t ''TotalNumOfAcc'') (\<lambda>acc.
     bindE (GetInt t ''TotalNumOfDRAM'') (\<lambda>drams.
     bindE (GetUint64 t ''CacheLineByte'') (\<lambda>lb.
     bindE (GetUint64 t ''CacheLineCount'') (\<lambda>lc.
     bindE (u_div lb lc) (\<lambda>ub.
     bindE (GetUint64 t ''XStartAddress'') (\<lambda>xs.
     bindE (GetUint64 t ''ARowStartAddress'') (\<lambda>ars.
     bindE (GetUint64 t ''AColStartAddress'') (\<lambda>acs.
     bindE (GetUint64 t ''WeightStartAddress'') (\<lambda>ws.
     bindE (GetUint64 t ''XWResultStartAddress'') (\<lambda>xws.
     bindE (GetUint64 t ''AXWResultStartAddress'') (\<lambda>axws.
     bindE (GetInt t ''SystolicDimension'') (\<lambda>sd.
     bindE (GetUint64 t ''CacheReplacementAlgo'') (\<lambda>algo.
     bindE (GetInt t ''CSRDivisionType'') (\<lambda>dv.
     bindE (GetInt t ''MechanismType'') (\<lambda>mt.
     bindE (GetInt t ''UnitWeightReadBlock'') (\<lambda>uw.
     bindE (GetUint64 t ''BloomFilterNum'') (\<lambda>bn.
     bindE (GetFloat t ''BloomFilterRatio'') (\<lambda>br.
     bindE (GetUint64 t ''BloomFilterOverlap'') (\<lambda>bo.
     bindE (GetUint64 t ''CacheWayN'') (\<lambda>wn.
     bindE (GetString t ''MemoryType'') (\<lambda>mem.
     Inr \<lparr>gbsize = gbs, xbsize = xbs, tot_acc = acc, MAX_DRAM = drams, CACHE_LINE_BYTE = lb,
          CACHE_LINE_COUNT = lc, UNIT_BYTE = ub, X_START = xs, A_ROW_START = ars, A_COL_START = acs,
          WEIGHT_START = ws, XW_START = xws, AXW_START = axws, SYSTOLIC_DIM = sd, CACHE_REPL_ALGO = algo,
          DIVISION_TYPE = dv, MECHA_TYPE = mt, UNIT_W_READ = uw, BLOOM_FILTER_NUM = bn, BF_RATIO = br,
          BF_OVERLAP = bo, CACHE_WAY_N = wn, MEM_TYPE = mem\<rparr>)))))))))))))))))))))))"

definition ReadIni :: "string list option \<Rightarrow> ini_config result" where
  "ReadIni file = (case file of None \<Rightarrow> Inl Invalid_Argument
     | Some lines \<Rightarrow> ParseIni (fold add_line lines Map.empty))"

section \<open>Reading back what was printed\<close>

definition digit_char :: "nat \<Rightarrow> char" where
  "digit_char d = char_of (48 + d)"

fun dec_string :: "nat \<Rightarrow> string" where
  "dec_string n = (if n < 10 then [digit_char n] else dec_string (n div 10) @ [digit_char (n mod 10)])"

declare dec_string.simps [simp del]

definition ini_line :: "string \<times> string \<Rightarrow> string" where
  "ini_line p = fst p @ '' = '' @ snd p"

lemma str_find_first:
  assumes "CHR ''='' \<notin> set k"
  shows "str_find '' = '' (k @ '' = '' @ v) = Some (length k)"
  using assms
proof (induction k)
  case Nil
  show ?case by (simp add: str_find.simps [of _ "CHR '' '' # _"])
next
  case (Cons x k)
  have "take 3 (x # k @ '' = '' @ v) \<noteq> '' = ''"
    using Cons.prems by (cases k; cases "tl k") (auto simp: numeral_3_eq_3)
  then show ?case using Cons by (subst str_find.simps) (simp add: numeral_2_eq_2)
qed

lemma split_line_printed:
  assumes "CHR ''='' \<notin> set (fst p)"
  shows "split_line (ini_line p) = p"
  using str_find_first [OF assms, of "snd p"] by (simp add: split_line_def ini_line_def)

lemma read_printed_table:
  assumes "\<forall>p \<in> set ps. CHR ''='' \<notin> set (fst p)"
  shows "fold add_line (map ini_line ps) t = t ++ map_of (rev ps)"
  using assms
proof (induction ps arbitrary: t)
  case (Cons p ps)
  then have "split_line (ini_line p) = p" by (intro split_line_printed) simp
  then have "add_line (ini_line p) t = t(fst p \<mapsto> snd p)" by (simp add: add_line_def case_prod_beta)
  then show ?case using Cons by (auto simp: map_add_def fun_eq_iff split: option.splits)
qed simp

lemma digit_char_code: "d < 10 \<Longrightarrow> (of_char (digit_char d) :: nat) = 48 + d"
  by (simp add: digit_char_def)

lemma digit_char_facts:
  assumes "d < 10"
  shows "hex_val (digit_char d) = Some d" and "in_base 10 (digit_char d)" and "is_digit (digit_char d)"
    and "\<not> is_space_char (digit_char d)" and "digit_char d \<noteq> CHR ''-''" and "digit_char d \<noteq> CHR ''+''"
    and "digit_char d = CHR ''0'' \<longleftrightarrow> d = 0"
proof -
  note c = digit_char_code [OF assms]
  show h: "hex_val (digit_char d) = Some d" using assms by (simp add: hex_val_def c Let_def)
  show "in_base 10 (digit_char d)" using assms by (simp add: in_base_def h)
  show "is_digit (digit_char d)" using assms by (simp add: is_digit_def c)
  have ne: "digit_char d \<noteq> ch" if "(of_char ch :: nat) < 48" for ch using c that by auto
  show "\<not> is_space_char (digit_char d)" using ne [of "CHR '' ''"] by (simp add: is_space_char_def c)
  show "digit_char d \<noteq> CHR ''-''" "digit_char d \<noteq> CHR ''+''" by (rule ne, simp)+
  show "digit_char d = CHR ''0'' \<longleftrightarrow> d = 0"
  proof
    assume "digit_char d = CHR ''0''"
    then have "(of_char (digit_char d) :: nat) = of_char (CHR ''0'')" by simp
    then show "d = 0" by (simp add: c)
  next
    assume "d = 0"
    then have "(of_char (digit_char d) :: nat) = of_char (CHR ''0'')" using c by simp
    then show "digit_char d = CHR ''0''" by (simp only: of_char_eq_iff)
  qed
qed

lemma base_val_snoc: "base_val b (ds @ [ch]) = b * base_val b ds + (case hex_val ch of Some v \<Rightarrow> v | None \<Rightarrow> 0)"
  by (simp add: base_val_def)

lemma digits_val_snoc: "digits_val (ds @ [ch]) = 10 * digits_val ds + (of_char ch - 48)"
  by (simp add: digits_val_def)

lemma dec_string_facts:
  "base_val 10 (dec_string n) = n \<and> digits_val (dec_string n) = n \<and> dec_string n \<noteq> []
   \<and> (\<exists>d. d < 10 \<and> hd (dec_string n) = digit_char d \<and> (d = 0 \<longleftrightarrow> n = 0))
   \<and> (\<forall>ch \<in> set (dec_string n). in_base 10 ch \<and> is_digit ch)"
proof (induction n rule: dec_string.induct)
  case (1 n)
  show ?case
  proof (cases "n < 10")
    case True
    then show ?thesis
      using digit_char_facts [OF True] digit_char_code [OF True]
      by (auto simp: dec_string.simps [of n] base_val_def digits_val_def)
  next
    case False
    then have "dec_string n = dec_string (n div 10) @ [digit_char (n mod 10)]" by (simp add: dec_string.simps [of n])
    moreover have "n div 10 \<noteq> 0" using False by simp
    ultimately show ?thesis
      using "1.IH" [OF False] digit_char_facts [of "n mod 10"] digit_char_code [of "n mod 10"]
      by (auto simp: base_val_snoc digits_val_snoc)
  qed
qed

lemma split_sign_dec: "split_sign (dec_string n) = (False, dec_string n)"
proof -
  obtain d cs where d: "d < 10" "dec_string n = digit_char d # cs"
    using dec_string_facts [of n] by (cases "dec_string n") auto
  show ?thesis using d(2) digit_char_facts [OF d(1)] by (simp add: split_sign_def)
qed

lemma takeWhile_whole: "\<forall>x \<in> set xs. P x \<Longrightarrow> takeWhile P xs = xs"
  by (induction xs) auto

lemma dec_string_whole:
  "takeWhile (in_base 10) (dec_string n) = dec_string n" "takeWhile is_digit (dec_string n) = dec_string n"
  using dec_string_facts [of n] by (auto intro!: takeWhile_whole)

lemma stoull_dec_string:
  assumes "n < 2 ^ 64"
  shows "stoull_any_base (dec_string n) = Inr (of_nat n)"
proof (cases "n = 0")
  case True
  have z: "dec_string 0 = ''0''" by (simp add: dec_string.simps [of 0] digit_char_facts(7) [of 0])
  show ?thesis unfolding True z
    by (simp add: stoull_any_base_def split_sign_def is_space_char_def detect_base_def in_base_def hex_val_def base_val_def)
next
  case False
  obtain d cs where d: "d < 10" "dec_string n = digit_char d # cs" "d \<noteq> 0"
    using dec_string_facts [of n] False by (cases "dec_string n") auto
  then have "detect_base (dec_string n) = (10, dec_string n)"
    using digit_char_facts(7) [OF d(1)] by (simp add: detect_base_def)
  then show ?thesis using assms dec_string_facts [of n]
    by (simp add: stoull_any_base_def split_sign_dec dec_string_whole)
qed

lemma stoi_dec_string: "n < 2 ^ 31 \<Longrightarrow> stoi (dec_string n) = Inr (int n)"
  using dec_string_facts [of n] of_nat_less_iff [of n "2 ^ 31", where 'a = int]
  by (simp add: stoi_def parse_dec_def split_sign_dec dec_string_whole)

end
