(* ===== verification/Vertex_Reader.thy ===== *)
theory Vertex_Reader
  imports Dram_Interface
begin

text \<open>
  \<open>VertexReader.cpp\<close>: requests the row pointers of the current block of rows from DRAM and
  hands them to the edge reader.  The first pass over a block takes them from the queue \<open>vq\<close>
  and keeps them in \<open>v_cache\<close>; the remaining \<open>w_fold - 1\<close> passes replay the cache.  The member
  \<open>x_repeat\<close> is not initialised by the constructor, so its initial value is an argument here.
\<close>

record vreader =
  vr_pre_w_fold :: int
  vr_flag :: ReaderFlag
  vr_x_repeat :: int
  vr_pre_row_archive :: u64
  v_cache_idx :: u64
  vr_id :: int
  pop_count :: int
  vr_q_space :: u64
  vr_offset :: u64
  vr_req_address :: u64
  req_f_address :: u64
  vr_pre_row :: int
  vr_tot_repeat :: int
  vr_pre_repeat :: int
  vr_req_stat :: RCNT
  vr_row_info :: RowInfo
  vq :: "u64 list"

type_synonym 'm vr_ctx = "vreader \<times> globals \<times> 'm dram_if"

definition VertexReader_new ::
  "ini_config \<Rightarrow> dims \<Rightarrow> int \<Rightarrow> int \<Rightarrow> u64 \<Rightarrow> RowInfo \<Rightarrow> globals \<Rightarrow> (vreader \<times> globals) result" where
  "VertexReader_new c d xr i off ri g =
     bindE (q_front (vertex_req_count g)) (\<lambda>n.
     bindE (ceil_div_int double_p n (CACHE_LINE_COUNT c)) (\<lambda>tot.
     bindE (q_pop (vertex_req_count g)) (\<lambda>rest.
     bindE (ceil_div_int double_p (a_h d) (max_v g)) (\<lambda>rep.
     Inr (\<lparr>vr_pre_w_fold = 0, vr_flag = \<lparr>req_need = True, q_empty = True\<rparr>, vr_x_repeat = xr,
           vr_pre_row_archive = 0, v_cache_idx = 0, vr_id = i, pop_count = 0, vr_q_space = 0,
           vr_offset = off, vr_req_address = A_ROW_START c + off, req_f_address = XW_START c,
           vr_pre_row = 0, vr_tot_repeat = rep, vr_pre_repeat = 0,
           vr_req_stat = \<lparr>tot_read_cnt = tot, pre_read_cnt = 0, read_cnt_acm = 0\<rparr>,
           vr_row_info = ri, vq = []\<rparr>, g\<lparr>vertex_req_count := rest\<rparr>)))))"

definition RequestF :: "ini_config \<Rightarrow> 'm vr_ctx \<Rightarrow> 'm vr_ctx" where
  "RequestF c s = (case s of (v, g, m) \<Rightarrow>
     (v\<lparr>req_f_address := req_f_address v + CACHE_LINE_BYTE c\<rparr>, g\<lparr>f_flag := False\<rparr>,
      DRAMRequest (req_f_address v) READ m))"

text \<open>Both branches of \<open>TransferData\<close> count a passed row and request the feature line ahead.\<close>

definition count_row :: "ini_config \<Rightarrow> dims \<Rightarrow> 'm vr_ctx \<Rightarrow> 'm vr_ctx" where
  "count_row c d s = (case s of (v, g, m) \<Rightarrow>
     let v1 = v\<lparr>pop_count := pop_count v + 1\<rparr>;
         last_row = (u64_of_int (vr_pre_row v1) = a_h d - 1);
         (v2, g2, m2) = (if u64_of_int (pop_count v1) = CACHE_LINE_COUNT c - 1 \<or> last_row
                         then RequestF c (v1, g, m) else (v1, g, m)) in
     (if u64_of_int (pop_count v2) = CACHE_LINE_COUNT c \<or> last_row then v2\<lparr>pop_count := 0\<rparr> else v2, g2, m2))"

definition NO_VERTEX :: u64 where "NO_VERTEX = 9876543210"

definition transfer_first :: "ini_config \<Rightarrow> dims \<Rightarrow> 'm vr_ctx \<Rightarrow> (u64 \<times> 'm vr_ctx) result" where
  "transfer_first c d s = (case s of (v, g, m) \<Rightarrow>
     bindE (q_front (vq v)) (\<lambda>ret.
     bindE (q_pop (vq v)) (\<lambda>rest.
     let v1 = v\<lparr>vr_pre_row := vr_pre_row v + 1, vq := rest, vr_q_space := vr_q_space v - 1\<rparr>;
         g1 = g\<lparr>v_cache := v_cache g @ [ret]\<rparr>;
         (v2, g2, m2) = count_row c d (v1, g1, m);
         v3 = (if pre_read_cnt (vr_req_stat v2) < tot_read_cnt (vr_req_stat v2)
                  \<and> queue_room (vr_q_space v2) > CACHE_LINE_COUNT c
               then v2\<lparr>vr_flag := (vr_flag v2)\<lparr>req_need := True\<rparr>\<rparr> else v2) in
     bindE (u_rem (u64_of_int (vr_pre_row v3)) (max_v g2)) (\<lambda>r.
     let v4 = (if r = 0 \<or> u64_of_int (vr_pre_row v3) = a_h d
               then v3\<lparr>vr_pre_row := int_of_u64 (vr_pre_row_archive v3), vr_x_repeat := vr_x_repeat v3 + 1\<rparr>
               else v3) in
     Inr (ret, v4, g2, m2)))))"

definition next_block :: "ini_config \<Rightarrow> dims \<Rightarrow> vreader \<Rightarrow> globals \<Rightarrow> (vreader \<times> globals) result" where
  "next_block c d v g =
     bindE (q_front (vertex_req_count g)) (\<lambda>n.
     bindE (ceil_div_int double_p n (CACHE_LINE_COUNT c)) (\<lambda>tot.
     bindE (q_pop (vertex_req_count g)) (\<lambda>rest.
     Inr (v\<lparr>vr_flag := \<lparr>req_need = (u64_of_int (vr_pre_row v) \<noteq> a_h d), q_empty = True\<rparr>,
            vr_pre_row_archive := u64_of_int (vr_pre_row v), v_cache_idx := 0, vr_x_repeat := 0,
            vr_req_stat := (vr_req_stat v)\<lparr>tot_read_cnt := tot, pre_read_cnt := 0\<rparr>\<rparr>,
          g\<lparr>v_cache := [], vertex_req_count := rest\<rparr>))))"

definition transfer_replay :: "ini_config \<Rightarrow> dims \<Rightarrow> 'm vr_ctx \<Rightarrow> (u64 \<times> 'm vr_ctx) result" where
  "transfer_replay c d s = (case s of (v, g, m) \<Rightarrow>
     bindE (vec_get (v_cache g) (unat (v_cache_idx v))) (\<lambda>ret.
     let v1 = v\<lparr>vr_pre_row := vr_pre_row v + 1, v_cache_idx := v_cache_idx v + 1\<rparr>;
         (v2, g2, m2) = count_row c d (v1, g, m) in
     if v_cache_idx v2 = max_v g2 \<or> u64_of_int (vr_pre_row v2) = a_h d then
       if u64_of_int (vr_x_repeat v2) \<noteq> w_fold g2 - 1
       then Inr (ret, v2\<lparr>vr_pre_row := int_of_u64 (vr_pre_row_archive v2), vr_x_repeat := vr_x_repeat v2 + 1,
                        v_cache_idx := 0\<rparr>, g2, m2)
       else bindE (next_block c d v2 g2) (\<lambda>(v3, g3). Inr (ret, v3, g3, m2))
     else Inr (ret, v2, g2, m2)))"

definition VertexReader_TransferData :: "ini_config \<Rightarrow> dims \<Rightarrow> 'm vr_ctx \<Rightarrow> (u64 \<times> 'm vr_ctx) result" where
  "VertexReader_TransferData c d s = (case s of (v, g, m) \<Rightarrow>
     if vq v \<noteq> [] \<and> vr_x_repeat v = 0 then transfer_first c d s
     else if vq v = [] \<and> vr_x_repeat v > 0 then transfer_replay c d s
     else Inr (NO_VERTEX, s))"

definition VertexReader_IsEndRequest :: "vreader \<Rightarrow> bool" where
  "VertexReader_IsEndRequest v \<longleftrightarrow> pre_read_cnt (vr_req_stat v) = tot_read_cnt (vr_req_stat v)
     \<and> vr_pre_repeat v < vr_tot_repeat v - 1"

definition VertexReader_IsEndOperation :: "vreader \<Rightarrow> globals \<Rightarrow> bool" where
  "VertexReader_IsEndOperation v g \<longleftrightarrow> pre_read_cnt (vr_req_stat v) = tot_read_cnt (vr_req_stat v)
     \<and> vertex_req_count g = []"

definition BasisEndOperation :: "vreader \<Rightarrow> bool" where
  "BasisEndOperation v \<longleftrightarrow> pre_read_cnt (vr_req_stat v) = tot_read_cnt (vr_req_stat v)"

text \<open>The leading 0 of a CSR row pointer array is dropped.\<close>

definition VertexReader_ReceiveData :: "u64 list \<Rightarrow> vreader \<Rightarrow> vreader result" where
  "VertexReader_ReceiveData data v =
     bindE (q_front data) (\<lambda>x.
     let data' = (if x = 0 then tl data else data) in
     Inr (v\<lparr>vr_req_stat := (vr_req_stat v)\<lparr>read_cnt_acm := read_cnt_acm (vr_req_stat v) + 1\<rparr>,
            vq := vq v @ data', vr_flag := (vr_flag v)\<lparr>q_empty := False\<rparr>\<rparr>))"

text \<open>\<open>Request\<close> is the same in the three readers: account for a line, stop asking when the
  queue or the block is exhausted, and send the next address.\<close>

definition request_done :: "ini_config \<Rightarrow> u64 \<Rightarrow> RCNT \<Rightarrow> bool" where
  "request_done c space st \<longleftrightarrow> queue_room space < CACHE_LINE_COUNT c \<or> pre_read_cnt st = tot_read_cnt st"

definition VertexReader_Request :: "ini_config \<Rightarrow> vreader \<times> 'm dram_if \<Rightarrow> vreader \<times> 'm dram_if" where
  "VertexReader_Request c s = (case s of (v, m) \<Rightarrow>
     let space = vr_q_space v + CACHE_LINE_COUNT c;
         st = (vr_req_stat v)\<lparr>pre_read_cnt := pre_read_cnt (vr_req_stat v) + 1\<rparr> in
     (v\<lparr>vr_q_space := space, vr_req_stat := st,
        vr_flag := (vr_flag v)\<lparr>req_need := (if request_done c space st then False else req_need (vr_flag v))\<rparr>,
        vr_req_address := vr_req_address v + CACHE_LINE_BYTE c\<rparr>,
      DRAMRequest (vr_req_address v) READ m))"

definition VertexReader_ResetRequestStat :: "ini_config \<Rightarrow> vreader \<Rightarrow> vreader" where
  "VertexReader_ResetRequestStat c v =
     v\<lparr>vr_req_stat := (vr_req_stat v)\<lparr>pre_read_cnt := 0\<rparr>, vr_req_address := A_ROW_START c + vr_offset v,
       vr_pre_repeat := vr_pre_repeat v + 1\<rparr>"

definition VertexReader_TurnOffFlag :: "vreader \<Rightarrow> vreader" where
  "VertexReader_TurnOffFlag v = v\<lparr>vr_flag := (vr_flag v)\<lparr>req_need := False\<rparr>\<rparr>"

section \<open>A block of rows is passed on \<open>w_fold\<close> times\<close>

lemma count_row_frame:
  assumes "count_row c d (v, g, m) = (v', g', m')"
  shows "vq v' = vq v" "vr_x_repeat v' = vr_x_repeat v" "vr_pre_row v' = vr_pre_row v"
    "vr_pre_row_archive v' = vr_pre_row_archive v" "v_cache_idx v' = v_cache_idx v"
    "vr_req_stat v' = vr_req_stat v" "vr_flag v' = vr_flag v" "v_cache g' = v_cache g" "max_v g' = max_v g"
    "w_fold g' = w_fold g" "vertex_req_count g' = vertex_req_count g"
  using assms by (auto simp: count_row_def RequestF_def Let_def split: if_splits)

text \<open>The block: rows \<open>p\<close> to \<open>p + n\<close>, starting at a multiple of \<open>max_v\<close> and ending at the next
  multiple or at the last row.\<close>

definition block_ok :: "dims \<Rightarrow> globals \<Rightarrow> nat \<Rightarrow> nat \<Rightarrow> bool" where
  "block_ok d g p n \<longleftrightarrow> 0 < n \<and> unat (a_h d) < 2 ^ 31 \<and> 0 < unat (max_v g) \<and> p mod unat (max_v g) = 0
     \<and> n \<le> unat (max_v g) \<and> p + n \<le> unat (a_h d) \<and> (n = unat (max_v g) \<or> p + n = unat (a_h d))"

text \<open>State in pass \<open>k\<close> after \<open>j\<close> rows.\<close>

definition vr_at :: "u64 list \<Rightarrow> nat \<Rightarrow> u64 list \<Rightarrow> u64 \<Rightarrow> u64 \<Rightarrow> nat \<Rightarrow> nat \<Rightarrow> 'm vr_ctx \<Rightarrow> bool" where
  "vr_at vs p blocks mv nf k j s = (case s of (v, g, m) \<Rightarrow>
     vr_x_repeat v = int k \<and> vr_pre_row v = int (p + j) \<and> vr_pre_row_archive v = of_nat p
     \<and> max_v g = mv \<and> w_fold g = nf \<and> vertex_req_count g = blocks
     \<and> (if k = 0 then vq v = drop j vs \<and> v_cache g = take j vs \<and> v_cache_idx v = 0
        else vq v = [] \<and> v_cache g = vs \<and> v_cache_idx v = of_nat j))"

lemma u64_of_nat_eq:
  assumes "r < 2 ^ 64"
  shows "u64_of_int (int r) = w \<longleftrightarrow> r = unat w"
  using unat_u64_of_int [OF assms] u64_of_int_unat [of w] by auto

lemma of_nat_u64: "u64_of_int (int r) = of_nat r"
  by (simp add: u64_of_int_def)

lemma int_of_u64_of_nat: "r < 2 ^ 31 \<Longrightarrow> int_of_u64 (of_nat r) = int r"
  using int_of_u64_nat [of "of_nat r"] unat_u64_of_int [of r] by (simp add: of_nat_u64 del: of_nat_unat)

lemma block_row_end:
  assumes "block_ok d g p n" and "j < n" and "R = int (p + Suc j)"
  shows "\<exists>r. u_rem (u64_of_int R) (max_v g) = Inr r \<and> ((r = 0 \<or> u64_of_int R = a_h d) \<longleftrightarrow> Suc j = n)"
proof -
  let ?M = "unat (max_v g)"
  have r: "p + Suc j < 2 ^ 64" using assms by (auto simp: block_ok_def)
  have u: "unat (u64_of_int R) = p + Suc j" unfolding assms(3) by (rule unat_u64_of_int [OF r])
  have e: "u64_of_int R = a_h d \<longleftrightarrow> p + Suc j = unat (a_h d)" unfolding assms(3) by (rule u64_of_nat_eq [OF r])
  obtain b where b: "p = b * ?M" using assms(1) by (auto simp: block_ok_def dvd_def mod_0_imp_dvd ac_simps)
  have "(p + Suc j) mod ?M = Suc j mod ?M" by (simp add: b)
  moreover have "Suc j mod ?M = 0 \<longleftrightarrow> Suc j = ?M"
    using assms by (cases "Suc j = ?M") (auto simp: block_ok_def)
  ultimately have "unat (u64_of_int R mod max_v g) = 0 \<longleftrightarrow> Suc j = ?M" by (simp add: unat_mod u)
  then have z: "u64_of_int R mod max_v g = 0 \<longleftrightarrow> Suc j = ?M" by (simp only: unat_eq_zero)
  have "max_v g \<noteq> 0" using assms(1) by (auto simp: block_ok_def)
  then show ?thesis using assms z e by (auto simp: u_rem_def block_ok_def)
qed

lemma vr_first_step:
  assumes ok: "block_ok d g0 p n" and mv: "max_v g0 = mv" and n: "length vs = n" and j: "j < n"
    and at: "vr_at vs p blocks mv nf 0 j s"
  shows "\<exists>s'. VertexReader_TransferData c d s = Inr (vs ! j, s')
    \<and> (if Suc j = n then vr_at vs p blocks mv nf 1 0 s' else vr_at vs p blocks mv nf 0 (Suc j) s')"
proof -
  obtain v g m where s: "s = (v, g, m)" by (cases s) auto
  have dj: "drop j vs = vs ! j # drop (Suc j) vs" using n j by (simp add: Cons_nth_drop_Suc)
  have a: "vr_x_repeat v = 0" "vr_pre_row v = int (p + j)" "vr_pre_row_archive v = of_nat p" "max_v g = mv"
    "w_fold g = nf" "vertex_req_count g = blocks" "vq v = vs ! j # drop (Suc j) vs" "v_cache g = take j vs"
    "v_cache_idx v = 0" using at by (auto simp: vr_at_def s dj)
  define R where "R = int (p + Suc j)"
  have R: "vr_pre_row v + 1 = R" by (simp add: R_def a)
  from block_row_end [OF ok j R_def] mv obtain r where
    r: "u_rem (u64_of_int R) mv = Inr r" "(r = 0 \<or> u64_of_int R = a_h d) \<longleftrightarrow> Suc j = n" by auto
  let ?v1 = "v\<lparr>vr_pre_row := R, vq := drop (Suc j) vs, vr_q_space := vr_q_space v - 1\<rparr>"
  let ?g1 = "g\<lparr>v_cache := v_cache g @ [vs ! j]\<rparr>"
  obtain v2 g2 m2 where cr: "count_row c d (?v1, ?g1, m) = (v2, g2, m2)" by (cases "count_row c d (?v1, ?g1, m)")
  note F = count_row_frame [OF cr]
  let ?v3 = "if pre_read_cnt (vr_req_stat v2) < tot_read_cnt (vr_req_stat v2) \<and> queue_room (vr_q_space v2) > CACHE_LINE_COUNT c
               then v2\<lparr>vr_flag := (vr_flag v2)\<lparr>req_need := True\<rparr>\<rparr> else v2"
  let ?v4 = "if Suc j = n then ?v3\<lparr>vr_pre_row := int_of_u64 (vr_pre_row_archive ?v3), vr_x_repeat := vr_x_repeat ?v3 + 1\<rparr> else ?v3"
  have G: "vr_x_repeat ?v3 = 0" "vr_pre_row ?v3 = R" "vr_pre_row_archive ?v3 = of_nat p" "vq ?v3 = drop (Suc j) vs"
    "v_cache_idx ?v3 = 0" using a F by simp_all
  have "VertexReader_TransferData c d s = Inr (vs ! j, ?v4, g2, m2)"
    using a(1,4,7) R cr r F(9) G(2)
    by (simp add: VertexReader_TransferData_def s transfer_first_def Let_def cong: if_cong split del: if_split)
  moreover have "if Suc j = n then vr_at vs p blocks mv nf 1 0 (?v4, g2, m2) else vr_at vs p blocks mv nf 0 (Suc j) (?v4, g2, m2)"
  proof -
    have pn: "int_of_u64 (of_nat p) = int p" using ok by (intro int_of_u64_of_nat) (auto simp: block_ok_def)
    have tk: "v_cache g2 = take (Suc j) vs" using F(8) a n j by (simp add: take_Suc_conv_app_nth)
    obtain v3 where v3: "v3 = ?v3" by blast
    show ?thesis using G F(9-11) a pn tk n unfolding v3 [symmetric] by (auto simp: vr_at_def R_def)
  qed
  ultimately show ?thesis by blast
qed

text \<open>After the last pass: the cache is empty, the next block is selected.\<close>

definition vr_done :: "ini_config \<Rightarrow> dims \<Rightarrow> nat \<Rightarrow> u64 \<Rightarrow> u64 list \<Rightarrow> u64 \<Rightarrow> u64 \<Rightarrow> 'm vr_ctx \<Rightarrow> bool" where
  "vr_done c d q n' blocks mv nf s = (case s of (v, g, m) \<Rightarrow>
     vr_x_repeat v = 0 \<and> vq v = [] \<and> v_cache g = [] \<and> v_cache_idx v = 0
     \<and> vr_pre_row v = int q \<and> vr_pre_row_archive v = of_nat q
     \<and> vertex_req_count g = blocks \<and> max_v g = mv \<and> w_fold g = nf
     \<and> tot_read_cnt (vr_req_stat v) = int (ceil_div (unat n') (unat (CACHE_LINE_COUNT c)))
     \<and> pre_read_cnt (vr_req_stat v) = 0
     \<and> q_empty (vr_flag v) \<and> (req_need (vr_flag v) \<longleftrightarrow> q \<noteq> unat (a_h d)))"

lemma replay_row_end:
  assumes "block_ok d g p n" and "j < n" and "max_v g = mv"
  shows "((of_nat (Suc j) :: u64) = mv \<or> u64_of_int (int (p + Suc j)) = a_h d) \<longleftrightarrow> Suc j = n"
proof -
  have r: "p + Suc j < 2 ^ 64" "Suc j < 2 ^ 64" using assms by (auto simp: block_ok_def)
  have "(of_nat (Suc j) :: u64) = mv \<longleftrightarrow> Suc j = unat mv"
    using u64_of_nat_eq [OF r(2), of mv] by (simp only: of_nat_u64)
  moreover have "u64_of_int (int (p + Suc j)) = a_h d \<longleftrightarrow> p + Suc j = unat (a_h d)" by (rule u64_of_nat_eq [OF r(1)])
  ultimately show ?thesis using assms by (auto simp: block_ok_def)
qed

definition line_cfg :: "ini_config \<Rightarrow> bool" where
  "line_cfg c \<longleftrightarrow> 0 < unat (CACHE_LINE_COUNT c) \<and> unat (CACHE_LINE_COUNT c) < 2 ^ 31"

lemma next_block_ok:
  assumes "line_cfg c" and "unat n' < 2 ^ 31" and "vertex_req_count g = n' # blocks"
  shows "\<exists>tot. tot = int (ceil_div (unat n') (unat (CACHE_LINE_COUNT c))) \<and>
    next_block c d v g = Inr (v\<lparr>vr_flag := \<lparr>req_need = (u64_of_int (vr_pre_row v) \<noteq> a_h d), q_empty = True\<rparr>,
            vr_pre_row_archive := u64_of_int (vr_pre_row v), v_cache_idx := 0, vr_x_repeat := 0,
            vr_req_stat := (vr_req_stat v)\<lparr>tot_read_cnt := tot, pre_read_cnt := 0\<rparr>\<rparr>,
          g\<lparr>v_cache := [], vertex_req_count := blocks\<rparr>)"
proof -
  have "CACHE_LINE_COUNT c \<noteq> 0" using assms(1) by (auto simp: line_cfg_def)
  then have "ceil_div_int double_p n' (CACHE_LINE_COUNT c) = Inr (int (ceil_div (unat n') (unat (CACHE_LINE_COUNT c))))"
    using assms(1,2) by (intro ceil_div_int_exact) (auto simp: double_p_def line_cfg_def)
  then show ?thesis using assms(3) by (simp add: next_block_def)
qed

lemma vr_replay_step:
  assumes ok: "block_ok d g0 p n" and mv: "max_v g0 = mv" and n: "length vs = n" and j: "j < n"
    and k: "0 < k" "k < unat nf" "unat nf < 2 ^ 31"
    and c: "line_cfg c" "unat n' < 2 ^ 31"
    and at: "vr_at vs p (n' # blocks) mv nf k j s"
  shows "\<exists>s'. VertexReader_TransferData c d s = Inr (vs ! j, s')
    \<and> (if Suc j \<noteq> n then vr_at vs p (n' # blocks) mv nf k (Suc j) s'
       else if Suc k \<noteq> unat nf then vr_at vs p (n' # blocks) mv nf (Suc k) 0 s'
       else vr_done c d (p + n) n' blocks mv nf s')"
proof -
  obtain v g m where s: "s = (v, g, m)" by (cases s) auto
  have a: "vr_x_repeat v = int k" "vr_pre_row v = int (p + j)" "vr_pre_row_archive v = of_nat p" "max_v g = mv"
    "w_fold g = nf" "vertex_req_count g = n' # blocks" "vq v = []" "v_cache g = vs"
    "v_cache_idx v = of_nat j" using at k(1) by (auto simp: vr_at_def s)
  have jb: "j < 2 ^ 64" "p < 2 ^ 31" "p + n < 2 ^ 31" using ok j by (auto simp: block_ok_def)
  have uj: "unat (of_nat j :: u64) = j" using unat_u64_of_int [OF jb(1)] by (simp only: of_nat_u64)
  define R where "R = int (p + Suc j)"
  have R: "vr_pre_row v + 1 = R" by (simp add: R_def a)
  have J: "v_cache_idx v + 1 = of_nat (Suc j)" by (simp add: a)
  let ?v1 = "v\<lparr>vr_pre_row := R, v_cache_idx := of_nat (Suc j)\<rparr>"
  obtain v2 g2 m2 where cr: "count_row c d (?v1, g, m) = (v2, g2, m2)" by (cases "count_row c d (?v1, g, m)")
  have F: "vq v2 = []" "vr_x_repeat v2 = int k" "vr_pre_row v2 = R" "vr_pre_row_archive v2 = of_nat p"
    "v_cache_idx v2 = of_nat (Suc j)" "v_cache g2 = vs" "max_v g2 = mv" "w_fold g2 = nf" "vertex_req_count g2 = n' # blocks"
    using count_row_frame [OF cr] a by simp_all
  have fin: "(v_cache_idx v2 = max_v g2 \<or> u64_of_int (vr_pre_row v2) = a_h d) \<longleftrightarrow> Suc j = n"
    using replay_row_end [OF ok j mv] F by (simp only: R_def)
  have lastk: "u64_of_int (vr_x_repeat v2) = w_fold g2 - 1 \<longleftrightarrow> Suc k = unat nf"
  proof -
    have "1 \<le> nf" using k by (simp add: word_le_nat_alt)
    then have "unat (nf - 1) = unat nf - 1" by (simp add: unat_sub)
    moreover have "u64_of_int (int k) = nf - 1 \<longleftrightarrow> k = unat (nf - 1)" using k by (intro u64_of_nat_eq) simp
    ultimately show ?thesis using F k by auto
  qed
  have pn: "int_of_u64 (of_nat p) = int p" by (rule int_of_u64_of_nat [OF jb(2)])
  have base: "VertexReader_TransferData c d s =
     (if Suc j = n then
       if Suc k \<noteq> unat nf
       then Inr (vs ! j, v2\<lparr>vr_pre_row := int_of_u64 (vr_pre_row_archive v2), vr_x_repeat := vr_x_repeat v2 + 1,
                        v_cache_idx := 0\<rparr>, g2, m2)
       else bindE (next_block c d v2 g2) (\<lambda>(v3, g3). Inr (vs ! j, v3, g3, m2))
     else Inr (vs ! j, v2, g2, m2))"
    using a(1,7,8) k(1) uj j n R J cr fin lastk
    by (simp add: VertexReader_TransferData_def s transfer_replay_def a(9) del: of_nat_Suc cong: if_cong split del: if_split)
  from next_block_ok [OF c F(9), of d v2] obtain tot where
    nb: "tot = int (ceil_div (unat n') (unat (CACHE_LINE_COUNT c)))"
      "next_block c d v2 g2 = Inr (v2\<lparr>vr_flag := \<lparr>req_need = (u64_of_int (vr_pre_row v2) \<noteq> a_h d), q_empty = True\<rparr>,
            vr_pre_row_archive := u64_of_int (vr_pre_row v2), v_cache_idx := 0, vr_x_repeat := 0,
            vr_req_stat := (vr_req_stat v2)\<lparr>tot_read_cnt := tot, pre_read_cnt := 0\<rparr>\<rparr>,
          g2\<lparr>v_cache := [], vertex_req_count := blocks\<rparr>)" by blast
  have "p + n < 2 ^ 64" using jb(3) by simp
  then have ends: "u64_of_int (int (p + n)) = a_h d \<longleftrightarrow> p + n = unat (a_h d)" by (rule u64_of_nat_eq)
  have endw: "u64_of_int (int (p + n)) = of_nat (p + n)" by (rule of_nat_u64)
  consider (more) "Suc j \<noteq> n" | (again) "Suc j = n" "Suc k \<noteq> unat nf" | (over) "Suc j = n" "Suc k = unat nf" by blast
  then show ?thesis
  proof cases
    case more
    then show ?thesis using base F k(1) by (simp add: vr_at_def R_def)
  next
    case again
    then show ?thesis using base F pn by (simp add: vr_at_def)
  next
    case over
    then have "R = int (p + n)" by (simp add: R_def)
    then show ?thesis using base over F nb ends endw by (simp add: vr_done_def del: of_nat_add)
  qed
qed

text \<open>One pass over the block.\<close>

lemma vr_first_pass:
  assumes ok: "block_ok d g0 p n" and mv: "max_v g0 = mv" and n: "length vs = n"
    and at: "vr_at vs p blocks mv nf 0 0 s"
  shows "\<exists>s'. repeatE n (VertexReader_TransferData c d) s = Inr (vs, s') \<and> vr_at vs p blocks mv nf 1 0 s'"
proof -
  let ?P = "\<lambda>j s. if j = n then vr_at vs p blocks mv nf 1 0 s else vr_at vs p blocks mv nf 0 j s"
  have "0 < n" using ok by (simp add: block_ok_def)
  then have "?P 0 s" using at by simp
  moreover have "\<exists>s'. VertexReader_TransferData c d s = Inr (vs ! j, s') \<and> ?P (Suc j) s'" if "j < n" "?P j s" for j s
    using vr_first_step [OF ok mv n that(1), of blocks nf s c] that by auto
  ultimately have "\<exists>s'. repeatE n (VertexReader_TransferData c d) s = Inr (map ((!) vs) [0 ..< n], s') \<and> ?P n s'"
    by (rule repeatE_steps)
  moreover have "map ((!) vs) [0 ..< n] = vs" using n map_nth by blast
  ultimately show ?thesis by simp
qed

lemma vr_replay_pass:
  assumes ok: "block_ok d g0 p n" and mv: "max_v g0 = mv" and n: "length vs = n"
    and k: "0 < k" "k < unat nf" "unat nf < 2 ^ 31" and c: "line_cfg c" "unat n' < 2 ^ 31"
    and at: "vr_at vs p (n' # blocks) mv nf k 0 s"
  shows "\<exists>s'. repeatE n (VertexReader_TransferData c d) s = Inr (vs, s')
    \<and> (if Suc k \<noteq> unat nf then vr_at vs p (n' # blocks) mv nf (Suc k) 0 s' else vr_done c d (p + n) n' blocks mv nf s')"
proof -
  let ?Q = "\<lambda>s. if Suc k \<noteq> unat nf then vr_at vs p (n' # blocks) mv nf (Suc k) 0 s else vr_done c d (p + n) n' blocks mv nf s"
  let ?P = "\<lambda>j s. if j = n then ?Q s else vr_at vs p (n' # blocks) mv nf k j s"
  have "0 < n" using ok by (simp add: block_ok_def)
  then have "?P 0 s" using at by simp
  moreover have "\<exists>s'. VertexReader_TransferData c d s = Inr (vs ! j, s') \<and> ?P (Suc j) s'" if "j < n" "?P j s" for j s
  proof -
    have "vr_at vs p (n' # blocks) mv nf k j s" using that by (simp split: if_splits)
    from vr_replay_step [OF ok mv n that(1) k c this] obtain s' where
      "VertexReader_TransferData c d s = Inr (vs ! j, s')"
      "if Suc j \<noteq> n then vr_at vs p (n' # blocks) mv nf k (Suc j) s' else ?Q s'" by blast
    then show ?thesis by (intro exI [of _ s']) (simp split: if_splits)
  qed
  ultimately have "\<exists>s'. repeatE n (VertexReader_TransferData c d) s = Inr (map ((!) vs) [0 ..< n], s') \<and> ?P n s'"
    by (rule repeatE_steps)
  moreover have "map ((!) vs) [0 ..< n] = vs" using n map_nth by blast
  ultimately show ?thesis by simp
qed

lemma vr_replay_passes:
  assumes ok: "block_ok d g0 p n" and mv: "max_v g0 = mv" and n: "length vs = n"
    and nf: "unat nf < 2 ^ 31" and c: "line_cfg c" "unat n' < 2 ^ 31"
    and r: "0 < r" "r < unat nf" and at: "vr_at vs p (n' # blocks) mv nf (unat nf - r) 0 s"
  shows "\<exists>s'. repeatE (r * n) (VertexReader_TransferData c d) s = Inr (concat (replicate r vs), s')
    \<and> vr_done c d (p + n) n' blocks mv nf s'"
  using r at
proof (induction r arbitrary: s)
  case (Suc r)
  have k: "0 < unat nf - Suc r" "unat nf - Suc r < unat nf" "Suc (unat nf - Suc r) = unat nf - r" using Suc.prems by auto
  from vr_replay_pass [OF ok mv n k(1,2) nf c Suc.prems(3)] obtain s1 where
    s1: "repeatE n (VertexReader_TransferData c d) s = Inr (vs, s1)"
      "if unat nf - r \<noteq> unat nf then vr_at vs p (n' # blocks) mv nf (unat nf - r) 0 s1
       else vr_done c d (p + n) n' blocks mv nf s1" unfolding k(3) by blast
  show ?case
  proof (cases "r = 0")
    case True
    then show ?thesis using s1 by simp
  next
    case False
    then have "vr_at vs p (n' # blocks) mv nf (unat nf - r) 0 s1" using s1(2) Suc.prems by (auto split: if_splits)
    from Suc.IH [OF _ _ this] False Suc.prems obtain s2 where
      "repeatE (r * n) (VertexReader_TransferData c d) s1 = Inr (concat (replicate r vs), s2)"
      "vr_done c d (p + n) n' blocks mv nf s2" by (metis Suc_lessD not_gr_zero)
    then show ?thesis using s1(1) by (simp add: repeatE_add)
  qed
qed simp

lemma vr_block:
  assumes ok: "block_ok d g0 p n" and mv: "max_v g0 = mv" and n: "length vs = n"
    and nf: "2 \<le> unat nf" "unat nf < 2 ^ 31" and c: "line_cfg c" "unat n' < 2 ^ 31"
    and at: "vr_at vs p (n' # blocks) mv nf 0 0 s"
  shows "\<exists>s'. repeatE (unat nf * n) (VertexReader_TransferData c d) s = Inr (concat (replicate (unat nf) vs), s')
    \<and> vr_done c d (p + n) n' blocks mv nf s'"
proof -
  from vr_first_pass [OF ok mv n at] obtain s1 where
    s1: "repeatE n (VertexReader_TransferData c d) s = Inr (vs, s1)" "vr_at vs p (n' # blocks) mv nf 1 0 s1" by blast
  define r where "r = unat nf - 1"
  have r: "0 < r" "r < unat nf" "unat nf - r = 1" "unat nf = Suc r" using nf(1) by (auto simp: r_def)
  from vr_replay_passes [OF ok mv n nf(2) c r(1,2), of blocks s1] s1(2) r(3) obtain s2 where
    "repeatE (r * n) (VertexReader_TransferData c d) s1 = Inr (concat (replicate r vs), s2)"
    "vr_done c d (p + n) n' blocks mv nf s2" by auto
  then show ?thesis using s1(1) by (simp add: r(4) repeatE_add)
qed

section \<open>Requests of a block\<close>

text \<open>The run loop calls \<open>Request\<close> whenever \<open>req_need\<close> is set.\<close>

definition vr_request_turn :: "ini_config \<Rightarrow> vreader \<times> 'm dram_if \<Rightarrow> vreader \<times> 'm dram_if" where
  "vr_request_turn c s = (if req_need (vr_flag (fst s)) then VertexReader_Request c s else s)"

lemma vr_request_burst:
  assumes "pre_read_cnt (vr_req_stat v) + int k = tot_read_cnt (vr_req_stat v)" and "0 < k" and "req_need (vr_flag v)"
    and room: "unat (vr_q_space v) + Suc k * unat (CACHE_LINE_COUNT c) \<le> 1000000"
  shows "\<exists>v' m'. (vr_request_turn c ^^ k) (v, m) = (v', m')
    \<and> t_queue m' = t_queue m @ map (\<lambda>i. (vr_req_address v + of_nat i * CACHE_LINE_BYTE c, READ)) [0 ..< k]
    \<and> \<not> req_need (vr_flag v') \<and> pre_read_cnt (vr_req_stat v') = tot_read_cnt (vr_req_stat v')
    \<and> vr_req_address v' = vr_req_address v + of_nat k * CACHE_LINE_BYTE c"
  using assms
proof (induction k arbitrary: v m)
  case (Suc k)
  let ?L = "unat (CACHE_LINE_COUNT c)"
  obtain v1 m1 where r: "vr_request_turn c (v, m) = (v1, m1)" by (cases "vr_request_turn c (v, m)")
  have space: "unat (vr_q_space v + CACHE_LINE_COUNT c) = unat (vr_q_space v) + ?L"
    using Suc.prems(4) unat_add_lem [of "vr_q_space v" "CACHE_LINE_COUNT c"] by simp
  have "unat (1000000 - (vr_q_space v + CACHE_LINE_COUNT c)) = 1000000 - (unat (vr_q_space v) + ?L)"
    using Suc.prems(4) by (subst unat_sub) (simp_all add: word_le_nat_alt space)
  then have room1: "\<not> queue_room (vr_q_space v + CACHE_LINE_COUNT c) < CACHE_LINE_COUNT c"
    using Suc.prems(4) by (simp add: queue_room_def MAX_QUEUE_SIZE_def u64_of_int_def word_less_nat_alt)
  have v1: "vr_req_stat v1 = (vr_req_stat v)\<lparr>pre_read_cnt := pre_read_cnt (vr_req_stat v) + 1\<rparr>"
    "vr_q_space v1 = vr_q_space v + CACHE_LINE_COUNT c" "vr_req_address v1 = vr_req_address v + CACHE_LINE_BYTE c"
    "req_need (vr_flag v1) \<longleftrightarrow> k \<noteq> 0" "t_queue m1 = t_queue m @ [(vr_req_address v, READ)]"
    using r Suc.prems(1,3) room1
    by (auto simp: vr_request_turn_def VertexReader_Request_def Let_def request_done_def DRAMRequest_def split: if_splits)
  show ?case
  proof (cases "k = 0")
    case True
    then show ?thesis using r v1 Suc.prems(1) by simp
  next
    case False
    have "\<exists>v' m'. (vr_request_turn c ^^ k) (v1, m1) = (v', m')
      \<and> t_queue m' = t_queue m1 @ map (\<lambda>i. (vr_req_address v1 + of_nat i * CACHE_LINE_BYTE c, READ)) [0 ..< k]
      \<and> \<not> req_need (vr_flag v') \<and> pre_read_cnt (vr_req_stat v') = tot_read_cnt (vr_req_stat v')
      \<and> vr_req_address v' = vr_req_address v1 + of_nat k * CACHE_LINE_BYTE c"
      by (rule Suc.IH) (use v1 False Suc.prems(1,4) space in auto)
    moreover have "map (\<lambda>i. (vr_req_address v + of_nat i * CACHE_LINE_BYTE c, READ)) [0 ..< Suc k]
        = (vr_req_address v, READ) # map (\<lambda>i. (vr_req_address v1 + of_nat i * CACHE_LINE_BYTE c, READ)) [0 ..< k]"
      unfolding upt_conv_Cons [OF zero_less_Suc] map_Suc_upt [symmetric] by (simp add: v1 algebra_simps)
    ultimately show ?thesis using r v1 by (auto simp: funpow_swap1 algebra_simps simp del: upt_Suc)
  qed
qed simp

end
