(* ===== verification/Edge_Reader.thy ===== *)
theory Edge_Reader
  imports Vertex_Reader
begin

text \<open>
  \<open>EdgeReader.cpp\<close>: requests the column indices of the current block, receives one row pointer
  at a time and consumes that row's edges (\<open>OuterProduct\<close>), from the queue \<open>eq\<close> in the first pass
  over a block and from \<open>e_cache\<close> in the following passes; after each pass it writes the partial
  output (\<open>Write\<close>).  \<open>TransferData\<close> is the older path that hands single edges to the buffer.
  The member \<open>x_repeat\<close> is not initialised by the constructor and is an argument here.
\<close>

record ereader =
  er_pre_wf :: int
  er_can_receive :: bool
  er_flag :: ReaderFlag
  er_x_repeat :: int
  e_cache_idx :: u64
  er_pre_row_archive :: u64
  write_count :: int
  do_write :: bool
  er_id :: int
  transfer_cnt :: int
  er_wf_start :: int
  a_col_size :: u64
  er_q_space :: u64
  er_offset :: u64
  er_req_address :: u64
  write_address :: u64
  er_pre_row :: int
  er_tot_repeat :: int
  tot_req_repeat :: int
  er_pre_rep :: int
  pre_req_repeat :: int
  cur_v :: u64
  prev_v :: u64
  remain_col_num :: u64
  col_num_archive :: u64
  er_req_stat :: RCNT
  er_row_info :: RowInfo
  eq :: "u64 list"
  ev :: "u64 list"

definition lines_of_rows :: "ini_config \<Rightarrow> dims \<Rightarrow> int result" where
  "lines_of_rows c d = ceil_div_int double_p (a_h d) (CACHE_LINE_COUNT c)"

definition EdgeReader_new ::
  "ini_config \<Rightarrow> dims \<Rightarrow> int \<Rightarrow> int \<Rightarrow> u64 \<Rightarrow> u64 \<Rightarrow> RowInfo \<Rightarrow> globals \<Rightarrow> (ereader \<times> globals) result" where
  "EdgeReader_new c d xr i off cols ri g =
     bindE (q_front (edge_req_count g)) (\<lambda>n.
     bindE (ceil_div_int double_p n (CACHE_LINE_COUNT c)) (\<lambda>tot.
     bindE (q_pop (edge_req_count g)) (\<lambda>rest.
     bindE (lines_of_rows c d) (\<lambda>wc.
     Inr (\<lparr>er_pre_wf = 0, er_can_receive = True, er_flag = \<lparr>req_need = True, q_empty = True\<rparr>,
           er_x_repeat = xr, e_cache_idx = 0, er_pre_row_archive = 0, write_count = wc, do_write = False,
           er_id = i, transfer_cnt = 0, er_wf_start = 0, a_col_size = cols, er_q_space = 0,
           er_offset = off, er_req_address = A_COL_START c + off, write_address = AXW_START c,
           er_pre_row = 0, er_tot_repeat = int_of_u64 (w_fold g), tot_req_repeat = int_of_u64 (w_fold g),
           er_pre_rep = 0, pre_req_repeat = 0, cur_v = 0, prev_v = 0, remain_col_num = 0, col_num_archive = 0,
           er_req_stat = \<lparr>tot_read_cnt = tot, pre_read_cnt = 0, read_cnt_acm = 0\<rparr>,
           er_row_info = ri, eq = [], ev = []\<rparr>,
          g\<lparr>edge_req_count := rest, last_v := 0, block_cnt := 0\<rparr>)))))"

section \<open>The outer product path\<close>

text \<open>\<open>pre_row % max_v == 0 || pre_row == a_h\<close>: the row just finished ends the block.\<close>

definition block_end :: "dims \<Rightarrow> globals \<Rightarrow> ereader \<Rightarrow> bool result" where
  "block_end d g e =
     bindE (u_rem (u64_of_int (er_pre_row e)) (max_v g)) (\<lambda>r.
     Inr (r = 0 \<or> u64_of_int (er_pre_row e) = a_h d))"

definition refresh_need :: "ini_config \<Rightarrow> ereader \<Rightarrow> ereader" where
  "refresh_need c e =
     (if pre_read_cnt (er_req_stat e) < tot_read_cnt (er_req_stat e)
         \<and> queue_room (er_q_space e) > CACHE_LINE_COUNT c
      then e\<lparr>er_flag := (er_flag e)\<lparr>req_need := True\<rparr>\<rparr> else e)"

definition outer_first :: "ini_config \<Rightarrow> dims \<Rightarrow> ereader \<times> globals \<Rightarrow> (ereader \<times> globals) result" where
  "outer_first c d s = (case s of (e, g) \<Rightarrow>
     bindE (q_front (eq e)) (\<lambda>row.
     bindE (q_pop (eq e)) (\<lambda>rest.
     let g1 = g\<lparr>e_cache := e_cache g @ [row]\<rparr>;
         e1 = refresh_need c (e\<lparr>eq := rest, er_q_space := er_q_space e - 1\<rparr>);
         e2 = e1\<lparr>remain_col_num := remain_col_num e1 - 1\<rparr> in
     if remain_col_num e2 = 0 then
       bindE (block_end d g1 e2) (\<lambda>fin.
       let e3 = e2\<lparr>er_can_receive := True\<rparr> in
       Inr (if fin then e3\<lparr>er_pre_row := int_of_u64 (er_pre_row_archive e3), er_x_repeat := er_x_repeat e3 + 1,
                         do_write := True\<rparr> else e3, g1))
     else Inr (e2, g1))))"

definition edge_next_block :: "ini_config \<Rightarrow> dims \<Rightarrow> ereader \<Rightarrow> globals \<Rightarrow> (ereader \<times> globals) result" where
  "edge_next_block c d e g =
     bindE (q_front (edge_req_count g)) (\<lambda>n.
     bindE (ceil_div_int double_p n (CACHE_LINE_COUNT c)) (\<lambda>tot.
     bindE (q_pop (edge_req_count g)) (\<lambda>rest.
     let last_row = (u64_of_int (er_pre_row e) = a_h d) in
     Inr (e\<lparr>er_req_stat := (er_req_stat e)\<lparr>tot_read_cnt := tot, pre_read_cnt := 0\<rparr>,
            er_can_receive := (if last_row then False else er_can_receive e),
            er_flag := (if last_row then er_flag e else (er_flag e)\<lparr>req_need := True\<rparr>),
            er_pre_row_archive := u64_of_int (er_pre_row e), e_cache_idx := 0, er_x_repeat := 0, do_write := True\<rparr>,
          g\<lparr>block_cnt := block_cnt g + 1, edge_req_count := rest, last_v := v_arch g, e_cache := []\<rparr>))))"

definition outer_replay :: "ini_config \<Rightarrow> dims \<Rightarrow> ereader \<times> globals \<Rightarrow> (ereader \<times> globals) result" where
  "outer_replay c d s = (case s of (e, g) \<Rightarrow>
     bindE (vec_get (e_cache g) (unat (e_cache_idx e))) (\<lambda>row.
     let e1 = e\<lparr>e_cache_idx := e_cache_idx e + 1, remain_col_num := remain_col_num e - 1\<rparr> in
     if remain_col_num e1 = 0 then
       let e2 = e1\<lparr>er_can_receive := True\<rparr> in
       bindE (block_end d g e2) (\<lambda>fin.
       if \<not> fin then Inr (e2, g)
       else if u64_of_int (er_x_repeat e2) \<noteq> w_fold g - 1 then
         Inr (e2\<lparr>er_pre_row := int_of_u64 (er_pre_row_archive e2), er_x_repeat := er_x_repeat e2 + 1,
                 e_cache_idx := 0, do_write := True\<rparr>, g)
       else edge_next_block c d e2 g)
     else Inr (e1, g)))"

definition OuterProduct :: "ini_config \<Rightarrow> dims \<Rightarrow> ereader \<times> globals \<Rightarrow> (ereader \<times> globals) result" where
  "OuterProduct c d s =
     (if eq (fst s) \<noteq> [] \<and> remain_col_num (fst s) \<noteq> 0 \<and> er_x_repeat (fst s) = 0 then outer_first c d s
      else if er_x_repeat (fst s) > 0 \<and> remain_col_num (fst s) \<noteq> 0 then outer_replay c d s
      else Inr s)"

text \<open>Every write of a pass goes to \<open>write_address\<close>, which is never advanced.\<close>

definition EdgeReader_Write :: "ini_config \<Rightarrow> dims \<Rightarrow> ereader \<times> 'm dram_if \<Rightarrow> (ereader \<times> 'm dram_if) result" where
  "EdgeReader_Write c d s = (case s of (e, m) \<Rightarrow>
     if do_write e then
       let m1 = DRAMRequest (write_address e) WRITE m;
           e1 = e\<lparr>write_count := write_count e - 1\<rparr> in
       if write_count e1 = 0 then
         bindE (lines_of_rows c d) (\<lambda>n. Inr (e1\<lparr>write_count := n, do_write := False\<rparr>, m1))
       else Inr (e1, m1)
     else Inr s)"

definition EdgeReader_IsEndRequest :: "ereader \<Rightarrow> bool" where
  "EdgeReader_IsEndRequest e \<longleftrightarrow> pre_read_cnt (er_req_stat e) = tot_read_cnt (er_req_stat e)
     \<and> pre_req_repeat e < tot_req_repeat e - 1"

definition EdgeReader_IsEndOperation :: "ereader \<Rightarrow> globals \<Rightarrow> bool" where
  "EdgeReader_IsEndOperation e g \<longleftrightarrow> pre_read_cnt (er_req_stat e) = tot_read_cnt (er_req_stat e)
     \<and> edge_req_count g = []"

definition EdgeReader_CanVertexReceive :: "ereader \<Rightarrow> bool" where
  "EdgeReader_CanVertexReceive e = er_can_receive e"

definition EdgeReader_ReceiveData :: "u64 list \<Rightarrow> ereader \<Rightarrow> ereader" where
  "EdgeReader_ReceiveData data e =
     e\<lparr>er_req_stat := (er_req_stat e)\<lparr>read_cnt_acm := read_cnt_acm (er_req_stat e) + 1\<rparr>,
       eq := eq e @ data, er_flag := (er_flag e)\<lparr>q_empty := False\<rparr>\<rparr>"

definition EdgeReader_ReceiveVertex :: "dims \<Rightarrow> u64 \<Rightarrow> ereader \<times> globals \<Rightarrow> ereader \<times> globals" where
  "EdgeReader_ReceiveVertex d vertex s = (case s of (e, g) \<Rightarrow>
     if vertex < NO_VERTEX then
       let prev = (if cur_v e > vertex then last_v g else cur_v e);
           rem = vertex - prev;
           e1 = e\<lparr>prev_v := prev, cur_v := vertex, remain_col_num := rem, col_num_archive := rem,
                  er_can_receive := False, er_pre_row := er_pre_row e + 1\<rparr>;
           g1 = g\<lparr>v_arch := vertex\<rparr> in
       if rem = 0 then
         let e2 = e1\<lparr>er_can_receive := True\<rparr> in
         (if u64_of_int (er_pre_row e2) = a_h d then e2\<lparr>er_pre_row := 0, do_write := True\<rparr> else e2, g1)
       else (e1, g1)
     else s)"

definition EdgeReader_Request :: "ini_config \<Rightarrow> ereader \<times> 'm dram_if \<Rightarrow> ereader \<times> 'm dram_if" where
  "EdgeReader_Request c s = (case s of (e, m) \<Rightarrow>
     let space = er_q_space e + CACHE_LINE_COUNT c;
         st = (er_req_stat e)\<lparr>pre_read_cnt := pre_read_cnt (er_req_stat e) + 1\<rparr> in
     (e\<lparr>er_q_space := space, er_req_stat := st,
        er_flag := (er_flag e)\<lparr>req_need := (if request_done c space st then False else req_need (er_flag e))\<rparr>,
        er_req_address := er_req_address e + CACHE_LINE_BYTE c\<rparr>,
      DRAMRequest (er_req_address e) READ m))"

definition EdgeReader_ResetRequestStat :: "ini_config \<Rightarrow> ereader \<Rightarrow> ereader" where
  "EdgeReader_ResetRequestStat c e =
     e\<lparr>er_req_stat := (er_req_stat e)\<lparr>pre_read_cnt := 0\<rparr>, er_req_address := A_COL_START c + er_offset e,
       pre_req_repeat := pre_req_repeat e + 1\<rparr>"

definition EdgeReader_TurnOffFlag :: "ereader \<Rightarrow> ereader" where
  "EdgeReader_TurnOffFlag e = e\<lparr>er_flag := (er_flag e)\<lparr>req_need := False\<rparr>\<rparr>"

section \<open>The transfer path\<close>

definition edge_address :: "ini_config \<Rightarrow> dims \<Rightarrow> ereader \<Rightarrow> u64 \<Rightarrow> u64 result" where
  "edge_address c d e col =
     bindE (u_div (u64_of_int (er_pre_wf e - er_wf_start e)) (CACHE_LINE_COUNT c)) (\<lambda>q.
     Inr (XW_START c + (x_h d * u64_of_int (er_pre_rep e) * u64_of_int (UNIT_W_READ c)
          + col * u64_of_int (UNIT_W_READ c) + q) * CACHE_LINE_BYTE c))"

text \<open>What follows \<open>pre_w_fold++\<close>: the end of the row, and the end of the sweep.\<close>

definition transfer_advance :: "globals \<Rightarrow> int \<Rightarrow> int \<Rightarrow> ereader \<Rightarrow> ereader" where
  "transfer_advance g limit_w_fold start_w_fold e =
     (if er_pre_wf e = limit_w_fold then
        (if remain_col_num e = 1 then
           let e1 = e\<lparr>er_q_space := er_q_space e - of_nat (length (ev e)), ev := [], er_pre_wf := start_w_fold,
                      remain_col_num := remain_col_num e - 1\<rparr> in
           if u64_of_int (er_pre_row e1) \<noteq> row_end (er_row_info e1) \<or> u64_of_int (er_pre_wf e1) \<noteq> w_fold g
           then e1\<lparr>er_can_receive := True\<rparr>
           else e1\<lparr>er_flag := (er_flag e1)\<lparr>q_empty := True\<rparr>\<rparr>
         else e\<lparr>er_pre_wf := start_w_fold, remain_col_num := remain_col_num e - 1\<rparr>)
      else e)"

definition EdgeReader_TransferData :: "ini_config \<Rightarrow> dims \<Rightarrow> globals \<Rightarrow> ereader \<Rightarrow> (ERData \<times> ereader) result" where
  "EdgeReader_TransferData c d g e =
     (let unit = UNIT_W_READ c;
          start_w_fold = er_pre_rep e * unit;
          lim0 = er_pre_rep e * unit + unit;
          limit_w_fold = (if u64_of_int lim0 > w_fold g then int_of_u64 (w_fold g) else lim0);
          e0 = e\<lparr>transfer_cnt := transfer_cnt e + 1\<rparr> in
      bindE (c_rem (er_pre_wf e0) unit) (\<lambda>r.
      bindE (if r = 0 then bindE (q_front (eq e0)) (\<lambda>x. bindE (q_pop (eq e0)) (\<lambda>q. Inr (e0\<lparr>ev := ev e0 @ [x], eq := q\<rparr>)))
             else Inr e0) (\<lambda>e1.
      bindE (vec_get (ev e1) (unat (col_num_archive e1 - remain_col_num e1))) (\<lambda>col.
      bindE (u_div (u64_of_int (er_pre_wf e1)) (CACHE_LINE_COUNT c)) (\<lambda>wfq.
      bindE (edge_address c d e1 col) (\<lambda>addr.
      let ret = \<lparr>rowindex = u64_of_int (er_pre_row e1), colindex = col, er_address = addr,
                 er_pre_w_fold = int_of_u64 wfq, er_pre_w_fold_start = er_wf_start e1,
                 er_pre_repeat = er_pre_rep e1, is_end = (remain_col_num e1 = 1)\<rparr>;
          e2 = refresh_need c e1;
          e3 = transfer_advance g limit_w_fold start_w_fold (e2\<lparr>er_pre_wf := er_pre_wf e2 + 1\<rparr>);
          e4 = (if er_pre_wf e3 = start_w_fold \<and> eq e3 = []
                then e3\<lparr>er_flag := (er_flag e3)\<lparr>q_empty := True\<rparr>\<rparr> else e3);
          e5 = (if u64_of_int (transfer_cnt e4) = a_col_size e4 * u64_of_int unit
                then e4\<lparr>er_pre_rep := er_pre_rep e4 + 1, er_pre_wf := (er_pre_rep e4 + 1) * unit,
                        er_wf_start := (er_pre_rep e4 + 1) * unit, transfer_cnt := 0\<rparr> else e4) in
      Inr (ret, e5)))))))"

section \<open>Writing a pass\<close>

abbreviation repeatedly :: "nat \<Rightarrow> ('s \<Rightarrow> 's result) \<Rightarrow> 's \<Rightarrow> 's result" where
  "repeatedly k f \<equiv> foldE (\<lambda>_. f) [0 ..< k]"

lemma foldE_const_len: "length xs = length ys \<Longrightarrow> foldE (\<lambda>_. f) xs s = foldE (\<lambda>_. f) ys s"
proof (induction xs arbitrary: ys s)
  case (Cons x xs)
  then obtain y ys' where ys: "ys = y # ys'" "length xs = length ys'" by (cases ys) auto
  then have "foldE (\<lambda>_. f) xs = foldE (\<lambda>_. f) ys'" using Cons.IH by blast
  then show ?case by (simp add: ys)
qed simp

lemma repeatedly_Suc: "repeatedly (Suc k) f s = bindE (f s) (repeatedly k f)"
proof -
  have "repeatedly (Suc k) f s = foldE (\<lambda>_. f) (0 # [0 ..< k]) s" by (rule foldE_const_len) simp
  then show ?thesis by simp
qed

lemma write_burst:
  assumes "lines_of_rows c d = Inr n" and "do_write e" and "write_count e = int k" and "0 < k"
  shows "\<exists>e' m'. repeatedly k (EdgeReader_Write c d) (e, m) = Inr (e', m')
    \<and> t_queue m' = t_queue m @ replicate k (write_address e, WRITE)
    \<and> \<not> do_write e' \<and> write_count e' = n \<and> write_address e' = write_address e"
  using assms(2-4)
proof (induction k arbitrary: e m)
  case (Suc k)
  show ?case
  proof (cases "k = 0")
    case True
    then show ?thesis using Suc.prems assms(1)
      unfolding repeatedly_Suc by (simp add: EdgeReader_Write_def Let_def DRAMRequest_def)
  next
    case False
    let ?e = "e\<lparr>write_count := write_count e - 1\<rparr>" and ?m = "DRAMRequest (write_address e) WRITE m"
    have w: "EdgeReader_Write c d (e, m) = Inr (?e, ?m)"
      using Suc.prems False by (simp add: EdgeReader_Write_def Let_def)
    from Suc.IH [of ?e ?m] Suc.prems False obtain e' m' where
      "repeatedly k (EdgeReader_Write c d) (?e, ?m) = Inr (e', m')"
      "t_queue m' = t_queue ?m @ replicate k (write_address e, WRITE)"
      "\<not> do_write e'" "write_count e' = n" "write_address e' = write_address e" by auto
    then show ?thesis unfolding repeatedly_Suc w by (simp add: DRAMRequest_def)
  qed
qed simp

section \<open>Consuming a row\<close>

text \<open>In the first pass over a block, a row with \<open>k\<close> edges takes \<open>k\<close> steps: the edges leave the
  queue in order, are remembered for the later passes, and the reader accepts the next row.\<close>

lemma outer_first_eq:
  assumes "eq e = x # q" and "remain_col_num e \<noteq> 1" and "remain_col_num e \<noteq> 0" and "er_x_repeat e = 0"
  shows "OuterProduct c d (e, g) = Inr ((refresh_need c (e\<lparr>eq := q, er_q_space := er_q_space e - 1\<rparr>))\<lparr>remain_col_num := remain_col_num e - 1\<rparr>,
     g\<lparr>e_cache := e_cache g @ [x]\<rparr>)"
  using assms by (auto simp: OuterProduct_def outer_first_def Let_def refresh_need_def)

lemma refresh_need_frame:
  "eq (refresh_need c e) = eq e" "remain_col_num (refresh_need c e) = remain_col_num e"
  "er_x_repeat (refresh_need c e) = er_x_repeat e" "er_pre_row (refresh_need c e) = er_pre_row e"
  "er_pre_row_archive (refresh_need c e) = er_pre_row_archive e" "do_write (refresh_need c e) = do_write e"
  by (simp_all add: refresh_need_def)

lemma row_consumed:
  assumes "unat (remain_col_num e) = k" and "0 < k" and "er_x_repeat e = 0" and "k \<le> length (eq e)" and "max_v g \<noteq> 0"
    and fin: "fin \<longleftrightarrow> u64_of_int (er_pre_row e) mod max_v g = 0 \<or> u64_of_int (er_pre_row e) = a_h d"
  shows "\<exists>e' g'. repeatedly k (OuterProduct c d) (e, g) = Inr (e', g')
    \<and> eq e' = drop k (eq e) \<and> e_cache g' = e_cache g @ take k (eq e) \<and> remain_col_num e' = 0 \<and> er_can_receive e'
    \<and> (if fin then er_x_repeat e' = 1 \<and> do_write e' \<and> er_pre_row e' = int_of_u64 (er_pre_row_archive e)
       else er_x_repeat e' = 0 \<and> do_write e' = do_write e \<and> er_pre_row e' = er_pre_row e)"
  using assms
proof (induction k arbitrary: e g)
  case (Suc k)
  then obtain x q where q: "eq e = x # q" by (cases "eq e") auto
  have nz: "remain_col_num e \<noteq> 0" using Suc.prems(1) by auto
  show ?case
  proof (cases "k = 0")
    case True
    then have one: "remain_col_num e = 1" using Suc.prems(1) by (simp add: word_unat_eq_iff)
    show ?thesis
      unfolding True repeatedly_Suc using one q Suc.prems(3,5,6)
      by (auto simp: OuterProduct_def outer_first_def Let_def block_end_def u_rem_def refresh_need_frame)
  next
    case False
    then have n1: "remain_col_num e \<noteq> 1" using Suc.prems(1) by auto
    let ?e = "(refresh_need c (e\<lparr>eq := q, er_q_space := er_q_space e - 1\<rparr>))\<lparr>remain_col_num := remain_col_num e - 1\<rparr>"
    let ?g = "g\<lparr>e_cache := e_cache g @ [x]\<rparr>"
    have dec: "unat (remain_col_num e - 1) = k"
      using Suc.prems(1) nz by (simp add: unat_minus_one)
    have step: "OuterProduct c d (e, g) = Inr (?e, ?g)" by (rule outer_first_eq [OF q n1 nz Suc.prems(3)])
    have "\<exists>e' g'. repeatedly k (OuterProduct c d) (?e, ?g) = Inr (e', g')
    \<and> eq e' = drop k (eq ?e) \<and> e_cache g' = e_cache ?g @ take k (eq ?e) \<and> remain_col_num e' = 0 \<and> er_can_receive e'
    \<and> (if fin then er_x_repeat e' = 1 \<and> do_write e' \<and> er_pre_row e' = int_of_u64 (er_pre_row_archive ?e)
       else er_x_repeat e' = 0 \<and> do_write e' = do_write ?e \<and> er_pre_row e' = er_pre_row ?e)"
      by (rule Suc.IH) (use False Suc.prems(3-6) q dec in \<open>simp_all add: refresh_need_frame\<close>)
    then show ?thesis unfolding repeatedly_Suc step by (auto simp: refresh_need_frame q split: if_splits)
  qed
qed simp

end
