(* ===== verification/Basis_Path.thy ===== *)
theory Basis_Path
  imports Vertex_Reader
begin

text \<open>
  The stages of the row-wise path: \<open>BasisEdgeReader.cpp\<close> streams, for every edge of a row, the
  \<open>w_fold\<close> feature lines of its column; \<open>XWReader.cpp\<close> queues them twice (for the request to the
  buffer and for the accelerator); \<open>Accelerator.cpp\<close> consumes them and writes an output line at
  the end of each row.
\<close>

section \<open>Basis edge reader\<close>

record breader =
  br_pre_wf :: int
  br_can_receive :: bool
  br_flag :: ReaderFlag
  br_id :: int
  br_q_space :: int
  br_wf_start :: int
  br_offset :: u64
  br_req_address :: u64
  br_pre_row :: int
  br_cur_v :: u64
  br_prev_v :: u64
  br_remain :: u64
  br_archive :: u64
  br_req_stat :: RCNT
  br_row_info :: RowInfo
  br_eq :: "u64 list"
  br_ev :: "u64 list"

definition BasisEdgeReader_new :: "ini_config \<Rightarrow> int \<Rightarrow> u64 \<Rightarrow> u64 \<Rightarrow> RowInfo \<Rightarrow> breader result" where
  "BasisEdgeReader_new c i off cols ri =
     bindE (ceil_div_int double_p cols (CACHE_LINE_COUNT c)) (\<lambda>tot.
     Inr \<lparr>br_pre_wf = 0, br_can_receive = True, br_flag = \<lparr>req_need = True, q_empty = True\<rparr>, br_id = i,
          br_q_space = 0, br_wf_start = 0, br_offset = off, br_req_address = A_COL_START c + off,
          br_pre_row = int_of_u64 (row_start ri - 1), br_cur_v = 0, br_prev_v = 0, br_remain = 0, br_archive = 0,
          br_req_stat = \<lparr>tot_read_cnt = tot, pre_read_cnt = 0, read_cnt_acm = 0\<rparr>,
          br_row_info = ri, br_eq = [], br_ev = []\<rparr>)"

definition basis_advance :: "globals \<Rightarrow> breader \<Rightarrow> breader" where
  "basis_advance g b =
     (if u64_of_int (br_pre_wf b) = w_fold g then
        (if br_remain b = 1 then
           let b1 = b\<lparr>br_q_space := br_q_space b - int (length (br_ev b)), br_ev := [], br_pre_wf := 0,
                      br_remain := br_remain b - 1\<rparr> in
           if u64_of_int (br_pre_row b1) \<noteq> row_end (br_row_info b1) then b1\<lparr>br_can_receive := True\<rparr>
           else b1\<lparr>br_flag := (br_flag b1)\<lparr>q_empty := True\<rparr>\<rparr>
         else b\<lparr>br_pre_wf := 0, br_remain := br_remain b - 1\<rparr>)
      else b)"

definition basis_refresh :: "ini_config \<Rightarrow> breader \<Rightarrow> breader" where
  "basis_refresh c b =
     (if pre_read_cnt (br_req_stat b) < tot_read_cnt (br_req_stat b)
         \<and> u64_of_int (MAX_QUEUE_SIZE - br_q_space b) > CACHE_LINE_COUNT c
      then b\<lparr>br_flag := (br_flag b)\<lparr>req_need := True\<rparr>\<rparr> else b)"

definition BasisEdgeReader_TransferData :: "ini_config \<Rightarrow> globals \<Rightarrow> breader \<Rightarrow> (ERData \<times> breader) result" where
  "BasisEdgeReader_TransferData c g b =
     bindE (if br_pre_wf b = 0
            then bindE (q_front (br_eq b)) (\<lambda>x. bindE (q_pop (br_eq b)) (\<lambda>q. Inr (b\<lparr>br_ev := br_ev b @ [x], br_eq := q\<rparr>)))
            else Inr b) (\<lambda>b1.
     bindE (vec_get (br_ev b1) (unat (br_archive b1 - br_remain b1))) (\<lambda>col.
     let ret = \<lparr>rowindex = u64_of_int (br_pre_row b1), colindex = col,
                er_address = XW_START c + (col * w_fold g + u64_of_int (br_pre_wf b1)) * CACHE_LINE_BYTE c,
                er_pre_w_fold = br_pre_wf b1, er_pre_w_fold_start = br_wf_start b1, er_pre_repeat = 0,
                is_end = (br_remain b1 = 1)\<rparr>;
         b2 = basis_refresh c b1;
         b3 = basis_advance g (b2\<lparr>br_pre_wf := br_pre_wf b2 + 1\<rparr>);
         b4 = (if br_pre_wf b3 = 0 \<and> br_eq b3 = [] then b3\<lparr>br_flag := (br_flag b3)\<lparr>q_empty := True\<rparr>\<rparr> else b3) in
     Inr (ret, b4)))"

definition BasisEdgeReader_IsEndOperation :: "breader \<Rightarrow> bool" where
  "BasisEdgeReader_IsEndOperation b \<longleftrightarrow> pre_read_cnt (br_req_stat b) = tot_read_cnt (br_req_stat b)"

definition BasisEdgeReader_IsEndColomn :: "breader \<Rightarrow> bool" where
  "BasisEdgeReader_IsEndColomn b \<longleftrightarrow> read_cnt_acm (br_req_stat b) = tot_read_cnt (br_req_stat b) \<and> q_empty (br_flag b)"

definition BasisEdgeReader_CanVertexReceive :: "breader \<Rightarrow> bool" where
  "BasisEdgeReader_CanVertexReceive b = br_can_receive b"

definition BasisEdgeReader_ReceiveData :: "u64 list \<Rightarrow> breader \<Rightarrow> breader" where
  "BasisEdgeReader_ReceiveData data b =
     b\<lparr>br_req_stat := (br_req_stat b)\<lparr>read_cnt_acm := read_cnt_acm (br_req_stat b) + 1\<rparr>,
       br_eq := br_eq b @ data, br_flag := (br_flag b)\<lparr>q_empty := False\<rparr>\<rparr>"

text \<open>An empty row is counted as written at once, \<open>w_fold\<close> lines.\<close>

definition BasisEdgeReader_ReceiveVertex :: "globals \<Rightarrow> u64 \<Rightarrow> breader \<times> 'm dram_if \<Rightarrow> breader \<times> 'm dram_if" where
  "BasisEdgeReader_ReceiveVertex g vertex s = (case s of (b, m) \<Rightarrow>
     let rem = vertex - br_cur_v b;
         b1 = b\<lparr>br_prev_v := br_cur_v b, br_cur_v := vertex, br_remain := rem, br_archive := rem,
                br_pre_row := br_pre_row b + 1, br_can_receive := (rem = 0)\<rparr> in
     (b1, if rem = 0 then m\<lparr>tot_axw_count := tot_axw_count m - w_fold g\<rparr> else m))"

definition BasisEdgeReader_Request :: "ini_config \<Rightarrow> breader \<times> 'm dram_if \<Rightarrow> breader \<times> 'm dram_if" where
  "BasisEdgeReader_Request c s = (case s of (b, m) \<Rightarrow>
     let space = int_of_u64 (u64_of_int (br_q_space b) + CACHE_LINE_COUNT c);
         st = (br_req_stat b)\<lparr>pre_read_cnt := pre_read_cnt (br_req_stat b) + 1\<rparr> in
     (b\<lparr>br_q_space := space, br_req_stat := st,
        br_flag := (br_flag b)\<lparr>req_need :=
          (if u64_of_int (MAX_QUEUE_SIZE - space) < CACHE_LINE_COUNT c \<or> pre_read_cnt st = tot_read_cnt st
           then False else req_need (br_flag b))\<rparr>,
        br_req_address := br_req_address b + CACHE_LINE_BYTE c\<rparr>,
      DRAMRequest (br_req_address b) READ m))"

definition BasisEdgeReader_TurnOffFlag :: "breader \<Rightarrow> breader" where
  "BasisEdgeReader_TurnOffFlag b = b\<lparr>br_flag := (br_flag b)\<lparr>req_need := False\<rparr>\<rparr>"

section \<open>XW reader\<close>

record XWRFlag =
  xwr_q_empty :: bool
  xwr_can_receive :: bool

record xwreader =
  xwr_flag :: XWRFlag
  xwr_id :: int
  xwr_a_col_size :: u64
  xwr_tot_req :: u64
  req_cnt :: u64
  xwr_q_space :: u64
  xwq :: "ERData list"
  xwq_archive :: "ERData list"

definition XWReader_new :: "globals \<Rightarrow> int \<Rightarrow> u64 \<Rightarrow> xwreader" where
  "XWReader_new g i cols =
     \<lparr>xwr_flag = \<lparr>xwr_q_empty = True, xwr_can_receive = True\<rparr>, xwr_id = i, xwr_a_col_size = cols,
      xwr_tot_req = cols * w_fold g, req_cnt = 0, xwr_q_space = 0, xwq = [], xwq_archive = []\<rparr>"

definition XWReader_IsEndOperation :: "xwreader \<Rightarrow> bool" where
  "XWReader_IsEndOperation x \<longleftrightarrow> req_cnt x = xwr_tot_req x"

definition XWReader_TransferData :: "xwreader \<Rightarrow> (ERData \<times> xwreader) result" where
  "XWReader_TransferData x =
     bindE (q_front (xwq_archive x)) (\<lambda>ret.
     bindE (q_pop (xwq_archive x)) (\<lambda>q.
     let x1 = x\<lparr>xwq_archive := q, xwr_q_space := xwr_q_space x - 2\<rparr> in
     Inr (ret, if \<not> XWReader_IsEndOperation x1 then x1\<lparr>xwr_flag := (xwr_flag x1)\<lparr>xwr_can_receive := True\<rparr>\<rparr> else x1)))"

definition XWReader_Request :: "xwreader \<Rightarrow> (ERData \<times> xwreader) result" where
  "XWReader_Request x =
     bindE (q_front (xwq x)) (\<lambda>ret.
     bindE (q_pop (xwq x)) (\<lambda>q.
     Inr (ret, x\<lparr>xwq := q, req_cnt := req_cnt x + 1,
                 xwr_flag := (xwr_flag x)\<lparr>xwr_q_empty := (if q = [] then True else xwr_q_empty (xwr_flag x))\<rparr>\<rparr>)))"

definition XWReader_ReceiveData :: "ERData \<Rightarrow> xwreader \<Rightarrow> xwreader" where
  "XWReader_ReceiveData data x =
     (let space = xwr_q_space x + 2 in
      x\<lparr>xwq := xwq x @ [data], xwq_archive := xwq_archive x @ [data], xwr_q_space := space,
        xwr_flag := \<lparr>xwr_q_empty = False,
                     xwr_can_receive = (if queue_room space < 2 then False else xwr_can_receive (xwr_flag x))\<rparr>\<rparr>)"

definition XWReader_TurnOffFlag :: "xwreader \<Rightarrow> xwreader" where
  "XWReader_TurnOffFlag x = x\<lparr>xwr_flag := (xwr_flag x)\<lparr>xwr_can_receive := False\<rparr>\<rparr>"

section \<open>Accelerator\<close>

definition MAC_CYCLE :: int where "MAC_CYCLE = 1"

record accel =
  acc_isA :: bool
  acc_id :: int
  acc_limit :: int
  axw_address :: u64
  acc_axw_offset :: u64
  pe :: u64
  acc_row :: u64
  acc_row_info :: RowInfo
  acc_x_data :: "XRData list"
  a_data :: "ERData list"
  m1_data :: "(XRData \<times> int) list"
  m2_data :: "(ERData \<times> int) list"

definition Accelerator_new :: "ini_config \<Rightarrow> int \<Rightarrow> u64 \<Rightarrow> u64 \<Rightarrow> RowInfo \<Rightarrow> accel result" where
  "Accelerator_new c i off p ri =
     bindE (ceil_div_int float_p p (CACHE_LINE_COUNT c)) (\<lambda>l.
     Inr \<lparr>acc_isA = False, acc_id = i, acc_limit = l, axw_address = AXW_START c + off, acc_axw_offset = off,
          pe = p, acc_row = row_start ri, acc_row_info = ri, acc_x_data = [], a_data = [], m1_data = [], m2_data = []\<rparr>)"

definition Accelerator_CanReceive :: "accel \<Rightarrow> bool" where
  "Accelerator_CanReceive a \<longleftrightarrow>
     (if \<not> acc_isA a then u64_of_nat (length (m1_data a)) < u64_of_int (acc_limit a)
      else u64_of_nat (length (m2_data a)) < u64_of_int (acc_limit a))"

definition Accelerator_ReceiveX :: "XRData \<Rightarrow> accel \<Rightarrow> accel" where
  "Accelerator_ReceiveX data a =
     (if Accelerator_CanReceive a then a\<lparr>m1_data := m1_data a @ [(data, 0)]\<rparr>
      else a\<lparr>acc_x_data := acc_x_data a @ [data]\<rparr>)"

definition Accelerator_ReceiveEdge :: "ERData \<Rightarrow> accel \<Rightarrow> accel" where
  "Accelerator_ReceiveEdge data a =
     (if Accelerator_CanReceive a then a\<lparr>m2_data := m2_data a @ [(data, 0)]\<rparr>
      else a\<lparr>a_data := a_data a @ [data]\<rparr>)"

definition acc_write :: "ini_config \<Rightarrow> accel \<times> 'm dram_if \<Rightarrow> accel \<times> 'm dram_if" where
  "acc_write c s = (case s of (a, m) \<Rightarrow>
     (a\<lparr>axw_address := axw_address a + CACHE_LINE_BYTE c\<rparr>, DRAMRequest (axw_address a) WRITE m))"

definition WriteZeroRow :: "ini_config \<Rightarrow> globals \<Rightarrow> accel \<times> 'm dram_if \<Rightarrow> (globals \<times> accel \<times> 'm dram_if) result" where
  "WriteZeroRow c g s = bindE (q_pop (zero_row g)) (\<lambda>z. Inr (g\<lparr>zero_row := z\<rparr>, acc_write c s))"

text \<open>The loop of \<open>MAC\<close>: \<open>cnt\<close> iterations, an element that is done is erased in place and the
  next queued edge takes its turn later.\<close>

fun mac_loop :: "ini_config \<Rightarrow> nat \<Rightarrow> nat \<Rightarrow> accel \<times> 'm dram_if \<Rightarrow> (accel \<times> 'm dram_if) result" where
  "mac_loop c 0 off s = Inr s"
| "mac_loop c (Suc n) off s =
     (case s of (a, m) \<Rightarrow>
      bindE (vec_get (m2_data a) off) (\<lambda>(data, pre).
      if pre + 1 = MAC_CYCLE then
        let (a1, m1) = (if is_end data then acc_write c (a, m) else (a, m));
            a2 = a1\<lparr>m2_data := erase_at off (m2_data a1)\<rparr>;
            a3 = (case a_data a2 of [] \<Rightarrow> a2
                  | x # xs \<Rightarrow> a2\<lparr>m2_data := m2_data a2 @ [(x, 0)], a_data := xs\<rparr>) in
        mac_loop c n off (a3, m1)
      else mac_loop c n (Suc off) (a\<lparr>m2_data := (m2_data a)[off := (data, pre + 1)]\<rparr>, m)))"

definition MAC :: "ini_config \<Rightarrow> accel \<times> 'm dram_if \<Rightarrow> (accel \<times> 'm dram_if) result" where
  "MAC c s = mac_loop c (length (m2_data (fst s))) 0 s"

section \<open>The accelerator writes one line per finished row\<close>

definition mac_writes :: "ini_config \<Rightarrow> u64 \<Rightarrow> ERData list \<Rightarrow> di_trans list" where
  "mac_writes c addr ds = map (\<lambda>i. (addr + of_nat i * CACHE_LINE_BYTE c, WRITE)) [0 ..< length (filter is_end ds)]"

lemma mac_writes_Cons:
  "mac_writes c addr (d # ds) =
    (if is_end d then (addr, WRITE) # mac_writes c (addr + CACHE_LINE_BYTE c) ds else mac_writes c addr ds)"
proof -
  have "map (\<lambda>i. (addr + of_nat i * CACHE_LINE_BYTE c, WRITE)) [0 ..< Suc n]
      = (addr, WRITE) # map (\<lambda>i. (addr + CACHE_LINE_BYTE c + of_nat i * CACHE_LINE_BYTE c, WRITE)) [0 ..< n]" for n
    unfolding upt_conv_Cons [OF zero_less_Suc] map_Suc_upt [symmetric] by (simp add: algebra_simps)
  then show ?thesis by (simp add: mac_writes_def del: upt_Suc)
qed

lemma mac_loop_spec:
  assumes "m2_data a = map (\<lambda>x. (x, 0)) (xs @ ys)" and "n = length xs"
  shows "\<exists>a' m'. mac_loop c n 0 (a, m) = Inr (a', m')
    \<and> m2_data a' = map (\<lambda>x. (x, 0)) (ys @ take n (a_data a)) \<and> a_data a' = drop n (a_data a)
    \<and> t_queue m' = t_queue m @ mac_writes c (axw_address a) xs
    \<and> axw_address a' = axw_address a + of_nat (length (filter is_end xs)) * CACHE_LINE_BYTE c"
  using assms
proof (induction xs arbitrary: a m n ys)
  case Nil
  then show ?case by (simp add: mac_writes_def)
next
  case (Cons x xs)
  obtain a1 m1 where w: "(if is_end x then acc_write c (a, m) else (a, m)) = (a1, m1)" by fastforce
  have a1: "m2_data a1 = m2_data a" "a_data a1 = a_data a"
    "axw_address a1 = axw_address a + (if is_end x then CACHE_LINE_BYTE c else 0)"
    "t_queue m1 = t_queue m @ (if is_end x then [(axw_address a, WRITE)] else [])"
    using w by (auto simp: acc_write_def DRAMRequest_def split: if_splits)
  let ?a2 = "a1\<lparr>m2_data := erase_at 0 (m2_data a1)\<rparr>"
  let ?a3 = "case a_data ?a2 of [] \<Rightarrow> ?a2 | y # zs \<Rightarrow> ?a2\<lparr>m2_data := m2_data ?a2 @ [(y, 0)], a_data := zs\<rparr>"
  have a3: "m2_data ?a3 = map (\<lambda>x. (x, 0)) (xs @ (ys @ take 1 (a_data a)))" "a_data ?a3 = drop 1 (a_data a)"
    "axw_address ?a3 = axw_address a1"
    using Cons.prems(1) a1 by (auto split: list.splits)
  have step: "mac_loop c n 0 (a, m) = mac_loop c (length xs) 0 (?a3, m1)"
    using Cons.prems w by (simp add: MAC_CYCLE_def Let_def)
  from Cons.IH [OF a3(1) refl, of m1] obtain a' m' where ih: "mac_loop c (length xs) 0 (?a3, m1) = Inr (a', m')"
    "m2_data a' = map (\<lambda>x. (x, 0)) ((ys @ take 1 (a_data a)) @ take (length xs) (a_data ?a3))"
    "a_data a' = drop (length xs) (a_data ?a3)" "t_queue m' = t_queue m1 @ mac_writes c (axw_address ?a3) xs"
    "axw_address a' = axw_address ?a3 + of_nat (length (filter is_end xs)) * CACHE_LINE_BYTE c" by blast
  have "map (\<lambda>x. (x, 0 :: int)) (take (Suc 0) (a_data a)) @ map (\<lambda>x. (x, 0)) (take (length xs) (tl (a_data a)))
      = map (\<lambda>x. (x, 0)) (take (Suc (length xs)) (a_data a))"
    by (cases "a_data a") auto
  then show ?case
    using step ih a1 a3 Cons.prems(2) by (auto simp: mac_writes_Cons algebra_simps drop_Suc)
qed

section \<open>The XW reader keeps its two queues aligned\<close>

definition xw_inv :: "xwreader \<Rightarrow> bool" where
  "xw_inv x \<longleftrightarrow> xwr_q_space x = of_nat (2 * length (xwq_archive x)) \<and> (xwr_q_empty (xwr_flag x) \<longleftrightarrow> xwq x = [])
     \<and> (\<exists>sent. xwq_archive x = sent @ xwq x \<or> xwq x = sent @ xwq_archive x)"

lemma xw_inv_receive: "xw_inv x \<Longrightarrow> xw_inv (XWReader_ReceiveData e x)"
  by (auto simp: xw_inv_def XWReader_ReceiveData_def Let_def)

lemma xw_inv_request:
  assumes "xw_inv x" and "XWReader_Request x = Inr (e, x')"
  shows "xw_inv x'"
proof (cases "xwq x")
  case (Cons y ys)
  then have x': "xwq_archive x' = xwq_archive x" "xwq x' = ys" "xwr_q_space x' = xwr_q_space x"
    "xwr_q_empty (xwr_flag x') = (ys = [] \<or> xwr_q_empty (xwr_flag x))"
    using assms(2) by (auto simp: XWReader_Request_def split: if_splits)
  from assms(1) obtain sent where "xwq_archive x = sent @ y # ys \<or> y # ys = sent @ xwq_archive x"
    by (auto simp: xw_inv_def Cons)
  then have "\<exists>sent. xwq_archive x = sent @ ys \<or> ys = sent @ xwq_archive x"
    by (metis Cons_eq_append_conv append.assoc append_Cons append_Nil)
  then show ?thesis using assms(1) x' by (auto simp: xw_inv_def Cons)
qed (use assms in \<open>simp add: XWReader_Request_def\<close>)

lemma xw_inv_transfer:
  assumes "xw_inv x" and "XWReader_TransferData x = Inr (e, x')"
  shows "xw_inv x'"
proof (cases "xwq_archive x")
  case (Cons y ys)
  then have x': "xwq_archive x' = ys" "xwq x' = xwq x" "xwr_q_space x' = xwr_q_space x - 2"
    "xwr_q_empty (xwr_flag x') = xwr_q_empty (xwr_flag x)"
    using assms(2) by (auto simp: XWReader_TransferData_def Let_def split: if_splits)
  from assms(1) obtain sent where "y # ys = sent @ xwq x \<or> xwq x = sent @ y # ys"
    by (auto simp: xw_inv_def Cons)
  then have "\<exists>sent. ys = sent @ xwq x \<or> xwq x = sent @ ys"
    by (metis Cons_eq_append_conv append.assoc append_Cons append_Nil)
  then show ?thesis using assms(1) x' by (auto simp: xw_inv_def Cons)
qed (use assms in \<open>simp add: XWReader_TransferData_def\<close>)

section \<open>A row is streamed column by column, \<open>w_fold\<close> lines each\<close>

definition basis_item :: "ini_config \<Rightarrow> globals \<Rightarrow> int \<Rightarrow> u64 list \<Rightarrow> nat \<Rightarrow> nat \<Rightarrow> ERData" where
  "basis_item c g row cols i f =
     \<lparr>rowindex = u64_of_int row, colindex = cols ! i,
      er_address = XW_START c + (cols ! i * w_fold g + of_nat f) * CACHE_LINE_BYTE c,
      er_pre_w_fold = int f, er_pre_w_fold_start = 0, er_pre_repeat = 0, is_end = (Suc i = length cols)\<rparr>"

definition br_at :: "int \<Rightarrow> u64 list \<Rightarrow> u64 list \<Rightarrow> nat \<Rightarrow> nat \<Rightarrow> breader \<Rightarrow> bool" where
  "br_at row cols rest i f b \<longleftrightarrow> br_pre_wf b = int f \<and> br_remain b = of_nat (length cols - i)
     \<and> br_archive b = of_nat (length cols) \<and> br_pre_row b = row \<and> br_wf_start b = 0
     \<and> (if i = length cols then br_ev b = [] \<and> br_eq b = rest \<and> (br_can_receive b \<or> q_empty (br_flag b))
        else br_ev b = take (if f = 0 then i else Suc i) cols \<and> br_eq b = drop (if f = 0 then i else Suc i) cols @ rest)"

lemma basis_refresh_frame:
  "br_pre_wf (basis_refresh c b) = br_pre_wf b" "br_remain (basis_refresh c b) = br_remain b"
  "br_archive (basis_refresh c b) = br_archive b" "br_pre_row (basis_refresh c b) = br_pre_row b"
  "br_wf_start (basis_refresh c b) = br_wf_start b" "br_ev (basis_refresh c b) = br_ev b"
  "br_eq (basis_refresh c b) = br_eq b"
  by (simp_all add: basis_refresh_def)

lemma of_nat_u64_inj: "m < 2 ^ 64 \<Longrightarrow> n < 2 ^ 64 \<Longrightarrow> (of_nat m :: u64) = of_nat n \<longleftrightarrow> m = n"
  by (metis of_nat_u64 unat_u64_of_int)

lemma basis_step:
  assumes at: "br_at row cols rest i f b" and i: "i < length cols" and f: "f < unat (w_fold g)"
    and bounds: "length cols < 2 ^ 31" "unat (w_fold g) < 2 ^ 31"
  shows "\<exists>b'. BasisEdgeReader_TransferData c g b = Inr (basis_item c g row cols i f, b')
    \<and> (if Suc f = unat (w_fold g) then br_at row cols rest (Suc i) 0 b' else br_at row cols rest i (Suc f) b')"
proof -
  let ?k = "length cols" and ?nf = "unat (w_fold g)"
  have a: "br_pre_wf b = int f" "br_remain b = of_nat (?k - i)" "br_archive b = of_nat ?k" "br_pre_row b = row"
    "br_wf_start b = 0" "br_ev b = take (if f = 0 then i else Suc i) cols" "br_eq b = drop (if f = 0 then i else Suc i) cols @ rest"
    using at i by (auto simp: br_at_def)
  have di: "drop i cols = cols ! i # drop (Suc i) cols" and ti: "take i cols @ [cols ! i] = take (Suc i) cols"
    using i by (simp_all add: Cons_nth_drop_Suc take_Suc_conv_app_nth)
  define b1 where "b1 = b\<lparr>br_ev := take (Suc i) cols, br_eq := drop (Suc i) cols @ rest\<rparr>"
  have fetch: "(if br_pre_wf b = 0
            then bindE (q_front (br_eq b)) (\<lambda>x. bindE (q_pop (br_eq b)) (\<lambda>q. Inr (b\<lparr>br_ev := br_ev b @ [x], br_eq := q\<rparr>)))
            else Inr b) = Inr b1"
    using a di ti by (cases "f = 0") (simp_all add: b1_def)
  have idx: "unat (br_archive b1 - br_remain b1) = i"
  proof -
    have "of_nat ?k - of_nat (?k - i) = (of_nat i :: u64)" using i by (simp add: of_nat_diff)
    moreover have "unat (of_nat i :: u64) = i" using unat_u64_of_int [of i] i bounds(1) by (simp add: of_nat_u64)
    ultimately show ?thesis using a by (simp add: b1_def)
  qed
  have last: "(of_nat (?k - i) :: u64) = 1 \<longleftrightarrow> Suc i = ?k"
    using of_nat_u64_inj [of "?k - i" 1] i bounds(1) by auto
  have wf: "u64_of_int (int f + 1) = w_fold g \<longleftrightarrow> Suc f = ?nf"
    using u64_of_nat_eq [of "Suc f" "w_fold g"] f bounds(2) by (simp add: add.commute)
  have item: "\<lparr>rowindex = u64_of_int (br_pre_row b1), colindex = cols ! i,
      er_address = XW_START c + (cols ! i * w_fold g + u64_of_int (br_pre_wf b1)) * CACHE_LINE_BYTE c,
      er_pre_w_fold = br_pre_wf b1, er_pre_w_fold_start = br_wf_start b1, er_pre_repeat = 0,
      is_end = (br_remain b1 = 1)\<rparr> = basis_item c g row cols i f"
    using a last by (simp add: basis_item_def b1_def of_nat_u64)
  define b2 where "b2 = (basis_refresh c b1)\<lparr>br_pre_wf := br_pre_wf (basis_refresh c b1) + 1\<rparr>"
  have b2: "br_pre_wf b2 = int f + 1" "br_remain b2 = of_nat (?k - i)" "br_archive b2 = of_nat ?k" "br_pre_row b2 = row"
    "br_wf_start b2 = 0" "br_ev b2 = take (Suc i) cols" "br_eq b2 = drop (Suc i) cols @ rest"
    using a by (simp_all add: b2_def basis_refresh_frame b1_def)
  define b4 where "b4 = (let b3 = basis_advance g b2 in
      if br_pre_wf b3 = 0 \<and> br_eq b3 = [] then b3\<lparr>br_flag := (br_flag b3)\<lparr>q_empty := True\<rparr>\<rparr> else b3)"
  have "vec_get (br_ev b1) i = Inr (cols ! i)" using i by (simp add: b1_def)
  then have res: "BasisEdgeReader_TransferData c g b = Inr (basis_item c g row cols i f, b4)"
    unfolding BasisEdgeReader_TransferData_def fetch bindE_simps idx
    by (simp only: bindE_simps Let_def item) (simp add: b4_def b2_def Let_def)
  have dec: "(of_nat (?k - i) :: u64) - 1 = of_nat (?k - Suc i)" using i by (simp add: of_nat_diff)
  have "if Suc f = ?nf then br_at row cols rest (Suc i) 0 b4 else br_at row cols rest i (Suc f) b4"
    using b2 last wf dec i
    by (auto simp: b4_def basis_advance_def br_at_def Let_def split del: if_split split: if_split_asm if_splits)
  then show ?thesis using res by blast
qed

lemma basis_row_stream:
  assumes at: "br_at row cols rest 0 0 b" and ne: "cols \<noteq> []" and nf: "0 < unat (w_fold g)"
    and bounds: "length cols < 2 ^ 31" "unat (w_fold g) < 2 ^ 31"
  shows "\<exists>b'. repeatE (length cols * unat (w_fold g)) (BasisEdgeReader_TransferData c g) b
      = Inr (map (\<lambda>j. basis_item c g row cols (j div unat (w_fold g)) (j mod unat (w_fold g)))
               [0 ..< length cols * unat (w_fold g)], b')
    \<and> br_at row cols rest (length cols) 0 b'"
proof -
  let ?nf = "unat (w_fold g)" and ?k = "length cols"
  let ?P = "\<lambda>j. br_at row cols rest (j div ?nf) (j mod ?nf)"
  have "?P 0 b" using at by simp
  moreover have "\<exists>b'. BasisEdgeReader_TransferData c g b = Inr (basis_item c g row cols (j div ?nf) (j mod ?nf), b') \<and> ?P (Suc j) b'"
    if "j < ?k * ?nf" "?P j b" for j b
  proof -
    have i: "j div ?nf < ?k" using that(1) nf by (simp add: less_mult_imp_div_less)
    have f: "j mod ?nf < ?nf" using nf by simp
    from basis_step [OF that(2) i f bounds, of c] show ?thesis
      by (cases "Suc (j mod ?nf) = ?nf") (auto simp: mod_Suc div_Suc)
  qed
  ultimately have "\<exists>b'. repeatE (?k * ?nf) (BasisEdgeReader_TransferData c g) b
      = Inr (map (\<lambda>j. basis_item c g row cols (j div ?nf) (j mod ?nf)) [0 ..< ?k * ?nf], b') \<and> ?P (?k * ?nf) b'"
    by (rule repeatE_steps)
  then show ?thesis using nf by auto
qed

end
