(* ===== verification/Run_Simulator.thy ===== *)
theory Run_Simulator
  imports Distributer Ini_Parser Edge_Reader Basis_Path Global_Buffer
begin

text \<open>
  \<open>RunSimulator.cpp\<close>: the set-up done by \<open>main\<close> and the cycle loop of the aggregation phase.  The
  parts of the loop that are commented out in the source (the buffer and the accelerator) are
  constructed but not called.  Each cycle is the sequence of turns of the source: collect what the
  DRAM completed, look the data up, hand it to the readers, let the readers request and write,
  send the queued transactions, advance the DRAM clock, test for the end.

  Values the program reads from standard input (\<open>max_v\<close>), the parsed command line and the fresh
  memory behind uninitialised members are arguments.
\<close>

record 'm sim =
  sim_dc :: "dctrl list"
  sim_vr :: "vreader list"
  sim_er :: "ereader list"
  sim_g :: globals
  sim_m :: "'m dram_if"
  sim_cycle :: u64
  progress_idx :: int
  sim_gb :: "gbuf list"
  sim_acc :: "accel list"
  sim_ber :: "breader list"
  sim_xwr :: "xwreader list"
  sim_repl :: repl_state

section \<open>Set-up\<close>

record fresh_mem =
  fresh_info :: "RowInfo list"
  fresh_count :: "u64 list"
  fresh_vr_x_repeat :: "nat \<Rightarrow> int"
  fresh_er_x_repeat :: "nat \<Rightarrow> int"
  fresh_x_data :: XRData
  fresh_v_arch :: u64

text \<open>The first constructor loop: data controller, global buffer and accelerator of each unit.\<close>

definition build_unit ::
  "ini_config \<Rightarrow> dims \<Rightarrow> u64 \<Rightarrow> fresh_mem \<Rightarrow> distr \<Rightarrow> u64 \<Rightarrow> nat
    \<Rightarrow> (dctrl list \<times> gbuf list \<times> accel list \<times> repl_state) \<Rightarrow> (dctrl list \<times> gbuf list \<times> accel list \<times> repl_state) result" where
  "build_unit c d mov_med fm dt totw i s = (case s of (dcs, gbs, accs, r) \<Rightarrow>
     bindE (vec_get (dt_adjrow dt) i) (\<lambda>rows.
     bindE (vec_get (dt_adjcol dt) i) (\<lambda>cols.
     bindE (GlobalBuffer_new c d mov_med (fresh_x_data fm) (int i) (gbsize c) totw
              (if gbs = [] then [] else set_util (last gbs)) r) (\<lambda>(gb, r1).
     bindE (vec_get (axw_offset dt) i) (\<lambda>off.
     bindE (vec_get (a_row_info dt) i) (\<lambda>ri.
     bindE (Accelerator_new c (int i) off (CACHE_LINE_COUNT c) ri) (\<lambda>acc.
     Inr (dcs @ [DataController_new (int i) rows cols], gbs @ [gb], accs @ [acc], r1))))))))"

text \<open>The second loop: the readers.\<close>

definition build_readers ::
  "ini_config \<Rightarrow> dims \<Rightarrow> fresh_mem \<Rightarrow> distr \<Rightarrow> nat
    \<Rightarrow> (vreader list \<times> ereader list \<times> breader list \<times> xwreader list \<times> globals)
    \<Rightarrow> (vreader list \<times> ereader list \<times> breader list \<times> xwreader list \<times> globals) result" where
  "build_readers c d fm dt i s = (case s of (vrs, ers, bers, xwrs, g) \<Rightarrow>
     bindE (vec_get (a_row_offset dt) i) (\<lambda>roff.
     bindE (vec_get (a_col_offset dt) i) (\<lambda>coff.
     bindE (vec_get (a_row_info dt) i) (\<lambda>ri.
     bindE (vec_get (dt_adjcol dt) i) (\<lambda>cols.
     let n = of_nat (length cols) in
     bindE (VertexReader_new c d (fresh_vr_x_repeat fm i) (int i) roff ri g) (\<lambda>(v, g1).
     bindE (if MECHA_TYPE c = 0 then
              bindE (EdgeReader_new c d (fresh_er_x_repeat fm i) (int i) coff n ri g1) (\<lambda>(e, g2). Inr (ers @ [e], bers, g2))
            else if MECHA_TYPE c = 1 then
              bindE (BasisEdgeReader_new c (int i) coff n ri) (\<lambda>b. Inr (ers, bers @ [b], g1))
            else Inr (ers, bers, g1)) (\<lambda>(ers1, bers1, g2).
     Inr (vrs @ [v], ers1, bers1, xwrs @ [XWReader_new g2 (int i) n], g2))))))))"

text \<open>The sizes computed before the commented-out XW phase.  Only \<open>tot_req\<close> and \<open>tot_xw_count\<close> are
  used afterwards, but each conversion can be undefined.\<close>

definition ceil_div_c_int :: "u64 \<Rightarrow> int \<Rightarrow> int result" where
  "ceil_div_c_int x y =
     (if y = 0 then Inl UB_Conversion
      else to_c_int (fl_ceil (fl_div float_p (fl_of_u64 float_p x) (fl_round float_p (y, 1)))))"

definition xw_sizes :: "ini_config \<Rightarrow> dims \<Rightarrow> u64 \<Rightarrow> (int \<times> int \<times> int \<times> int \<times> int) result" where
  "xw_sizes c d totw =
     bindE (ceil_div_int float_p totw (CACHE_LINE_COUNT c)) (\<lambda>req.
     bindE (ceil_div_c_int (w_h d) (SYSTOLIC_DIM c)) (\<lambda>n.
     bindE (ceil_div_c_int (w_w d) (SYSTOLIC_DIM c)) (\<lambda>m.
     bindE (ceil_div_int float_p (x_h d * x_w d * UNIT_BYTE c) (xbsize c)) (\<lambda>rb.
     bindE (u_div (xbsize c) (UNIT_BYTE c * x_w d)) (\<lambda>rows.
     bindE (ceil_div_int float_p (x_h d) rows) (\<lambda>ux.
     Inr (req, n, m, rb, ux)))))))"

definition empty_globals :: "u64 \<Rightarrow> globals" where
  "empty_globals mv = \<lparr>edge_req_count = [], vertex_req_count = [], edge_req_count_cnt = [], vertex_req_count_cnt = [],
     v_limit = 0, e_limit = 0, v_cache = [], e_cache = [], last_v = 0, v_arch = 0, block_cnt = 0, zero_row = [],
     f_flag = False, max_v = mv, w_fold = 0\<rparr>"

text \<open>\<open>mk\<close> is \<open>GetMemorySystem\<close> on the configured memory type.\<close>

definition sim_init ::
  "(string \<Rightarrow> 'm result) \<Rightarrow> u64 \<Rightarrow> fresh_mem \<Rightarrow> string list option \<Rightarrow> string list option \<Rightarrow> string list option \<Rightarrow> u64
    \<Rightarrow> repl_state \<Rightarrow> (ini_config \<times> dims \<times> 'm sim) result" where
  "sim_init mk mov_med fm ini file1 file2 mv r0 =
     bindE (ReadIni ini) (\<lambda>c.
     bindE (ReadData c file1 file2 (empty_globals mv)) (\<lambda>(d, rows, cols, axw, g).
     bindE (mapE (\<lambda>_. mk (MEM_TYPE c)) [0 ..< nat (MAX_DRAM c)]) (\<lambda>ms.
     bindE (Distributer_new c d (fresh_info fm) (fresh_count fm) rows cols g) (\<lambda>(dt, g1).
     let totw = w_h d * w_w d; us = [0 ..< unat (tot_acc c)] in
     bindE (foldE (build_unit c d mov_med fm dt totw) us ([], [], [], r0)) (\<lambda>(dcs, gbs, accs, r1).
     bindE (foldE (build_readers c d fm dt) us ([], [], [], [], g1)) (\<lambda>(vrs, ers, bers, xwrs, g2).
     bindE (xw_sizes c d totw) (\<lambda>(req, n, m, rb, ux).
     bindE (vec_get vrs 0) (\<lambda>v0.
     case RequestF c (v0, g2, (DRAMInterface_new ms)\<lparr>tot_axw_count := axw, tot_req := req,
                               tot_xw_count := x_h d * w_fold g2\<rparr>) of (v, g3, m3) \<Rightarrow>
     Inr (c, d, \<lparr>sim_dc = dcs, sim_vr = vrs[0 := v], sim_er = ers, sim_g = g3, sim_m = m3, sim_cycle = 0,
                 progress_idx = 1, sim_gb = gbs, sim_acc = map (\<lambda>a. a\<lparr>acc_isA := True\<rparr>) accs, sim_ber = bers,
                 sim_xwr = xwrs, sim_repl = r1\<rparr>)))))))))"

section \<open>One cycle\<close>

text \<open>What the DRAM turn records for one channel slot.\<close>

datatype slot = Idle | A_Read u64 u64 | W_Read u64

definition dram_slot :: "'m sim \<Rightarrow> (slot \<times> 'm sim) result" where
  "dram_slot s =
     (if FReadComplete (sim_m s) then
        bindE (GetReadData False (sim_m s)) (\<lambda>(a, m). Inr (A_Read a (u64_of_int (Distributer_ReturnID a)), s\<lparr>sim_m := m\<rparr>))
      else if WReadComplete (sim_m s) then
        bindE (GetReadData True (sim_m s)) (\<lambda>(a, m). Inr (W_Read a, s\<lparr>sim_m := m, sim_g := (sim_g s)\<lparr>f_flag := True\<rparr>\<rparr>))
      else Inr (Idle, s))"

definition dram_turn :: "ini_config \<Rightarrow> 'm sim \<Rightarrow> (slot list \<times> 'm sim) result" where
  "dram_turn c s = repeatE (nat (MAX_DRAM c)) dram_slot s"

text \<open>The data controller's answer to a slot: the unit, the region and the line.\<close>

type_synonym answer = "(nat \<times> Type \<times> u64 list) option"

definition dc_slot :: "ini_config \<Rightarrow> slot \<Rightarrow> 'm sim \<Rightarrow> (answer \<times> 'm sim) result" where
  "dc_slot c sl s = (case sl of
       A_Read a uid \<Rightarrow>
         let i = unat uid in
         bindE (ReturnDataType c a) (\<lambda>t.
         bindE (vec_get (sim_dc s) i) (\<lambda>dc.
         case t of
           A_ROW \<Rightarrow> bindE (AdjRowDataReturn c dc (sim_g s)) (\<lambda>(q, dc', g'). Inr (Some (i, A_ROW, q), s\<lparr>sim_dc := (sim_dc s)[i := dc'], sim_g := g'\<rparr>))
         | A_COL \<Rightarrow> bindE (AdjColDataReturn c dc (sim_g s)) (\<lambda>(q, dc', g'). Inr (Some (i, A_COL, q), s\<lparr>sim_dc := (sim_dc s)[i := dc'], sim_g := g'\<rparr>))
         | X \<Rightarrow> Inr (Some (i, X, []), s)))
     | _ \<Rightarrow> Inr (None, s))"

fun dc_turn :: "ini_config \<Rightarrow> slot list \<Rightarrow> 'm sim \<Rightarrow> (answer list \<times> 'm sim) result" where
  "dc_turn c [] s = Inr ([], s)"
| "dc_turn c (sl # sls) s =
     bindE (dc_slot c sl s) (\<lambda>(a, s1). bindE (dc_turn c sls s1) (\<lambda>(as, s2). Inr (a # as, s2)))"

definition vr_receive :: "answer \<Rightarrow> 'm sim \<Rightarrow> 'm sim result" where
  "vr_receive a s = (case a of
       Some (i, A_ROW, q) \<Rightarrow> bindE (vec_get (sim_vr s) i) (\<lambda>v.
         bindE (VertexReader_ReceiveData q v) (\<lambda>v'. Inr (s\<lparr>sim_vr := (sim_vr s)[i := v']\<rparr>)))
     | _ \<Rightarrow> Inr s)"

definition vr_unit :: "ini_config \<Rightarrow> nat \<Rightarrow> 'm sim \<Rightarrow> 'm sim result" where
  "vr_unit c i s =
     bindE (vec_get (sim_vr s) i) (\<lambda>v.
     let v1 = (if VertexReader_IsEndOperation v (sim_g s) then VertexReader_TurnOffFlag v else v);
         (v2, m2) = (if req_need (vr_flag v1) then VertexReader_Request c (v1, sim_m s) else (v1, sim_m s)) in
     Inr (s\<lparr>sim_vr := (sim_vr s)[i := v2], sim_m := m2\<rparr>))"

definition er_receive :: "answer \<Rightarrow> 'm sim \<Rightarrow> 'm sim result" where
  "er_receive a s = (case a of
       Some (i, A_COL, q) \<Rightarrow> bindE (vec_get (sim_er s) i) (\<lambda>e.
         Inr (s\<lparr>sim_er := (sim_er s)[i := EdgeReader_ReceiveData q e]\<rparr>))
     | _ \<Rightarrow> Inr s)"

text \<open>Handing a row pointer over, when the edge reader wants one and a feature line has arrived.\<close>

definition er_vertex :: "ini_config \<Rightarrow> dims \<Rightarrow> nat \<Rightarrow> 'm sim \<Rightarrow> 'm sim result" where
  "er_vertex c d i s =
     bindE (vec_get (sim_er s) i) (\<lambda>e.
     bindE (vec_get (sim_vr s) i) (\<lambda>v.
     if EdgeReader_CanVertexReceive e \<and> \<not> q_empty (vr_flag v) \<and> f_flag (sim_g s) then
       bindE (VertexReader_TransferData c d (v, sim_g s, sim_m s)) (\<lambda>(vertex, v1, g1, m1).
       case EdgeReader_ReceiveVertex d vertex (e, g1) of (e1, g2) \<Rightarrow>
       Inr (s\<lparr>sim_vr := (sim_vr s)[i := v1], sim_er := (sim_er s)[i := e1], sim_g := g2, sim_m := m1\<rparr>))
     else Inr s))"

definition er_work :: "ini_config \<Rightarrow> dims \<Rightarrow> nat \<Rightarrow> 'm sim \<Rightarrow> 'm sim result" where
  "er_work c d i s =
     bindE (vec_get (sim_er s) i) (\<lambda>e.
     let e1 = (if EdgeReader_IsEndOperation e (sim_g s) then EdgeReader_TurnOffFlag e else e);
         (e2, m2) = (if req_need (er_flag e1) then EdgeReader_Request c (e1, sim_m s) else (e1, sim_m s)) in
     bindE (OuterProduct c d (e2, sim_g s)) (\<lambda>(e3, g3).
     bindE (EdgeReader_Write c d (e3, m2)) (\<lambda>(e4, m4).
     Inr (s\<lparr>sim_er := (sim_er s)[i := e4], sim_g := g3, sim_m := m4\<rparr>))))"

definition er_unit :: "ini_config \<Rightarrow> dims \<Rightarrow> nat \<Rightarrow> 'm sim \<Rightarrow> 'm sim result" where
  "er_unit c d i s = bindE (er_vertex c d i s) (er_work c d i)"

definition dram_advance :: "'m mem_ops \<Rightarrow> ini_config \<Rightarrow> 'm sim \<Rightarrow> 'm sim result" where
  "dram_advance ops c s =
     bindE (AddTransaction ops (MAX_DRAM c) (sim_m s)) (\<lambda>m1.
     bindE (UpdateCycle ops c m1) (\<lambda>m2.
     Inr (s\<lparr>sim_m := m2, sim_cycle := sim_cycle s + 1\<rparr>)))"

definition one_cycle :: "'m mem_ops \<Rightarrow> ini_config \<Rightarrow> dims \<Rightarrow> 'm sim \<Rightarrow> 'm sim result" where
  "one_cycle ops c d s =
     (let us = [0 ..< unat (tot_acc c)] in
      bindE (dram_turn c s) (\<lambda>(slots, s1).
      bindE (dc_turn c slots s1) (\<lambda>(answers, s2).
      bindE (foldE vr_receive answers s2) (\<lambda>s3.
      bindE (foldE (vr_unit c) us s3) (\<lambda>s4.
      bindE (foldE er_receive answers s4) (\<lambda>s5.
      bindE (foldE (er_unit c d) us s5) (dram_advance ops c)))))))"

text \<open>The progress report: \<open>axw_count\<close> is the initial \<open>tot_axw_count\<close>.\<close>

definition report_progress :: "u64 \<Rightarrow> 'm sim \<Rightarrow> 'm sim" where
  "report_progress axw_count s =
     (if axw_count - tot_axw_count (sim_m s) > axw_count div 10 * u64_of_int (progress_idx s) \<or> tot_axw_count (sim_m s) = 0
      then s\<lparr>progress_idx := progress_idx s + 1\<rparr> else s)"

definition sim_over :: "'m mem_ops \<Rightarrow> 'm sim \<Rightarrow> bool result" where
  "sim_over ops s =
     (if tot_axw_count (sim_m s) = 0 then bindE (WriteExist ops (sim_m s)) (\<lambda>b. Inr (\<not> b)) else Inr False)"

partial_function (option) sim_loop ::
  "'m mem_ops \<Rightarrow> ini_config \<Rightarrow> dims \<Rightarrow> u64 \<Rightarrow> 'm sim \<Rightarrow> 'm sim result option" where
  "sim_loop ops c d axw_count s =
     (case one_cycle ops c d s of
        Inl e \<Rightarrow> Some (Inl e)
      | Inr s1 \<Rightarrow>
          let s2 = report_progress axw_count s1 in
          (case sim_over ops s2 of
             Inl e \<Rightarrow> Some (Inl e)
           | Inr fin \<Rightarrow> if fin then Some (Inr s2) else sim_loop ops c d axw_count s2))"

section \<open>Every cycle is a run of the DRAM interface\<close>

abbreviation reaches :: "'m mem_ops \<Rightarrow> ini_config \<Rightarrow> 'm dram_if \<Rightarrow> 'm dram_if \<Rightarrow> bool" where
  "reaches ops c m m' \<equiv> \<exists>rs hs. di_run ops c m rs hs m'"

lemma di_run_trans:
  assumes "di_run ops c m rs hs m1" and "di_run ops c m1 rs' hs' m2"
  shows "di_run ops c m (rs @ rs') (hs @ hs') m2"
  using assms(2)
proof induction
  case run_start
  then show ?case using assms(1) by simp
next
  case (run_request rs' hs' s a w)
  then show ?case using di_run.run_request [of ops c m "rs @ rs'" "hs @ hs'" s a w] by simp
next
  case (run_request_id rs' hs' s a w i)
  then show ?case using di_run.run_request_id [of ops c m "rs @ rs'" "hs @ hs'" s a w i] by simp
next
  case (run_add rs' hs' s s')
  then show ?case by (blast intro: di_run.run_add)
next
  case (run_tick rs' hs' s s')
  then show ?case by (blast intro: di_run.run_tick)
next
  case (run_get rs' hs' s b a s')
  then show ?case using di_run.run_get [of ops c m "rs @ rs'" "hs @ hs'" s b a s'] by simp
next
  case (run_return_id rs' hs' s a i s')
  then show ?case by (blast intro: di_run.run_return_id)
qed

lemma reaches_refl [intro]: "reaches ops c m m"
  by (blast intro: di_run.run_start)

lemma reaches_trans [trans]: "reaches ops c m m1 \<Longrightarrow> reaches ops c m1 m2 \<Longrightarrow> reaches ops c m m2"
  by (blast intro: di_run_trans)

lemma reaches_request: "reaches ops c m (DRAMRequest a w m)"
  using di_run.run_request [OF di_run.run_start] by blast

lemma reaches_get: "GetReadData b m = Inr (a, m') \<Longrightarrow> reaches ops c m m'"
  using di_run.run_get [OF di_run.run_start] by blast

lemma reaches_foldE:
  assumes "foldE f xs s = Inr t" and "\<And>x s t. f x s = Inr t \<Longrightarrow> reaches ops c (sim_m s) (sim_m t)"
  shows "reaches ops c (sim_m s) (sim_m t)"
  by (rule foldE_invariant [OF assms(1), where P = "\<lambda>u. reaches ops c (sim_m s) (sim_m u)"])
    (auto intro: reaches_trans assms(2) simp del: split_paired_Ex)

lemma reaches_dram_turn:
  assumes "repeatE n dram_slot s = Inr (slots, t)"
  shows "reaches ops c (sim_m s) (sim_m t)"
  using assms
proof (induction n arbitrary: s slots)
  case 0
  then show ?case by auto
next
  case (Suc n)
  from Suc.prems obtain x s1 xs where s1: "dram_slot s = Inr (x, s1)" and r: "repeatE n dram_slot s1 = Inr (xs, t)"
    by (auto simp: bindE_eq_Inr)
  have "reaches ops c (sim_m s) (sim_m s1)"
    using s1 by (auto simp: dram_slot_def bindE_eq_Inr split: if_splits intro: reaches_get)
  then show ?case using Suc.IH [OF r] by (rule reaches_trans)
qed

lemma dc_slot_frame:
  assumes "dc_slot c sl s = Inr (a, t)"
  shows "sim_m t = sim_m s"
proof (cases sl)
  case (A_Read x uid)
  with assms obtain ty where "ReturnDataType c x = Inr ty" by (auto simp: dc_slot_def Let_def bindE_eq_Inr)
  with A_Read assms show ?thesis by (cases ty) (auto simp: dc_slot_def Let_def bindE_eq_Inr)
qed (use assms in \<open>auto simp: dc_slot_def\<close>)

lemma dc_turn_frame: "dc_turn c sls s = Inr (as, t) \<Longrightarrow> sim_m t = sim_m s"
  by (induction sls arbitrary: s as) (auto simp: bindE_eq_Inr dest!: dc_slot_frame)

lemma vr_receive_frame: "vr_receive a s = Inr t \<Longrightarrow> sim_m t = sim_m s"
  by (auto simp: vr_receive_def bindE_eq_Inr split: option.splits Type.splits)

lemma er_receive_frame: "er_receive a s = Inr t \<Longrightarrow> sim_m t = sim_m s"
  by (auto simp: er_receive_def bindE_eq_Inr split: option.splits Type.splits)

lemma reaches_vr_unit: "vr_unit c i s = Inr t \<Longrightarrow> reaches ops c (sim_m s) (sim_m t)"
  by (auto simp: vr_unit_def Let_def VertexReader_Request_def bindE_eq_Inr split: if_splits intro: reaches_request)

lemma reaches_count_row:
  assumes "count_row c d (v, g, m) = (v', g', m')"
  shows "reaches ops c m m'"
  using assms by (auto simp: count_row_def RequestF_def Let_def split: if_splits intro: reaches_request)

lemma reaches_transfer_first:
  assumes "transfer_first c d (v, g, m) = Inr (x, v', g', m')"
  shows "reaches ops c m m'"
proof -
  from assms obtain y q where "vq v = y # q" by (auto simp: transfer_first_def bindE_eq_Inr q_front_eq_Inr)
  moreover obtain v2 g2 m2 where "count_row c d (v\<lparr>vr_pre_row := vr_pre_row v + 1, vq := q, vr_q_space := vr_q_space v - 1\<rparr>,
      g\<lparr>v_cache := v_cache g @ [y]\<rparr>, m) = (v2, g2, m2)" using prod_cases3 by blast
  ultimately show ?thesis using assms reaches_count_row
    by (fastforce simp: transfer_first_def Let_def bindE_eq_Inr split: if_split_asm)
qed

lemma reaches_transfer_replay:
  assumes "transfer_replay c d (v, g, m) = Inr (x, v', g', m')"
  shows "reaches ops c m m'"
proof -
  obtain v2 g2 m2 where "count_row c d (v\<lparr>vr_pre_row := vr_pre_row v + 1, v_cache_idx := v_cache_idx v + 1\<rparr>, g, m) = (v2, g2, m2)"
    using prod_cases3 by blast
  then show ?thesis using assms reaches_count_row
    by (fastforce simp: transfer_replay_def Let_def bindE_eq_Inr split: if_split_asm)
qed

lemma reaches_transfer:
  assumes "VertexReader_TransferData c d (v, g, m) = Inr (x, v', g', m')"
  shows "reaches ops c m m'"
  using assms reaches_transfer_first reaches_transfer_replay
  by (auto simp: VertexReader_TransferData_def split: if_split_asm)

lemma reaches_er_vertex:
  assumes "er_vertex c d i s = Inr t"
  shows "reaches ops c (sim_m s) (sim_m t)"
proof -
  from assms obtain e v where ev: "vec_get (sim_er s) i = Inr e" "vec_get (sim_vr s) i = Inr v"
    by (auto simp: er_vertex_def bindE_eq_Inr)
  show ?thesis
  proof (cases "EdgeReader_CanVertexReceive e \<and> \<not> q_empty (vr_flag v) \<and> f_flag (sim_g s)")
    case True
    with assms ev obtain x v1 g1 m1 where tr: "VertexReader_TransferData c d (v, sim_g s, sim_m s) = Inr (x, v1, g1, m1)"
      by (auto simp: er_vertex_def bindE_eq_Inr)
    obtain e1 g2 where "EdgeReader_ReceiveVertex d x (e, g1) = (e1, g2)" by (rule prod.exhaust)
    with assms ev True tr have "sim_m t = m1" by (auto simp: er_vertex_def)
    then show ?thesis using reaches_transfer [OF tr] by simp
  next
    case False
    then have "t = s" using assms ev by (auto simp: er_vertex_def)
    then show ?thesis by auto
  qed
qed

lemma reaches_Write:
  assumes "EdgeReader_Write c d (e, m) = Inr (e', m')"
  shows "reaches ops c m m'"
  using assms by (auto simp: EdgeReader_Write_def Let_def bindE_eq_Inr split: if_splits intro: reaches_request)

lemma reaches_er_work:
  assumes "er_work c d i s = Inr t"
  shows "reaches ops c (sim_m s) (sim_m t)"
proof -
  from assms obtain e where e: "vec_get (sim_er s) i = Inr e" by (auto simp: er_work_def bindE_eq_Inr)
  let ?e = "if EdgeReader_IsEndOperation e (sim_g s) then EdgeReader_TurnOffFlag e else e"
  obtain e2 m2 where p: "(if req_need (er_flag ?e) then EdgeReader_Request c (?e, sim_m s) else (?e, sim_m s)) = (e2, m2)"
    by (rule prod.exhaust)
  have "m2 = sim_m s \<or> (\<exists>a. m2 = DRAMRequest a READ (sim_m s))"
    using p by (auto simp: EdgeReader_Request_def Let_def split: if_split_asm)
  then have "reaches ops c (sim_m s) m2" by (auto intro: reaches_request)
  also from assms e p obtain e3 e4 m4 where w: "EdgeReader_Write c d (e3, m2) = Inr (e4, m4)" and t: "sim_m t = m4"
    by (auto simp: er_work_def Let_def bindE_eq_Inr simp del: if_split)
  have "reaches ops c m2 m4" by (rule reaches_Write [OF w])
  finally show ?thesis by (simp add: t)
qed

lemma reaches_er_unit: "er_unit c d i s = Inr t \<Longrightarrow> reaches ops c (sim_m s) (sim_m t)"
  by (auto simp: er_unit_def bindE_eq_Inr dest!: reaches_er_vertex [where ops = ops] reaches_er_work [where ops = ops]
      intro: reaches_trans)

lemma reaches_advance: "dram_advance ops c s = Inr t \<Longrightarrow> reaches ops c (sim_m s) (sim_m t)"
  using di_run.run_tick [OF di_run.run_add [OF di_run.run_start]]
  by (fastforce simp: dram_advance_def bindE_eq_Inr)

lemma reaches_cycle:
  assumes "one_cycle ops c d s = Inr t"
  shows "reaches ops c (sim_m s) (sim_m t)"
proof -
  from assms obtain sl s1 as s2 s3 s4 s5 s6 where
    s: "repeatE (nat (MAX_DRAM c)) dram_slot s = Inr (sl, s1)" "dc_turn c sl s1 = Inr (as, s2)"
    "foldE vr_receive as s2 = Inr s3" "foldE (vr_unit c) [0 ..< unat (tot_acc c)] s3 = Inr s4"
    "foldE er_receive as s4 = Inr s5" "foldE (er_unit c d) [0 ..< unat (tot_acc c)] s5 = Inr s6"
    "dram_advance ops c s6 = Inr t"
    by (auto simp: one_cycle_def Let_def dram_turn_def bindE_eq_Inr)
  have "reaches ops c (sim_m s) (sim_m s1)" by (rule reaches_dram_turn [OF s(1)])
  also have "reaches ops c (sim_m s1) (sim_m s2)" using dc_turn_frame [OF s(2)] by auto
  also have "reaches ops c (sim_m s2) (sim_m s3)"
    by (rule reaches_foldE [OF s(3)]) (auto dest!: vr_receive_frame)
  also have "reaches ops c (sim_m s3) (sim_m s4)" by (rule reaches_foldE [OF s(4) reaches_vr_unit])
  also have "reaches ops c (sim_m s4) (sim_m s5)"
    by (rule reaches_foldE [OF s(5)]) (auto dest!: er_receive_frame)
  also have "reaches ops c (sim_m s5) (sim_m s6)" by (rule reaches_foldE [OF s(6) reaches_er_unit])
  also have "reaches ops c (sim_m s6) (sim_m t)" by (rule reaches_advance [OF s(7)])
  finally show ?thesis .
qed

lemma report_progress_frame [simp]: "sim_m (report_progress n s) = sim_m s"
  by (simp add: report_progress_def)

text \<open>When the loop ends, every output write that was counted has completed and channel 0 reports
  nothing queued.\<close>

lemma sim_loop_over:
  assumes "sim_loop ops c d n s = Some (Inr t)"
  shows "reaches ops c (sim_m s) (sim_m t) \<and> tot_axw_count (sim_m t) = 0 \<and> WriteExist ops (sim_m t) = Inr False"
proof -
  have "\<forall>t. r = Inr t \<longrightarrow> reaches ops c (sim_m s) (sim_m t)
      \<and> tot_axw_count (sim_m t) = 0 \<and> WriteExist ops (sim_m t) = Inr False"
    if "sim_loop ops c d n s = Some r" for r
    using that
  proof (rule sim_loop.raw_induct [rotated])
    fix sl :: "'a mem_ops \<Rightarrow> ini_config \<Rightarrow> dims \<Rightarrow> u64 \<Rightarrow> 'a sim \<Rightarrow> 'a sim result option"
      and ops :: "'a mem_ops" and c d n and s :: "'a sim" and r
    assume IH: "\<And>ops c d n s r. sl ops c d n s = Some r \<Longrightarrow> \<forall>t. r = Inr t \<longrightarrow> reaches ops c (sim_m s) (sim_m t)
      \<and> tot_axw_count (sim_m t) = 0 \<and> WriteExist ops (sim_m t) = Inr False"
      and b: "(case one_cycle ops c d s of Inl e \<Rightarrow> Some (Inl e)
      | Inr s1 \<Rightarrow> let s2 = report_progress n s1 in
          (case sim_over ops s2 of Inl e \<Rightarrow> Some (Inl e)
           | Inr fin \<Rightarrow> if fin then Some (Inr s2) else sl ops c d n s2)) = Some r"
    show "\<forall>t. r = Inr t \<longrightarrow> reaches ops c (sim_m s) (sim_m t)
      \<and> tot_axw_count (sim_m t) = 0 \<and> WriteExist ops (sim_m t) = Inr False"
    proof (intro allI impI)
      fix t
      assume r: "r = Inr t"
      from b r obtain s1 fin where s1: "one_cycle ops c d s = Inr s1" and f: "sim_over ops (report_progress n s1) = Inr fin"
        by (auto simp: Let_def split: sum.splits)
      have c1: "reaches ops c (sim_m s) (sim_m s1)" by (rule reaches_cycle [OF s1])
      show "reaches ops c (sim_m s) (sim_m t) \<and> tot_axw_count (sim_m t) = 0 \<and> WriteExist ops (sim_m t) = Inr False"
      proof (cases fin)
        case True
        then have "t = report_progress n s1" using b r s1 f by (simp add: Let_def)
        then show ?thesis using c1 f True by (auto simp: sim_over_def bindE_eq_Inr split: if_splits)
      next
        case False
        then have "sl ops c d n (report_progress n s1) = Some (Inr t)" using b r s1 f by (simp add: Let_def)
        from IH [OF this] have i: "reaches ops c (sim_m s1) (sim_m t)" "tot_axw_count (sim_m t) = 0"
          "WriteExist ops (sim_m t) = Inr False" by auto
        show ?thesis using reaches_trans [OF c1 i(1)] i(2,3) by blast
      qed
    qed
  qed
  from this [OF assms] show ?thesis by blast
qed

end
