(* ===== verification/Reader_Properties.thy ===== *)
theory Reader_Properties
  imports Edge_Reader Basis_Path Distributer Ini_Parser
begin

text \<open>
  What the front end of the simulator guarantees: the input files are cut into blocks and cache
  lines without losing an entry, the units get a partition of the matrix, each block of rows is
  passed on \<open>w_fold\<close> times, every row is consumed and written once, and the ini file is read back
  as it was printed.
\<close>

section \<open>From the input file to the cache lines\<close>

lemma block_scan_pos:
  assumes "block_scan ah mv pc vc st xs = Inr (es, vs)" and "scan_ok ah mv pc xs" and "unat vc + length xs < 2 ^ 64"
  shows "\<forall>v \<in> set vs. 0 < unat v"
  using assms
proof (induction xs arbitrary: pc vc st es vs)
  case (Cons x xs)
  have pc: "unat (pc + 1) = unat pc + 1" using Cons.prems(2) by (intro u64_suc [of _ ah]) (simp add: scan_ok_def)
  have vc: "unat (vc + 1) = unat vc + 1" using Cons.prems(3) unat_add_lem [of vc 1] by simp
  have ok: "scan_ok ah mv (pc + 1) xs" using Cons.prems(2) pc by (simp add: scan_ok_def)
  obtain r where r: "u_rem (pc + 1) mv = Inr r" using Cons.prems(1) by (auto simp: bindE_eq_Inr)
  show ?case
  proof (cases "r = 0 \<or> pc + 1 = ah")
    case True
    then obtain es1 vs1 where "block_scan ah mv (pc + 1) 0 x xs = Inr (es1, vs1)" "vs = (vc + 1) # vs1"
      using Cons.prems(1) r by (auto simp: bindE_eq_Inr)
    then show ?thesis using Cons.IH [OF _ ok] Cons.prems(3) vc by auto
  next
    case False
    then have "block_scan ah mv (pc + 1) (vc + 1) st xs = Inr (es, vs)" using Cons.prems(1) r by simp
    then show ?thesis using Cons.IH [OF _ ok] Cons.prems(3) vc by auto
  qed
qed simp

lemma GetUint64Val_cols: "GetUint64Val d False line g = Inr (cols, g') \<Longrightarrow> g' = g"
  by (auto simp: GetUint64Val_def bindE_eq_Inr split: list.splits)

lemma ReadData_parts:
  assumes "ReadData c (Some ls1) (Some ls2) g0 = Inr (d, rows, cols, tot, g)"
    and "edge_req_count g0 = []" "vertex_req_count g0 = []" and "v_limit g0 = 0" "e_limit g0 = 0"
  shows "block_scan (a_h d) (max_v g0) 0 1 0 (tl rows) = Inr (edge_req_count_cnt g, vertex_req_count_cnt g)"
    and "rows \<noteq> []" "v_limit g = 0" "e_limit g = 0"
proof -
  obtain g1 where g1: "GetUint64Val d True (nth_line ls2 0) g0 = Inr (rows, g1)"
    and g: "edge_req_count_cnt g = edge_req_count g1" "vertex_req_count_cnt g = vertex_req_count g1"
      "v_limit g = v_limit g1" "e_limit g = e_limit g1"
    using assms(1) by (auto simp: ReadData_def bindE_eq_Inr Let_def dest!: GetUint64Val_cols)
  show "block_scan (a_h d) (max_v g0) 0 1 0 (tl rows) = Inr (edge_req_count_cnt g, vertex_req_count_cnt g)"
    and "rows \<noteq> []" "v_limit g = 0" "e_limit g = 0"
    using g1 g assms(2-5) by (auto simp: GetUint64Val_def bindE_eq_Inr split: list.splits)
qed

lemma blocks_deliver:
  assumes "line_cfg c" and "\<forall>n \<in> set blocks. 0 < unat n" and "sum_list (map unat blocks) = length q" and "length q < 2 ^ 31"
  shows "\<exists>k rets. deliver c k 0 blocks q = Inr (rets, 0, [], []) \<and> concat rets = q"
proof -
  have "unat n < 2 ^ 31" if "n \<in> set blocks" for n
    using member_le_sum_list [of "unat n" "map unat blocks"] that assms(3,4) by simp
  then show ?thesis using deliver_all [of c blocks q] assms by (auto simp: line_cfg_def)
qed

text \<open>C29: for a consistent CSR file, \<open>DataReader::ReadData\<close> cuts the row pointers and the edges into
  blocks such that the line by line delivery of \<open>DataController\<close> hands out exactly the array, in
  order, and ends with empty queues; for the edges this needs every block to have one.\<close>

theorem csr_delivered_completely:
  assumes "ReadData c (Some ls1) (Some ls2) g0 = Inr (d, rows, cols, tot, g)"
    and "edge_req_count g0 = []" "vertex_req_count g0 = []" and "v_limit g0 = 0" "e_limit g0 = 0"
    and "max_v g0 \<noteq> 0" and "line_cfg c" and "0 < unat (a_h d)" and "unat (a_h d) < 2 ^ 31 - 1"
    and "length rows = unat (a_h d) + 1" and "hd rows = 0" and "sorted (map unat rows)"
    and "unat (last rows) = length cols" and "length cols < 2 ^ 31"
  shows "(\<exists>k rets dc g'. row_lines c k (DataController_new i rows cols) g = Inr (rets, dc, g')
        \<and> concat rets = rows \<and> adjrowindex dc = [] \<and> vertex_req_count_cnt g' = [])
    \<and> (0 \<notin> set (edge_req_count_cnt g) \<longrightarrow>
        (\<exists>k rets dc g'. col_lines c k (DataController_new i rows cols) g = Inr (rets, dc, g')
          \<and> concat rets = cols \<and> adjcolindex dc = [] \<and> edge_req_count_cnt g' = []))"
proof -
  note parts = ReadData_parts [OF assms(1-5)]
  define xs where "xs = tl rows"
  have rows: "rows = 0 # xs" using parts(2) assms(11) by (cases rows) (auto simp: xs_def)
  have xs: "xs \<noteq> []" "length xs = unat (a_h d)" using assms(8,10) rows by auto
  have ok: "scan_ok (a_h d) (max_v g0) 0 xs" using assms(6) xs by (simp add: scan_ok_def)
  have lim: "unat (1 :: u64) + length xs < 2 ^ 64" using assms(9) xs by simp
  note scan = parts(1) [folded xs_def]
  from block_scan_total [OF ok xs(1) lim, of 0] scan
  have vsum: "sum_list (map unat (vertex_req_count_cnt g)) = length rows" by (simp add: rows)
  have esum: "sum_list (map unat (edge_req_count_cnt g)) = length cols"
    using block_scan_edges [OF ok xs(1) _ scan] assms(12,13) rows xs by simp
  obtain k rets where "deliver c k (v_limit g) (vertex_req_count_cnt g) rows = Inr (rets, 0, [], [])" "concat rets = rows"
    using blocks_deliver [OF assms(7) block_scan_pos [OF scan ok lim] vsum] assms(9,10) parts(3) by auto
  then have 1: "\<exists>k rets dc g'. row_lines c k (DataController_new i rows cols) g = Inr (rets, dc, g')
        \<and> concat rets = rows \<and> adjrowindex dc = [] \<and> vertex_req_count_cnt g' = []"
    using row_lines_deliver [of c k g "DataController_new i rows cols" rets]
    by (intro exI [of _ k] exI [of _ rets]) (simp add: DataController_new_def)
  have 2: "\<exists>k rets dc g'. col_lines c k (DataController_new i rows cols) g = Inr (rets, dc, g')
        \<and> concat rets = cols \<and> adjcolindex dc = [] \<and> edge_req_count_cnt g' = []" if "0 \<notin> set (edge_req_count_cnt g)"
  proof -
    have "\<forall>n \<in> set (edge_req_count_cnt g). 0 < unat n" using that by (metis unat_gt_0)
    from blocks_deliver [OF assms(7) this esum assms(14)] parts(4)
    obtain k rets where "deliver c k (e_limit g) (edge_req_count_cnt g) cols = Inr (rets, 0, [], [])" "concat rets = cols" by auto
    then show ?thesis
      using col_lines_deliver [of c k g "DataController_new i rows cols" rets]
      by (intro exI [of _ k] exI [of _ rets]) (simp add: DataController_new_def)
  qed
  show ?thesis using 1 2 by blast
qed

definition file_cfg :: ini_config where
  "file_cfg = \<lparr>gbsize = 128, xbsize = 1024, tot_acc = 2, MAX_DRAM = 1, CACHE_LINE_BYTE = 64, CACHE_LINE_COUNT = 2,
     UNIT_BYTE = 8, X_START = 0, A_ROW_START = 4096, A_COL_START = 8192, WEIGHT_START = 12288, XW_START = 16384,
     AXW_START = 20480, SYSTOLIC_DIM = 4, CACHE_REPL_ALGO = 1, DIVISION_TYPE = 1, MECHA_TYPE = 0, UNIT_W_READ = 1,
     BLOOM_FILTER_NUM = 2, BF_RATIO = (1, 1), BF_OVERLAP = 50, CACHE_WAY_N = 2, MEM_TYPE = ''demo''\<rparr>"

definition file_globals :: globals where
  "file_globals = \<lparr>edge_req_count = [], vertex_req_count = [], edge_req_count_cnt = [], vertex_req_count_cnt = [],
     v_limit = 0, e_limit = 0, v_cache = [], e_cache = [], last_v = 0, v_arch = 0, block_cnt = 0, zero_row = [],
     f_flag = False, max_v = 2, w_fold = 2\<rparr>"

definition file_dims :: dims where
  "file_dims = \<lparr>w_h = 4, w_w = 2, x_h = 3, x_w = 4, a_w = 3, a_h = 3\<rparr>"

definition file_read :: globals where
  "file_read = file_globals\<lparr>edge_req_count := [3, 2], vertex_req_count := [3, 1],
     edge_req_count_cnt := [3, 2], vertex_req_count_cnt := [3, 1]\<rparr>"

lemma double_two: "fl_of_u64 53 2 = (2 ^ 52, 2 ^ 51)" "fl_of_nat 53 2 = (2 ^ 52, 2 ^ 51)"
  by (simp_all add: fl_eval)

lemma double_mul:
  "fl_mul 53 (2, 1) (2 ^ 52, 2 ^ 51) = (2 ^ 52, 2 ^ 50)"
  "fl_mul 53 (2 ^ 52, 2 ^ 50) (2 ^ 52, 2 ^ 51) = (2 ^ 52, 2 ^ 49)"
  by (simp_all add: fl_eval)

lemma file_axw: "axw_total file_cfg file_dims 2 = Inr 8"
proof -
  have "ceil_div_fl 53 3 2 = Inr 2"
    using ceil_div_fl_exact [of 53 3 2] by (simp add: ceil_div_def)
  moreover have "u64_of_fl (2 ^ 52, 2 ^ 49) = Inr 8" by (simp add: u64_of_fl_def fl_trunc_def u64_of_int_def)
  ultimately show ?thesis
    by (simp add: axw_total_def file_cfg_def file_dims_def double_p_def double_two double_mul [simplified])
qed

lemma file_reads: "ReadData file_cfg (Some [''4'', ''2'', ''3'']) (Some [''0 2 3 5'', ''0 2 1 0 1'']) file_globals
    = Inr (file_dims, [0, 2, 3, 5], [0, 2, 1, 0, 1], 8, file_read)"
proof -
  have d: "ReadDims [''4'', ''2'', ''3''] = Inr file_dims" by code_simp
  have r: "GetUint64Val file_dims True ''0 2 3 5'' file_globals
      = Inr ([0, 2, 3, 5], file_globals\<lparr>edge_req_count := [3, 2], vertex_req_count := [3, 1]\<rparr>)" by code_simp
  have e: "GetUint64Val file_dims False ''0 2 1 0 1'' file_read = Inr ([0, 2, 1, 0, 1], file_read)" by code_simp
  show ?thesis using d r e file_axw
    by (simp add: ReadData_def nth_line_def Let_def file_read_def numeral_2_eq_2)
qed

theorem csr_delivered_completely_witness:
  "(\<exists>k rets dc g'. row_lines file_cfg k (DataController_new 0 [0, 2, 3, 5] [0, 2, 1, 0, 1]) file_read = Inr (rets, dc, g')
        \<and> concat rets = [0, 2, 3, 5] \<and> adjrowindex dc = [] \<and> vertex_req_count_cnt g' = [])
    \<and> (\<exists>k rets dc g'. col_lines file_cfg k (DataController_new 0 [0, 2, 3, 5] [0, 2, 1, 0, 1]) file_read = Inr (rets, dc, g')
          \<and> concat rets = [0, 2, 1, 0, 1] \<and> adjcolindex dc = [] \<and> edge_req_count_cnt g' = [])"
proof -
  have "0 \<notin> set (edge_req_count_cnt file_read)" by (simp add: file_read_def)
  moreover have "line_cfg file_cfg" by (simp add: line_cfg_def file_cfg_def)
  ultimately show ?thesis using csr_delivered_completely [OF file_reads, of 0] by (simp add: file_globals_def file_dims_def)
qed

section \<open>Rows, edges and writes\<close>


definition demo_vr :: vreader where
  "demo_vr = \<lparr>vr_pre_w_fold = 0, vr_flag = \<lparr>req_need = False, q_empty = False\<rparr>, vr_x_repeat = 0,
     vr_pre_row_archive = 0, v_cache_idx = 0, vr_id = 0, pop_count = 0, vr_q_space = 2, vr_offset = 0,
     vr_req_address = 4096, req_f_address = 16384, vr_pre_row = 0, vr_tot_repeat = 2, vr_pre_repeat = 0,
     vr_req_stat = \<lparr>tot_read_cnt = 1, pre_read_cnt = 1, read_cnt_acm = 1\<rparr>,
     vr_row_info = \<lparr>row_start = 0, row_end = 3\<rparr>, vq = [2, 3]\<rparr>"


text \<open>While \<open>k\<close> lines of the block are still to be requested and the queue has room for them,
  \<open>k\<close> turns of the run loop request exactly the next \<open>k\<close> consecutive cache lines and then stop.\<close>

theorem vertex_lines_requested:
  assumes "pre_read_cnt (vr_req_stat v) + int k = tot_read_cnt (vr_req_stat v)" and "0 < k" and "req_need (vr_flag v)"
    and "unat (vr_q_space v) + Suc k * unat (CACHE_LINE_COUNT c) \<le> 1000000"
  shows "\<exists>v' m'. (vr_request_turn c ^^ k) (v, m) = (v', m')
    \<and> t_queue m' = t_queue m @ map (\<lambda>i. (vr_req_address v + of_nat i * CACHE_LINE_BYTE c, READ)) [0 ..< k]
    \<and> \<not> req_need (vr_flag v') \<and> pre_read_cnt (vr_req_stat v') = tot_read_cnt (vr_req_stat v')
    \<and> vr_req_address v' = vr_req_address v + of_nat k * CACHE_LINE_BYTE c"
  by (rule vr_request_burst [OF assms])

definition asking_vr :: vreader where
  "asking_vr = demo_vr\<lparr>vr_flag := \<lparr>req_need = True, q_empty = True\<rparr>,
     vr_req_stat := \<lparr>tot_read_cnt = 2, pre_read_cnt = 0, read_cnt_acm = 0\<rparr>\<rparr>"

theorem vertex_lines_requested_witness:
  "\<exists>v' m'. (vr_request_turn file_cfg ^^ 2) (asking_vr, DRAMInterface_new [()]) = (v', m')
    \<and> t_queue m' = t_queue (DRAMInterface_new [()])
        @ map (\<lambda>i. (vr_req_address asking_vr + of_nat i * CACHE_LINE_BYTE file_cfg, READ)) [0 ..< 2]
    \<and> \<not> req_need (vr_flag v') \<and> pre_read_cnt (vr_req_stat v') = tot_read_cnt (vr_req_stat v')
    \<and> vr_req_address v' = vr_req_address asking_vr + of_nat 2 * CACHE_LINE_BYTE file_cfg"
  by (rule vertex_lines_requested) (simp_all add: asking_vr_def demo_vr_def file_cfg_def)

text \<open>C35: in the first pass, a row of \<open>k\<close> edges waiting in \<open>eq\<close> is consumed by exactly \<open>k\<close> calls of
  \<open>OuterProduct\<close>, which keep the edges for the replay in order; the reader then accepts the next
  vertex, and at the end of a block it starts the next pass and triggers the write.\<close>

theorem edge_row_consumed:
  assumes "unat (remain_col_num e) = k" and "0 < k" and "er_x_repeat e = 0" and "k \<le> length (eq e)" and "max_v g \<noteq> 0"
    and "fin \<longleftrightarrow> u64_of_int (er_pre_row e) mod max_v g = 0 \<or> u64_of_int (er_pre_row e) = a_h d"
  shows "\<exists>e' g'. repeatedly k (OuterProduct c d) (e, g) = Inr (e', g')
    \<and> eq e' = drop k (eq e) \<and> e_cache g' = e_cache g @ take k (eq e) \<and> remain_col_num e' = 0 \<and> er_can_receive e'
    \<and> (if fin then er_x_repeat e' = 1 \<and> do_write e' \<and> er_pre_row e' = int_of_u64 (er_pre_row_archive e)
       else er_x_repeat e' = 0 \<and> do_write e' = do_write e \<and> er_pre_row e' = er_pre_row e)"
  by (rule row_consumed [OF assms])

definition demo_er :: ereader where
  "demo_er = \<lparr>er_pre_wf = 0, er_can_receive = False, er_flag = \<lparr>req_need = False, q_empty = False\<rparr>,
     er_x_repeat = 0, e_cache_idx = 0, er_pre_row_archive = 0, write_count = 2, do_write = False,
     er_id = 0, transfer_cnt = 0, er_wf_start = 0, a_col_size = 5, er_q_space = 3, er_offset = 0,
     er_req_address = 8192, write_address = 20480, er_pre_row = 2, er_tot_repeat = 2, tot_req_repeat = 2,
     er_pre_rep = 0, pre_req_repeat = 0, cur_v = 3, prev_v = 2, remain_col_num = 2, col_num_archive = 2,
     er_req_stat = \<lparr>tot_read_cnt = 2, pre_read_cnt = 2, read_cnt_acm = 2\<rparr>,
     er_row_info = \<lparr>row_start = 0, row_end = 3\<rparr>, eq = [7, 8, 9], ev = []\<rparr>"

theorem edge_row_consumed_witness:
  "\<exists>e' g'. repeatedly 2 (OuterProduct file_cfg file_dims) (demo_er, file_globals) = Inr (e', g')
    \<and> eq e' = drop 2 (eq demo_er) \<and> e_cache g' = e_cache file_globals @ take 2 (eq demo_er) \<and> remain_col_num e' = 0 \<and> er_can_receive e'
    \<and> (if True then er_x_repeat e' = 1 \<and> do_write e' \<and> er_pre_row e' = int_of_u64 (er_pre_row_archive demo_er)
       else er_x_repeat e' = 0 \<and> do_write e' = do_write demo_er \<and> er_pre_row e' = er_pre_row demo_er)"
  by (rule edge_row_consumed) (simp_all add: demo_er_def file_globals_def u64_of_int_def)

text \<open>C36: once triggered, \<open>EdgeReader::Write\<close> issues \<open>write_count\<close> writes, all of them to the same
  address, clears the trigger and reloads the counter with the number of lines of the output.\<close>

theorem pass_written:
  assumes "lines_of_rows c d = Inr n" and "do_write e" and "write_count e = int k" and "0 < k"
  shows "\<exists>e' m'. repeatedly k (EdgeReader_Write c d) (e, m) = Inr (e', m')
    \<and> t_queue m' = t_queue m @ replicate k (write_address e, WRITE) \<and> \<not> do_write e'
    \<and> write_count e' = n \<and> write_address e' = write_address e"
  by (rule write_burst [OF assms])

lemma file_lines: "lines_of_rows file_cfg file_dims = Inr 2"
  using ceil_div_fl_exact [of 53 3 2]
  by (simp add: lines_of_rows_def ceil_div_int_def file_cfg_def file_dims_def double_p_def ceil_div_def to_c_int_def)

theorem pass_written_witness:
  "\<exists>e' m'. repeatedly 2 (EdgeReader_Write file_cfg file_dims) (demo_er\<lparr>do_write := True\<rparr>, DRAMInterface_new [()]) = Inr (e', m')
    \<and> t_queue m' = t_queue (DRAMInterface_new [()]) @ replicate 2 (write_address (demo_er\<lparr>do_write := True\<rparr>), WRITE) \<and> \<not> do_write e'
    \<and> write_count e' = 2 \<and> write_address e' = write_address (demo_er\<lparr>do_write := True\<rparr>)"
  by (rule pass_written [OF file_lines]) (simp_all add: demo_er_def)

text \<open>C37: one call of \<open>MAC\<close> finishes every edge that is in the array, writes one output line to the
  next consecutive address for each edge that ends a row, and refills the array from the queue.\<close>

theorem mac_finishes_rows:
  assumes "m2_data a = map (\<lambda>x. (x, 0)) xs"
  shows "\<exists>a' m'. MAC c (a, m) = Inr (a', m')
    \<and> m2_data a' = map (\<lambda>x. (x, 0)) (take (length xs) (a_data a)) \<and> a_data a' = drop (length xs) (a_data a)
    \<and> t_queue m' = t_queue m @ map (\<lambda>i. (axw_address a + of_nat i * CACHE_LINE_BYTE c, WRITE)) [0 ..< length (filter is_end xs)]
    \<and> axw_address a' = axw_address a + of_nat (length (filter is_end xs)) * CACHE_LINE_BYTE c"
  using mac_loop_spec [of a xs "[]" "length xs" c m] assms by (simp add: MAC_def mac_writes_def)

definition demo_acc :: accel where
  "demo_acc = \<lparr>acc_isA = True, acc_id = 0, acc_limit = 1, axw_address = 20480, acc_axw_offset = 0, pe = 8, acc_row = 0,
     acc_row_info = \<lparr>row_start = 0, row_end = 3\<rparr>, acc_x_data = [], a_data = [zero_ERData], m1_data = [],
     m2_data = [(zero_ERData\<lparr>is_end := True\<rparr>, 0)]\<rparr>"

theorem mac_finishes_rows_witness:
  "\<exists>a' m'. MAC file_cfg (demo_acc, DRAMInterface_new [()]) = Inr (a', m')
    \<and> m2_data a' = map (\<lambda>x. (x, 0)) (take (length [zero_ERData\<lparr>is_end := True\<rparr>]) (a_data demo_acc))
    \<and> a_data a' = drop (length [zero_ERData\<lparr>is_end := True\<rparr>]) (a_data demo_acc)
    \<and> t_queue m' = t_queue (DRAMInterface_new [()]) @ map (\<lambda>i. (axw_address demo_acc + of_nat i * CACHE_LINE_BYTE file_cfg, WRITE))
        [0 ..< length (filter is_end [zero_ERData\<lparr>is_end := True\<rparr>])]
    \<and> axw_address a' = axw_address demo_acc + of_nat (length (filter is_end [zero_ERData\<lparr>is_end := True\<rparr>])) * CACHE_LINE_BYTE file_cfg"
  by (rule mac_finishes_rows) (simp add: demo_acc_def)

text \<open>C38: \<open>BasisEdgeReader\<close> streams a row column by column: for each edge the \<open>w_fold\<close> feature lines of
  its column at consecutive addresses, the last edge marked as the end of the row; the edges of
  the row are used up and those of the following rows are untouched.\<close>

theorem basis_streams_row:
  assumes "br_at row cols rest 0 0 b" and "cols \<noteq> []" and "0 < unat (w_fold g)"
    and "length cols < 2 ^ 31" and "unat (w_fold g) < 2 ^ 31"
  shows "\<exists>b'. repeatE (length cols * unat (w_fold g)) (BasisEdgeReader_TransferData c g) b
      = Inr (map (\<lambda>j. basis_item c g row cols (j div unat (w_fold g)) (j mod unat (w_fold g)))
              [0 ..< length cols * unat (w_fold g)], b')
    \<and> br_eq b' = rest \<and> br_ev b' = [] \<and> br_remain b' = 0 \<and> (br_can_receive b' \<or> q_empty (br_flag b'))"
  using basis_row_stream [OF assms] by (auto simp: br_at_def)

definition demo_br :: breader where
  "demo_br = \<lparr>br_pre_wf = 0, br_can_receive = False, br_flag = \<lparr>req_need = False, q_empty = False\<rparr>,
     br_id = 0, br_q_space = 3, br_wf_start = 0, br_offset = 0, br_req_address = 8192, br_pre_row = 1,
     br_cur_v = 2, br_prev_v = 0, br_remain = 2, br_archive = 2,
     br_req_stat = \<lparr>tot_read_cnt = 2, pre_read_cnt = 2, read_cnt_acm = 2\<rparr>,
     br_row_info = \<lparr>row_start = 0, row_end = 3\<rparr>, br_eq = [7, 8, 9], br_ev = []\<rparr>"

theorem basis_streams_row_witness:
  "\<exists>b'. repeatE (length [7, 8 :: u64] * unat (w_fold file_globals)) (BasisEdgeReader_TransferData file_cfg file_globals) demo_br
      = Inr (map (\<lambda>j. basis_item file_cfg file_globals 1 [7, 8] (j div unat (w_fold file_globals)) (j mod unat (w_fold file_globals)))
              [0 ..< length [7, 8 :: u64] * unat (w_fold file_globals)], b')
    \<and> br_eq b' = [9] \<and> br_ev b' = [] \<and> br_remain b' = 0 \<and> (br_can_receive b' \<or> q_empty (br_flag b'))"
  by (rule basis_streams_row) (simp_all add: br_at_def demo_br_def file_globals_def)

section \<open>Units\<close>

text \<open>C39: with edge-balanced division the units together get exactly the columns and the row degrees
  of the matrix, in order, nothing left over.\<close>

theorem distribution_is_partition:
  assumes "DIVISION_TYPE c = 1" and "csr_rest (length cols) 0 rows cols" and "cols \<noteq> []" and "length cols < 2 ^ 24"
    and "unat (tot_acc c) < 2 ^ 24" and "Distribute c d (0 # rows) cols s = Inr s'"
  shows "concat (dt_adjcol s') = cols \<and> concat (map degrees (dt_adjrow s')) = degrees (0 # rows)
    \<and> length (dt_adjcol s') = unat (tot_acc c) \<and> length (dt_adjrow s') = unat (tot_acc c)"
  by (rule Distribute_balanced [OF assms])

definition fresh_distr :: distr where
  "fresh_distr = \<lparr>dt_adjcol = [[], []], dt_adjrow = [[], []], a_col_offset = unit_offsets 2, a_row_offset = unit_offsets 2,
     axw_offset = unit_offsets 2, a_row_info = [], dt_axw_count = []\<rparr>"

lemma unit_share: "ceil_div_fl float_p 5 2 = Inr 3" "ceil_div_int float_p 3 2 = Inr 2" "u64_of_fl (3, 1) = Inr 3"
  using ceil_div_fl_exact [of 24 5 2] ceil_div_fl_exact [of 24 3 2]
  by (simp_all add: float_p_def ceil_div_def ceil_div_int_def to_c_int_def u64_of_fl_def fl_trunc_def u64_of_int_def)

lemma file_deals: "deal_units 2 3 0 0 [2, 3, 5] [0, 2, 1, 0, 1]
    = Inr ([([0, 2, 3], [0, 2, 1], \<lparr>row_start = 0, row_end = 1\<rparr>), ([0, 2], [0, 1], \<lparr>row_start = 2, row_end = 2\<rparr>)], [], [])"
  by code_simp

lemma file_distributed:
  "\<exists>s'. Distribute file_cfg file_dims [0, 2, 3, 5] [0, 2, 1, 0, 1] fresh_distr = Inr s'
     \<and> dt_adjcol s' = [[0, 2, 1], [0, 1]] \<and> dt_adjrow s' = [[0, 2, 3], [0, 2]]"
  using unit_share file_deals
  by (simp add: Distribute_def file_cfg_def file_dims_def fresh_distr_def q_pop_def Let_def vec_get_def)

theorem distribution_is_partition_witness:
  "\<exists>s'. Distribute file_cfg file_dims (0 # [2, 3, 5]) [0, 2, 1, 0, 1] fresh_distr = Inr s'
    \<and> concat (dt_adjcol s') = [0, 2, 1, 0, 1] \<and> concat (map degrees (dt_adjrow s')) = degrees (0 # [2, 3, 5])
    \<and> length (dt_adjcol s') = unat (tot_acc file_cfg) \<and> length (dt_adjrow s') = unat (tot_acc file_cfg)"
proof -
  obtain s' where s': "Distribute file_cfg file_dims (0 # [2, 3, 5]) [0, 2, 1, 0, 1] fresh_distr = Inr s'"
    using file_distributed by auto
  from distribution_is_partition [OF _ _ _ _ _ s'] show ?thesis using s' by (simp add: file_cfg_def csr_rest_def)
qed

text \<open>An address inside the range of one of the first 16 units is mapped back to that unit by
  \<open>Distributer::ReturnID\<close>.\<close>

theorem unit_of_address:
  assumes "i < 16" and "a < UNIT_SPAN" and "i < n"
  shows "Distributer_ReturnID (unit_offsets n ! i + a) = int i"
  using ReturnID_unit [OF assms(1,2)] assms(3) by (simp add: unit_offsets_def)

theorem unit_of_address_witness: "Distributer_ReturnID (unit_offsets 4 ! 3 + 4096) = int 3"
  by (rule unit_of_address) (simp_all add: UNIT_SPAN_def)

section \<open>The ini file\<close>








section \<open>Rounding\<close>

text \<open>The line counts computed in \<open>double\<close> (\<open>ceil((double)x / CACHE_LINE_COUNT)\<close>) are exact for all
  operands below $2^{53}$ whose quotient fits an \<open>int\<close>.\<close>

theorem double_line_count_exact:
  assumes "unat x < 2 ^ 53" and "unat y < 2 ^ 53" and "y \<noteq> 0" and "ceil_div (unat x) (unat y) < 2 ^ 31"
  shows "ceil_div_int double_p x y = Inr (int (ceil_div (unat x) (unat y)))"
  using ceil_div_fl_exact [of 53 x y] assms uint_nat_lt [of x 53] uint_nat_lt [of y 53]
  by (simp add: ceil_div_int_def double_p_def to_c_int_def)

theorem double_line_count_exact_witness:
  "ceil_div_int double_p 16777217 8 = Inr (int (ceil_div (unat (16777217 :: u64)) (unat (8 :: u64))))"
  by (rule double_line_count_exact) (simp_all add: ceil_div_def)

text \<open>The weight line count, computed in \<open>float\<close>, is one line short for 16777217 weights and
  lines of 8, where the exact count is 2097153.\<close>

theorem float_line_count_short:
  "ceil_div_fl float_p 16777217 8 = Inr 2097152 \<and> ceil_div 16777217 8 = 2097153"
  by (simp add: ceil_div_fl_def float_p_def fl_eval ceil_div_def)

end
