(* ===== verification/Dram_Config.thy ===== *)
theory Dram_Config
  imports Common_Types
begin

text \<open>
  \<open>DRAMsim3/src/common.h\<close>, \<open>common.cc\<close> and \<open>configuration.cc\<close>: addresses, commands, transactions and
  the configuration of a memory system.  \<open>INIReader\<close> is a vendored library: it appears as the
  argument \<open>ini_reader\<close> (its three lookup functions with a default).  Power and thermal parameters
  follow in \<open>Thermal_Plan\<close>; file names are left out.  The lemmas show that the bit
  fields \<open>SetAddressMapping\<close> lays out keep every decoded coordinate inside the configured geometry.
\<close>

unbundle bit_operations_syntax

section \<open>Commands\<close>

record Address =
  channel :: int
  rank :: int
  bankgroup :: int
  bank :: int
  row :: int
  column :: int

definition no_address :: Address where
  "no_address = \<lparr>channel = -1, rank = -1, bankgroup = -1, bank = -1, row = -1, column = -1\<rparr>"

datatype CommandType = CMD_READ | CMD_READ_PRECHARGE | CMD_WRITE | CMD_WRITE_PRECHARGE | CMD_ACTIVATE
  | CMD_PRECHARGE | CMD_REFRESH_BANK | CMD_REFRESH | CMD_SREF_ENTER | CMD_SREF_EXIT | CMD_SIZE

record Command =
  cmd_type :: CommandType
  addr :: Address
  hex_addr :: u64

definition no_command :: Command where
  "no_command = \<lparr>cmd_type = CMD_SIZE, addr = no_address, hex_addr = 0\<rparr>"

definition IsValid :: "Command \<Rightarrow> bool" where
  "IsValid cmd \<longleftrightarrow> cmd_type cmd \<noteq> CMD_SIZE"

definition IsRefresh :: "Command \<Rightarrow> bool" where
  "IsRefresh cmd \<longleftrightarrow> cmd_type cmd = CMD_REFRESH \<or> cmd_type cmd = CMD_REFRESH_BANK"

definition IsRead :: "Command \<Rightarrow> bool" where
  "IsRead cmd \<longleftrightarrow> cmd_type cmd = CMD_READ \<or> cmd_type cmd = CMD_READ_PRECHARGE"

definition IsWrite :: "Command \<Rightarrow> bool" where
  "IsWrite cmd \<longleftrightarrow> cmd_type cmd = CMD_WRITE \<or> cmd_type cmd = CMD_WRITE_PRECHARGE"

definition IsReadWrite :: "Command \<Rightarrow> bool" where
  "IsReadWrite cmd \<longleftrightarrow> IsRead cmd \<or> IsWrite cmd"

definition IsRankCMD :: "Command \<Rightarrow> bool" where
  "IsRankCMD cmd \<longleftrightarrow> cmd_type cmd = CMD_REFRESH \<or> cmd_type cmd = CMD_SREF_ENTER \<or> cmd_type cmd = CMD_SREF_EXIT"

lemmas command_kinds = IsValid_def IsRefresh_def IsRead_def IsWrite_def IsReadWrite_def IsRankCMD_def

record Transaction =
  t_addr :: u64
  added_cycle :: u64
  complete_cycle :: u64
  is_write :: bool

definition new_transaction :: "u64 \<Rightarrow> bool \<Rightarrow> Transaction" where
  "new_transaction a w = \<lparr>t_addr = a, added_cycle = 0, complete_cycle = 0, is_write = w\<rparr>"

section \<open>Bits\<close>

definition shr64 :: "u64 \<Rightarrow> int \<Rightarrow> u64 result" where
  "shr64 w p = (if 0 \<le> p \<and> p < 64 then Inr (drop_bit (nat p) w) else Inl UB_Shift)"

definition GetBitInPos :: "u64 \<Rightarrow> int \<Rightarrow> int result" where
  "GetBitInPos bits pos = bindE (shr64 bits pos) (\<lambda>w. Inr (int_of_u64 (w AND 1)))"

definition ModuloWidth :: "u64 \<Rightarrow> nat \<Rightarrow> nat \<Rightarrow> u32 result" where
  "ModuloWidth a bit_width pos =
     bindE (shr64 a (int pos)) (\<lambda>store.
     bindE (shr64 store (int bit_width)) (\<lambda>hi.
     Inr (ucast (store XOR push_bit bit_width hi))))"

fun LogBase2_nat :: "nat \<Rightarrow> nat" where
  "LogBase2_nat n = (if n > 1 then Suc (LogBase2_nat (n div 2)) else 0)"

declare LogBase2_nat.simps [simp del]

definition LogBase2 :: "int \<Rightarrow> int" where
  "LogBase2 n = int (LogBase2_nat (nat n))"

fun split_str :: "char \<Rightarrow> string \<Rightarrow> string \<Rightarrow> string list" where
  "split_str dl acc [] = (if acc = [] then [] else [acc])"
| "split_str dl acc (ch # cs) =
     (if ch = dl then (if acc = [] then split_str dl [] cs else acc # split_str dl [] cs)
      else split_str dl (acc @ [ch]) cs)"

definition StringSplit :: "string \<Rightarrow> char \<Rightarrow> string list" where
  "StringSplit s dl = split_str dl [] s"

section \<open>Configuration\<close>

datatype DRAMProtocol = DDR3 | DDR4 | GDDR5 | GDDR5X | GDDR6 | LPDDR | LPDDR3 | LPDDR4 | HBM | HBM2 | HMC

datatype RefreshPolicy = RANK_LEVEL_SIMULTANEOUS | RANK_LEVEL_STAGGERED | BANK_LEVEL_STAGGERED

record dram_config =
  protocol :: DRAMProtocol
  channel_size :: int
  channels :: int
  ranks :: int
  banks :: int
  bankgroups :: int
  banks_per_group :: int
  rows :: int
  columns :: int
  device_width :: int
  bus_width :: int
  devices_per_rank :: int
  BL :: int
  shift_bits :: int
  ch_pos :: int
  ra_pos :: int
  bg_pos :: int
  ba_pos :: int
  ro_pos :: int
  co_pos :: int
  ch_mask :: u64
  ra_mask :: u64
  bg_mask :: u64
  ba_mask :: u64
  ro_mask :: u64
  co_mask :: u64
  burst_cycle :: int
  AL :: int
  CL :: int
  CWL :: int
  RL :: int
  WL :: int
  tCCD_L :: int
  tCCD_S :: int
  tRTRS :: int
  tRTP :: int
  tWTR_L :: int
  tWTR_S :: int
  tWR :: int
  tRP :: int
  tRRD_L :: int
  tRRD_S :: int
  tRAS :: int
  tRCD :: int
  tRFC :: int
  tRC :: int
  tCKESR :: int
  tXS :: int
  tRFCb :: int
  tREFI :: int
  tREFIb :: int
  tFAW :: int
  read_delay :: int
  write_delay :: int
  tPPD :: int
  t32AW :: int
  tRCDRD :: int
  tRCDWR :: int
  address_mapping :: string
  queue_structure :: string
  row_buf_policy :: string
  refresh_policy :: RefreshPolicy
  cmd_queue_size :: int
  unified_queue :: bool
  trans_queue_size :: int
  enable_self_refresh :: bool
  sref_threshold :: int
  enable_hbm_dual_cmd :: bool
  epoch_period :: int
  ideal_memory_latency :: int
  request_size_bytes :: int
  num_links :: int
  link_width :: int
  link_speed :: int
  block_size :: int
  xbar_queue_depth :: int

definition IsGDDR :: "dram_config \<Rightarrow> bool" where
  "IsGDDR c \<longleftrightarrow> protocol c = GDDR5 \<or> protocol c = GDDR5X \<or> protocol c = GDDR6"

definition IsHBM :: "dram_config \<Rightarrow> bool" where
  "IsHBM c \<longleftrightarrow> protocol c = HBM \<or> protocol c = HBM2"

definition IsHMC :: "dram_config \<Rightarrow> bool" where
  "IsHMC c \<longleftrightarrow> protocol c = HMC"

text \<open>\<open>int x = (hex_addr >> pos) & mask\<close>\<close>

definition field :: "u64 \<Rightarrow> int \<Rightarrow> u64 \<Rightarrow> int result" where
  "field a pos mask_bits = bindE (shr64 a pos) (\<lambda>w. Inr (int_of_u64 (w AND mask_bits)))"

definition AddressMapping :: "dram_config \<Rightarrow> u64 \<Rightarrow> Address result" where
  "AddressMapping c hex =
     bindE (shr64 hex (shift_bits c)) (\<lambda>a.
     bindE (field a (ch_pos c) (ch_mask c)) (\<lambda>ch.
     bindE (field a (ra_pos c) (ra_mask c)) (\<lambda>ra.
     bindE (field a (bg_pos c) (bg_mask c)) (\<lambda>bg.
     bindE (field a (ba_pos c) (ba_mask c)) (\<lambda>ba.
     bindE (field a (ro_pos c) (ro_mask c)) (\<lambda>ro.
     bindE (field a (co_pos c) (co_mask c)) (\<lambda>co.
     Inr \<lparr>channel = ch, rank = ra, bankgroup = bg, bank = ba, row = ro, column = co\<rparr>)))))))"

section \<open>Reading the configuration\<close>

record ini_reader =
  rd_Get :: "string \<Rightarrow> string \<Rightarrow> string \<Rightarrow> string"
  rd_GetInteger :: "string \<Rightarrow> string \<Rightarrow> int \<Rightarrow> int"
  rd_GetBoolean :: "string \<Rightarrow> string \<Rightarrow> bool \<Rightarrow> bool"

text \<open>\<open>reader_->GetInteger\<close> returns a \<open>long\<close>, which the cast narrows.\<close>

definition cfg_GetInteger :: "ini_reader \<Rightarrow> string \<Rightarrow> string \<Rightarrow> int \<Rightarrow> int" where
  "cfg_GetInteger r sec opt d = int_of_u64 (u64_of_int (rd_GetInteger r sec opt d))"

definition GetDRAMProtocol :: "string \<Rightarrow> DRAMProtocol result" where
  "GetDRAMProtocol s =
     (case map_of [(''DDR3'', DDR3), (''DDR4'', DDR4), (''GDDR5'', GDDR5), (''GDDR5X'', GDDR5X), (''GDDR6'', GDDR6),
        (''LPDDR'', LPDDR), (''LPDDR3'', LPDDR3), (''LPDDR4'', LPDDR4), (''HBM'', HBM), (''HBM2'', HBM2), (''HMC'', HMC)] s of
        Some p \<Rightarrow> Inr p | None \<Rightarrow> Inl Abrupt_Exit)"

definition InitSystemParams :: "ini_reader \<Rightarrow> dram_config \<Rightarrow> dram_config result" where
  "InitSystemParams r c =
     (let i = cfg_GetInteger r ''system''; s = rd_Get r ''system''; b = rd_GetBoolean r ''system'';
          pol = s ''refresh_policy'' ''RANK_LEVEL_STAGGERED'' in
      bindE (if pol = ''RANK_LEVEL_SIMULTANEOUS'' then Inr RANK_LEVEL_SIMULTANEOUS
             else if pol = ''RANK_LEVEL_STAGGERED'' then Inr RANK_LEVEL_STAGGERED
             else if pol = ''BANK_LEVEL_STAGGERED'' then Inr BANK_LEVEL_STAGGERED
             else Inl Abrupt_Exit) (\<lambda>rp.
      Inr (c\<lparr>channel_size := i ''channel_size'' 1024, channels := i ''channels'' 1, bus_width := i ''bus_width'' 64,
             address_mapping := s ''address_mapping'' ''chrobabgraco'', queue_structure := s ''queue_structure'' ''PER_BANK'',
             row_buf_policy := s ''row_buf_policy'' ''OPEN_PAGE'', cmd_queue_size := i ''cmd_queue_size'' 16,
             trans_queue_size := i ''trans_queue_size'' 32, unified_queue := b ''unified_queue'' False,
             refresh_policy := rp, enable_self_refresh := b ''enable_self_refresh'' False,
             sref_threshold := i ''sref_threshold'' 1000\<rparr>)))"

text \<open>Burst length and burst cycles by protocol; a burst length of 0 stands for unlimited bandwidth.\<close>

definition burst_of :: "DRAMProtocol \<Rightarrow> int \<Rightarrow> int \<times> int" where
  "burst_of p bl =
     (let dv = (case p of GDDR5 \<Rightarrow> 4 | GDDR5X \<Rightarrow> 8 | GDDR6 \<Rightarrow> 16 | _ \<Rightarrow> 2);
          dflt = (if p = HBM \<or> p = HBM2 then 4 else 8) in
      (if bl = 0 then 0 else sgn bl * (\<bar>bl\<bar> div dv), if bl = 0 then dflt else bl))"

definition InitDRAMParams :: "ini_reader \<Rightarrow> dram_config \<Rightarrow> dram_config result" where
  "InitDRAMParams r c =
     (let i = cfg_GetInteger r ''dram_structure''; h = cfg_GetInteger r ''hmc''; b = rd_GetBoolean r ''dram_structure'' in
      bindE (GetDRAMProtocol (rd_Get r ''dram_structure'' ''protocol'' ''DDR3'')) (\<lambda>p.
      let bg0 = i ''bankgroups'' 2; bpg0 = i ''banks_per_group'' 2; en = b ''bankgroup_enable'' True;
          bpg = (if en then bpg0 else bpg0 * bg0); bg = (if en then bg0 else 1);
          dw = i ''device_width'' 8; cols = i ''columns'' (2 ^ 10) in
      bindE (if p = HMC then c_div (h ''block_size'' 64 * 8) dw else Inr (i ''BL'' 8)) (\<lambda>bl.
      let (bc, bl') = burst_of p bl; c1 = c\<lparr>protocol := p\<rparr> in
      Inr (c1\<lparr>bankgroups := bg, banks_per_group := bpg, banks := bg * bpg, rows := i ''rows'' (2 ^ 16),
              device_width := dw, burst_cycle := bc, BL := bl',
              columns := (if IsGDDR c1 then cols * bl' else if IsHBM c1 then cols * 2 else cols),
              enable_hbm_dual_cmd := (b ''hbm_dual_cmd'' True \<and> IsHBM c1),
              num_links := h ''num_links'' 4, link_width := h ''link_width'' 16, link_speed := h ''link_speed'' 15000,
              block_size := h ''block_size'' 64, xbar_queue_depth := h ''xbar_queue_depth'' 16\<rparr>))))"

definition CalculateSize :: "dram_config \<Rightarrow> dram_config result" where
  "CalculateSize c =
     bindE (c_div (bus_width c) (device_width c)) (\<lambda>devs.
     bindE (c_div (columns c * device_width c) 8) (\<lambda>page_size.
     bindE (c_div (rows c) 1024) (\<lambda>krows.
     bindE (c_div (page_size * krows) 1024) (\<lambda>megs_per_bank.
     let megs_per_rank = megs_per_bank * banks c * devs in
     if megs_per_rank > channel_size c then
       Inr (c\<lparr>devices_per_rank := devs, ranks := 1, channel_size := megs_per_rank\<rparr>)
     else
       bindE (c_div (channel_size c) megs_per_rank) (\<lambda>n.
       Inr (c\<lparr>devices_per_rank := devs, ranks := n, channel_size := n * megs_per_rank\<rparr>))))))"

definition InitTimingParams :: "ini_reader \<Rightarrow> dram_config \<Rightarrow> dram_config" where
  "InitTimingParams r c =
     (let i = cfg_GetInteger r ''timing'';
          al = i ''AL'' 0; cl = i ''CL'' 12; cwl = i ''CWL'' 12; ras = i ''tRAS'' 24; rp = i ''tRP'' 10 in
      c\<lparr>AL := al, CL := cl, CWL := cwl, tCCD_L := i ''tCCD_L'' 6, tCCD_S := i ''tCCD_S'' 4, tRTRS := i ''tRTRS'' 2,
        tRTP := i ''tRTP'' 5, tWTR_L := i ''tWTR_L'' 5, tWTR_S := i ''tWTR_S'' 5, tWR := i ''tWR'' 10, tRP := rp,
        tRRD_L := i ''tRRD_L'' 4, tRRD_S := i ''tRRD_S'' 4, tRAS := ras, tRCD := i ''tRCD'' 10, tRFC := i ''tRFC'' 74,
        tRC := ras + rp, tCKESR := i ''tCKESR'' 12, tXS := i ''tXS'' 432, tRFCb := i ''tRFCb'' 20,
        tREFI := i ''tREFI'' 7800, tREFIb := i ''tREFIb'' 1950, tFAW := i ''tFAW'' 50, tPPD := i ''tPPD'' 0,
        t32AW := i ''t32AW'' 330, tRCDRD := i ''tRCDRD'' 24, tRCDWR := i ''tRCDWR'' 20,
        ideal_memory_latency := i ''ideal_memory_latency'' 10,
        RL := al + cl, WL := al + cwl, read_delay := al + cl + burst_cycle c, write_delay := al + cwl + burst_cycle c\<rparr>)"

definition InitOtherParams :: "ini_reader \<Rightarrow> dram_config \<Rightarrow> dram_config" where
  "InitOtherParams r c = c\<lparr>epoch_period := cfg_GetInteger r ''other'' ''epoch_period'' 100000\<rparr>"

section \<open>Address bit fields\<close>

type_synonym widths = "(string \<times> int) list"

definition field_widths :: "dram_config \<Rightarrow> widths" where
  "field_widths c =
     [(''ch'', LogBase2 (channels c)), (''ra'', LogBase2 (ranks c)), (''bg'', LogBase2 (bankgroups c)),
      (''ba'', LogBase2 (banks_per_group c)), (''ro'', LogBase2 (rows c)),
      (''co'', LogBase2 (columns c) - LogBase2 (BL c))]"

fun fields_of :: "string \<Rightarrow> string list" where
  "fields_of (a # b # cs) = [a, b] # fields_of cs"
| "fields_of cs = (if cs = [] then [] else [cs])"

text \<open>The loop that pops the fields from the back and stacks their widths.\<close>

fun lay_fields :: "widths \<Rightarrow> string list \<Rightarrow> int \<Rightarrow> (string \<rightharpoonup> int) \<Rightarrow> (string \<rightharpoonup> int) result" where
  "lay_fields ws [] pos m = Inr m"
| "lay_fields ws (tok # toks) pos m =
     (case map_of ws tok of None \<Rightarrow> Inl Abrupt_Exit | Some w \<Rightarrow> lay_fields ws toks (pos + w) (m(tok \<mapsto> pos)))"

definition map_at :: "(string \<rightharpoonup> 'a) \<Rightarrow> string \<Rightarrow> 'a result" where
  "map_at m k = (case m k of None \<Rightarrow> Inl Out_Of_Range | Some v \<Rightarrow> Inr v)"

text \<open>\<open>(1 << w) - 1\<close> in \<open>int\<close>.\<close>

definition low_mask :: "int \<Rightarrow> u64 result" where
  "low_mask w = (if 0 \<le> w \<and> w < 31 then Inr (u64_of_int (2 ^ nat w - 1)) else Inl UB_Shift)"

definition SetAddressMapping :: "dram_config \<Rightarrow> dram_config result" where
  "SetAddressMapping c =
     bindE (c_div (bus_width c) 8) (\<lambda>bytes.
     let rs = bytes * BL c; ws = field_widths c in
     if length (address_mapping c) \<noteq> 12 then Inl Abrupt_Exit
     else
     bindE (lay_fields ws (rev (fields_of (address_mapping c))) 0 Map.empty) (\<lambda>m.
     bindE (map_at m ''ch'') (\<lambda>chp. bindE (map_at m ''ra'') (\<lambda>rap. bindE (map_at m ''bg'') (\<lambda>bgp.
     bindE (map_at m ''ba'') (\<lambda>bap. bindE (map_at m ''ro'') (\<lambda>rop. bindE (map_at m ''co'') (\<lambda>cop.
     bindE (low_mask (LogBase2 (channels c))) (\<lambda>chm. bindE (low_mask (LogBase2 (ranks c))) (\<lambda>ram.
     bindE (low_mask (LogBase2 (bankgroups c))) (\<lambda>bgm. bindE (low_mask (LogBase2 (banks_per_group c))) (\<lambda>bam.
     bindE (low_mask (LogBase2 (rows c))) (\<lambda>rom. bindE (low_mask (LogBase2 (columns c) - LogBase2 (BL c))) (\<lambda>com.
     Inr (c\<lparr>request_size_bytes := rs, shift_bits := LogBase2 rs,
            ch_pos := chp, ra_pos := rap, bg_pos := bgp, ba_pos := bap, ro_pos := rop, co_pos := cop,
            ch_mask := chm, ra_mask := ram, bg_mask := bgm, ba_mask := bam, ro_mask := rom, co_mask := com\<rparr>)))))))))))))))"

text \<open>The constructor, from the uninitialised object \<open>c0\<close>.\<close>

definition Config_new :: "ini_reader \<Rightarrow> bool \<Rightarrow> dram_config \<Rightarrow> dram_config result" where
  "Config_new r parse_error c0 =
     (if parse_error then Inl Abrupt_Exit
      else bindE (InitSystemParams r c0) (\<lambda>c1.
           bindE (InitDRAMParams r c1) (\<lambda>c2.
           bindE (CalculateSize c2) (\<lambda>c3.
           bindE (SetAddressMapping c3) (\<lambda>c4.
           Inr (InitOtherParams r (InitTimingParams r c4)))))))"

section \<open>Decoded coordinates stay inside the geometry\<close>

lemma LogBase2_nat_le: "0 < n \<Longrightarrow> 2 ^ LogBase2_nat n \<le> n"
proof (induction n rule: LogBase2_nat.induct)
  case (1 n)
  show ?case
  proof (cases "1 < n")
    case True
    then have "2 ^ LogBase2_nat (n div 2) \<le> n div 2" using "1.IH" by simp
    then show ?thesis using True by (simp add: LogBase2_nat.simps [of n])
  next
    case False
    then show ?thesis using "1.prems" by (simp add: LogBase2_nat.simps [of n])
  qed
qed

lemma LogBase2_nonneg [simp]: "0 \<le> LogBase2 n"
  by (simp add: LogBase2_def)

lemma low_mask_unat:
  assumes "low_mask w = Inr m"
  shows "0 \<le> w" "w < 31" "unat m = 2 ^ nat w - 1" "m = mask (nat w)"
proof -
  show w: "0 \<le> w" "w < 31" using assms by (auto simp: low_mask_def split: if_splits)
  have m: "m = u64_of_int (int (2 ^ nat w - 1))" using assms w by (auto simp: low_mask_def of_nat_diff)
  have "nat w < 64" using w by simp
  then have lt: "(2 :: nat) ^ nat w < 2 ^ 64" by (rule power_strict_increasing) simp
  show "unat m = 2 ^ nat w - 1" unfolding m by (rule unat_u64_of_int) (use lt in linarith)
  show "m = mask (nat w)" using assms w by (simp add: low_mask_def u64_of_int_def mask_eq_exp_minus_1)
qed

lemma mask_within:
  assumes "low_mask (LogBase2 n) = Inr m" and "0 < n"
  shows "unat m < nat n"
proof -
  have "unat m = 2 ^ LogBase2_nat (nat n) - 1" using low_mask_unat(3) [OF assms(1)] by (simp add: LogBase2_def)
  also have "\<dots> < 2 ^ LogBase2_nat (nat n)" by simp
  also have "\<dots> \<le> nat n" by (rule LogBase2_nat_le) (use assms(2) in simp)
  finally show ?thesis .
qed

lemma field_in:
  assumes "0 \<le> pos" and "pos < 64" and "unat m < nat n" and "n < 2 ^ 31"
  shows "\<exists>v. field a pos m = Inr v \<and> 0 \<le> v \<and> v < n"
proof -
  let ?w = "drop_bit (nat pos) a AND m"
  have "?w \<le> m" by (simp add: word_and_le1)
  then have le: "unat ?w \<le> unat m" by (simp add: word_le_nat_alt)
  have "nat n < 2 ^ 31" using assms(4) by simp
  then have "unat ?w < 2 ^ 31" using le assms(3) by linarith
  then have "int_of_u64 ?w = int (unat ?w)" by (rule int_of_u64_nat)
  moreover have "int (unat ?w) < n" using le assms(3) by linarith
  ultimately show ?thesis using assms(1,2) by (simp add: field_def shr64_def del: of_nat_unat)
qed

definition addr_in :: "dram_config \<Rightarrow> Address \<Rightarrow> bool" where
  "addr_in c a \<longleftrightarrow> 0 \<le> rank a \<and> rank a < ranks c \<and> 0 \<le> bankgroup a \<and> bankgroup a < bankgroups c
     \<and> 0 \<le> bank a \<and> bank a < banks_per_group c"

text \<open>What the rest of the memory system needs of the layout.\<close>

definition map_ok :: "dram_config \<Rightarrow> bool" where
  "map_ok c \<longleftrightarrow> 0 \<le> shift_bits c \<and> shift_bits c < 64
     \<and> (\<forall>p \<in> {ch_pos c, ra_pos c, bg_pos c, ba_pos c, ro_pos c, co_pos c}. 0 \<le> p \<and> p < 64)
     \<and> unat (ch_mask c) < nat (channels c) \<and> unat (ra_mask c) < nat (ranks c)
     \<and> unat (bg_mask c) < nat (bankgroups c) \<and> unat (ba_mask c) < nat (banks_per_group c)
     \<and> channels c < 2 ^ 31 \<and> ranks c < 2 ^ 31 \<and> bankgroups c < 2 ^ 31 \<and> banks_per_group c < 2 ^ 31"

lemma AddressMapping_in:
  assumes "map_ok c"
  shows "\<exists>a. AddressMapping c h = Inr a \<and> addr_in c a \<and> 0 \<le> channel a \<and> channel a < channels c"
proof -
  let ?h = "drop_bit (nat (shift_bits c)) h"
  have ch: "\<exists>v. field ?h (ch_pos c) (ch_mask c) = Inr v \<and> 0 \<le> v \<and> v < channels c"
    and ra: "\<exists>v. field ?h (ra_pos c) (ra_mask c) = Inr v \<and> 0 \<le> v \<and> v < ranks c"
    and bg: "\<exists>v. field ?h (bg_pos c) (bg_mask c) = Inr v \<and> 0 \<le> v \<and> v < bankgroups c"
    and ba: "\<exists>v. field ?h (ba_pos c) (ba_mask c) = Inr v \<and> 0 \<le> v \<and> v < banks_per_group c"
    using assms by (auto simp: map_ok_def intro!: field_in)
  have ro: "\<exists>v. field ?h (ro_pos c) (ro_mask c) = Inr v" and co: "\<exists>v. field ?h (co_pos c) (co_mask c) = Inr v"
    using assms by (auto simp: map_ok_def field_def shr64_def)
  from ch ra bg ba ro co assms show ?thesis
    by (auto simp: AddressMapping_def shr64_def map_ok_def addr_in_def)
qed

section \<open>The layout\<close>

definition width_of :: "widths \<Rightarrow> string \<Rightarrow> int" where
  "width_of ws tok = (case map_of ws tok of None \<Rightarrow> 0 | Some w \<Rightarrow> w)"

lemma lay_fields_keep:
  assumes "lay_fields ws toks pos m = Inr m'" and "tok \<notin> set toks"
  shows "m' tok = m tok"
  using assms by (induction toks arbitrary: pos m) (auto split: option.splits)

lemma lay_fields_dom:
  assumes "lay_fields ws toks pos m = Inr m'"
  shows "dom m' = dom m \<union> set toks" and "set toks \<subseteq> set (map fst ws)"
  using assms by (induction toks arbitrary: pos m) (auto split: option.splits dest: map_of_SomeD intro: rev_image_eqI)

lemma lay_fields_bounds:
  assumes "lay_fields ws toks pos m = Inr m'" and "\<forall>tok. 0 \<le> width_of ws tok" and "0 \<le> pos" and "\<forall>v \<in> ran m. 0 \<le> v \<and> v \<le> B"
    and "pos + sum_list (map (width_of ws) toks) \<le> B"
  shows "\<forall>v \<in> ran m'. 0 \<le> v \<and> v \<le> B"
  using assms
proof (induction toks arbitrary: pos m)
  case (Cons tok toks)
  from Cons.prems(1) obtain w where w: "map_of ws tok = Some w" and r: "lay_fields ws toks (pos + w) (m(tok \<mapsto> pos)) = Inr m'"
    by (auto split: option.splits)
  have w0: "width_of ws tok = w" "0 \<le> w" using w spec [OF Cons.prems(2), of tok] by (simp_all add: width_of_def)
  have nn: "0 \<le> sum_list (map (width_of ws) toks)" using Cons.prems(2) by (intro sum_list_nonneg) auto
  have "\<forall>v \<in> ran (m(tok \<mapsto> pos)). 0 \<le> v \<and> v \<le> B"
    using Cons.prems(3-5) w0 nn by (auto simp: ran_def split: if_splits)
  from Cons.IH [OF r Cons.prems(2) _ this] show ?case using Cons.prems(3,5) w0 by simp
qed simp

text \<open>Every bit below the total width belongs to a field.\<close>

lemma lay_fields_cover:
  assumes "lay_fields ws toks pos m = Inr m'" and "distinct toks" and "\<forall>tok. 0 \<le> width_of ws tok"
    and "pos \<le> n" and "n < pos + sum_list (map (width_of ws) toks)"
  shows "\<exists>tok \<in> set toks. \<exists>p. m' tok = Some p \<and> p \<le> n \<and> n < p + width_of ws tok"
  using assms
proof (induction toks arbitrary: pos m)
  case (Cons tok toks)
  from Cons.prems(1) obtain w where w: "map_of ws tok = Some w" and r: "lay_fields ws toks (pos + w) (m(tok \<mapsto> pos)) = Inr m'"
    by (auto split: option.splits)
  have w0: "width_of ws tok = w" using w by (simp add: width_of_def)
  have d: "distinct toks" using Cons.prems(2) by simp
  show ?case
  proof (cases "n < pos + w")
    case True
    have "m' tok = Some pos" using lay_fields_keep [OF r] Cons.prems(2) by simp
    then show ?thesis using True w0 Cons.prems(4) by auto
  next
    case False
    have "pos + w \<le> n" and "n < pos + w + sum_list (map (width_of ws) toks)" using False Cons.prems(5) w0 by simp_all
    from Cons.IH [OF r d Cons.prems(3) this] show ?thesis by auto
  qed
qed simp

definition total_width :: "dram_config \<Rightarrow> int" where
  "total_width c = sum_list (map snd (field_widths c))"

definition same_geometry :: "dram_config \<Rightarrow> dram_config \<Rightarrow> bool" where
  "same_geometry c c' \<longleftrightarrow> channels c' = channels c \<and> ranks c' = ranks c \<and> bankgroups c' = bankgroups c
     \<and> banks_per_group c' = banks_per_group c \<and> banks c' = banks c \<and> rows c' = rows c \<and> columns c' = columns c \<and> BL c' = BL c"

lemma SetAddressMapping_fields:
  assumes "SetAddressMapping c = Inr c'"
  shows "\<exists>m. lay_fields (field_widths c) (rev (fields_of (address_mapping c))) 0 Map.empty = Inr m
    \<and> m ''ch'' = Some (ch_pos c') \<and> m ''ra'' = Some (ra_pos c') \<and> m ''bg'' = Some (bg_pos c')
    \<and> m ''ba'' = Some (ba_pos c') \<and> m ''ro'' = Some (ro_pos c') \<and> m ''co'' = Some (co_pos c')"
    and "low_mask (LogBase2 (channels c)) = Inr (ch_mask c')" and "low_mask (LogBase2 (ranks c)) = Inr (ra_mask c')"
    and "low_mask (LogBase2 (bankgroups c)) = Inr (bg_mask c')" and "low_mask (LogBase2 (banks_per_group c)) = Inr (ba_mask c')"
    and "low_mask (LogBase2 (rows c)) = Inr (ro_mask c')"
    and "low_mask (LogBase2 (columns c) - LogBase2 (BL c)) = Inr (co_mask c')"
    and "length (address_mapping c) = 12" and "same_geometry c c'"
  using assms
  by (auto simp: SetAddressMapping_def bindE_eq_Inr Let_def map_at_def same_geometry_def split: if_split_asm option.split_asm)

lemma fields_of_12: "length s = 12 \<Longrightarrow> length (fields_of s) = 6"
proof -
  have len: "length (fields_of s) = (length s + 1) div 2" for s by (induction s rule: fields_of.induct) auto
  assume "length s = 12"
  then show ?thesis by (simp add: len)
qed

lemma layout_tokens:
  assumes "SetAddressMapping c = Inr c'"
  defines "toks \<equiv> rev (fields_of (address_mapping c))"
  shows "distinct toks" and "set toks = set (map fst (field_widths c))"
    and "\<forall>tok. 0 \<le> width_of (field_widths c) tok"
    and "sum_list (map (width_of (field_widths c)) toks) = total_width c"
proof -
  let ?ws = "field_widths c" and ?K = "{''ch'', ''ra'', ''bg'', ''ba'', ''ro'', ''co''} :: string set"
  note f = SetAddressMapping_fields [OF assms(1)]
  from f(1) obtain m where m: "lay_fields ?ws toks 0 Map.empty = Inr m" "?K \<subseteq> dom m"
    unfolding toks_def by auto
  have K: "set (map fst ?ws) = ?K" by (simp add: field_widths_def)
  have "card ?K = 6" by simp
  have sub: "?K \<subseteq> set toks" using m lay_fields_dom(1) [OF m(1)] by auto
  have len: "length toks = 6" using fields_of_12 [OF f(8)] by (simp add: toks_def)
  have "card ?K \<le> card (set toks)" by (rule card_mono) (use sub in simp_all)
  then have "card (set toks) = length toks" using len card_length [of toks] \<open>card ?K = 6\<close> by simp
  then show d: "distinct toks" by (rule card_distinct)
  show s: "set toks = set (map fst ?ws)" using sub lay_fields_dom(2) [OF m(1)] K by auto
  have "0 \<le> LogBase2 (columns c) - LogBase2 (BL c)" using low_mask_unat(1) [OF f(7)] .
  then show "\<forall>tok. 0 \<le> width_of ?ws tok" by (auto simp: width_of_def field_widths_def)
  have "sum_list (map (width_of ?ws) toks) = sum (width_of ?ws) (set toks)"
    by (rule sum_list_distinct_conv_sum_set [OF d])
  also have "\<dots> = sum_list (map (width_of ?ws) (map fst ?ws))"
    unfolding s by (rule sum_list_distinct_conv_sum_set [symmetric]) (simp add: field_widths_def)
  also have "\<dots> = total_width c" by (simp add: total_width_def field_widths_def width_of_def)
  finally show "sum_list (map (width_of ?ws) toks) = total_width c" .
qed

lemma SetAddressMapping_ok:
  assumes "SetAddressMapping c = Inr c'" and "total_width c < 64" and "0 \<le> shift_bits c'" and "shift_bits c' < 64"
    and "0 < channels c" "channels c < 2 ^ 31" "0 < ranks c" "ranks c < 2 ^ 31"
    and "0 < bankgroups c" "bankgroups c < 2 ^ 31" "0 < banks_per_group c" "banks_per_group c < 2 ^ 31"
  shows "map_ok c'"
proof -
  note f = SetAddressMapping_fields [OF assms(1)] and t = layout_tokens [OF assms(1)]
  from f(1) obtain m where m: "lay_fields (field_widths c) (rev (fields_of (address_mapping c))) 0 Map.empty = Inr m"
    "m ''ch'' = Some (ch_pos c')" "m ''ra'' = Some (ra_pos c')" "m ''bg'' = Some (bg_pos c')"
    "m ''ba'' = Some (ba_pos c')" "m ''ro'' = Some (ro_pos c')" "m ''co'' = Some (co_pos c')" by blast
  have b: "\<forall>v \<in> ran m. 0 \<le> v \<and> v \<le> total_width c"
    by (rule lay_fields_bounds [OF m(1) t(3)]) (simp_all add: t(4))
  have g: "same_geometry c c'" by (rule f(9))
  have mk: "unat (ch_mask c') < nat (channels c)" "unat (ra_mask c') < nat (ranks c)"
    "unat (bg_mask c') < nat (bankgroups c)" "unat (ba_mask c') < nat (banks_per_group c)"
    using mask_within f(2-5) assms by blast+
  have "0 \<le> p \<and> p < 64" if "m k = Some p" for k p
    using bspec [OF b ranI [of m k p, OF that]] assms(2) by simp
  then have "\<forall>p \<in> {ch_pos c', ra_pos c', bg_pos c', ba_pos c', ro_pos c', co_pos c'}. 0 \<le> p \<and> p < 64"
    using m(2-7) by blast
  then show ?thesis using assms g mk by (simp add: map_ok_def same_geometry_def)
qed

text \<open>Two addresses with the same coordinates are the same request.\<close>

lemma field_bits:
  assumes "field a p m = field b p m" and "low_mask w = Inr m" and "0 \<le> p" and "p < 64"
    and "p \<le> int n" and "int n < p + w"
  shows "bit a n = bit b n"
proof -
  note lm = low_mask_unat [OF assms(2)]
  have small: "unat (x AND m) < 2 ^ 31" for x
  proof -
    have "unat (x AND m) \<le> unat m" using word_and_le1 [of x m] by (simp add: word_le_nat_alt)
    also have "\<dots> < 2 ^ nat w" by (simp add: lm(3))
    also have "\<dots> \<le> 2 ^ 31" using lm(2) by (intro power_increasing) auto
    finally show ?thesis .
  qed
  have "int_of_u64 (drop_bit (nat p) a AND m) = int_of_u64 (drop_bit (nat p) b AND m)"
    using assms(1,3,4) by (simp add: field_def shr64_def)
  then have "unat (drop_bit (nat p) a AND m) = unat (drop_bit (nat p) b AND m)"
    using small by (simp add: int_of_u64_nat del: of_nat_unat)
  then have eq: "drop_bit (nat p) a AND m = drop_bit (nat p) b AND m" by (simp add: word_unat_eq_iff)
  have k: "n - nat p < nat w" "n = nat p + (n - nat p)" using assms(3,5,6) by linarith+
  from eq have "bit (drop_bit (nat p) a AND m) (n - nat p) = bit (drop_bit (nat p) b AND m) (n - nat p)" by simp
  moreover have "n - nat p < 64" using k(1) lm(2) by linarith
  ultimately show ?thesis using k by (simp add: bit_and_iff bit_drop_bit_eq lm(4) bit_mask_iff)
qed

lemma AddressMapping_inj:
  assumes "SetAddressMapping c = Inr c'" and "total_width c < 64" and "0 \<le> shift_bits c'" and "shift_bits c' < 64"
    and "AddressMapping c' x = AddressMapping c' y" and "AddressMapping c' x = Inr a"
    and "unat (drop_bit (nat (shift_bits c')) x) < 2 ^ nat (total_width c)"
    and "unat (drop_bit (nat (shift_bits c')) y) < 2 ^ nat (total_width c)"
  shows "drop_bit (nat (shift_bits c')) x = drop_bit (nat (shift_bits c')) y"
proof (rule bit_word_eqI)
  fix n
  let ?x = "drop_bit (nat (shift_bits c')) x" and ?y = "drop_bit (nat (shift_bits c')) y"
  note f = SetAddressMapping_fields [OF assms(1)] and t = layout_tokens [OF assms(1)]
  from f(1) obtain m where m: "lay_fields (field_widths c) (rev (fields_of (address_mapping c))) 0 Map.empty = Inr m"
    "m ''ch'' = Some (ch_pos c')" "m ''ra'' = Some (ra_pos c')" "m ''bg'' = Some (bg_pos c')"
    "m ''ba'' = Some (ba_pos c')" "m ''ro'' = Some (ro_pos c')" "m ''co'' = Some (co_pos c')" by blast
  have b: "\<forall>v \<in> ran m. 0 \<le> v \<and> v \<le> total_width c"
    by (rule lay_fields_bounds [OF m(1) t(3)]) (simp_all add: t(4))
  have eqs: "field ?x (ch_pos c') (ch_mask c') = field ?y (ch_pos c') (ch_mask c')"
    "field ?x (ra_pos c') (ra_mask c') = field ?y (ra_pos c') (ra_mask c')"
    "field ?x (bg_pos c') (bg_mask c') = field ?y (bg_pos c') (bg_mask c')"
    "field ?x (ba_pos c') (ba_mask c') = field ?y (ba_pos c') (ba_mask c')"
    "field ?x (ro_pos c') (ro_mask c') = field ?y (ro_pos c') (ro_mask c')"
    "field ?x (co_pos c') (co_mask c') = field ?y (co_pos c') (co_mask c')"
    using assms(3-6) by (auto simp: AddressMapping_def shr64_def bindE_eq_Inr)
  show "bit ?x n = bit ?y n"
  proof (cases "int n < total_width c")
    case True
    from lay_fields_cover [OF m(1) t(1,3), of "int n"] True t(4) obtain tok p where
      tok: "tok \<in> set (map fst (field_widths c))" and p: "m tok = Some p" "p \<le> int n" "int n < p + width_of (field_widths c) tok"
      using t(2) by auto
    have pr: "0 \<le> p" "p < 64" using bspec [OF b ranI [of m tok p, OF p(1)]] assms(2) by simp_all
    have fin: ?thesis if "tok = k" "m k = Some q" "field ?x q mm = field ?y q mm"
      "low_mask (width_of (field_widths c) k) = Inr mm" for k q mm
    proof -
      have "q = p" using that(1,2) p(1) by simp
      then show ?thesis using field_bits [OF _ that(4) pr p(2), of ?x ?y] that(1,3) p(3) by simp
    qed
    have w: "width_of (field_widths c) ''ch'' = LogBase2 (channels c)" "width_of (field_widths c) ''ra'' = LogBase2 (ranks c)"
      "width_of (field_widths c) ''bg'' = LogBase2 (bankgroups c)" "width_of (field_widths c) ''ba'' = LogBase2 (banks_per_group c)"
      "width_of (field_widths c) ''ro'' = LogBase2 (rows c)" "width_of (field_widths c) ''co'' = LogBase2 (columns c) - LogBase2 (BL c)"
      by (simp_all add: width_of_def field_widths_def)
    have "tok = ''ch'' \<or> tok = ''ra'' \<or> tok = ''bg'' \<or> tok = ''ba'' \<or> tok = ''ro'' \<or> tok = ''co''"
      using tok by (simp add: field_widths_def)
    then show ?thesis
      using fin [OF _ m(2) eqs(1)] fin [OF _ m(3) eqs(2)] fin [OF _ m(4) eqs(3)] fin [OF _ m(5) eqs(4)]
        fin [OF _ m(6) eqs(5)] fin [OF _ m(7) eqs(6)] f(2-7) unfolding w by argo
  next
    case False
    have hi: "\<not> bit (z :: u64) n" if "unat z < 2 ^ nat (total_width c)" for z
    proof -
      have "take_bit (nat (total_width c)) z = z"
        using that by (simp add: word_unat_eq_iff unsigned_take_bit_eq take_bit_nat_eq_self)
      then show ?thesis using False bit_take_bit_iff [of "nat (total_width c)" z n] by auto
    qed
    then show ?thesis using assms(7,8) by simp
  qed
qed

end
