(* ===== verification/Dram_Timing.thy ===== *)
theory Dram_Timing
  imports Dram_Config
begin

text \<open>
  \<open>DRAMsim3/src/timing.cc\<close>: for every command type, which later commands have to wait, how long, and
  where (same bank, rest of the bank group, rest of the rank, other ranks, whole rank).  The vectors
  indexed by \<open>CommandType\<close> are functions; an entry the constructor does not assign is empty.
\<close>

type_synonym constraints = "(CommandType \<times> int) list"

record Timing =
  same_bank :: "CommandType \<Rightarrow> constraints"
  other_banks_same_bankgroup :: "CommandType \<Rightarrow> constraints"
  other_bankgroups_same_rank :: "CommandType \<Rightarrow> constraints"
  other_ranks :: "CommandType \<Rightarrow> constraints"
  same_rank :: "CommandType \<Rightarrow> constraints"

text \<open>The derived distances; \<open>max\<close> with the short or the long variant depends on whether bank groups
  are in use.\<close>

definition read_to_read_l :: "dram_config \<Rightarrow> int" where
  "read_to_read_l c = max (burst_cycle c) (if bankgroups c = 1 then tCCD_S c else tCCD_L c)"

definition read_to_read_s :: "dram_config \<Rightarrow> int" where
  "read_to_read_s c = max (burst_cycle c) (tCCD_S c)"

definition read_to_read_o :: "dram_config \<Rightarrow> int" where
  "read_to_read_o c = burst_cycle c + tRTRS c"

definition read_to_write :: "dram_config \<Rightarrow> int" where
  "read_to_write c = RL c + burst_cycle c - WL c + tRTRS c"

definition read_to_write_o :: "dram_config \<Rightarrow> int" where
  "read_to_write_o c = read_delay c + burst_cycle c + tRTRS c - write_delay c"

definition read_to_precharge :: "dram_config \<Rightarrow> int" where
  "read_to_precharge c = AL c + tRTP c"

definition readp_to_act :: "dram_config \<Rightarrow> int" where
  "readp_to_act c = AL c + burst_cycle c + tRTP c + tRP c"

definition write_to_read_l :: "dram_config \<Rightarrow> int" where
  "write_to_read_l c = write_delay c + (if bankgroups c = 1 then tWTR_S c else tWTR_L c)"

definition write_to_read_s :: "dram_config \<Rightarrow> int" where
  "write_to_read_s c = write_delay c + tWTR_S c"

definition write_to_read_o :: "dram_config \<Rightarrow> int" where
  "write_to_read_o c = write_delay c + burst_cycle c + tRTRS c - read_delay c"

definition write_to_write_l :: "dram_config \<Rightarrow> int" where
  "write_to_write_l c = max (burst_cycle c) (if bankgroups c = 1 then tCCD_S c else tCCD_L c)"

definition write_to_write_s :: "dram_config \<Rightarrow> int" where
  "write_to_write_s c = max (burst_cycle c) (tCCD_S c)"

definition write_to_write_o :: "dram_config \<Rightarrow> int" where
  "write_to_write_o c = burst_cycle c"

definition write_to_precharge :: "dram_config \<Rightarrow> int" where
  "write_to_precharge c = WL c + burst_cycle c + tWR c"

definition read_to_activate :: "dram_config \<Rightarrow> int" where
  "read_to_activate c = read_to_precharge c + tRP c"

definition write_to_activate :: "dram_config \<Rightarrow> int" where
  "write_to_activate c = write_to_precharge c + tRP c"

definition activate_to_activate_l :: "dram_config \<Rightarrow> int" where
  "activate_to_activate_l c = (if bankgroups c = 1 then tRRD_S c else tRRD_L c)"

definition activate_to_read :: "dram_config \<Rightarrow> int" where
  "activate_to_read c = (if IsGDDR c \<or> IsHBM c then tRCDRD c else tRCD c - AL c)"

definition activate_to_write :: "dram_config \<Rightarrow> int" where
  "activate_to_write c = (if IsGDDR c \<or> IsHBM c then tRCDWR c else tRCD c - AL c)"

text \<open>Four column commands share one distance for reads and one for writes.\<close>

definition rw_wait :: "int \<Rightarrow> int \<Rightarrow> constraints" where
  "rw_wait r w = [(CMD_READ, r), (CMD_WRITE, w), (CMD_READ_PRECHARGE, r), (CMD_WRITE_PRECHARGE, w)]"

text \<open>What closes a row delays every command that needs the bank idle.\<close>

definition idle_wait :: "int \<Rightarrow> int \<Rightarrow> constraints" where
  "idle_wait act rest = [(CMD_ACTIVATE, act), (CMD_REFRESH, rest), (CMD_REFRESH_BANK, rest), (CMD_SREF_ENTER, rest)]"

definition timing_same_bank :: "dram_config \<Rightarrow> CommandType \<Rightarrow> constraints" where
  "timing_same_bank c ty = (case ty of
       CMD_READ \<Rightarrow> rw_wait (read_to_read_l c) (read_to_write c) @ [(CMD_PRECHARGE, read_to_precharge c)]
     | CMD_WRITE \<Rightarrow> rw_wait (write_to_read_l c) (write_to_write_l c) @ [(CMD_PRECHARGE, write_to_precharge c)]
     | CMD_READ_PRECHARGE \<Rightarrow> idle_wait (readp_to_act c) (read_to_activate c)
     | CMD_WRITE_PRECHARGE \<Rightarrow> idle_wait (write_to_activate c) (write_to_activate c)
     | CMD_ACTIVATE \<Rightarrow> (CMD_ACTIVATE, tRC c) # rw_wait (activate_to_read c) (activate_to_write c) @ [(CMD_PRECHARGE, tRAS c)]
     | CMD_PRECHARGE \<Rightarrow> idle_wait (tRP c) (tRP c)
     | _ \<Rightarrow> [])"

definition timing_other_banks :: "dram_config \<Rightarrow> CommandType \<Rightarrow> constraints" where
  "timing_other_banks c ty = (case ty of
       CMD_READ \<Rightarrow> rw_wait (read_to_read_l c) (read_to_write c)
     | CMD_WRITE \<Rightarrow> rw_wait (write_to_read_l c) (write_to_write_l c)
     | CMD_READ_PRECHARGE \<Rightarrow> rw_wait (read_to_read_l c) (read_to_write c)
     | CMD_WRITE_PRECHARGE \<Rightarrow> rw_wait (write_to_read_l c) (write_to_write_l c)
     | CMD_ACTIVATE \<Rightarrow> [(CMD_ACTIVATE, activate_to_activate_l c), (CMD_REFRESH_BANK, tRC c)]
     | CMD_PRECHARGE \<Rightarrow> (if IsGDDR c \<or> protocol c = LPDDR4 then [(CMD_PRECHARGE, tPPD c)] else [])
     | CMD_REFRESH_BANK \<Rightarrow> [(CMD_ACTIVATE, tRFC c), (CMD_REFRESH_BANK, tREFI c)]
     | _ \<Rightarrow> [])"

definition timing_other_bankgroups :: "dram_config \<Rightarrow> CommandType \<Rightarrow> constraints" where
  "timing_other_bankgroups c ty = (case ty of
       CMD_READ \<Rightarrow> rw_wait (read_to_read_s c) (read_to_write c)
     | CMD_WRITE \<Rightarrow> rw_wait (write_to_read_s c) (write_to_write_s c)
     | CMD_READ_PRECHARGE \<Rightarrow> rw_wait (read_to_read_s c) (read_to_write c)
     | CMD_WRITE_PRECHARGE \<Rightarrow> rw_wait (write_to_read_s c) (write_to_write_s c)
     | CMD_ACTIVATE \<Rightarrow> [(CMD_ACTIVATE, tRRD_S c), (CMD_REFRESH_BANK, tRC c)]
     | CMD_PRECHARGE \<Rightarrow> (if IsGDDR c \<or> protocol c = LPDDR4 then [(CMD_PRECHARGE, tPPD c)] else [])
     | CMD_REFRESH_BANK \<Rightarrow> [(CMD_ACTIVATE, tRFC c), (CMD_REFRESH_BANK, tREFI c)]
     | _ \<Rightarrow> [])"

definition timing_other_ranks :: "dram_config \<Rightarrow> CommandType \<Rightarrow> constraints" where
  "timing_other_ranks c ty = (case ty of
       CMD_READ \<Rightarrow> rw_wait (read_to_read_o c) (read_to_write_o c)
     | CMD_WRITE \<Rightarrow> rw_wait (write_to_read_o c) (write_to_write_o c)
     | CMD_READ_PRECHARGE \<Rightarrow> rw_wait (read_to_read_o c) (read_to_write_o c)
     | CMD_WRITE_PRECHARGE \<Rightarrow> rw_wait (write_to_read_o c) (write_to_write_o c)
     | _ \<Rightarrow> [])"

definition timing_same_rank :: "dram_config \<Rightarrow> CommandType \<Rightarrow> constraints" where
  "timing_same_rank c ty = (case ty of
       CMD_REFRESH_BANK \<Rightarrow> idle_wait (tRFCb c) (tRFCb c)
     | CMD_REFRESH \<Rightarrow> [(CMD_ACTIVATE, tRFC c), (CMD_REFRESH, tRFC c), (CMD_SREF_ENTER, tRFC c)]
     | CMD_SREF_ENTER \<Rightarrow> [(CMD_SREF_EXIT, tCKESR c)]
     | CMD_SREF_EXIT \<Rightarrow> idle_wait (tXS c) (tXS c)
     | _ \<Rightarrow> [])"

definition Timing_new :: "dram_config \<Rightarrow> Timing" where
  "Timing_new c = \<lparr>same_bank = timing_same_bank c, other_banks_same_bankgroup = timing_other_banks c,
     other_bankgroups_same_rank = timing_other_bankgroups c, other_ranks = timing_other_ranks c,
     same_rank = timing_same_rank c\<rparr>"

end
