(* ===== verification/Bank_State.thy ===== *)
theory Bank_State
  imports Dram_Timing
begin

text \<open>
  \<open>DRAMsim3/src/bankstate.cc\<close>: one DRAM bank.  It is open on a row, closed, or in self refresh; for
  every command type it remembers the earliest cycle at which that command may be issued.  The
  lemmas show that what \<open>GetReadyCommand\<close> proposes is always legal in the current state and not
  before its time.
\<close>

datatype bank_mode = OPEN | CLOSED | SREF | PD

record bank_st =
  mode :: bank_mode
  cmd_timing :: "CommandType \<Rightarrow> u64"
  open_row :: int
  row_hit_count :: int

definition BankState_new :: bank_st where
  "BankState_new = \<lparr>mode = CLOSED, cmd_timing = (\<lambda>_. 0), open_row = -1, row_hit_count = 0\<rparr>"

text \<open>The command type the bank needs next for \<open>cmd\<close>: the inner \<open>switch\<close> of each state.\<close>

definition required_type :: "bank_st \<Rightarrow> Command \<Rightarrow> CommandType result" where
  "required_type b cmd = (case mode b of
       CLOSED \<Rightarrow>
         if IsReadWrite cmd then Inr CMD_ACTIVATE
         else if IsRefresh cmd \<or> cmd_type cmd = CMD_SREF_ENTER then Inr (cmd_type cmd)
         else Inl Abrupt_Exit
     | OPEN \<Rightarrow>
         if IsReadWrite cmd then Inr (if row (addr cmd) = open_row b then cmd_type cmd else CMD_PRECHARGE)
         else if IsRefresh cmd \<or> cmd_type cmd = CMD_SREF_ENTER then Inr CMD_PRECHARGE
         else Inl Abrupt_Exit
     | SREF \<Rightarrow> if IsReadWrite cmd then Inr CMD_SREF_EXIT else Inl Abrupt_Exit
     | PD \<Rightarrow> Inl Abrupt_Exit)"

definition bank_GetReadyCommand :: "bank_st \<Rightarrow> Command \<Rightarrow> u64 \<Rightarrow> Command result" where
  "bank_GetReadyCommand b cmd clk =
     bindE (required_type b cmd) (\<lambda>ty.
     Inr (if ty \<noteq> CMD_SIZE \<and> clk \<ge> cmd_timing b ty then cmd\<lparr>cmd_type := ty\<rparr> else no_command))"

definition bank_UpdateState :: "bank_st \<Rightarrow> Command \<Rightarrow> bank_st result" where
  "bank_UpdateState b cmd = (case mode b of
       OPEN \<Rightarrow> (case cmd_type cmd of
           CMD_READ \<Rightarrow> Inr (b\<lparr>row_hit_count := row_hit_count b + 1\<rparr>)
         | CMD_WRITE \<Rightarrow> Inr (b\<lparr>row_hit_count := row_hit_count b + 1\<rparr>)
         | CMD_READ_PRECHARGE \<Rightarrow> Inr (b\<lparr>mode := CLOSED, open_row := -1, row_hit_count := 0\<rparr>)
         | CMD_WRITE_PRECHARGE \<Rightarrow> Inr (b\<lparr>mode := CLOSED, open_row := -1, row_hit_count := 0\<rparr>)
         | CMD_PRECHARGE \<Rightarrow> Inr (b\<lparr>mode := CLOSED, open_row := -1, row_hit_count := 0\<rparr>)
         | _ \<Rightarrow> Inl Abrupt_Exit)
     | CLOSED \<Rightarrow> (case cmd_type cmd of
           CMD_REFRESH \<Rightarrow> Inr b
         | CMD_REFRESH_BANK \<Rightarrow> Inr b
         | CMD_ACTIVATE \<Rightarrow> Inr (b\<lparr>mode := OPEN, open_row := row (addr cmd)\<rparr>)
         | CMD_SREF_ENTER \<Rightarrow> Inr (b\<lparr>mode := SREF\<rparr>)
         | _ \<Rightarrow> Inl Abrupt_Exit)
     | SREF \<Rightarrow> (case cmd_type cmd of CMD_SREF_EXIT \<Rightarrow> Inr (b\<lparr>mode := CLOSED\<rparr>) | _ \<Rightarrow> Inl Abrupt_Exit)
     | PD \<Rightarrow> Inl Abrupt_Exit)"

definition bank_UpdateTiming :: "CommandType \<Rightarrow> u64 \<Rightarrow> bank_st \<Rightarrow> bank_st" where
  "bank_UpdateTiming ty time b = b\<lparr>cmd_timing := (cmd_timing b)(ty := max (cmd_timing b ty) time)\<rparr>"

definition bank_IsRowOpen :: "bank_st \<Rightarrow> bool" where
  "bank_IsRowOpen b \<longleftrightarrow> mode b = OPEN"

section \<open>Ready commands are legal\<close>

text \<open>Everything the controller asks of a bank that is not in self refresh or power down.\<close>

definition asks :: "Command \<Rightarrow> bool" where
  "asks cmd \<longleftrightarrow> IsReadWrite cmd \<or> IsRefresh cmd"

definition awake :: "bank_st \<Rightarrow> bool" where
  "awake b \<longleftrightarrow> mode b = OPEN \<or> mode b = CLOSED"

text \<open>The state a command needs.\<close>

definition fits :: "CommandType \<Rightarrow> bank_st \<Rightarrow> bool" where
  "fits ty b \<longleftrightarrow> (case ty of
       CMD_ACTIVATE \<Rightarrow> mode b = CLOSED | CMD_REFRESH \<Rightarrow> mode b = CLOSED | CMD_REFRESH_BANK \<Rightarrow> mode b = CLOSED
     | CMD_READ \<Rightarrow> mode b = OPEN | CMD_WRITE \<Rightarrow> mode b = OPEN | CMD_READ_PRECHARGE \<Rightarrow> mode b = OPEN
     | CMD_WRITE_PRECHARGE \<Rightarrow> mode b = OPEN | CMD_PRECHARGE \<Rightarrow> mode b = OPEN | _ \<Rightarrow> False)"

lemma bank_ready_total:
  assumes "awake b" and "asks cmd"
  shows "\<exists>r. bank_GetReadyCommand b cmd clk = Inr r"
  using assms by (auto simp: bank_GetReadyCommand_def required_type_def awake_def asks_def split: bank_mode.splits)

lemma bank_ready_sound:
  assumes "bank_GetReadyCommand b cmd clk = Inr r" and "IsValid r" and "asks cmd" and "awake b"
  shows "fits (cmd_type r) b" and "cmd_timing b (cmd_type r) \<le> clk" and "addr r = addr cmd" and "hex_addr r = hex_addr cmd"
    and "cmd_type r = cmd_type cmd \<or> cmd_type r = CMD_PRECHARGE \<or> (cmd_type r = CMD_ACTIVATE \<and> IsReadWrite cmd)"
    and "IsReadWrite r \<Longrightarrow> r = cmd \<and> row (addr cmd) = open_row b"
    and "cmd_type r = CMD_PRECHARGE \<Longrightarrow> IsReadWrite cmd \<Longrightarrow> row (addr cmd) \<noteq> open_row b"
  using assms
  by (auto simp: bank_GetReadyCommand_def required_type_def asks_def awake_def fits_def command_kinds no_command_def
      split: bank_mode.splits if_splits)

lemma bank_update_legal:
  assumes "fits (cmd_type cmd) b"
  shows "\<exists>b'. bank_UpdateState b cmd = Inr b' \<and> awake b' \<and> cmd_timing b' = cmd_timing b"
  using assms by (auto simp: fits_def bank_UpdateState_def awake_def split: CommandType.splits)

lemma bank_timing_frame [simp]:
  "mode (bank_UpdateTiming ty t b) = mode b" "open_row (bank_UpdateTiming ty t b) = open_row b"
  "row_hit_count (bank_UpdateTiming ty t b) = row_hit_count b" "awake (bank_UpdateTiming ty t b) = awake b"
  "fits ty' (bank_UpdateTiming ty t b) = fits ty' b"
  by (simp_all add: bank_UpdateTiming_def awake_def fits_def split: CommandType.splits)

lemma bank_timing_max: "cmd_timing (bank_UpdateTiming ty t b) ty' = (if ty' = ty then max (cmd_timing b ty) t else cmd_timing b ty')"
  by (simp add: bank_UpdateTiming_def)

end
