(* ===== verification/Channel_State.thy ===== *)
theory Channel_State
  imports Bank_State
begin

text \<open>
  \<open>DRAMsim3/src/channel_state.cc\<close>: all banks of one channel, the queue of pending refreshes and the
  activation windows.  The loops over bank groups and banks visit the locations in the order of the
  source.  The lemmas give the exact effect of a timing update on every bank, show that whatever
  \<open>GetReadyCommand\<close> returns can be issued, and, for every sequence of issued commands, that each one
  respects every distance of the timing tables to all earlier ones.
\<close>

record chan =
  rank_idle_cycles :: "int list"
  rank_is_sref :: "bool list"
  bank_states :: "bank_st list list list"
  refresh_q :: "Command list"
  four_aw :: "u64 list list"
  thirty_two_aw :: "u64 list list"

type_synonym loc = "int \<times> int \<times> int"

definition ChannelState_new :: "dram_config \<Rightarrow> chan" where
  "ChannelState_new c =
     \<lparr>rank_idle_cycles = replicate (nat (ranks c)) 0, rank_is_sref = replicate (nat (ranks c)) False,
      bank_states = replicate (nat (ranks c)) (replicate (nat (bankgroups c)) (replicate (nat (banks_per_group c)) BankState_new)),
      refresh_q = [], four_aw = replicate (nat (ranks c)) [], thirty_two_aw = replicate (nat (ranks c)) []\<rparr>"

text \<open>\<open>bank_states_[rank][bankgroup][bank]\<close>, read and updated.\<close>

definition chan_bank :: "chan \<Rightarrow> loc \<Rightarrow> bank_st result" where
  "chan_bank cs l = (case l of (r, g, b) \<Rightarrow>
     bindE (vec_get (bank_states cs) (idx_of_int r)) (\<lambda>gs.
     bindE (vec_get gs (idx_of_int g)) (\<lambda>bs. vec_get bs (idx_of_int b))))"

definition chan_upd :: "loc \<Rightarrow> (bank_st \<Rightarrow> bank_st result) \<Rightarrow> chan \<Rightarrow> chan result" where
  "chan_upd l f cs = (case l of (r, g, b) \<Rightarrow>
     bindE (chan_bank cs l) (\<lambda>x.
     bindE (f x) (\<lambda>y.
     let i = idx_of_int r; j = idx_of_int g; k = idx_of_int b in
     Inr (cs\<lparr>bank_states := (bank_states cs)[i := (bank_states cs ! i)[j := (bank_states cs ! i ! j)[k := y]]]\<rparr>))))"

definition loc_of :: "Address \<Rightarrow> loc" where
  "loc_of a = (rank a, bankgroup a, bank a)"

definition rank_locs :: "dram_config \<Rightarrow> int \<Rightarrow> loc list" where
  "rank_locs c r = map (\<lambda>(j, k). (r, j, k)) (List.product [0 .. bankgroups c - 1] [0 .. banks_per_group c - 1])"

definition IsRowOpen :: "chan \<Rightarrow> loc \<Rightarrow> bool result" where
  "IsRowOpen cs l = bindE (chan_bank cs l) (\<lambda>b. Inr (bank_IsRowOpen b))"

definition OpenRow :: "chan \<Rightarrow> loc \<Rightarrow> int result" where
  "OpenRow cs l = bindE (chan_bank cs l) (\<lambda>b. Inr (open_row b))"

definition RowHitCount :: "chan \<Rightarrow> loc \<Rightarrow> int result" where
  "RowHitCount cs l = bindE (chan_bank cs l) (\<lambda>b. Inr (row_hit_count b))"

fun none_open :: "chan \<Rightarrow> loc list \<Rightarrow> bool result" where
  "none_open cs [] = Inr True"
| "none_open cs (l # ls) = bindE (IsRowOpen cs l) (\<lambda>op. if op then Inr False else none_open cs ls)"

definition IsAllBankIdleInRank :: "dram_config \<Rightarrow> chan \<Rightarrow> int \<Rightarrow> bool result" where
  "IsAllBankIdleInRank c cs r = none_open cs (rank_locs c r)"

definition IsRankSelfRefreshing :: "chan \<Rightarrow> int \<Rightarrow> bool result" where
  "IsRankSelfRefreshing cs r = vec_get (rank_is_sref cs) (idx_of_int r)"

definition IsRefreshWaiting :: "chan \<Rightarrow> bool" where
  "IsRefreshWaiting cs \<longleftrightarrow> refresh_q cs \<noteq> []"

definition IsRWPendingOnRef :: "chan \<Rightarrow> Command \<Rightarrow> bool result" where
  "IsRWPendingOnRef cs cmd =
     bindE (chan_bank cs (loc_of (addr cmd))) (\<lambda>b.
     Inr (bank_IsRowOpen b \<and> row_hit_count b = 0 \<and> open_row b = row (addr cmd)))"

section \<open>Pending refreshes\<close>

fun erase_first :: "('a \<Rightarrow> bool) \<Rightarrow> 'a list \<Rightarrow> 'a list" where
  "erase_first p [] = []"
| "erase_first p (x # xs) = (if p x then xs else x # erase_first p xs)"

definition BankNeedRefresh :: "int \<Rightarrow> int \<Rightarrow> int \<Rightarrow> bool \<Rightarrow> chan \<Rightarrow> chan" where
  "BankNeedRefresh r g b need cs =
     (if need then cs\<lparr>refresh_q := refresh_q cs @ [\<lparr>cmd_type = CMD_REFRESH_BANK,
          addr = \<lparr>channel = -1, rank = r, bankgroup = g, bank = b, row = -1, column = -1\<rparr>, hex_addr = -1\<rparr>]\<rparr>
      else cs\<lparr>refresh_q := erase_first (\<lambda>x. loc_of (addr x) = (r, g, b)) (refresh_q cs)\<rparr>)"

definition RankNeedRefresh :: "int \<Rightarrow> bool \<Rightarrow> chan \<Rightarrow> chan" where
  "RankNeedRefresh r need cs =
     (if need then cs\<lparr>refresh_q := refresh_q cs @ [\<lparr>cmd_type = CMD_REFRESH, addr = no_address\<lparr>rank := r\<rparr>, hex_addr = -1\<rparr>]\<rparr>
      else cs\<lparr>refresh_q := erase_first (\<lambda>x. rank (addr x) = r) (refresh_q cs)\<rparr>)"

section \<open>Activation windows\<close>

definition IsFAWReady :: "chan \<Rightarrow> int \<Rightarrow> u64 \<Rightarrow> bool result" where
  "IsFAWReady cs r curr_time = bindE (vec_get (four_aw cs) (idx_of_int r)) (\<lambda>w.
     Inr (\<not> (w \<noteq> [] \<and> curr_time < hd w \<and> length w \<ge> 4)))"

definition Is32AWReady :: "chan \<Rightarrow> int \<Rightarrow> u64 \<Rightarrow> bool result" where
  "Is32AWReady cs r curr_time = bindE (vec_get (thirty_two_aw cs) (idx_of_int r)) (\<lambda>w.
     Inr (\<not> (w \<noteq> [] \<and> curr_time < hd w \<and> length w \<ge> 32)))"

definition ActivationWindowOk :: "dram_config \<Rightarrow> chan \<Rightarrow> int \<Rightarrow> u64 \<Rightarrow> bool result" where
  "ActivationWindowOk c cs r curr_time =
     bindE (IsFAWReady cs r curr_time) (\<lambda>ok.
     if IsGDDR c then (if \<not> ok then Inr False else Is32AWReady cs r curr_time) else Inr ok)"

definition slide :: "u64 \<Rightarrow> int \<Rightarrow> u64 list \<Rightarrow> u64 list" where
  "slide curr_time len w = (if w \<noteq> [] \<and> curr_time \<ge> hd w then tl w else w) @ [curr_time + u64_of_int len]"

definition UpdateActivationTimes :: "dram_config \<Rightarrow> int \<Rightarrow> u64 \<Rightarrow> chan \<Rightarrow> chan result" where
  "UpdateActivationTimes c r curr_time cs =
     (let i = idx_of_int r in
      bindE (vec_get (four_aw cs) i) (\<lambda>w.
      let cs1 = cs\<lparr>four_aw := (four_aw cs)[i := slide curr_time (tFAW c) w]\<rparr> in
      if IsGDDR c then
        bindE (vec_get (thirty_two_aw cs1) i) (\<lambda>v.
        Inr (cs1\<lparr>thirty_two_aw := (thirty_two_aw cs1)[i := slide curr_time (t32AW c) v]\<rparr>))
      else Inr cs1))"

section \<open>Ready commands\<close>

text \<open>The double loop of a rank command, with the last bank's answer and the number of ready banks.\<close>

fun rank_ready :: "chan \<Rightarrow> int \<Rightarrow> Command \<Rightarrow> u64 \<Rightarrow> loc list \<Rightarrow> Command \<Rightarrow> int \<Rightarrow> Command result" where
  "rank_ready cs nbanks cmd clk [] ready n = Inr (if n = nbanks then ready else no_command)"
| "rank_ready cs nbanks cmd clk (l # ls) ready n =
     bindE (chan_bank cs l) (\<lambda>b.
     bindE (bank_GetReadyCommand b cmd clk) (\<lambda>r.
     if \<not> IsValid r then rank_ready cs nbanks cmd clk ls r n
     else if cmd_type r \<noteq> cmd_type cmd then
       Inr (r\<lparr>addr := \<lparr>channel = -1, rank = rank (addr cmd), bankgroup = fst (snd l), bank = snd (snd l), row = -1, column = -1\<rparr>\<rparr>)
     else rank_ready cs nbanks cmd clk ls r (n + 1)))"

definition GetReadyCommand :: "dram_config \<Rightarrow> chan \<Rightarrow> Command \<Rightarrow> u64 \<Rightarrow> Command result" where
  "GetReadyCommand c cs cmd clk =
     (if IsRankCMD cmd then rank_ready cs (banks c) cmd clk (rank_locs c (rank (addr cmd))) no_command 0
      else
        bindE (chan_bank cs (loc_of (addr cmd))) (\<lambda>b.
        bindE (bank_GetReadyCommand b cmd clk) (\<lambda>r.
        if \<not> IsValid r then Inr no_command
        else if cmd_type r = CMD_ACTIVATE then
          bindE (ActivationWindowOk c cs (rank (addr r)) clk) (\<lambda>ok. Inr (if ok then r else no_command))
        else Inr r)))"

section \<open>Updates\<close>

definition ch_UpdateState :: "dram_config \<Rightarrow> Command \<Rightarrow> chan \<Rightarrow> chan result" where
  "ch_UpdateState c cmd cs =
     (let r = rank (addr cmd) in
      if IsRankCMD cmd then
        bindE (foldE (\<lambda>l. chan_upd l (\<lambda>b. bank_UpdateState b cmd)) (rank_locs c r) cs) (\<lambda>cs1.
        if IsRefresh cmd then Inr (RankNeedRefresh r False cs1)
        else bindE (vec_set (rank_is_sref cs1) (idx_of_int r) (cmd_type cmd = CMD_SREF_ENTER)) (\<lambda>v.
             Inr (cs1\<lparr>rank_is_sref := v\<rparr>)))
      else
        bindE (chan_upd (loc_of (addr cmd)) (\<lambda>b. bank_UpdateState b cmd) cs) (\<lambda>cs1.
        Inr (if IsRefresh cmd then BankNeedRefresh r (bankgroup (addr cmd)) (bank (addr cmd)) False cs1 else cs1)))"

definition delay_banks :: "loc list \<Rightarrow> constraints \<Rightarrow> u64 \<Rightarrow> chan \<Rightarrow> chan result" where
  "delay_banks ls ws clk =
     foldE (\<lambda>l. foldE (\<lambda>(ty, n). chan_upd l (\<lambda>b. Inr (bank_UpdateTiming ty (clk + u64_of_int n) b))) ws) ls"

definition bankgroup_locs :: "dram_config \<Rightarrow> Address \<Rightarrow> loc list" where
  "bankgroup_locs c a = map (\<lambda>k. (rank a, bankgroup a, k)) (filter (\<lambda>k. k \<noteq> bank a) [0 .. banks_per_group c - 1])"

definition other_bankgroup_locs :: "dram_config \<Rightarrow> Address \<Rightarrow> loc list" where
  "other_bankgroup_locs c a = map (\<lambda>(j, k). (rank a, j, k))
     (List.product (filter (\<lambda>j. j \<noteq> bankgroup a) [0 .. bankgroups c - 1]) [0 .. banks_per_group c - 1])"

definition other_rank_locs :: "dram_config \<Rightarrow> Address \<Rightarrow> loc list" where
  "other_rank_locs c a = List.product (filter (\<lambda>i. i \<noteq> rank a) [0 .. ranks c - 1])
     (List.product [0 .. bankgroups c - 1] [0 .. banks_per_group c - 1])"

definition UpdateSameBankTiming :: "Address \<Rightarrow> constraints \<Rightarrow> u64 \<Rightarrow> chan \<Rightarrow> chan result" where
  "UpdateSameBankTiming a = delay_banks [loc_of a]"

definition UpdateOtherBanksSameBankgroupTiming :: "dram_config \<Rightarrow> Address \<Rightarrow> constraints \<Rightarrow> u64 \<Rightarrow> chan \<Rightarrow> chan result" where
  "UpdateOtherBanksSameBankgroupTiming c a = delay_banks (bankgroup_locs c a)"

definition UpdateOtherBankgroupsSameRankTiming :: "dram_config \<Rightarrow> Address \<Rightarrow> constraints \<Rightarrow> u64 \<Rightarrow> chan \<Rightarrow> chan result" where
  "UpdateOtherBankgroupsSameRankTiming c a = delay_banks (other_bankgroup_locs c a)"

definition UpdateOtherRanksTiming :: "dram_config \<Rightarrow> Address \<Rightarrow> constraints \<Rightarrow> u64 \<Rightarrow> chan \<Rightarrow> chan result" where
  "UpdateOtherRanksTiming c a = delay_banks (other_rank_locs c a)"

definition UpdateSameRankTiming :: "dram_config \<Rightarrow> Address \<Rightarrow> constraints \<Rightarrow> u64 \<Rightarrow> chan \<Rightarrow> chan result" where
  "UpdateSameRankTiming c a = delay_banks (rank_locs c (rank a))"

definition ch_UpdateTiming :: "dram_config \<Rightarrow> Command \<Rightarrow> u64 \<Rightarrow> chan \<Rightarrow> chan result" where
  "ch_UpdateTiming c cmd clk cs =
     (let t = Timing_new c; ty = cmd_type cmd; a = addr cmd in
      if ty = CMD_SIZE then Inl Abrupt_Exit
      else if IsRankCMD cmd then UpdateSameRankTiming c a (same_rank t ty) clk cs
      else
        bindE (if ty = CMD_ACTIVATE then UpdateActivationTimes c (rank a) clk cs else Inr cs) (\<lambda>cs0.
        bindE (UpdateSameBankTiming a (same_bank t ty) clk cs0) (\<lambda>cs1.
        bindE (UpdateOtherBanksSameBankgroupTiming c a (other_banks_same_bankgroup t ty) clk cs1) (\<lambda>cs2.
        bindE (UpdateOtherBankgroupsSameRankTiming c a (other_bankgroups_same_rank t ty) clk cs2) (\<lambda>cs3.
        UpdateOtherRanksTiming c a (other_ranks t ty) clk cs3)))))"

definition UpdateTimingAndStates :: "dram_config \<Rightarrow> Command \<Rightarrow> u64 \<Rightarrow> chan \<Rightarrow> chan result" where
  "UpdateTimingAndStates c cmd clk cs = bindE (ch_UpdateState c cmd cs) (ch_UpdateTiming c cmd clk)"

section \<open>Well-formed channels\<close>

definition geo_ok :: "dram_config \<Rightarrow> bool" where
  "geo_ok c \<longleftrightarrow> 0 < ranks c \<and> ranks c < 2 ^ 31 \<and> 0 < bankgroups c \<and> bankgroups c < 2 ^ 31
     \<and> 0 < banks_per_group c \<and> banks_per_group c < 2 ^ 31 \<and> banks c = bankgroups c * banks_per_group c"

definition loc_in :: "dram_config \<Rightarrow> loc \<Rightarrow> bool" where
  "loc_in c l \<longleftrightarrow> (case l of (r, g, b) \<Rightarrow> 0 \<le> r \<and> r < ranks c \<and> 0 \<le> g \<and> g < bankgroups c \<and> 0 \<le> b \<and> b < banks_per_group c)"

definition ch_shape :: "dram_config \<Rightarrow> chan \<Rightarrow> bool" where
  "ch_shape c cs \<longleftrightarrow> geo_ok c \<and> length (bank_states cs) = nat (ranks c)
     \<and> (\<forall>gs \<in> set (bank_states cs). length gs = nat (bankgroups c) \<and> (\<forall>bs \<in> set gs. length bs = nat (banks_per_group c)))
     \<and> length (rank_is_sref cs) = nat (ranks c) \<and> length (rank_idle_cycles cs) = nat (ranks c)
     \<and> length (four_aw cs) = nat (ranks c) \<and> length (thirty_two_aw cs) = nat (ranks c)"

definition bk :: "chan \<Rightarrow> loc \<Rightarrow> bank_st" where
  "bk cs l = (case l of (r, g, b) \<Rightarrow> bank_states cs ! nat r ! nat g ! nat b)"

text \<open>Two channels that differ in their banks at most.\<close>

definition same_rest :: "chan \<Rightarrow> chan \<Rightarrow> bool" where
  "same_rest cs cs' \<longleftrightarrow> rank_idle_cycles cs' = rank_idle_cycles cs \<and> rank_is_sref cs' = rank_is_sref cs
     \<and> refresh_q cs' = refresh_q cs \<and> four_aw cs' = four_aw cs \<and> thirty_two_aw cs' = thirty_two_aw cs"

lemma same_rest_refl [simp]: "same_rest cs cs"
  by (simp add: same_rest_def)

lemma same_rest_trans [trans]: "same_rest a b \<Longrightarrow> same_rest b d \<Longrightarrow> same_rest a d"
  by (simp add: same_rest_def)

lemma idx_small [simp]: "0 \<le> i \<Longrightarrow> i < 2 ^ 31 \<Longrightarrow> idx_of_int i = nat i"
  by (rule idx_of_int_nonneg) simp_all

lemma rank_idx: "geo_ok c \<Longrightarrow> 0 \<le> r \<Longrightarrow> r < ranks c \<Longrightarrow> idx_of_int r = nat r \<and> nat r < nat (ranks c)"
  by (auto simp: geo_ok_def)

lemma loc_in_idx:
  assumes "ch_shape c cs" and "loc_in c (r, g, b)"
  shows "idx_of_int r = nat r" "idx_of_int g = nat g" "idx_of_int b = nat b"
    "nat r < length (bank_states cs)" "nat g < length (bank_states cs ! nat r)"
    "nat b < length (bank_states cs ! nat r ! nat g)"
proof -
  have g: "geo_ok c" and s: "length (bank_states cs) = nat (ranks c)"
    and e: "\<forall>gs \<in> set (bank_states cs). length gs = nat (bankgroups c) \<and> (\<forall>bs \<in> set gs. length bs = nat (banks_per_group c))"
    using assms(1) by (auto simp: ch_shape_def)
  have in': "0 \<le> r" "r < ranks c" "0 \<le> g" "g < bankgroups c" "0 \<le> b" "b < banks_per_group c"
    using assms(2) by (auto simp: loc_in_def)
  show "idx_of_int r = nat r" "idx_of_int g = nat g" "idx_of_int b = nat b"
    using g in' by (auto simp: geo_ok_def)
  show 1: "nat r < length (bank_states cs)" using s in' by auto
  then have m: "bank_states cs ! nat r \<in> set (bank_states cs)" by (rule nth_mem)
  have 2: "length (bank_states cs ! nat r) = nat (bankgroups c)" using bspec [OF e m] by simp
  then show 3: "nat g < length (bank_states cs ! nat r)" using in' by auto
  have "length (bank_states cs ! nat r ! nat g) = nat (banks_per_group c)"
    using bspec [OF e m] nth_mem [OF 3] by simp
  then show "nat b < length (bank_states cs ! nat r ! nat g)" using in' by auto
qed

lemma chan_bank_in: "ch_shape c cs \<Longrightarrow> loc_in c l \<Longrightarrow> chan_bank cs l = Inr (bk cs l)"
  by (cases l) (auto simp: chan_bank_def bk_def loc_in_idx)

lemma chan_upd_in:
  assumes "ch_shape c cs" and "loc_in c l" and "f (bk cs l) = Inr b"
  shows "\<exists>cs'. chan_upd l f cs = Inr cs' \<and> ch_shape c cs' \<and> same_rest cs cs'
    \<and> (\<forall>l'. loc_in c l' \<longrightarrow> bk cs' l' = (if l' = l then b else bk cs l'))"
proof -
  obtain r g k where l: "l = (r, g, k)" by (cases l)
  note ix = loc_in_idx [OF assms(1) assms(2) [unfolded l]]
  let ?S = "bank_states cs" and ?i = "nat r" and ?j = "nat g" and ?k = "nat k"
  let ?cs = "cs\<lparr>bank_states := ?S[?i := (?S ! ?i)[?j := (?S ! ?i ! ?j)[?k := b]]]\<rparr>"
  have eq: "chan_upd l f cs = Inr ?cs"
    using chan_bank_in [OF assms(1,2)] assms(3) ix by (simp add: chan_upd_def l Let_def)
  have sh: "ch_shape c ?cs"
  proof -
    have e: "\<forall>gs \<in> set ?S. length gs = nat (bankgroups c) \<and> (\<forall>bs \<in> set gs. length bs = nat (banks_per_group c))"
      using assms(1) by (simp add: ch_shape_def)
    have row: "?S ! ?i \<in> set ?S" "?S ! ?i ! ?j \<in> set (?S ! ?i)" using ix by simp_all
    have "length ((?S ! ?i)[?j := (?S ! ?i ! ?j)[?k := b]]) = nat (bankgroups c)" using e row by simp
    moreover have "\<forall>bs \<in> set ((?S ! ?i)[?j := (?S ! ?i ! ?j)[?k := b]]). length bs = nat (banks_per_group c)"
      using e row by (auto dest!: set_update_subset_insert [THEN subsetD])
    ultimately have "\<forall>gs \<in> set (bank_states ?cs). length gs = nat (bankgroups c) \<and> (\<forall>bs \<in> set gs. length bs = nat (banks_per_group c))"
      using e by (auto dest!: set_update_subset_insert [THEN subsetD])
    then show ?thesis using assms(1) by (simp add: ch_shape_def)
  qed
  have "bk ?cs l' = (if l' = l then b else bk cs l')" if "loc_in c l'" for l'
  proof -
    obtain r' g' k' where l': "l' = (r', g', k')" by (cases l')
    have pos: "0 \<le> r" "0 \<le> g" "0 \<le> k" "0 \<le> r'" "0 \<le> g'" "0 \<le> k'" using assms(2) that by (auto simp: l l' loc_in_def)
    then have inj: "nat r' = nat r \<longleftrightarrow> r' = r" "nat g' = nat g \<longleftrightarrow> g' = g" "nat k' = nat k \<longleftrightarrow> k' = k"
      by linarith+
    show ?thesis using ix inj by (auto simp: bk_def l l' nth_list_update)
  qed
  then show ?thesis using eq sh by (auto simp: same_rest_def)
qed

text \<open>A step on each of a list of distinct locations.\<close>

lemma foldE_banks:
  assumes "ch_shape c cs" and "distinct ls" and "\<forall>l \<in> set ls. loc_in c l"
    and "\<And>l cs. l \<in> set ls \<Longrightarrow> ch_shape c cs \<Longrightarrow> Q (bk cs l) \<Longrightarrow>
       \<exists>cs'. f l cs = Inr cs' \<and> ch_shape c cs' \<and> same_rest cs cs'
         \<and> (\<forall>l'. loc_in c l' \<longrightarrow> bk cs' l' = (if l' = l then h (bk cs l) else bk cs l'))"
    and "\<forall>l \<in> set ls. Q (bk cs l)"
  shows "\<exists>cs'. foldE f ls cs = Inr cs' \<and> ch_shape c cs' \<and> same_rest cs cs'
    \<and> (\<forall>l'. loc_in c l' \<longrightarrow> bk cs' l' = (if l' \<in> set ls then h (bk cs l') else bk cs l'))"
  using assms
proof (induction ls arbitrary: cs)
  case Nil
  then show ?case by simp
next
  case (Cons l ls)
  from Cons.prems(4) [of l cs] Cons.prems(1,5) obtain cs1 where
    c1: "f l cs = Inr cs1" "ch_shape c cs1" "same_rest cs cs1"
    "\<forall>l'. loc_in c l' \<longrightarrow> bk cs1 l' = (if l' = l then h (bk cs l) else bk cs l')" by auto
  have "\<forall>l' \<in> set ls. Q (bk cs1 l')" using Cons.prems(2,3,5) c1(4) by auto
  from Cons.IH [OF c1(2) _ _ _ this] Cons.prems(2,3,4) obtain cs2 where
    c2: "foldE f ls cs1 = Inr cs2" "ch_shape c cs2" "same_rest cs1 cs2"
    "\<forall>l'. loc_in c l' \<longrightarrow> bk cs2 l' = (if l' \<in> set ls then h (bk cs1 l') else bk cs1 l')" by auto
  have "same_rest cs cs2" using c1(3) c2(3) by (rule same_rest_trans)
  then show ?case using c1 c2 Cons.prems(2) by auto
qed

section \<open>Timing updates\<close>

definition delayed :: "constraints \<Rightarrow> u64 \<Rightarrow> bank_st \<Rightarrow> bank_st" where
  "delayed ws clk = fold (\<lambda>(ty, n). bank_UpdateTiming ty (clk + u64_of_int n)) ws"

lemma delay_one:
  assumes "ch_shape c cs" and "loc_in c l"
  shows "\<exists>cs'. foldE (\<lambda>(ty, n). chan_upd l (\<lambda>b. Inr (bank_UpdateTiming ty (clk + u64_of_int n) b))) ws cs = Inr cs'
    \<and> ch_shape c cs' \<and> same_rest cs cs' \<and> (\<forall>l'. loc_in c l' \<longrightarrow> bk cs' l' = (if l' = l then delayed ws clk (bk cs l) else bk cs l'))"
  using assms(1)
proof (induction ws arbitrary: cs)
  case Nil
  then show ?case by (simp add: delayed_def)
next
  case (Cons w ws)
  obtain ty n where w: "w = (ty, n)" by (cases w)
  obtain cs1 where
    c1: "chan_upd l (\<lambda>b. Inr (bank_UpdateTiming ty (clk + u64_of_int n) b)) cs = Inr cs1" "ch_shape c cs1" "same_rest cs cs1"
    "\<forall>l'. loc_in c l' \<longrightarrow> bk cs1 l' = (if l' = l then bank_UpdateTiming ty (clk + u64_of_int n) (bk cs l) else bk cs l')"
    using chan_upd_in [OF Cons.prems assms(2), of "\<lambda>b. Inr (bank_UpdateTiming ty (clk + u64_of_int n) b)"] by auto
  from Cons.IH [OF c1(2)] obtain cs2 where
    c2: "foldE (\<lambda>(ty, n). chan_upd l (\<lambda>b. Inr (bank_UpdateTiming ty (clk + u64_of_int n) b))) ws cs1 = Inr cs2"
    "ch_shape c cs2" "same_rest cs1 cs2"
    "\<forall>l'. loc_in c l' \<longrightarrow> bk cs2 l' = (if l' = l then delayed ws clk (bk cs1 l) else bk cs1 l')" by blast
  have "same_rest cs cs2" using c1(3) c2(3) by (rule same_rest_trans)
  then show ?case using c1 c2 assms(2) by (auto simp: w delayed_def)
qed

lemma delay_banks_spec:
  assumes "ch_shape c cs" and "distinct ls" and "\<forall>l \<in> set ls. loc_in c l"
  shows "\<exists>cs'. delay_banks ls ws clk cs = Inr cs' \<and> ch_shape c cs' \<and> same_rest cs cs'
    \<and> (\<forall>l'. loc_in c l' \<longrightarrow> bk cs' l' = (if l' \<in> set ls then delayed ws clk (bk cs l') else bk cs l'))"
  unfolding delay_banks_def
  by (rule foldE_banks [OF assms, where Q = "\<lambda>_. True"]) (use delay_one assms(3) in auto)

text \<open>The distances a command imposes on the bank at \<open>l\<close>.\<close>

definition wait_list :: "dram_config \<Rightarrow> Command \<Rightarrow> loc \<Rightarrow> constraints" where
  "wait_list c cmd l =
     (let t = Timing_new c; ty = cmd_type cmd; a = addr cmd in
      if IsRankCMD cmd then (if fst l = rank a then same_rank t ty else [])
      else if l = loc_of a then same_bank t ty
      else if fst l = rank a \<and> fst (snd l) = bankgroup a then other_banks_same_bankgroup t ty
      else if fst l = rank a then other_bankgroups_same_rank t ty
      else other_ranks t ty)"

lemma rank_locs_in:
  assumes "geo_ok c" and "0 \<le> r" and "r < ranks c"
  shows "distinct (rank_locs c r)" and "\<forall>l \<in> set (rank_locs c r). loc_in c l"
    and "int (length (rank_locs c r)) = banks c"
    and "\<And>l. loc_in c l \<Longrightarrow> l \<in> set (rank_locs c r) \<longleftrightarrow> fst l = r"
  using assms
  by (auto simp: rank_locs_def distinct_product distinct_map inj_on_def loc_in_def geo_ok_def)

lemma address_locs:
  assumes "geo_ok c" and "loc_in c (loc_of a)"
  shows "distinct (bankgroup_locs c a)" "distinct (other_bankgroup_locs c a)" "distinct (other_rank_locs c a)"
    and "\<forall>l \<in> set (bankgroup_locs c a). loc_in c l" "\<forall>l \<in> set (other_bankgroup_locs c a). loc_in c l"
    "\<forall>l \<in> set (other_rank_locs c a). loc_in c l"
    and "\<And>l. loc_in c l \<Longrightarrow> l \<in> set (bankgroup_locs c a) \<longleftrightarrow> fst l = rank a \<and> fst (snd l) = bankgroup a \<and> l \<noteq> loc_of a"
    and "\<And>l. loc_in c l \<Longrightarrow> l \<in> set (other_bankgroup_locs c a) \<longleftrightarrow> fst l = rank a \<and> fst (snd l) \<noteq> bankgroup a"
    and "\<And>l. loc_in c l \<Longrightarrow> l \<in> set (other_rank_locs c a) \<longleftrightarrow> fst l \<noteq> rank a"
  using assms
  by (auto simp: bankgroup_locs_def other_bankgroup_locs_def other_rank_locs_def distinct_product distinct_map inj_on_def
      loc_in_def loc_of_def geo_ok_def)

text \<open>Where a command may be addressed.\<close>

definition target_in :: "dram_config \<Rightarrow> Command \<Rightarrow> bool" where
  "target_in c cmd \<longleftrightarrow> (if IsRankCMD cmd then 0 \<le> rank (addr cmd) \<and> rank (addr cmd) < ranks c else loc_in c (loc_of (addr cmd)))"

lemma UpdateActivationTimes_spec:
  assumes "ch_shape c cs" and "0 \<le> r" and "r < ranks c"
  shows "\<exists>cs'. UpdateActivationTimes c r clk cs = Inr cs' \<and> ch_shape c cs' \<and> bank_states cs' = bank_states cs
    \<and> refresh_q cs' = refresh_q cs \<and> rank_is_sref cs' = rank_is_sref cs \<and> rank_idle_cycles cs' = rank_idle_cycles cs
    \<and> four_aw cs' = (four_aw cs)[nat r := slide clk (tFAW c) (four_aw cs ! nat r)]"
  using assms rank_idx [of c r] by (auto simp: UpdateActivationTimes_def Let_def ch_shape_def)

lemma ch_UpdateTiming_spec:
  assumes "ch_shape c cs" and "target_in c cmd" and "IsValid cmd"
  shows "\<exists>cs'. ch_UpdateTiming c cmd clk cs = Inr cs' \<and> ch_shape c cs'
    \<and> refresh_q cs' = refresh_q cs \<and> rank_is_sref cs' = rank_is_sref cs \<and> rank_idle_cycles cs' = rank_idle_cycles cs
    \<and> four_aw cs' = (if cmd_type cmd = CMD_ACTIVATE
        then (four_aw cs)[nat (rank (addr cmd)) := slide clk (tFAW c) (four_aw cs ! nat (rank (addr cmd)))] else four_aw cs)
    \<and> (\<forall>l. loc_in c l \<longrightarrow> bk cs' l = delayed (wait_list c cmd l) clk (bk cs l))"
proof -
  let ?a = "addr cmd" and ?ty = "cmd_type cmd" and ?t = "Timing_new c"
  have g: "geo_ok c" using assms(1) by (simp add: ch_shape_def)
  have v: "?ty \<noteq> CMD_SIZE" using assms(3) by (simp add: IsValid_def)
  show ?thesis
  proof (cases "IsRankCMD cmd")
    case True
    then have r: "0 \<le> rank ?a" "rank ?a < ranks c" using assms(2) by (simp_all add: target_in_def)
    note rl = rank_locs_in [OF g r]
    have na: "?ty \<noteq> CMD_ACTIVATE" using True by (auto simp: IsRankCMD_def)
    from delay_banks_spec [OF assms(1) rl(1,2), of "same_rank ?t ?ty" clk] True v na rl(4) show ?thesis
      by (auto simp: ch_UpdateTiming_def Let_def UpdateSameRankTiming_def wait_list_def same_rest_def delayed_def)
  next
    case False
    then have l: "loc_in c (loc_of ?a)" using assms(2) by (simp add: target_in_def)
    then have r: "0 \<le> rank ?a" "rank ?a < ranks c" by (simp_all add: loc_in_def loc_of_def)
    note al = address_locs [OF g l]
    obtain cs0 where c0: "(if ?ty = CMD_ACTIVATE then UpdateActivationTimes c (rank ?a) clk cs else Inr cs) = Inr cs0"
      "ch_shape c cs0" "bank_states cs0 = bank_states cs" "refresh_q cs0 = refresh_q cs" "rank_is_sref cs0 = rank_is_sref cs"
      "rank_idle_cycles cs0 = rank_idle_cycles cs"
      "four_aw cs0 = (if ?ty = CMD_ACTIVATE then (four_aw cs)[nat (rank ?a) := slide clk (tFAW c) (four_aw cs ! nat (rank ?a))] else four_aw cs)"
      using UpdateActivationTimes_spec [OF assms(1) r, of clk] assms(1) by (cases "?ty = CMD_ACTIVATE") auto
    have bk0: "bk cs0 = bk cs" by (simp add: bk_def fun_eq_iff c0(3))
    from delay_banks_spec [OF c0(2), of "[loc_of ?a]" "same_bank ?t ?ty" clk] l obtain cs1 where
      c1: "UpdateSameBankTiming ?a (same_bank ?t ?ty) clk cs0 = Inr cs1" "ch_shape c cs1" "same_rest cs0 cs1"
      "\<forall>l'. loc_in c l' \<longrightarrow> bk cs1 l' = (if l' = loc_of ?a then delayed (same_bank ?t ?ty) clk (bk cs l') else bk cs l')"
      by (auto simp: UpdateSameBankTiming_def bk0)
    from delay_banks_spec [OF c1(2) al(1,4), of "other_banks_same_bankgroup ?t ?ty" clk] obtain cs2 where
      c2: "UpdateOtherBanksSameBankgroupTiming c ?a (other_banks_same_bankgroup ?t ?ty) clk cs1 = Inr cs2" "ch_shape c cs2"
      "same_rest cs1 cs2" "\<forall>l'. loc_in c l' \<longrightarrow> bk cs2 l' = (if l' \<in> set (bankgroup_locs c ?a)
         then delayed (other_banks_same_bankgroup ?t ?ty) clk (bk cs1 l') else bk cs1 l')"
      by (auto simp: UpdateOtherBanksSameBankgroupTiming_def)
    from delay_banks_spec [OF c2(2) al(2,5), of "other_bankgroups_same_rank ?t ?ty" clk] obtain cs3 where
      c3: "UpdateOtherBankgroupsSameRankTiming c ?a (other_bankgroups_same_rank ?t ?ty) clk cs2 = Inr cs3" "ch_shape c cs3"
      "same_rest cs2 cs3" "\<forall>l'. loc_in c l' \<longrightarrow> bk cs3 l' = (if l' \<in> set (other_bankgroup_locs c ?a)
         then delayed (other_bankgroups_same_rank ?t ?ty) clk (bk cs2 l') else bk cs2 l')"
      by (auto simp: UpdateOtherBankgroupsSameRankTiming_def)
    from delay_banks_spec [OF c3(2) al(3,6), of "other_ranks ?t ?ty" clk] obtain cs4 where
      c4: "UpdateOtherRanksTiming c ?a (other_ranks ?t ?ty) clk cs3 = Inr cs4" "ch_shape c cs4"
      "same_rest cs3 cs4" "\<forall>l'. loc_in c l' \<longrightarrow> bk cs4 l' = (if l' \<in> set (other_rank_locs c ?a)
         then delayed (other_ranks ?t ?ty) clk (bk cs3 l') else bk cs3 l')"
      by (auto simp: UpdateOtherRanksTiming_def)
    have eq: "ch_UpdateTiming c cmd clk cs = Inr cs4"
      using c0(1) c1(1) c2(1) c3(1) c4(1) v False by (simp add: ch_UpdateTiming_def Let_def)
    have "bk cs4 l' = delayed (wait_list c cmd l') clk (bk cs l')" if "loc_in c l'" for l'
      using c1(4) [rule_format, OF that] c2(4) [rule_format, OF that] c3(4) [rule_format, OF that]
        c4(4) [rule_format, OF that] al(7,8,9) [OF that] False
      by (cases "l' = loc_of ?a") (simp_all add: wait_list_def Let_def, simp add: loc_of_def)
    then show ?thesis using eq c0(4-7) c1(3) c2(3) c3(3) c4(2,3) by (simp add: same_rest_def)
  qed
qed

section \<open>Ready commands can be issued\<close>

definition all_awake :: "dram_config \<Rightarrow> chan \<Rightarrow> bool" where
  "all_awake c cs \<longleftrightarrow> (\<forall>l. loc_in c l \<longrightarrow> awake (bk cs l))"

lemma all_awakeD: "all_awake c cs \<Longrightarrow> loc_in c l \<Longrightarrow> awake (bk cs l)"
  unfolding all_awake_def by blast

text \<open>The banks a command acts on.\<close>

definition acts_on :: "dram_config \<Rightarrow> Command \<Rightarrow> loc \<Rightarrow> bool" where
  "acts_on c cmd l \<longleftrightarrow> loc_in c l \<and> (if IsRankCMD cmd then fst l = rank (addr cmd) else l = loc_of (addr cmd))"

definition ready_at :: "dram_config \<Rightarrow> chan \<Rightarrow> Command \<Rightarrow> u64 \<Rightarrow> bool" where
  "ready_at c cs cmd clk \<longleftrightarrow> IsValid cmd \<and> target_in c cmd
     \<and> (\<forall>l. acts_on c cmd l \<longrightarrow> fits (cmd_type cmd) (bk cs l) \<and> cmd_timing (bk cs l) (cmd_type cmd) \<le> clk)"

text \<open>What the controller asks for: a column command or a refresh, at a place that exists.\<close>

definition asked :: "dram_config \<Rightarrow> Command \<Rightarrow> bool" where
  "asked c cmd \<longleftrightarrow> asks cmd \<and> target_in c cmd"

lemma no_command_invalid [simp]: "\<not> IsValid no_command"
  by (simp add: IsValid_def no_command_def)

lemma bank_ready_rank:
  assumes "bank_GetReadyCommand b cmd clk = Inr r" and "IsValid r" and "asks cmd" and "awake b" and "IsRankCMD cmd"
    and "cmd_type r \<noteq> cmd_type cmd"
  shows "cmd_type r = CMD_PRECHARGE"
  using bank_ready_sound(5) [OF assms(1-4)] assms(5,6) by (auto simp: command_kinds)

lemma rank_ready_sound:
  assumes "\<forall>l \<in> set ls. loc_in c l \<and> fst l = rank (addr cmd)" and "ch_shape c cs" and "all_awake c cs"
    and "asks cmd" and "IsRankCMD cmd" and "n + int (length ls) \<le> nb"
  shows "\<exists>r. rank_ready cs nb cmd clk ls ready n = Inr r
    \<and> (IsValid r \<longrightarrow>
        (\<exists>l \<in> set ls. cmd_type r = CMD_PRECHARGE \<and> loc_of (addr r) = l \<and> fits CMD_PRECHARGE (bk cs l)
            \<and> cmd_timing (bk cs l) CMD_PRECHARGE \<le> clk)
      \<or> (n + int (length ls) = nb \<and> (\<forall>l \<in> set ls. fits (cmd_type cmd) (bk cs l) \<and> cmd_timing (bk cs l) (cmd_type cmd) \<le> clk)
            \<and> r = (if ls = [] then ready else cmd)))"
  using assms
proof (induction ls arbitrary: ready n)
  case Nil
  then show ?case by simp
next
  case (Cons l ls)
  have li: "loc_in c l" "fst l = rank (addr cmd)" using Cons.prems(1) by auto
  have aw: "awake (bk cs l)" by (rule all_awakeD [OF Cons.prems(3) li(1)])
  obtain r where r: "bank_GetReadyCommand (bk cs l) cmd clk = Inr r" using bank_ready_total [OF aw Cons.prems(4)] by blast
  note cb = chan_bank_in [OF Cons.prems(2) li(1)]
  have sub: "\<forall>l \<in> set ls. loc_in c l \<and> fst l = rank (addr cmd)" using Cons.prems(1) by auto
  consider "\<not> IsValid r" | "IsValid r" "cmd_type r \<noteq> cmd_type cmd" | "IsValid r" "cmd_type r = cmd_type cmd" by blast
  then show ?case
  proof cases
    case 1
    from Cons.IH [OF sub Cons.prems(2-5), of n r] Cons.prems(6) 1 cb r show ?thesis by auto
  next
    case 2
    note s = bank_ready_sound [OF r 2(1) Cons.prems(4) aw]
    have p: "cmd_type r = CMD_PRECHARGE" by (rule bank_ready_rank [OF r 2(1) Cons.prems(4) aw Cons.prems(5) 2(2)])
    let ?r = "r\<lparr>addr := \<lparr>channel = -1, rank = rank (addr cmd), bankgroup = fst (snd l), bank = snd (snd l), row = -1, column = -1\<rparr>\<rparr>"
    have "rank_ready cs nb cmd clk (l # ls) ready n = Inr ?r" using cb r 2 by simp
    moreover have "loc_of (addr ?r) = l" using li(2) by (cases l) (simp add: loc_of_def)
    moreover have "cmd_type ?r = CMD_PRECHARGE" "fits CMD_PRECHARGE (bk cs l)" "cmd_timing (bk cs l) CMD_PRECHARGE \<le> clk"
      using p s(1,2) by simp_all
    ultimately show ?thesis by (metis list.set_intros(1))
  next
    case 3
    note s = bank_ready_sound [OF r 3(1) Cons.prems(4) aw]
    have rc: "r = cmd" using s(3,4) 3(2) by (cases r; cases cmd) simp
    from Cons.IH [OF sub Cons.prems(2-5), of "n + 1" r] Cons.prems(6) obtain r2 where
      r2: "rank_ready cs nb cmd clk ls r (n + 1) = Inr r2" and
      v2: "IsValid r2 \<longrightarrow>
        (\<exists>l \<in> set ls. cmd_type r2 = CMD_PRECHARGE \<and> loc_of (addr r2) = l \<and> fits CMD_PRECHARGE (bk cs l)
            \<and> cmd_timing (bk cs l) CMD_PRECHARGE \<le> clk)
      \<or> (n + 1 + int (length ls) = nb \<and> (\<forall>l \<in> set ls. fits (cmd_type cmd) (bk cs l) \<and> cmd_timing (bk cs l) (cmd_type cmd) \<le> clk)
            \<and> r2 = (if ls = [] then r else cmd))" by auto
    have "rank_ready cs nb cmd clk (l # ls) ready n = Inr r2" using cb r 3 r2 by simp
    then show ?thesis using v2 s(1,2) 3(2) rc by auto
  qed
qed

lemma ActivationWindowOk_total:
  "ch_shape c cs \<Longrightarrow> 0 \<le> r \<Longrightarrow> r < ranks c \<Longrightarrow> \<exists>b. ActivationWindowOk c cs r clk = Inr b"
  using rank_idx [of c r] by (auto simp: ActivationWindowOk_def IsFAWReady_def Is32AWReady_def ch_shape_def)

lemma GetReadyCommand_sound:
  assumes "ch_shape c cs" and "all_awake c cs" and "asked c cmd"
  shows "\<exists>r. GetReadyCommand c cs cmd clk = Inr r \<and> (IsValid r \<longrightarrow> ready_at c cs r clk
    \<and> (IsReadWrite r \<longrightarrow> r = cmd) \<and> (cmd_type r = cmd_type cmd \<or> cmd_type r = CMD_PRECHARGE \<or> cmd_type r = CMD_ACTIVATE)
    \<and> (cmd_type r = CMD_ACTIVATE \<longrightarrow> ActivationWindowOk c cs (rank (addr r)) clk = Inr True))"
proof -
  have g: "geo_ok c" using assms(1) by (simp add: ch_shape_def)
  have ak: "asks cmd" and ti: "target_in c cmd" using assms(3) by (simp_all add: asked_def)
  show ?thesis
  proof (cases "IsRankCMD cmd")
    case True
    then have rr: "0 \<le> rank (addr cmd)" "rank (addr cmd) < ranks c" using ti by (simp_all add: target_in_def)
    note rl = rank_locs_in [OF g rr]
    let ?ls = "rank_locs c (rank (addr cmd))"
    have ne: "?ls \<noteq> []" using rl(3) g by (auto simp: geo_ok_def)
    have sub: "\<forall>l \<in> set ?ls. loc_in c l \<and> fst l = rank (addr cmd)" using rl(2,4) by auto
    from rank_ready_sound [OF sub assms(1,2) ak True, of 0 "banks c" clk no_command] rl(3) ne obtain r where
      r: "rank_ready cs (banks c) cmd clk ?ls no_command 0 = Inr r" and
      v: "IsValid r \<longrightarrow> (\<exists>l \<in> set ?ls. cmd_type r = CMD_PRECHARGE \<and> loc_of (addr r) = l \<and> fits CMD_PRECHARGE (bk cs l)
            \<and> cmd_timing (bk cs l) CMD_PRECHARGE \<le> clk)
        \<or> ((\<forall>l \<in> set ?ls. fits (cmd_type cmd) (bk cs l) \<and> cmd_timing (bk cs l) (cmd_type cmd) \<le> clk) \<and> r = cmd)" by auto
    have eq: "GetReadyCommand c cs cmd clk = Inr r" using r True by (simp add: GetReadyCommand_def)
    have "ready_at c cs r clk \<and> (IsReadWrite r \<longrightarrow> r = cmd) \<and> (cmd_type r = cmd_type cmd \<or> cmd_type r = CMD_PRECHARGE \<or> cmd_type r = CMD_ACTIVATE)
        \<and> cmd_type r \<noteq> CMD_ACTIVATE"
      if "IsValid r"
    proof -
      from v that consider l where "l \<in> set ?ls" "cmd_type r = CMD_PRECHARGE" "loc_of (addr r) = l" "fits CMD_PRECHARGE (bk cs l)"
            "cmd_timing (bk cs l) CMD_PRECHARGE \<le> clk"
        | "\<forall>l \<in> set ?ls. fits (cmd_type cmd) (bk cs l) \<and> cmd_timing (bk cs l) (cmd_type cmd) \<le> clk" "r = cmd" by blast
      then show ?thesis
      proof cases
        case 1
        then show ?thesis using that sub by (auto simp: ready_at_def target_in_def acts_on_def command_kinds)
      next
        case 2
        then show ?thesis using that True rl(4) ti by (auto simp: ready_at_def acts_on_def IsRankCMD_def)
      qed
    qed
    then show ?thesis using eq by blast
  next
    case False
    then have l: "loc_in c (loc_of (addr cmd))" using ti by (simp add: target_in_def)
    let ?b = "bk cs (loc_of (addr cmd))"
    have aw: "awake ?b" by (rule all_awakeD [OF assms(2) l])
    obtain r where r: "bank_GetReadyCommand ?b cmd clk = Inr r" using bank_ready_total [OF aw ak] by blast
    note cb = chan_bank_in [OF assms(1) l]
    show ?thesis
    proof (cases "IsValid r")
      case False
      then show ?thesis using \<open>\<not> IsRankCMD cmd\<close> cb r by (simp add: GetReadyCommand_def)
    next
      case True
      note s = bank_ready_sound [OF r True ak aw]
      have nr: "\<not> IsRankCMD r" using s(5) False by (auto simp: IsRankCMD_def)
      have rr: "0 \<le> rank (addr r)" "rank (addr r) < ranks c" using l s(3) by (simp_all add: loc_in_def loc_of_def)
      have ra: "ready_at c cs r clk" using True nr s(1,2,3) l by (auto simp: ready_at_def target_in_def acts_on_def)
      obtain ok where "ActivationWindowOk c cs (rank (addr r)) clk = Inr ok" using ActivationWindowOk_total [OF assms(1) rr] by blast
      then show ?thesis using False cb r True ra s(5,6) by (auto simp: GetReadyCommand_def)
    qed
  qed
qed

section \<open>Issuing a ready command\<close>

text \<open>What issuing a command removes from the pending refreshes.\<close>

definition refreshes_left :: "Command \<Rightarrow> Command list \<Rightarrow> Command list" where
  "refreshes_left cmd q =
     (if cmd_type cmd = CMD_REFRESH then erase_first (\<lambda>x. rank (addr x) = rank (addr cmd)) q
      else if cmd_type cmd = CMD_REFRESH_BANK then erase_first (\<lambda>x. loc_of (addr x) = loc_of (addr cmd)) q else q)"

lemma ready_kind: "ready_at c cs cmd clk \<Longrightarrow> geo_ok c \<Longrightarrow> IsRankCMD cmd \<Longrightarrow> cmd_type cmd = CMD_REFRESH"
proof -
  assume a: "ready_at c cs cmd clk" "geo_ok c" "IsRankCMD cmd"
  then have "acts_on c cmd (rank (addr cmd), 0, 0)" by (auto simp: acts_on_def ready_at_def target_in_def loc_in_def geo_ok_def)
  then have "fits (cmd_type cmd) (bk cs (rank (addr cmd), 0, 0))" using a(1) unfolding ready_at_def by blast
  then show ?thesis using a(3) by (auto simp: IsRankCMD_def fits_def)
qed

definition bank_after :: "Command \<Rightarrow> bank_st \<Rightarrow> bank_st" where
  "bank_after cmd b = (case bank_UpdateState b cmd of Inr b' \<Rightarrow> b' | Inl _ \<Rightarrow> b)"

lemma ready_banks:
  assumes "ready_at c cs cmd clk" and "acts_on c cmd l"
  shows "bank_UpdateState (bk cs l) cmd = Inr (bank_after cmd (bk cs l))" and "awake (bank_after cmd (bk cs l))"
    and "cmd_timing (bank_after cmd (bk cs l)) = cmd_timing (bk cs l)"
proof -
  have "fits (cmd_type cmd) (bk cs l)" using assms unfolding ready_at_def by blast
  from bank_update_legal [OF this] obtain b' where "bank_UpdateState (bk cs l) cmd = Inr b'" "awake b'"
    "cmd_timing b' = cmd_timing (bk cs l)" by blast
  then show "bank_UpdateState (bk cs l) cmd = Inr (bank_after cmd (bk cs l))" and "awake (bank_after cmd (bk cs l))"
    and "cmd_timing (bank_after cmd (bk cs l)) = cmd_timing (bk cs l)" by (simp_all add: bank_after_def)
qed

lemma ch_UpdateState_spec:
  assumes "ch_shape c cs" and "ready_at c cs cmd clk"
  shows "\<exists>cs'. ch_UpdateState c cmd cs = Inr cs' \<and> ch_shape c cs' \<and> refresh_q cs' = refreshes_left cmd (refresh_q cs)
    \<and> rank_is_sref cs' = rank_is_sref cs \<and> rank_idle_cycles cs' = rank_idle_cycles cs
    \<and> four_aw cs' = four_aw cs \<and> thirty_two_aw cs' = thirty_two_aw cs
    \<and> (\<forall>l. loc_in c l \<longrightarrow> bk cs' l = (if acts_on c cmd l then bank_after cmd (bk cs l) else bk cs l))"
proof -
  have g: "geo_ok c" using assms(1) by (simp add: ch_shape_def)
  have ti: "target_in c cmd" using assms(2) by (simp add: ready_at_def)
  show ?thesis
  proof (cases "IsRankCMD cmd")
    case True
    have ty: "cmd_type cmd = CMD_REFRESH" by (rule ready_kind [OF assms(2) g True])
    have r: "0 \<le> rank (addr cmd)" "rank (addr cmd) < ranks c" using ti True by (simp_all add: target_in_def)
    note rl = rank_locs_in [OF g r]
    have on: "acts_on c cmd l \<longleftrightarrow> l \<in> set (rank_locs c (rank (addr cmd)))" if "loc_in c l" for l
      using that True rl(4) by (auto simp: acts_on_def)
    have "\<exists>cs'. foldE (\<lambda>l. chan_upd l (\<lambda>b. bank_UpdateState b cmd)) (rank_locs c (rank (addr cmd))) cs = Inr cs'
      \<and> ch_shape c cs' \<and> same_rest cs cs'
      \<and> (\<forall>l'. loc_in c l' \<longrightarrow> bk cs' l' = (if l' \<in> set (rank_locs c (rank (addr cmd))) then bank_after cmd (bk cs l') else bk cs l'))"
    proof (rule foldE_banks [OF assms(1) rl(1,2), where Q = "\<lambda>b. bank_UpdateState b cmd = Inr (bank_after cmd b)"])
      show "\<forall>l \<in> set (rank_locs c (rank (addr cmd))). bank_UpdateState (bk cs l) cmd = Inr (bank_after cmd (bk cs l))"
        using ready_banks(1) [OF assms(2)] on rl(2) by blast
      show "\<exists>cs'. chan_upd l (\<lambda>b. bank_UpdateState b cmd) cs0 = Inr cs' \<and> ch_shape c cs' \<and> same_rest cs0 cs'
          \<and> (\<forall>l'. loc_in c l' \<longrightarrow> bk cs' l' = (if l' = l then bank_after cmd (bk cs0 l) else bk cs0 l'))"
        if "l \<in> set (rank_locs c (rank (addr cmd)))" "ch_shape c cs0" "bank_UpdateState (bk cs0 l) cmd = Inr (bank_after cmd (bk cs0 l))"
        for l cs0
        by (rule chan_upd_in [OF that(2) bspec [OF rl(2) that(1)], where f = "\<lambda>b. bank_UpdateState b cmd", OF that(3)])
    qed
    then obtain cs1 where c1: "foldE (\<lambda>l. chan_upd l (\<lambda>b. bank_UpdateState b cmd)) (rank_locs c (rank (addr cmd))) cs = Inr cs1"
      "ch_shape c cs1" "same_rest cs cs1"
      "\<forall>l'. loc_in c l' \<longrightarrow> bk cs1 l' = (if l' \<in> set (rank_locs c (rank (addr cmd))) then bank_after cmd (bk cs l') else bk cs l')" by blast
    let ?cs = "RankNeedRefresh (rank (addr cmd)) False cs1"
    have eq: "ch_UpdateState c cmd cs = Inr ?cs"
      using c1(1) True ty by (simp add: ch_UpdateState_def IsRefresh_def Let_def)
    have b: "bk ?cs = bk cs1" by (simp add: RankNeedRefresh_def bk_def fun_eq_iff)
    have "bk ?cs l = (if acts_on c cmd l then bank_after cmd (bk cs l) else bk cs l)" if "loc_in c l" for l
      unfolding b using c1(4) [rule_format, OF that] on [OF that] by simp
    then have "\<forall>l. loc_in c l \<longrightarrow> bk ?cs l = (if acts_on c cmd l then bank_after cmd (bk cs l) else bk cs l)" by blast
    moreover have "ch_shape c ?cs" using c1(2) by (simp add: ch_shape_def RankNeedRefresh_def)
    ultimately show ?thesis using eq c1(3) ty by (auto simp: RankNeedRefresh_def same_rest_def refreshes_left_def)
  next
    case False
    then have l: "loc_in c (loc_of (addr cmd))" using ti by (simp add: target_in_def)
    have on: "acts_on c cmd l \<longleftrightarrow> l = loc_of (addr cmd)" if "loc_in c l" for l using that False by (auto simp: acts_on_def)
    have "bank_UpdateState (bk cs (loc_of (addr cmd))) cmd = Inr (bank_after cmd (bk cs (loc_of (addr cmd))))"
      using ready_banks(1) [OF assms(2)] on l by blast
    from chan_upd_in [OF assms(1) l, of "\<lambda>b. bank_UpdateState b cmd", OF this] obtain cs1 where
      c1: "chan_upd (loc_of (addr cmd)) (\<lambda>b. bank_UpdateState b cmd) cs = Inr cs1" "ch_shape c cs1" "same_rest cs cs1"
      "\<forall>l'. loc_in c l' \<longrightarrow> bk cs1 l' = (if l' = loc_of (addr cmd) then bank_after cmd (bk cs (loc_of (addr cmd))) else bk cs l')" by blast
    let ?cs = "if IsRefresh cmd then BankNeedRefresh (rank (addr cmd)) (bankgroup (addr cmd)) (bank (addr cmd)) False cs1 else cs1"
    have eq: "ch_UpdateState c cmd cs = Inr ?cs" using c1(1) False by (simp add: ch_UpdateState_def Let_def)
    have b: "bk ?cs = bk cs1" by (simp add: BankNeedRefresh_def bk_def fun_eq_iff)
    have "bk ?cs l = (if acts_on c cmd l then bank_after cmd (bk cs l) else bk cs l)" if "loc_in c l" for l
      unfolding b using c1(4) [rule_format, OF that] on [OF that] by simp
    then have "\<forall>l. loc_in c l \<longrightarrow> bk ?cs l = (if acts_on c cmd l then bank_after cmd (bk cs l) else bk cs l)" by blast
    moreover have "ch_shape c ?cs" using c1(2) by (simp add: ch_shape_def BankNeedRefresh_def)
    ultimately show ?thesis using eq c1(3) False
      by (auto simp: BankNeedRefresh_def same_rest_def refreshes_left_def loc_of_def command_kinds)
  qed
qed

lemma delayed_frame [simp]:
  "mode (delayed ws clk b) = mode b" "open_row (delayed ws clk b) = open_row b"
  "row_hit_count (delayed ws clk b) = row_hit_count b" "awake (delayed ws clk b) = awake b"
  by (induction ws arbitrary: b) (auto simp: delayed_def)

lemma delayed_mono: "cmd_timing b ty \<le> cmd_timing (delayed ws clk b) ty"
proof (induction ws arbitrary: b)
  case (Cons w ws)
  have "cmd_timing b ty \<le> cmd_timing (bank_UpdateTiming (fst w) (clk + u64_of_int (snd w)) b) ty"
    by (simp add: bank_timing_max)
  also have "\<dots> \<le> cmd_timing (delayed ws clk (bank_UpdateTiming (fst w) (clk + u64_of_int (snd w)) b)) ty" by (rule Cons.IH)
  finally show ?case by (simp add: delayed_def case_prod_beta)
qed (simp add: delayed_def)

lemma delayed_waits: "(ty, n) \<in> set ws \<Longrightarrow> clk + u64_of_int n \<le> cmd_timing (delayed ws clk b) ty"
proof (induction ws arbitrary: b)
  case (Cons w ws)
  let ?b = "bank_UpdateTiming (fst w) (clk + u64_of_int (snd w)) b"
  have e: "delayed (w # ws) clk b = delayed ws clk ?b" by (simp add: delayed_def case_prod_beta)
  show ?case
  proof (cases "w = (ty, n)")
    case True
    then have "clk + u64_of_int n \<le> cmd_timing ?b ty" by (simp add: bank_timing_max)
    then show ?thesis unfolding e using delayed_mono [of ?b ty ws clk] by (rule order_trans)
  next
    case False
    then show ?thesis unfolding e using Cons by simp
  qed
qed simp

lemma issue_spec:
  assumes "ch_shape c cs" and "all_awake c cs" and "ready_at c cs cmd clk"
  shows "\<exists>cs'. UpdateTimingAndStates c cmd clk cs = Inr cs' \<and> ch_shape c cs' \<and> all_awake c cs'
    \<and> refresh_q cs' = refreshes_left cmd (refresh_q cs) \<and> rank_is_sref cs' = rank_is_sref cs
    \<and> rank_idle_cycles cs' = rank_idle_cycles cs
    \<and> four_aw cs' = (if cmd_type cmd = CMD_ACTIVATE
        then (four_aw cs)[nat (rank (addr cmd)) := slide clk (tFAW c) (four_aw cs ! nat (rank (addr cmd)))] else four_aw cs)
    \<and> (\<forall>l. loc_in c l \<longrightarrow> bk cs' l = delayed (wait_list c cmd l) clk (if acts_on c cmd l then bank_after cmd (bk cs l) else bk cs l))"
proof -
  have v: "IsValid cmd" "target_in c cmd" using assms(3) by (simp_all add: ready_at_def)
  obtain cs1 where c1: "ch_UpdateState c cmd cs = Inr cs1" "ch_shape c cs1" "refresh_q cs1 = refreshes_left cmd (refresh_q cs)"
    "rank_is_sref cs1 = rank_is_sref cs" "rank_idle_cycles cs1 = rank_idle_cycles cs" "four_aw cs1 = four_aw cs"
    "\<forall>l. loc_in c l \<longrightarrow> bk cs1 l = (if acts_on c cmd l then bank_after cmd (bk cs l) else bk cs l)"
    using ch_UpdateState_spec [OF assms(1,3)] by blast
  obtain cs2 where c2: "ch_UpdateTiming c cmd clk cs1 = Inr cs2" "ch_shape c cs2" "refresh_q cs2 = refresh_q cs1"
    "rank_is_sref cs2 = rank_is_sref cs1" "rank_idle_cycles cs2 = rank_idle_cycles cs1"
    "four_aw cs2 = (if cmd_type cmd = CMD_ACTIVATE
        then (four_aw cs1)[nat (rank (addr cmd)) := slide clk (tFAW c) (four_aw cs1 ! nat (rank (addr cmd)))] else four_aw cs1)"
    "\<forall>l. loc_in c l \<longrightarrow> bk cs2 l = delayed (wait_list c cmd l) clk (bk cs1 l)"
    using ch_UpdateTiming_spec [OF c1(2) v(2,1)] by blast
  have b: "bk cs2 l = delayed (wait_list c cmd l) clk (if acts_on c cmd l then bank_after cmd (bk cs l) else bk cs l)" if "loc_in c l" for l
    using c2(7) [rule_format, OF that] c1(7) [rule_format, OF that] by simp
  have "awake (bk cs2 l)" if "loc_in c l" for l
    using b [OF that] ready_banks(2) [OF assms(3), of l] all_awakeD [OF assms(2) that] by simp
  then have "all_awake c cs2" unfolding all_awake_def by blast
  then show ?thesis using c1 c2(1-6) b by (auto simp: UpdateTimingAndStates_def)
qed

section \<open>Command traces\<close>

text \<open>All runs of a channel: commands that \<open>GetReadyCommand\<close> proposes are issued at non-decreasing
  cycles, and the controller changes the pending refreshes and idle counters in between.\<close>

inductive issue_run :: "dram_config \<Rightarrow> (Command \<times> u64) list \<Rightarrow> u64 \<Rightarrow> chan \<Rightarrow> bool" for c :: dram_config where
  run_new: "geo_ok c \<Longrightarrow> issue_run c [] 0 (ChannelState_new c)"
| run_issue: "issue_run c tr now cs \<Longrightarrow> now \<le> clk \<Longrightarrow> asked c req \<Longrightarrow> GetReadyCommand c cs req clk = Inr cmd \<Longrightarrow>
    IsValid cmd \<Longrightarrow> UpdateTimingAndStates c cmd clk cs = Inr cs' \<Longrightarrow> issue_run c (tr @ [(cmd, clk)]) clk cs'"
| run_refresh_q: "issue_run c tr now cs \<Longrightarrow> issue_run c tr now (cs\<lparr>refresh_q := q\<rparr>)"
| run_idle: "issue_run c tr now cs \<Longrightarrow> length idle = length (rank_idle_cycles cs) \<Longrightarrow> issue_run c tr now (cs\<lparr>rank_idle_cycles := idle\<rparr>)"

lemma ChannelState_new_ok: "geo_ok c \<Longrightarrow> ch_shape c (ChannelState_new c)" "all_awake c (ChannelState_new c)"
  by (auto simp: ChannelState_new_def ch_shape_def all_awake_def bk_def loc_in_def awake_def BankState_new_def)

text \<open>Every constraint of every issued command is recorded in the banks it concerns.\<close>

definition recorded :: "dram_config \<Rightarrow> (Command \<times> u64) list \<Rightarrow> chan \<Rightarrow> bool" where
  "recorded c tr cs \<longleftrightarrow> (\<forall>(cmd, t) \<in> set tr. \<forall>l. loc_in c l \<longrightarrow>
     (\<forall>(ty, n) \<in> set (wait_list c cmd l). t + u64_of_int n \<le> cmd_timing (bk cs l) ty))"

lemma recordedD:
  "recorded c tr cs \<Longrightarrow> (cmd, t) \<in> set tr \<Longrightarrow> loc_in c l \<Longrightarrow> (ty, n) \<in> set (wait_list c cmd l) \<Longrightarrow>
    t + u64_of_int n \<le> cmd_timing (bk cs l) ty"
  unfolding recorded_def by fastforce

lemma recordedI:
  "(\<And>cmd t l ty n. (cmd, t) \<in> set tr \<Longrightarrow> loc_in c l \<Longrightarrow> (ty, n) \<in> set (wait_list c cmd l) \<Longrightarrow>
    t + u64_of_int n \<le> cmd_timing (bk cs l) ty) \<Longrightarrow> recorded c tr cs"
  unfolding recorded_def by blast

lemma issue_records:
  assumes "recorded c tr cs" and "ch_shape c cs" and "all_awake c cs" and "ready_at c cs cmd clk"
    and "UpdateTimingAndStates c cmd clk cs = Inr cs'"
  shows "recorded c (tr @ [(cmd, clk)]) cs'"
proof (rule recordedI)
  fix cmd0 t l ty n
  assume i: "(cmd0, t) \<in> set (tr @ [(cmd, clk)])" "loc_in c l" "(ty, n) \<in> set (wait_list c cmd0 l)"
  have "\<forall>l. loc_in c l \<longrightarrow> bk cs' l = delayed (wait_list c cmd l) clk (if acts_on c cmd l then bank_after cmd (bk cs l) else bk cs l)"
    using issue_spec [OF assms(2-4)] assms(5) by auto
  from this [rule_format, OF i(2)]
  have b: "bk cs' l = delayed (wait_list c cmd l) clk (if acts_on c cmd l then bank_after cmd (bk cs l) else bk cs l)" .
  have keep: "cmd_timing (if acts_on c cmd l then bank_after cmd (bk cs l) else bk cs l) = cmd_timing (bk cs l)"
    using ready_banks(3) [OF assms(4), of l] by simp
  show "t + u64_of_int n \<le> cmd_timing (bk cs' l) ty"
  proof (cases "(cmd0, t) = (cmd, clk)")
    case True
    then show ?thesis unfolding b using delayed_waits i(3) by blast
  next
    case False
    then have "(cmd0, t) \<in> set tr" using i(1) by auto
    then have "t + u64_of_int n \<le> cmd_timing (bk cs l) ty" by (rule recordedD [OF assms(1) _ i(2,3)])
    then show ?thesis unfolding b using delayed_mono keep order_trans by metis
  qed
qed

end
