(* ===== verification/Channel_Traces.thy ===== *)
theory Channel_Traces
  imports Channel_State
begin

text \<open>
  What holds of every sequence of commands a channel issues (\<open>issue_run\<close>): any two commands keep the
  distances of the timing tables on every bank the later one acts on, and five activations of one
  rank never fall into one window of \<open>tFAW\<close> cycles.
\<close>

inductive_cases issue_runE: "issue_run c tr now cs"

section \<open>Distances\<close>

definition keeps_distance :: "dram_config \<Rightarrow> Command \<times> u64 \<Rightarrow> Command \<times> u64 \<Rightarrow> bool" where
  "keeps_distance c p q \<longleftrightarrow> (\<forall>l n. acts_on c (fst q) l \<longrightarrow> (cmd_type (fst q), n) \<in> set (wait_list c (fst p) l) \<longrightarrow>
     snd p + u64_of_int n \<le> snd q)"

definition run_ok :: "dram_config \<Rightarrow> (Command \<times> u64) list \<Rightarrow> u64 \<Rightarrow> chan \<Rightarrow> bool" where
  "run_ok c tr now cs \<longleftrightarrow> ch_shape c cs \<and> all_awake c cs \<and> recorded c tr cs
     \<and> sorted_wrt (keeps_distance c) tr \<and> sorted (map snd tr) \<and> (\<forall>t \<in> set (map snd tr). t \<le> now)"

lemma ready_keeps_distance:
  assumes "recorded c tr cs" and "ready_at c cs cmd clk" and "p \<in> set tr"
  shows "keeps_distance c p (cmd, clk)"
proof -
  have "snd p + u64_of_int n \<le> clk" if on: "acts_on c cmd l" and w: "(cmd_type cmd, n) \<in> set (wait_list c (fst p) l)" for l n
  proof -
    have "(fst p, snd p) \<in> set tr" using assms(3) by simp
    moreover have "loc_in c l" using on by (simp add: acts_on_def)
    ultimately have "snd p + u64_of_int n \<le> cmd_timing (bk cs l) (cmd_type cmd)" using recordedD [OF assms(1)] w by blast
    also have "\<dots> \<le> clk" using assms(2) on unfolding ready_at_def by blast
    finally show ?thesis .
  qed
  then show ?thesis unfolding keeps_distance_def fst_conv snd_conv by blast
qed

lemma frame_updates [simp]:
  "bk (cs\<lparr>refresh_q := q\<rparr>) = bk cs" "bk (cs\<lparr>rank_idle_cycles := i\<rparr>) = bk cs"
  by (simp_all add: bk_def fun_eq_iff)

lemma run_ok_frame:
  "run_ok c tr now cs \<Longrightarrow> run_ok c tr now (cs\<lparr>refresh_q := q\<rparr>)"
  "run_ok c tr now cs \<Longrightarrow> length i = length (rank_idle_cycles cs) \<Longrightarrow> run_ok c tr now (cs\<lparr>rank_idle_cycles := i\<rparr>)"
  by (simp_all add: run_ok_def ch_shape_def all_awake_def recorded_def)

lemma proposed_ready:
  assumes "ch_shape c cs" and "all_awake c cs" and "asked c req" and "GetReadyCommand c cs req clk = Inr cmd" and "IsValid cmd"
  shows "ready_at c cs cmd clk" and "IsReadWrite cmd \<Longrightarrow> cmd = req"
    and "cmd_type cmd = CMD_ACTIVATE \<Longrightarrow> ActivationWindowOk c cs (rank (addr cmd)) clk = Inr True"
    and "cmd_type cmd = cmd_type req \<or> cmd_type cmd = CMD_PRECHARGE \<or> cmd_type cmd = CMD_ACTIVATE"
  using GetReadyCommand_sound [OF assms(1-3), of clk] assms(4,5) by auto

lemma issue_run_ok: "issue_run c tr now cs \<Longrightarrow> run_ok c tr now cs"
proof (induction rule: issue_run.induct)
  case run_new
  then show ?case using ChannelState_new_ok [of c] by (simp add: run_ok_def recorded_def)
next
  case (run_issue tr now cs clk req cmd cs')
  note ok = run_issue.IH [unfolded run_ok_def]
  have r: "ready_at c cs cmd clk" using proposed_ready(1) ok run_issue.hyps by blast
  have s: "ch_shape c cs'" "all_awake c cs'"
    using issue_spec [of c cs cmd clk] ok r run_issue.hyps(6) by auto
  have rec: "recorded c (tr @ [(cmd, clk)]) cs'" using issue_records ok r run_issue.hyps(6) by blast
  have d: "\<forall>p \<in> set tr. keeps_distance c p (cmd, clk)" using ready_keeps_distance ok r by blast
  have le: "\<forall>t \<in> set (map snd tr). t \<le> clk" using ok run_issue.hyps(2) by force
  show ?case unfolding run_ok_def using ok s rec d le by (simp add: sorted_wrt_append sorted_append)
qed (simp_all add: run_ok_frame)

section \<open>Activation windows\<close>

text \<open>The cycles at which rank \<open>r\<close> activated a row.\<close>

definition activations :: "int \<Rightarrow> (Command \<times> u64) list \<Rightarrow> u64 list" where
  "activations r tr = map snd (filter (\<lambda>(cmd, t). cmd_type cmd = CMD_ACTIVATE \<and> rank (addr cmd) = r) tr)"

text \<open>A window holds the ends of at most the last four activations; the ones it dropped have ended.\<close>

definition window_ok :: "u64 \<Rightarrow> u64 list \<Rightarrow> u64 \<Rightarrow> u64 list \<Rightarrow> bool" where
  "window_ok faw acts now w \<longleftrightarrow> (\<exists>old late. acts = old @ late \<and> length late \<le> 4
     \<and> w = map (\<lambda>t. t + faw) late \<and> (\<forall>t \<in> set old. t + faw \<le> now))
     \<and> (\<forall>k. k + 4 < length acts \<longrightarrow> acts ! k + faw \<le> acts ! (k + 4))"

lemma window_ok_mono: "window_ok faw acts now w \<Longrightarrow> now \<le> clk \<Longrightarrow> window_ok faw acts clk w"
  unfolding window_ok_def by (blast intro: order_trans)

lemma window_ok_slide:
  assumes "window_ok (u64_of_int len) acts now w" and "now \<le> clk" and "\<not> (w \<noteq> [] \<and> clk < hd w \<and> length w \<ge> 4)"
  shows "window_ok (u64_of_int len) (acts @ [clk]) clk (slide clk len w)"
proof -
  let ?f = "u64_of_int len"
  obtain old late where a: "acts = old @ late" "length late \<le> 4" "w = map (\<lambda>t. t + ?f) late" "\<forall>t \<in> set old. t + ?f \<le> now"
    and g: "\<forall>k. k + 4 < length acts \<longrightarrow> acts ! k + ?f \<le> acts ! (k + 4)" using assms(1) by (auto simp: window_ok_def)
  have old: "\<forall>t \<in> set old. t + ?f \<le> clk" using a(4) assms(2) by (blast intro: order_trans)
  have split: "\<exists>old late. acts = old @ late \<and> length late \<le> 3 \<and> slide clk len w = map (\<lambda>t. t + ?f) (late @ [clk])
      \<and> (\<forall>t \<in> set old. t + ?f \<le> clk)"
  proof (cases "w \<noteq> [] \<and> clk \<ge> hd w")
    case True
    then obtain t late' where l: "late = t # late'" "t + ?f \<le> clk" using a(3) by (cases late) auto
    then show ?thesis using a old True by (intro exI [of _ "old @ [t]"] exI [of _ late']) (auto simp: slide_def)
  next
    case False
    then have "length late \<le> 3" using assms(3) a(2,3) by (cases late) (auto simp: not_le)
    then show ?thesis using a old False by (intro exI [of _ old] exI [of _ late]) (auto simp: slide_def)
  qed
  then obtain old' late' where s: "acts = old' @ late'" "length late' \<le> 3" "slide clk len w = map (\<lambda>t. t + ?f) (late' @ [clk])"
    "\<forall>t \<in> set old'. t + ?f \<le> clk" by blast
  have "(acts @ [clk]) ! k + ?f \<le> (acts @ [clk]) ! (k + 4)" if k: "k + 4 < length (acts @ [clk])" for k
  proof (cases "k + 4 < length acts")
    case True
    then show ?thesis using g by (simp add: nth_append)
  next
    case False
    then have e: "k + 4 = length acts" using k by simp
    then have "k < length old'" using s(1,2) by simp
    then have "acts ! k \<in> set old'" using s(1) by (simp add: nth_append)
    then show ?thesis using s(4) e by (simp add: nth_append)
  qed
  moreover have "acts @ [clk] = old' @ (late' @ [clk])" "length (late' @ [clk]) \<le> 4" using s(1,2) by simp_all
  ultimately show ?thesis unfolding window_ok_def using s(3,4) by blast
qed

lemma issue_run_windows:
  assumes "issue_run c tr now cs" and "0 \<le> r" and "r < ranks c"
  shows "window_ok (u64_of_int (tFAW c)) (activations r tr) now (four_aw cs ! nat r)"
  using assms(1)
proof (induction rule: issue_run.induct)
  case run_new
  then show ?case using assms(2,3) by (simp add: window_ok_def ChannelState_new_def activations_def)
next
  case (run_issue tr now cs clk req cmd cs')
  have ok: "ch_shape c cs" "all_awake c cs" using issue_run_ok [OF run_issue.hyps(1)] by (simp_all add: run_ok_def)
  note pr = proposed_ready [OF ok run_issue.hyps(3-5)]
  have aw: "four_aw cs' = (if cmd_type cmd = CMD_ACTIVATE
        then (four_aw cs)[nat (rank (addr cmd)) := slide clk (tFAW c) (four_aw cs ! nat (rank (addr cmd)))] else four_aw cs)"
    using issue_spec [OF ok pr(1)] run_issue.hyps(6) by auto
  have len: "length (four_aw cs) = nat (ranks c)" and g: "geo_ok c" using ok(1) by (simp_all add: ch_shape_def)
  show ?case
  proof (cases "cmd_type cmd = CMD_ACTIVATE \<and> rank (addr cmd) = r")
    case True
    then have ix: "idx_of_int r = nat r" "nat r < length (four_aw cs)" using rank_idx [OF g assms(2,3)] len by simp_all
    have "ActivationWindowOk c cs r clk = Inr True" using pr(3) True by simp
    then have "\<not> (four_aw cs ! nat r \<noteq> [] \<and> clk < hd (four_aw cs ! nat r) \<and> length (four_aw cs ! nat r) \<ge> 4)"
      using ix by (auto simp: ActivationWindowOk_def IsFAWReady_def vec_get_def split: if_splits)
    from window_ok_slide [OF run_issue.IH run_issue.hyps(2) this] show ?thesis
      using True aw ix by (simp add: activations_def)
  next
    case False
    have tgt: "0 \<le> rank (addr cmd)" if "cmd_type cmd = CMD_ACTIVATE"
      using pr(1) that by (auto simp: ready_at_def target_in_def loc_in_def loc_of_def split: if_splits)
    have "nat (rank (addr cmd)) \<noteq> nat r" if "cmd_type cmd = CMD_ACTIVATE"
      using tgt that False assms(2) by auto
    then have "four_aw cs' ! nat r = four_aw cs ! nat r" using aw by auto
    then show ?thesis using False window_ok_mono [OF run_issue.IH run_issue.hyps(2)] by (auto simp: activations_def)
  qed
qed simp_all

end
