(* ===== verification/Simple_Stats.thy ===== *)
theory Simple_Stats
  imports Dram_Config
begin

text \<open>
  \<open>DRAMsim3/src/simple_stats.cc\<close>: the counters, per-rank counters and latency histograms of a channel.
  The names the code passes as strings are datatypes, so the hash maps are functions on them; a
  histogram's \<open>unordered_map<int, uint64_t>\<close> is an association list.  Energies and averages follow
  in \<open>Power_Stats\<close>; the printing is left out.  The lemmas show that a histogram's bins are never indexed out of range and add up to the
  number of values, and that an epoch moves counts without changing the totals.
\<close>

datatype counter_name = num_cycles | epoch_num | num_reads_done | num_writes_done | num_write_buf_hits
  | num_read_row_hits | num_write_row_hits | num_read_cmds | num_write_cmds | num_act_cmds | num_pre_cmds
  | num_ondemand_pres | num_ref_cmds | num_refb_cmds | num_srefe_cmds | num_srefx_cmds | hbm_dual_cmds

datatype vec_name = all_bank_idle_cycles | rank_active_cycles | sref_cycles

datatype histo_name = read_latency | write_latency | interarrival_latency

type_synonym histo_count = "(int \<times> u64) list"

record histogram =
  histo_bounds :: "int \<times> int"
  bin_width :: int
  histo_counts :: histo_count
  epoch_histo_counts :: histo_count
  histo_bins :: "u64 list"
  epoch_histo_bins :: "u64 list"

record stats =
  counters :: "counter_name \<Rightarrow> u64"
  epoch_counters :: "counter_name \<Rightarrow> u64"
  vec_counters :: "vec_name \<Rightarrow> u64 list"
  epoch_vec_counters :: "vec_name \<Rightarrow> u64 list"
  histos :: "histo_name \<Rightarrow> histogram"

definition InitHistoStat :: "int \<Rightarrow> int \<Rightarrow> int \<Rightarrow> histogram" where
  "InitHistoStat start_val end_val num_bins =
     \<lparr>histo_bounds = (start_val, end_val), bin_width = (end_val - start_val) div num_bins,
      histo_counts = [], epoch_histo_counts = [],
      histo_bins = replicate (nat (num_bins + 2)) 0, epoch_histo_bins = replicate (nat (num_bins + 2)) 0\<rparr>"

definition SimpleStats_new :: "dram_config \<Rightarrow> stats" where
  "SimpleStats_new c =
     \<lparr>counters = (\<lambda>_. 0), epoch_counters = (\<lambda>_. 0),
      vec_counters = (\<lambda>_. replicate (nat (ranks c)) 0), epoch_vec_counters = (\<lambda>_. replicate (nat (ranks c)) 0),
      histos = (\<lambda>h. case h of read_latency \<Rightarrow> InitHistoStat 0 200 10 | write_latency \<Rightarrow> InitHistoStat 0 200 10
        | interarrival_latency \<Rightarrow> InitHistoStat 0 100 10)\<rparr>"

definition Increment :: "counter_name \<Rightarrow> stats \<Rightarrow> stats" where
  "Increment k st = st\<lparr>epoch_counters := (epoch_counters st)(k := epoch_counters st k + 1)\<rparr>"

definition IncrementVecBy :: "vec_name \<Rightarrow> int \<Rightarrow> int \<Rightarrow> stats \<Rightarrow> stats result" where
  "IncrementVecBy k pos num st =
     (let v = epoch_vec_counters st k; i = idx_of_int pos in
      bindE (vec_get v i) (\<lambda>x.
      Inr (st\<lparr>epoch_vec_counters := (epoch_vec_counters st)(k := v[i := x + u64_of_int num])\<rparr>)))"

definition IncrementVec :: "vec_name \<Rightarrow> int \<Rightarrow> stats \<Rightarrow> stats result" where
  "IncrementVec k pos st =
     (let v = epoch_vec_counters st k; i = idx_of_int pos in
      bindE (vec_get v i) (\<lambda>x.
      Inr (st\<lparr>epoch_vec_counters := (epoch_vec_counters st)(k := v[i := x + 1])\<rparr>)))"

text \<open>\<open>counts[v] = n\<close> when \<open>v\<close> is new, \<open>counts[v] += n\<close> otherwise.\<close>

fun add_count :: "int \<Rightarrow> u64 \<Rightarrow> histo_count \<Rightarrow> histo_count" where
  "add_count v n [] = [(v, n)]"
| "add_count v n ((w, m) # xs) = (if v = w then (w, m + n) # xs else (w, m) # add_count v n xs)"

definition AddValue :: "histo_name \<Rightarrow> int \<Rightarrow> stats \<Rightarrow> stats" where
  "AddValue h v st = st\<lparr>histos := (histos st)(h := (histos st h)\<lparr>epoch_histo_counts := add_count v 1 (epoch_histo_counts (histos st h))\<rparr>)\<rparr>"

section \<open>Ending an epoch\<close>

definition bin_of :: "histogram \<Rightarrow> nat \<Rightarrow> int \<Rightarrow> int result" where
  "bin_of h nbins v =
     (if v < fst (histo_bounds h) then Inr 0
      else if v > snd (histo_bounds h) then Inr (int nbins - 1)
      else bindE (c_div (v - fst (histo_bounds h)) (bin_width h)) (\<lambda>q. Inr (q + 1)))"

text \<open>The loop over the values of an epoch, into bins that start at zero.\<close>

fun fill_bins :: "histogram \<Rightarrow> histo_count \<Rightarrow> u64 list \<Rightarrow> u64 list result" where
  "fill_bins h [] bins = Inr bins"
| "fill_bins h ((v, n) # xs) bins =
     bindE (bin_of h (length bins) v) (\<lambda>b.
     bindE (vec_get bins (idx_of_int b)) (\<lambda>x. fill_bins h xs (bins[idx_of_int b := x + n])))"

text \<open>\<open>for i < dst.size(): dst[i] += src[i]\<close>\<close>

fun add_bins :: "u64 list \<Rightarrow> u64 list \<Rightarrow> u64 list result" where
  "add_bins [] src = Inr []"
| "add_bins (x # xs) [] = Inl UB_Index"
| "add_bins (x # xs) (y # ys) = bindE (add_bins xs ys) (\<lambda>zs. Inr ((x + y) # zs))"

definition UpdateHisto :: "histogram \<Rightarrow> histogram result" where
  "UpdateHisto h =
     bindE (fill_bins h (epoch_histo_counts h) (replicate (length (epoch_histo_bins h)) 0)) (\<lambda>bins.
     bindE (add_bins (histo_bins h) bins) (\<lambda>final.
     Inr (h\<lparr>epoch_histo_bins := bins, histo_counts := fold (\<lambda>(v, n). add_count v n) (epoch_histo_counts h) (histo_counts h),
            histo_bins := final\<rparr>)))"

definition UpdateHistoBins :: "stats \<Rightarrow> stats result" where
  "UpdateHistoBins st =
     foldE (\<lambda>k st. bindE (UpdateHisto (histos st k)) (\<lambda>h. Inr (st\<lparr>histos := (histos st)(k := h)\<rparr>)))
       [read_latency, write_latency, interarrival_latency] st"

text \<open>\<open>for i < src.size(): dst[i] += src[i]\<close>\<close>

fun add_vec :: "u64 list \<Rightarrow> u64 list \<Rightarrow> u64 list result" where
  "add_vec dst [] = Inr dst"
| "add_vec [] (y # ys) = Inl UB_Index"
| "add_vec (x # xs) (y # ys) = bindE (add_vec xs ys) (\<lambda>zs. Inr ((x + y) # zs))"

definition UpdateCounters :: "stats \<Rightarrow> stats result" where
  "UpdateCounters st =
     foldE (\<lambda>k st. bindE (add_vec (vec_counters st k) (epoch_vec_counters st k)) (\<lambda>v. Inr (st\<lparr>vec_counters := (vec_counters st)(k := v)\<rparr>)))
       [all_bank_idle_cycles, rank_active_cycles, sref_cycles]
       (st\<lparr>counters := (\<lambda>k. counters st k + epoch_counters st k)\<rparr>)"

text \<open>The sum and the number of values behind \<open>GetHistoAvg\<close>.\<close>

definition histo_sums :: "histo_count \<Rightarrow> u64 \<times> u64" where
  "histo_sums xs = fold (\<lambda>(v, n) (s, k). (s + u64_of_int v * n, k + n)) xs (0, 0)"

definition UpdateEpochStats :: "stats \<Rightarrow> stats result" where
  "UpdateEpochStats st =
     bindE (UpdateCounters st) (\<lambda>st1.
     bindE (UpdateHistoBins st1) (\<lambda>st2.
     Inr (st2\<lparr>epoch_counters := (\<lambda>_. 0), epoch_vec_counters := (\<lambda>k. map (\<lambda>_. 0) (epoch_vec_counters st2 k)),
              histos := (\<lambda>k. (histos st2 k)\<lparr>epoch_histo_counts := []\<rparr>)\<rparr>)))"

definition UpdateFinalStats :: "stats \<Rightarrow> stats result" where
  "UpdateFinalStats st = bindE (UpdateCounters st) UpdateHistoBins"

definition stats_Reset :: "stats \<Rightarrow> stats" where
  "stats_Reset st = st\<lparr>counters := (\<lambda>_. 0), epoch_counters := (\<lambda>_. 0),
     vec_counters := (\<lambda>k. map (\<lambda>_. 0) (vec_counters st k)), epoch_vec_counters := (\<lambda>k. map (\<lambda>_. 0) (epoch_vec_counters st k)),
     histos := (\<lambda>k. (histos st k)\<lparr>histo_counts := [], epoch_histo_counts := []\<rparr>)\<rparr>"

section \<open>Well-formed statistics\<close>

definition histo_ok :: "histogram \<Rightarrow> bool" where
  "histo_ok h \<longleftrightarrow> 0 < bin_width h \<and> length (histo_bins h) = length (epoch_histo_bins h) \<and> length (histo_bins h) < 2 ^ 31
     \<and> fst (histo_bounds h) \<le> snd (histo_bounds h)
     \<and> (snd (histo_bounds h) - fst (histo_bounds h)) div bin_width h + 1 < int (length (histo_bins h))"

definition stats_ok :: "nat \<Rightarrow> stats \<Rightarrow> bool" where
  "stats_ok n st \<longleftrightarrow> (\<forall>k. length (vec_counters st k) = n \<and> length (epoch_vec_counters st k) = n) \<and> (\<forall>k. histo_ok (histos st k))"

lemma SimpleStats_new_ok: "stats_ok (nat (ranks c)) (SimpleStats_new c)"
  by (auto simp: stats_ok_def SimpleStats_new_def histo_ok_def InitHistoStat_def split: histo_name.split)

lemma histo_ok_frame [simp]:
  "histo_ok (h\<lparr>epoch_histo_counts := x\<rparr>) = histo_ok h" "histo_ok (h\<lparr>histo_counts := x\<rparr>) = histo_ok h"
  by (simp_all add: histo_ok_def)

lemma Increment_ok [simp]: "stats_ok n (Increment k st) = stats_ok n st"
  by (simp add: stats_ok_def Increment_def)

lemma AddValue_ok [simp]: "stats_ok n st \<Longrightarrow> stats_ok n (AddValue h v st)"
  by (simp add: stats_ok_def AddValue_def)

lemma IncrementVec_ok:
  "stats_ok n st \<Longrightarrow> idx_of_int pos < n \<Longrightarrow> \<exists>st'. IncrementVec k pos st = Inr st' \<and> stats_ok n st'"
  by (auto simp: stats_ok_def IncrementVec_def Let_def)

lemma Reset_ok: "stats_ok n st \<Longrightarrow> stats_ok n (stats_Reset st)"
  by (simp add: stats_ok_def stats_Reset_def)

lemma bin_of_in:
  assumes "histo_ok h" and "nbins = length (histo_bins h)"
  shows "\<exists>b. bin_of h nbins v = Inr b \<and> 0 \<le> b \<and> b < int nbins"
proof -
  let ?lo = "fst (histo_bounds h)" and ?hi = "snd (histo_bounds h)" and ?w = "bin_width h"
  have h: "0 < ?w" "(?hi - ?lo) div ?w + 1 < int nbins" "?lo \<le> ?hi" using assms by (simp_all add: histo_ok_def)
  have n: "0 < int nbins" using h pos_imp_zdiv_nonneg_iff [OF h(1), of "?hi - ?lo"] by linarith
  show ?thesis
  proof (cases "?lo \<le> v \<and> v \<le> ?hi")
    case True
    then have d: "0 \<le> v - ?lo" "(v - ?lo) div ?w \<le> (?hi - ?lo) div ?w" "0 \<le> (v - ?lo) div ?w" using h(1)
      by (auto intro: zdiv_mono1 simp: pos_imp_zdiv_nonneg_iff)
    then show ?thesis using True h c_div_nonneg [OF d(1) h(1)] by (auto simp: bin_of_def)
  next
    case False
    then show ?thesis using n by (auto simp: bin_of_def)
  qed
qed

lemma sum_list_bump: "i < length xs \<Longrightarrow> sum_list (xs[i := xs ! i + (n :: u64)]) = sum_list xs + n"
  by (induction xs arbitrary: i) (auto simp: nth_Cons' algebra_simps split: nat.split)

lemma sum_list_zeros [simp]: "sum_list (replicate n (0 :: u64)) = 0"
  by (induction n) simp_all

lemma fill_bins_spec:
  assumes "histo_ok h" and "length bins = length (histo_bins h)"
  shows "\<exists>bins'. fill_bins h xs bins = Inr bins' \<and> length bins' = length bins
    \<and> sum_list bins' = sum_list bins + sum_list (map snd xs)"
  using assms(2)
proof (induction xs arbitrary: bins)
  case (Cons x xs)
  obtain v n where x: "x = (v, n)" by (cases x)
  obtain b where b: "bin_of h (length bins) v = Inr b" "0 \<le> b" "b < int (length bins)"
    using bin_of_in [OF assms(1) Cons.prems] by blast
  have ix: "idx_of_int b = nat b" "nat b < length bins"
    using b assms Cons.prems by (auto simp: histo_ok_def intro!: idx_of_int_nonneg)
  from Cons.IH [of "bins[nat b := bins ! nat b + n]"] Cons.prems show ?case
    using b ix by (auto simp: x sum_list_bump add.assoc)
qed simp

lemma add_bins_spec: "length xs \<le> length ys \<Longrightarrow> \<exists>zs. add_bins xs ys = Inr zs \<and> length zs = length xs
    \<and> sum_list zs = sum_list xs + sum_list (take (length xs) ys)"
  by (induction xs ys rule: add_bins.induct) (auto simp: algebra_simps)

lemma add_vec_spec: "length ys \<le> length xs \<Longrightarrow> \<exists>zs. add_vec xs ys = Inr zs \<and> length zs = length xs
    \<and> (\<forall>i < length xs. zs ! i = xs ! i + (if i < length ys then ys ! i else 0))"
proof (induction xs ys rule: add_vec.induct)
  case (3 x xs y ys)
  then show ?case by (auto simp: nth_Cons split: nat.split)
qed auto

text \<open>How often a value was recorded.\<close>

definition recorded_count :: "int \<Rightarrow> histo_count \<Rightarrow> u64" where
  "recorded_count v xs = sum_list (map snd (filter (\<lambda>p. fst p = v) xs))"

lemma recorded_add_count: "recorded_count w (add_count v n xs) = recorded_count w xs + (if w = v then n else 0)"
  by (induction v n xs rule: add_count.induct) (auto simp: recorded_count_def algebra_simps)

lemma recorded_fold: "recorded_count w (fold (\<lambda>(v, n). add_count v n) xs ys) = recorded_count w ys + recorded_count w xs"
proof (induction xs arbitrary: ys)
  case (Cons x xs)
  have "recorded_count w (x # xs) = (if w = fst x then snd x else 0) + recorded_count w xs"
    by (simp add: recorded_count_def)
  then show ?case using Cons [of "add_count (fst x) (snd x) ys"] by (simp add: recorded_add_count case_prod_beta algebra_simps)
qed (simp add: recorded_count_def)

lemma UpdateHisto_spec:
  assumes "histo_ok h"
  shows "\<exists>h'. UpdateHisto h = Inr h' \<and> histo_ok h'
    \<and> sum_list (epoch_histo_bins h') = sum_list (map snd (epoch_histo_counts h))
    \<and> sum_list (histo_bins h') = sum_list (histo_bins h) + sum_list (map snd (epoch_histo_counts h))
    \<and> epoch_histo_counts h' = epoch_histo_counts h
    \<and> (\<forall>v. recorded_count v (histo_counts h') = recorded_count v (histo_counts h) + recorded_count v (epoch_histo_counts h))"
proof -
  have len: "length (histo_bins h) = length (epoch_histo_bins h)" using assms by (simp add: histo_ok_def)
  obtain bins where b: "fill_bins h (epoch_histo_counts h) (replicate (length (epoch_histo_bins h)) 0) = Inr bins"
    "length bins = length (epoch_histo_bins h)" "sum_list bins = sum_list (map snd (epoch_histo_counts h))"
    using fill_bins_spec [OF assms, of "replicate (length (epoch_histo_bins h)) 0" "epoch_histo_counts h"] len by auto
  obtain zs where z: "add_bins (histo_bins h) bins = Inr zs" "length zs = length (histo_bins h)"
    "sum_list zs = sum_list (histo_bins h) + sum_list bins" using add_bins_spec [of "histo_bins h" bins] b(2) len by auto
  show ?thesis using assms b z len by (simp add: UpdateHisto_def histo_ok_def recorded_fold)
qed

lemma UpdateCounters_ok: "stats_ok n st \<Longrightarrow> \<exists>st'. UpdateCounters st = Inr st' \<and> stats_ok n st'
    \<and> epoch_counters st' = epoch_counters st \<and> (\<forall>k. counters st' k = counters st k + epoch_counters st k)"
  unfolding UpdateCounters_def
proof (rule foldE_total [where P = "\<lambda>st'. stats_ok n st' \<and> epoch_counters st' = epoch_counters st
      \<and> (\<forall>k. counters st' k = counters st k + epoch_counters st k)", simplified conj_assoc])
  assume "stats_ok n st"
  then show "stats_ok n (st\<lparr>counters := \<lambda>k. counters st k + epoch_counters st k\<rparr>) \<and>
    epoch_counters (st\<lparr>counters := \<lambda>k. counters st k + epoch_counters st k\<rparr>) = epoch_counters st \<and>
    (\<forall>k. counters (st\<lparr>counters := \<lambda>k. counters st k + epoch_counters st k\<rparr>) k = counters st k + epoch_counters st k)"
    by (simp add: stats_ok_def)
next
  fix k st'
  assume "stats_ok n st' \<and> epoch_counters st' = epoch_counters st \<and> (\<forall>k. counters st' k = counters st k + epoch_counters st k)"
  then show "\<exists>t. bindE (add_vec (vec_counters st' k) (epoch_vec_counters st' k)) (\<lambda>v. Inr (st'\<lparr>vec_counters := (vec_counters st')(k := v)\<rparr>)) = Inr t
     \<and> stats_ok n t \<and> epoch_counters t = epoch_counters st \<and> (\<forall>k. counters t k = counters st k + epoch_counters st k)"
    using add_vec_spec [of "epoch_vec_counters st' k" "vec_counters st' k"] by (auto simp: stats_ok_def)
qed

lemma UpdateHistoBins_ok: "stats_ok n st \<Longrightarrow> \<exists>st'. UpdateHistoBins st = Inr st' \<and> stats_ok n st'
    \<and> counters st' = counters st \<and> epoch_counters st' = epoch_counters st"
  unfolding UpdateHistoBins_def
proof (rule foldE_total [where P = "\<lambda>st'. stats_ok n st' \<and> counters st' = counters st \<and> epoch_counters st' = epoch_counters st"])
  fix k st'
  assume a: "stats_ok n st' \<and> counters st' = counters st \<and> epoch_counters st' = epoch_counters st"
  then show "\<exists>t. bindE (UpdateHisto (histos st' k)) (\<lambda>h. Inr (st'\<lparr>histos := (histos st')(k := h)\<rparr>)) = Inr t
      \<and> stats_ok n t \<and> counters t = counters st \<and> epoch_counters t = epoch_counters st"
    using UpdateHisto_spec [of "histos st' k"] by (auto simp: stats_ok_def)
qed simp

lemma UpdateEpochStats_ok: "stats_ok n st \<Longrightarrow> \<exists>st'. UpdateEpochStats st = Inr st' \<and> stats_ok n st'
    \<and> (\<forall>k. counters st' k + epoch_counters st' k = counters st k + epoch_counters st k)"
proof -
  assume "stats_ok n st"
  then obtain st1 where s1: "UpdateCounters st = Inr st1" "stats_ok n st1" "\<forall>k. counters st1 k = counters st k + epoch_counters st k"
    using UpdateCounters_ok by blast
  obtain st2 where s2: "UpdateHistoBins st1 = Inr st2" "stats_ok n st2" "counters st2 = counters st1"
    using UpdateHistoBins_ok [OF s1(2)] by blast
  show ?thesis using s1 s2 by (simp add: UpdateEpochStats_def stats_ok_def)
qed

end
