(* ===== verification/Command_Queue.thy ===== *)
theory Command_Queue
  imports Channel_Traces Simple_Stats
begin

text \<open>
  \<open>DRAMsim3/src/command_queue.cc\<close>: the column commands waiting for one channel, in one queue per rank or
  per bank.  Every cycle the queues are visited round robin and the first command that is ready (or the
  activation or precharge it needs first) is proposed.  An iterator into a queue is the split of the
  queue at it: the commands before it, the one it points to, the rest.  The lemmas show that the
  proposed command is ready, is taken out of its queue exactly when it is a column command, and that
  every command stays in the queue its address selects.
\<close>

datatype QueueStructure = PER_RANK | PER_BANK

record cmdq =
  rank_q_empty :: "bool list"
  queue_struct :: QueueStructure
  queues :: "Command list list"
  ref_q_indices :: "int list"
  is_in_ref :: bool
  num_queues :: int
  queue_size :: nat
  queue_idx :: int
  cq_clk :: u64

definition CommandQueue_new :: "dram_config \<Rightarrow> cmdq result" where
  "CommandQueue_new c =
     bindE (if queue_structure c = ''PER_BANK'' then Inr (PER_BANK, banks c * ranks c)
            else if queue_structure c = ''PER_RANK'' then Inr (PER_RANK, ranks c) else Inl Abrupt_Exit) (\<lambda>(s, n).
     Inr \<lparr>rank_q_empty = replicate (nat (ranks c)) True, queue_struct = s, queues = replicate (nat n) [], ref_q_indices = [],
          is_in_ref = False, num_queues = n, queue_size = idx_of_int (cmd_queue_size c), queue_idx = 0, cq_clk = 0\<rparr>)"

definition GetQueueIndex :: "dram_config \<Rightarrow> QueueStructure \<Rightarrow> loc \<Rightarrow> int" where
  "GetQueueIndex c s l = (case l of (r, g, b) \<Rightarrow>
     (case s of PER_RANK \<Rightarrow> r | PER_BANK \<Rightarrow> r * banks c + g * banks_per_group c + b))"

definition GetQueue :: "dram_config \<Rightarrow> cmdq \<Rightarrow> loc \<Rightarrow> Command list result" where
  "GetQueue c q l = vec_get (queues q) (idx_of_int (GetQueueIndex c (queue_struct q) l))"

definition WillAcceptCommand :: "dram_config \<Rightarrow> cmdq \<Rightarrow> loc \<Rightarrow> bool result" where
  "WillAcceptCommand c q l = bindE (GetQueue c q l) (\<lambda>xs. Inr (length xs < queue_size q))"

definition QueueEmpty :: "cmdq \<Rightarrow> bool" where
  "QueueEmpty q \<longleftrightarrow> list_all (\<lambda>xs. xs = []) (queues q)"

definition cq_QueueUsage :: "cmdq \<Rightarrow> int" where
  "cq_QueueUsage q = fold (\<lambda>xs usage. usage + int (length xs)) (queues q) 0"

definition AddCommand :: "dram_config \<Rightarrow> Command \<Rightarrow> cmdq \<Rightarrow> (bool \<times> cmdq) result" where
  "AddCommand c cmd q =
     bindE (GetQueue c q (loc_of (addr cmd))) (\<lambda>xs.
     if length xs < queue_size q then
       let i = idx_of_int (GetQueueIndex c (queue_struct q) (loc_of (addr cmd))) in
       bindE (vec_set (rank_q_empty q) (idx_of_int (rank (addr cmd))) False) (\<lambda>e.
       Inr (True, q\<lparr>queues := (queues q)[i := xs @ [cmd]], rank_q_empty := e\<rparr>))
     else Inr (False, q))"

definition GetNextQueue :: "cmdq \<Rightarrow> cmdq" where
  "GetNextQueue q = q\<lparr>queue_idx := (if queue_idx q + 1 = num_queues q then 0 else queue_idx q + 1)\<rparr>"

section \<open>Choosing a command\<close>

definition ArbitratePrecharge :: "chan \<Rightarrow> Command list \<Rightarrow> Command \<Rightarrow> Command list \<Rightarrow> stats \<Rightarrow> (bool \<times> stats) result" where
  "ArbitratePrecharge cs prev cmd rest st =
     (let l = loc_of (addr cmd) in
      if list_ex (\<lambda>p. loc_of (addr p) = l) prev then Inr (False, st)
      else
        bindE (OpenRow cs l) (\<lambda>open.
        bindE (RowHitCount cs l) (\<lambda>hits.
        if \<not> list_ex (\<lambda>p. row (addr p) = open \<and> loc_of (addr p) = l) (cmd # rest) \<or> hits \<ge> 4
        then Inr (True, Increment num_ondemand_pres st) else Inr (False, st))))"

definition HasRWDependency :: "Command list \<Rightarrow> Command \<Rightarrow> bool" where
  "HasRWDependency prev cmd \<longleftrightarrow> list_ex (\<lambda>p. IsRead p \<and> row (addr p) = row (addr cmd) \<and> column (addr p) = column (addr cmd)
     \<and> bank (addr p) = bank (addr cmd) \<and> bankgroup (addr p) = bankgroup (addr cmd)) prev"

fun first_ready :: "dram_config \<Rightarrow> chan \<Rightarrow> u64 \<Rightarrow> Command list \<Rightarrow> Command list \<Rightarrow> stats \<Rightarrow> (Command \<times> stats) result" where
  "first_ready c cs clk prev [] st = Inr (no_command, st)"
| "first_ready c cs clk prev (x # rest) st =
     bindE (GetReadyCommand c cs x clk) (\<lambda>cmd.
     if \<not> IsValid cmd then first_ready c cs clk (prev @ [x]) rest st
     else if cmd_type cmd = CMD_PRECHARGE then
       bindE (ArbitratePrecharge cs prev x rest st) (\<lambda>(ok, st').
       if \<not> ok then first_ready c cs clk (prev @ [x]) rest st' else Inr (cmd, st'))
     else if IsWrite cmd \<and> HasRWDependency prev x then first_ready c cs clk (prev @ [x]) rest st
     else Inr (cmd, st))"

definition GetFirstReadyInQueue :: "dram_config \<Rightarrow> chan \<Rightarrow> u64 \<Rightarrow> Command list \<Rightarrow> stats \<Rightarrow> (Command \<times> stats) result" where
  "GetFirstReadyInQueue c cs clk queue = first_ready c cs clk [] queue"

definition EraseRWCommand :: "dram_config \<Rightarrow> Command \<Rightarrow> cmdq \<Rightarrow> cmdq result" where
  "EraseRWCommand c cmd q =
     bindE (GetQueue c q (loc_of (addr cmd))) (\<lambda>xs.
     let p = (\<lambda>x. hex_addr cmd = hex_addr x \<and> cmd_type cmd = cmd_type x) in
     if list_ex p xs
     then Inr (q\<lparr>queues := (queues q)[idx_of_int (GetQueueIndex c (queue_struct q) (loc_of (addr cmd))) := erase_first p xs]\<rparr>)
     else Inl Abrupt_Exit)"

text \<open>The loop of \<open>GetCommandToIssue\<close>, with the number of rounds left.\<close>

primrec scan_queues :: "dram_config \<Rightarrow> chan \<Rightarrow> nat \<Rightarrow> cmdq \<Rightarrow> stats \<Rightarrow> (Command \<times> cmdq \<times> stats) result" where
  "scan_queues c cs 0 q st = Inr (no_command, q, st)"
| "scan_queues c cs (Suc n) q st =
     (let q1 = GetNextQueue q in
      bindE (vec_get (queues q1) (idx_of_int (queue_idx q1))) (\<lambda>queue.
      if is_in_ref q1 \<and> queue_idx q1 \<in> set (ref_q_indices q1) then scan_queues c cs n q1 st
      else
        bindE (GetFirstReadyInQueue c cs (cq_clk q1) queue st) (\<lambda>(cmd, st1).
        if IsValid cmd then
          bindE (if IsReadWrite cmd then EraseRWCommand c cmd q1 else Inr q1) (\<lambda>q2. Inr (cmd, q2, st1))
        else scan_queues c cs n q1 st1)))"

definition GetCommandToIssue :: "dram_config \<Rightarrow> chan \<Rightarrow> cmdq \<Rightarrow> stats \<Rightarrow> (Command \<times> cmdq \<times> stats) result" where
  "GetCommandToIssue c cs q st = scan_queues c cs (nat (num_queues q)) q st"

text \<open>\<open>i / config_.banks\<close> is an integer division; a channel without banks would fault there.\<close>

definition GetRefQIndices :: "dram_config \<Rightarrow> Command \<Rightarrow> cmdq \<Rightarrow> cmdq result" where
  "GetRefQIndices c ref q =
     (if cmd_type ref = CMD_REFRESH then
        (case queue_struct q of
           PER_BANK \<Rightarrow>
             foldE (\<lambda>i q. bindE (c_div i (banks c)) (\<lambda>r.
                 Inr (if r = rank (addr ref) then q\<lparr>ref_q_indices := List.insert i (ref_q_indices q)\<rparr> else q)))
               [0 .. num_queues q - 1] q
         | PER_RANK \<Rightarrow> Inr (q\<lparr>ref_q_indices := List.insert (rank (addr ref)) (ref_q_indices q)\<rparr>))
      else Inr (q\<lparr>ref_q_indices := List.insert (GetQueueIndex c (queue_struct q) (loc_of (addr ref))) (ref_q_indices q)\<rparr>))"

definition FinishRefresh :: "dram_config \<Rightarrow> chan \<Rightarrow> cmdq \<Rightarrow> (Command \<times> cmdq) result" where
  "FinishRefresh c cs q =
     bindE (q_front (refresh_q cs)) (\<lambda>ref.
     bindE (if \<not> is_in_ref q then bindE (GetRefQIndices c ref q) (\<lambda>q'. Inr (q'\<lparr>is_in_ref := True\<rparr>)) else Inr q) (\<lambda>q1.
     bindE (GetReadyCommand c cs ref (cq_clk q1)) (\<lambda>cmd.
     Inr (cmd, if IsRefresh cmd then q1\<lparr>ref_q_indices := [], is_in_ref := False\<rparr> else q1))))"

definition cq_ClockTick :: "cmdq \<Rightarrow> cmdq" where
  "cq_ClockTick q = q\<lparr>cq_clk := cq_clk q + 1\<rparr>"

section \<open>Well-formed queues\<close>

definition queue_count :: "dram_config \<Rightarrow> QueueStructure \<Rightarrow> int" where
  "queue_count c s = (case s of PER_RANK \<Rightarrow> ranks c | PER_BANK \<Rightarrow> banks c * ranks c)"

text \<open>A column command that belongs into queue \<open>i\<close>.\<close>

definition queued_ok :: "dram_config \<Rightarrow> QueueStructure \<Rightarrow> nat \<Rightarrow> Command \<Rightarrow> bool" where
  "queued_ok c s i cmd \<longleftrightarrow> IsReadWrite cmd \<and> AddressMapping c (hex_addr cmd) = Inr (addr cmd)
     \<and> idx_of_int (GetQueueIndex c s (loc_of (addr cmd))) = i"

definition cq_ok :: "dram_config \<Rightarrow> cmdq \<Rightarrow> bool" where
  "cq_ok c q \<longleftrightarrow> length (rank_q_empty q) = nat (ranks c) \<and> num_queues q = queue_count c (queue_struct q)
     \<and> length (queues q) = nat (num_queues q) \<and> 0 \<le> queue_idx q \<and> queue_idx q < num_queues q
     \<and> (\<forall>i < length (queues q). \<forall>cmd \<in> set (queues q ! i). queued_ok c (queue_struct q) i cmd)"

definition geo_fits :: "dram_config \<Rightarrow> bool" where
  "geo_fits c \<longleftrightarrow> geo_ok c \<and> map_ok c \<and> banks c * ranks c < 2 ^ 31"

lemma queue_count_pos: "geo_fits c \<Longrightarrow> 0 < queue_count c s" "geo_fits c \<Longrightarrow> queue_count c s < 2 ^ 31"
  by (auto simp: geo_fits_def geo_ok_def queue_count_def split: QueueStructure.split)

lemma GetQueueIndex_in:
  assumes "geo_fits c" and "loc_in c l"
  shows "0 \<le> GetQueueIndex c s l" and "GetQueueIndex c s l < queue_count c s"
proof -
  obtain r g b where l: "l = (r, g, b)" by (cases l)
  have p: "0 \<le> r" "r < ranks c" "0 \<le> g" "g < bankgroups c" "0 \<le> b" "b < banks_per_group c"
    using assms(2) by (auto simp: l loc_in_def)
  have bk: "banks c = bankgroups c * banks_per_group c" and "0 < bankgroups c" "0 < banks_per_group c"
    using assms(1) by (simp_all add: geo_fits_def geo_ok_def)
  then have pos: "0 \<le> banks c" by simp
  show "0 \<le> GetQueueIndex c s l" using p pos by (auto simp: GetQueueIndex_def l split: QueueStructure.split)
  have "g * banks_per_group c + b < (g + 1) * banks_per_group c" using p by (simp add: algebra_simps)
  also have "\<dots> \<le> banks c" unfolding bk using p by (intro mult_right_mono) simp_all
  finally have "r * banks c + g * banks_per_group c + b < (r + 1) * banks c" by (simp add: algebra_simps)
  also have "\<dots> \<le> ranks c * banks c" using p pos by (intro mult_right_mono) simp_all
  finally show "GetQueueIndex c s l < queue_count c s"
    using p by (auto simp: GetQueueIndex_def l queue_count_def ac_simps split: QueueStructure.split)
qed

lemma queue_at:
  assumes "geo_fits c" and "cq_ok c q" and "loc_in c l"
  shows "idx_of_int (GetQueueIndex c (queue_struct q) l) < length (queues q)"
    and "GetQueue c q l = Inr (queues q ! idx_of_int (GetQueueIndex c (queue_struct q) l))"
proof -
  note i = GetQueueIndex_in [OF assms(1,3), of "queue_struct q"]
  have "idx_of_int (GetQueueIndex c (queue_struct q) l) = nat (GetQueueIndex c (queue_struct q) l)"
    using i queue_count_pos [OF assms(1), of "queue_struct q"] by simp
  then show "idx_of_int (GetQueueIndex c (queue_struct q) l) < length (queues q)"
    using i assms(2) by (simp add: cq_ok_def)
  then show "GetQueue c q l = Inr (queues q ! idx_of_int (GetQueueIndex c (queue_struct q) l))" by (simp add: GetQueue_def)
qed

lemma mapped_in: "map_ok c \<Longrightarrow> AddressMapping c h = Inr a \<Longrightarrow> loc_in c (loc_of a)"
  using AddressMapping_in [of c h] by (auto simp: addr_in_def loc_in_def loc_of_def)

lemma queued_asked: "geo_fits c \<Longrightarrow> queued_ok c s i cmd \<Longrightarrow> asked c cmd \<and> loc_in c (loc_of (addr cmd))"
  using mapped_in [of c "hex_addr cmd" "addr cmd"]
  by (auto simp: queued_ok_def geo_fits_def asked_def asks_def target_in_def command_kinds)

lemma queued_same:
  "queued_ok c s i x \<Longrightarrow> queued_ok c s j y \<Longrightarrow> hex_addr x = hex_addr y \<Longrightarrow> cmd_type x = cmd_type y \<Longrightarrow> x = y"
  by (simp add: queued_ok_def)

lemma mset_concat_update:
  "i < length xs \<Longrightarrow> mset (concat (xs[i := ys])) + mset (xs ! i) = mset (concat xs) + mset ys"
proof (induction xs arbitrary: i)
  case (Cons x xs)
  show ?case
  proof (cases i)
    case (Suc j)
    then have "mset (concat (xs[j := ys])) + mset (xs ! j) = mset (concat xs) + mset ys" using Cons by simp
    then show ?thesis using Suc by (simp add: add.assoc)
  qed simp
qed simp

lemma CommandQueue_new_ok:
  assumes "geo_fits c" and "queue_structure c = ''PER_BANK'' \<or> queue_structure c = ''PER_RANK''"
  shows "\<exists>q. CommandQueue_new c = Inr q \<and> cq_ok c q \<and> cq_clk q = 0 \<and> concat (queues q) = []"
proof -
  have "0 < queue_count c PER_RANK" "0 < queue_count c PER_BANK" using queue_count_pos [OF assms(1)] by blast+
  then show ?thesis using assms(2) by (auto simp: CommandQueue_new_def cq_ok_def queue_count_def)
qed

lemma AddCommand_ok:
  assumes "geo_fits c" and "cq_ok c q" and "IsReadWrite cmd" and "AddressMapping c (hex_addr cmd) = Inr (addr cmd)"
    and "WillAcceptCommand c q (loc_of (addr cmd)) = Inr True"
  shows "\<exists>q'. AddCommand c cmd q = Inr (True, q') \<and> cq_ok c q' \<and> cq_clk q' = cq_clk q
    \<and> mset (concat (queues q')) = add_mset cmd (mset (concat (queues q)))"
proof -
  have l: "loc_in c (loc_of (addr cmd))" using mapped_in [OF _ assms(4)] assms(1) by (simp add: geo_fits_def)
  let ?i = "idx_of_int (GetQueueIndex c (queue_struct q) (loc_of (addr cmd)))"
  note at = queue_at [OF assms(1,2) l]
  have len: "length (queues q ! ?i) < queue_size q" using assms(5) at by (simp add: WillAcceptCommand_def)
  have g: "geo_ok c" using assms(1) by (simp add: geo_fits_def)
  have r: "idx_of_int (rank (addr cmd)) < length (rank_q_empty q)"
    using rank_idx [OF g, of "rank (addr cmd)"] l assms(2) by (simp add: loc_in_def loc_of_def cq_ok_def)
  let ?q = "q\<lparr>queues := (queues q)[?i := queues q ! ?i @ [cmd]], rank_q_empty := (rank_q_empty q)[idx_of_int (rank (addr cmd)) := False]\<rparr>"
  have "AddCommand c cmd q = Inr (True, ?q)" using at len r by (simp add: AddCommand_def Let_def)
  moreover have "cq_ok c ?q" using assms(2-4) at(1)
    by (auto simp: cq_ok_def nth_list_update queued_ok_def)
  moreover have "mset (concat (queues ?q)) = add_mset cmd (mset (concat (queues q)))"
    using mset_concat_update [OF at(1), of "queues q ! ?i @ [cmd]"] by simp
  ultimately show ?thesis by simp
qed

lemma mset_erase_first: "list_ex p xs \<Longrightarrow> \<exists>x \<in> set xs. p x \<and> add_mset x (mset (erase_first p xs)) = mset xs"
  by (induction xs) (auto simp: add_mset_commute)

lemma set_erase_first: "x \<in> set (erase_first p xs) \<Longrightarrow> x \<in> set xs"
  by (induction xs) (auto split: if_splits)

lemma EraseRWCommand_ok:
  assumes "geo_fits c" and "cq_ok c q" and "i < length (queues q)" and "cmd \<in> set (queues q ! i)"
  shows "\<exists>q'. EraseRWCommand c cmd q = Inr q' \<and> cq_ok c q' \<and> cq_clk q' = cq_clk q
    \<and> mset (concat (queues q)) = add_mset cmd (mset (concat (queues q')))"
proof -
  have k: "queued_ok c (queue_struct q) i cmd" using assms(2-4) by (simp add: cq_ok_def)
  have l: "loc_in c (loc_of (addr cmd))" using queued_asked [OF assms(1) k] by simp
  have i: "idx_of_int (GetQueueIndex c (queue_struct q) (loc_of (addr cmd))) = i" using k by (simp add: queued_ok_def)
  note at = queue_at [OF assms(1,2) l, unfolded i]
  let ?p = "\<lambda>x. hex_addr cmd = hex_addr x \<and> cmd_type cmd = cmd_type x"
  have ex: "list_ex ?p (queues q ! i)" using assms(4) by (auto simp: list_ex_iff)
  then obtain x where x: "x \<in> set (queues q ! i)" "?p x" "add_mset x (mset (erase_first ?p (queues q ! i))) = mset (queues q ! i)"
    using mset_erase_first by blast
  have "queued_ok c (queue_struct q) i x" using assms(2,3) x(1) by (simp add: cq_ok_def)
  then have "x = cmd" using queued_same [OF _ k] x(2) by metis
  then have m: "add_mset cmd (mset (erase_first ?p (queues q ! i))) = mset (queues q ! i)" using x(3) by simp
  let ?q = "q\<lparr>queues := (queues q)[i := erase_first ?p (queues q ! i)]\<rparr>"
  have eq: "EraseRWCommand c cmd q = Inr ?q" using at ex by (simp add: EraseRWCommand_def i Let_def)
  have ok: "cq_ok c ?q" using assms(2,3) by (auto simp: cq_ok_def nth_list_update dest: set_erase_first)
  have "mset (concat (queues ?q)) + mset (queues q ! i) = mset (concat (queues q)) + mset (erase_first ?p (queues q ! i))"
    using mset_concat_update [OF assms(3)] by simp
  then have "add_mset cmd (mset (concat (queues ?q))) = mset (concat (queues q))" unfolding m [symmetric] by simp
  then show ?thesis using eq ok by (intro exI [of _ ?q]) simp
qed

lemma ArbitratePrecharge_ok:
  assumes "ch_shape c cs" and "loc_in c (loc_of (addr cmd))" and "stats_ok n st"
  shows "\<exists>ok st'. ArbitratePrecharge cs prev cmd rest st = Inr (ok, st') \<and> stats_ok n st'"
  using assms chan_bank_in [OF assms(1,2)] by (auto simp: ArbitratePrecharge_def Let_def OpenRow_def RowHitCount_def)

lemma first_ready_ok:
  assumes "ch_shape c cs" and "all_awake c cs" and "\<forall>x \<in> set xs. asked c x \<and> loc_in c (loc_of (addr x))" and "stats_ok n st"
  shows "\<exists>cmd st'. first_ready c cs clk prev xs st = Inr (cmd, st') \<and> stats_ok n st'
    \<and> (IsValid cmd \<longrightarrow> (\<exists>req \<in> set xs. GetReadyCommand c cs req clk = Inr cmd))"
  using assms(3,4)
proof (induction xs arbitrary: prev st)
  case (Cons x xs)
  have a: "asked c x" "loc_in c (loc_of (addr x))" using Cons.prems(1) by auto
  obtain cmd where r: "GetReadyCommand c cs x clk = Inr cmd" using GetReadyCommand_sound [OF assms(1,2) a(1)] by blast
  obtain ok st' where p: "ArbitratePrecharge cs prev x xs st = Inr (ok, st')" "stats_ok n st'"
    using ArbitratePrecharge_ok [OF assms(1) a(2) Cons.prems(2)] by blast
  note ih = Cons.IH [of _ "prev @ [x]"]
  show ?case using Cons.prems r p ih [of st] ih [of st'] by auto
qed simp

lemma GetNextQueue_ok: "cq_ok c q \<Longrightarrow> cq_ok c (GetNextQueue q)"
  by (auto simp: cq_ok_def GetNextQueue_def)

lemma GetNextQueue_frame [simp]:
  "queues (GetNextQueue q) = queues q" "cq_clk (GetNextQueue q) = cq_clk q" "queue_struct (GetNextQueue q) = queue_struct q"
  "num_queues (GetNextQueue q) = num_queues q"
  by (simp_all add: GetNextQueue_def)

text \<open>What a proposal tells: nothing, or a command that a queued one needs next; a column command has
  left the queues, any other has not.\<close>

definition taken :: "dram_config \<Rightarrow> chan \<Rightarrow> cmdq \<Rightarrow> Command \<Rightarrow> cmdq \<Rightarrow> bool" where
  "taken c cs q cmd q' \<longleftrightarrow> cq_ok c q' \<and> cq_clk q' = cq_clk q
     \<and> (IsValid cmd \<longrightarrow> (\<exists>req. asked c req \<and> IsReadWrite req \<and> GetReadyCommand c cs req (cq_clk q) = Inr cmd))
     \<and> mset (concat (queues q)) = (if IsReadWrite cmd then {#cmd#} else {#}) + mset (concat (queues q'))"

lemma scan_queues_ok:
  assumes "geo_fits c" and "ch_shape c cs" and "all_awake c cs" and "cq_ok c q" and "stats_ok n st"
  shows "\<exists>cmd q' st'. scan_queues c cs k q st = Inr (cmd, q', st') \<and> stats_ok n st' \<and> taken c cs q cmd q'"
  using assms(4,5)
proof (induction k arbitrary: q st)
  case 0
  then show ?case by (simp add: taken_def command_kinds no_command_def)
next
  case (Suc k)
  let ?q = "GetNextQueue q" and ?i = "nat (queue_idx (GetNextQueue q))"
  have ok: "cq_ok c ?q" by (rule GetNextQueue_ok [OF Suc.prems(1)])
  have ix: "idx_of_int (queue_idx ?q) = ?i" "?i < length (queues q)"
    using ok queue_count_pos(2) [OF assms(1), of "queue_struct q"] by (auto simp: cq_ok_def)
  have next_q: "taken c cs ?q cmd q' \<Longrightarrow> taken c cs q cmd q'" for cmd q' by (simp add: taken_def)
  have el: "\<forall>x \<in> set (queues q ! ?i). queued_ok c (queue_struct q) ?i x" using ok ix by (simp add: cq_ok_def)
  then have ak: "\<forall>x \<in> set (queues q ! ?i). asked c x \<and> loc_in c (loc_of (addr x))" using queued_asked [OF assms(1)] by blast
  obtain cmd st1 where f: "GetFirstReadyInQueue c cs (cq_clk q) (queues q ! ?i) st = Inr (cmd, st1)" "stats_ok n st1"
    "IsValid cmd \<longrightarrow> (\<exists>req \<in> set (queues q ! ?i). GetReadyCommand c cs req (cq_clk q) = Inr cmd)"
    unfolding GetFirstReadyInQueue_def using first_ready_ok [OF assms(2,3) ak Suc.prems(2), of "cq_clk q" "[]"] by blast
  consider "is_in_ref ?q \<and> queue_idx ?q \<in> set (ref_q_indices ?q)" | "\<not> (is_in_ref ?q \<and> queue_idx ?q \<in> set (ref_q_indices ?q))" "\<not> IsValid cmd"
    | "\<not> (is_in_ref ?q \<and> queue_idx ?q \<in> set (ref_q_indices ?q))" "IsValid cmd" by blast
  then show ?case
  proof cases
    case 1
    from Suc.IH [OF ok Suc.prems(2)] 1 ix next_q show ?thesis by (fastforce simp: Let_def)
  next
    case 2
    from Suc.IH [OF ok f(2)] 2 ix f(1) next_q show ?thesis by (fastforce simp: Let_def)
  next
    case 3
    then obtain req where req: "req \<in> set (queues q ! ?i)" "GetReadyCommand c cs req (cq_clk q) = Inr cmd" using f(3) by blast
    have rw: "IsReadWrite req" "asked c req" using el ak req(1) by (auto simp: queued_ok_def)
    have same: "IsReadWrite cmd \<Longrightarrow> cmd = req" by (rule proposed_ready(2) [OF assms(2,3) rw(2) req(2) 3(2)])
    show ?thesis
    proof (cases "IsReadWrite cmd")
      case True
      then have in_q: "cmd \<in> set (queues ?q ! ?i)" using same req(1) by simp
      from EraseRWCommand_ok [OF assms(1) ok _ in_q] ix obtain q2 where
        "EraseRWCommand c cmd ?q = Inr q2" "cq_ok c q2" "cq_clk q2 = cq_clk q" "mset (concat (queues q)) = add_mset cmd (mset (concat (queues q2)))"
        by auto
      then show ?thesis using 3 True ix f req rw by (auto simp: Let_def taken_def)
    next
      case False
      then show ?thesis using 3 ix f req rw ok by (auto simp: Let_def taken_def)
    qed
  qed
qed

lemma GetRefQIndices_ok:
  assumes "geo_fits c"
  shows "\<exists>is. GetRefQIndices c ref q = Inr (q\<lparr>ref_q_indices := is\<rparr>)"
proof -
  have b: "banks c \<noteq> 0" using assms by (auto simp: geo_fits_def geo_ok_def)
  let ?f = "\<lambda>i q. bindE (c_div i (banks c)) (\<lambda>r. Inr (if r = rank (addr ref) then q\<lparr>ref_q_indices := List.insert i (ref_q_indices q)\<rparr> else q))"
  have "\<exists>t. foldE ?f xs q = Inr t \<and> (\<exists>is. t = q\<lparr>ref_q_indices := is\<rparr>)" for xs
    by (rule foldE_total) (use b in \<open>auto simp: c_div_def intro: exI [of _ "ref_q_indices q"]\<close>)
  then show ?thesis by (auto simp: GetRefQIndices_def split: QueueStructure.split)
qed

lemma FinishRefresh_ok:
  assumes "geo_fits c" and "ch_shape c cs" and "all_awake c cs" and "cq_ok c q"
    and "refresh_q cs \<noteq> []" and "\<forall>x \<in> set (refresh_q cs). IsRefresh x \<and> target_in c x"
  shows "\<exists>cmd q' req. FinishRefresh c cs q = Inr (cmd, q') \<and> cq_ok c q' \<and> cq_clk q' = cq_clk q \<and> queues q' = queues q
    \<and> asked c req \<and> IsRefresh req \<and> GetReadyCommand c cs req (cq_clk q) = Inr cmd"
proof -
  obtain ref q0 where ref: "refresh_q cs = ref # q0" "IsRefresh ref" "target_in c ref" using assms(5,6) by (cases "refresh_q cs") auto
  have ak: "asked c ref" using ref by (simp add: asked_def asks_def)
  obtain cmd where cmd: "GetReadyCommand c cs ref (cq_clk q) = Inr cmd" using GetReadyCommand_sound [OF assms(2,3) ak] by blast
  obtain "is" where "is": "GetRefQIndices c ref q = Inr (q\<lparr>ref_q_indices := is\<rparr>)" using GetRefQIndices_ok [OF assms(1)] by blast
  have frame: "cq_ok c (q\<lparr>ref_q_indices := a, is_in_ref := b\<rparr>)" "cq_ok c (q\<lparr>is_in_ref := b, ref_q_indices := a\<rparr>)" for a b
    using assms(4) by (simp_all add: cq_ok_def)
  show ?thesis using ref ak cmd "is" assms(4) frame by (auto simp: FinishRefresh_def)
qed

end
