(* ===== verification/Dram_Refresh.thy ===== *)
theory Dram_Refresh
  imports Channel_State
begin

text \<open>
  \<open>DRAMsim3/src/refresh.cc\<close>: the timer that queues refreshes.  Every \<open>refresh_interval_\<close> cycles it asks
  for the next rank or bank.  The lemmas show that it only ever asks for places that exist, and that
  the bank by bank policy goes round all banks of all ranks before it repeats one.
\<close>

record refresher =
  rf_clk :: u64
  refresh_interval :: int
  next_rank :: int
  next_bg :: int
  next_bank :: int

definition Refresh_new :: "dram_config \<Rightarrow> refresher result" where
  "Refresh_new c =
     bindE (case refresh_policy c of
         RANK_LEVEL_SIMULTANEOUS \<Rightarrow> Inr (tREFI c)
       | BANK_LEVEL_STAGGERED \<Rightarrow> Inr (tREFIb c)
       | RANK_LEVEL_STAGGERED \<Rightarrow> c_div (tREFI c) (ranks c)) (\<lambda>n.
     Inr \<lparr>rf_clk = 0, refresh_interval = n, next_rank = 0, next_bg = 0, next_bank = 0\<rparr>)"

definition IterateNext :: "dram_config \<Rightarrow> refresher \<Rightarrow> refresher result" where
  "IterateNext c rf = (case refresh_policy c of
       RANK_LEVEL_STAGGERED \<Rightarrow> bindE (c_rem (next_rank rf + 1) (ranks c)) (\<lambda>r. Inr (rf\<lparr>next_rank := r\<rparr>))
     | BANK_LEVEL_STAGGERED \<Rightarrow>
         bindE (c_rem (next_bg rf + 1) (bankgroups c)) (\<lambda>g.
         if g = 0 then
           bindE (c_rem (next_bank rf + 1) (banks_per_group c)) (\<lambda>b.
           if b = 0 then bindE (c_rem (next_rank rf + 1) (ranks c)) (\<lambda>r. Inr (rf\<lparr>next_bg := g, next_bank := b, next_rank := r\<rparr>))
           else Inr (rf\<lparr>next_bg := g, next_bank := b\<rparr>))
         else Inr (rf\<lparr>next_bg := g\<rparr>))
     | RANK_LEVEL_SIMULTANEOUS \<Rightarrow> Inl Abrupt_Exit)"

text \<open>The loop of the simultaneous policy stops at the first rank that is not in self refresh.\<close>

fun refresh_first_rank :: "int list \<Rightarrow> chan \<Rightarrow> chan result" where
  "refresh_first_rank [] cs = Inr cs"
| "refresh_first_rank (i # is) cs =
     bindE (IsRankSelfRefreshing cs i) (\<lambda>s. if \<not> s then Inr (RankNeedRefresh i True cs) else refresh_first_rank is cs)"

definition InsertRefresh :: "dram_config \<Rightarrow> refresher \<times> chan \<Rightarrow> (refresher \<times> chan) result" where
  "InsertRefresh c p = (case p of (rf, cs) \<Rightarrow> (case refresh_policy c of
       RANK_LEVEL_SIMULTANEOUS \<Rightarrow> bindE (refresh_first_rank [0 .. ranks c - 1] cs) (\<lambda>cs'. Inr (rf, cs'))
     | RANK_LEVEL_STAGGERED \<Rightarrow>
         bindE (IsRankSelfRefreshing cs (next_rank rf)) (\<lambda>s.
         let cs' = (if \<not> s then RankNeedRefresh (next_rank rf) True cs else cs) in
         bindE (IterateNext c rf) (\<lambda>rf'. Inr (rf', cs')))
     | BANK_LEVEL_STAGGERED \<Rightarrow>
         bindE (IsRankSelfRefreshing cs (next_rank rf)) (\<lambda>s.
         let cs' = (if \<not> s then BankNeedRefresh (next_rank rf) (next_bg rf) (next_bank rf) True cs else cs) in
         bindE (IterateNext c rf) (\<lambda>rf'. Inr (rf', cs')))))"

definition Refresh_ClockTick :: "dram_config \<Rightarrow> refresher \<times> chan \<Rightarrow> (refresher \<times> chan) result" where
  "Refresh_ClockTick c p = (case p of (rf, cs) \<Rightarrow>
     bindE (checkE (u64_of_int (refresh_interval rf) \<noteq> 0) UB_Division) (\<lambda>_.
     bindE (if rf_clk rf mod u64_of_int (refresh_interval rf) = 0 \<and> rf_clk rf > 0 then InsertRefresh c (rf, cs) else Inr (rf, cs))
       (\<lambda>(rf', cs'). Inr (rf'\<lparr>rf_clk := rf_clk rf' + 1\<rparr>, cs'))))"

section \<open>Only places that exist\<close>

definition rf_ok :: "dram_config \<Rightarrow> refresher \<Rightarrow> bool" where
  "rf_ok c rf \<longleftrightarrow> u64_of_int (refresh_interval rf) \<noteq> 0 \<and> loc_in c (next_rank rf, next_bg rf, next_bank rf)"

definition refreshes_ok :: "dram_config \<Rightarrow> chan \<Rightarrow> bool" where
  "refreshes_ok c cs \<longleftrightarrow> (\<forall>x \<in> set (refresh_q cs). IsRefresh x \<and> target_in c x)"

text \<open>Two channels that differ in their pending refreshes at most.\<close>

definition same_banks :: "chan \<Rightarrow> chan \<Rightarrow> bool" where
  "same_banks cs cs' \<longleftrightarrow> (\<exists>q. cs' = cs\<lparr>refresh_q := q\<rparr>)"

lemma same_banks_need [simp]:
  "same_banks cs (RankNeedRefresh r n cs)" "same_banks cs (BankNeedRefresh r g b n cs)" "same_banks cs cs"
  by (auto simp: same_banks_def RankNeedRefresh_def BankNeedRefresh_def intro: exI [of _ "refresh_q cs"])

lemma refreshes_ok_rank: "refreshes_ok c cs \<Longrightarrow> 0 \<le> r \<Longrightarrow> r < ranks c \<Longrightarrow> refreshes_ok c (RankNeedRefresh r True cs)"
  by (auto simp: refreshes_ok_def RankNeedRefresh_def target_in_def command_kinds)

lemma refreshes_ok_bank: "refreshes_ok c cs \<Longrightarrow> loc_in c (r, g, b) \<Longrightarrow> refreshes_ok c (BankNeedRefresh r g b True cs)"
  by (auto simp: refreshes_ok_def BankNeedRefresh_def target_in_def command_kinds loc_of_def)

lemma erase_first_subset: "x \<in> set (erase_first p xs) \<Longrightarrow> x \<in> set xs"
  by (induction xs) (auto split: if_splits)

lemma refreshes_left_subset: "set (refreshes_left cmd q) \<subseteq> set q"
  by (auto simp: refreshes_left_def dest: erase_first_subset)

text \<open>The place after \<open>(r, g, b)\<close> in the order of the bank by bank policy.\<close>

definition next_place :: "dram_config \<Rightarrow> loc \<Rightarrow> loc" where
  "next_place c l = (case l of (r, g, b) \<Rightarrow>
     let g' = (g + 1) mod bankgroups c; b' = (if g' = 0 then (b + 1) mod banks_per_group c else b) in
     (if g' = 0 \<and> b' = 0 then (r + 1) mod ranks c else r, g', b'))"

definition place :: "refresher \<Rightarrow> loc" where
  "place rf = (next_rank rf, next_bg rf, next_bank rf)"

lemma IterateNext_bank:
  assumes "geo_ok c" and "refresh_policy c = BANK_LEVEL_STAGGERED" and "loc_in c (place rf)"
  shows "\<exists>rf'. IterateNext c rf = Inr rf' \<and> place rf' = next_place c (place rf)
    \<and> refresh_interval rf' = refresh_interval rf \<and> rf_clk rf' = rf_clk rf"
  using assms by (auto simp: IterateNext_def place_def next_place_def Let_def loc_in_def geo_ok_def c_rem_nonneg)

lemma next_place_in: "geo_ok c \<Longrightarrow> loc_in c l \<Longrightarrow> loc_in c (next_place c l)"
  by (auto simp: next_place_def loc_in_def geo_ok_def Let_def split: prod.split)

lemma IterateNext_ok:
  assumes "geo_ok c" and "rf_ok c rf" and "refresh_policy c \<noteq> RANK_LEVEL_SIMULTANEOUS"
  shows "\<exists>rf'. IterateNext c rf = Inr rf' \<and> rf_ok c rf' \<and> rf_clk rf' = rf_clk rf"
proof (cases "refresh_policy c")
  case BANK_LEVEL_STAGGERED
  have l: "loc_in c (place rf)" using assms(2) by (simp add: rf_ok_def place_def)
  from IterateNext_bank [OF assms(1) BANK_LEVEL_STAGGERED l] next_place_in [OF assms(1) l] assms(2) show ?thesis
    by (fastforce simp: rf_ok_def place_def)
next
  case RANK_LEVEL_STAGGERED
  then show ?thesis using assms by (auto simp: IterateNext_def rf_ok_def loc_in_def geo_ok_def c_rem_nonneg)
qed (use assms(3) in simp)

lemma refresh_first_rank_ok:
  assumes "ch_shape c cs" and "refreshes_ok c cs" and "\<forall>i \<in> set is. 0 \<le> i \<and> i < ranks c"
  shows "\<exists>cs'. refresh_first_rank is cs = Inr cs' \<and> same_banks cs cs' \<and> refreshes_ok c cs'"
  using assms(3)
proof (induction "is")
  case Nil
  then show ?case using assms(2) by auto
next
  case (Cons i "is")
  have g: "geo_ok c" and l: "length (rank_is_sref cs) = nat (ranks c)" using assms(1) by (simp_all add: ch_shape_def)
  have "idx_of_int i < length (rank_is_sref cs)" using rank_idx [OF g, of i] Cons.prems l by simp
  then show ?case using Cons refreshes_ok_rank [OF assms(2), of i] by (auto simp: IsRankSelfRefreshing_def)
qed

lemma InsertRefresh_ok:
  assumes "ch_shape c cs" and "refreshes_ok c cs" and "rf_ok c rf"
  shows "\<exists>rf' cs'. InsertRefresh c (rf, cs) = Inr (rf', cs') \<and> same_banks cs cs' \<and> refreshes_ok c cs' \<and> rf_ok c rf'
    \<and> rf_clk rf' = rf_clk rf"
proof (cases "refresh_policy c = RANK_LEVEL_SIMULTANEOUS")
  case True
  have "\<forall>i \<in> set [0 .. ranks c - 1]. 0 \<le> i \<and> i < ranks c" by simp
  from refresh_first_rank_ok [OF assms(1,2) this] True assms(3) show ?thesis by (auto simp: InsertRefresh_def)
next
  case False
  have g: "geo_ok c" and l: "length (rank_is_sref cs) = nat (ranks c)" using assms(1) by (simp_all add: ch_shape_def)
  have r: "loc_in c (next_rank rf, next_bg rf, next_bank rf)" using assms(3) by (simp add: rf_ok_def)
  then have r2: "0 \<le> next_rank rf" "next_rank rf < ranks c" by (simp_all add: loc_in_def)
  have "idx_of_int (next_rank rf) < length (rank_is_sref cs)" using rank_idx [OF g r2] l by simp
  then show ?thesis using False IterateNext_ok [OF g assms(3) False] refreshes_ok_rank [OF assms(2) r2] refreshes_ok_bank [OF assms(2) r] assms(2)
    by (cases "refresh_policy c") (auto simp: InsertRefresh_def IsRankSelfRefreshing_def Let_def)
qed

lemma Refresh_ClockTick_ok:
  assumes "ch_shape c cs" and "refreshes_ok c cs" and "rf_ok c rf"
  shows "\<exists>rf' cs'. Refresh_ClockTick c (rf, cs) = Inr (rf', cs') \<and> same_banks cs cs' \<and> refreshes_ok c cs' \<and> rf_ok c rf'"
  using InsertRefresh_ok [OF assms] assms(2,3) by (auto simp: Refresh_ClockTick_def rf_ok_def)

section \<open>The bank by bank policy misses nothing\<close>

text \<open>The number of a place in the order of the policy.\<close>

definition place_number :: "dram_config \<Rightarrow> loc \<Rightarrow> int" where
  "place_number c l = (case l of (r, g, b) \<Rightarrow> (r * banks_per_group c + b) * bankgroups c + g)"

lemma place_number_in:
  assumes "geo_ok c" and "loc_in c l"
  shows "0 \<le> place_number c l" and "place_number c l < ranks c * banks c"
    and "place_number c l mod bankgroups c = fst (snd l)"
    and "place_number c l div bankgroups c mod banks_per_group c = snd (snd l)"
    and "place_number c l div bankgroups c div banks_per_group c = fst l"
proof -
  obtain r g b where l: "l = (r, g, b)" by (cases l)
  have p: "0 \<le> r" "r < ranks c" "0 \<le> g" "g < bankgroups c" "0 \<le> b" "b < banks_per_group c"
    using assms(2) by (auto simp: l loc_in_def)
  have n: "place_number c l = (r * banks_per_group c + b) * bankgroups c + g" by (simp add: l place_number_def)
  show "0 \<le> place_number c l" unfolding n using p by simp
  have "r * banks_per_group c + b < ranks c * banks_per_group c"
  proof -
    have "r * banks_per_group c + b < (r + 1) * banks_per_group c" using p by (simp add: algebra_simps)
    also have "\<dots> \<le> ranks c * banks_per_group c" using p by (intro mult_right_mono) simp_all
    finally show ?thesis .
  qed
  then have "(r * banks_per_group c + b + 1) * bankgroups c \<le> ranks c * banks_per_group c * bankgroups c"
    using p by (intro mult_right_mono) simp_all
  then show "place_number c l < ranks c * banks c" unfolding n using p assms(1) by (simp add: geo_ok_def algebra_simps)
  have d: "place_number c l div bankgroups c = r * banks_per_group c + b" unfolding n using p by simp
  show "place_number c l mod bankgroups c = fst (snd l)" unfolding n using p by (simp add: l)
  show "place_number c l div bankgroups c mod banks_per_group c = snd (snd l)" unfolding d using p by (simp add: l)
  show "place_number c l div bankgroups c div banks_per_group c = fst l" unfolding d using p by (simp add: l)
qed

lemma next_place_number:
  assumes "geo_ok c" and "loc_in c l"
  shows "place_number c (next_place c l) = (place_number c l + 1) mod (ranks c * banks c)"
proof -
  obtain r g b where l: "l = (r, g, b)" by (cases l)
  have p: "0 \<le> r" "r < ranks c" "0 \<le> g" "g < bankgroups c" "0 \<le> b" "b < banks_per_group c"
    using assms(2) by (auto simp: l loc_in_def)
  have bk: "banks c = bankgroups c * banks_per_group c" using assms(1) by (simp add: geo_ok_def)
  note fit = place_number_in(1,2) [OF assms(1) next_place_in [OF assms]]
  consider "g + 1 < bankgroups c" | "g + 1 = bankgroups c" "b + 1 < banks_per_group c"
    | "g + 1 = bankgroups c" "b + 1 = banks_per_group c" "r + 1 < ranks c"
    | "g + 1 = bankgroups c" "b + 1 = banks_per_group c" "r + 1 = ranks c" using p by linarith
  then show ?thesis
  proof cases
    case 1
    then have "place_number c (next_place c l) = place_number c l + 1"
      using p by (simp add: l next_place_def place_number_def Let_def)
    then show ?thesis using fit by simp
  next
    case 2
    then have "place_number c (next_place c l) = place_number c l + 1"
      using p by (simp add: l next_place_def place_number_def Let_def 2(1) [symmetric] algebra_simps)
    then show ?thesis using fit by simp
  next
    case 3
    then have "place_number c (next_place c l) = place_number c l + 1"
      using p by (simp add: l next_place_def place_number_def Let_def 3(1,2) [symmetric] algebra_simps)
    then show ?thesis using fit by simp
  next
    case 4
    have "place_number c l + 1 = ranks c * banks c"
      unfolding bk 4 [symmetric] using p by (simp add: l place_number_def 4 [symmetric] algebra_simps)
    moreover have "place_number c (next_place c l) = 0"
      using 4 p by (simp add: l next_place_def place_number_def Let_def)
    ultimately show ?thesis by simp
  qed
qed

end
