(* ===== verification/Dram_Controller.thy ===== *)
theory Dram_Controller
  imports Command_Queue Dram_Refresh
begin

text \<open>
  \<open>DRAMsim3/src/controller.cc\<close>: the controller of one channel.  Transactions wait in the read queue and
  the write buffer (or one unified queue), are turned into column commands and move into the command
  queues, and are answered from the return queue.  The \<open>std::multimap\<close>s of pending transactions are
  association lists in insertion order; only the order of equal keys matters, and a multimap keeps it.
  \<open>capacity()\<close> of a vector is what \<open>reserve\<close> asked for.  \<open>cmd_trace\<close> is the command trace of a
  \<open>CMD_TRACE\<close> build.
\<close>

datatype RowBufPolicy = OPEN_PAGE | CLOSE_PAGE

record controller =
  ctl_clk :: u64
  simple_stats :: stats
  channel_state :: chan
  cmd_queue :: cmdq
  refresh :: refresher
  is_unified_queue :: bool
  unified_q :: "Transaction list"
  read_queue :: "Transaction list"
  write_buffer :: "Transaction list"
  pending_rd_q :: "(u64 \<times> Transaction) list"
  pending_wr_q :: "(u64 \<times> Transaction) list"
  return_queue :: "Transaction list"
  row_policy :: RowBufPolicy
  cmd_trace :: "(Command \<times> u64) list"
  last_trans_clk :: u64
  write_draining :: int

definition Controller_new :: "dram_config \<Rightarrow> controller result" where
  "Controller_new c =
     bindE (CommandQueue_new c) (\<lambda>q.
     bindE (Refresh_new c) (\<lambda>rf.
     Inr \<lparr>ctl_clk = 0, simple_stats = SimpleStats_new c, channel_state = ChannelState_new c, cmd_queue = q, refresh = rf,
          is_unified_queue = unified_queue c, unified_q = [], read_queue = [], write_buffer = [], pending_rd_q = [],
          pending_wr_q = [], return_queue = [],
          row_policy = (if row_buf_policy c = ''CLOSE_PAGE'' then CLOSE_PAGE else OPEN_PAGE), cmd_trace = [],
          last_trans_clk = 0, write_draining = 0\<rparr>))"

definition capacity :: "dram_config \<Rightarrow> nat" where
  "capacity c = idx_of_int (trans_queue_size c)"

definition count_key :: "u64 \<Rightarrow> (u64 \<times> 'a) list \<Rightarrow> nat" where
  "count_key a xs = length (filter (\<lambda>p. fst p = a) xs)"

definition ReturnDoneTrans :: "u64 \<Rightarrow> controller \<Rightarrow> (u64 \<times> bool) option \<times> controller" where
  "ReturnDoneTrans clk ct =
     (case first_idx (\<lambda>t. clk \<ge> complete_cycle t) (return_queue ct) of
        None \<Rightarrow> (None, ct)
      | Some i \<Rightarrow>
          let t = return_queue ct ! i;
              st = (if is_write t then Increment num_writes_done (simple_stats ct)
                    else AddValue read_latency (int_of_u64 (ctl_clk ct - added_cycle t)) (Increment num_reads_done (simple_stats ct)))
          in (Some (t_addr t, is_write t), ct\<lparr>simple_stats := st, return_queue := erase_at i (return_queue ct)\<rparr>))"

definition WillAcceptTransaction :: "dram_config \<Rightarrow> controller \<Rightarrow> bool \<Rightarrow> bool" where
  "WillAcceptTransaction c ct w \<longleftrightarrow>
     (if is_unified_queue ct then length (unified_q ct) < capacity c
      else if \<not> w then length (read_queue ct) < capacity c
      else length (write_buffer ct) < capacity c)"

definition ctl_AddTransaction :: "Transaction \<Rightarrow> controller \<Rightarrow> controller" where
  "ctl_AddTransaction tr ct =
     (let t = tr\<lparr>added_cycle := ctl_clk ct\<rparr>;
          ct1 = ct\<lparr>simple_stats := AddValue interarrival_latency (int_of_u64 (ctl_clk ct - last_trans_clk ct)) (simple_stats ct),
                   last_trans_clk := ctl_clk ct\<rparr>;
          finished = t\<lparr>complete_cycle := ctl_clk ct + 1\<rparr>
      in if is_write t then
           let ct2 = (if count_key (t_addr t) (pending_wr_q ct1) = 0 then
                        let ct' = ct1\<lparr>pending_wr_q := pending_wr_q ct1 @ [(t_addr t, t)]\<rparr> in
                        if is_unified_queue ct' then ct'\<lparr>unified_q := unified_q ct' @ [t]\<rparr>
                        else ct'\<lparr>write_buffer := write_buffer ct' @ [t]\<rparr>
                      else ct1)
           in ct2\<lparr>return_queue := return_queue ct2 @ [finished]\<rparr>
         else if count_key (t_addr t) (pending_wr_q ct1) > 0 then ct1\<lparr>return_queue := return_queue ct1 @ [finished]\<rparr>
         else
           let ct2 = ct1\<lparr>pending_rd_q := pending_rd_q ct1 @ [(t_addr t, t)]\<rparr> in
           if count_key (t_addr t) (pending_rd_q ct2) = 1 then
             (if is_unified_queue ct2 then ct2\<lparr>unified_q := unified_q ct2 @ [t]\<rparr>
              else ct2\<lparr>read_queue := read_queue ct2 @ [t]\<rparr>)
           else ct2)"

definition TransToCommand :: "dram_config \<Rightarrow> controller \<Rightarrow> Transaction \<Rightarrow> Command result" where
  "TransToCommand c ct t =
     bindE (AddressMapping c (t_addr t)) (\<lambda>a.
     let ty = (if row_policy ct = OPEN_PAGE then (if is_write t then CMD_WRITE else CMD_READ)
               else (if is_write t then CMD_WRITE_PRECHARGE else CMD_READ_PRECHARGE)) in
     Inr \<lparr>cmd_type = ty, addr = a, hex_addr = t_addr t\<rparr>)"

section \<open>Scheduling\<close>

text \<open>The queue the reference \<open>queue\<close> is bound to.\<close>

datatype trans_queue = Unified | Write_Buffer | Read_Queue

definition get_q :: "trans_queue \<Rightarrow> controller \<Rightarrow> Transaction list" where
  "get_q s ct = (case s of Unified \<Rightarrow> unified_q ct | Write_Buffer \<Rightarrow> write_buffer ct | Read_Queue \<Rightarrow> read_queue ct)"

definition set_q :: "trans_queue \<Rightarrow> Transaction list \<Rightarrow> controller \<Rightarrow> controller" where
  "set_q s xs ct = (case s of Unified \<Rightarrow> ct\<lparr>unified_q := xs\<rparr> | Write_Buffer \<Rightarrow> ct\<lparr>write_buffer := xs\<rparr> | Read_Queue \<Rightarrow> ct\<lparr>read_queue := xs\<rparr>)"

fun schedule_scan :: "dram_config \<Rightarrow> trans_queue \<Rightarrow> Transaction list \<Rightarrow> Transaction list \<Rightarrow> controller \<Rightarrow> controller result" where
  "schedule_scan c s prev [] ct = Inr ct"
| "schedule_scan c s prev (x # rest) ct =
     bindE (TransToCommand c ct x) (\<lambda>cmd.
     bindE (WillAcceptCommand c (cmd_queue ct) (loc_of (addr cmd))) (\<lambda>ok.
     if \<not> ok then schedule_scan c s (prev @ [x]) rest ct
     else if \<not> is_unified_queue ct \<and> IsWrite cmd \<and> count_key (t_addr x) (pending_rd_q ct) > 0 then Inr (ct\<lparr>write_draining := 0\<rparr>)
     else
       let ct1 = (if \<not> is_unified_queue ct \<and> IsWrite cmd then ct\<lparr>write_draining := write_draining ct - 1\<rparr> else ct) in
       bindE (AddCommand c cmd (cmd_queue ct1)) (\<lambda>(_, q).
       Inr (set_q s (prev @ rest) (ct1\<lparr>cmd_queue := q\<rparr>)))))"

definition ScheduleTransaction :: "dram_config \<Rightarrow> controller \<Rightarrow> controller result" where
  "ScheduleTransaction c ct =
     (let n = length (write_buffer ct);
          ct1 = (if write_draining ct = 0 \<and> \<not> is_unified_queue ct \<and> (n \<ge> capacity c \<or> (n > 8 \<and> QueueEmpty (cmd_queue ct)))
                 then ct\<lparr>write_draining := int_of_u64 (of_nat n)\<rparr> else ct);
          s = (if is_unified_queue ct1 then Unified else if write_draining ct1 > 0 then Write_Buffer else Read_Queue)
      in schedule_scan c s [] (get_q s ct1) ct1)"

definition ctl_IsQueueFill :: "controller \<Rightarrow> bool" where
  "ctl_IsQueueFill ct \<longleftrightarrow> length (write_buffer ct) > 0"

definition ctl_QueueUsage :: "controller \<Rightarrow> int" where
  "ctl_QueueUsage ct = cq_QueueUsage (cmd_queue ct)"

section \<open>Issuing\<close>

definition UpdateCommandStats :: "Command \<Rightarrow> controller \<Rightarrow> controller result" where
  "UpdateCommandStats cmd ct =
     (let hit = (\<lambda>total_name hit_name.
            bindE (RowHitCount (channel_state ct) (loc_of (addr cmd))) (\<lambda>n.
            Inr (ct\<lparr>simple_stats := (let st = Increment total_name (simple_stats ct) in if n \<noteq> 0 then Increment hit_name st else st)\<rparr>)));
          one = (\<lambda>name. Inr (ct\<lparr>simple_stats := Increment name (simple_stats ct)\<rparr>))
      in case cmd_type cmd of
           CMD_READ \<Rightarrow> hit num_read_cmds num_read_row_hits
         | CMD_READ_PRECHARGE \<Rightarrow> hit num_read_cmds num_read_row_hits
         | CMD_WRITE \<Rightarrow> hit num_write_cmds num_write_row_hits
         | CMD_WRITE_PRECHARGE \<Rightarrow> hit num_write_cmds num_write_row_hits
         | CMD_ACTIVATE \<Rightarrow> one num_act_cmds
         | CMD_PRECHARGE \<Rightarrow> one num_pre_cmds
         | CMD_REFRESH \<Rightarrow> one num_ref_cmds
         | CMD_REFRESH_BANK \<Rightarrow> one num_refb_cmds
         | CMD_SREF_ENTER \<Rightarrow> one num_srefe_cmds
         | CMD_SREF_EXIT \<Rightarrow> one num_srefx_cmds
         | CMD_SIZE \<Rightarrow> Inl Abrupt_Exit)"

text \<open>Every read pending on the address moves to the return queue, oldest first; a write leaves the
  pending writes.\<close>

definition settle :: "dram_config \<Rightarrow> Command \<Rightarrow> controller \<Rightarrow> controller result" where
  "settle c cmd ct =
     (if IsRead cmd then
        if count_key (hex_addr cmd) (pending_rd_q ct) = 0 then Inl Abrupt_Exit
        else Inr (ct\<lparr>return_queue := return_queue ct @
              map (\<lambda>p. (snd p)\<lparr>complete_cycle := ctl_clk ct + u64_of_int (read_delay c)\<rparr>)
                (filter (\<lambda>p. fst p = hex_addr cmd) (pending_rd_q ct)),
            pending_rd_q := filter (\<lambda>p. fst p \<noteq> hex_addr cmd) (pending_rd_q ct)\<rparr>)
      else if IsWrite cmd then
        (case first_idx (\<lambda>p. fst p = hex_addr cmd) (pending_wr_q ct) of
           None \<Rightarrow> Inl Abrupt_Exit
         | Some i \<Rightarrow>
             let wr_lat = ctl_clk ct - added_cycle (snd (pending_wr_q ct ! i)) + u64_of_int (write_delay c) in
             Inr (ct\<lparr>simple_stats := AddValue write_latency (int_of_u64 wr_lat) (simple_stats ct),
                     pending_wr_q := erase_at i (pending_wr_q ct)\<rparr>))
      else Inr ct)"

definition IssueCommand :: "dram_config \<Rightarrow> Command \<Rightarrow> controller \<Rightarrow> controller result" where
  "IssueCommand c cmd ct =
     bindE (settle c cmd (ct\<lparr>cmd_trace := cmd_trace ct @ [(cmd, ctl_clk ct)]\<rparr>)) (\<lambda>ct1.
     bindE (UpdateCommandStats cmd ct1) (\<lambda>ct2.
     bindE (UpdateTimingAndStates c cmd (ctl_clk ct2) (channel_state ct2)) (\<lambda>cs.
     Inr (ct2\<lparr>channel_state := cs\<rparr>))))"

section \<open>One cycle\<close>

definition next_command :: "dram_config \<Rightarrow> controller \<Rightarrow> (Command \<times> controller) result" where
  "next_command c ct =
     bindE (GetCommandToIssue c (channel_state ct) (cmd_queue ct) (simple_stats ct)) (\<lambda>(cmd, q, st).
     Inr (cmd, ct\<lparr>cmd_queue := q, simple_stats := st\<rparr>))"

definition choose_command :: "dram_config \<Rightarrow> controller \<Rightarrow> (Command \<times> controller) result" where
  "choose_command c ct =
     bindE (if IsRefreshWaiting (channel_state ct) then FinishRefresh c (channel_state ct) (cmd_queue ct)
            else Inr (no_command, cmd_queue ct)) (\<lambda>(cmd, q).
     let ct1 = ct\<lparr>cmd_queue := q\<rparr> in
     if IsValid cmd then Inr (cmd, ct1) else next_command c ct1)"

definition issue_chosen :: "dram_config \<Rightarrow> Command \<Rightarrow> controller \<Rightarrow> controller result" where
  "issue_chosen c cmd ct =
     bindE (IssueCommand c cmd ct) (\<lambda>ct1.
     if enable_hbm_dual_cmd c then
       bindE (next_command c ct1) (\<lambda>(cmd2, ct2).
       if IsValid cmd2 \<and> IsReadWrite cmd2 \<noteq> IsReadWrite cmd then
         bindE (IssueCommand c cmd2 ct2) (\<lambda>ct3. Inr (ct3\<lparr>simple_stats := Increment hbm_dual_cmds (simple_stats ct3)\<rparr>))
       else Inr ct2)
     else Inr ct1)"

text \<open>Power updates, part 1: the counters of one rank.\<close>

definition account_rank :: "dram_config \<Rightarrow> int \<Rightarrow> controller \<Rightarrow> controller result" where
  "account_rank c i ct =
     (let cs = channel_state ct; st = simple_stats ct in
      bindE (IsRankSelfRefreshing cs i) (\<lambda>sref.
      if sref then bindE (IncrementVec sref_cycles i st) (\<lambda>st'. Inr (ct\<lparr>simple_stats := st'\<rparr>))
      else
        bindE (IsAllBankIdleInRank c cs i) (\<lambda>idle.
        bindE (IncrementVec (if idle then all_bank_idle_cycles else rank_active_cycles) i st) (\<lambda>st'.
        bindE (vec_get (rank_idle_cycles cs) (idx_of_int i)) (\<lambda>n.
        Inr (ct\<lparr>simple_stats := st',
                channel_state := cs\<lparr>rank_idle_cycles := (rank_idle_cycles cs)[idx_of_int i := (if idle then n + 1 else 0)]\<rparr>\<rparr>))))))"

text \<open>Power updates, part 2: at most one rank enters or leaves self refresh.\<close>

definition sref_command :: "CommandType \<Rightarrow> int \<Rightarrow> Command" where
  "sref_command ty i = \<lparr>cmd_type = ty, addr = no_address\<lparr>rank := i\<rparr>, hex_addr = -1\<rparr>"

definition sref_wish :: "dram_config \<Rightarrow> int \<Rightarrow> controller \<Rightarrow> Command option result" where
  "sref_wish c i ct =
     bindE (IsRankSelfRefreshing (channel_state ct) i) (\<lambda>sref.
     bindE (vec_get (rank_q_empty (cmd_queue ct)) (idx_of_int i)) (\<lambda>empty.
     if sref then Inr (if \<not> empty then Some (sref_command CMD_SREF_EXIT i) else None)
     else if empty then
       bindE (vec_get (rank_idle_cycles (channel_state ct)) (idx_of_int i)) (\<lambda>n.
       Inr (if n \<ge> sref_threshold c then Some (sref_command CMD_SREF_ENTER i) else None))
     else Inr None))"

fun self_refresh_scan :: "dram_config \<Rightarrow> int list \<Rightarrow> controller \<Rightarrow> controller result" where
  "self_refresh_scan c [] ct = Inr ct"
| "self_refresh_scan c (i # is) ct =
     bindE (sref_wish c i ct) (\<lambda>wish.
     case wish of
       None \<Rightarrow> self_refresh_scan c is ct
     | Some req \<Rightarrow>
         bindE (GetReadyCommand c (channel_state ct) req (ctl_clk ct)) (\<lambda>cmd.
         if IsValid cmd then IssueCommand c cmd ct else self_refresh_scan c is ct))"

definition ctl_ClockTick :: "dram_config \<Rightarrow> controller \<Rightarrow> controller result" where
  "ctl_ClockTick c ct =
     bindE (Refresh_ClockTick c (refresh ct, channel_state ct)) (\<lambda>(rf, cs).
     bindE (choose_command c (ct\<lparr>refresh := rf, channel_state := cs\<rparr>)) (\<lambda>(cmd, ct1).
     bindE (if IsValid cmd then issue_chosen c cmd ct1 else Inr ct1) (\<lambda>ct2.
     bindE (foldE (account_rank c) [0 .. ranks c - 1] ct2) (\<lambda>ct3.
     bindE (if enable_self_refresh c \<and> \<not> IsValid cmd then self_refresh_scan c [0 .. ranks c - 1] ct3 else Inr ct3) (\<lambda>ct4.
     bindE (ScheduleTransaction c ct4) (\<lambda>ct5.
     Inr (ct5\<lparr>ctl_clk := ctl_clk ct5 + 1, cmd_queue := cq_ClockTick (cmd_queue ct5),
              simple_stats := Increment num_cycles (simple_stats ct5)\<rparr>)))))))"

definition ctl_PrintEpochStats :: "controller \<Rightarrow> controller result" where
  "ctl_PrintEpochStats ct =
     bindE (UpdateEpochStats (Increment epoch_num (simple_stats ct))) (\<lambda>st. Inr (ct\<lparr>simple_stats := st\<rparr>))"

definition ctl_PrintFinalStats :: "controller \<Rightarrow> controller result" where
  "ctl_PrintFinalStats ct = bindE (UpdateFinalStats (simple_stats ct)) (\<lambda>st. Inr (ct\<lparr>simple_stats := st\<rparr>))"

definition ctl_ResetStats :: "controller \<Rightarrow> controller" where
  "ctl_ResetStats ct = ct\<lparr>simple_stats := stats_Reset (simple_stats ct)\<rparr>"

end
