(* ===== verification/Controller_Invariants.thy ===== *)
theory Controller_Invariants
  imports Dram_Controller
begin

text \<open>
  What a controller keeps at every step, with self refresh and dual commands switched off: the channel
  can always go on, the addresses waiting in its queues are exactly the keys of its pending
  transactions, every transaction it still owes an answer stays owed until it is returned, and the
  commands it issues form a run of the channel.
\<close>

section \<open>The invariant\<close>

definition waiting :: "controller \<Rightarrow> Transaction list" where
  "waiting ct = unified_q ct @ read_queue ct @ write_buffer ct"

text \<open>The addresses of reads (or writes) that are waiting, as transactions or as commands.\<close>

definition open_addrs :: "bool \<Rightarrow> controller \<Rightarrow> u64 multiset" where
  "open_addrs w ct = image_mset t_addr (filter_mset (\<lambda>t. is_write t = w) (mset (waiting ct)))
     + image_mset hex_addr (filter_mset (\<lambda>x. IsWrite x = w) (mset (concat (queues (cmd_queue ct)))))"

text \<open>A column command between being taken out of its queue and being issued.\<close>

definition in_hand :: "bool \<Rightarrow> Command \<Rightarrow> u64 multiset" where
  "in_hand w cmd = (if IsReadWrite cmd \<and> IsWrite cmd = w then {#hex_addr cmd#} else {#})"

definition books_ok :: "Command \<Rightarrow> controller \<Rightarrow> bool" where
  "books_ok cmd ct \<longleftrightarrow> open_addrs False ct + in_hand False cmd = mset_set (fst ` set (pending_rd_q ct))
     \<and> open_addrs True ct + in_hand True cmd = mset_set (fst ` set (pending_wr_q ct)) \<and> distinct (map fst (pending_wr_q ct))"

definition hw_ok :: "dram_config \<Rightarrow> controller \<Rightarrow> bool" where
  "hw_ok c ct \<longleftrightarrow> ch_shape c (channel_state ct) \<and> all_awake c (channel_state ct) \<and> refreshes_ok c (channel_state ct)
     \<and> True \<notin> set (rank_is_sref (channel_state ct)) \<and> rf_ok c (refresh ct) \<and> cq_ok c (cmd_queue ct)
     \<and> cq_clk (cmd_queue ct) = ctl_clk ct \<and> stats_ok (nat (ranks c)) (simple_stats ct)"

definition ctl_ok :: "dram_config \<Rightarrow> controller \<Rightarrow> bool" where
  "ctl_ok c ct \<longleftrightarrow> hw_ok c ct \<and> books_ok no_command ct"

definition tag :: "Transaction \<Rightarrow> u64 \<times> bool" where
  "tag t = (t_addr t, is_write t)"

text \<open>The transactions a controller has yet to return.\<close>

definition ctl_owed :: "controller \<Rightarrow> (u64 \<times> bool) multiset" where
  "ctl_owed ct = image_mset tag (mset (return_queue ct)) + image_mset (\<lambda>p. tag (snd p)) (mset (pending_rd_q ct))"

definition traced :: "dram_config \<Rightarrow> u64 \<Rightarrow> controller \<Rightarrow> bool" where
  "traced c k ct \<longleftrightarrow> (\<exists>now \<le> k. issue_run c (cmd_trace ct) now (channel_state ct))"

definition keeps :: "dram_config \<Rightarrow> controller \<Rightarrow> controller \<Rightarrow> bool" where
  "keeps c ct ct' \<longleftrightarrow> ctl_owed ct' = ctl_owed ct \<and> ctl_clk ct' = ctl_clk ct
     \<and> (traced c (ctl_clk ct) ct \<longrightarrow> traced c (ctl_clk ct) ct')"

lemma keeps_trans: "keeps c a b \<Longrightarrow> keeps c b d \<Longrightarrow> keeps c a d"
  by (simp add: keeps_def)

lemma in_hand_none [simp]: "\<not> IsReadWrite cmd \<Longrightarrow> in_hand w cmd = {#}"
  by (simp add: in_hand_def)

lemma no_command_kind [simp]: "\<not> IsReadWrite no_command"
  by (simp add: command_kinds no_command_def)

text \<open>Updates that touch neither the books nor what is owed.\<close>

lemma books_frame:
  assumes "waiting ct' = waiting ct" and "queues (cmd_queue ct') = queues (cmd_queue ct)"
    and "pending_rd_q ct' = pending_rd_q ct" and "pending_wr_q ct' = pending_wr_q ct"
  shows "books_ok cmd ct' = books_ok cmd ct"
  using assms by (simp add: books_ok_def open_addrs_def)

lemma keeps_frame:
  assumes "return_queue ct' = return_queue ct" and "pending_rd_q ct' = pending_rd_q ct" and "ctl_clk ct' = ctl_clk ct"
    and "cmd_trace ct' = cmd_trace ct" and "channel_state ct' = channel_state ct"
  shows "keeps c ct ct'"
  using assms by (simp add: keeps_def ctl_owed_def traced_def)

section \<open>Refresh and choice\<close>

lemma refresh_ok:
  assumes "hw_ok c ct"
  shows "\<exists>rf cs. Refresh_ClockTick c (refresh ct, channel_state ct) = Inr (rf, cs)
    \<and> hw_ok c (ct\<lparr>refresh := rf, channel_state := cs\<rparr>) \<and> keeps c ct (ct\<lparr>refresh := rf, channel_state := cs\<rparr>)"
proof -
  have h: "ch_shape c (channel_state ct)" "refreshes_ok c (channel_state ct)" "rf_ok c (refresh ct)"
    using assms by (simp_all add: hw_ok_def)
  from Refresh_ClockTick_ok [OF h] obtain rf cs where
    r: "Refresh_ClockTick c (refresh ct, channel_state ct) = Inr (rf, cs)" "same_banks (channel_state ct) cs"
    "refreshes_ok c cs" "rf_ok c rf" by blast
  then obtain q where q: "cs = (channel_state ct)\<lparr>refresh_q := q\<rparr>" by (auto simp: same_banks_def)
  have "hw_ok c (ct\<lparr>refresh := rf, channel_state := cs\<rparr>)"
    using assms r(3,4) by (simp add: hw_ok_def q ch_shape_def all_awake_def)
  moreover have "keeps c ct (ct\<lparr>refresh := rf, channel_state := cs\<rparr>)"
    by (auto simp: keeps_def ctl_owed_def traced_def q intro: run_refresh_q)
  ultimately show ?thesis using r(1) by blast
qed

definition proposal :: "dram_config \<Rightarrow> controller \<Rightarrow> Command \<Rightarrow> bool" where
  "proposal c ct cmd \<longleftrightarrow> (\<exists>req. asked c req \<and> GetReadyCommand c (channel_state ct) req (ctl_clk ct) = Inr cmd)"

lemma next_command_ok:
  assumes "geo_fits c" and "hw_ok c ct" and "books_ok no_command ct"
  shows "\<exists>cmd ct'. next_command c ct = Inr (cmd, ct') \<and> hw_ok c ct' \<and> books_ok cmd ct' \<and> keeps c ct ct'
    \<and> (IsValid cmd \<longrightarrow> proposal c ct' cmd)"
proof -
  have h: "ch_shape c (channel_state ct)" "all_awake c (channel_state ct)" "cq_ok c (cmd_queue ct)"
    "stats_ok (nat (ranks c)) (simple_stats ct)" "cq_clk (cmd_queue ct) = ctl_clk ct" using assms(2) by (simp_all add: hw_ok_def)
  from scan_queues_ok [OF assms(1) h(1-4)] obtain cmd q st where
    s: "GetCommandToIssue c (channel_state ct) (cmd_queue ct) (simple_stats ct) = Inr (cmd, q, st)" "stats_ok (nat (ranks c)) st"
    and t: "taken c (channel_state ct) (cmd_queue ct) cmd q" unfolding GetCommandToIssue_def by blast
  let ?ct = "ct\<lparr>cmd_queue := q, simple_stats := st\<rparr>"
  have m: "mset (concat (queues (cmd_queue ct))) = (if IsReadWrite cmd then {#cmd#} else {#}) + mset (concat (queues q))"
    using t by (simp add: taken_def)
  have "open_addrs w ?ct + in_hand w cmd = open_addrs w ct + in_hand w no_command" for w
    unfolding open_addrs_def m by (auto simp: in_hand_def waiting_def)
  then have "books_ok cmd ?ct" using assms(3) by (simp add: books_ok_def)
  moreover have "hw_ok c ?ct" using assms(2) s(2) t by (simp add: hw_ok_def taken_def)
  moreover have "keeps c ct ?ct" by (rule keeps_frame) simp_all
  moreover have "IsValid cmd \<longrightarrow> proposal c ?ct cmd" using t h(5) by (auto simp: taken_def proposal_def)
  ultimately show ?thesis using s(1) by (simp add: next_command_def)
qed

lemma choose_ok:
  assumes "geo_fits c" and "hw_ok c ct" and "books_ok no_command ct"
  shows "\<exists>cmd ct'. choose_command c ct = Inr (cmd, ct') \<and> hw_ok c ct' \<and> books_ok cmd ct' \<and> keeps c ct ct'
    \<and> (IsValid cmd \<longrightarrow> proposal c ct' cmd)"
proof (cases "refresh_q (channel_state ct) = []")
  case True
  have "ct\<lparr>cmd_queue := cmd_queue ct\<rparr> = ct" by simp
  then show ?thesis using next_command_ok [OF assms] True by (simp add: choose_command_def IsRefreshWaiting_def)
next
  case False
  have h: "ch_shape c (channel_state ct)" "all_awake c (channel_state ct)" "cq_ok c (cmd_queue ct)"
    "cq_clk (cmd_queue ct) = ctl_clk ct" and ro: "\<forall>x \<in> set (refresh_q (channel_state ct)). IsRefresh x \<and> target_in c x"
    using assms(2) by (simp_all add: hw_ok_def refreshes_ok_def)
  from FinishRefresh_ok [OF assms(1) h(1-3) False ro] obtain cmd q req where
    f: "FinishRefresh c (channel_state ct) (cmd_queue ct) = Inr (cmd, q)" "cq_ok c q" "cq_clk q = cq_clk (cmd_queue ct)"
    "queues q = queues (cmd_queue ct)" "asked c req" "IsRefresh req" "GetReadyCommand c (channel_state ct) req (cq_clk (cmd_queue ct)) = Inr cmd"
    by blast
  let ?ct = "ct\<lparr>cmd_queue := q\<rparr>"
  have ok: "hw_ok c ?ct" using assms(2) f(2,3) by (simp add: hw_ok_def)
  have bk: "books_ok no_command ?ct" using assms(3) f(4) by (subst books_frame [of _ ct]) (simp_all add: waiting_def)
  have kp: "keeps c ct ?ct" by (rule keeps_frame) simp_all
  show ?thesis
  proof (cases "IsValid cmd")
    case True
    have nrw: "\<not> IsReadWrite cmd"
    proof
      assume "IsReadWrite cmd"
      then have "cmd = req" by (rule proposed_ready(2) [OF h(1,2) f(5,7) True])
      then show False using f(6) \<open>IsReadWrite cmd\<close> by (auto simp: command_kinds)
    qed
    then have "books_ok cmd ?ct" using bk by (simp add: books_ok_def)
    moreover have "proposal c ?ct cmd" using f(5,7) h(4) by (auto simp: proposal_def)
    ultimately show ?thesis using True f(1) False ok kp by (simp add: choose_command_def IsRefreshWaiting_def)
  next
    case nv: False
    from next_command_ok [OF assms(1) ok bk] kp keeps_trans show ?thesis
      using nv f(1) False by (fastforce simp: choose_command_def IsRefreshWaiting_def)
  qed
qed

section \<open>Issuing\<close>

lemma image_tag_complete [simp]: "image_mset (\<lambda>p. tag ((snd p)\<lparr>complete_cycle := k\<rparr>)) M = image_mset (\<lambda>p. tag (snd p)) M"
  by (simp add: tag_def)

lemma count_key_zero: "count_key a xs = 0 \<longleftrightarrow> a \<notin> fst ` set xs"
  by (force simp: count_key_def filter_empty_conv)

lemma keys_filter: "fst ` {p \<in> set xs. fst p \<noteq> a} = fst ` set xs - {a}"
  by auto

lemma mset_set_take: "M + {#a#} = mset_set (fst ` set xs) \<Longrightarrow> M = mset_set (fst ` set xs - {a}) \<and> a \<in> fst ` set xs"
proof -
  assume m: "M + {#a#} = mset_set (fst ` set xs)"
  have "a \<in># mset_set (fst ` set xs)" unfolding m [symmetric] by simp
  then have "a \<in> fst ` set xs" by simp
  then have "mset_set (fst ` set xs) = add_mset a (mset_set (fst ` set xs - {a}))" by (simp add: mset_set.remove)
  then show ?thesis using m \<open>a \<in> fst ` set xs\<close> by simp
qed

lemma settle_ok:
  assumes "books_ok cmd ct" and "stats_ok n (simple_stats ct)"
  shows "\<exists>rq pr pw st. settle c cmd ct = Inr (ct\<lparr>return_queue := rq, pending_rd_q := pr, pending_wr_q := pw, simple_stats := st\<rparr>)
    \<and> books_ok no_command (ct\<lparr>return_queue := rq, pending_rd_q := pr, pending_wr_q := pw, simple_stats := st\<rparr>)
    \<and> ctl_owed (ct\<lparr>return_queue := rq, pending_rd_q := pr, pending_wr_q := pw, simple_stats := st\<rparr>) = ctl_owed ct
    \<and> stats_ok n st"
proof -
  let ?a = "hex_addr cmd" and ?upd = "\<lambda>rq pr pw st. ct\<lparr>return_queue := rq, pending_rd_q := pr, pending_wr_q := pw, simple_stats := st\<rparr>"
  have op: "open_addrs w (?upd rq pr pw st) = open_addrs w ct" for w rq pr pw st by (simp add: open_addrs_def waiting_def)
  have b: "open_addrs False ct + in_hand False cmd = mset_set (fst ` set (pending_rd_q ct))"
    "open_addrs True ct + in_hand True cmd = mset_set (fst ` set (pending_wr_q ct))" "distinct (map fst (pending_wr_q ct))"
    using assms(1) by (simp_all add: books_ok_def)
  consider "IsRead cmd" "\<not> IsWrite cmd" "IsReadWrite cmd" | "IsWrite cmd" "\<not> IsRead cmd" "IsReadWrite cmd" | "\<not> IsReadWrite cmd"
    by (cases "cmd_type cmd") (simp_all add: command_kinds)
  then show ?thesis
  proof cases
    case 1
    then have k: "open_addrs False ct = mset_set (fst ` set (pending_rd_q ct) - {?a})" "?a \<in> fst ` set (pending_rd_q ct)"
      using mset_set_take [of "open_addrs False ct" ?a "pending_rd_q ct"] b(1) by (simp_all add: in_hand_def)
    let ?mv = "filter (\<lambda>p. fst p = ?a) (pending_rd_q ct)" and ?st = "filter (\<lambda>p. fst p \<noteq> ?a) (pending_rd_q ct)"
    let ?rq = "return_queue ct @ map (\<lambda>p. (snd p)\<lparr>complete_cycle := ctl_clk ct + u64_of_int (read_delay c)\<rparr>) ?mv"
    have "count_key ?a (pending_rd_q ct) \<noteq> 0" using k(2) by (simp add: count_key_zero)
    then have "settle c cmd ct = Inr (?upd ?rq ?st (pending_wr_q ct) (simple_stats ct))" using 1 by (simp add: settle_def)
    moreover have "books_ok no_command (?upd ?rq ?st (pending_wr_q ct) (simple_stats ct))"
      unfolding books_ok_def op using k b 1 by (simp add: keys_filter in_hand_def)
    moreover have "ctl_owed (?upd ?rq ?st (pending_wr_q ct) (simple_stats ct)) = ctl_owed ct"
    proof -
      have "mset (pending_rd_q ct) = mset ?mv + mset ?st" by (simp add: multiset_partition [symmetric])
      then have "image_mset (\<lambda>p. tag (snd p)) (mset (pending_rd_q ct)) = image_mset (\<lambda>p. tag (snd p)) (mset ?mv) + image_mset (\<lambda>p. tag (snd p)) (mset ?st)"
        by (metis image_mset_union)
      moreover have "image_mset tag (mset (map (\<lambda>p. (snd p)\<lparr>complete_cycle := k\<rparr>) ?mv)) = image_mset (\<lambda>p. tag (snd p)) (mset ?mv)" for k
        by (simp add: image_mset.compositionality comp_def tag_def)
      ultimately show ?thesis by (simp add: ctl_owed_def del: mset_map mset_filter)
    qed
    ultimately show ?thesis using assms(2) by blast
  next
    case 2
    then have k: "open_addrs True ct = mset_set (fst ` set (pending_wr_q ct) - {?a})" "?a \<in> fst ` set (pending_wr_q ct)"
      using mset_set_take [of "open_addrs True ct" ?a "pending_wr_q ct"] b(2) by (simp_all add: in_hand_def)
    then obtain p where p: "p \<in> set (pending_wr_q ct)" "fst p = ?a" by auto
    obtain i where i: "first_idx (\<lambda>p. fst p = ?a) (pending_wr_q ct) = Some i" using first_idx_exists [OF p(1), of "\<lambda>p. fst p = ?a"] p(2) by blast
    then have i2: "i < length (pending_wr_q ct)" "fst (pending_wr_q ct ! i) = ?a" by (simp_all add: first_idx_Some)
    let ?wr = "erase_at i (pending_wr_q ct)"
    let ?st = "AddValue write_latency (int_of_u64 (ctl_clk ct - added_cycle (snd (pending_wr_q ct ! i)) + u64_of_int (write_delay c))) (simple_stats ct)"
    have keys: "add_mset ?a (mset (map fst ?wr)) = mset (map fst (pending_wr_q ct))"
      using mset_erase_at [OF i2(1)] i2(2) by (metis image_mset_add_mset mset_map)
    have "distinct (?a # map fst ?wr)" using b(3) keys by (metis mset.simps(2) mset_eq_imp_distinct_iff)
    then have d: "distinct (map fst ?wr)" "?a \<notin> set (map fst ?wr)" by simp_all
    have "insert ?a (set (map fst ?wr)) = set (map fst (pending_wr_q ct))" using keys by (metis set_mset_add_mset_insert set_mset_mset)
    then have e: "fst ` set ?wr = fst ` set (pending_wr_q ct) - {?a}" using d(2) by (metis Diff_insert_absorb list.set_map)
    have "settle c cmd ct = Inr (?upd (return_queue ct) (pending_rd_q ct) ?wr ?st)" using 2 i by (simp add: settle_def Let_def)
    moreover have "books_ok no_command (?upd (return_queue ct) (pending_rd_q ct) ?wr ?st)"
      unfolding books_ok_def op using k b d e 2 by (simp add: in_hand_def)
    moreover have "ctl_owed (?upd (return_queue ct) (pending_rd_q ct) ?wr ?st) = ctl_owed ct" by (simp add: ctl_owed_def)
    ultimately show ?thesis using assms(2) AddValue_ok by blast
  next
    case 3
    then have "settle c cmd ct = Inr (?upd (return_queue ct) (pending_rd_q ct) (pending_wr_q ct) (simple_stats ct))"
      by (simp add: settle_def command_kinds)
    moreover have "books_ok no_command (?upd (return_queue ct) (pending_rd_q ct) (pending_wr_q ct) (simple_stats ct))"
      unfolding books_ok_def op using b 3 by simp
    moreover have "ctl_owed (?upd (return_queue ct) (pending_rd_q ct) (pending_wr_q ct) (simple_stats ct)) = ctl_owed ct" by simp
    ultimately show ?thesis using assms(2) by blast
  qed
qed

lemma UpdateCommandStats_ok:
  assumes "IsValid cmd" and "ch_shape c (channel_state ct)" and "target_in c cmd" and "stats_ok n (simple_stats ct)"
  shows "\<exists>st. UpdateCommandStats cmd ct = Inr (ct\<lparr>simple_stats := st\<rparr>) \<and> stats_ok n st"
proof -
  have "RowHitCount (channel_state ct) (loc_of (addr cmd)) = Inr (row_hit_count (bk (channel_state ct) (loc_of (addr cmd))))"
    if "IsReadWrite cmd"
  proof -
    have "loc_in c (loc_of (addr cmd))" using assms(3) that by (auto simp: target_in_def command_kinds)
    then show ?thesis using chan_bank_in [OF assms(2)] by (simp add: RowHitCount_def)
  qed
  then show ?thesis using assms(1,4)
    by (cases "cmd_type cmd") (auto simp: UpdateCommandStats_def Let_def command_kinds)
qed

lemma issue_ok:
  assumes "hw_ok c ct" and "books_ok cmd ct" and "IsValid cmd" and "proposal c ct cmd"
  shows "\<exists>ct'. IssueCommand c cmd ct = Inr ct' \<and> hw_ok c ct' \<and> books_ok no_command ct' \<and> keeps c ct ct'"
proof -
  let ?cs = "channel_state ct" and ?clk = "ctl_clk ct"
  have h: "ch_shape c ?cs" "all_awake c ?cs" "stats_ok (nat (ranks c)) (simple_stats ct)" using assms(1) by (simp_all add: hw_ok_def)
  obtain req where req: "asked c req" "GetReadyCommand c ?cs req ?clk = Inr cmd" using assms(4) by (auto simp: proposal_def)
  have ready: "ready_at c ?cs cmd ?clk" by (rule proposed_ready(1) [OF h(1,2) req assms(3)])
  obtain cs where cs: "UpdateTimingAndStates c cmd ?clk ?cs = Inr cs" "ch_shape c cs" "all_awake c cs"
    "refresh_q cs = refreshes_left cmd (refresh_q ?cs)" "rank_is_sref cs = rank_is_sref ?cs"
    using issue_spec [OF h(1,2) ready] by blast
  let ?ct0 = "ct\<lparr>cmd_trace := cmd_trace ct @ [(cmd, ?clk)]\<rparr>"
  have b0: "books_ok cmd ?ct0" using assms(2) by (subst books_frame [of _ ct]) (simp_all add: waiting_def)
  from settle_ok [OF b0, of "nat (ranks c)" c] h(3) obtain rq pr pw st where
    s: "settle c cmd ?ct0 = Inr (?ct0\<lparr>return_queue := rq, pending_rd_q := pr, pending_wr_q := pw, simple_stats := st\<rparr>)"
    "books_ok no_command (?ct0\<lparr>return_queue := rq, pending_rd_q := pr, pending_wr_q := pw, simple_stats := st\<rparr>)"
    "ctl_owed (?ct0\<lparr>return_queue := rq, pending_rd_q := pr, pending_wr_q := pw, simple_stats := st\<rparr>) = ctl_owed ?ct0"
    "stats_ok (nat (ranks c)) st" by auto
  let ?ct1 = "?ct0\<lparr>return_queue := rq, pending_rd_q := pr, pending_wr_q := pw, simple_stats := st\<rparr>"
  have ti: "target_in c cmd" using ready by (simp add: ready_at_def)
  from UpdateCommandStats_ok [OF assms(3) _ ti, of ?ct1 "nat (ranks c)"] h(1) s(4) obtain st2 where
    u: "UpdateCommandStats cmd ?ct1 = Inr (?ct1\<lparr>simple_stats := st2\<rparr>)" "stats_ok (nat (ranks c)) st2" by auto
  let ?ct2 = "?ct1\<lparr>simple_stats := st2, channel_state := cs\<rparr>"
  have eq: "IssueCommand c cmd ct = Inr ?ct2" using s(1) u(1) cs(1) by (simp add: IssueCommand_def)
  have rf: "refreshes_ok c cs" using assms(1) cs(4) refreshes_left_subset [of cmd "refresh_q ?cs"] by (auto simp: hw_ok_def refreshes_ok_def)
  have hw: "hw_ok c ?ct2" using assms(1) cs(2,3,5) rf u(2) by (simp add: hw_ok_def)
  have bk: "books_ok no_command ?ct2" using s(2) by (subst books_frame [of _ ?ct1]) (simp_all add: waiting_def)
  have ow: "ctl_owed ?ct2 = ctl_owed ct" using s(3) by (simp add: ctl_owed_def)
  have tr: "traced c ?clk ct \<longrightarrow> traced c ?clk ?ct2"
    using run_issue [OF _ _ req(1,2) assms(3) cs(1)] by (auto simp: traced_def)
  show ?thesis using eq hw bk ow tr by (simp add: keeps_def)
qed

lemma issue_chosen_ok:
  assumes "hw_ok c ct" and "books_ok cmd ct" and "IsValid cmd" and "proposal c ct cmd" and "\<not> enable_hbm_dual_cmd c"
  shows "\<exists>ct'. issue_chosen c cmd ct = Inr ct' \<and> ctl_ok c ct' \<and> keeps c ct ct'"
  using issue_ok [OF assms(1-4)] assms(5) by (auto simp: issue_chosen_def ctl_ok_def)

section \<open>Accounting and scheduling\<close>

lemma none_open_total: "ch_shape c cs \<Longrightarrow> \<forall>l \<in> set ls. loc_in c l \<Longrightarrow> \<exists>b. none_open cs ls = Inr b"
  by (induction ls) (auto simp: IsRowOpen_def chan_bank_in)

lemma account_ok:
  assumes "ctl_ok c ct" and "0 \<le> i" and "i < ranks c"
  shows "\<exists>ct'. account_rank c i ct = Inr ct' \<and> ctl_ok c ct' \<and> keeps c ct ct'"
proof -
  let ?cs = "channel_state ct"
  have h: "ch_shape c ?cs" "stats_ok (nat (ranks c)) (simple_stats ct)" "True \<notin> set (rank_is_sref ?cs)"
    using assms(1) by (simp_all add: ctl_ok_def hw_ok_def)
  then have g: "geo_ok c" and len: "length (rank_is_sref ?cs) = nat (ranks c)" "length (rank_idle_cycles ?cs) = nat (ranks c)"
    by (simp_all add: ch_shape_def)
  have ix: "idx_of_int i = nat i" "nat i < nat (ranks c)" using rank_idx [OF g assms(2,3)] by simp_all
  have "rank_is_sref ?cs ! nat i \<in> set (rank_is_sref ?cs)" using ix len by simp
  then have "\<not> rank_is_sref ?cs ! nat i" using h(3) by metis
  then have ns: "IsRankSelfRefreshing ?cs i = Inr False" using ix len by (simp add: IsRankSelfRefreshing_def)
  obtain idle where idle: "IsAllBankIdleInRank c ?cs i = Inr idle"
    using none_open_total [OF h(1) rank_locs_in(2) [OF g assms(2,3)]] by (auto simp: IsAllBankIdleInRank_def)
  obtain st where st: "IncrementVec (if idle then all_bank_idle_cycles else rank_active_cycles) i (simple_stats ct) = Inr st"
    "stats_ok (nat (ranks c)) st" using IncrementVec_ok [OF h(2), of i] ix by auto
  let ?idle = "(rank_idle_cycles ?cs)[nat i := (if idle then rank_idle_cycles ?cs ! nat i + 1 else 0)]"
  let ?ct = "ct\<lparr>simple_stats := st, channel_state := ?cs\<lparr>rank_idle_cycles := ?idle\<rparr>\<rparr>"
  have "account_rank c i ct = Inr ?ct" using ns idle st(1) ix len by (simp add: account_rank_def Let_def)
  moreover have "hw_ok c ?ct" using assms(1) st(2)
    by (simp add: ctl_ok_def hw_ok_def ch_shape_def all_awake_def refreshes_ok_def)
  moreover have "books_ok no_command ?ct" using assms(1) by (subst books_frame [of _ ct]) (simp_all add: waiting_def ctl_ok_def)
  moreover have "keeps c ct ?ct" by (auto simp: keeps_def ctl_owed_def traced_def intro!: run_idle)
  ultimately show ?thesis by (simp add: ctl_ok_def)
qed

lemma accounts_ok:
  assumes "ctl_ok c ct"
  shows "\<exists>ct'. foldE (account_rank c) [0 .. ranks c - 1] ct = Inr ct' \<and> ctl_ok c ct' \<and> keeps c ct ct'"
  by (rule foldE_total [where P = "\<lambda>s. ctl_ok c s \<and> keeps c ct s"])
    (use assms account_ok keeps_trans in \<open>fastforce simp: keeps_def\<close>)+

lemma waiting_set_q: "mset (waiting (set_q s xs ct)) + mset (get_q s ct) = mset (waiting ct) + mset xs"
  by (cases s) (simp_all add: waiting_def set_q_def get_q_def)

lemma set_q_frame [simp]:
  "channel_state (set_q s xs ct) = channel_state ct" "refresh (set_q s xs ct) = refresh ct" "cmd_queue (set_q s xs ct) = cmd_queue ct"
  "ctl_clk (set_q s xs ct) = ctl_clk ct" "simple_stats (set_q s xs ct) = simple_stats ct" "return_queue (set_q s xs ct) = return_queue ct"
  "pending_rd_q (set_q s xs ct) = pending_rd_q ct" "pending_wr_q (set_q s xs ct) = pending_wr_q ct" "cmd_trace (set_q s xs ct) = cmd_trace ct"
  by (cases s; simp add: set_q_def)+

lemma TransToCommand_ok:
  assumes "map_ok c"
  shows "\<exists>cmd. TransToCommand c ct t = Inr cmd \<and> hex_addr cmd = t_addr t \<and> AddressMapping c (hex_addr cmd) = Inr (addr cmd)
    \<and> IsReadWrite cmd \<and> IsWrite cmd = is_write t"
proof -
  obtain a where "AddressMapping c (t_addr t) = Inr a" using AddressMapping_in [OF assms] by blast
  then show ?thesis by (auto simp: TransToCommand_def Let_def command_kinds)
qed

text \<open>A transaction that becomes a command.\<close>

lemma move_ok:
  assumes "ctl_ok c ct" and "get_q s ct = prev @ x # rest" and "cq_ok c q" and "cq_clk q = cq_clk (cmd_queue ct)"
    and "mset (concat (queues q)) = add_mset cmd (mset (concat (queues (cmd_queue ct))))"
    and "hex_addr cmd = t_addr x" and "IsWrite cmd = is_write x"
  shows "ctl_ok c (set_q s (prev @ rest) (ct\<lparr>write_draining := d, cmd_queue := q\<rparr>))"
    and "keeps c ct (set_q s (prev @ rest) (ct\<lparr>write_draining := d, cmd_queue := q\<rparr>))"
proof -
  let ?ct = "set_q s (prev @ rest) (ct\<lparr>write_draining := d, cmd_queue := q\<rparr>)"
  have g: "get_q s (ct\<lparr>write_draining := d, cmd_queue := q\<rparr>) = prev @ x # rest" using assms(2) by (cases s) (simp_all add: get_q_def)
  have w0: "waiting (ct\<lparr>write_draining := d, cmd_queue := q\<rparr>) = waiting ct" by (simp add: waiting_def)
  have w: "mset (waiting ct) = add_mset x (mset (waiting ?ct))"
    using waiting_set_q [of s "prev @ rest" "ct\<lparr>write_draining := d, cmd_queue := q\<rparr>"] unfolding g w0 by simp
  have "open_addrs b ?ct = open_addrs b ct" for b unfolding open_addrs_def w by (simp add: assms(5-7))
  then have "books_ok no_command ?ct" using assms(1) by (simp add: ctl_ok_def books_ok_def)
  moreover have "hw_ok c ?ct" using assms(1,3,4) by (simp add: ctl_ok_def hw_ok_def)
  ultimately show "ctl_ok c ?ct" by (simp add: ctl_ok_def)
  show "keeps c ct ?ct" by (rule keeps_frame) simp_all
qed

lemma write_draining_frame [simp]:
  "ctl_ok c (ct\<lparr>write_draining := d\<rparr>) = ctl_ok c ct" "keeps c ct (ct\<lparr>write_draining := d\<rparr>)"
  by (simp_all add: ctl_ok_def hw_ok_def books_ok_def open_addrs_def waiting_def keeps_def ctl_owed_def traced_def)

lemma keeps_refl [simp]: "keeps c ct ct"
  by (simp add: keeps_def)

lemma schedule_scan_ok:
  assumes "geo_fits c" and "ctl_ok c ct" and "get_q s ct = prev @ xs"
  shows "\<exists>ct'. schedule_scan c s prev xs ct = Inr ct' \<and> ctl_ok c ct' \<and> keeps c ct ct'"
  using assms(3)
proof (induction xs arbitrary: prev)
  case Nil
  then show ?case using assms(2) by simp
next
  case (Cons x rest)
  have mp: "map_ok c" using assms(1) by (simp add: geo_fits_def)
  obtain cmd where t: "TransToCommand c ct x = Inr cmd" "hex_addr cmd = t_addr x" "AddressMapping c (hex_addr cmd) = Inr (addr cmd)"
    "IsReadWrite cmd" "IsWrite cmd = is_write x" using TransToCommand_ok [OF mp] by blast
  have cq: "cq_ok c (cmd_queue ct)" using assms(2) by (simp add: ctl_ok_def hw_ok_def)
  obtain ok where ok: "WillAcceptCommand c (cmd_queue ct) (loc_of (addr cmd)) = Inr ok"
    using queue_at(2) [OF assms(1) cq mapped_in [OF mp t(3)]] by (simp add: WillAcceptCommand_def)
  consider "\<not> ok" | "ok" "\<not> is_unified_queue ct \<and> IsWrite cmd \<and> count_key (t_addr x) (pending_rd_q ct) > 0"
    | "ok" "\<not> (\<not> is_unified_queue ct \<and> IsWrite cmd \<and> count_key (t_addr x) (pending_rd_q ct) > 0)" by blast
  then show ?case
  proof cases
    case 1
    then show ?thesis using Cons.IH [of "prev @ [x]"] Cons.prems t(1) ok by simp
  next
    case 2
    then show ?thesis using t(1) ok assms(2) by simp
  next
    case 3
    from AddCommand_ok [OF assms(1) cq t(4,3)] ok 3(1) obtain q where q: "AddCommand c cmd (cmd_queue ct) = Inr (True, q)" "cq_ok c q"
      "cq_clk q = cq_clk (cmd_queue ct)" "mset (concat (queues q)) = add_mset cmd (mset (concat (queues (cmd_queue ct))))" by auto
    let ?d = "if \<not> is_unified_queue ct \<and> IsWrite cmd then write_draining ct - 1 else write_draining ct"
    let ?ct = "set_q s (prev @ rest) (ct\<lparr>write_draining := ?d, cmd_queue := q\<rparr>)"
    have "ct\<lparr>cmd_queue := q\<rparr> = ct\<lparr>write_draining := write_draining ct, cmd_queue := q\<rparr>" by simp
    then have "schedule_scan c s prev (x # rest) ct = Inr ?ct" using t(1) ok 3 q(1) by (auto simp: Let_def)
    then show ?thesis using move_ok [OF assms(2) Cons.prems q(2-4) t(2,5), of ?d] by blast
  qed
qed

lemma schedule_ok:
  assumes "geo_fits c" and "ctl_ok c ct"
  shows "\<exists>ct'. ScheduleTransaction c ct = Inr ct' \<and> ctl_ok c ct' \<and> keeps c ct ct'"
proof -
  define ct1 where "ct1 = (if write_draining ct = 0 \<and> \<not> is_unified_queue ct \<and> (length (write_buffer ct) \<ge> capacity c
      \<or> (length (write_buffer ct) > 8 \<and> QueueEmpty (cmd_queue ct)))
    then ct\<lparr>write_draining := int_of_u64 (of_nat (length (write_buffer ct)))\<rparr> else ct)"
  have 1: "ctl_ok c ct1" "keeps c ct ct1" using assms(2) by (simp_all add: ct1_def)
  define s where "s = (if is_unified_queue ct1 then Unified else if write_draining ct1 > 0 then Write_Buffer else Read_Queue)"
  have "ScheduleTransaction c ct = schedule_scan c s [] (get_q s ct1) ct1"
    by (simp only: ScheduleTransaction_def ct1_def s_def Let_def)
  then show ?thesis using schedule_scan_ok [OF assms(1) 1(1), of s "[]" "get_q s ct1"] keeps_trans [OF 1(2)] by fastforce
qed

section \<open>The operations\<close>

lemma ctl_tick_ok:
  assumes "geo_fits c" and "\<not> enable_self_refresh c" and "\<not> enable_hbm_dual_cmd c" and "ctl_ok c ct"
  shows "\<exists>ct'. ctl_ClockTick c ct = Inr ct' \<and> ctl_ok c ct' \<and> ctl_owed ct' = ctl_owed ct \<and> ctl_clk ct' = ctl_clk ct + 1
    \<and> (traced c (ctl_clk ct) ct \<longrightarrow> traced c (ctl_clk ct) ct')"
proof -
  from refresh_ok [of c ct] assms(4) obtain rf cs where r: "Refresh_ClockTick c (refresh ct, channel_state ct) = Inr (rf, cs)"
    "hw_ok c (ct\<lparr>refresh := rf, channel_state := cs\<rparr>)" "keeps c ct (ct\<lparr>refresh := rf, channel_state := cs\<rparr>)" by (auto simp: ctl_ok_def)
  let ?ct0 = "ct\<lparr>refresh := rf, channel_state := cs\<rparr>"
  have b0: "books_ok no_command ?ct0" using assms(4) by (subst books_frame [of _ ct]) (simp_all add: waiting_def ctl_ok_def)
  from choose_ok [OF assms(1) r(2) b0] obtain cmd ct1 where ch: "choose_command c ?ct0 = Inr (cmd, ct1)" "hw_ok c ct1" "books_ok cmd ct1"
    "keeps c ?ct0 ct1" "IsValid cmd \<longrightarrow> proposal c ct1 cmd" by blast
  have "\<exists>ct2. (if IsValid cmd then issue_chosen c cmd ct1 else Inr ct1) = Inr ct2 \<and> ctl_ok c ct2 \<and> keeps c ct1 ct2"
  proof (cases "IsValid cmd")
    case True
    then show ?thesis using issue_chosen_ok [OF ch(2,3) True _ assms(3)] ch(5) by simp
  next
    case False
    then have "\<not> IsReadWrite cmd" by (auto simp: command_kinds)
    then have "books_ok no_command ct1" using ch(3) by (simp add: books_ok_def)
    then show ?thesis using False ch(2) by (simp add: ctl_ok_def)
  qed
  then obtain ct2 where i: "(if IsValid cmd then issue_chosen c cmd ct1 else Inr ct1) = Inr ct2" "ctl_ok c ct2" "keeps c ct1 ct2" by blast
  from accounts_ok [OF i(2)] obtain ct3 where a: "foldE (account_rank c) [0 .. ranks c - 1] ct2 = Inr ct3" "ctl_ok c ct3" "keeps c ct2 ct3" by blast
  from schedule_ok [OF assms(1) a(2)] obtain ct5 where s: "ScheduleTransaction c ct3 = Inr ct5" "ctl_ok c ct5" "keeps c ct3 ct5" by blast
  have kp: "keeps c ct ct5" using r(3) ch(4) i(3) a(3) s(3) keeps_trans by metis
  let ?ct = "ct5\<lparr>ctl_clk := ctl_clk ct5 + 1, cmd_queue := cq_ClockTick (cmd_queue ct5), simple_stats := Increment num_cycles (simple_stats ct5)\<rparr>"
  have "ctl_ClockTick c ct = Inr ?ct" using r(1) ch(1) i(1) a(1) s(1) assms(2) by (simp add: ctl_ClockTick_def)
  moreover have "books_ok no_command ?ct" using s(2)
    by (subst books_frame [of _ ct5]) (simp_all add: waiting_def ctl_ok_def cq_ClockTick_def)
  moreover have "hw_ok c ?ct" using s(2) by (simp add: ctl_ok_def hw_ok_def cq_ClockTick_def cq_ok_def)
  ultimately show ?thesis using kp by (simp add: ctl_ok_def keeps_def ctl_owed_def traced_def)
qed

lemma books_insert:
  assumes "finite K" and "M = mset_set K" and "a \<notin> K"
  shows "add_mset a M = mset_set (insert a K)"
  using assms by simp

lemma ctl_add_ok:
  assumes "ctl_ok c ct"
  shows "ctl_ok c (ctl_AddTransaction t ct)" and "ctl_owed (ctl_AddTransaction t ct) = add_mset (tag t) (ctl_owed ct)"
    and "ctl_clk (ctl_AddTransaction t ct) = ctl_clk ct" and "traced c k (ctl_AddTransaction t ct) = traced c k ct"
proof -
  let ?ct = "ctl_AddTransaction t ct"
  have f: "channel_state ?ct = channel_state ct" "refresh ?ct = refresh ct" "cmd_queue ?ct = cmd_queue ct" "ctl_clk ?ct = ctl_clk ct"
    "cmd_trace ?ct = cmd_trace ct"
    by (simp_all add: ctl_AddTransaction_def Let_def)
  have st: "simple_stats ?ct = AddValue interarrival_latency (int_of_u64 (ctl_clk ct - last_trans_clk ct)) (simple_stats ct)"
    by (simp add: ctl_AddTransaction_def Let_def)
  then have hw: "hw_ok c ?ct" using assms f by (simp add: ctl_ok_def hw_ok_def)
  have b: "open_addrs False ct = mset_set (fst ` set (pending_rd_q ct))" "open_addrs True ct = mset_set (fst ` set (pending_wr_q ct))"
    "distinct (map fst (pending_wr_q ct))" using assms by (simp_all add: ctl_ok_def books_ok_def)
  have cnt: "count_key a (xs @ [(a, x)]) = Suc (count_key a xs)" for a :: u64 and xs :: "(u64 \<times> Transaction) list" and x
    by (simp add: count_key_def)
  have "books_ok no_command ?ct \<and> ctl_owed ?ct = add_mset (tag t) (ctl_owed ct)"
    using b unfolding books_ok_def ctl_owed_def
    by (auto simp: ctl_AddTransaction_def Let_def open_addrs_def waiting_def cnt count_key_zero tag_def insert_absorb)
  then show "ctl_ok c ?ct" and "ctl_owed ?ct = add_mset (tag t) (ctl_owed ct)" using hw by (simp_all add: ctl_ok_def)
  show "ctl_clk ?ct = ctl_clk ct" by (rule f(4))
  show "traced c k ?ct = traced c k ct" using f by (simp add: traced_def)
qed

lemma ctl_return_ok:
  assumes "ctl_ok c ct" and "ReturnDoneTrans clk ct = (Some p, ct')"
  shows "ctl_ok c ct'" and "ctl_owed ct = add_mset p (ctl_owed ct')" and "ctl_clk ct' = ctl_clk ct"
    and "traced c k ct' = traced c k ct" and "length (return_queue ct') < length (return_queue ct)"
proof -
  obtain i where i0: "first_idx (\<lambda>t. clk \<ge> complete_cycle t) (return_queue ct) = Some i"
    using assms(2) by (cases "first_idx (\<lambda>t. clk \<ge> complete_cycle t) (return_queue ct)") (simp_all add: ReturnDoneTrans_def)
  define t where "t = return_queue ct ! i"
  define st where "st = (if is_write t then Increment num_writes_done (simple_stats ct)
    else AddValue read_latency (int_of_u64 (ctl_clk ct - added_cycle t)) (Increment num_reads_done (simple_stats ct)))"
  have i: "i < length (return_queue ct)" "p = tag (return_queue ct ! i)"
    and ct': "ct' = ct\<lparr>simple_stats := st, return_queue := erase_at i (return_queue ct)\<rparr>"
    using assms(2) i0 by (auto simp: ReturnDoneTrans_def Let_def tag_def first_idx_Some st_def t_def)
  have st: "stats_ok (nat (ranks c)) (simple_stats ct) \<longrightarrow> stats_ok (nat (ranks c)) st" by (simp add: st_def)
  have "books_ok no_command ct'" using assms(1) unfolding ct' by (subst books_frame [of _ ct]) (simp_all add: waiting_def ctl_ok_def)
  then show "ctl_ok c ct'" using assms(1) st by (simp add: ct' ctl_ok_def hw_ok_def)
  show "ctl_owed ct = add_mset p (ctl_owed ct')"
    unfolding i(2) ctl_owed_def ct' mset_erase_at [OF i(1), symmetric] by simp
  show "ctl_clk ct' = ctl_clk ct" "traced c k ct' = traced c k ct" by (simp_all add: ct' traced_def)
  show "length (return_queue ct') < length (return_queue ct)" using i(1) by (simp add: ct')
qed

lemma ReturnDoneTrans_none: "ReturnDoneTrans clk ct = (None, ct') \<Longrightarrow> ct' = ct"
  by (auto simp: ReturnDoneTrans_def Let_def split: option.splits)

lemma ctl_epoch_ok:
  assumes "ctl_ok c ct"
  shows "\<exists>ct'. ctl_PrintEpochStats ct = Inr ct' \<and> ctl_ok c ct' \<and> ctl_owed ct' = ctl_owed ct \<and> ctl_clk ct' = ctl_clk ct
    \<and> (\<forall>k. traced c k ct' = traced c k ct)"
proof -
  have "stats_ok (nat (ranks c)) (Increment epoch_num (simple_stats ct))" using assms by (simp add: ctl_ok_def hw_ok_def)
  from UpdateEpochStats_ok [OF this] obtain st where "UpdateEpochStats (Increment epoch_num (simple_stats ct)) = Inr st"
    "stats_ok (nat (ranks c)) st" by blast
  then show ?thesis using assms
    by (simp add: ctl_PrintEpochStats_def ctl_ok_def hw_ok_def books_ok_def open_addrs_def waiting_def ctl_owed_def traced_def)
qed

lemma Controller_new_ok:
  assumes "geo_fits c" and "queue_structure c = ''PER_BANK'' \<or> queue_structure c = ''PER_RANK''" and "Refresh_new c = Inr rf" and "rf_ok c rf"
  shows "\<exists>ct. Controller_new c = Inr ct \<and> ctl_ok c ct \<and> ctl_owed ct = {#} \<and> ctl_clk ct = 0 \<and> traced c 0 ct \<and> cmd_trace ct = []"
proof -
  obtain q where q: "CommandQueue_new c = Inr q" "cq_ok c q" "cq_clk q = 0" "concat (queues q) = []"
    using CommandQueue_new_ok [OF assms(1,2)] by blast
  have g: "geo_ok c" using assms(1) by (simp add: geo_fits_def)
  have "True \<notin> set (rank_is_sref (ChannelState_new c))" "refreshes_ok c (ChannelState_new c)"
    by (simp_all add: ChannelState_new_def refreshes_ok_def)
  then show ?thesis using q assms(3,4) ChannelState_new_ok(1) [OF g] ChannelState_new_ok(2) [of c] run_new [OF g] SimpleStats_new_ok [of c]
    by (auto simp: Controller_new_def ctl_ok_def hw_ok_def books_ok_def open_addrs_def waiting_def ctl_owed_def traced_def)
qed

end
