(* ===== verification/Dram_System.thy ===== *)
theory Dram_System
  imports Controller_Invariants Dram_Interface
begin

text \<open>
  \<open>DRAMsim3/src/dram_system.cc\<close>: a memory system with one controller per channel (\<open>JedecDRAMSystem\<close>) and the
  fixed-latency one (\<open>IdealDRAMSystem\<close>).  A clock tick reports the callbacks it makes as a list.  The
  Jedec system is an instance of the contract \<open>memory_system\<close>, so the lemmas about the accelerator's
  DRAM interface hold of it; its runs carry the timing lemmas of the channel to the whole system.
\<close>

record jedec =
  js_clk :: u64
  last_req_clk :: u64
  ctrls :: "controller list"

definition GetChannel :: "dram_config \<Rightarrow> u64 \<Rightarrow> int result" where
  "GetChannel c hex = bindE (shr64 hex (shift_bits c)) (\<lambda>a. field a (ch_pos c) (ch_mask c))"

definition JedecDRAMSystem_new :: "dram_config \<Rightarrow> jedec result" where
  "JedecDRAMSystem_new c =
     (if IsHMC c then Inl Abrupt_Exit
      else bindE (mapE (\<lambda>_. Controller_new c) [0 .. channels c - 1]) (\<lambda>cts. Inr \<lparr>js_clk = 0, last_req_clk = 0, ctrls = cts\<rparr>))"

definition js_WillAcceptTransaction :: "dram_config \<Rightarrow> jedec \<Rightarrow> u64 \<Rightarrow> bool \<Rightarrow> bool result" where
  "js_WillAcceptTransaction c s hex w =
     bindE (GetChannel c hex) (\<lambda>ch.
     bindE (vec_get (ctrls s) (idx_of_int ch)) (\<lambda>ct. Inr (WillAcceptTransaction c ct w)))"

definition js_AddTransaction :: "dram_config \<Rightarrow> jedec \<Rightarrow> u64 \<Rightarrow> bool \<Rightarrow> jedec result" where
  "js_AddTransaction c s hex w =
     bindE (GetChannel c hex) (\<lambda>ch.
     bindE (vec_get (ctrls s) (idx_of_int ch)) (\<lambda>ct.
     if WillAcceptTransaction c ct w
     then Inr (s\<lparr>ctrls := (ctrls s)[idx_of_int ch := ctl_AddTransaction (new_transaction hex w) ct], last_req_clk := js_clk s\<rparr>)
     else Inl Abrupt_Exit))"

lemma return_shrinks: "ReturnDoneTrans clk ct = (Some p, ct') \<Longrightarrow> length (return_queue ct') < length (return_queue ct)"
  by (auto simp: ReturnDoneTrans_def Let_def first_idx_Some split: option.splits)

text \<open>The inner \<open>while (true)\<close>: callbacks until a channel has nothing left that is done.\<close>

function return_loop :: "u64 \<Rightarrow> controller \<Rightarrow> di_trans list \<times> controller" where
  "return_loop clk ct = (case ReturnDoneTrans clk ct of
       (None, ct') \<Rightarrow> ([], ct')
     | (Some p, ct') \<Rightarrow> let r = return_loop clk ct' in (p # fst r, snd r))"
  by pat_completeness auto
termination
  by (relation "measure (\<lambda>(clk, ct). length (return_queue ct))") (auto dest: return_shrinks [OF sym])

declare return_loop.simps [simp del]

text \<open>The second half of a tick, the same in both memory systems: every controller ticks, and at the end of
  an epoch prints.  \<open>clk\<close> is the clock after the increment.\<close>

definition tick_controllers :: "dram_config \<Rightarrow> u64 \<Rightarrow> controller list \<Rightarrow> controller list result" where
  "tick_controllers c clk cts =
     bindE (mapE (ctl_ClockTick c) cts) (\<lambda>cts'.
     bindE (checkE (u64_of_int (epoch_period c) \<noteq> 0) UB_Division) (\<lambda>_.
     if clk mod u64_of_int (epoch_period c) = 0 then mapE ctl_PrintEpochStats cts' else Inr cts'))"

definition js_ClockTick :: "dram_config \<Rightarrow> jedec \<Rightarrow> (jedec \<times> di_trans list) result" where
  "js_ClockTick c s =
     (let rs = map (return_loop (js_clk s)) (ctrls s); clk = js_clk s + 1 in
      bindE (tick_controllers c clk (map snd rs)) (\<lambda>cts.
      Inr (s\<lparr>js_clk := clk, ctrls := cts\<rparr>, concat (map fst rs))))"

definition js_IsQueueFill :: "jedec \<Rightarrow> bool" where
  "js_IsQueueFill s \<longleftrightarrow> list_ex ctl_IsQueueFill (ctrls s)"

definition js_ResetStats :: "jedec \<Rightarrow> jedec" where
  "js_ResetStats s = s\<lparr>ctrls := map ctl_ResetStats (ctrls s)\<rparr>"

definition js_PrintStats :: "jedec \<Rightarrow> jedec result" where
  "js_PrintStats s = bindE (mapE ctl_PrintFinalStats (ctrls s)) (\<lambda>cts. Inr (s\<lparr>ctrls := cts\<rparr>))"

definition jedec_ops :: "dram_config \<Rightarrow> jedec mem_ops" where
  "jedec_ops c = \<lparr>will_accept = js_WillAcceptTransaction c, add_trans = js_AddTransaction c, clock_tick = js_ClockTick c,
     is_queue_fill = js_IsQueueFill\<rparr>"

section \<open>The ideal memory\<close>

record ideal =
  id_clk :: u64
  infinite_buffer_q :: "Transaction list"

definition ideal_AddTransaction :: "u64 \<Rightarrow> bool \<Rightarrow> ideal \<Rightarrow> ideal" where
  "ideal_AddTransaction hex w s =
     s\<lparr>infinite_buffer_q := infinite_buffer_q s @ [(new_transaction hex w)\<lparr>added_cycle := id_clk s\<rparr>]\<rparr>"

text \<open>The loop erases what is done and then steps over the element that moved into its place.\<close>

fun ideal_scan :: "u64 \<Rightarrow> u64 \<Rightarrow> Transaction list \<Rightarrow> di_trans list \<times> Transaction list" where
  "ideal_scan clk lat [] = ([], [])"
| "ideal_scan clk lat (t # ts) =
     (if clk - added_cycle t \<ge> lat then
        (case ts of
           [] \<Rightarrow> ([tag t], [])
         | u # us \<Rightarrow> let r = ideal_scan clk lat us in (tag t # fst r, u # snd r))
      else let r = ideal_scan clk lat ts in (fst r, t # snd r))"

definition ideal_ClockTick :: "dram_config \<Rightarrow> ideal \<Rightarrow> ideal \<times> di_trans list" where
  "ideal_ClockTick c s =
     (let r = ideal_scan (id_clk s) (u64_of_int (ideal_memory_latency c)) (infinite_buffer_q s) in
      (s\<lparr>id_clk := id_clk s + 1, infinite_buffer_q := snd r\<rparr>, fst r))"

section \<open>The contract\<close>

definition sys_cfg :: "dram_config \<Rightarrow> bool" where
  "sys_cfg c \<longleftrightarrow> geo_fits c \<and> \<not> enable_self_refresh c \<and> \<not> enable_hbm_dual_cmd c \<and> u64_of_int (epoch_period c) \<noteq> 0"

definition jedec_ok :: "dram_config \<Rightarrow> jedec \<Rightarrow> bool" where
  "jedec_ok c s \<longleftrightarrow> sys_cfg c \<and> length (ctrls s) = nat (channels c) \<and> (\<forall>ct \<in> set (ctrls s). ctl_ok c ct)"

definition jedec_owed :: "jedec \<Rightarrow> di_trans multiset" where
  "jedec_owed s = sum_list (map ctl_owed (ctrls s))"

lemma GetChannel_in: "map_ok c \<Longrightarrow> \<exists>ch. GetChannel c hex = Inr ch \<and> 0 \<le> ch \<and> ch < channels c"
  by (auto simp: GetChannel_def shr64_def map_ok_def intro!: field_in)

lemma channel_at:
  assumes "jedec_ok c s"
  shows "\<exists>ch. GetChannel c hex = Inr ch \<and> idx_of_int ch < length (ctrls s)"
proof -
  have m: "map_ok c" using assms by (simp add: jedec_ok_def sys_cfg_def geo_fits_def)
  then obtain ch where ch: "GetChannel c hex = Inr ch" "0 \<le> ch" "ch < channels c" using GetChannel_in by blast
  then have "idx_of_int ch = nat ch" using m by (auto simp: map_ok_def)
  then show ?thesis using ch assms by (auto simp: jedec_ok_def)
qed

lemma mapE_each:
  assumes "\<And>x. x \<in> set xs \<Longrightarrow> \<exists>y. f x = Inr y \<and> P x y"
  shows "\<exists>ys. mapE f xs = Inr ys \<and> list_all2 P xs ys"
  using assms
proof (induction xs)
  case (Cons x xs)
  then obtain ys where "mapE f xs = Inr ys" "list_all2 P xs ys" by auto
  moreover obtain y where "f x = Inr y" "P x y" using Cons.prems by auto
  ultimately show ?case by auto
qed simp

lemma list_all2_map_eq: "list_all2 P xs ys \<Longrightarrow> (\<And>x y. P x y \<Longrightarrow> g y = h x) \<Longrightarrow> map g ys = map h xs"
  by (induction rule: list_all2_induct) auto

lemma list_all2_all: "list_all2 P xs ys \<Longrightarrow> (\<And>x y. x \<in> set xs \<Longrightarrow> P x y \<Longrightarrow> Q y) \<Longrightarrow> \<forall>y \<in> set ys. Q y"
  by (induction rule: list_all2_induct) auto

lemma return_loop_ok:
  assumes "ctl_ok c ct"
  shows "ctl_ok c (snd (return_loop clk ct))" and "ctl_owed ct = ctl_owed (snd (return_loop clk ct)) + mset (fst (return_loop clk ct))"
    and "ctl_clk (snd (return_loop clk ct)) = ctl_clk ct" and "traced c k (snd (return_loop clk ct)) = traced c k ct"
proof -
  have "ctl_ok c (snd (return_loop clk ct)) \<and> ctl_owed ct = ctl_owed (snd (return_loop clk ct)) + mset (fst (return_loop clk ct))
    \<and> ctl_clk (snd (return_loop clk ct)) = ctl_clk ct \<and> traced c k (snd (return_loop clk ct)) = traced c k ct"
    using assms
  proof (induction clk ct rule: return_loop.induct)
    case (1 clk ct)
    show ?case
    proof (cases "ReturnDoneTrans clk ct")
      case (Pair r ct')
      show ?thesis
      proof (cases r)
        case None
        then have "ct' = ct" using Pair ReturnDoneTrans_none by blast
        then show ?thesis using Pair None 1(2) by (simp add: return_loop.simps [of clk ct])
      next
        case (Some p)
        note r = ctl_return_ok [OF 1(2) Pair [unfolded Some]]
        from 1(1) [OF Pair [symmetric] Some r(1)] r show ?thesis
          by (simp add: return_loop.simps [of clk ct] Pair Some Let_def)
      qed
    qed
  qed
  then show "ctl_ok c (snd (return_loop clk ct))" and "ctl_owed ct = ctl_owed (snd (return_loop clk ct)) + mset (fst (return_loop clk ct))"
    and "ctl_clk (snd (return_loop clk ct)) = ctl_clk ct" and "traced c k (snd (return_loop clk ct)) = traced c k ct" by simp_all
qed

text \<open>What one tick does to one controller.\<close>

definition ticked :: "dram_config \<Rightarrow> controller \<Rightarrow> controller \<Rightarrow> bool" where
  "ticked c ct ct' \<longleftrightarrow> ctl_ok c ct' \<and> ctl_owed ct' = ctl_owed ct \<and> ctl_clk ct' = ctl_clk ct + 1
     \<and> (traced c (ctl_clk ct) ct \<longrightarrow> traced c (ctl_clk ct) ct')"

lemma tick_controllers_ok:
  assumes "sys_cfg c" and "\<forall>ct \<in> set cts0. ctl_ok c ct"
  shows "\<exists>cts. tick_controllers c clk cts0 = Inr cts \<and> list_all2 (ticked c) cts0 cts"
proof -
  let ?ep = "clk mod u64_of_int (epoch_period c) = 0"
  have g: "geo_fits c" "\<not> enable_self_refresh c" "\<not> enable_hbm_dual_cmd c" "u64_of_int (epoch_period c) \<noteq> 0"
    using assms by (simp_all add: sys_cfg_def)
  have "\<exists>cts. mapE (ctl_ClockTick c) cts0 = Inr cts \<and> list_all2 (ticked c) cts0 cts"
    using assms(2) ctl_tick_ok [OF g(1-3)] by (intro mapE_each) (auto simp: ticked_def)
  then obtain cts where cts: "mapE (ctl_ClockTick c) cts0 = Inr cts" "list_all2 (ticked c) cts0 cts" by blast
  have ok: "\<forall>ct \<in> set cts. ctl_ok c ct" by (rule list_all2_all [OF cts(2)]) (simp add: ticked_def)
  let ?same = "\<lambda>ct ct'. ctl_ok c ct' \<and> ctl_owed ct' = ctl_owed ct \<and> ctl_clk ct' = ctl_clk ct \<and> (\<forall>k. traced c k ct' = traced c k ct)"
  have ep: "\<exists>ct'. ctl_PrintEpochStats ct = Inr ct' \<and> ?same ct ct'" if "ctl_ok c ct" for ct
    by (rule ctl_epoch_ok [OF that])
  have "\<exists>cts'. (if ?ep then mapE ctl_PrintEpochStats cts else Inr cts) = Inr cts' \<and> list_all2 ?same cts cts'"
  proof (cases ?ep)
    case True
    then show ?thesis using mapE_each [of cts ctl_PrintEpochStats ?same] ep ok by simp
  next
    case False
    have "list_all2 ?same cts cts" using ok by (intro list_all2_same [THEN iffD2]) simp
    then show ?thesis using False by simp
  qed
  then obtain cts' where c': "(if ?ep then mapE ctl_PrintEpochStats cts else Inr cts) = Inr cts'" "list_all2 ?same cts cts'" by blast
  have "list_all2 (ticked c) cts0 cts'"
    by (rule list_all2_trans [OF _ cts(2) c'(2)]) (auto simp: ticked_def)
  moreover have "tick_controllers c clk cts0 = Inr cts'"
    using cts(1) c'(1) g(4) by (simp add: tick_controllers_def)
  ultimately show ?thesis by blast
qed

lemma jedec_tick:
  assumes "jedec_ok c s"
  shows "\<exists>cts. js_ClockTick c s = Inr (s\<lparr>js_clk := js_clk s + 1, ctrls := cts\<rparr>, concat (map (\<lambda>ct. fst (return_loop (js_clk s) ct)) (ctrls s)))
    \<and> list_all2 (ticked c) (map (\<lambda>ct. snd (return_loop (js_clk s) ct)) (ctrls s)) cts"
proof -
  have "\<forall>ct \<in> set (map (\<lambda>ct. snd (return_loop (js_clk s) ct)) (ctrls s)). ctl_ok c ct"
    using assms return_loop_ok(1) by (auto simp: jedec_ok_def)
  moreover have "sys_cfg c" using assms by (simp add: jedec_ok_def)
  ultimately obtain cts where "tick_controllers c (js_clk s + 1) (map (\<lambda>ct. snd (return_loop (js_clk s) ct)) (ctrls s)) = Inr cts"
    "list_all2 (ticked c) (map (\<lambda>ct. snd (return_loop (js_clk s) ct)) (ctrls s)) cts" using tick_controllers_ok by blast
  then show ?thesis by (intro exI [of _ cts]) (simp add: js_ClockTick_def Let_def comp_def)
qed

lemma jedec_tick_ok:
  assumes "jedec_ok c s"
  shows "\<exists>s' cs. js_ClockTick c s = Inr (s', cs) \<and> jedec_ok c s' \<and> jedec_owed s = jedec_owed s' + mset cs"
proof -
  obtain cts where t: "js_ClockTick c s = Inr (s\<lparr>js_clk := js_clk s + 1, ctrls := cts\<rparr>, concat (map (\<lambda>ct. fst (return_loop (js_clk s) ct)) (ctrls s)))"
    "list_all2 (ticked c) (map (\<lambda>ct. snd (return_loop (js_clk s) ct)) (ctrls s)) cts" using jedec_tick [OF assms] by blast
  have ok: "\<forall>ct \<in> set cts. ctl_ok c ct" by (rule list_all2_all [OF t(2)]) (simp add: ticked_def)
  have len: "length cts = length (ctrls s)" using list_all2_lengthD [OF t(2)] by simp
  have ow: "map ctl_owed cts = map ctl_owed (map (\<lambda>ct. snd (return_loop (js_clk s) ct)) (ctrls s))"
    by (rule list_all2_map_eq [OF t(2)]) (simp add: ticked_def)
  have "\<forall>ct \<in> set xs. ctl_ok c ct \<Longrightarrow> sum_list (map ctl_owed xs)
      = sum_list (map (\<lambda>ct. ctl_owed (snd (return_loop (js_clk s) ct))) xs) + mset (concat (map (\<lambda>ct. fst (return_loop (js_clk s) ct)) xs))" for xs
  proof (induction xs)
    case (Cons ct xs)
    have "ctl_owed ct = ctl_owed (snd (return_loop (js_clk s) ct)) + mset (fst (return_loop (js_clk s) ct))"
      using return_loop_ok(2) [of c ct] Cons.prems by simp
    then show ?case using Cons by (simp add: ac_simps)
  qed simp
  then have "jedec_owed s = sum_list (map ctl_owed cts) + mset (concat (map (\<lambda>ct. fst (return_loop (js_clk s) ct)) (ctrls s)))"
    using assms unfolding ow by (simp add: jedec_owed_def jedec_ok_def comp_def)
  then show ?thesis using t(1) ok len assms by (simp add: jedec_ok_def jedec_owed_def)
qed

interpretation jedec: memory_system "jedec_ops c" "jedec_ok c" jedec_owed for c
proof unfold_locales
  fix s a w
  assume ok: "jedec_ok c s"
  obtain ch where ch: "GetChannel c a = Inr ch" "idx_of_int ch < length (ctrls s)" using channel_at [OF ok] by blast
  then show "\<exists>b. will_accept (jedec_ops c) s a w = Inr b" by (simp add: jedec_ops_def js_WillAcceptTransaction_def)
  assume acc: "will_accept (jedec_ops c) s a w = Inr True"
  let ?ct = "ctrls s ! idx_of_int ch"
  have w: "WillAcceptTransaction c ?ct w" using acc ch by (simp add: jedec_ops_def js_WillAcceptTransaction_def)
  have ct: "ctl_ok c ?ct" using ok ch by (simp add: jedec_ok_def)
  note add = ctl_add_ok [OF ct, where t = "new_transaction a w"]
  let ?s = "s\<lparr>ctrls := (ctrls s)[idx_of_int ch := ctl_AddTransaction (new_transaction a w) ?ct], last_req_clk := js_clk s\<rparr>"
  have "add_trans (jedec_ops c) s a w = Inr ?s" using ch w by (simp add: jedec_ops_def js_AddTransaction_def)
  moreover have "jedec_ok c ?s" using ok add(1) by (auto simp: jedec_ok_def dest!: set_update_subset_insert [THEN subsetD])
  moreover have "jedec_owed ?s = add_mset (a, w) (jedec_owed s)"
    using sum_list_update_mset [OF ch(2), of ctl_owed _ "(a, w)"] add(2) by (simp add: jedec_owed_def tag_def new_transaction_def)
  ultimately show "\<exists>m'. add_trans (jedec_ops c) s a w = Inr m' \<and> jedec_ok c m' \<and> jedec_owed m' = add_mset (a, w) (jedec_owed s)" by blast
next
  fix s
  assume "jedec_ok c s"
  from jedec_tick_ok [OF this] show "\<exists>m' cs. clock_tick (jedec_ops c) s = Inr (m', cs) \<and> jedec_ok c m' \<and> jedec_owed s = jedec_owed m' + mset cs"
    by (simp add: jedec_ops_def)
qed

lemma jedec_new_ok:
  assumes "sys_cfg c" and "\<not> IsHMC c" and "queue_structure c = ''PER_BANK'' \<or> queue_structure c = ''PER_RANK''"
    and "Refresh_new c = Inr rf" and "rf_ok c rf"
  shows "\<exists>s. JedecDRAMSystem_new c = Inr s \<and> jedec_ok c s \<and> jedec_owed s = {#}
    \<and> (\<forall>ct \<in> set (ctrls s). ctl_clk ct = 0 \<and> traced c 0 ct)"
proof -
  have g: "geo_fits c" using assms(1) by (simp add: sys_cfg_def)
  obtain ct where ct: "Controller_new c = Inr ct" "ctl_ok c ct" "ctl_owed ct = {#}" "ctl_clk ct = 0" "traced c 0 ct"
    using Controller_new_ok [OF g assms(3-5)] by blast
  have m: "mapE (\<lambda>_. Controller_new c) xs = Inr (replicate (length xs) ct)" for xs :: "int list"
    using ct(1) by (induction xs) simp_all
  have z: "sum_list (replicate n ({#} :: di_trans multiset)) = {#}" for n by (induction n) simp_all
  show ?thesis using assms(1,2) ct m by (auto simp: JedecDRAMSystem_new_def jedec_ok_def jedec_owed_def z map_replicate_const)
qed

section \<open>Runs of the system\<close>

text \<open>Any sequence of accepted transactions and ticks, with the number of ticks.\<close>

inductive jedec_run :: "dram_config \<Rightarrow> jedec \<Rightarrow> nat \<Rightarrow> jedec \<Rightarrow> bool" for c :: dram_config and s0 :: jedec where
  jr_start: "jedec_run c s0 0 s0"
| jr_add: "jedec_run c s0 n s \<Longrightarrow> js_WillAcceptTransaction c s a w = Inr True \<Longrightarrow> js_AddTransaction c s a w = Inr s' \<Longrightarrow> jedec_run c s0 n s'"
| jr_tick: "jedec_run c s0 n s \<Longrightarrow> js_ClockTick c s = Inr (s', cs) \<Longrightarrow> jedec_run c s0 (Suc n) s'"

inductive_cases jr_tickE: "jedec_run c s0 (Suc n) s"

definition all_traced :: "dram_config \<Rightarrow> nat \<Rightarrow> jedec \<Rightarrow> bool" where
  "all_traced c n s \<longleftrightarrow> (\<forall>ct \<in> set (ctrls s). ctl_clk ct = of_nat n \<and> (n < 2 ^ 64 \<longrightarrow> traced c (of_nat n) ct))"

lemma traced_mono: "traced c k ct \<Longrightarrow> k \<le> m \<Longrightarrow> traced c m ct"
  unfolding traced_def by (blast intro: order_trans)

lemma u64_step: "Suc n < 2 ^ 64 \<Longrightarrow> (of_nat n :: u64) \<le> of_nat (Suc n)"
  by (simp only: word_le_nat_alt unsigned_of_nat take_bit_nat_eq_self, simp add: take_bit_nat_eq_self)

lemma jedec_run_ok:
  assumes "jedec_run c s0 n s" and "jedec_ok c s0" and "all_traced c 0 s0"
  shows "jedec_ok c s \<and> all_traced c n s"
  using assms(1)
proof (induction rule: jedec_run.induct)
  case jr_start
  then show ?case using assms(2,3) by simp
next
  case (jr_add n s a w s')
  have ok: "jedec_ok c s" using jr_add.IH by simp
  obtain ch where ch: "GetChannel c a = Inr ch" "idx_of_int ch < length (ctrls s)" using channel_at [OF ok] by blast
  let ?ct = "ctrls s ! idx_of_int ch"
  have in_s: "?ct \<in> set (ctrls s)" using ch(2) by simp
  have ct: "ctl_ok c ?ct" using ok in_s by (simp add: jedec_ok_def)
  note add = ctl_add_ok [OF ct, where t = "new_transaction a w"]
  have s': "s' = s\<lparr>ctrls := (ctrls s)[idx_of_int ch := ctl_AddTransaction (new_transaction a w) ?ct], last_req_clk := js_clk s\<rparr>"
    using jr_add.hyps(2,3) ch by (auto simp: js_AddTransaction_def js_WillAcceptTransaction_def split: if_splits)
  have "all_traced c n s'" unfolding all_traced_def
  proof
    fix ct'
    assume "ct' \<in> set (ctrls s')"
    then consider "ct' \<in> set (ctrls s)" | "ct' = ctl_AddTransaction (new_transaction a w) ?ct"
      by (auto simp: s' dest!: set_update_subset_insert [THEN subsetD])
    then show "ctl_clk ct' = of_nat n \<and> (n < 2 ^ 64 \<longrightarrow> traced c (of_nat n) ct')"
      using jr_add.IH in_s add(3,4) by cases (simp_all add: all_traced_def)
  qed
  moreover have "jedec_ok c s'" using ok add(1) by (auto simp: s' jedec_ok_def dest!: set_update_subset_insert [THEN subsetD])
  ultimately show ?case by simp
next
  case (jr_tick n s s' cs)
  have ok: "jedec_ok c s" using jr_tick.IH by simp
  from jedec_tick [OF ok] jr_tick.hyps(2) obtain cts where
    t: "s' = s\<lparr>js_clk := js_clk s + 1, ctrls := cts\<rparr>" "list_all2 (ticked c) (map (\<lambda>ct. snd (return_loop (js_clk s) ct)) (ctrls s)) cts" by auto
  have "\<forall>ct \<in> set cts. ctl_clk ct = of_nat (Suc n) \<and> (Suc n < 2 ^ 64 \<longrightarrow> traced c (of_nat (Suc n)) ct)"
  proof (rule list_all2_all [OF t(2)])
    fix ct0 ct'
    assume a: "ct0 \<in> set (map (\<lambda>ct. snd (return_loop (js_clk s) ct)) (ctrls s))" "ticked c ct0 ct'"
    then obtain ct where ct: "ct \<in> set (ctrls s)" "ct0 = snd (return_loop (js_clk s) ct)" by auto
    have ctk: "ctl_ok c ct" using ok ct(1) by (simp add: jedec_ok_def)
    have c0: "ctl_clk ct0 = of_nat n" "n < 2 ^ 64 \<longrightarrow> traced c (of_nat n) ct0"
      using return_loop_ok(3,4) [OF ctk] jr_tick.IH ct by (auto simp: all_traced_def)
    then show "ctl_clk ct' = of_nat (Suc n) \<and> (Suc n < 2 ^ 64 \<longrightarrow> traced c (of_nat (Suc n)) ct')"
      using a(2) traced_mono [OF _ u64_step] by (auto simp: ticked_def)
  qed
  then have "all_traced c (Suc n) s'" by (simp add: t(1) all_traced_def)
  moreover have "jedec_ok c s'" using jedec_tick_ok [OF ok] jr_tick.hyps(2) by auto
  ultimately show ?case by simp
qed

end
