(* ===== verification/Dram_Properties.thy ===== *)
theory Dram_Properties
  imports Dram_System
begin

text \<open>
  The properties of the memory system: decoding of addresses, legality and timing of the issued
  commands, refreshes, statistics, and the answers of the controllers.  \<open>demo_dram\<close> is a small
  configuration the witnesses run on.
\<close>

section \<open>A configured system\<close>

text \<open>The configurations the properties are about: a geometry that fits, a supported queue structure,
  a refresh interval and an epoch that are not zero; no self refresh and no dual commands.\<close>

definition refresh_cfg :: "dram_config \<Rightarrow> bool" where
  "refresh_cfg c \<longleftrightarrow> (case Refresh_new c of Inr rf \<Rightarrow> u64_of_int (refresh_interval rf) \<noteq> 0 | Inl _ \<Rightarrow> False)"

definition memory_cfg :: "dram_config \<Rightarrow> bool" where
  "memory_cfg c \<longleftrightarrow> sys_cfg c \<and> \<not> IsHMC c \<and> (queue_structure c = ''PER_BANK'' \<or> queue_structure c = ''PER_RANK'') \<and> refresh_cfg c"

lemma refresh_started:
  assumes "refresh_cfg c" and "geo_ok c"
  shows "\<exists>rf. Refresh_new c = Inr rf \<and> rf_ok c rf"
proof -
  obtain rf where rf: "Refresh_new c = Inr rf" "u64_of_int (refresh_interval rf) \<noteq> 0"
    using assms(1) by (auto simp: refresh_cfg_def split: sum.splits)
  have "next_rank rf = 0" "next_bg rf = 0" "next_bank rf = 0" using rf(1) by (auto simp: Refresh_new_def bindE_eq_Inr)
  then have "rf_ok c rf" using rf(2) assms(2) by (simp add: rf_ok_def loc_in_def geo_ok_def)
  then show ?thesis using rf(1) by blast
qed

lemma started_ok:
  assumes "memory_cfg c" and "JedecDRAMSystem_new c = Inr s0"
  shows "jedec_ok c s0" and "all_traced c 0 s0" and "jedec_owed s0 = {#}"
proof -
  have "geo_ok c" using assms(1) by (simp add: memory_cfg_def sys_cfg_def geo_fits_def)
  then obtain rf where rf: "Refresh_new c = Inr rf" "rf_ok c rf" using refresh_started assms(1) by (auto simp: memory_cfg_def)
  then obtain s where s: "JedecDRAMSystem_new c = Inr s" "jedec_ok c s" "jedec_owed s = {#}"
    "\<forall>ct \<in> set (ctrls s). ctl_clk ct = 0 \<and> traced c 0 ct"
    using jedec_new_ok [of c rf] assms(1) rf(1) by (auto simp: memory_cfg_def)
  then have "s = s0" using assms(2) by simp
  then show "jedec_ok c s0" and "all_traced c 0 s0" and "jedec_owed s0 = {#}" using s by (simp_all add: all_traced_def)
qed

lemma run_traced:
  assumes "memory_cfg c" and "JedecDRAMSystem_new c = Inr s0" and "jedec_run c s0 n s" and "n < 2 ^ 64" and "ct \<in> set (ctrls s)"
  shows "\<exists>now. issue_run c (cmd_trace ct) now (channel_state ct)"
  using jedec_run_ok [OF assms(3) started_ok(1,2) [OF assms(1,2)]] assms(4,5) by (auto simp: all_traced_def traced_def)

definition demo_dram :: dram_config where
  "demo_dram = \<lparr>protocol = DDR4, channel_size = 1, channels = 1, ranks = 2, banks = 4, bankgroups = 2, banks_per_group = 2,
     rows = 8, columns = 16, device_width = 8, bus_width = 64, devices_per_rank = 8, BL = 8, shift_bits = 6,
     ch_pos = 4, ra_pos = 3, bg_pos = 1, ba_pos = 2, ro_pos = 4, co_pos = 0,
     ch_mask = 0, ra_mask = 1, bg_mask = 1, ba_mask = 1, ro_mask = 7, co_mask = 1,
     burst_cycle = 4, AL = 0, CL = 2, CWL = 2, RL = 2, WL = 2, tCCD_L = 3, tCCD_S = 2, tRTRS = 1, tRTP = 2, tWTR_L = 2,
     tWTR_S = 1, tWR = 2, tRP = 2, tRRD_L = 2, tRRD_S = 1, tRAS = 4, tRCD = 2, tRFC = 5, tRC = 6, tCKESR = 3, tXS = 5,
     tRFCb = 3, tREFI = 100, tREFIb = 20, tFAW = 6, read_delay = 6, write_delay = 6, tPPD = 0, t32AW = 32, tRCDRD = 2, tRCDWR = 2,
     address_mapping = ''rochrababgco'', queue_structure = ''PER_BANK'', row_buf_policy = ''OPEN_PAGE'',
     refresh_policy = BANK_LEVEL_STAGGERED, cmd_queue_size = 4, unified_queue = False, trans_queue_size = 4,
     enable_self_refresh = False, sref_threshold = 1000, enable_hbm_dual_cmd = False, epoch_period = 1000,
     ideal_memory_latency = 10, request_size_bytes = 64,
     num_links = 4, link_width = 16, link_speed = 15000, block_size = 64, xbar_queue_depth = 16\<rparr>"

lemma demo_geo: "geo_fits demo_dram"
  by (simp add: geo_fits_def geo_ok_def map_ok_def demo_dram_def)

lemma demo_cfg_ok: "memory_cfg demo_dram"
  using demo_geo by (simp add: memory_cfg_def sys_cfg_def refresh_cfg_def Refresh_new_def demo_dram_def IsHMC_def u64_of_int_def)

definition demo_start :: jedec where
  "demo_start = (case JedecDRAMSystem_new demo_dram of Inr s \<Rightarrow> s | Inl _ \<Rightarrow> \<lparr>js_clk = 0, last_req_clk = 0, ctrls = []\<rparr>)"

lemma demo_started: "JedecDRAMSystem_new demo_dram = Inr demo_start"
  by (simp add: demo_start_def JedecDRAMSystem_new_def IsHMC_def Controller_new_def CommandQueue_new_def Refresh_new_def demo_dram_def)

text \<open>The system after a read and a write were accepted and some ticks have passed.\<close>

definition demo_step :: "jedec \<Rightarrow> jedec" where
  "demo_step s = (case js_ClockTick demo_dram s of Inr (s', _) \<Rightarrow> s' | Inl _ \<Rightarrow> s)"

definition demo_after :: "nat \<Rightarrow> jedec" where
  "demo_after n = (demo_step ^^ n) (case js_AddTransaction demo_dram demo_start 64 False of Inr s \<Rightarrow> s | Inl _ \<Rightarrow> demo_start)"

lemma demo_accepts: "js_WillAcceptTransaction demo_dram demo_start 64 False = Inr True"
  by (simp add: js_WillAcceptTransaction_def demo_start_def JedecDRAMSystem_new_def IsHMC_def Controller_new_def CommandQueue_new_def
      Refresh_new_def demo_dram_def GetChannel_def shr64_def field_def int_of_u64_def WillAcceptTransaction_def capacity_def)

lemma demo_run: "jedec_run demo_dram demo_start n (demo_after n)"
proof (induction n)
  case 0
  have ok: "jedec_ok demo_dram demo_start" by (rule started_ok(1) [OF demo_cfg_ok demo_started])
  have "\<exists>s. js_AddTransaction demo_dram demo_start 64 False = Inr s"
    using jedec.add_accepted [OF ok, of 64 False] demo_accepts by (auto simp: jedec_ops_def)
  then show ?case using jr_add [OF jr_start demo_accepts] by (auto simp: demo_after_def)
next
  case (Suc n)
  have "jedec_ok demo_dram (demo_after n)"
    using jedec_run_ok [OF Suc started_ok(1,2) [OF demo_cfg_ok demo_started]] by simp
  from jedec_tick_ok [OF this] obtain s' cs where "js_ClockTick demo_dram (demo_after n) = Inr (s', cs)" by blast
  then show ?case using jr_tick [OF Suc] by (simp add: demo_after_def demo_step_def)
qed

lemma demo_one_channel: "length (ctrls (demo_after n)) = 1"
  using jedec_run_ok [OF demo_run [of n] started_ok(1,2) [OF demo_cfg_ok demo_started]] by (simp add: jedec_ok_def demo_dram_def)

section \<open>Commands\<close>

text \<open>C11: whatever command \<open>GetReadyCommand\<close> proposes for a column command or a refresh is legal in every
  bank it acts on and not before the bank's earliest cycle for it; issuing it succeeds and leaves all
  banks able to go on.  It never stops with an error.\<close>

theorem proposed_commands_are_legal:
  assumes "ch_shape c cs" and "all_awake c cs" and "asked c req"
  shows "\<exists>r. GetReadyCommand c cs req clk = Inr r
    \<and> (IsValid r \<longrightarrow> (\<forall>l. acts_on c r l \<longrightarrow> fits (cmd_type r) (bk cs l) \<and> cmd_timing (bk cs l) (cmd_type r) \<le> clk)
        \<and> (\<exists>cs'. UpdateTimingAndStates c r clk cs = Inr cs' \<and> ch_shape c cs' \<and> all_awake c cs'))"
proof -
  obtain r where r: "GetReadyCommand c cs req clk = Inr r" using GetReadyCommand_sound [OF assms] by blast
  have "ready_at c cs r clk" if "IsValid r" by (rule proposed_ready(1) [OF assms r that])
  then show ?thesis using r issue_spec [OF assms(1,2)] unfolding ready_at_def by blast
qed

definition demo_read :: Command where
  "demo_read = \<lparr>cmd_type = CMD_READ, addr = \<lparr>channel = 0, rank = 1, bankgroup = 0, bank = 1, row = 3, column = 0\<rparr>, hex_addr = 896\<rparr>"

theorem proposed_commands_are_legal_witness:
  "\<exists>r. GetReadyCommand demo_dram (ChannelState_new demo_dram) demo_read 1 = Inr r \<and> IsValid r
    \<and> (\<exists>cs'. UpdateTimingAndStates demo_dram r 1 (ChannelState_new demo_dram) = Inr cs' \<and> ch_shape demo_dram cs' \<and> all_awake demo_dram cs')"
proof -
  have g: "geo_ok demo_dram" using demo_geo by (simp add: geo_fits_def)
  have a: "asked demo_dram demo_read"
    by (simp add: asked_def asks_def target_in_def command_kinds demo_read_def loc_in_def loc_of_def demo_dram_def)
  have "GetReadyCommand demo_dram (ChannelState_new demo_dram) demo_read 1 = Inr (demo_read\<lparr>cmd_type := CMD_ACTIVATE\<rparr>)"
    by (simp add: GetReadyCommand_def demo_read_def command_kinds chan_bank_def loc_of_def ChannelState_new_def demo_dram_def
        bank_GetReadyCommand_def required_type_def BankState_new_def ActivationWindowOk_def IsFAWReady_def IsGDDR_def no_command_def
        eval_nat_numeral)
  then show ?thesis using proposed_commands_are_legal [OF ChannelState_new_ok(1) [OF g] ChannelState_new_ok(2) a, of 1]
    by (auto simp: IsValid_def demo_read_def)
qed



text \<open>C3: in every run, a rank is never activated five times within \<open>tFAW\<close> cycles: between an activation
  and the fourth one after it there are at least \<open>tFAW\<close> cycles.\<close>

theorem four_activation_window:
  assumes "memory_cfg c" and "JedecDRAMSystem_new c = Inr s0" and "jedec_run c s0 n s" and "n < 2 ^ 64" and "ct \<in> set (ctrls s)"
    and "0 \<le> r" and "r < ranks c"
  shows "list_all2 (\<lambda>t u. t + u64_of_int (tFAW c) \<le> u)
    (take (length (activations r (cmd_trace ct)) - 4) (activations r (cmd_trace ct))) (drop 4 (activations r (cmd_trace ct)))"
proof -
  from run_traced [OF assms(1-5)] obtain now where "issue_run c (cmd_trace ct) now (channel_state ct)" by blast
  from issue_run_windows [OF this assms(6,7)] show ?thesis
    by (auto simp: window_ok_def list_all2_conv_all_nth add.commute)
qed

theorem four_activation_window_witness:
  "list_all2 (\<lambda>t u. t + 6 \<le> u) (take (length (activations 1 (cmd_trace (ctrls (demo_after 50) ! 0))) - 4) (activations 1 (cmd_trace (ctrls (demo_after 50) ! 0))))
    (drop 4 (activations 1 (cmd_trace (ctrls (demo_after 50) ! 0))))"
proof -
  have "ctrls (demo_after 50) ! 0 \<in> set (ctrls (demo_after 50))" using demo_one_channel [of 50] by simp
  from four_activation_window [OF demo_cfg_ok demo_started demo_run _ this, of 1] show ?thesis
    by (simp add: demo_dram_def u64_of_int_def)
qed

section \<open>Answers\<close>



text \<open>C9: the addresses of the reads that wait in a controller, as transactions or as commands, are exactly
  the keys of its pending reads, each once; the same holds for the writes.\<close>

theorem pending_matches_queues:
  assumes "memory_cfg c" and "JedecDRAMSystem_new c = Inr s0" and "jedec_run c s0 n s" and "ct \<in> set (ctrls s)"
  shows "open_addrs False ct = mset_set (fst ` set (pending_rd_q ct)) \<and> open_addrs True ct = mset_set (fst ` set (pending_wr_q ct))"
  using jedec_run_ok [OF assms(3) started_ok(1,2) [OF assms(1,2)]] assms(4)
  by (simp add: jedec_ok_def ctl_ok_def books_ok_def)

theorem pending_matches_queues_witness:
  "open_addrs False (ctrls (demo_after 7) ! 0) = mset_set (fst ` set (pending_rd_q (ctrls (demo_after 7) ! 0)))
    \<and> open_addrs True (ctrls (demo_after 7) ! 0) = mset_set (fst ` set (pending_wr_q (ctrls (demo_after 7) ! 0)))"
  by (rule pending_matches_queues [OF demo_cfg_ok demo_started demo_run [of 7]]) (simp add: demo_one_channel)

lemma filter_first:
  assumes "first_idx p xs = Some i"
  shows "filter p xs = xs ! i # filter p (erase_at i xs)" and "filter (\<lambda>x. \<not> p x) (erase_at i xs) = filter (\<lambda>x. \<not> p x) xs"
  using assms by (induction xs arbitrary: i) (auto split: if_splits)

text \<open>C12: returning the finished transactions one by one, with the return queue searched from its front
  after every erase, hands back exactly the transactions that are due, in queue order, and keeps the others.\<close>

theorem due_transactions_returned:
  "fst (return_loop clk ct) = map tag (filter (\<lambda>t. complete_cycle t \<le> clk) (return_queue ct))
    \<and> return_queue (snd (return_loop clk ct)) = filter (\<lambda>t. \<not> complete_cycle t \<le> clk) (return_queue ct)"
proof (induction clk ct rule: return_loop.induct)
  case (1 clk ct)
  show ?case
  proof (cases "first_idx (\<lambda>t. complete_cycle t \<le> clk) (return_queue ct)")
    case None
    then have "ReturnDoneTrans clk ct = (None, ct)" by (simp add: ReturnDoneTrans_def)
    then show ?thesis using None by (simp add: return_loop.simps [of clk ct] first_idx_None filter_empty_conv filter_id_conv)
  next
    case (Some i)
    then obtain ct' where r: "ReturnDoneTrans clk ct = (Some (tag (return_queue ct ! i)), ct')"
      "return_queue ct' = erase_at i (return_queue ct)" by (simp add: ReturnDoneTrans_def Let_def tag_def)
    from 1 [OF r(1) [symmetric] refl] filter_first [OF Some] show ?thesis
      by (simp add: return_loop.simps [of clk ct] r Let_def)
  qed
qed






section \<open>Addresses\<close>


lemma demo_mapping: "SetAddressMapping demo_dram = Inr demo_dram" and demo_width: "total_width demo_dram = 7"
  by code_simp+


text \<open>C16: two addresses inside the capacity that decode to the same coordinates differ in the offset bits of
  one request at most: the decoding loses nothing else.\<close>

theorem decoding_is_injective:
  assumes "SetAddressMapping c = Inr c'" and "total_width c < 64" and "0 \<le> shift_bits c'" and "shift_bits c' < 64"
    and "AddressMapping c' x = AddressMapping c' y" and "AddressMapping c' x = Inr a"
    and "unat (drop_bit (nat (shift_bits c')) x) < 2 ^ nat (total_width c)"
    and "unat (drop_bit (nat (shift_bits c')) y) < 2 ^ nat (total_width c)"
  shows "drop_bit (nat (shift_bits c')) x = drop_bit (nat (shift_bits c')) y"
  by (rule AddressMapping_inj [OF assms])

theorem decoding_is_injective_witness: "drop_bit (nat (shift_bits demo_dram)) (900 :: u64) = drop_bit (nat (shift_bits demo_dram)) 959"
proof (rule decoding_is_injective [OF demo_mapping])
  show "AddressMapping demo_dram 900 = AddressMapping demo_dram 959" by code_simp
  show "AddressMapping demo_dram 900 = Inr \<lparr>channel = 0, rank = 1, bankgroup = 1, bank = 1, row = 0, column = 0\<rparr>" by code_simp
qed (simp_all add: demo_width, simp_all add: demo_dram_def)

section \<open>Refresh\<close>

lemma rounds:
  assumes "geo_ok c" and "refresh_policy c = BANK_LEVEL_STAGGERED" and "loc_in c (place rf)"
  shows "\<exists>rf'. foldE (\<lambda>_. IterateNext c) [0 ..< k] rf = Inr rf' \<and> loc_in c (place rf')
    \<and> place_number c (place rf') = (place_number c (place rf) + int k) mod (ranks c * banks c)"
proof (induction k)
  case 0
  then show ?case using place_number_in(1,2) [OF assms(1,3)] assms(3) by simp
next
  case (Suc k)
  then obtain r1 where r1: "foldE (\<lambda>_. IterateNext c) [0 ..< k] rf = Inr r1" "loc_in c (place r1)"
    "place_number c (place r1) = (place_number c (place rf) + int k) mod (ranks c * banks c)" by blast
  obtain r2 where r2: "IterateNext c r1 = Inr r2" "place r2 = next_place c (place r1)" using IterateNext_bank [OF assms(1,2) r1(2)] by blast
  have "place_number c (place r2) = (place_number c (place rf) + int (Suc k)) mod (ranks c * banks c)"
    unfolding r2(2) next_place_number [OF assms(1) r1(2)] r1(3) by (subst mod_add_left_eq) (simp add: ac_simps)
  then show ?case using r1(1) r2 next_place_in [OF assms(1) r1(2)] by (simp add: foldE_append)
qed

lemma place_number_inj: "geo_ok c \<Longrightarrow> loc_in c l \<Longrightarrow> loc_in c l' \<Longrightarrow> place_number c l = place_number c l' \<Longrightarrow> l = l'"
  using place_number_in(3-5) [of c l] place_number_in(3-5) [of c l'] by (simp add: prod_eq_iff)

text \<open>C14: under the bank by bank policy every bank of every rank comes up for a refresh: within
  \<open>ranks * banks\<close> rounds of the refresh timer, whatever its position, the next place to refresh is that bank.\<close>

theorem every_bank_is_refreshed:
  assumes "geo_ok c" and "refresh_policy c = BANK_LEVEL_STAGGERED" and "rf_ok c rf" and "loc_in c l"
  shows "\<exists>k rf'. int k < ranks c * banks c \<and> foldE (\<lambda>_. IterateNext c) [0 ..< k] rf = Inr rf'
    \<and> (next_rank rf', next_bg rf', next_bank rf') = l"
proof -
  let ?N = "ranks c * banks c" and ?p = "place_number c (place rf)" and ?q = "place_number c l"
  have lf: "loc_in c (place rf)" using assms(3) by (simp add: rf_ok_def place_def)
  note q = place_number_in(1,2) [OF assms(1,4)]
  then have N: "0 < ?N" by linarith
  define k where "k = nat ((?q - ?p) mod ?N)"
  have k: "int k = (?q - ?p) mod ?N" using N by (simp add: k_def)
  obtain rf' where r: "foldE (\<lambda>_. IterateNext c) [0 ..< k] rf = Inr rf'" "loc_in c (place rf')" "place_number c (place rf') = (?p + int k) mod ?N"
    using rounds [OF assms(1,2) lf] by blast
  have "(?p + int k) mod ?N = ?q" unfolding k using q by (simp add: mod_add_right_eq)
  then have "place rf' = l" using place_number_inj [OF assms(1) r(2) assms(4)] r(3) by simp
  moreover have "int k < ?N" using k N by simp
  ultimately show ?thesis using r(1) by (auto simp: place_def)
qed

theorem every_bank_is_refreshed_witness:
  "\<exists>k rf'. int k < 8 \<and> foldE (\<lambda>_. IterateNext demo_dram) [0 ..< k] \<lparr>rf_clk = 0, refresh_interval = 20, next_rank = 0, next_bg = 1, next_bank = 0\<rparr> = Inr rf'
    \<and> (next_rank rf', next_bg rf', next_bank rf') = (1, 0, 1)"
proof -
  have g: "geo_ok demo_dram" using demo_geo by (simp add: geo_fits_def)
  have p: "refresh_policy demo_dram = BANK_LEVEL_STAGGERED" by (simp add: demo_dram_def)
  have n: "ranks demo_dram * banks demo_dram = 8" by (simp add: demo_dram_def)
  have r: "rf_ok demo_dram \<lparr>rf_clk = 0, refresh_interval = 20, next_rank = 0, next_bg = 1, next_bank = 0\<rparr>" "loc_in demo_dram (1, 0, 1)"
    by (simp_all add: rf_ok_def u64_of_int_def loc_in_def demo_dram_def)
  show ?thesis by (rule every_bank_is_refreshed [OF g p r, unfolded n])
qed

section \<open>Statistics\<close>

text \<open>C23: closing an epoch sorts every recorded value into a bin that exists: the epoch's bins add up to
  the number of recorded values, the overall bins grow by it, and the overall count of every value grows by
  the epoch's count of that value.\<close>

theorem histogram_keeps_every_value:
  assumes "histo_ok h"
  shows "\<exists>h'. UpdateHisto h = Inr h' \<and> histo_ok h'
    \<and> sum_list (epoch_histo_bins h') = sum_list (map snd (epoch_histo_counts h))
    \<and> sum_list (histo_bins h') = sum_list (histo_bins h) + sum_list (map snd (epoch_histo_counts h))
    \<and> (\<forall>v. recorded_count v (histo_counts h') = recorded_count v (histo_counts h) + recorded_count v (epoch_histo_counts h))"
  using UpdateHisto_spec [OF assms] by blast

theorem histogram_keeps_every_value_witness:
  "\<exists>h'. UpdateHisto ((InitHistoStat 0 200 10)\<lparr>epoch_histo_counts := [(200, 3), (-7, 1), (55, 2)]\<rparr>) = Inr h'
    \<and> sum_list (epoch_histo_bins h') = 6"
  using histogram_keeps_every_value [of "(InitHistoStat 0 200 10)\<lparr>epoch_histo_counts := [(200, 3), (-7, 1), (55, 2)]\<rparr>"]
  by (auto simp: histo_ok_def InitHistoStat_def)

text \<open>An epoch roll-over of the statistics succeeds and changes no total: what a counter has counted
  overall and in the running epoch adds up to the same number as before.\<close>

theorem epoch_keeps_totals:
  assumes "stats_ok n st"
  shows "\<exists>st'. UpdateEpochStats st = Inr st' \<and> stats_ok n st'
    \<and> (\<forall>k. counters st' k + epoch_counters st' k = counters st k + epoch_counters st k)"
  by (rule UpdateEpochStats_ok [OF assms])

theorem epoch_keeps_totals_witness:
  "\<exists>st'. UpdateEpochStats (Increment num_act_cmds (SimpleStats_new demo_dram)) = Inr st'
    \<and> counters st' num_act_cmds + epoch_counters st' num_act_cmds = 1"
proof -
  have "stats_ok (nat (ranks demo_dram)) (Increment num_act_cmds (SimpleStats_new demo_dram))" using SimpleStats_new_ok by simp
  from epoch_keeps_totals [OF this] show ?thesis by (auto simp: Increment_def SimpleStats_new_def)
qed

section \<open>The ideal memory\<close>

text \<open>A tick of the ideal memory loses no transaction, but it skips the one that follows each finished one:
  when all waiting transactions are due, only every second of them is called back.\<close>

theorem ideal_memory_skips:
  assumes "\<forall>t \<in> set ts. clk - added_cycle t \<ge> lat"
  shows "mset (fst (ideal_scan clk lat ts)) + mset (map tag (snd (ideal_scan clk lat ts))) = mset (map tag ts)
    \<and> length (snd (ideal_scan clk lat ts)) = length ts div 2"
  using assms by (induction clk lat ts rule: ideal_scan.induct) (auto simp: Let_def split: list.split)

theorem ideal_memory_skips_witness:
  "length (snd (ideal_scan 30 10 [new_transaction 64 False, new_transaction 128 False, new_transaction 192 True])) = 1"
  using ideal_memory_skips [of "[new_transaction 64 False, new_transaction 128 False, new_transaction 192 True]" 10 30]
  by (simp add: new_transaction_def)

text \<open>C10: every command in a controller's queues is a column command whose coordinates are the decoding of
  its address, and it waits in the queue those coordinates select.\<close>

theorem queued_commands_in_place:
  assumes "memory_cfg c" and "JedecDRAMSystem_new c = Inr s0" and "jedec_run c s0 n s" and "ct \<in> set (ctrls s)"
    and "i < length (queues (cmd_queue ct))" and "cmd \<in> set (queues (cmd_queue ct) ! i)"
  shows "IsReadWrite cmd \<and> AddressMapping c (hex_addr cmd) = Inr (addr cmd)
    \<and> idx_of_int (GetQueueIndex c (queue_struct (cmd_queue ct)) (loc_of (addr cmd))) = i"
  using jedec_run_ok [OF assms(3) started_ok(1,2) [OF assms(1,2)]] assms(4-6)
  by (simp add: jedec_ok_def ctl_ok_def hw_ok_def cq_ok_def queued_ok_def)

lemma demo_queued: "map (\<lambda>q. map cmd_type q) (queues (cmd_queue (ctrls (demo_after 1) ! 0)))
    = [[CMD_READ], [], [], [], [], [], [], []]"
  by code_simp

theorem queued_commands_in_place_witness:
  "AddressMapping demo_dram (hex_addr (queues (cmd_queue (ctrls (demo_after 1) ! 0)) ! 0 ! 0))
    = Inr (addr (queues (cmd_queue (ctrls (demo_after 1) ! 0)) ! 0 ! 0))"
proof -
  let ?qs = "queues (cmd_queue (ctrls (demo_after 1) ! 0))"
  have "length (map (\<lambda>q. map cmd_type q) ?qs) = 8" unfolding demo_queued by simp
  then have l: "0 < length ?qs" by simp
  have "map (\<lambda>q. map cmd_type q) ?qs ! 0 = [CMD_READ]" unfolding demo_queued by simp
  then have "map cmd_type (?qs ! 0) = [CMD_READ]" using l by simp
  then have "?qs ! 0 ! 0 \<in> set (?qs ! 0)" by (cases "?qs ! 0") simp_all
  moreover have "ctrls (demo_after 1) ! 0 \<in> set (ctrls (demo_after 1))" using demo_one_channel [of 1] by simp
  ultimately show ?thesis using queued_commands_in_place [OF demo_cfg_ok demo_started demo_run [of 1] _ l] by blast
qed

end
