(* ===== verification/System_Properties.thy ===== *)
theory System_Properties
  imports Run_Simulator Reader_Properties Dram_Properties
begin

text \<open>
  The properties that span the accelerator side and the memory system: the DRAM interface and the
  simulation loop, running on the Jedec memory system.  They follow from the lemmas of the contract
  \<open>memory_system\<close> through its interpretation \<open>jedec\<close>.
\<close>

text \<open>The interface as \<open>main\<close> builds it: \<open>MAX_DRAM\<close> memory systems, nothing requested.\<close>

lemma fresh_interface:
  assumes "memory_cfg mc" and "JedecDRAMSystem_new mc = Inr m" and "0 < MAX_DRAM c" and "MAX_DRAM c < 2 ^ 31"
  shows "di_wf (jedec_ok mc) c (DRAMInterface_new (replicate (nat (MAX_DRAM c)) m))"
    and "di_flags (DRAMInterface_new (replicate (nat (MAX_DRAM c)) m))"
    and "owed_all jedec_owed (DRAMInterface_new (replicate (nat (MAX_DRAM c)) m)) = {#}"
proof -
  note s = started_ok(1,3) [OF assms(1,2)]
  have "sum_mset (replicate_mset k ({#} :: di_trans multiset)) = {#}" for k by (induction k) simp_all
  then show "owed_all jedec_owed (DRAMInterface_new (replicate (nat (MAX_DRAM c)) m)) = {#}"
    using s(2) by (simp add: owed_all_def DRAMInterface_new_def)
  show "di_wf (jedec_ok mc) c (DRAMInterface_new (replicate (nat (MAX_DRAM c)) m))"
    using s(1) assms(3,4) by (auto simp: di_wf_def DRAMInterface_new_def)
  show "di_flags (DRAMInterface_new (replicate (nat (MAX_DRAM c)) m))" by (rule di_flags_new)
qed

text \<open>C1: no read is lost or answered twice between the accelerator and the memory cells: in every sequence
  of interface calls, the reads requested so far are exactly those still queued, those inside a memory
  system, those completed but not fetched, and those handed out.\<close>

theorem reads_are_conserved:
  assumes "memory_cfg mc" and "JedecDRAMSystem_new mc = Inr m" and "0 < MAX_DRAM c" and "MAX_DRAM c < 2 ^ 31"
    and "di_run (jedec_ops mc) c (DRAMInterface_new (replicate (nat (MAX_DRAM c)) m)) rs hs s"
  shows "reads_of (mset rs) = reads_of (mset (t_queue s)) + reads_of (owed_all jedec_owed s) + mset (f_address s) + mset (w_address s) + mset hs"
proof -
  note f = fresh_interface [OF assms(1-4)]
  from jedec.run_conserves [OF assms(5) f(1,2)] show ?thesis
    unfolding di_conserved_def f(3) by (simp add: DRAMInterface_new_def)
qed

lemma request_run:
  "di_run (jedec_ops demo_dram) file_cfg (DRAMInterface_new (replicate (nat (MAX_DRAM file_cfg)) demo_start)) [(64, False)] []
    (DRAMRequest 64 False (DRAMInterface_new (replicate (nat (MAX_DRAM file_cfg)) demo_start)))"
  using run_request [OF run_start] by fastforce

theorem reads_are_conserved_witness:
  "\<exists>s. di_run (jedec_ops demo_dram) file_cfg (DRAMInterface_new (replicate (nat (MAX_DRAM file_cfg)) demo_start)) [(64, False)] [] s
    \<and> {#64#} = reads_of (mset (t_queue s)) + reads_of (owed_all jedec_owed s) + mset (f_address s) + mset (w_address s)"
proof -
  have "0 < MAX_DRAM file_cfg" "MAX_DRAM file_cfg < 2 ^ 31" by (simp_all add: file_cfg_def)
  from reads_are_conserved [OF demo_cfg_ok demo_started this request_run] request_run show ?thesis by auto
qed

text \<open>C5: the loop that sends the queued transactions always ends, and neither it nor the clock tick that
  follows meets an error: after any sequence of interface calls both return, what was sent left the front
  of the queue in order and is owed by a memory system.\<close>

theorem sending_returns:
  assumes "memory_cfg mc" and "JedecDRAMSystem_new mc = Inr m" and "0 < MAX_DRAM c" and "MAX_DRAM c < 2 ^ 31"
    and "di_run (jedec_ops mc) c (DRAMInterface_new (replicate (nat (MAX_DRAM c)) m)) rs hs s"
  shows "\<exists>s1 s2. AddTransaction (jedec_ops mc) (MAX_DRAM c) s = Inr s1 \<and> UpdateCycle (jedec_ops mc) c s1 = Inr s2
    \<and> (\<exists>sent. t_queue s = sent @ t_queue s1 \<and> owed_all jedec_owed s1 = owed_all jedec_owed s + mset sent)"
proof -
  note f = fresh_interface [OF assms(1-4)]
  have wf: "di_wf (jedec_ok mc) c s" using jedec.run_conserves [OF assms(5) f(1,2)] by blast
  from jedec.AddTransaction_spec [OF wf] obtain s1 where s1: "AddTransaction (jedec_ops mc) (MAX_DRAM c) s = Inr s1" "di_wf (jedec_ok mc) c s1"
    "\<exists>sent. t_queue s = sent @ t_queue s1 \<and> owed_all jedec_owed s1 = owed_all jedec_owed s + mset sent" by blast
  then show ?thesis using jedec.UpdateCycle_spec [OF s1(2)] by blast
qed

theorem sending_returns_witness:
  "\<exists>s1 s2. AddTransaction (jedec_ops demo_dram) 1 (DRAMRequest 64 False (DRAMInterface_new [demo_start])) = Inr s1
    \<and> UpdateCycle (jedec_ops demo_dram) file_cfg s1 = Inr s2"
proof -
  have c: "MAX_DRAM file_cfg = 1" by (simp add: file_cfg_def)
  from sending_returns [OF demo_cfg_ok demo_started _ _ request_run] show ?thesis by (auto simp: c)
qed











end
