(* ===== verification/Hmc_System.thy ===== *)
theory Hmc_System
  imports Dram_System Rounding
begin

text \<open>
  \<open>DRAMsim3/src/hmc.cc\<close> and \<open>hmc.h\<close>: the hybrid memory cube.  Requests travel from the queue of a link
  through a crossbar to the queue of one of four quadrants and from there to the controller of a
  vault; responses travel back.  \<open>HMCMemorySystem\<close> inherits the fields of \<open>BaseDRAMSystem\<close>, so its record
  extends \<open>jedec\<close>.  The lemmas follow the packets: \<open>hmc_ok\<close> ties the table of outstanding responses to
  the requests that are still under way, and every operation keeps it and delivers every response once.
\<close>

section \<open>Packets\<close>

datatype HMCReqType = RD0 | RD16 | RD32 | RD48 | RD64 | RD80 | RD96 | RD112 | RD128 | RD256
  | WR0 | WR16 | WR32 | WR48 | WR64 | WR80 | WR96 | WR112 | WR128 | WR256
  | P_WR16 | P_WR32 | P_WR48 | P_WR64 | P_WR80 | P_WR96 | P_WR112 | P_WR128 | P_WR256
  | ADD8 | ADD16 | P_2ADD8 | P_ADD16 | ADDS8R | ADDS16R | INC8 | P_INC8
  | XOR16 | OR16 | NOR16 | AND16 | NAND16
  | CASGT8 | CASGT16 | CASLT8 | CASLT16 | CASEQ8 | CASZERO16 | EQ8 | EQ16 | BWR | P_BWR | BWR8R | SWAP16 | REQ_SIZE

datatype HMCRespType = RESP_NONE | RD_RS | WR_RS | RESP_ERR | RESP_SIZE

text \<open>The order of the enumerators, which the comparisons of the code use.\<close>

definition req_types :: "HMCReqType list" where
  "req_types = [RD0, RD16, RD32, RD48, RD64, RD80, RD96, RD112, RD128, RD256,
     WR0, WR16, WR32, WR48, WR64, WR80, WR96, WR112, WR128, WR256,
     P_WR16, P_WR32, P_WR48, P_WR64, P_WR80, P_WR96, P_WR112, P_WR128, P_WR256,
     ADD8, ADD16, P_2ADD8, P_ADD16, ADDS8R, ADDS16R, INC8, P_INC8, XOR16, OR16, NOR16, AND16, NAND16,
     CASGT8, CASGT16, CASLT8, CASLT16, CASEQ8, CASZERO16, EQ8, EQ16, BWR, P_BWR, BWR8R, SWAP16, REQ_SIZE]"

definition req_code :: "HMCReqType \<Rightarrow> nat" where
  "req_code t = (case first_idx (\<lambda>u. u = t) req_types of Some i \<Rightarrow> i | None \<Rightarrow> length req_types)"

text \<open>\<open>link\<close> and \<open>exit_time\<close> are not initialised by the constructors; they are written before they are
  first read (\<open>InsertReqToLink\<close>, and the step that moves the packet into the queue it leaves by its time).\<close>

record HMCRequest =
  rq_type :: HMCReqType
  mem_operand :: u64
  rq_link :: int
  rq_quad :: int
  rq_vault :: int
  rq_flits :: int
  rq_is_write :: bool
  rq_exit_time :: u64

record HMCResponse =
  resp_id :: u64
  rs_type :: HMCRespType
  rs_link :: int
  rs_quad :: int
  rs_flits :: int
  rs_exit_time :: u64

definition request_flits :: "HMCReqType \<Rightarrow> int result" where
  "request_flits t =
     (if t \<in> set [RD0, WR0] then Inr 0
      else if t \<in> set [RD16, RD32, RD48, RD64, RD80, RD96, RD112, RD128, RD256] then Inr 1
      else if t \<in> set [WR16, P_WR16] then Inr 2
      else if t \<in> set [WR32, P_WR32] then Inr 3
      else if t \<in> set [WR48, P_WR48] then Inr 4
      else if t \<in> set [WR64, P_WR64] then Inr 5
      else if t \<in> set [WR80, P_WR80] then Inr 6
      else if t \<in> set [WR96, P_WR96] then Inr 7
      else if t \<in> set [WR112, P_WR112] then Inr 8
      else if t \<in> set [WR128, P_WR128] then Inr 9
      else if t \<in> set [WR256, P_WR256] then Inr 17
      else if t \<in> set [ADD8, ADD16, P_2ADD8, P_ADD16, ADDS8R, ADDS16R] then Inr 2
      else if t \<in> set [INC8, P_INC8] then Inr 1
      else if t \<in> set [XOR16, OR16, NOR16, AND16, NAND16, CASGT8, CASGT16, CASLT8, CASLT16, CASEQ8, CASZERO16] then Inr 2
      else if t \<in> set [EQ8, EQ16, BWR, P_BWR, BWR8R, SWAP16] then Inr 2
      else Inl Abrupt_Exit)"

definition HMCRequest_new :: "HMCReqType \<Rightarrow> u64 \<Rightarrow> int \<Rightarrow> HMCRequest result" where
  "HMCRequest_new t hex vault =
     bindE (c_rem vault 4) (\<lambda>q.
     bindE (request_flits t) (\<lambda>fl.
     Inr \<lparr>rq_type = t, mem_operand = hex, rq_link = 0, rq_quad = q, rq_vault = vault, rq_flits = fl,
          rq_is_write = (req_code WR0 \<le> req_code t \<and> req_code t \<le> req_code P_WR256), rq_exit_time = 0\<rparr>))"

definition response_of :: "HMCReqType \<Rightarrow> (HMCRespType \<times> int) result" where
  "response_of t =
     (case t of
        RD0 \<Rightarrow> Inr (RD_RS, 0) | RD16 \<Rightarrow> Inr (RD_RS, 2) | RD32 \<Rightarrow> Inr (RD_RS, 3) | RD48 \<Rightarrow> Inr (RD_RS, 4)
      | RD64 \<Rightarrow> Inr (RD_RS, 5) | RD80 \<Rightarrow> Inr (RD_RS, 6) | RD96 \<Rightarrow> Inr (RD_RS, 7) | RD112 \<Rightarrow> Inr (RD_RS, 8)
      | RD128 \<Rightarrow> Inr (RD_RS, 9) | RD256 \<Rightarrow> Inr (RD_RS, 17) | WR0 \<Rightarrow> Inr (WR_RS, 0)
      | _ \<Rightarrow>
        (if t \<in> set [WR16, WR32, WR48, WR64, WR80, WR96, WR112, WR128, WR256] then Inr (WR_RS, 1)
         else if t \<in> set [P_WR16, P_WR32, P_WR48, P_WR64, P_WR80, P_WR96, P_WR112, P_WR128, P_WR256] then Inr (RESP_NONE, 0)
         else if t \<in> set [ADD8, ADD16] then Inr (WR_RS, 1)
         else if t \<in> set [P_2ADD8, P_ADD16] then Inr (RESP_NONE, 0)
         else if t \<in> set [ADDS8R, ADDS16R] then Inr (RD_RS, 2)
         else if t = INC8 then Inr (WR_RS, 1)
         else if t = P_INC8 then Inr (RESP_NONE, 0)
         else if t \<in> set [XOR16, OR16, NOR16, AND16, NAND16, CASGT8, CASGT16, CASLT8, CASLT16, CASEQ8, CASZERO16]
           then Inr (RD_RS, 2)
         else if t \<in> set [EQ8, EQ16, BWR] then Inr (WR_RS, 1)
         else if t = P_BWR then Inr (RESP_NONE, 0)
         else if t \<in> set [BWR8R, SWAP16] then Inr (RD_RS, 2)
         else Inl Abrupt_Exit))"

definition HMCResponse_new :: "u64 \<Rightarrow> HMCReqType \<Rightarrow> int \<Rightarrow> int \<Rightarrow> HMCResponse result" where
  "HMCResponse_new i t dest_link src_quad =
     bindE (response_of t) (\<lambda>(ty, fl).
     Inr \<lparr>resp_id = i, rs_type = ty, rs_link = dest_link, rs_quad = src_quad, rs_flits = fl, rs_exit_time = 0\<rparr>)"

section \<open>The memory system\<close>

text \<open>\<open>resp_lookup_table_\<close> is a multimap: equal keys stay in the order of their insertion, and \<open>find\<close> takes
  the first.\<close>

record hmc = jedec +
  logic_clk :: u64
  ps_per_dram :: u64
  ps_per_logic :: u64
  logic_ps :: u64
  dram_ps :: u64
  next_link :: int
  links :: int
  queue_depth :: nat
  resp_lookup_table :: "(u64 \<times> HMCResponse) list"
  link_req_queues :: "HMCRequest list list"
  link_resp_queues :: "HMCResponse list list"
  quad_req_queues :: "HMCRequest list list"
  quad_resp_queues :: "HMCResponse list list"
  link_busy :: "int list"
  quad_busy :: "int list"
  link_age_counter :: "int list"
  quad_age_counter :: "int list"

text \<open>\<open>ps_per_dram_\<close> and \<open>ps_per_logic_\<close>.\<close>

definition SetClockRatio :: "dram_config \<Rightarrow> (u64 \<times> u64) result" where
  "SetClockRatio c =
     bindE (c_div 128 (link_width c)) (\<lambda>link_cycles_per_flit.
     bindE (c_div (link_speed c) link_cycles_per_flit) (\<lambda>logic_speed.
     bindE (if logic_speed = 0 then Inl UB_Conversion
            else u64_of_fl (fl_div double_p (1000000, 1) (logic_speed, 1))) (\<lambda>per_logic.
     Inr (800, if per_logic > 800 then 800 else per_logic))))"

definition HMCMemorySystem_new :: "dram_config \<Rightarrow> hmc result" where
  "HMCMemorySystem_new c =
     (if \<not> IsHMC c then Inl Abrupt_Exit
      else
      bindE (SetClockRatio c) (\<lambda>(per_dram, per_logic).
      bindE (checkE (0 \<le> channels c) Length_Error) (\<lambda>_.
      bindE (mapE (\<lambda>_. Controller_new c) [0 .. channels c - 1]) (\<lambda>cts.
      bindE (checkE (0 \<le> num_links c) Length_Error) (\<lambda>_.
      let n = nat (num_links c) in
      Inr \<lparr>js_clk = 0, last_req_clk = 0, ctrls = cts, logic_clk = 0, ps_per_dram = per_dram, ps_per_logic = per_logic,
           logic_ps = 0, dram_ps = 0, next_link = 0, links = num_links c, queue_depth = idx_of_int (xbar_queue_depth c),
           resp_lookup_table = [], link_req_queues = replicate n [], link_resp_queues = replicate n [],
           quad_req_queues = replicate 4 [], quad_resp_queues = replicate 4 [], link_busy = replicate n 0,
           quad_busy = [0, 0, 0, 0], link_age_counter = replicate n 0, quad_age_counter = [0, 0, 0, 0]\<rparr>)))))"

definition IterateNextLink :: "hmc \<Rightarrow> hmc result" where
  "IterateNextLink s = bindE (c_rem (next_link s + 1) (links s)) (\<lambda>i. Inr (s\<lparr>next_link := i\<rparr>))"

definition hmc_WillAcceptTransaction :: "hmc \<Rightarrow> bool" where
  "hmc_WillAcceptTransaction s \<longleftrightarrow> list_ex (\<lambda>q. length q < queue_depth s) (link_req_queues s)"

definition InsertReqToLink :: "HMCRequest \<Rightarrow> int \<Rightarrow> hmc \<Rightarrow> (bool \<times> hmc) result" where
  "InsertReqToLink req lk s =
     (let l = idx_of_int lk in
      bindE (vec_get (link_req_queues s) l) (\<lambda>q.
      if length q < queue_depth s then
        bindE (HMCResponse_new (mem_operand req) (rq_type req) lk (rq_quad req)) (\<lambda>resp.
        bindE (vec_set (link_age_counter s) l 1) (\<lambda>ages.
        Inr (True, s\<lparr>link_req_queues := (link_req_queues s)[l := q @ [req\<lparr>rq_link := lk\<rparr>]],
                     resp_lookup_table := resp_lookup_table s @ [(resp_id resp, resp)],
                     link_age_counter := ages, last_req_clk := js_clk s\<rparr>)))
      else Inr (False, s)))"

text \<open>The loop over the other links; not returning is \<open>None\<close>.\<close>

partial_function (option) insert_loop :: "HMCRequest \<Rightarrow> int \<Rightarrow> hmc \<Rightarrow> (bool \<times> hmc) result option" where
  "insert_loop req start_link s =
     (if start_link \<noteq> next_link s then
        (case InsertReqToLink req (next_link s) s of
           Inl e \<Rightarrow> Some (Inl e)
         | Inr r \<Rightarrow>
             (case IterateNextLink (snd r) of
                Inl e \<Rightarrow> Some (Inl e)
              | Inr s' \<Rightarrow> if fst r then Some (Inr (True, s')) else insert_loop req start_link s'))
      else Some (Inr (False, s)))"

definition InsertHMCReq :: "HMCRequest \<Rightarrow> hmc \<Rightarrow> (bool \<times> hmc) result" where
  "InsertHMCReq req s =
     bindE (InsertReqToLink req (next_link s) s) (\<lambda>(is_inserted, s1).
     bindE (IterateNextLink s1) (\<lambda>s2.
     if is_inserted then Inr (True, s2)
     else (case insert_loop req (next_link s1) s2 of None \<Rightarrow> Inl Diverges | Some r \<Rightarrow> r)))"

definition type_of_block :: "int \<Rightarrow> bool \<Rightarrow> HMCReqType result" where
  "type_of_block sz w =
     (if w then
        (if sz = 0 then Inr WR0 else if sz = 32 then Inr WR32 else if sz = 64 then Inr WR64
         else if sz = 128 then Inr WR128 else if sz = 256 then Inr WR256 else Inl Abrupt_Exit)
      else
        (if sz = 0 then Inr RD0 else if sz = 32 then Inr RD32 else if sz = 64 then Inr RD64
         else if sz = 128 then Inr RD128 else if sz = 256 then Inr RD256 else Inl Abrupt_Exit))"

definition hmc_AddTransaction :: "dram_config \<Rightarrow> u64 \<Rightarrow> bool \<Rightarrow> hmc \<Rightarrow> (bool \<times> hmc) result" where
  "hmc_AddTransaction c hex w s =
     bindE (type_of_block (block_size c) w) (\<lambda>t.
     bindE (GetChannel c hex) (\<lambda>vault.
     bindE (HMCRequest_new t hex vault) (\<lambda>req. InsertHMCReq req s)))"

text \<open>Positions with work in the order they are served.  The new position goes before the first entry
  of the queue that is smaller than its age: the entry itself is compared, not the age it stands for.\<close>

definition age_insert :: "int \<Rightarrow> nat \<Rightarrow> nat list \<Rightarrow> nat list" where
  "age_insert age pos q = (case first_idx (\<lambda>e. age > int e) q of None \<Rightarrow> q @ [pos] | Some k \<Rightarrow> take k q @ pos # drop k q)"

definition BuildAgeQueue :: "u64 \<Rightarrow> int list \<Rightarrow> nat list result" where
  "BuildAgeQueue clk ages =
     (let n = length ages; start_pos = unat clk mod n in
      bindE (checkE (n \<noteq> 0) UB_Division) (\<lambda>_.
      Inr (foldl (\<lambda>q i. let pos = (i + start_pos) mod n in if ages ! pos > 0 then age_insert (ages ! pos) pos q else q)
             [] [0 ..< n])))"

definition drain_busy :: "int list \<Rightarrow> int list" where
  "drain_busy bs = map (\<lambda>i. if i > 0 then i - 2 else i) bs"

definition InsertReqToDRAM :: "HMCRequest \<Rightarrow> hmc \<Rightarrow> hmc result" where
  "InsertReqToDRAM req s =
     (let v = idx_of_int (rq_vault req) in
      bindE (vec_get (ctrls s) v) (\<lambda>ct.
      Inr (s\<lparr>ctrls := (ctrls s)[v := ctl_AddTransaction (new_transaction (mem_operand req) (rq_is_write req)) ct]\<rparr>)))"

definition quad_to_vault :: "dram_config \<Rightarrow> nat \<Rightarrow> hmc \<Rightarrow> hmc result" where
  "quad_to_vault c i s =
     bindE (vec_get (quad_req_queues s) i) (\<lambda>qq.
     bindE (vec_get (quad_resp_queues s) i) (\<lambda>rq.
     case qq of
       [] \<Rightarrow> Inr s
     | req # rest \<Rightarrow>
         if length rq < queue_depth s \<and> rq_exit_time req \<le> logic_clk s then
           bindE (vec_get (ctrls s) (idx_of_int (rq_vault req))) (\<lambda>ct.
           if WillAcceptTransaction c ct (rq_is_write req) then
             bindE (InsertReqToDRAM req s) (\<lambda>s1. Inr (s1\<lparr>quad_req_queues := (quad_req_queues s1)[i := rest]\<rparr>))
           else Inr s)
         else Inr s))"

definition link_to_quad :: "nat \<Rightarrow> hmc \<Rightarrow> hmc result" where
  "link_to_quad src s =
     bindE (vec_get (link_req_queues s) src) (\<lambda>lq.
     bindE (q_front lq) (\<lambda>req.
     let d = idx_of_int (rq_quad req) in
     bindE (vec_get (quad_req_queues s) d) (\<lambda>qq.
     bindE (vec_get (quad_busy s) d) (\<lambda>busy.
     bindE (vec_get (link_age_counter s) src) (\<lambda>age.
     if length qq < queue_depth s \<and> busy \<le> 0 then
       Inr (s\<lparr>link_req_queues := (link_req_queues s)[src := tl lq],
              quad_req_queues := (quad_req_queues s)[d := qq @ [req\<lparr>rq_exit_time := logic_clk s + u64_of_int (rq_flits req)\<rparr>]],
              quad_busy := (quad_busy s)[d := rq_flits req],
              link_age_counter := (link_age_counter s)[src := if tl lq = [] then 0 else 1]\<rparr>)
     else Inr (s\<lparr>link_age_counter := (link_age_counter s)[src := age + 1]\<rparr>))))))"

definition DrainRequests :: "dram_config \<Rightarrow> hmc \<Rightarrow> hmc result" where
  "DrainRequests c s =
     bindE (foldE (quad_to_vault c) [0 ..< 4] s) (\<lambda>s1.
     let s2 = s1\<lparr>quad_busy := drain_busy (quad_busy s1)\<rparr> in
     bindE (BuildAgeQueue (logic_clk s2) (link_age_counter s2)) (\<lambda>age_queue. foldE link_to_quad age_queue s2))"

text \<open>A callback is reported as the address and whether it was \<open>write_callback_\<close>.\<close>

definition link_to_cpu :: "nat \<Rightarrow> hmc \<times> di_trans list \<Rightarrow> (hmc \<times> di_trans list) result" where
  "link_to_cpu i p = (let s = fst p in
     bindE (vec_get (link_resp_queues s) i) (\<lambda>q.
     case q of
       [] \<Rightarrow> Inr p
     | resp # rest \<Rightarrow>
         if rs_exit_time resp \<le> logic_clk s
         then Inr (s\<lparr>link_resp_queues := (link_resp_queues s)[i := rest]\<rparr>, snd p @ [(resp_id resp, rs_type resp \<noteq> RD_RS)])
         else Inr p))"

definition quad_to_link :: "nat \<Rightarrow> hmc \<Rightarrow> hmc result" where
  "quad_to_link src s =
     bindE (vec_get (quad_resp_queues s) src) (\<lambda>qq.
     bindE (q_front qq) (\<lambda>resp.
     let d = idx_of_int (rs_link resp) in
     bindE (vec_get (link_resp_queues s) d) (\<lambda>lq.
     bindE (vec_get (link_busy s) d) (\<lambda>busy.
     bindE (vec_get (quad_age_counter s) src) (\<lambda>age.
     if length lq < queue_depth s \<and> busy \<le> 0 then
       Inr (s\<lparr>quad_resp_queues := (quad_resp_queues s)[src := tl qq],
              link_resp_queues := (link_resp_queues s)[d := lq @ [resp\<lparr>rs_exit_time := logic_clk s + u64_of_int (rs_flits resp)\<rparr>]],
              link_busy := (link_busy s)[d := rs_flits resp],
              quad_age_counter := (quad_age_counter s)[src := if tl qq = [] then 0 else 1]\<rparr>)
     else Inr (s\<lparr>quad_age_counter := (quad_age_counter s)[src := age + 1]\<rparr>))))))"

definition DrainResponses :: "hmc \<Rightarrow> (hmc \<times> di_trans list) result" where
  "DrainResponses s =
     bindE (foldE link_to_cpu [0 ..< nat (links s)] (s, [])) (\<lambda>(s1, cs).
     let s2 = s1\<lparr>link_busy := drain_busy (link_busy s1)\<rparr> in
     bindE (BuildAgeQueue (logic_clk s2) (quad_age_counter s2)) (\<lambda>age_queue.
     bindE (foldE quad_to_link age_queue s2) (\<lambda>s3. Inr (s3, cs))))"

text \<open>Dereferencing the end of the table is undefined.\<close>

definition VaultCallback :: "u64 \<Rightarrow> hmc \<Rightarrow> hmc result" where
  "VaultCallback req_id s =
     (case first_idx (\<lambda>e. fst e = req_id) (resp_lookup_table s) of
        None \<Rightarrow> Inl UB_Index
      | Some k \<Rightarrow>
          let resp = snd (resp_lookup_table s ! k); q = idx_of_int (rs_quad resp) in
          bindE (vec_get (quad_resp_queues s) q) (\<lambda>qq.
          bindE (vec_set (quad_age_counter s) q 1) (\<lambda>ages.
          Inr (s\<lparr>resp_lookup_table := erase_at k (resp_lookup_table s),
                 quad_resp_queues := (quad_resp_queues s)[q := qq @ [resp]], quad_age_counter := ages\<rparr>))))"

text \<open>What one controller has done by now goes to the response queues; the callback is the same for
  reads and writes.\<close>

definition vault_returns :: "nat \<Rightarrow> hmc \<Rightarrow> hmc result" where
  "vault_returns i s =
     bindE (vec_get (ctrls s) i) (\<lambda>ct.
     let r = return_loop (js_clk s) ct in
     foldE (\<lambda>p. VaultCallback (fst p)) (fst r) (s\<lparr>ctrls := (ctrls s)[i := snd r]\<rparr>))"

definition DRAMClockTick :: "dram_config \<Rightarrow> hmc \<Rightarrow> hmc result" where
  "DRAMClockTick c s =
     bindE (foldE vault_returns [0 ..< length (ctrls s)] s) (\<lambda>s1.
     let clk = js_clk s1 + 1 in
     bindE (tick_controllers c clk (ctrls s1)) (\<lambda>cts. Inr (s1\<lparr>js_clk := clk, ctrls := cts\<rparr>)))"

definition logic_tick :: "hmc \<Rightarrow> hmc" where
  "logic_tick s = s\<lparr>logic_ps := logic_ps s + ps_per_logic s, logic_clk := logic_clk s + 1\<rparr>"

definition logic_cycle :: "dram_config \<Rightarrow> hmc \<Rightarrow> (hmc \<times> di_trans list) result" where
  "logic_cycle c s =
     bindE (DrainResponses s) (\<lambda>(s1, cs). bindE (DrainRequests c s1) (\<lambda>s2. Inr (logic_tick s2, cs)))"

partial_function (option) logic_loop :: "dram_config \<Rightarrow> hmc \<Rightarrow> di_trans list \<Rightarrow> (hmc \<times> di_trans list) result option" where
  "logic_loop c s cs =
     (if logic_ps s < dram_ps s + ps_per_dram s then
        (case logic_cycle c s of
           Inl e \<Rightarrow> Some (Inl e)
         | Inr r \<Rightarrow> logic_loop c (fst r) (cs @ snd r))
      else Some (Inr (s, cs)))"

definition hmc_ClockTick :: "dram_config \<Rightarrow> hmc \<Rightarrow> (hmc \<times> di_trans list) result" where
  "hmc_ClockTick c s =
     bindE (if dram_ps s = logic_ps s
            then bindE (DrainResponses s) (\<lambda>(s1, cs).
                 bindE (DRAMClockTick c s1) (\<lambda>s2.
                 bindE (DrainRequests c s2) (\<lambda>s3. Inr (logic_tick s3, cs))))
            else bindE (DRAMClockTick c s) (\<lambda>s1. Inr (s1, []))) (\<lambda>(s1, cs).
     bindE (case logic_loop c s1 cs of None \<Rightarrow> Inl Diverges | Some r \<Rightarrow> r) (\<lambda>(s2, cs2).
     Inr (s2\<lparr>dram_ps := dram_ps s2 + ps_per_dram s2\<rparr>, cs2)))"

section \<open>Queues of packets\<close>

definition every :: "('a \<Rightarrow> bool) \<Rightarrow> 'a list list \<Rightarrow> bool" where
  "every P qs \<longleftrightarrow> (\<forall>q \<in> set qs. \<forall>x \<in> set q. P x)"

definition packets :: "('a \<Rightarrow> 'b) \<Rightarrow> 'a list list \<Rightarrow> 'b multiset" where
  "packets f qs = image_mset f (mset (concat qs))"

lemma every_update: "every P qs \<Longrightarrow> (\<forall>x \<in> set q. P x) \<Longrightarrow> every P (qs[i := q])"
  by (auto simp: every_def dest!: set_update_subset_insert [THEN subsetD])

lemma every_at: "every P qs \<Longrightarrow> i < length qs \<Longrightarrow> \<forall>x \<in> set (qs ! i). P x"
  unfolding every_def by (metis nth_mem)

lemma every_replicate [simp]: "every P (replicate n [])"
  by (simp add: every_def)

lemma packets_replicate [simp]: "packets f (replicate n []) = {#}"
  by (induction n) (simp_all add: packets_def)

lemma packets_update:
  "i < length qs \<Longrightarrow> packets f (qs[i := q]) + image_mset f (mset (qs ! i)) = packets f qs + image_mset f (mset q)"
  by (induction qs arbitrary: i) (auto simp: packets_def ac_simps split: nat.split)

lemma packets_push: "i < length qs \<Longrightarrow> packets f (qs[i := qs ! i @ [x]]) = add_mset (f x) (packets f qs)"
  using packets_update [of i qs f "qs ! i @ [x]"] by simp

lemma packets_pop: "i < length qs \<Longrightarrow> qs ! i = x # q \<Longrightarrow> packets f qs = add_mset (f x) (packets f (qs[i := q]))"
  using packets_update [of i qs f q] by simp

text \<open>A counter is positive exactly when its queue has something in it.\<close>

definition ages_ok :: "int list \<Rightarrow> 'a list list \<Rightarrow> bool" where
  "ages_ok = list_all2 (\<lambda>a q. 0 < a \<longleftrightarrow> q \<noteq> [])"

lemma ages_length: "ages_ok ages qs \<Longrightarrow> length ages = length qs"
  by (simp add: ages_ok_def list_all2_lengthD)

lemma ages_at: "ages_ok ages qs \<Longrightarrow> i < length qs \<Longrightarrow> 0 < ages ! i \<longleftrightarrow> qs ! i \<noteq> []"
  by (auto simp: ages_ok_def list_all2_conv_all_nth)

lemma ages_update: "ages_ok ages qs \<Longrightarrow> (0 < a \<longleftrightarrow> q \<noteq> []) \<Longrightarrow> ages_ok (ages[i := a]) (qs[i := q])"
  by (simp add: ages_ok_def list_all2_update_cong)

lemma ages_replicate [simp]: "ages_ok (replicate n 0) (replicate n [])"
  by (simp add: ages_ok_def list_all2_conv_all_nth)

lemma ages_older: "ages_ok ages qs \<Longrightarrow> i < length qs \<Longrightarrow> qs ! i \<noteq> [] \<Longrightarrow> ages_ok (ages[i := ages ! i + 1]) qs"
  using ages_update [of ages qs "ages ! i + 1" "qs ! i" i] ages_at [of ages qs i] by simp

text \<open>Serving every element of a list once, each while it is ready.\<close>

lemma foldE_serve:
  assumes "distinct xs" and "P s" and "\<forall>x \<in> set xs. R x s"
    and step: "\<And>x s. P s \<Longrightarrow> R x s \<Longrightarrow> \<exists>t. f x s = Inr t \<and> P t \<and> (\<forall>y. y \<noteq> x \<longrightarrow> R y s \<longrightarrow> R y t)"
  shows "\<exists>t. foldE f xs s = Inr t \<and> P t"
  using assms(1-3)
proof (induction xs arbitrary: s)
  case (Cons x xs)
  then obtain t where t: "f x s = Inr t" "P t" "\<forall>y. y \<noteq> x \<longrightarrow> R y s \<longrightarrow> R y t" using step [of s x] by auto
  then have "\<forall>y \<in> set xs. R y t" using Cons.prems by auto
  then show ?case using Cons.IH [of t] Cons.prems(1) t by simp
qed simp

subsection \<open>The order of service\<close>

lemma age_insert_mset: "mset (age_insert a p q) = add_mset p (mset q)"
proof -
  have "mset (take k q) + mset (drop k q) = mset q" for k by (metis append_take_drop_id mset_append)
  then show ?thesis by (auto simp: age_insert_def split: option.split)
qed

lemma rotated_positions: "map (\<lambda>i. (i + st) mod n) [0 ..< n] = rotate st [0 ..< n]"
  by (rule nth_equalityI) (simp_all add: nth_rotate add.commute)

lemma mset_rotate: "mset (rotate k xs) = mset xs"
proof (induction k)
  case (Suc k)
  then show ?case by (cases "rotate k xs") simp_all
qed simp

lemma age_fold_mset:
  "mset (foldl (\<lambda>q i. if P (g i) then age_insert (h (g i)) (g i) q else q) q0 is) = mset q0 + mset (filter P (map g is))"
  by (induction "is" arbitrary: q0) (simp_all add: age_insert_mset)

lemma BuildAgeQueue_ok:
  assumes "ages \<noteq> []"
  shows "\<exists>q. BuildAgeQueue clk ages = Inr q \<and> mset q = mset (filter (\<lambda>p. 0 < ages ! p) [0 ..< length ages])"
proof -
  let ?st = "unat clk mod length ages" and ?n = "length ages"
  have "mset (filter (\<lambda>p. 0 < ages ! p) (map (\<lambda>i. (i + ?st) mod ?n) [0 ..< ?n])) = mset (filter (\<lambda>p. 0 < ages ! p) [0 ..< ?n])"
    by (simp add: rotated_positions mset_rotate del: mset_upt)
  then show ?thesis using assms
    by (simp add: BuildAgeQueue_def Let_def age_fold_mset [where P = "\<lambda>p. 0 < ages ! p" and h = "\<lambda>p. ages ! p"])
qed

lemma BuildAgeQueue_serves:
  assumes "ages \<noteq> []"
  shows "\<exists>q. BuildAgeQueue clk ages = Inr q \<and> distinct q \<and> set q = {p. p < length ages \<and> 0 < ages ! p}"
proof -
  obtain q where q: "BuildAgeQueue clk ages = Inr q" "mset q = mset (filter (\<lambda>p. 0 < ages ! p) [0 ..< length ages])"
    using BuildAgeQueue_ok [OF assms] by blast
  have "distinct q" using q(2) mset_eq_imp_distinct_iff by (metis distinct_filter distinct_upt)
  moreover have "set q = set (filter (\<lambda>p. 0 < ages ! p) [0 ..< length ages])" using q(2) by (rule mset_eq_setD)
  ultimately show ?thesis using q(1) by auto
qed

section \<open>The invariant\<close>

definition req_ok :: "dram_config \<Rightarrow> HMCRequest \<Rightarrow> bool" where
  "req_ok c r \<longleftrightarrow> 0 \<le> rq_quad r \<and> rq_quad r < 4 \<and> 0 \<le> rq_vault r \<and> rq_vault r < channels c"

definition resp_ok :: "int \<Rightarrow> HMCResponse \<Rightarrow> bool" where
  "resp_ok n r \<longleftrightarrow> 0 \<le> rs_link r \<and> rs_link r < n \<and> 0 \<le> rs_quad r \<and> rs_quad r < 4"

definition hmc_shape :: "dram_config \<Rightarrow> hmc \<Rightarrow> bool" where
  "hmc_shape c s \<longleftrightarrow> sys_cfg c \<and> 0 < links s \<and> links s < 2 ^ 31 \<and> 0 \<le> next_link s \<and> next_link s < links s
     \<and> length (ctrls s) = nat (channels c) \<and> (\<forall>ct \<in> set (ctrls s). ctl_ok c ct)
     \<and> length (link_req_queues s) = nat (links s) \<and> length (link_resp_queues s) = nat (links s)
     \<and> length (link_busy s) = nat (links s) \<and> length (quad_req_queues s) = 4 \<and> length (quad_resp_queues s) = 4
     \<and> length (quad_busy s) = 4 \<and> ages_ok (link_age_counter s) (link_req_queues s)
     \<and> ages_ok (quad_age_counter s) (quad_resp_queues s)"

definition hmc_packets_ok :: "dram_config \<Rightarrow> hmc \<Rightarrow> bool" where
  "hmc_packets_ok c s \<longleftrightarrow> every (req_ok c) (link_req_queues s) \<and> every (req_ok c) (quad_req_queues s)
     \<and> every (resp_ok (links s)) (quad_resp_queues s) \<and> every (resp_ok (links s)) (link_resp_queues s)
     \<and> (\<forall>e \<in> set (resp_lookup_table s). fst e = resp_id (snd e) \<and> resp_ok (links s) (snd e))"

text \<open>The addresses of the requests in the queues and in the controllers.\<close>

definition under_way :: "hmc \<Rightarrow> u64 multiset" where
  "under_way s = packets mem_operand (link_req_queues s) + packets mem_operand (quad_req_queues s)
     + image_mset fst (sum_list (map ctl_owed (ctrls s)))"

definition resp_tag :: "HMCResponse \<Rightarrow> di_trans" where
  "resp_tag r = (resp_id r, rs_type r \<noteq> RD_RS)"

text \<open>The answers the processor still waits for.\<close>

definition hmc_pending :: "hmc \<Rightarrow> di_trans multiset" where
  "hmc_pending s = image_mset (\<lambda>e. resp_tag (snd e)) (mset (resp_lookup_table s)) + packets resp_tag (quad_resp_queues s)
     + packets resp_tag (link_resp_queues s)"

text \<open>Every request under way has its response in the table; \<open>E\<close> are requests the vault has just returned.\<close>

definition hmc_inv :: "dram_config \<Rightarrow> u64 multiset \<Rightarrow> hmc \<Rightarrow> bool" where
  "hmc_inv c E s \<longleftrightarrow> hmc_shape c s \<and> hmc_packets_ok c s \<and> image_mset fst (mset (resp_lookup_table s)) = under_way s + E"

abbreviation hmc_ok :: "dram_config \<Rightarrow> hmc \<Rightarrow> bool" where
  "hmc_ok c s \<equiv> hmc_inv c {#} s"

definition clocks :: "hmc \<Rightarrow> u64 \<times> u64 \<times> u64 \<times> u64 \<times> u64" where
  "clocks s = (logic_clk s, ps_per_dram s, ps_per_logic s, logic_ps s, dram_ps s)"

text \<open>From \<open>s\<close>, the callbacks \<open>cs\<close> were made and nothing was lost.\<close>

definition hmc_steps :: "dram_config \<Rightarrow> hmc \<Rightarrow> hmc \<Rightarrow> di_trans list \<Rightarrow> bool" where
  "hmc_steps c s s' cs \<longleftrightarrow> hmc_ok c s' \<and> hmc_pending s = hmc_pending s' + mset cs \<and> links s' = links s
     \<and> queue_depth s' = queue_depth s"

lemmas hmc_defs = hmc_inv_def hmc_shape_def hmc_packets_ok_def under_way_def hmc_pending_def hmc_steps_def clocks_def

lemma hmc_steps_refl: "hmc_ok c s \<Longrightarrow> hmc_steps c s s []"
  by (simp add: hmc_steps_def)

lemma hmc_steps_trans: "hmc_steps c s1 s2 cs \<Longrightarrow> hmc_steps c s2 s3 ds \<Longrightarrow> hmc_steps c s1 s3 (cs @ ds)"
  by (simp add: hmc_steps_def ac_simps)

lemma quad_idx: "0 \<le> q \<Longrightarrow> q < 4 \<Longrightarrow> idx_of_int q < 4"
  by (simp add: conv_simps)

lemma link_idx: "0 \<le> l \<Longrightarrow> l < links s \<Longrightarrow> links s < 2 ^ 31 \<Longrightarrow> idx_of_int l < nat (links s)"
  by (simp add: conv_simps)

section \<open>Inserting a request\<close>

lemma InsertReqToLink_ok:
  assumes ok: "hmc_ok c s" and r: "req_ok c req" and l: "0 \<le> lk" "lk < links s" and t: "response_of (rq_type req) = Inr (ty, fl)"
  shows "\<exists>b s'. InsertReqToLink req lk s = Inr (b, s') \<and> hmc_ok c s' \<and> clocks s' = clocks s \<and> links s' = links s
    \<and> next_link s' = next_link s \<and> queue_depth s' = queue_depth s
    \<and> b = (length (link_req_queues s ! nat lk) < queue_depth s) \<and> (\<not> b \<longrightarrow> s' = s)
    \<and> hmc_pending s' = (if b then add_mset (mem_operand req, ty \<noteq> RD_RS) (hmc_pending s) else hmc_pending s)"
proof -
  have sh: "hmc_shape c s" "hmc_packets_ok c s" using ok by (simp_all add: hmc_inv_def)
  have li: "idx_of_int lk = nat lk" "nat lk < length (link_req_queues s)" "nat lk < length (link_age_counter s)"
    using sh(1) l ages_length [of "link_age_counter s" "link_req_queues s"] by (auto simp: hmc_shape_def conv_simps)
  let ?q = "link_req_queues s ! nat lk" and ?req = "req\<lparr>rq_link := lk\<rparr>"
  let ?resp = "\<lparr>resp_id = mem_operand req, rs_type = ty, rs_link = lk, rs_quad = rq_quad req, rs_flits = fl, rs_exit_time = 0\<rparr>"
  let ?s = "s\<lparr>link_req_queues := (link_req_queues s)[nat lk := ?q @ [?req]],
              resp_lookup_table := resp_lookup_table s @ [(mem_operand req, ?resp)],
              link_age_counter := (link_age_counter s)[nat lk := 1], last_req_clk := js_clk s\<rparr>"
  show ?thesis
  proof (cases "length ?q < queue_depth s")
    case True
    then have "InsertReqToLink req lk s = Inr (True, ?s)"
      using li by (simp add: InsertReqToLink_def Let_def HMCResponse_new_def t)
    moreover have "hmc_shape c ?s" using sh(1) by (simp add: hmc_shape_def ages_update)
    moreover have "hmc_packets_ok c ?s"
      using sh(2) r l li(2) every_at [of "req_ok c" "link_req_queues s" "nat lk"]
      by (auto simp: hmc_packets_ok_def resp_ok_def req_ok_def intro!: every_update)
    moreover have "image_mset fst (mset (resp_lookup_table ?s)) = under_way ?s"
      using ok li(2) packets_push [of "nat lk" "link_req_queues s" mem_operand ?req] by (simp add: hmc_inv_def under_way_def)
    moreover have "hmc_pending ?s = add_mset (mem_operand req, ty \<noteq> RD_RS) (hmc_pending s)"
      by (simp add: hmc_pending_def resp_tag_def)
    ultimately show ?thesis using True by (intro exI [of _ True] exI [of _ ?s]) (simp add: hmc_inv_def clocks_def)
  next
    case False
    then have "InsertReqToLink req lk s = Inr (False, s)" using li by (simp add: InsertReqToLink_def Let_def)
    then show ?thesis using False ok by (intro exI [of _ False] exI [of _ s]) simp
  qed
qed

lemma IterateNextLink_ok:
  assumes "hmc_ok c s"
  shows "\<exists>s'. IterateNextLink s = Inr s' \<and> s' = s\<lparr>next_link := next_idx (links s) (next_link s)\<rparr> \<and> hmc_ok c s'
    \<and> clocks s' = clocks s \<and> hmc_pending s' = hmc_pending s"
proof -
  have n: "0 < links s" "0 \<le> next_link s" "next_link s < links s" using assms by (simp_all add: hmc_inv_def hmc_shape_def)
  then have "c_rem (next_link s + 1) (links s) = Inr (next_idx (links s) (next_link s))"
    by (subst c_rem_nonneg) (auto simp: next_idx_def)
  then have "IterateNextLink s = Inr (s\<lparr>next_link := next_idx (links s) (next_link s)\<rparr>)" by (simp add: IterateNextLink_def)
  moreover have "0 \<le> next_idx (links s) (next_link s)" "next_idx (links s) (next_link s) < links s"
    using n by (auto simp: next_idx_def)
  ultimately show ?thesis using assms by (simp add: hmc_defs)
qed

lemma room_accepted:
  "hmc_ok c s \<Longrightarrow> 0 \<le> k \<Longrightarrow> k < links s \<Longrightarrow> length (link_req_queues s ! nat k) < queue_depth s \<Longrightarrow> hmc_WillAcceptTransaction s"
  by (auto simp: hmc_WillAcceptTransaction_def list_ex_iff hmc_inv_def hmc_shape_def intro!: bexI [OF _ nth_mem])

lemma insert_loop_ok:
  assumes "hmc_ok c s" and r: "req_ok c req" and t: "response_of (rq_type req) = Inr (ty, fl)" and st: "0 \<le> st" "st < links s"
  shows "\<exists>b s'. insert_loop req st s = Some (Inr (b, s')) \<and> hmc_ok c s' \<and> clocks s' = clocks s
    \<and> (\<not> b \<longrightarrow> (\<forall>k. k \<noteq> st \<longrightarrow> round_left (links s) st k \<le> round_left (links s) st (next_link s) \<longrightarrow> 0 \<le> k \<longrightarrow> k < links s
          \<longrightarrow> next_link s \<noteq> st \<longrightarrow> \<not> length (link_req_queues s ! nat k) < queue_depth s))
    \<and> (b \<longrightarrow> hmc_WillAcceptTransaction s)
    \<and> hmc_pending s' = (if b then add_mset (mem_operand req, ty \<noteq> RD_RS) (hmc_pending s) else hmc_pending s)"
  using assms(1) st
proof (induction "round_left (links s) st (next_link s)" arbitrary: s rule: less_induct)
  case less
  note ok = less.prems(1)
  have n: "0 \<le> next_link s" "next_link s < links s" using ok by (simp_all add: hmc_inv_def hmc_shape_def)
  show ?case
  proof (cases "st = next_link s")
    case True
    then have "insert_loop req st s = Some (Inr (False, s))" by (subst insert_loop.simps) simp
    then show ?thesis using ok True by (intro exI [of _ False] exI [of _ s]) simp
  next
    case ne: False
    from InsertReqToLink_ok [OF ok r n t] obtain b s1 where s1: "InsertReqToLink req (next_link s) s = Inr (b, s1)" "hmc_ok c s1"
      "clocks s1 = clocks s" "links s1 = links s" "next_link s1 = next_link s" "queue_depth s1 = queue_depth s"
      "b = (length (link_req_queues s ! nat (next_link s)) < queue_depth s)" "\<not> b \<longrightarrow> s1 = s"
      "hmc_pending s1 = (if b then add_mset (mem_operand req, ty \<noteq> RD_RS) (hmc_pending s) else hmc_pending s)" by blast
    let ?s2 = "s1\<lparr>next_link := next_idx (links s1) (next_link s1)\<rparr>"
    have s2: "IterateNextLink s1 = Inr ?s2" "hmc_ok c ?s2" "clocks ?s2 = clocks s" "hmc_pending ?s2 = hmc_pending s1"
      using IterateNextLink_ok [OF s1(2)] s1(3) by auto
    show ?thesis
    proof (cases b)
      case True
      have "insert_loop req st s = Some (Inr (True, ?s2))"
        using ne s1(1) s2(1) True by (subst insert_loop.simps) simp
      moreover have "hmc_WillAcceptTransaction s" using room_accepted [OF ok n] s1(7) True by simp
      ultimately show ?thesis using s2 s1 True by (intro exI [of _ True] exI [of _ ?s2]) simp
    next
      case False
      let ?s = "s\<lparr>next_link := next_idx (links s) (next_link s)\<rparr>"
      have e: "s1 = s" using s1(8) False by simp
      have step: "insert_loop req st s = insert_loop req st ?s"
        using ne s1(1) s2(1) False e by (subst insert_loop.simps) simp
      show ?thesis
      proof (cases "next_idx (links s) (next_link s) = st")
        case True
        then have "insert_loop req st ?s = Some (Inr (False, ?s))" by (subst insert_loop.simps) simp
        moreover have "k = next_link s" if "k \<noteq> st" "round_left (links s) st k \<le> round_left (links s) st (next_link s)" "0 \<le> k" "k < links s" for k
          using that n True ne by (auto simp: round_left_def next_idx_def split: if_splits)
        ultimately show ?thesis using step s2 s1(7) e False by (intro exI [of _ False] exI [of _ ?s]) auto
      next
        case next_ne: False
        have lt: "round_left (links ?s) st (next_link ?s) < round_left (links s) st (next_link s)"
          using jedec.round_left_next [OF n less.prems(2,3) next_ne] by simp
        have "hmc_ok c ?s" using s2(2) e by simp
        from less.hyps [OF lt this] less.prems(2,3) obtain b' s' where
          s': "insert_loop req st ?s = Some (Inr (b', s'))" "hmc_ok c s'" "clocks s' = clocks ?s"
          "\<not> b' \<longrightarrow> (\<forall>k. k \<noteq> st \<longrightarrow> round_left (links s) st k \<le> round_left (links s) st (next_link ?s) \<longrightarrow> 0 \<le> k \<longrightarrow> k < links s
             \<longrightarrow> next_link ?s \<noteq> st \<longrightarrow> \<not> length (link_req_queues s ! nat k) < queue_depth s)"
          "b' \<longrightarrow> hmc_WillAcceptTransaction s"
          "hmc_pending s' = (if b' then add_mset (mem_operand req, ty \<noteq> RD_RS) (hmc_pending ?s) else hmc_pending ?s)"
          by (auto simp: hmc_WillAcceptTransaction_def)
        have other: "k = next_link s \<or> round_left (links s) st k \<le> round_left (links s) st (next_link ?s)"
          if "k \<noteq> st" "round_left (links s) st k \<le> round_left (links s) st (next_link s)" "0 \<le> k" "k < links s" for k
          using that n next_ne ne less.prems(2,3) by (auto simp: round_left_def next_idx_def split: if_splits)
        have full: "\<not> length (link_req_queues s ! nat (next_link s)) < queue_depth s" using s1(7) False by simp
        have "\<not> b' \<longrightarrow> (\<forall>k. k \<noteq> st \<longrightarrow> round_left (links s) st k \<le> round_left (links s) st (next_link s) \<longrightarrow> 0 \<le> k \<longrightarrow> k < links s
             \<longrightarrow> next_link s \<noteq> st \<longrightarrow> \<not> length (link_req_queues s ! nat k) < queue_depth s)"
          using other full s'(4) next_ne by auto
        moreover have "clocks ?s = clocks s" "hmc_pending ?s = hmc_pending s" using s2(3,4) e by simp_all
        ultimately show ?thesis using step s' by metis
      qed
    qed
  qed
qed

text \<open>Some link takes the request if and only if \<open>WillAcceptTransaction\<close> says so.\<close>

lemma InsertHMCReq_ok:
  assumes "hmc_ok c s" and r: "req_ok c req" and t: "response_of (rq_type req) = Inr (ty, fl)"
  shows "\<exists>b s'. InsertHMCReq req s = Inr (b, s') \<and> b = hmc_WillAcceptTransaction s \<and> hmc_ok c s' \<and> clocks s' = clocks s
    \<and> hmc_pending s' = (if b then add_mset (mem_operand req, ty \<noteq> RD_RS) (hmc_pending s) else hmc_pending s)"
proof -
  have n: "0 \<le> next_link s" "next_link s < links s" using assms(1) by (simp_all add: hmc_inv_def hmc_shape_def)
  from InsertReqToLink_ok [OF assms(1) r n t] obtain b s1 where s1: "InsertReqToLink req (next_link s) s = Inr (b, s1)" "hmc_ok c s1"
    "clocks s1 = clocks s" "links s1 = links s" "next_link s1 = next_link s" "queue_depth s1 = queue_depth s"
    "b = (length (link_req_queues s ! nat (next_link s)) < queue_depth s)" "\<not> b \<longrightarrow> s1 = s"
    "hmc_pending s1 = (if b then add_mset (mem_operand req, ty \<noteq> RD_RS) (hmc_pending s) else hmc_pending s)" by blast
  let ?s2 = "s1\<lparr>next_link := next_idx (links s1) (next_link s1)\<rparr>"
  have s2: "IterateNextLink s1 = Inr ?s2" "hmc_ok c ?s2" "clocks ?s2 = clocks s" "hmc_pending ?s2 = hmc_pending s1"
    using IterateNextLink_ok [OF s1(2)] s1(3) by auto
  show ?thesis
  proof (cases b)
    case True
    then have "hmc_WillAcceptTransaction s" using room_accepted [OF assms(1) n] s1(7) by simp
    then show ?thesis using s1 s2 True by (intro exI [of _ True] exI [of _ ?s2]) (simp add: InsertHMCReq_def)
  next
    case False
    have e: "s1 = s" using False s1(8) by simp
    let ?s = "s\<lparr>next_link := next_idx (links s) (next_link s)\<rparr>" and ?st = "next_link s"
    have q: "hmc_WillAcceptTransaction ?s = hmc_WillAcceptTransaction s" by (simp add: hmc_WillAcceptTransaction_def)
    from insert_loop_ok [OF _ r t, of ?s ?st] s2(2) n e obtain b' s' where
      l: "insert_loop req ?st ?s = Some (Inr (b', s'))" "hmc_ok c s'" "clocks s' = clocks ?s"
      "\<not> b' \<longrightarrow> (\<forall>k. k \<noteq> ?st \<longrightarrow> round_left (links s) ?st k \<le> round_left (links s) ?st (next_link ?s) \<longrightarrow> 0 \<le> k \<longrightarrow> k < links s
         \<longrightarrow> next_link ?s \<noteq> ?st \<longrightarrow> \<not> length (link_req_queues s ! nat k) < queue_depth s)"
      "b' \<longrightarrow> hmc_WillAcceptTransaction ?s"
      "hmc_pending s' = (if b' then add_mset (mem_operand req, ty \<noteq> RD_RS) (hmc_pending ?s) else hmc_pending ?s)" by auto
    have "\<not> hmc_WillAcceptTransaction s" if "\<not> b'"
    proof
      assume "hmc_WillAcceptTransaction s"
      then obtain k where k: "k < nat (links s)" "length (link_req_queues s ! k) < queue_depth s"
        using assms(1) by (auto simp: hmc_WillAcceptTransaction_def list_ex_iff hmc_inv_def hmc_shape_def in_set_conv_nth)
      have "int k \<noteq> ?st" using k(2) False s1(7) by (metis nat_int)
      moreover have "round_left (links s) ?st (int k) \<le> round_left (links s) ?st (next_link ?s)" "next_link ?s \<noteq> ?st"
        using n k(1) \<open>int k \<noteq> ?st\<close> by (auto simp: round_left_def next_idx_def split: if_splits)
      ultimately show False using l(4) that k by force
    qed
    then have "b' = hmc_WillAcceptTransaction s" using l(5) q by blast
    moreover have "InsertHMCReq req s = Inr (b', s')" using s1(1) s2(1) l(1) False e by (simp add: InsertHMCReq_def)
    ultimately show ?thesis using l s2 e by (intro exI [of _ b'] exI [of _ s']) simp
  qed
qed

lemma hmc_add_ok:
  assumes "hmc_ok c s" and "type_of_block (block_size c) w = Inr t"
  shows "\<exists>b s'. hmc_AddTransaction c a w s = Inr (b, s') \<and> b = hmc_WillAcceptTransaction s \<and> hmc_ok c s' \<and> clocks s' = clocks s
    \<and> hmc_pending s' = (if b then add_mset (a, w) (hmc_pending s) else hmc_pending s)"
proof -
  have m: "map_ok c" using assms(1) by (simp add: hmc_inv_def hmc_shape_def sys_cfg_def geo_fits_def)
  then obtain v where v: "GetChannel c a = Inr v" "0 \<le> v" "v < channels c" using GetChannel_in by blast
  have "t \<in> {RD0, RD32, RD64, RD128, RD256} \<and> \<not> w \<or> t \<in> {WR0, WR32, WR64, WR128, WR256} \<and> w"
    using assms(2) by (auto simp: type_of_block_def split: if_splits)
  then have "\<exists>ty fl. response_of t = Inr (ty, fl) \<and> (ty \<noteq> RD_RS) = w" "\<exists>n. request_flits t = Inr n"
    by (auto simp: response_of_def request_flits_def)
  then obtain ty fl n where t: "response_of t = Inr (ty, fl)" "(ty \<noteq> RD_RS) = w" "request_flits t = Inr n" by blast
  have q: "c_rem v 4 = Inr (v mod 4)" using v by (simp add: c_rem_nonneg)
  obtain req where req: "HMCRequest_new t a v = Inr req" "rq_type req = t" "mem_operand req = a" "req_ok c req"
    using t(3) q v by (simp add: HMCRequest_new_def req_ok_def)
  from InsertHMCReq_ok [OF assms(1) req(4)] t(1) req(2) obtain b s' where
    "InsertHMCReq req s = Inr (b, s')" "b = hmc_WillAcceptTransaction s" "hmc_ok c s'" "clocks s' = clocks s"
    "hmc_pending s' = (if b then add_mset (mem_operand req, ty \<noteq> RD_RS) (hmc_pending s) else hmc_pending s)" by blast
  then show ?thesis using assms(2) v(1) req(1,3) t(2) by (intro exI [of _ b] exI [of _ s']) (simp add: hmc_AddTransaction_def)
qed

section \<open>Draining\<close>

definition hmc_quiet :: "dram_config \<Rightarrow> hmc \<Rightarrow> hmc \<Rightarrow> bool" where
  "hmc_quiet c s s' \<longleftrightarrow> hmc_steps c s s' [] \<and> clocks s' = clocks s"

lemma hmc_quiet_refl: "hmc_ok c s \<Longrightarrow> hmc_quiet c s s"
  by (simp add: hmc_quiet_def hmc_steps_refl)

lemma hmc_quiet_trans: "hmc_quiet c s1 s2 \<Longrightarrow> hmc_quiet c s2 s3 \<Longrightarrow> hmc_quiet c s1 s3"
  by (simp add: hmc_quiet_def hmc_steps_def)

lemma hmc_quiet_ok: "hmc_quiet c s s' \<Longrightarrow> hmc_ok c s'"
  by (simp add: hmc_quiet_def hmc_steps_def)

lemma quad_to_vault_ok:
  assumes ok: "hmc_ok c s" and i: "i < 4"
  shows "\<exists>s'. quad_to_vault c i s = Inr s' \<and> hmc_quiet c s s'"
proof (cases "quad_to_vault c i s = Inr s")
  case True
  then show ?thesis using hmc_quiet_refl [OF ok] by blast
next
  case moved: False
  have sh: "hmc_shape c s" "hmc_packets_ok c s" using ok by (simp_all add: hmc_inv_def)
  have len: "i < length (quad_req_queues s)" "i < length (quad_resp_queues s)" using sh(1) i by (simp_all add: hmc_shape_def)
  then obtain req rest where q: "quad_req_queues s ! i = req # rest"
    using moved by (cases "quad_req_queues s ! i") (simp_all add: quad_to_vault_def)
  have r: "req_ok c req" "\<forall>x \<in> set rest. req_ok c x"
    using every_at [of "req_ok c" "quad_req_queues s" i] sh(2) len(1) q by (simp_all add: hmc_packets_ok_def)
  let ?v = "idx_of_int (rq_vault req)" and ?t = "new_transaction (mem_operand req) (rq_is_write req)"
  have "channels c < 2 ^ 64" using sh(1) by (simp add: hmc_shape_def sys_cfg_def geo_fits_def map_ok_def)
  then have v: "?v < length (ctrls s)" using r(1) sh(1) by (simp add: req_ok_def hmc_shape_def conv_simps)
  have ct: "ctl_ok c (ctrls s ! ?v)" using v sh(1) by (simp add: hmc_shape_def)
  note add = ctl_add_ok [OF ct, where t = ?t]
  let ?s = "s\<lparr>ctrls := (ctrls s)[?v := ctl_AddTransaction ?t (ctrls s ! ?v)], quad_req_queues := (quad_req_queues s)[i := rest]\<rparr>"
  have "quad_to_vault c i s = Inr ?s"
    using moved len q v by (auto simp: quad_to_vault_def InsertReqToDRAM_def Let_def split: if_splits)
  moreover have "hmc_shape c ?s" using sh(1) add(1) by (auto simp: hmc_shape_def dest!: set_update_subset_insert [THEN subsetD])
  moreover have "hmc_packets_ok c ?s" using sh(2) r(2) by (simp add: hmc_packets_ok_def every_update)
  moreover have "under_way ?s = under_way s"
    using sum_list_update_mset [OF v, of ctl_owed "ctl_AddTransaction ?t (ctrls s ! ?v)" "(mem_operand req, rq_is_write req)"] add(2)
      packets_pop [OF len(1) q, of mem_operand] by (simp add: under_way_def tag_def new_transaction_def)
  ultimately show ?thesis using ok by (intro exI [of _ ?s]) (simp add: hmc_quiet_def hmc_steps_def hmc_inv_def hmc_pending_def clocks_def)
qed

lemma link_to_quad_ok:
  assumes ok: "hmc_ok c s" and src: "src < length (link_req_queues s)" "link_req_queues s ! src \<noteq> []"
  shows "\<exists>s'. link_to_quad src s = Inr s' \<and> hmc_quiet c s s' \<and> (\<forall>y. y \<noteq> src \<longrightarrow> link_req_queues s' ! y = link_req_queues s ! y)"
proof -
  have sh: "hmc_shape c s" "hmc_packets_ok c s" using ok by (simp_all add: hmc_inv_def)
  obtain req rest where q: "link_req_queues s ! src = req # rest" using src(2) by (cases "link_req_queues s ! src") auto
  have r: "req_ok c req" "\<forall>x \<in> set rest. req_ok c x"
    using every_at [of "req_ok c" "link_req_queues s" src] sh(2) src(1) q by (simp_all add: hmc_packets_ok_def)
  let ?d = "idx_of_int (rq_quad req)"
  have d: "?d < length (quad_req_queues s)" "?d < length (quad_busy s)" "src < length (link_age_counter s)"
    using quad_idx [of "rq_quad req"] r(1) sh(1) src(1) ages_length [of "link_age_counter s" "link_req_queues s"]
    by (simp_all add: req_ok_def hmc_shape_def)
  let ?req = "req\<lparr>rq_exit_time := logic_clk s + u64_of_int (rq_flits req)\<rparr>"
  let ?s = "s\<lparr>link_req_queues := (link_req_queues s)[src := rest],
              quad_req_queues := (quad_req_queues s)[?d := quad_req_queues s ! ?d @ [?req]],
              quad_busy := (quad_busy s)[?d := rq_flits req],
              link_age_counter := (link_age_counter s)[src := if rest = [] then 0 else 1]\<rparr>"
  let ?w = "s\<lparr>link_age_counter := (link_age_counter s)[src := link_age_counter s ! src + 1]\<rparr>"
  have "link_to_quad src s = Inr (if length (quad_req_queues s ! ?d) < queue_depth s \<and> quad_busy s ! ?d \<le> 0 then ?s else ?w)"
    using src d q by (simp add: link_to_quad_def Let_def)
  moreover have "hmc_quiet c s ?s"
  proof -
    have "hmc_shape c ?s" using sh(1) by (simp add: hmc_shape_def ages_update)
    moreover have "hmc_packets_ok c ?s"
      using sh(2) r every_at [of "req_ok c" "quad_req_queues s" ?d] d(1)
      by (auto simp: hmc_packets_ok_def req_ok_def intro!: every_update)
    moreover have "under_way ?s = under_way s"
      using packets_pop [OF src(1) q, of mem_operand] packets_push [OF d(1), of mem_operand ?req] by (simp add: under_way_def)
    ultimately show ?thesis using ok by (simp add: hmc_quiet_def hmc_steps_def hmc_inv_def hmc_pending_def clocks_def)
  qed
  moreover have "hmc_quiet c s ?w"
    using ok src ages_older [of "link_age_counter s" "link_req_queues s" src] by (simp add: hmc_quiet_def hmc_defs)
  ultimately show ?thesis by (cases "length (quad_req_queues s ! ?d) < queue_depth s \<and> quad_busy s ! ?d \<le> 0") auto
qed

lemma DrainRequests_ok:
  assumes "hmc_ok c s"
  shows "\<exists>s'. DrainRequests c s = Inr s' \<and> hmc_quiet c s s'"
proof -
  have "\<exists>t. foldE (quad_to_vault c) [0 ..< 4] s = Inr t \<and> hmc_quiet c s t"
  proof (rule foldE_total)
    fix x t
    assume "x \<in> set [0 ..< 4 :: nat]" and q: "hmc_quiet c s t"
    then obtain t' where "quad_to_vault c x t = Inr t'" "hmc_quiet c t t'" using quad_to_vault_ok [OF hmc_quiet_ok [OF q], of x] by auto
    then show "\<exists>t'. quad_to_vault c x t = Inr t' \<and> hmc_quiet c s t'" using hmc_quiet_trans [OF q] by blast
  qed (rule hmc_quiet_refl [OF assms])
  then obtain s1 where s1: "foldE (quad_to_vault c) [0 ..< 4] s = Inr s1" "hmc_quiet c s s1" by blast
  let ?s2 = "s1\<lparr>quad_busy := drain_busy (quad_busy s1)\<rparr>"
  have "hmc_quiet c s1 ?s2" using hmc_quiet_ok [OF s1(2)] by (simp add: hmc_quiet_def hmc_defs drain_busy_def)
  then have s2: "hmc_quiet c s ?s2" by (rule hmc_quiet_trans [OF s1(2)])
  have ag: "ages_ok (link_age_counter ?s2) (link_req_queues ?s2)" "link_age_counter ?s2 \<noteq> []"
    using hmc_quiet_ok [OF s2] ages_length [of "link_age_counter s1" "link_req_queues s1"] by (auto simp: hmc_inv_def hmc_shape_def)
  obtain q where q: "BuildAgeQueue (logic_clk ?s2) (link_age_counter ?s2) = Inr q" "distinct q"
    "set q = {p. p < length (link_age_counter ?s2) \<and> 0 < link_age_counter ?s2 ! p}" using BuildAgeQueue_serves [OF ag(2)] by blast
  let ?P = "\<lambda>t. hmc_quiet c s t \<and> length (link_req_queues t) = length (link_req_queues s1)"
  let ?R = "\<lambda>x t. x < length (link_req_queues s1) \<and> link_req_queues t ! x \<noteq> []"
  have "\<exists>t. foldE link_to_quad q ?s2 = Inr t \<and> ?P t"
  proof (rule foldE_serve [where R = ?R])
    show "\<forall>x \<in> set q. ?R x ?s2" using q(3) ag(1) ages_at [OF ag(1)] ages_length [OF ag(1)] by auto
  next
    fix x t
    assume p: "?P t" and r: "?R x t"
    from link_to_quad_ok [OF hmc_quiet_ok] p r obtain t' where
      t': "link_to_quad x t = Inr t'" "hmc_quiet c t t'" "\<forall>y. y \<noteq> x \<longrightarrow> link_req_queues t' ! y = link_req_queues t ! y" by metis
    then have "length (link_req_queues t') = length (link_req_queues t)" using p
      by (simp add: hmc_quiet_def hmc_steps_def hmc_inv_def hmc_shape_def)
    then show "\<exists>t'. link_to_quad x t = Inr t' \<and> ?P t' \<and> (\<forall>y. y \<noteq> x \<longrightarrow> ?R y t \<longrightarrow> ?R y t')"
      using t' p hmc_quiet_trans by auto
  qed (use q(2) s2 in simp_all)
  then show ?thesis using s1 q(1) by (auto simp: DrainRequests_def Let_def)
qed

lemma link_to_cpu_ok:
  assumes ok: "hmc_ok c s" and i: "i < nat (links s)"
  shows "\<exists>s' ds. link_to_cpu i (s, cs) = Inr (s', cs @ ds) \<and> hmc_steps c s s' ds \<and> clocks s' = clocks s"
proof -
  have len: "i < length (link_resp_queues s)" using ok i by (simp add: hmc_inv_def hmc_shape_def)
  show ?thesis
  proof (cases "link_to_cpu i (s, cs) = Inr (s, cs)")
    case True
    then show ?thesis using hmc_steps_refl [OF ok] by force
  next
    case False
    then obtain r rest where q: "link_resp_queues s ! i = r # rest"
      using len by (cases "link_resp_queues s ! i") (simp_all add: link_to_cpu_def)
    let ?s = "s\<lparr>link_resp_queues := (link_resp_queues s)[i := rest]\<rparr>"
    have "link_to_cpu i (s, cs) = Inr (?s, cs @ [resp_tag r])"
      using False len q by (auto simp: link_to_cpu_def resp_tag_def Let_def split: if_splits)
    moreover have "\<forall>x \<in> set rest. resp_ok (links s) x"
      using every_at [of "resp_ok (links s)" "link_resp_queues s" i] ok len q by (simp add: hmc_inv_def hmc_packets_ok_def)
    ultimately show ?thesis using ok packets_pop [OF len q, of resp_tag]
      by (intro exI [of _ ?s] exI [of _ "[resp_tag r]"]) (simp add: hmc_defs every_update)
  qed
qed

lemma links_to_cpu_ok:
  assumes "hmc_ok c s" and "\<forall>i \<in> set is. i < nat (links s)"
  shows "\<exists>s' ds. foldE link_to_cpu is (s, cs) = Inr (s', cs @ ds) \<and> hmc_steps c s s' ds \<and> clocks s' = clocks s"
  using assms
proof (induction "is" arbitrary: s cs)
  case Nil
  then show ?case using hmc_steps_refl by force
next
  case (Cons i js)
  then obtain s1 ds where 1: "link_to_cpu i (s, cs) = Inr (s1, cs @ ds)" "hmc_steps c s s1 ds" "clocks s1 = clocks s"
    using link_to_cpu_ok [of c s i cs] by auto
  then have "hmc_ok c s1" "\<forall>i \<in> set js. i < nat (links s1)" using Cons.prems by (simp_all add: hmc_steps_def)
  from Cons.IH [OF this, of "cs @ ds"] obtain s2 es where
    "foldE link_to_cpu js (s1, cs @ ds) = Inr (s2, (cs @ ds) @ es)" "hmc_steps c s1 s2 es" "clocks s2 = clocks s1" by blast
  then show ?case using 1 hmc_steps_trans [OF 1(2)] by auto
qed

lemma quad_to_link_ok:
  assumes ok: "hmc_ok c s" and src: "src < length (quad_resp_queues s)" "quad_resp_queues s ! src \<noteq> []"
  shows "\<exists>s'. quad_to_link src s = Inr s' \<and> hmc_quiet c s s' \<and> (\<forall>y. y \<noteq> src \<longrightarrow> quad_resp_queues s' ! y = quad_resp_queues s ! y)"
proof -
  have sh: "hmc_shape c s" "hmc_packets_ok c s" using ok by (simp_all add: hmc_inv_def)
  obtain r rest where q: "quad_resp_queues s ! src = r # rest" using src(2) by (cases "quad_resp_queues s ! src") auto
  have r: "resp_ok (links s) r" "\<forall>x \<in> set rest. resp_ok (links s) x"
    using every_at [of "resp_ok (links s)" "quad_resp_queues s" src] sh(2) src(1) q by (simp_all add: hmc_packets_ok_def)
  let ?d = "idx_of_int (rs_link r)"
  have d: "?d < length (link_resp_queues s)" "?d < length (link_busy s)" "src < length (quad_age_counter s)"
    using link_idx [of "rs_link r" s] r(1) sh(1) src(1) ages_length [of "quad_age_counter s" "quad_resp_queues s"]
    by (simp_all add: resp_ok_def hmc_shape_def)
  let ?r = "r\<lparr>rs_exit_time := logic_clk s + u64_of_int (rs_flits r)\<rparr>"
  let ?s = "s\<lparr>quad_resp_queues := (quad_resp_queues s)[src := rest],
              link_resp_queues := (link_resp_queues s)[?d := link_resp_queues s ! ?d @ [?r]],
              link_busy := (link_busy s)[?d := rs_flits r],
              quad_age_counter := (quad_age_counter s)[src := if rest = [] then 0 else 1]\<rparr>"
  let ?w = "s\<lparr>quad_age_counter := (quad_age_counter s)[src := quad_age_counter s ! src + 1]\<rparr>"
  have "quad_to_link src s = Inr (if length (link_resp_queues s ! ?d) < queue_depth s \<and> link_busy s ! ?d \<le> 0 then ?s else ?w)"
    using src d q by (simp add: quad_to_link_def Let_def)
  moreover have "hmc_quiet c s ?s"
  proof -
    have "hmc_shape c ?s" using sh(1) by (simp add: hmc_shape_def ages_update)
    moreover have "hmc_packets_ok c ?s"
      using sh(2) r every_at [of "resp_ok (links s)" "link_resp_queues s" ?d] d(1)
      by (auto simp: hmc_packets_ok_def resp_ok_def intro!: every_update)
    moreover have "hmc_pending ?s = hmc_pending s"
      using packets_pop [OF src(1) q, of resp_tag] packets_push [OF d(1), of resp_tag ?r] by (simp add: hmc_pending_def resp_tag_def)
    ultimately show ?thesis using ok by (simp add: hmc_quiet_def hmc_steps_def hmc_inv_def under_way_def clocks_def)
  qed
  moreover have "hmc_quiet c s ?w"
    using ok src ages_older [of "quad_age_counter s" "quad_resp_queues s" src] by (simp add: hmc_quiet_def hmc_defs)
  ultimately show ?thesis by (cases "length (link_resp_queues s ! ?d) < queue_depth s \<and> link_busy s ! ?d \<le> 0") auto
qed

lemma hmc_steps_quiet: "hmc_steps c s1 s2 cs \<Longrightarrow> clocks s2 = clocks s1 \<Longrightarrow> hmc_quiet c s2 s3 \<Longrightarrow> hmc_steps c s1 s3 cs \<and> clocks s3 = clocks s1"
  using hmc_steps_trans [of c s1 s2 cs s3 "[]"] by (simp add: hmc_quiet_def)

lemma DrainResponses_ok:
  assumes "hmc_ok c s"
  shows "\<exists>s' cs. DrainResponses s = Inr (s', cs) \<and> hmc_steps c s s' cs \<and> clocks s' = clocks s"
proof -
  obtain s1 cs where s1: "foldE link_to_cpu [0 ..< nat (links s)] (s, []) = Inr (s1, cs)" "hmc_steps c s s1 cs" "clocks s1 = clocks s"
    using links_to_cpu_ok [OF assms, of "[0 ..< nat (links s)]" "[]"] by auto
  let ?s2 = "s1\<lparr>link_busy := drain_busy (link_busy s1)\<rparr>"
  have ok1: "hmc_ok c s1" using s1(2) by (simp add: hmc_steps_def)
  have s2: "hmc_quiet c s1 ?s2" using ok1 by (simp add: hmc_quiet_def hmc_defs drain_busy_def)
  have ag: "ages_ok (quad_age_counter ?s2) (quad_resp_queues ?s2)" "quad_age_counter ?s2 \<noteq> []"
    using hmc_quiet_ok [OF s2] ages_length [of "quad_age_counter s1" "quad_resp_queues s1"] by (auto simp: hmc_inv_def hmc_shape_def)
  obtain q where q: "BuildAgeQueue (logic_clk ?s2) (quad_age_counter ?s2) = Inr q" "distinct q"
    "set q = {p. p < length (quad_age_counter ?s2) \<and> 0 < quad_age_counter ?s2 ! p}" using BuildAgeQueue_serves [OF ag(2)] by blast
  let ?R = "\<lambda>x t. x < 4 \<and> quad_resp_queues t ! x \<noteq> []"
  have len: "length (quad_resp_queues t) = 4" if "hmc_quiet c s1 t" for t
    using hmc_quiet_ok [OF that] by (simp add: hmc_inv_def hmc_shape_def)
  have "\<exists>t. foldE quad_to_link q ?s2 = Inr t \<and> hmc_quiet c s1 t"
  proof (rule foldE_serve [where R = ?R])
    show "\<forall>x \<in> set q. ?R x ?s2" using q(3) ages_at [OF ag(1)] ages_length [OF ag(1)] len [OF s2] by auto
  next
    fix x t
    assume p: "hmc_quiet c s1 t" and r: "?R x t"
    from quad_to_link_ok [OF hmc_quiet_ok [OF p]] len [OF p] r obtain t' where
      t': "quad_to_link x t = Inr t'" "hmc_quiet c t t'" "\<forall>y. y \<noteq> x \<longrightarrow> quad_resp_queues t' ! y = quad_resp_queues t ! y" by metis
    then show "\<exists>t'. quad_to_link x t = Inr t' \<and> hmc_quiet c s1 t' \<and> (\<forall>y. y \<noteq> x \<longrightarrow> ?R y t \<longrightarrow> ?R y t')"
      using hmc_quiet_trans [OF p] by auto
  qed (use q(2) s2 in simp_all)
  then obtain t where t: "foldE quad_to_link q ?s2 = Inr t" "hmc_quiet c s1 t" by blast
  then show ?thesis using s1 q(1) hmc_steps_quiet [OF s1(2,3) t(2)] by (auto simp: DrainResponses_def Let_def)
qed

section \<open>The vaults\<close>

lemma VaultCallback_ok:
  assumes ok: "hmc_inv c (add_mset a E) s"
  shows "\<exists>s'. VaultCallback a s = Inr s' \<and> hmc_inv c E s' \<and> hmc_pending s' = hmc_pending s \<and> clocks s' = clocks s
    \<and> ctrls s' = ctrls s \<and> links s' = links s \<and> queue_depth s' = queue_depth s \<and> js_clk s' = js_clk s"
proof -
  have sh: "hmc_shape c s" "hmc_packets_ok c s" "image_mset fst (mset (resp_lookup_table s)) = add_mset a (under_way s + E)"
    using ok by (simp_all add: hmc_inv_def)
  have "a \<in># image_mset fst (mset (resp_lookup_table s))" by (simp add: sh(3))
  then obtain e where "e \<in> set (resp_lookup_table s)" "fst e = a" by auto
  then obtain k where k: "first_idx (\<lambda>e. fst e = a) (resp_lookup_table s) = Some k"
    using first_idx_exists [of e "resp_lookup_table s" "\<lambda>e. fst e = a"] by auto
  then have kl: "k < length (resp_lookup_table s)" "fst (resp_lookup_table s ! k) = a" by (simp_all add: first_idx_Some)
  let ?e = "resp_lookup_table s ! k" and ?r = "snd (resp_lookup_table s ! k)"
  let ?q = "idx_of_int (rs_quad ?r)"
  have tab: "mset (resp_lookup_table s) = add_mset ?e (mset (erase_at k (resp_lookup_table s)))"
    using mset_erase_at [OF kl(1)] by simp
  have r: "resp_ok (links s) ?r" using sh(2) kl(1) by (simp add: hmc_packets_ok_def)
  have d: "?q < length (quad_resp_queues s)" "?q < length (quad_age_counter s)"
    using quad_idx [of "rs_quad ?r"] r sh(1) ages_length [of "quad_age_counter s" "quad_resp_queues s"] by (simp_all add: resp_ok_def hmc_shape_def)
  let ?s = "s\<lparr>resp_lookup_table := erase_at k (resp_lookup_table s),
              quad_resp_queues := (quad_resp_queues s)[?q := quad_resp_queues s ! ?q @ [?r]], quad_age_counter := (quad_age_counter s)[?q := 1]\<rparr>"
  have "VaultCallback a s = Inr ?s" using k d by (simp add: VaultCallback_def Let_def)
  moreover have "hmc_shape c ?s" using sh(1) by (simp add: hmc_shape_def ages_update)
  moreover have "hmc_packets_ok c ?s"
  proof -
    have "set (erase_at k (resp_lookup_table s)) \<subseteq> set (resp_lookup_table s)"
      using arg_cong [OF tab, of set_mset] by auto
    then show ?thesis using sh(2) r every_at [of "resp_ok (links s)" "quad_resp_queues s" ?q] d(1)
      by (auto simp: hmc_packets_ok_def intro!: every_update)
  qed
  moreover have "image_mset fst (mset (resp_lookup_table ?s)) = under_way ?s + E"
    using sh(3) kl(2) unfolding tab by (simp add: under_way_def)
  moreover have "hmc_pending ?s = hmc_pending s"
    using packets_push [OF d(1), of resp_tag ?r] by (simp add: hmc_pending_def tab)
  ultimately show ?thesis by (intro exI [of _ ?s]) (simp add: hmc_inv_def clocks_def)
qed

lemma vault_callbacks_ok:
  assumes "hmc_inv c (image_mset fst (mset ps)) s"
  shows "\<exists>s'. foldE (\<lambda>p. VaultCallback (fst p)) ps s = Inr s' \<and> hmc_ok c s' \<and> hmc_pending s' = hmc_pending s \<and> clocks s' = clocks s
    \<and> links s' = links s \<and> queue_depth s' = queue_depth s"
  using assms
proof (induction ps arbitrary: s)
  case (Cons p ps)
  from VaultCallback_ok [of c "fst p" "image_mset fst (mset ps)" s] Cons.prems obtain s1 where
    s1: "VaultCallback (fst p) s = Inr s1" "hmc_inv c (image_mset fst (mset ps)) s1" "hmc_pending s1 = hmc_pending s" "clocks s1 = clocks s"
    "links s1 = links s" "queue_depth s1 = queue_depth s" by auto
  show ?case using Cons.IH [OF s1(2)] s1 by auto
qed simp

lemma sum_owed_update:
  "i < length xs \<Longrightarrow> sum_list (map f (xs[i := y])) + f (xs ! i) = sum_list (map f xs) + (f y :: 'b :: comm_monoid_add)"
  by (induction xs arbitrary: i) (auto simp: ac_simps split: nat.split)

lemma vault_returns_ok:
  assumes ok: "hmc_ok c s" and i: "i < length (ctrls s)"
  shows "\<exists>s'. vault_returns i s = Inr s' \<and> hmc_quiet c s s'"
proof -
  let ?r = "return_loop (js_clk s) (ctrls s ! i)"
  let ?s = "s\<lparr>ctrls := (ctrls s)[i := snd ?r]\<rparr>"
  have ct: "ctl_ok c (ctrls s ! i)" using ok i by (simp add: hmc_inv_def hmc_shape_def)
  note r = return_loop_ok(1,2) [OF ct, of "js_clk s"]
  have "hmc_shape c ?s" using ok r(1) by (auto simp: hmc_inv_def hmc_shape_def dest!: set_update_subset_insert [THEN subsetD])
  moreover have "hmc_packets_ok c ?s" using ok by (simp add: hmc_inv_def hmc_packets_ok_def)
  moreover have "under_way s = under_way ?s + image_mset fst (mset (fst ?r))"
  proof -
    have "sum_list (map ctl_owed (ctrls ?s)) + mset (fst ?r) = sum_list (map ctl_owed (ctrls s))"
      using sum_owed_update [OF i, of ctl_owed "snd ?r"] r(2) by (simp add: ac_simps)
    from arg_cong [OF this, of "image_mset fst"] show ?thesis by (simp add: under_way_def ac_simps)
  qed
  ultimately have "hmc_inv c (image_mset fst (mset (fst ?r))) ?s" using ok by (simp add: hmc_inv_def)
  from vault_callbacks_ok [OF this] obtain s' where "vault_returns i s = Inr s'" "hmc_ok c s'" "hmc_pending s' = hmc_pending ?s" "clocks s' = clocks ?s"
    "links s' = links s" "queue_depth s' = queue_depth s" using i by (auto simp: vault_returns_def Let_def)
  then show ?thesis by (simp add: hmc_quiet_def hmc_steps_def hmc_pending_def clocks_def)
qed

lemma DRAMClockTick_ok:
  assumes "hmc_ok c s"
  shows "\<exists>s'. DRAMClockTick c s = Inr s' \<and> hmc_quiet c s s'"
proof -
  have len: "length (ctrls t) = length (ctrls s)" if "hmc_quiet c s t" for t
    using hmc_quiet_ok [OF that] assms by (simp add: hmc_inv_def hmc_shape_def)
  have "\<exists>t. foldE vault_returns [0 ..< length (ctrls s)] s = Inr t \<and> hmc_quiet c s t"
  proof (rule foldE_total)
    fix x t
    assume "x \<in> set [0 ..< length (ctrls s)]" and q: "hmc_quiet c s t"
    then obtain t' where "vault_returns x t = Inr t'" "hmc_quiet c t t'"
      using vault_returns_ok [OF hmc_quiet_ok [OF q], of x] len [OF q] by auto
    then show "\<exists>t'. vault_returns x t = Inr t' \<and> hmc_quiet c s t'" using hmc_quiet_trans [OF q] by blast
  qed (rule hmc_quiet_refl [OF assms])
  then obtain s1 where s1: "foldE vault_returns [0 ..< length (ctrls s)] s = Inr s1" "hmc_quiet c s s1" by blast
  note ok1 = hmc_quiet_ok [OF s1(2)]
  obtain cts where t: "tick_controllers c (js_clk s1 + 1) (ctrls s1) = Inr cts" "list_all2 (ticked c) (ctrls s1) cts"
    using tick_controllers_ok [of c "ctrls s1" "js_clk s1 + 1"] ok1 by (auto simp: hmc_inv_def hmc_shape_def)
  have "\<forall>ct \<in> set cts. ctl_ok c ct" by (rule list_all2_all [OF t(2)]) (simp add: ticked_def)
  moreover have "map ctl_owed cts = map ctl_owed (ctrls s1)" by (rule list_all2_map_eq [OF t(2)]) (simp add: ticked_def)
  moreover have "length cts = length (ctrls s1)" using list_all2_lengthD [OF t(2)] by simp
  ultimately have "hmc_quiet c s1 (s1\<lparr>js_clk := js_clk s1 + 1, ctrls := cts\<rparr>)" using ok1 by (simp add: hmc_quiet_def hmc_defs)
  then show ?thesis using hmc_quiet_trans [OF s1(2)] s1(1) t(1) by (simp add: DRAMClockTick_def Let_def)
qed

section \<open>The two clocks\<close>

lemma logic_tick_ok: "hmc_ok c s \<Longrightarrow> hmc_steps c s (logic_tick s) [] \<and> clocks (logic_tick s)
    = (logic_clk s + 1, ps_per_dram s, ps_per_logic s, logic_ps s + ps_per_logic s, dram_ps s)"
  by (simp add: logic_tick_def hmc_defs)

text \<open>Drains, a DRAM tick in between if there is one, and the tick of the logic clock.\<close>

lemma logic_step:
  assumes "hmc_steps c s s1 cs" "clocks s1 = clocks s" and "DrainRequests c s1 = Inr s2" "hmc_quiet c s1 s2"
  shows "hmc_steps c s (logic_tick s2) cs \<and> ps_per_dram (logic_tick s2) = ps_per_dram s \<and> ps_per_logic (logic_tick s2) = ps_per_logic s
    \<and> logic_ps (logic_tick s2) = logic_ps s + ps_per_logic s \<and> dram_ps (logic_tick s2) = dram_ps s"
proof -
  have q: "hmc_steps c s s2 cs \<and> clocks s2 = clocks s" by (rule hmc_steps_quiet [OF assms(1,2,4)])
  then show ?thesis using logic_tick_ok [of c s2] hmc_steps_trans [of c s s2 cs "logic_tick s2" "[]"]
    by (auto simp: hmc_steps_def clocks_def)
qed

lemma logic_cycle_ok:
  assumes "hmc_ok c s"
  shows "\<exists>s' cs. logic_cycle c s = Inr (s', cs) \<and> hmc_steps c s s' cs \<and> ps_per_dram s' = ps_per_dram s \<and> ps_per_logic s' = ps_per_logic s
    \<and> logic_ps s' = logic_ps s + ps_per_logic s \<and> dram_ps s' = dram_ps s"
proof -
  obtain s1 cs where s1: "DrainResponses s = Inr (s1, cs)" "hmc_steps c s s1 cs" "clocks s1 = clocks s"
    using DrainResponses_ok [OF assms] by blast
  then obtain s2 where s2: "DrainRequests c s1 = Inr s2" "hmc_quiet c s1 s2" using DrainRequests_ok [of c s1] by (auto simp: hmc_steps_def)
  show ?thesis using logic_step [OF s1(2,3) s2] s1(1) s2(1) by (simp add: logic_cycle_def)
qed

text \<open>After \<open>n\<close> ticks the logic clock is less than one of its periods ahead of the DRAM clock.\<close>

definition in_step :: "nat \<Rightarrow> hmc \<Rightarrow> bool" where
  "in_step n s \<longleftrightarrow> ps_per_dram s = 800 \<and> 0 < unat (ps_per_logic s) \<and> unat (ps_per_logic s) \<le> 800 \<and> unat (dram_ps s) = 800 * n
     \<and> 800 * n \<le> unat (logic_ps s) \<and> unat (logic_ps s) < 800 * n + unat (ps_per_logic s)"

lemma unat_plus: "unat (a :: u64) + unat b < 2 ^ 64 \<Longrightarrow> unat (a + b) = unat a + unat b"
  by (simp add: unat_word_ariths)

lemma logic_loop_ok:
  assumes "hmc_ok c s" and "ps_per_dram s = 800" and "ps_per_logic s = p" and p: "0 < unat p" "unat p \<le> 800"
    and "unat (dram_ps s) = D" and D: "D + 1600 < 2 ^ 64" and "unat (logic_ps s) < D + 800 + unat p"
  shows "\<exists>s' ds. logic_loop c s cs = Some (Inr (s', cs @ ds)) \<and> hmc_steps c s s' ds \<and> ps_per_dram s' = 800 \<and> ps_per_logic s' = p
    \<and> dram_ps s' = dram_ps s \<and> D + 800 \<le> unat (logic_ps s') \<and> unat (logic_ps s') < D + 800 + unat p"
  using assms(1-3,6,8)
proof (induction "D + 800 - unat (logic_ps s)" arbitrary: s cs rule: less_induct)
  case less
  have lim: "unat (dram_ps s + ps_per_dram s) = D + 800" using less.prems(2,4) D by (simp add: unat_plus)
  show ?case
  proof (cases "logic_ps s < dram_ps s + ps_per_dram s")
    case False
    then have "logic_loop c s cs = Some (Inr (s, cs))" by (subst logic_loop.simps) simp
    moreover have "D + 800 \<le> unat (logic_ps s)" using False lim by (simp add: word_less_nat_alt)
    ultimately show ?thesis using less.prems hmc_steps_refl [OF less.prems(1)] by (intro exI [of _ s] exI [of _ "[]"]) simp
  next
    case True
    then have lt: "unat (logic_ps s) < D + 800" using lim by (simp add: word_less_nat_alt)
    obtain s1 ds where s1: "logic_cycle c s = Inr (s1, ds)" "hmc_steps c s s1 ds" "ps_per_dram s1 = 800" "ps_per_logic s1 = p"
      "logic_ps s1 = logic_ps s + p" "dram_ps s1 = dram_ps s" using logic_cycle_ok [OF less.prems(1)] less.prems by auto
    have l1: "unat (logic_ps s1) = unat (logic_ps s) + unat p" using s1(5) lt p D by (simp add: unat_plus)
    have "D + 800 - unat (logic_ps s1) < D + 800 - unat (logic_ps s)" using l1 lt p by simp
    from less.hyps [OF this, of "cs @ ds"] s1 less.prems l1 lt obtain s2 es where
      s2: "logic_loop c s1 (cs @ ds) = Some (Inr (s2, (cs @ ds) @ es))" "hmc_steps c s1 s2 es" "ps_per_dram s2 = 800" "ps_per_logic s2 = p"
      "dram_ps s2 = dram_ps s1" "D + 800 \<le> unat (logic_ps s2)" "unat (logic_ps s2) < D + 800 + unat p" by (auto simp: hmc_steps_def)
    moreover have "logic_loop c s cs = logic_loop c s1 (cs @ ds)" using True s1(1) by (subst logic_loop.simps) simp
    ultimately show ?thesis using hmc_steps_trans [OF s1(2) s2(2)] s1(6)
      by (intro exI [of _ s2] exI [of _ "ds @ es"]) simp
  qed
qed

lemma hmc_tick_ok:
  assumes ok: "hmc_ok c s" and st: "in_step n s" and n: "n < 2 ^ 54"
  shows "\<exists>s' cs. hmc_ClockTick c s = Inr (s', cs) \<and> hmc_steps c s s' cs \<and> in_step (Suc n) s'"
proof -
  let ?p = "ps_per_logic s" and ?D = "800 * n"
  have D: "?D + 1600 < 2 ^ 64" using n by simp
  have c: "ps_per_dram s = 800" "0 < unat ?p" "unat ?p \<le> 800" "unat (dram_ps s) = ?D" "?D \<le> unat (logic_ps s)"
    "unat (logic_ps s) < ?D + unat ?p" using st by (simp_all add: in_step_def)
  have "\<exists>s1 cs. (if dram_ps s = logic_ps s
            then bindE (DrainResponses s) (\<lambda>(s1, cs). bindE (DRAMClockTick c s1) (\<lambda>s2. bindE (DrainRequests c s2) (\<lambda>s3. Inr (logic_tick s3, cs))))
            else bindE (DRAMClockTick c s) (\<lambda>s1. Inr (s1, []))) = Inr (s1, cs)
      \<and> hmc_steps c s s1 cs \<and> ps_per_dram s1 = 800 \<and> ps_per_logic s1 = ?p \<and> dram_ps s1 = dram_ps s
      \<and> unat (logic_ps s1) < ?D + 800 + unat ?p" (is "\<exists>s1 cs. ?first = _ \<and> _")
  proof (cases "dram_ps s = logic_ps s")
    case True
    obtain s1 cs where s1: "DrainResponses s = Inr (s1, cs)" "hmc_steps c s s1 cs" "clocks s1 = clocks s"
      using DrainResponses_ok [OF ok] by blast
    then obtain s2 where s2: "DRAMClockTick c s1 = Inr s2" "hmc_quiet c s1 s2" using DRAMClockTick_ok [of c s1] by (auto simp: hmc_steps_def)
    obtain s3 where s3: "DrainRequests c s2 = Inr s3" "hmc_quiet c s2 s3" using DrainRequests_ok [OF hmc_quiet_ok [OF s2(2)]] by blast
    note q = hmc_steps_quiet [OF s1(2,3) s2(2)]
    have "unat (logic_ps s + ?p) = unat (logic_ps s) + unat ?p" using c D True by (intro unat_plus) simp
    then show ?thesis using logic_step [OF conjunct1 [OF q] conjunct2 [OF q] s3] s1(1) s2(1) s3(1) True c
      by (intro exI [of _ "logic_tick s3"] exI [of _ cs]) simp
  next
    case False
    obtain s1 where "DRAMClockTick c s = Inr s1" "hmc_quiet c s s1" using DRAMClockTick_ok [OF ok] by blast
    then show ?thesis using False c by (intro exI [of _ s1] exI [of _ "[]"]) (simp add: hmc_quiet_def clocks_def)
  qed
  then obtain s1 cs where s1: "?first = Inr (s1, cs)" "hmc_steps c s s1 cs" "ps_per_dram s1 = 800" "ps_per_logic s1 = ?p"
    "dram_ps s1 = dram_ps s" "unat (logic_ps s1) < ?D + 800 + unat ?p" by blast
  have "hmc_ok c s1" using s1(2) by (simp add: hmc_steps_def)
  from logic_loop_ok [OF this s1(3,4) c(2,3) _ D s1(6), of cs] s1(5) c(4) obtain s2 ds where
    s2: "logic_loop c s1 cs = Some (Inr (s2, cs @ ds))" "hmc_steps c s1 s2 ds" "ps_per_dram s2 = 800" "ps_per_logic s2 = ?p"
    "dram_ps s2 = dram_ps s1" "?D + 800 \<le> unat (logic_ps s2)" "unat (logic_ps s2) < ?D + 800 + unat ?p" by auto
  let ?s = "s2\<lparr>dram_ps := dram_ps s2 + ps_per_dram s2\<rparr>"
  have "hmc_ok c s2" using s2(2) by (simp add: hmc_steps_def)
  then have "hmc_steps c s2 ?s []" by (simp add: hmc_defs)
  then have "hmc_steps c s ?s (cs @ ds)" using hmc_steps_trans [OF hmc_steps_trans [OF s1(2) s2(2)], of ?s "[]"] by simp
  moreover have "unat (dram_ps ?s) = 800 * Suc n" using s2(3,5) s1(5) c(4) D by (simp add: unat_plus)
  then have "in_step (Suc n) ?s" using s2 c by (simp add: in_step_def)
  moreover have "hmc_ClockTick c s = Inr (?s, cs @ ds)" using s1(1) s2(1) by (simp add: hmc_ClockTick_def)
  ultimately show ?thesis by blast
qed

lemma hmc_new_ok:
  assumes "sys_cfg c" and "IsHMC c" and "queue_structure c = ''PER_BANK'' \<or> queue_structure c = ''PER_RANK''"
    and "Refresh_new c = Inr rf" and "rf_ok c rf" and "0 < num_links c" and "num_links c < 2 ^ 31"
    and "SetClockRatio c = Inr (800, p)" and "p \<noteq> 0"
  shows "\<exists>s. HMCMemorySystem_new c = Inr s \<and> hmc_ok c s \<and> hmc_pending s = {#} \<and> in_step 0 s"
proof -
  have g: "geo_fits c" using assms(1) by (simp add: sys_cfg_def)
  then have "unat (ch_mask c) < nat (channels c)" by (simp add: geo_fits_def map_ok_def)
  then have ch: "0 \<le> channels c" by simp
  obtain ct where ct: "Controller_new c = Inr ct" "ctl_ok c ct" "ctl_owed ct = {#}" using Controller_new_ok [OF g assms(3-5)] by blast
  have m: "mapE (\<lambda>_. Controller_new c) xs = Inr (replicate (length xs) ct)" for xs :: "int list"
    using ct(1) by (induction xs) simp_all
  have z: "sum_list (replicate k ({#} :: di_trans multiset)) = {#}" for k by (induction k) simp_all
  have four: "[0, 0, 0, 0] = replicate 4 (0 :: int)" by (simp add: eval_nat_numeral)
  have "p \<le> 800" using assms(8) by (auto simp: SetClockRatio_def bindE_eq_Inr split: if_splits)
  then have "unat p \<le> 800" "0 < unat p" using assms(9) by (simp_all add: word_le_nat_alt unat_gt_0)
  moreover define k where "k = nat (num_links c)"
  define s where "s = \<lparr>js_clk = 0, last_req_clk = 0, ctrls = replicate (nat (channels c)) ct, logic_clk = 0, ps_per_dram = 800, ps_per_logic = p,
    logic_ps = 0, dram_ps = 0, next_link = 0, links = num_links c, queue_depth = idx_of_int (xbar_queue_depth c),
    resp_lookup_table = [], link_req_queues = replicate k [], link_resp_queues = replicate k [],
    quad_req_queues = replicate 4 [], quad_resp_queues = replicate 4 [], link_busy = replicate k 0,
    quad_busy = replicate 4 0, link_age_counter = replicate k 0, quad_age_counter = replicate 4 0\<rparr>"
  moreover have "HMCMemorySystem_new c = Inr s"
    using assms ch m by (simp add: HMCMemorySystem_new_def Let_def four s_def k_def)
  ultimately show ?thesis using assms ct
    by (intro exI [of _ s]) (simp add: hmc_defs in_step_def z map_replicate_const k_def)
qed

section \<open>Runs\<close>

text \<open>Any sequence of \<open>AddTransaction\<close> and \<open>ClockTick\<close>, with the number of ticks, the transactions that
  were accepted and the callbacks that were made.\<close>

inductive hmc_run :: "dram_config \<Rightarrow> hmc \<Rightarrow> nat \<Rightarrow> di_trans list \<Rightarrow> di_trans list \<Rightarrow> hmc \<Rightarrow> bool" for c :: dram_config and s0 :: hmc where
  hr_start: "hmc_run c s0 0 [] [] s0"
| hr_add: "hmc_run c s0 n rs cs s \<Longrightarrow> hmc_AddTransaction c a w s = Inr (b, s') \<Longrightarrow> hmc_run c s0 n (if b then rs @ [(a, w)] else rs) cs s'"
| hr_tick: "hmc_run c s0 n rs cs s \<Longrightarrow> hmc_ClockTick c s = Inr (s', ds) \<Longrightarrow> hmc_run c s0 (Suc n) rs (cs @ ds) s'"

lemma hmc_run_ok:
  assumes "hmc_run c s0 n rs cs s" and "hmc_ok c s0" and "hmc_pending s0 = {#}" and "in_step 0 s0"
    and "\<And>w. \<exists>t. type_of_block (block_size c) w = Inr t" and "n \<le> 2 ^ 54"
  shows "hmc_ok c s \<and> in_step n s \<and> mset rs = mset cs + hmc_pending s"
  using assms(1,6)
proof (induction rule: hmc_run.induct)
  case hr_start
  then show ?case using assms(2-4) by simp
next
  case (hr_add n rs cs s a w b s')
  then have ih: "hmc_ok c s" "in_step n s" "mset rs = mset cs + hmc_pending s" by simp_all
  obtain t where "type_of_block (block_size c) w = Inr t" using assms(5) by blast
  from hmc_add_ok [OF ih(1) this, of a] hr_add.hyps(2) have
    "hmc_ok c s'" "clocks s' = clocks s" "hmc_pending s' = (if b then add_mset (a, w) (hmc_pending s) else hmc_pending s)" by auto
  then show ?case using ih by (simp add: in_step_def clocks_def)
next
  case (hr_tick n rs cs s s' ds)
  then have ih: "hmc_ok c s" "in_step n s" "mset rs = mset cs + hmc_pending s" by simp_all
  from hmc_tick_ok [OF ih(1,2)] hr_tick.hyps(2) hr_tick.prems have "hmc_steps c s s' ds" "in_step (Suc n) s'" by auto
  then show ?case using ih by (simp add: hmc_steps_def ac_simps)
qed

end
