(* ===== verification/Hmc_Properties.thy ===== *)
theory Hmc_Properties
  imports Hmc_System Dram_Properties
begin

text \<open>
  The properties of the hybrid memory cube: what is accepted, that every accepted transaction is answered
  exactly once and no run stops with an error, and what \<open>BuildAgeQueue\<close> really orders.
\<close>

section \<open>A configured cube\<close>

definition hmc_cfg :: "dram_config \<Rightarrow> bool" where
  "hmc_cfg c \<longleftrightarrow> sys_cfg c \<and> IsHMC c \<and> (queue_structure c = ''PER_BANK'' \<or> queue_structure c = ''PER_RANK'') \<and> refresh_cfg c
     \<and> 0 < num_links c \<and> num_links c < 2 ^ 31 \<and> block_size c \<in> {0, 32, 64, 128, 256}
     \<and> (case SetClockRatio c of Inr (_, p) \<Rightarrow> p \<noteq> 0 | Inl _ \<Rightarrow> False)"

lemma hmc_started_ok:
  assumes "hmc_cfg c" and "HMCMemorySystem_new c = Inr s0"
  shows "hmc_ok c s0" and "in_step 0 s0" and "hmc_pending s0 = {#}"
proof -
  have "geo_ok c" using assms(1) by (simp add: hmc_cfg_def sys_cfg_def geo_fits_def)
  then obtain rf where rf: "Refresh_new c = Inr rf" "rf_ok c rf" using refresh_started assms(1) by (auto simp: hmc_cfg_def)
  obtain d p where dp: "SetClockRatio c = Inr (d, p)" "p \<noteq> 0" using assms(1) by (auto simp: hmc_cfg_def split: sum.splits)
  have "d = 800" using dp(1) by (auto simp: SetClockRatio_def bindE_eq_Inr)
  with dp have p: "SetClockRatio c = Inr (800, p)" "p \<noteq> 0" by simp_all
  obtain s where s: "HMCMemorySystem_new c = Inr s" "hmc_ok c s" "hmc_pending s = {#}" "in_step 0 s"
    using hmc_new_ok [OF _ _ _ rf _ _ p] assms(1) by (auto simp: hmc_cfg_def)
  then show "hmc_ok c s0" and "in_step 0 s0" and "hmc_pending s0 = {#}" using assms(2) by simp_all
qed

lemma block_types: "hmc_cfg c \<Longrightarrow> \<exists>t. type_of_block (block_size c) w = Inr t"
  by (auto simp: hmc_cfg_def type_of_block_def)

definition demo_cube :: dram_config where
  "demo_cube = demo_dram\<lparr>protocol := HMC\<rparr>"

lemma demo_cube_cfg: "hmc_cfg demo_cube"
proof -
  have "SetClockRatio demo_cube = Inr (800, 533)"
    by (simp add: SetClockRatio_def demo_cube_def demo_dram_def c_div_def u64_of_fl_def double_p_def fl_eval u64_of_int_def)
  moreover have "geo_fits demo_cube" by (simp add: geo_fits_def geo_ok_def map_ok_def demo_cube_def demo_dram_def)
  ultimately show ?thesis
    by (simp add: hmc_cfg_def sys_cfg_def refresh_cfg_def Refresh_new_def demo_cube_def demo_dram_def IsHMC_def u64_of_int_def)
qed

lemma demo_cube_started: "\<exists>s0. HMCMemorySystem_new demo_cube = Inr s0 \<and> hmc_WillAcceptTransaction s0"
proof -
  have "SetClockRatio demo_cube = Inr (800, 533)"
    by (simp add: SetClockRatio_def demo_cube_def demo_dram_def c_div_def u64_of_fl_def double_p_def fl_eval u64_of_int_def)
  then show ?thesis
    by (simp add: HMCMemorySystem_new_def hmc_WillAcceptTransaction_def demo_cube_def demo_dram_def IsHMC_def Controller_new_def
        CommandQueue_new_def Refresh_new_def list_ex_iff conv_simps)
qed

text \<open>Any number of ticks can follow a state of a run.\<close>

lemma hmc_run_goes_on:
  assumes "hmc_cfg c" and "HMCMemorySystem_new c = Inr s0" and "hmc_run c s0 n rs cs s" and "n + k \<le> 2 ^ 54"
  shows "\<exists>ds s'. hmc_run c s0 (n + k) rs (cs @ ds) s'"
  using assms(4)
proof (induction k)
  case 0
  then show ?case using assms(3) by (intro exI [of _ "[]"] exI [of _ s]) simp
next
  case (Suc k)
  then obtain ds s1 where r: "hmc_run c s0 (n + k) rs (cs @ ds) s1" by auto
  have "hmc_ok c s1" "in_step (n + k) s1"
    using hmc_run_ok [OF r hmc_started_ok(1,3,2) [OF assms(1,2)] block_types [OF assms(1)]] Suc.prems by simp_all
  from hmc_tick_ok [OF this] Suc.prems obtain s' es where "hmc_ClockTick c s1 = Inr (s', es)" by auto
  from hr_tick [OF r this] show ?case by (auto intro!: exI [of _ "ds @ es"])
qed

section \<open>Answers\<close>

text \<open>C6: in every run of the cube, accepted transactions and the answers they wait for keep in balance:
  what was accepted is exactly what was answered, as a read or as a write, together with what is still
  under way; nothing is answered twice or lost.  In the state reached, the next transaction is accepted
  exactly when \<open>WillAcceptTransaction\<close> says so, and the next tick ends without an error.\<close>

theorem cube_answers_once:
  assumes "hmc_cfg c" and "HMCMemorySystem_new c = Inr s0" and "hmc_run c s0 n rs cs s" and "n < 2 ^ 54"
  shows "mset rs = mset cs + hmc_pending s \<and> (\<exists>s' ds. hmc_ClockTick c s = Inr (s', ds) \<and> hmc_pending s = hmc_pending s' + mset ds)
    \<and> (\<exists>s'. hmc_AddTransaction c a w s = Inr (hmc_WillAcceptTransaction s, s'))"
proof -
  have r: "hmc_ok c s" "in_step n s" "mset rs = mset cs + hmc_pending s"
    using hmc_run_ok [OF assms(3) hmc_started_ok(1,3,2) [OF assms(1,2)] block_types [OF assms(1)]] assms(4) by auto
  from hmc_tick_ok [OF r(1,2) assms(4)] obtain s' ds where "hmc_ClockTick c s = Inr (s', ds)" "hmc_pending s = hmc_pending s' + mset ds"
    by (auto simp: hmc_steps_def)
  moreover obtain t where "type_of_block (block_size c) w = Inr t" using block_types [OF assms(1)] by blast
  from hmc_add_ok [OF r(1) this, of a] have "\<exists>s'. hmc_AddTransaction c a w s = Inr (hmc_WillAcceptTransaction s, s')" by auto
  ultimately show ?thesis using r(3) by blast
qed

theorem cube_answers_once_witness:
  "\<exists>s0 cs s. HMCMemorySystem_new demo_cube = Inr s0 \<and> hmc_run demo_cube s0 3 [(64, False)] cs s \<and> {#(64, False)#} = mset cs + hmc_pending s"
proof -
  obtain s0 where s0: "HMCMemorySystem_new demo_cube = Inr s0" "hmc_WillAcceptTransaction s0" using demo_cube_started by blast
  obtain t where "type_of_block (block_size demo_cube) False = Inr t" using block_types [OF demo_cube_cfg] by blast
  from hmc_add_ok [OF hmc_started_ok(1) [OF demo_cube_cfg s0(1)] this, of 64] s0(2) obtain s1 where
    "hmc_AddTransaction demo_cube 64 False s0 = Inr (True, s1)" by auto
  from hr_add [OF hr_start this] have "hmc_run demo_cube s0 0 [(64, False)] [] s1" by simp
  from hmc_run_goes_on [OF demo_cube_cfg s0(1) this, of 3] obtain cs s where r: "hmc_run demo_cube s0 3 [(64, False)] cs s" by auto
  then show ?thesis using cube_answers_once [OF demo_cube_cfg s0(1) r] s0(1) by auto
qed

section \<open>The order of service\<close>

text \<open>\<open>BuildAgeQueue\<close> holds every position with work once (\<open>BuildAgeQueue_serves\<close>).  It is not sorted by age, whatever
  the comment at its head says: a link that has waited for three cycles is served after one that has waited for one.\<close>

lemma age_queue_not_oldest_first: "BuildAgeQueue 0 [3, 1, 0, 0] = Inr [1, 0]"
  by code_simp

end
