(* ===== verification/Streams.thy ===== *)
theory Streams
  imports Ini_Parser
begin

text \<open>
  What the programs use of \<open>std::istream\<close>: formatted extraction of unsigned numbers and strings, and
  \<open>getline\<close> with a delimiter, with the end-of-file and failure bits.  A variable that an extraction
  leaves alone keeps its value; one that was never written is \<open>None\<close>.  The lemmas read back what the
  programs print.
\<close>

section \<open>Extraction\<close>

record istream =
  is_rest :: string
  is_eof :: bool
  is_fail :: bool

text \<open>What every formatted extraction does first: it fails on a stream that is not good, and it skips
  white space.\<close>

definition sentry :: "istream \<Rightarrow> bool \<times> istream" where
  "sentry i =
     (if is_eof i \<or> is_fail i then (False, i\<lparr>is_fail := True\<rparr>)
      else let r = dropWhile is_space_char (is_rest i) in
        if r = [] then (False, i\<lparr>is_rest := [], is_eof := True, is_fail := True\<rparr>) else (True, i\<lparr>is_rest := r\<rparr>))"

text \<open>\<open>is >> x\<close> for a \<open>uint64_t\<close> in base 10 or 16; \<open>x\<close> keeps its value only if the stream was not good.\<close>

definition extract_u64 :: "nat \<Rightarrow> u64 option \<Rightarrow> istream \<Rightarrow> u64 option \<times> istream" where
  "extract_u64 b x i =
     (let (good, i1) = sentry i in
      if \<not> good then (x, i1)
      else
        let (neg, r) = split_sign (is_rest i1);
            r1 = (if b = 16 \<and> (take 2 r = ''0x'' \<or> take 2 r = ''0X'') then drop 2 r else r);
            ds = takeWhile (in_base b) r1; r2 = dropWhile (in_base b) r1; v = base_val b ds;
            i2 = i1\<lparr>is_rest := r2, is_eof := (r2 = [])\<rparr> in
        if ds = [] then (Some 0, i2\<lparr>is_fail := True\<rparr>)
        else if v \<ge> 2 ^ 64 then (Some (- 1), i2\<lparr>is_fail := True\<rparr>)
        else (Some (if neg then - of_nat v else of_nat v), i2))"

definition extract_string :: "istream \<Rightarrow> string \<times> istream" where
  "extract_string i =
     (let (good, i1) = sentry i in
      if \<not> good then ([], i1)
      else let r = dropWhile (\<lambda>ch. \<not> is_space_char ch) (is_rest i1) in
        (takeWhile (\<lambda>ch. \<not> is_space_char ch) (is_rest i1), i1\<lparr>is_rest := r, is_eof := (r = [])\<rparr>))"

text \<open>\<open>getline(is, tmp, dl)\<close>: whether it succeeded, \<open>tmp\<close>, and the stream.  On a stream that is not good \<open>tmp\<close> is
  left alone; at the very end it becomes empty.\<close>

definition get_delim :: "char \<Rightarrow> string \<Rightarrow> istream \<Rightarrow> bool \<times> string \<times> istream" where
  "get_delim dl tmp i =
     (if is_eof i \<or> is_fail i then (False, tmp, i\<lparr>is_fail := True\<rparr>)
      else if is_rest i = [] then (False, [], i\<lparr>is_eof := True, is_fail := True\<rparr>)
      else let r = dropWhile (\<lambda>ch. ch \<noteq> dl) (is_rest i) in
        (True, takeWhile (\<lambda>ch. ch \<noteq> dl) (is_rest i), i\<lparr>is_rest := tl r, is_eof := (r = [])\<rparr>))"

definition stream_of :: "string \<Rightarrow> istream" where
  "stream_of s = \<lparr>is_rest = s, is_eof = False, is_fail = False\<rparr>"

definition known :: "'a option \<Rightarrow> 'a result" where
  "known x = (case x of None \<Rightarrow> Inl UB_Uninit | Some v \<Rightarrow> Inr v)"

section \<open>Hexadecimal numbers\<close>

definition hex_char :: "nat \<Rightarrow> char" where
  "hex_char d = (if d < 10 then digit_char d else char_of (87 + d))"

fun hex_string :: "nat \<Rightarrow> string" where
  "hex_string n = (if n < 16 then [hex_char n] else hex_string (n div 16) @ [hex_char (n mod 16)])"

declare hex_string.simps [simp del]

lemma hex_char_val: "d < 16 \<Longrightarrow> hex_val (hex_char d) = Some d"
  using digit_char_facts(1) [of d] by (cases "d < 10") (simp_all add: hex_char_def, simp add: hex_val_def Let_def)

lemma hex_string_facts:
  "base_val 16 (hex_string n) = n \<and> hex_string n \<noteq> [] \<and> (\<forall>ch \<in> set (hex_string n). in_base 16 ch)"
proof (induction n rule: hex_string.induct)
  case (1 n)
  show ?case
  proof (cases "n < 16")
    case True
    then show ?thesis using hex_char_val [OF True] by (simp add: hex_string.simps [of n] base_val_def in_base_def)
  next
    case False
    then have "hex_string n = hex_string (n div 16) @ [hex_char (n mod 16)]" by (simp add: hex_string.simps [of n])
    then show ?thesis using "1.IH" [OF False] hex_char_val [of "n mod 16"] by (auto simp: base_val_snoc in_base_def)
  qed
qed

lemma takeWhile_stop: "\<forall>x \<in> set xs. P x \<Longrightarrow> \<not> P y \<Longrightarrow> takeWhile P (xs @ y # ys) = xs \<and> dropWhile P (xs @ y # ys) = y # ys"
  by (simp add: takeWhile_append dropWhile_append)

lemma separators:
  "\<not> in_base b (CHR '' '')" "\<not> in_base b (CHR 0x0A)" "is_space_char (CHR '' '')" "is_space_char (CHR 0x0A)" "\<not> is_space_char (CHR ''0'')"
  by (simp_all add: in_base_def hex_val_def is_space_char_def)

lemma spaces_skipped: "\<forall>ch \<in> set ws. is_space_char ch \<Longrightarrow> dropWhile is_space_char (ws @ r) = dropWhile is_space_char r"
  by (induction ws) auto

lemma extract_hex:
  assumes "\<not> is_eof i" "\<not> is_fail i" "is_rest i = ws @ ''0x'' @ hex_string (unat a) @ CHR '' '' # r" "\<forall>ch \<in> set ws. is_space_char ch"
  shows "extract_u64 16 x i = (Some a, i\<lparr>is_rest := CHR '' '' # r, is_eof := False\<rparr>)"
proof -
  have "sentry i = (True, i\<lparr>is_rest := ''0x'' @ hex_string (unat a) @ CHR '' '' # r\<rparr>)"
    using assms spaces_skipped [OF assms(4)] separators(5) by (simp add: sentry_def)
  moreover have "unat a < 2 ^ 64" using unsigned_less [of a, where 'a = nat] by simp
  ultimately show ?thesis
    using hex_string_facts [of "unat a"] takeWhile_stop [of "hex_string (unat a)" "in_base 16" "CHR '' ''" r] separators
    by (simp add: extract_u64_def split_sign_def)
qed

lemma extract_dec:
  assumes "\<not> is_eof i" "\<not> is_fail i" "is_rest i = CHR '' '' # dec_string (unat a) @ CHR 0x0A # r"
  shows "extract_u64 10 x i = (Some a, i\<lparr>is_rest := CHR 0x0A # r, is_eof := False\<rparr>)"
proof -
  obtain d cs where d: "d < 10" "dec_string (unat a) = digit_char d # cs" using dec_string_facts [of "unat a"] by (cases "dec_string (unat a)") auto
  note f = digit_char_facts [OF d(1)]
  have "sentry i = (True, i\<lparr>is_rest := dec_string (unat a) @ CHR 0x0A # r\<rparr>)"
    using assms f separators(3) by (simp add: sentry_def d(2))
  moreover have "split_sign (dec_string (unat a) @ CHR 0x0A # r) = (False, dec_string (unat a) @ CHR 0x0A # r)"
    using f by (simp add: split_sign_def d(2))
  moreover have "unat a < 2 ^ 64" using unsigned_less [of a, where 'a = nat] by simp
  ultimately show ?thesis
    using dec_string_facts [of "unat a"] takeWhile_stop [of "dec_string (unat a)" "in_base 10" "CHR 0x0A" r] separators
    by (simp add: extract_u64_def)
qed

end
