(* ===== verification/Cpu_Models.thy ===== *)
theory Cpu_Models
  imports Dram_System Streams
begin

text \<open>
  \<open>DRAMsim3/src/cpu.cc\<close> and \<open>cpu.h\<close>: the three processors of the stand-alone simulator, and the loop of
  \<open>main.cc\<close> that drives them.  A processor reaches its memory through \<open>mem_ops\<close>; its callbacks do nothing,
  so a tick reports the transactions it handed to the memory and the ones the memory called back.
  \<open>std::mt19937_64\<close> is the argument \<open>gen\<close>: its \<open>k\<close>-th output.
\<close>

section \<open>Offering a transaction\<close>

definition offer :: "'m mem_ops \<Rightarrow> 'm \<Rightarrow> u64 \<Rightarrow> bool \<Rightarrow> (bool \<times> 'm) result" where
  "offer ops m a w =
     bindE (will_accept ops m a w) (\<lambda>ok.
     if ok then bindE (add_trans ops m a w) (\<lambda>m'. Inr (True, m')) else Inr (False, m))"

section \<open>Random requests\<close>

record 'm random_cpu =
  rc_mem :: 'm
  rc_clk :: u64
  last_addr :: u64
  last_write :: bool
  rc_gen :: nat
  rc_get_next :: bool

text \<open>\<open>last_addr_\<close> is not initialised; the first tick writes it.\<close>

definition RandomCPU_new :: "'m \<Rightarrow> 'm random_cpu" where
  "RandomCPU_new m = \<lparr>rc_mem = m, rc_clk = 0, last_addr = 0, last_write = False, rc_gen = 0, rc_get_next = True\<rparr>"

definition RandomCPU_ClockTick ::
  "'m mem_ops \<Rightarrow> (nat \<Rightarrow> u64) \<Rightarrow> 'm random_cpu \<Rightarrow> ('m random_cpu \<times> di_trans list \<times> di_trans list) result" where
  "RandomCPU_ClockTick ops gen s =
     bindE (clock_tick ops (rc_mem s)) (\<lambda>(m1, cs).
     let s1 = (if rc_get_next s
               then s\<lparr>last_addr := gen (rc_gen s), last_write := (gen (rc_gen s + 1) mod 3 = 0), rc_gen := rc_gen s + 2\<rparr>
               else s) in
     bindE (offer ops m1 (last_addr s1) (last_write s1)) (\<lambda>(ok, m2).
     Inr (s1\<lparr>rc_mem := m2, rc_get_next := ok, rc_clk := rc_clk s1 + 1\<rparr>,
          if ok then [(last_addr s1, last_write s1)] else [], cs)))"

section \<open>Stream-add\<close>

record 'm stream_cpu =
  sc_mem :: 'm
  sc_clk :: u64
  addr_a :: u64
  addr_b :: u64
  addr_c :: u64
  offset :: u64
  sc_gen :: nat
  inserted_a :: bool
  inserted_b :: bool
  inserted_c :: bool

definition array_size :: u64 where
  "array_size = u64_of_int (2 * 2 ^ 20)"

definition stride :: u64 where
  "stride = u64_of_int 64"

definition StreamCPU_new :: "'m \<Rightarrow> 'm stream_cpu" where
  "StreamCPU_new m = \<lparr>sc_mem = m, sc_clk = 0, addr_a = 0, addr_b = 0, addr_c = 0, offset = 0, sc_gen = 0,
     inserted_a = False, inserted_b = False, inserted_c = False\<rparr>"

text \<open>\<open>if (!inserted && WillAcceptTransaction(...)) { AddTransaction(...); inserted = true; }\<close>\<close>

definition insert_once :: "'m mem_ops \<Rightarrow> bool \<Rightarrow> u64 \<Rightarrow> bool \<Rightarrow> 'm \<Rightarrow> (bool \<times> 'm \<times> di_trans list) result" where
  "insert_once ops inserted a w m =
     (if inserted then Inr (True, m, [])
      else bindE (offer ops m a w) (\<lambda>(ok, m'). Inr (ok, m', if ok then [(a, w)] else [])))"

definition StreamCPU_ClockTick ::
  "'m mem_ops \<Rightarrow> (nat \<Rightarrow> u64) \<Rightarrow> 'm stream_cpu \<Rightarrow> ('m stream_cpu \<times> di_trans list \<times> di_trans list) result" where
  "StreamCPU_ClockTick ops gen s =
     bindE (clock_tick ops (sc_mem s)) (\<lambda>(m1, cs).
     let s1 = (if offset s \<ge> array_size \<or> sc_clk s = 0
               then s\<lparr>addr_a := gen (sc_gen s), addr_b := gen (sc_gen s + 1), addr_c := gen (sc_gen s + 2), sc_gen := sc_gen s + 3,
                      offset := 0\<rparr>
               else s) in
     bindE (insert_once ops (inserted_a s1) (addr_a s1 + offset s1) False m1) (\<lambda>(ia, m2, as).
     bindE (insert_once ops (inserted_b s1) (addr_b s1 + offset s1) False m2) (\<lambda>(ib, m3, bs).
     bindE (insert_once ops (inserted_c s1) (addr_c s1 + offset s1) True m3) (\<lambda>(ic, m4, ws).
     let s2 = (if ia \<and> ib \<and> ic
               then s1\<lparr>offset := offset s1 + stride, inserted_a := False, inserted_b := False, inserted_c := False\<rparr>
               else s1\<lparr>inserted_a := ia, inserted_b := ib, inserted_c := ic\<rparr>) in
     Inr (s2\<lparr>sc_mem := m4, sc_clk := sc_clk s2 + 1\<rparr>, as @ bs @ ws, cs)))))"

section \<open>Traces\<close>

definition write_types :: "string list" where
  "write_types = [''WRITE'', ''write'', ''P_MEM_WR'', ''BOFF'']"

text \<open>A field of \<open>trans_\<close> that was never written is \<open>None\<close>.\<close>

record 'm trace_cpu =
  tc_mem :: 'm
  tc_clk :: u64
  trace_file :: istream
  tr_addr :: "u64 option"
  tr_cycle :: "u64 option"
  tr_write :: bool
  tc_get_next :: bool

definition read_trans :: "'m trace_cpu \<Rightarrow> 'm trace_cpu" where
  "read_trans s =
     (let (a, i1) = extract_u64 16 (tr_addr s) (trace_file s); (mem_op, i2) = extract_string i1;
          (cyc, i3) = extract_u64 10 (tr_cycle s) i2 in
      s\<lparr>trace_file := i3, tr_addr := a, tr_cycle := cyc, tr_write := (mem_op \<in> set write_types)\<rparr>)"

definition TraceBasedCPU_new :: "'m \<Rightarrow> string option \<Rightarrow> 'm trace_cpu result" where
  "TraceBasedCPU_new m file =
     (case file of
        None \<Rightarrow> Inl Abrupt_Exit
      | Some txt \<Rightarrow> Inr \<lparr>tc_mem = m, tc_clk = 0, trace_file = stream_of txt,
          tr_addr = None, tr_cycle = None, tr_write = False, tc_get_next = True\<rparr>)"

text \<open>Once its cycle has come, the transaction is offered.\<close>

definition try_trans :: "'m mem_ops \<Rightarrow> 'm trace_cpu \<Rightarrow> ('m trace_cpu \<times> di_trans list) result" where
  "try_trans ops s =
     bindE (known (tr_cycle s)) (\<lambda>cyc.
     if cyc \<le> tc_clk s then
       bindE (known (tr_addr s)) (\<lambda>a.
       bindE (offer ops (tc_mem s) a (tr_write s)) (\<lambda>(ok, m).
       Inr (s\<lparr>tc_mem := m, tc_get_next := ok\<rparr>, if ok then [(a, tr_write s)] else [])))
     else Inr (s, []))"

definition TraceBasedCPU_ClockTick :: "'m mem_ops \<Rightarrow> 'm trace_cpu \<Rightarrow> ('m trace_cpu \<times> di_trans list \<times> di_trans list) result" where
  "TraceBasedCPU_ClockTick ops s =
     bindE (clock_tick ops (tc_mem s)) (\<lambda>(m1, cs).
     let s1 = s\<lparr>tc_mem := m1\<rparr> in
     bindE (if is_eof (trace_file s1) then Inr (s1, [])
            else try_trans ops (if tc_get_next s1 then read_trans (s1\<lparr>tc_get_next := False\<rparr>) else s1)) (\<lambda>(s3, sent).
     Inr (s3\<lparr>tc_clk := tc_clk s3 + 1\<rparr>, sent, cs)))"

text \<open>\<open>for (clk = 0; clk < cycles; clk++) cpu->ClockTick();\<close> with everything sent and everything answered.\<close>

primrec run_cpu :: "('s \<Rightarrow> ('s \<times> di_trans list \<times> di_trans list) result) \<Rightarrow> nat \<Rightarrow> 's \<Rightarrow> ('s \<times> di_trans list \<times> di_trans list) result" where
  "run_cpu tick 0 s = Inr (s, [], [])"
| "run_cpu tick (Suc n) s =
     bindE (run_cpu tick n s) (\<lambda>(s1, sent, cs). bindE (tick s1) (\<lambda>(s2, sent2, cs2). Inr (s2, sent @ sent2, cs @ cs2)))"

text \<open>\<open>main\<close> after its arguments are known: a trace file decides for the trace, otherwise the stream type.  The result is
  everything that was sent and everything that was called back.\<close>

definition stand_alone ::
  "'m mem_ops \<Rightarrow> (nat \<Rightarrow> u64) \<Rightarrow> (string \<Rightarrow> string option) \<Rightarrow> 'm \<Rightarrow> u64 \<Rightarrow> string \<Rightarrow> string \<Rightarrow> (di_trans list \<times> di_trans list) result" where
  "stand_alone ops gen files m cycles trace stream_type =
     (if trace \<noteq> [] then
        bindE (TraceBasedCPU_new m (files trace)) (\<lambda>cpu.
        bindE (run_cpu (TraceBasedCPU_ClockTick ops) (unat cycles) cpu) (\<lambda>r. Inr (snd r)))
      else if stream_type = ''stream'' \<or> stream_type = ''s'' then
        bindE (run_cpu (StreamCPU_ClockTick ops gen) (unat cycles) (StreamCPU_new m)) (\<lambda>r. Inr (snd r))
      else bindE (run_cpu (RandomCPU_ClockTick ops gen) (unat cycles) (RandomCPU_new m)) (\<lambda>r. Inr (snd r)))"

section \<open>What the processors send\<close>

definition rand_req :: "(nat \<Rightarrow> u64) \<Rightarrow> nat \<Rightarrow> di_trans" where
  "rand_req gen k = (gen (2 * k), gen (2 * k + 1) mod 3 = 0)"

text \<open>\<open>k\<close> requests are sent; if the last one drawn was refused, it is request \<open>k\<close>.\<close>

definition rc_ok :: "(nat \<Rightarrow> u64) \<Rightarrow> nat \<Rightarrow> 'm random_cpu \<Rightarrow> bool" where
  "rc_ok gen k s \<longleftrightarrow> (if rc_get_next s then rc_gen s = 2 * k
     else rc_gen s = 2 * Suc k \<and> (last_addr s, last_write s) = rand_req gen k)"

text \<open>The elements of one array, and the three transactions of element \<open>j\<close> of the whole stream.\<close>

definition per_array :: nat where
  "per_array = 32768"

definition stream_elem :: "(nat \<Rightarrow> u64) \<Rightarrow> nat \<Rightarrow> di_trans list" where
  "stream_elem gen j = (let g = 3 * (j div per_array); off = of_nat (64 * (j mod per_array)) in
     [(gen g + off, False), (gen (g + 1) + off, False), (gen (g + 2) + off, True)])"

definition stream_part :: "(nat \<Rightarrow> u64) \<Rightarrow> nat \<Rightarrow> bool \<Rightarrow> bool \<Rightarrow> bool \<Rightarrow> di_trans list" where
  "stream_part gen k a b c = (let e = stream_elem gen k in
     (if a then [e ! 0] else []) @ (if b then [e ! 1] else []) @ (if c then [e ! 2] else []))"

text \<open>The arrays of element \<open>k\<close> are in place.\<close>

definition sc_loaded :: "(nat \<Rightarrow> u64) \<Rightarrow> nat \<Rightarrow> 'm stream_cpu \<Rightarrow> bool" where
  "sc_loaded gen k s \<longleftrightarrow> (let g = 3 * (k div per_array) in
     sc_gen s = g + 3 \<and> addr_a s = gen g \<and> addr_b s = gen (g + 1) \<and> addr_c s = gen (g + 2)
     \<and> offset s = of_nat (64 * (k mod per_array)))"

definition sc_ok :: "(nat \<Rightarrow> u64) \<Rightarrow> nat \<Rightarrow> nat \<Rightarrow> 'm stream_cpu \<Rightarrow> bool" where
  "sc_ok gen n k s \<longleftrightarrow> sc_clk s = of_nat n \<and>
     (if offset s \<ge> array_size \<or> n = 0
      then k mod per_array = 0 \<and> sc_gen s = 3 * (k div per_array) \<and> \<not> inserted_a s \<and> \<not> inserted_b s \<and> \<not> inserted_c s
      else sc_loaded gen k s)"

lemma stream_elem_nth:
  "stream_elem gen k ! 0 = (gen (3 * (k div per_array)) + of_nat (64 * (k mod per_array)), False)"
  "stream_elem gen k ! 1 = (gen (3 * (k div per_array) + 1) + of_nat (64 * (k mod per_array)), False)"
  "stream_elem gen k ! 2 = (gen (3 * (k div per_array) + 2) + of_nat (64 * (k mod per_array)), True)"
  by (simp_all add: stream_elem_def Let_def numeral_2_eq_2)

lemma stream_part_all: "stream_part gen k True True True = stream_elem gen k"
  by (simp add: stream_part_def stream_elem_def Let_def numeral_2_eq_2)

lemma below_array: "r < per_array \<Longrightarrow> \<not> (of_nat (64 * r) :: u64) \<ge> array_size"
  by (simp add: word_le_nat_alt array_size_def u64_of_int_def per_array_def unsigned_of_nat take_bit_nat_eq_self del: of_nat_mult of_nat_numeral)

lemma of_nat_u64_zero: "n < 2 ^ 64 \<Longrightarrow> (of_nat n :: u64) = 0 \<longleftrightarrow> n = 0"
  by (auto dest!: arg_cong [of _ _ unat] simp: unsigned_of_nat take_bit_nat_eq_self)

lemma sc_next:
  assumes "sc_loaded gen k s" and "sc_clk s = of_nat n" and "Suc n < 2 ^ 64"
  shows "sc_ok gen (Suc n) (Suc k) (s\<lparr>offset := offset s + stride, inserted_a := False, inserted_b := False, inserted_c := False,
    sc_mem := m, sc_clk := sc_clk s + 1\<rparr>)"
proof (cases "Suc (k mod per_array) = per_array")
  case True
  then have k: "Suc k mod per_array = 0" "Suc k div per_array = Suc (k div per_array)" by (simp_all add: mod_Suc div_Suc)
  have "offset s + stride = of_nat (64 * Suc (k mod per_array))" using assms(1) by (simp add: sc_loaded_def Let_def stride_def u64_of_int_def)
  also have "\<dots> = array_size" unfolding True by (simp add: per_array_def array_size_def u64_of_int_def)
  finally show ?thesis using assms k by (simp add: sc_ok_def sc_loaded_def Let_def)
next
  case False
  then have k: "Suc k mod per_array = Suc (k mod per_array)" "Suc k div per_array = k div per_array" by (simp_all add: mod_Suc div_Suc)
  have off: "offset s + stride = of_nat (64 * Suc (k mod per_array))" using assms(1) by (simp add: sc_loaded_def Let_def stride_def u64_of_int_def)
  have "Suc (k mod per_array) < per_array" using False mod_less_divisor [of per_array k] by (simp add: per_array_def)
  from below_array [OF this] have "\<not> offset s + stride \<ge> array_size" unfolding off .
  moreover have "(of_nat n :: u64) + 1 = of_nat (Suc n)" by simp
  ultimately show ?thesis using assms k off by (simp add: sc_ok_def sc_loaded_def Let_def del: of_nat_mult of_nat_Suc of_nat_add mult_Suc_right)
qed

context memory_system
begin

lemma offer_spec:
  assumes "minv m"
  shows "\<exists>ok m'. offer ops m a w = Inr (ok, m') \<and> minv m' \<and> owed m' = (if ok then add_mset (a, w) (owed m) else owed m)"
proof -
  obtain b where b: "will_accept ops m a w = Inr b" using will_accept_total [OF assms] by blast
  show ?thesis
  proof (cases b)
    case True
    with b add_accepted [OF assms, of a w] obtain m' where "add_trans ops m a w = Inr m'" "minv m'" "owed m' = add_mset (a, w) (owed m)" by auto
    then show ?thesis using b True by (intro exI [of _ True] exI [of _ m']) (simp add: offer_def)
  next
    case False
    then show ?thesis using b assms by (intro exI [of _ False] exI [of _ m]) (simp add: offer_def)
  qed
qed

lemma random_tick:
  assumes "minv (rc_mem s)" and "rc_ok gen k s"
  shows "\<exists>s' ok cs. RandomCPU_ClockTick ops gen s = Inr (s', if ok then [rand_req gen k] else [], cs) \<and> minv (rc_mem s')
    \<and> rc_ok gen (if ok then Suc k else k) s'
    \<and> owed (rc_mem s) + mset (if ok then [rand_req gen k] else []) = owed (rc_mem s') + mset cs"
proof -
  obtain m1 cs where m1: "clock_tick ops (rc_mem s) = Inr (m1, cs)" "minv m1" "owed (rc_mem s) = owed m1 + mset cs"
    using tick_returns [OF assms(1)] by blast
  obtain ok m2 where m2: "offer ops m1 (fst (rand_req gen k)) (snd (rand_req gen k)) = Inr (ok, m2)" "minv m2"
    "owed m2 = (if ok then add_mset (rand_req gen k) (owed m1) else owed m1)" using offer_spec [OF m1(2), of "fst (rand_req gen k)" "snd (rand_req gen k)"] by auto
  show ?thesis
    using assms(2) m1 m2 by (cases "rc_get_next s") (auto simp: RandomCPU_ClockTick_def rc_ok_def rand_req_def Let_def)
qed

lemma random_run:
  assumes "minv m"
  shows "\<exists>s k cs. run_cpu (RandomCPU_ClockTick ops gen) n (RandomCPU_new m) = Inr (s, map (rand_req gen) [0 ..< k], cs) \<and> k \<le> n
    \<and> minv (rc_mem s) \<and> rc_ok gen k s \<and> owed m + mset (map (rand_req gen) [0 ..< k]) = owed (rc_mem s) + mset cs"
proof (induction n)
  case 0
  then show ?case using assms by (intro exI [of _ "RandomCPU_new m"] exI [of _ 0]) (simp add: RandomCPU_new_def rc_ok_def)
next
  case (Suc n)
  then obtain s k cs where s: "run_cpu (RandomCPU_ClockTick ops gen) n (RandomCPU_new m) = Inr (s, map (rand_req gen) [0 ..< k], cs)"
    "k \<le> n" "minv (rc_mem s)" "rc_ok gen k s" "owed m + mset (map (rand_req gen) [0 ..< k]) = owed (rc_mem s) + mset cs" by blast
  from random_tick [OF s(3,4)] obtain s' ok ds where
    t: "RandomCPU_ClockTick ops gen s = Inr (s', if ok then [rand_req gen k] else [], ds)" "minv (rc_mem s')"
    "rc_ok gen (if ok then Suc k else k) s'" "owed (rc_mem s) + mset (if ok then [rand_req gen k] else []) = owed (rc_mem s') + mset ds" by blast
  let ?k = "if ok then Suc k else k"
  have l: "map (rand_req gen) [0 ..< ?k] = map (rand_req gen) [0 ..< k] @ (if ok then [rand_req gen k] else [])" by simp
  have "owed m + mset (map (rand_req gen) [0 ..< ?k]) = owed (rc_mem s') + mset (cs @ ds)"
    unfolding l using s(5) t(4) by (metis (no_types, lifting) add.assoc add.commute mset_append)
  moreover have "run_cpu (RandomCPU_ClockTick ops gen) (Suc n) (RandomCPU_new m) = Inr (s', map (rand_req gen) [0 ..< ?k], cs @ ds)"
    unfolding l using s(1) t(1) by simp
  ultimately show ?case using s(2) t(2,3) by (intro exI [of _ s'] exI [of _ ?k] exI [of _ "cs @ ds"]) simp
qed

lemma insert_once_spec:
  assumes "minv m"
  shows "\<exists>ok m' xs. insert_once ops b a w m = Inr (ok, m', xs) \<and> minv m' \<and> owed m' = owed m + mset xs
    \<and> mset (if ok then [(a, w)] else []) = mset (if b then [(a, w)] else []) + mset xs"
proof (cases b)
  case False
  obtain ok m' where "offer ops m a w = Inr (ok, m')" "minv m'" "owed m' = (if ok then add_mset (a, w) (owed m) else owed m)"
    using offer_spec [OF assms] by blast
  then show ?thesis using False by (intro exI [of _ ok] exI [of _ m'] exI [of _ "if ok then [(a, w)] else []"]) (simp add: insert_once_def)
next
  case True
  then show ?thesis using assms by (intro exI [of _ True] exI [of _ m] exI [of _ "[]"]) (simp add: insert_once_def)
qed

lemma stream_tick:
  assumes "minv (sc_mem s)" and ok: "sc_ok gen n k s" and n: "Suc n < 2 ^ 64"
  shows "\<exists>s' sent cs k'. StreamCPU_ClockTick ops gen s = Inr (s', sent, cs) \<and> minv (sc_mem s') \<and> sc_ok gen (Suc n) k' s'
    \<and> owed (sc_mem s) + mset sent = owed (sc_mem s') + mset cs
    \<and> (k' = k \<and> mset (stream_part gen k (inserted_a s') (inserted_b s') (inserted_c s'))
            = mset (stream_part gen k (inserted_a s) (inserted_b s) (inserted_c s)) + mset sent
       \<or> k' = Suc k \<and> \<not> inserted_a s' \<and> \<not> inserted_b s' \<and> \<not> inserted_c s'
          \<and> mset (stream_elem gen k) = mset (stream_part gen k (inserted_a s) (inserted_b s) (inserted_c s)) + mset sent)"
proof -
  obtain m1 cs where m1: "clock_tick ops (sc_mem s) = Inr (m1, cs)" "minv m1" "owed (sc_mem s) = owed m1 + mset cs"
    using tick_returns [OF assms(1)] by blast
  define s1 where "s1 = (if offset s \<ge> array_size \<or> sc_clk s = 0
     then s\<lparr>addr_a := gen (sc_gen s), addr_b := gen (sc_gen s + 1), addr_c := gen (sc_gen s + 2), sc_gen := sc_gen s + 3, offset := 0\<rparr> else s)"
  have "sc_clk s = 0 \<longleftrightarrow> n = 0" using ok n of_nat_u64_zero [of n] by (simp add: sc_ok_def)
  then have l: "sc_loaded gen k s1" "sc_clk s1 = of_nat n" and same: "inserted_a s1 = inserted_a s" "inserted_b s1 = inserted_b s" "inserted_c s1 = inserted_c s"
    using ok by (auto simp: s1_def sc_ok_def sc_loaded_def Let_def)
  let ?e = "stream_elem gen k"
  have e: "?e ! 0 = (addr_a s1 + offset s1, False)" "?e ! 1 = (addr_b s1 + offset s1, False)" "?e ! 2 = (addr_c s1 + offset s1, True)"
    using l(1) by (simp_all add: stream_elem_nth sc_loaded_def Let_def del: One_nat_def)
  obtain ia m2 as where a: "insert_once ops (inserted_a s1) (addr_a s1 + offset s1) False m1 = Inr (ia, m2, as)" "minv m2" "owed m2 = owed m1 + mset as"
    "mset (if ia then [?e ! 0] else []) = mset (if inserted_a s then [?e ! 0] else []) + mset as" 
    using insert_once_spec [OF m1(2), of "inserted_a s1" "addr_a s1 + offset s1" False] unfolding e same by blast
  obtain ib m3 bs where b: "insert_once ops (inserted_b s1) (addr_b s1 + offset s1) False m2 = Inr (ib, m3, bs)" "minv m3" "owed m3 = owed m2 + mset bs"
    "mset (if ib then [?e ! 1] else []) = mset (if inserted_b s then [?e ! 1] else []) + mset bs" 
    using insert_once_spec [OF a(2), of "inserted_b s1" "addr_b s1 + offset s1" False] unfolding e same by blast
  obtain ic m4 ws where c: "insert_once ops (inserted_c s1) (addr_c s1 + offset s1) True m3 = Inr (ic, m4, ws)" "minv m4" "owed m4 = owed m3 + mset ws"
    "mset (if ic then [?e ! 2] else []) = mset (if inserted_c s then [?e ! 2] else []) + mset ws" 
    using insert_once_spec [OF b(2), of "inserted_c s1" "addr_c s1 + offset s1" True] unfolding e same by blast
  have sent: "mset (stream_part gen k ia ib ic) = mset (stream_part gen k (inserted_a s) (inserted_b s) (inserted_c s)) + mset (as @ bs @ ws)"
    unfolding stream_part_def Let_def mset_append a(4) b(4) c(4) by (simp only: ac_simps)
  have ow: "owed (sc_mem s) + mset (as @ bs @ ws) = owed m4 + mset cs" by (simp add: m1(3) a(3) b(3) c(3) ac_simps)
  let ?s2 = "if ia \<and> ib \<and> ic then s1\<lparr>offset := offset s1 + stride, inserted_a := False, inserted_b := False, inserted_c := False\<rparr>
     else s1\<lparr>inserted_a := ia, inserted_b := ib, inserted_c := ic\<rparr>"
  have t: "StreamCPU_ClockTick ops gen s = Inr (?s2\<lparr>sc_mem := m4, sc_clk := sc_clk ?s2 + 1\<rparr>, as @ bs @ ws, cs)"
    using m1(1) a(1) b(1) c(1) by (simp add: StreamCPU_ClockTick_def s1_def [symmetric] Let_def)
  show ?thesis
  proof (cases "ia \<and> ib \<and> ic")
    case True
    then have "sc_ok gen (Suc n) (Suc k) (?s2\<lparr>sc_mem := m4, sc_clk := sc_clk ?s2 + 1\<rparr>)" using sc_next [OF l n, of m4] by simp
    moreover have "mset ?e = mset (stream_part gen k (inserted_a s) (inserted_b s) (inserted_c s)) + mset (as @ bs @ ws)"
      using sent True by (simp add: stream_part_all)
    ultimately show ?thesis using t ow c(2) True
      by (intro exI [of _ "?s2\<lparr>sc_mem := m4, sc_clk := sc_clk ?s2 + 1\<rparr>"] exI [of _ "as @ bs @ ws"] exI [of _ cs] exI [of _ "Suc k"]) simp
  next
    case False
    have "\<not> offset s1 \<ge> array_size" using l(1) below_array [of "k mod per_array"] by (simp add: sc_loaded_def Let_def per_array_def)
    then have "sc_ok gen (Suc n) k (?s2\<lparr>sc_mem := m4, sc_clk := sc_clk ?s2 + 1\<rparr>)"
      using l False by (auto simp: sc_ok_def sc_loaded_def Let_def)
    then show ?thesis using t ow c(2) sent False
      by (intro exI [of _ "?s2\<lparr>sc_mem := m4, sc_clk := sc_clk ?s2 + 1\<rparr>"] exI [of _ "as @ bs @ ws"] exI [of _ cs] exI [of _ k]) auto
  qed
qed

lemma stream_run:
  assumes "minv m" and "n < 2 ^ 64"
  shows "\<exists>s sent cs k. run_cpu (StreamCPU_ClockTick ops gen) n (StreamCPU_new m) = Inr (s, sent, cs) \<and> minv (sc_mem s) \<and> sc_ok gen n k s
    \<and> owed m + mset sent = owed (sc_mem s) + mset cs
    \<and> mset sent = mset (concat (map (stream_elem gen) [0 ..< k]) @ stream_part gen k (inserted_a s) (inserted_b s) (inserted_c s))"
  using assms(2)
proof (induction n)
  case 0
  then show ?case using assms(1)
    by (intro exI [of _ "StreamCPU_new m"] exI [of _ "[]"] exI [of _ 0]) (simp add: StreamCPU_new_def sc_ok_def stream_part_def)
next
  case (Suc n)
  then obtain s sent cs k where s: "run_cpu (StreamCPU_ClockTick ops gen) n (StreamCPU_new m) = Inr (s, sent, cs)" "minv (sc_mem s)"
    "sc_ok gen n k s" "owed m + mset sent = owed (sc_mem s) + mset cs"
    "mset sent = mset (concat (map (stream_elem gen) [0 ..< k]) @ stream_part gen k (inserted_a s) (inserted_b s) (inserted_c s))" by auto
  from stream_tick [OF s(2,3) Suc.prems] obtain s' sent2 cs2 k' where
    t: "StreamCPU_ClockTick ops gen s = Inr (s', sent2, cs2)" "minv (sc_mem s')" "sc_ok gen (Suc n) k' s'"
    "owed (sc_mem s) + mset sent2 = owed (sc_mem s') + mset cs2"
    "k' = k \<and> mset (stream_part gen k (inserted_a s') (inserted_b s') (inserted_c s'))
            = mset (stream_part gen k (inserted_a s) (inserted_b s) (inserted_c s)) + mset sent2
       \<or> k' = Suc k \<and> \<not> inserted_a s' \<and> \<not> inserted_b s' \<and> \<not> inserted_c s'
          \<and> mset (stream_elem gen k) = mset (stream_part gen k (inserted_a s) (inserted_b s) (inserted_c s)) + mset sent2" by blast
  have "run_cpu (StreamCPU_ClockTick ops gen) (Suc n) (StreamCPU_new m) = Inr (s', sent @ sent2, cs @ cs2)" using s(1) t(1) by simp
  moreover have "owed m + mset (sent @ sent2) = owed (sc_mem s') + mset (cs @ cs2)"
    using s(4) t(4) by (metis (no_types, lifting) add.assoc add.commute mset_append)
  moreover have "mset (sent @ sent2) = mset (concat (map (stream_elem gen) [0 ..< k']) @ stream_part gen k' (inserted_a s') (inserted_b s') (inserted_c s'))"
    using t(5) s(5) by (elim disjE) (simp_all add: stream_part_def ac_simps)
  ultimately show ?case using t(2,3) by blast
qed

end

section \<open>Reading a trace\<close>

text \<open>A line of a trace file: address, operation, cycle.\<close>

type_synonym trace_entry = "u64 \<times> bool \<times> u64"

definition trace_line :: "trace_entry \<Rightarrow> string" where
  "trace_line t = (case t of (a, w, cyc) \<Rightarrow>
     ''0x'' @ hex_string (unat a) @ '' '' @ (if w then ''WRITE'' else ''READ'') @ '' '' @ dec_string (unat cyc) @ [CHR 0x0A])"

definition trace_text :: "trace_entry list \<Rightarrow> string" where
  "trace_text ts = concat (map trace_line ts)"

text \<open>A line is read back as the transaction it was printed from, and the stream stays good.\<close>

lemma read_printed_line:
  assumes "\<not> is_eof (trace_file s)" "\<not> is_fail (trace_file s)" "is_rest (trace_file s) = ws @ trace_line (a, w, cyc) @ r"
    "\<forall>ch \<in> set ws. is_space_char ch"
  shows "read_trans s = s\<lparr>trace_file := \<lparr>is_rest = CHR 0x0A # r, is_eof = False, is_fail = False\<rparr>, tr_addr := Some a, tr_cycle := Some cyc,
    tr_write := w\<rparr>"
proof -
  let ?op = "if w then ''WRITE'' else ''READ''" and ?i = "trace_file s"
  let ?r1 = "?op @ CHR '' '' # dec_string (unat cyc) @ CHR 0x0A # r"
  have 1: "extract_u64 16 (tr_addr s) ?i = (Some a, ?i\<lparr>is_rest := CHR '' '' # ?r1, is_eof := False\<rparr>)"
    using assms by (intro extract_hex [where ws = ws]) (simp_all add: trace_line_def)
  let ?i1 = "?i\<lparr>is_rest := CHR '' '' # ?r1, is_eof := False\<rparr>"
  have 2: "extract_string ?i1 = (?op, ?i1\<lparr>is_rest := CHR '' '' # dec_string (unat cyc) @ CHR 0x0A # r\<rparr>)"
    using assms(2) by (simp add: extract_string_def sentry_def is_space_char_def)
  have 3: "extract_u64 10 (tr_cycle s) (?i1\<lparr>is_rest := CHR '' '' # dec_string (unat cyc) @ CHR 0x0A # r\<rparr>)
      = (Some cyc, ?i1\<lparr>is_rest := CHR 0x0A # r, is_eof := False\<rparr>)"
    using assms(2) by (subst extract_dec [where a = cyc and r = r]) simp_all
  show ?thesis using 1 2 3 assms(2) by (simp add: read_trans_def write_types_def)
qed

text \<open>At the end of the file nothing is read: address and cycle keep the values of the last transaction, and
  the empty operation makes it a read.\<close>

lemma read_at_end:
  assumes "\<not> is_eof (trace_file s)" "\<not> is_fail (trace_file s)" "\<forall>ch \<in> set (is_rest (trace_file s)). is_space_char ch"
  shows "read_trans s = s\<lparr>trace_file := \<lparr>is_rest = [], is_eof = True, is_fail = True\<rparr>, tr_write := False\<rparr>"
proof -
  have "dropWhile is_space_char (is_rest (trace_file s)) = []" using assms(3) by (simp add: dropWhile_eq_Nil_conv)
  then show ?thesis using assms by (simp add: read_trans_def extract_u64_def extract_string_def sentry_def write_types_def)
qed

section \<open>Running a trace\<close>

definition entry_req :: "trace_entry \<Rightarrow> di_trans" where
  "entry_req t = (fst t, fst (snd t))"

definition holds_entry :: "trace_entry \<Rightarrow> 'm trace_cpu \<Rightarrow> bool" where
  "holds_entry t s \<longleftrightarrow> tr_addr s = Some (fst t) \<and> tr_cycle s = Some (snd (snd t))"

text \<open>What is left of the file is white space and the lines \<open>ts\<close>.\<close>

definition reads_on :: "trace_entry list \<Rightarrow> 'm trace_cpu \<Rightarrow> bool" where
  "reads_on ts s \<longleftrightarrow> \<not> is_eof (trace_file s) \<and> \<not> is_fail (trace_file s)
     \<and> (\<exists>ws. (\<forall>ch \<in> set ws. is_space_char ch) \<and> is_rest (trace_file s) = ws @ trace_text ts)"

text \<open>\<open>k\<close> transactions of the trace are sent and the next has not been read, or it is waiting.\<close>

definition tc_ok :: "trace_entry list \<Rightarrow> nat \<Rightarrow> 'm trace_cpu \<Rightarrow> bool" where
  "tc_ok ts k s \<longleftrightarrow> k \<le> length ts \<and>
     (if tc_get_next s then reads_on (drop k ts) s \<and> (0 < k \<longrightarrow> holds_entry (ts ! (k - 1)) s)
      else k < length ts \<and> reads_on (drop (Suc k) ts) s \<and> holds_entry (ts ! k) s \<and> tr_write s = fst (snd (ts ! k)))"

lemma next_line_read:
  assumes "reads_on (t # ts) s"
  shows "reads_on ts (read_trans s) \<and> holds_entry t (read_trans s) \<and> tr_write (read_trans s) = fst (snd t)
    \<and> tc_mem (read_trans s) = tc_mem s \<and> tc_clk (read_trans s) = tc_clk s \<and> tc_get_next (read_trans s) = tc_get_next s"
proof -
  obtain a w cyc where t: "t = (a, w, cyc)" by (cases t)
  obtain ws where ws: "\<forall>ch \<in> set ws. is_space_char ch" "is_rest (trace_file s) = ws @ trace_text (t # ts)" using assms by (auto simp: reads_on_def)
  have "read_trans s = s\<lparr>trace_file := \<lparr>is_rest = CHR 0x0A # trace_text ts, is_eof = False, is_fail = False\<rparr>, tr_addr := Some a,
    tr_cycle := Some cyc, tr_write := w\<rparr>"
    using ws assms by (intro read_printed_line [where ws = ws]) (simp_all add: t trace_text_def reads_on_def)
  moreover have "\<forall>ch \<in> set [CHR 0x0A]. is_space_char ch" using separators(4) by simp
  ultimately show ?thesis using exI [of "\<lambda>ws. (\<forall>ch \<in> set ws. is_space_char ch) \<and> CHR 0x0A # trace_text ts = ws @ trace_text ts" "[CHR 0x0A]"]
    by (simp add: reads_on_def holds_entry_def t)
qed

context memory_system
begin

lemma try_trans_spec:
  assumes "minv (tc_mem s)" and "holds_entry t s" and "\<not> tc_get_next s"
  shows "\<exists>ok m'. try_trans ops s = Inr (s\<lparr>tc_mem := m', tc_get_next := ok\<rparr>, if ok then [(fst t, tr_write s)] else []) \<and> minv m'
    \<and> owed m' = owed (tc_mem s) + mset (if ok then [(fst t, tr_write s)] else []) \<and> (ok \<longrightarrow> snd (snd t) \<le> tc_clk s)"
proof (cases "snd (snd t) \<le> tc_clk s")
  case True
  obtain ok m' where "offer ops (tc_mem s) (fst t) (tr_write s) = Inr (ok, m')" "minv m'"
    "owed m' = (if ok then add_mset (fst t, tr_write s) (owed (tc_mem s)) else owed (tc_mem s))" using offer_spec [OF assms(1)] by blast
  then show ?thesis using True assms by (intro exI [of _ ok] exI [of _ m']) (simp add: try_trans_def holds_entry_def known_def)
next
  case False
  then show ?thesis using assms by (intro exI [of _ False] exI [of _ "tc_mem s"]) (simp add: try_trans_def holds_entry_def known_def)
qed

text \<open>A tick sends nothing, or the next transaction of the trace, or, when the trace is used up, the address of
  its last transaction once more.\<close>

lemma trace_tick:
  assumes "minv (tc_mem s)" and ok: "tc_ok ts k s" and ne: "ts \<noteq> []"
  shows "\<exists>s' sent cs. TraceBasedCPU_ClockTick ops s = Inr (s', sent, cs) \<and> minv (tc_mem s')
    \<and> owed (tc_mem s) + mset sent = owed (tc_mem s') + mset cs
    \<and> (sent = [] \<and> tc_ok ts k s' \<or> k < length ts \<and> sent = [entry_req (ts ! k)] \<and> tc_ok ts (Suc k) s'
       \<or> k = length ts \<and> is_eof (trace_file s') \<and> (sent = [] \<or> sent = [(fst (last ts), False)]))"
proof -
  obtain m1 cs where m1: "clock_tick ops (tc_mem s) = Inr (m1, cs)" "minv m1" "owed (tc_mem s) = owed m1 + mset cs"
    using tick_returns [OF assms(1)] by blast
  define s2 where "s2 = (if tc_get_next s then read_trans (s\<lparr>tc_mem := m1, tc_get_next := False\<rparr>) else s\<lparr>tc_mem := m1\<rparr>)"
  have eof: "\<not> is_eof (trace_file s)" using ok by (auto simp: tc_ok_def reads_on_def split: if_splits)
  show ?thesis
  proof (cases "k < length ts")
    case True
    have ts: "drop k ts = ts ! k # drop (Suc k) ts" using True by (simp add: Cons_nth_drop_Suc)
    have s2: "reads_on (drop (Suc k) ts) s2" "holds_entry (ts ! k) s2" "tr_write s2 = fst (snd (ts ! k))" "tc_mem s2 = m1" "\<not> tc_get_next s2"
      using ok next_line_read [of "ts ! k" "drop (Suc k) ts" "s\<lparr>tc_mem := m1, tc_get_next := False\<rparr>"]
      by (auto simp: s2_def tc_ok_def ts reads_on_def holds_entry_def split: if_splits)
    have e: "(fst (ts ! k), tr_write s2) = entry_req (ts ! k)" using s2(3) by (simp add: entry_req_def)
    have "minv (tc_mem s2)" using s2(4) m1(2) by simp
    from try_trans_spec [OF this s2(2,5), unfolded e s2(4)] obtain b m2 where t: "try_trans ops s2 = Inr (s2\<lparr>tc_mem := m2, tc_get_next := b\<rparr>, if b then [entry_req (ts ! k)] else [])"
      "minv m2" "owed m2 = owed m1 + mset (if b then [entry_req (ts ! k)] else [])" by blast
    let ?s = "s2\<lparr>tc_mem := m2, tc_get_next := b, tc_clk := tc_clk s2 + 1\<rparr>"
    have "TraceBasedCPU_ClockTick ops s = Inr (?s, if b then [entry_req (ts ! k)] else [], cs)"
      using m1(1) eof t(1) by (simp add: TraceBasedCPU_ClockTick_def s2_def Let_def)
    moreover have "tc_ok ts (if b then Suc k else k) ?s" using s2 True by (auto simp: tc_ok_def reads_on_def holds_entry_def)
    ultimately show ?thesis using t(2,3) m1(3) True
      by (intro exI [of _ ?s] exI [of _ "if b then [entry_req (ts ! k)] else []"] exI [of _ cs]) (cases b; simp)
  next
    case False
    then have k: "k = length ts" "tc_get_next s" "reads_on [] s" "holds_entry (last ts) s"
      using ok ne by (auto simp: tc_ok_def last_conv_nth split: if_splits)
    let ?e = "s\<lparr>tc_mem := m1, tc_get_next := False\<rparr>"
    have "read_trans ?e = ?e\<lparr>trace_file := \<lparr>is_rest = [], is_eof = True, is_fail = True\<rparr>, tr_write := False\<rparr>"
      using k(3) by (intro read_at_end) (auto simp: reads_on_def trace_text_def)
    then have s2: "s2 = ?e\<lparr>trace_file := \<lparr>is_rest = [], is_eof = True, is_fail = True\<rparr>, tr_write := False\<rparr>" using k(2) by (simp add: s2_def)
    then have h: "holds_entry (last ts) s2" "\<not> tc_get_next s2" "minv (tc_mem s2)" and e: "tc_mem s2 = m1" "tr_write s2 = False"
      using k(4) m1(2) by (simp_all add: holds_entry_def)
    from try_trans_spec [OF h(3,1,2), unfolded e] obtain b m2 where t: "try_trans ops s2 = Inr (s2\<lparr>tc_mem := m2, tc_get_next := b\<rparr>, if b then [(fst (last ts), False)] else [])"
      "minv m2" "owed m2 = owed m1 + mset (if b then [(fst (last ts), False)] else [])" by blast
    let ?s = "s2\<lparr>tc_mem := m2, tc_get_next := b, tc_clk := tc_clk s2 + 1\<rparr>"
    have "TraceBasedCPU_ClockTick ops s = Inr (?s, if b then [(fst (last ts), False)] else [], cs)"
      using m1(1) eof t(1) by (simp add: TraceBasedCPU_ClockTick_def s2_def Let_def)
    then show ?thesis using t(2,3) m1(3) k(1) s2
      by (intro exI [of _ ?s] exI [of _ "if b then [(fst (last ts), False)] else []"] exI [of _ cs]) (cases b; simp)
  qed
qed

lemma trace_run:
  assumes "minv m" and ne: "ts \<noteq> []" and new: "TraceBasedCPU_new m (Some (trace_text ts)) = Inr s0"
  shows "\<exists>s sent cs. run_cpu (TraceBasedCPU_ClockTick ops) n s0 = Inr (s, sent, cs) \<and> minv (tc_mem s)
    \<and> owed m + mset sent = owed (tc_mem s) + mset cs
    \<and> ((\<exists>k. tc_ok ts k s \<and> sent = map entry_req (take k ts))
       \<or> is_eof (trace_file s) \<and> (sent = map entry_req ts \<or> sent = map entry_req ts @ [(fst (last ts), False)]))"
proof (induction n)
  case 0
  have "reads_on ts s0" using new exI [of "\<lambda>ws. (\<forall>ch \<in> set ws. is_space_char ch) \<and> trace_text ts = ws @ trace_text ts" "[]"]
    by (auto simp: TraceBasedCPU_new_def stream_of_def reads_on_def)
  then have "tc_ok ts 0 s0" "tc_mem s0 = m" using new by (auto simp: TraceBasedCPU_new_def tc_ok_def)
  then show ?case using assms(1) by (intro exI [of _ s0] exI [of _ "[]"]) auto
next
  case (Suc n)
  then obtain s sent cs where s: "run_cpu (TraceBasedCPU_ClockTick ops) n s0 = Inr (s, sent, cs)" "minv (tc_mem s)"
    "owed m + mset sent = owed (tc_mem s) + mset cs"
    and prog: "(\<exists>k. tc_ok ts k s \<and> sent = map entry_req (take k ts))
       \<or> is_eof (trace_file s) \<and> (sent = map entry_req ts \<or> sent = map entry_req ts @ [(fst (last ts), False)])" by blast
  have goes_on: ?case if t: "TraceBasedCPU_ClockTick ops s = Inr (s', sent2, cs2)" "minv (tc_mem s')"
      "owed (tc_mem s) + mset sent2 = owed (tc_mem s') + mset cs2"
      "(\<exists>k. tc_ok ts k s' \<and> sent @ sent2 = map entry_req (take k ts))
       \<or> is_eof (trace_file s') \<and> (sent @ sent2 = map entry_req ts \<or> sent @ sent2 = map entry_req ts @ [(fst (last ts), False)])" for s' sent2 cs2
  proof -
    have "owed m + mset (sent @ sent2) = owed (tc_mem s') + mset (cs @ cs2)"
      using s(3) t(3) by (metis (no_types, lifting) add.assoc add.commute mset_append)
    then show ?thesis using s(1) t by (intro exI [of _ s'] exI [of _ "sent @ sent2"] exI [of _ "cs @ cs2"]) simp
  qed
  from prog show ?case
  proof
    assume "\<exists>k. tc_ok ts k s \<and> sent = map entry_req (take k ts)"
    then obtain k where k: "tc_ok ts k s" "sent = map entry_req (take k ts)" by blast
    from trace_tick [OF s(2) k(1) ne] obtain s' sent2 cs2 where t: "TraceBasedCPU_ClockTick ops s = Inr (s', sent2, cs2)" "minv (tc_mem s')"
      "owed (tc_mem s) + mset sent2 = owed (tc_mem s') + mset cs2"
      "sent2 = [] \<and> tc_ok ts k s' \<or> k < length ts \<and> sent2 = [entry_req (ts ! k)] \<and> tc_ok ts (Suc k) s'
       \<or> k = length ts \<and> is_eof (trace_file s') \<and> (sent2 = [] \<or> sent2 = [(fst (last ts), False)])" by blast
    from t(4) show ?case by (intro goes_on [OF t(1-3)]) (auto simp: k(2) take_Suc_conv_app_nth)
  next
    assume e: "is_eof (trace_file s) \<and> (sent = map entry_req ts \<or> sent = map entry_req ts @ [(fst (last ts), False)])"
    obtain m1 cs2 where m1: "clock_tick ops (tc_mem s) = Inr (m1, cs2)" "minv m1" "owed (tc_mem s) = owed m1 + mset cs2"
      using tick_returns [OF s(2)] by blast
    then have "TraceBasedCPU_ClockTick ops s = Inr (s\<lparr>tc_mem := m1, tc_clk := tc_clk s + 1\<rparr>, [], cs2)"
      using e by (simp add: TraceBasedCPU_ClockTick_def Let_def)
    then show ?case by (rule goes_on) (use e m1 in simp_all)
  qed
qed

text \<open>Whatever processor the arguments choose, the run ends, and no more is called back than was sent.\<close>

lemma stand_alone_answers:
  assumes "minv m" and "trace \<noteq> [] \<Longrightarrow> \<exists>ts. ts \<noteq> [] \<and> files trace = Some (trace_text ts)"
  shows "\<exists>sent cs. stand_alone ops gen files m cycles trace stream_type = Inr (sent, cs) \<and> mset cs \<subseteq># owed m + mset sent"
proof -
  have n: "unat cycles < 2 ^ 64" using unsigned_less [of cycles, where 'a = nat] by simp
  consider "trace \<noteq> []" | "trace = []" "stream_type = ''stream'' \<or> stream_type = ''s''" | "trace = []" "\<not> (stream_type = ''stream'' \<or> stream_type = ''s'')" by blast
  then show ?thesis
  proof cases
    case 1
    then obtain ts where ts: "ts \<noteq> []" "files trace = Some (trace_text ts)" using assms(2) by blast
    obtain s0 where s0: "TraceBasedCPU_new m (Some (trace_text ts)) = Inr s0" by (simp add: TraceBasedCPU_new_def)
    from trace_run [OF assms(1) ts(1) s0, of "unat cycles"] obtain s sent cs where
      "run_cpu (TraceBasedCPU_ClockTick ops) (unat cycles) s0 = Inr (s, sent, cs)" "owed m + mset sent = owed (tc_mem s) + mset cs" by blast
    then show ?thesis using 1 ts(2) s0 by (simp add: stand_alone_def)
  next
    case 2
    from stream_run [OF assms(1) n, of gen] obtain s sent cs where
      "run_cpu (StreamCPU_ClockTick ops gen) (unat cycles) (StreamCPU_new m) = Inr (s, sent, cs)" "owed m + mset sent = owed (sc_mem s) + mset cs" by blast
    then show ?thesis using 2 by (simp add: stand_alone_def)
  next
    case 3
    from random_run [OF assms(1), of gen "unat cycles"] obtain s sent cs where
      "run_cpu (RandomCPU_ClockTick ops gen) (unat cycles) (RandomCPU_new m) = Inr (s, sent, cs)" "owed m + mset sent = owed (rc_mem s) + mset cs" by blast
    then show ?thesis using 3 by (auto simp: stand_alone_def)
  qed
qed

text \<open>The address of the last transaction goes out again, as a read, whenever the memory takes it.\<close>

lemma trace_replays_last:
  assumes "tc_ok ts (length ts) s" and "ts \<noteq> []" and "clock_tick ops (tc_mem s) = Inr (m1, cs)" and "minv m1"
    and "will_accept ops m1 (fst (last ts)) False = Inr True" and "snd (snd (last ts)) \<le> tc_clk s"
  shows "\<exists>s'. TraceBasedCPU_ClockTick ops s = Inr (s', [(fst (last ts), False)], cs)"
proof -
  have k: "tc_get_next s" "reads_on [] s" "holds_entry (last ts) s" using assms(1,2) by (auto simp: tc_ok_def last_conv_nth split: if_splits)
  let ?e = "s\<lparr>tc_mem := m1, tc_get_next := False\<rparr>"
  have "read_trans ?e = ?e\<lparr>trace_file := \<lparr>is_rest = [], is_eof = True, is_fail = True\<rparr>, tr_write := False\<rparr>"
    using k(2) by (intro read_at_end) (auto simp: reads_on_def trace_text_def)
  moreover obtain m2 where "add_trans ops m1 (fst (last ts)) False = Inr m2" using add_accepted [OF assms(4,5)] by blast
  ultimately show ?thesis using assms k by (simp add: TraceBasedCPU_ClockTick_def Let_def try_trans_def known_def holds_entry_def offer_def reads_on_def)
qed

end

end
