(* ===== verification/Cpu_Properties.thy ===== *)
theory Cpu_Properties
  imports Cpu_Models Dram_Properties
begin

text \<open>
  The properties of the stand-alone simulator: its processors on top of the Jedec memory system.  They
  rest on the lemmas proved once in the locale \<open>memory_system\<close>, through its interpretation \<open>jedec\<close>.
\<close>

section \<open>Random requests\<close>

text \<open>On a configured memory, any number of ticks of \<open>RandomCPU\<close> ends without an error.  The transactions sent
  are the generated ones, in their order and without a gap; a refused one is offered again until it is
  taken.  What was sent is what was called back together with what the memory still owes.\<close>

theorem random_cpu_in_order:
  assumes "memory_cfg c" and "JedecDRAMSystem_new c = Inr m"
  shows "\<exists>s k cs. run_cpu (RandomCPU_ClockTick (jedec_ops c) gen) n (RandomCPU_new m) = Inr (s, map (rand_req gen) [0 ..< k], cs)
    \<and> k \<le> n \<and> mset (map (rand_req gen) [0 ..< k]) = jedec_owed (rc_mem s) + mset cs"
proof -
  have "jedec_ok c m" "jedec_owed m = {#}" using started_ok [OF assms] by simp_all
  with jedec.random_run [of c m gen n] show ?thesis by (simp del: mset_map) blast
qed

theorem random_cpu_in_order_witness:
  "\<exists>s k cs. run_cpu (RandomCPU_ClockTick (jedec_ops demo_dram) (\<lambda>k. of_nat (64 * k))) 5 (RandomCPU_new demo_start)
       = Inr (s, map (rand_req (\<lambda>k. of_nat (64 * k))) [0 ..< k], cs)
    \<and> k \<le> 5 \<and> mset (map (rand_req (\<lambda>k. of_nat (64 * k))) [0 ..< k]) = jedec_owed (rc_mem s) + mset cs"
  by (rule random_cpu_in_order [OF demo_cfg_ok demo_started])

section \<open>Stream-add\<close>

text \<open>\<open>StreamCPU\<close> walks over its arrays one element after the other: after any number of ticks it has sent,
  for some \<open>k\<close>, the two reads and the write of each of the first \<open>k\<close> elements exactly once, and of element \<open>k\<close> the
  ones its flags say.  New arrays are drawn every 32768 elements.\<close>

theorem stream_cpu_elements:
  assumes "memory_cfg c" and "JedecDRAMSystem_new c = Inr m" and "n < 2 ^ 64"
  shows "\<exists>s sent cs k. run_cpu (StreamCPU_ClockTick (jedec_ops c) gen) n (StreamCPU_new m) = Inr (s, sent, cs)
    \<and> mset sent = mset (concat (map (stream_elem gen) [0 ..< k]) @ stream_part gen k (inserted_a s) (inserted_b s) (inserted_c s))
    \<and> mset sent = jedec_owed (sc_mem s) + mset cs"
proof -
  have "jedec_ok c m" "jedec_owed m = {#}" using started_ok [OF assms(1,2)] by simp_all
  with jedec.stream_run [of c m n gen] assms(3) obtain s sent cs k where
    "run_cpu (StreamCPU_ClockTick (jedec_ops c) gen) n (StreamCPU_new m) = Inr (s, sent, cs)" "mset sent = jedec_owed (sc_mem s) + mset cs"
    "mset sent = mset (concat (map (stream_elem gen) [0 ..< k]) @ stream_part gen k (inserted_a s) (inserted_b s) (inserted_c s))" by auto
  then show ?thesis by blast
qed

theorem stream_cpu_elements_witness:
  "\<exists>s sent cs k. run_cpu (StreamCPU_ClockTick (jedec_ops demo_dram) (\<lambda>k. of_nat (4096 * k))) 7 (StreamCPU_new demo_start) = Inr (s, sent, cs)
    \<and> mset sent = mset (concat (map (stream_elem (\<lambda>k. of_nat (4096 * k))) [0 ..< k])
        @ stream_part (\<lambda>k. of_nat (4096 * k)) k (inserted_a s) (inserted_b s) (inserted_c s))
    \<and> mset sent = jedec_owed (sc_mem s) + mset cs"
  by (rule stream_cpu_elements [OF demo_cfg_ok demo_started]) simp

section \<open>Traces\<close>

text \<open>C33: a trace file with at least one line is replayed in its order, each transaction once, after it has been
  read back as it was printed; but when it is used up, the end of the file is noticed only by the failing
  read, so the address of the last transaction may be sent a second time, as a read.  No tick ends in an
  error, and what was sent is what was called back together with what the memory still owes.\<close>

theorem trace_cpu_sends:
  assumes "memory_cfg c" and "JedecDRAMSystem_new c = Inr m" and "ts \<noteq> []" and "TraceBasedCPU_new m (Some (trace_text ts)) = Inr s0"
  shows "\<exists>s sent cs. run_cpu (TraceBasedCPU_ClockTick (jedec_ops c)) n s0 = Inr (s, sent, cs) \<and> mset sent = jedec_owed (tc_mem s) + mset cs
    \<and> ((\<exists>k. sent = map entry_req (take k ts)) \<or> sent = map entry_req ts @ [(fst (last ts), False)])"
proof -
  have "jedec_ok c m" "jedec_owed m = {#}" using started_ok [OF assms(1,2)] by simp_all
  with jedec.trace_run [OF _ assms(3,4), of c n] obtain s sent cs where
    r: "run_cpu (TraceBasedCPU_ClockTick (jedec_ops c)) n s0 = Inr (s, sent, cs)" "mset sent = jedec_owed (tc_mem s) + mset cs"
    "(\<exists>k. tc_ok ts k s \<and> sent = map entry_req (take k ts))
       \<or> is_eof (trace_file s) \<and> (sent = map entry_req ts \<or> sent = map entry_req ts @ [(fst (last ts), False)])" by auto
  have "map entry_req ts = map entry_req (take (length ts) ts)" by simp
  with r show ?thesis by metis
qed

definition demo_trace :: "trace_entry list" where
  "demo_trace = [(64, True, 0), (128, False, 2)]"

theorem trace_cpu_sends_witness:
  "\<exists>s0 s sent cs. TraceBasedCPU_new demo_start (Some (trace_text demo_trace)) = Inr s0
    \<and> run_cpu (TraceBasedCPU_ClockTick (jedec_ops demo_dram)) 4 s0 = Inr (s, sent, cs) \<and> mset sent = jedec_owed (tc_mem s) + mset cs"
proof -
  obtain s0 where s0: "TraceBasedCPU_new demo_start (Some (trace_text demo_trace)) = Inr s0" by (simp add: TraceBasedCPU_new_def)
  show ?thesis using trace_cpu_sends [OF demo_cfg_ok demo_started _ s0, of 4] s0 by (auto simp: demo_trace_def)
qed

section \<open>The program\<close>

text \<open>The stand-alone program on a configured memory, whichever processor its arguments choose.\<close>

theorem stand_alone_ends:
  assumes "memory_cfg c" and "JedecDRAMSystem_new c = Inr m" and "trace \<noteq> [] \<Longrightarrow> \<exists>ts. ts \<noteq> [] \<and> files trace = Some (trace_text ts)"
  shows "\<exists>sent cs. stand_alone (jedec_ops c) gen files m cycles trace stream_type = Inr (sent, cs) \<and> mset cs \<subseteq># mset sent"
  using jedec.stand_alone_answers [of c m trace files gen cycles stream_type] started_ok [OF assms(1,2)] assms(3) by simp

end
