(* ===== verification/Csr_Tools.thy ===== *)
theory Csr_Tools
  imports Streams "HOL-Library.Multiset"
begin

text \<open>
  \<open>CSR_converter\<close>: the programs that prepare graphs for the simulator.  \<open>csr_translator.cpp\<close> turns an edge list
  into CSR, \<open>vtmake.cpp\<close> cuts a CSR file into vertical tiles, and the three \<open>recursive_tiling_maker\<close> programs
  cut it into the leaves of a quad tree.  A file is its text (\<open>None\<close> when it cannot be opened); the result
  is the text that is written.  What goes to \<open>cout\<close> is left out, and so is \<open>getLeaves\<close>, whose result is
  only printed.

  All tiling programs read a CSR file edge by edge and put each edge somewhere: this loop is \<open>distribute\<close>,
  and the locale \<open>edge_sink\<close> is what it needs of a place to put edges.  Every sink keeps all edges.
\<close>

section \<open>Reading a CSR file\<close>

text \<open>\<open>while (getline(ss, tmp, ' ')) \{ if (tmp == "\<newline>") break; row.push_back(stoull(tmp)); \}\<close>\<close>

definition read_rows :: "string \<Rightarrow> u64 list result" where
  "read_rows line = mapE stoull (takeWhile (\<lambda>t. t \<noteq> [CHR 0x0A]) (tokens (CHR '' '') line))"

text \<open>What the loop leaves in \<open>tmp\<close>: the last token, or nothing when a blank ends the line.\<close>

definition tmp_after :: "string \<Rightarrow> string" where
  "tmp_after line = (if line = [] \<or> last line = CHR '' '' then [] else last (tokens (CHR '' '') line))"

text \<open>One edge: its text stays in \<open>tmp\<close>, which a failing \<open>getline\<close> leaves alone.\<close>

definition next_edge :: "(u64 \<Rightarrow> 's \<Rightarrow> 's result) \<Rightarrow> 's \<times> string \<times> istream \<Rightarrow> ('s \<times> string \<times> istream) result" where
  "next_edge put p =
     (case p of (s, tmp, tt) \<Rightarrow>
      (case get_delim (CHR '' '') tmp tt of (_, tmp', tt') \<Rightarrow>
       bindE (stoull tmp') (\<lambda>edge. bindE (put edge s) (\<lambda>s'. Inr (s', tmp', tt')))))"

primrec repeat_edge :: "nat \<Rightarrow> (u64 \<Rightarrow> 's \<Rightarrow> 's result) \<Rightarrow> 's \<times> string \<times> istream \<Rightarrow> ('s \<times> string \<times> istream) result" where
  "repeat_edge 0 put p = Inr p"
| "repeat_edge (Suc n) put p = bindE (next_edge put p) (repeat_edge n put)"

text \<open>The edges of vertex \<open>i\<close>: \<open>v_cnt = row[i+1] - row[i]\<close> of them.\<close>

definition vertex_edges :: "(u64 \<Rightarrow> u64 \<Rightarrow> 's \<Rightarrow> 's result) \<Rightarrow> u64 list \<Rightarrow> nat \<Rightarrow> 's \<times> string \<times> istream \<Rightarrow> ('s \<times> string \<times> istream) result" where
  "vertex_edges put row i p =
     bindE (vec_get row (i + 1)) (\<lambda>hi.
     bindE (vec_get row i) (\<lambda>lo. repeat_edge (unat (hi - lo)) (put (of_nat i)) p))"

definition distribute :: "(u64 \<Rightarrow> u64 \<Rightarrow> 's \<Rightarrow> 's result) \<Rightarrow> nat \<Rightarrow> string \<Rightarrow> 's \<Rightarrow> 's result" where
  "distribute put v file s =
     (case get_delim (CHR 0x0A) [] (stream_of file) of (_, line1, f1) \<Rightarrow>
      bindE (read_rows line1) (\<lambda>row.
      case get_delim (CHR 0x0A) line1 f1 of (_, line2, f2) \<Rightarrow>
      bindE (foldE (vertex_edges put row) [0 ..< v] (s, tmp_after line1, stream_of line2)) (\<lambda>(s', _).
      Inr s')))"

section \<open>Writing a CSR file\<close>

fun sums_from :: "u64 \<Rightarrow> 'a list list \<Rightarrow> u64 list" where
  "sums_from acc [] = []"
| "sums_from acc (r # rs) = (acc + of_nat (length r)) # sums_from (acc + of_nat (length r)) rs"

definition u64_text :: "u64 \<Rightarrow> string" where
  "u64_text w = dec_string (unat w)"

text \<open>Numbers with a blank after each but the last.\<close>

fun spaced :: "string list \<Rightarrow> string" where
  "spaced [] = []"
| "spaced [t] = t"
| "spaced (t # ts) = t @ '' '' @ spaced ts"

text \<open>The second line: every edge is followed by a blank, except that the last edge of the last row ends the line.\<close>

definition edge_line :: "u64 list list \<Rightarrow> string" where
  "edge_line rows =
     (if rows \<noteq> [] \<and> last rows \<noteq> [] then spaced (map u64_text (concat rows)) @ [CHR 0x0A]
      else concat (map (\<lambda>e. u64_text e @ '' '') (concat rows)))"

definition print_csr :: "u64 list list \<Rightarrow> string" where
  "print_csr rows =
     ''0 '' @ (if rows = [] then [] else spaced (map u64_text (sums_from 0 rows)) @ [CHR 0x0A]) @ edge_line rows"

section \<open>Vertical tiles\<close>

text \<open>\<open>vtmake.cpp\<close>.  \<open>v_num = ceil((float)v/tile_num)\<close>.\<close>

definition vt_num :: "u64 \<Rightarrow> u64 \<Rightarrow> u64 result" where
  "vt_num v tile_num = bindE (ceil_div_fl float_p v tile_num) (\<lambda>n. u64_of_fl (n, 1))"

definition vt_put :: "u64 \<Rightarrow> u64 \<Rightarrow> u64 \<Rightarrow> u64 \<Rightarrow> u64 \<Rightarrow> u64 list list \<Rightarrow> u64 list list result" where
  "vt_put v tile_num v_num i edge new_csr =
     bindE (checkE (v_num \<noteq> 0) UB_Division) (\<lambda>_.
     let index0 = edge div v_num; index = (if index0 = tile_num then index0 - 1 else index0); k = unat (i + v * index) in
     bindE (vec_get new_csr k) (\<lambda>r. Inr (new_csr[k := r @ [edge]])))"

definition vtmake :: "string \<Rightarrow> string \<Rightarrow> string option \<Rightarrow> string option result" where
  "vtmake arg1 arg2 file =
     bindE (stoull arg1) (\<lambda>v.
     bindE (stoull arg2) (\<lambda>tile_num.
     bindE (vt_num v tile_num) (\<lambda>v_num.
     case file of
       None \<Rightarrow> Inr None
     | Some txt \<Rightarrow>
         bindE (distribute (vt_put v tile_num v_num) (unat v) txt (replicate (unat (v * tile_num)) [])) (\<lambda>new_csr.
         Inr (Some (print_csr new_csr))))))"

section \<open>Recursive tiles\<close>

record node_range =
  fromStart :: u64
  fromEnd :: u64
  toStart :: u64
  toEnd :: u64

text \<open>A tree under construction: a node with its children.  The rows of a leaf, \<open>new_csr\<close>, come with \<open>newNode\<close> below.\<close>

datatype Node = Node node_range "Node list"

definition inThisNode :: "node_range \<Rightarrow> u64 \<Rightarrow> u64 \<Rightarrow> bool" where
  "inThisNode nd frm to \<longleftrightarrow> fromStart nd \<le> frm \<and> frm \<le> fromEnd nd \<and> toStart nd \<le> to \<and> to \<le> toEnd nd"

fun getLeavesInorder :: "Node \<Rightarrow> node_range list" where
  "getLeavesInorder (Node r cs) = (if cs = [] then [r] else concat (map getLeavesInorder cs))"

text \<open>\<open>ceil\<close> of an integer quotient: the quotient is already cut, \<open>ceil\<close> sees it as a \<open>double\<close>.\<close>

definition ceil_half :: "u64 \<Rightarrow> u64 result" where
  "ceil_half x = u64_of_fl (fl_of_u64 double_p (x div 2))"

text \<open>The four children of a block.\<close>

definition quarter :: "node_range \<Rightarrow> node_range list result" where
  "quarter r =
     bindE (ceil_half (fromStart r + fromEnd r)) (\<lambda>from_q2.
     bindE (ceil_half (toStart r + toEnd r)) (\<lambda>to_q2.
     Inr [\<lparr>fromStart = fromStart r, fromEnd = from_q2, toStart = toStart r, toEnd = to_q2\<rparr>,
          \<lparr>fromStart = from_q2 + 1, fromEnd = fromEnd r, toStart = toStart r, toEnd = to_q2\<rparr>,
          \<lparr>fromStart = fromStart r, fromEnd = from_q2, toStart = to_q2 + 1, toEnd = toEnd r\<rparr>,
          \<lparr>fromStart = from_q2 + 1, fromEnd = fromEnd r, toStart = to_q2 + 1, toEnd = toEnd r\<rparr>]))"

text \<open>\<open>uint64_t temp; configReader >> temp;\<close>\<close>

definition read_flag :: "istream \<Rightarrow> (u64 \<times> istream) result" where
  "read_flag i = (case extract_u64 10 None i of (x, i') \<Rightarrow> bindE (known x) (\<lambda>w. Inr (w, i')))"

definition read_four :: "istream \<Rightarrow> (u64 list \<times> istream) result" where
  "read_four i = repeatE 4 read_flag i"

text \<open>A block of the first depth that is cut again.  For every 1 of its line of the configuration, the child
  at the position of the block itself, not of the 1, gets four more children.\<close>

definition second_depth :: "nat \<Rightarrow> node_range \<Rightarrow> istream \<Rightarrow> (Node \<times> istream) result" where
  "second_depth fd r i =
     bindE (quarter r) (\<lambda>qs.
     bindE (read_four i) (\<lambda>(flags, i').
     bindE (vec_get qs fd) (\<lambda>parent.
     bindE (quarter parent) (\<lambda>four.
     let grand = concat (map (\<lambda>f. if f = 1 then map (\<lambda>q. Node q []) four else []) flags) in
     Inr (Node r ((map (\<lambda>q. Node q []) qs)[fd := Node parent grand]), i')))))"

primrec first_depth :: "(nat \<times> u64 \<times> node_range) list \<Rightarrow> istream \<Rightarrow> Node list result" where
  "first_depth [] i = Inr []"
| "first_depth (b # bs) i =
     (case b of (fd, flag, r) \<Rightarrow>
      bindE (if flag = 1 then second_depth fd r i else Inr (Node r [], i)) (\<lambda>(n, i').
      bindE (first_depth bs i') (\<lambda>ns. Inr (n # ns))))"

definition whole :: "u64 \<Rightarrow> node_range" where
  "whole v = \<lparr>fromStart = 0, fromEnd = v, toStart = 0, toEnd = v\<rparr>"

text \<open>A file that cannot be opened is a failed stream.\<close>

definition config_stream :: "string option \<Rightarrow> istream" where
  "config_stream config = (case config of None \<Rightarrow> \<lparr>is_rest = [], is_eof = False, is_fail = True\<rparr> | Some txt \<Rightarrow> stream_of txt)"

definition build_tree :: "u64 \<Rightarrow> string option \<Rightarrow> Node result" where
  "build_tree v config =
     bindE (read_four (config_stream config)) (\<lambda>(flags, i).
     if 1 \<in> set flags then
       bindE (quarter (whole v)) (\<lambda>qs.
       bindE (first_depth (zip [0 ..< 4] (zip flags qs)) i) (\<lambda>ns. Inr (Node (whole v) ns)))
     else Inr (Node (whole v) []))"

text \<open>\<open>newNode\<close>: a leaf with a row for each of its vertices.\<close>

type_synonym leaf = "node_range \<times> u64 list list"

definition newNode :: "node_range \<Rightarrow> leaf" where
  "newNode r = (r, replicate (unat (fromEnd r - fromStart r + 1)) [])"

text \<open>The first leaf that takes the edge; after the loop without a match, the last one.\<close>

definition leaf_put :: "u64 \<Rightarrow> u64 \<Rightarrow> leaf list \<Rightarrow> leaf list result" where
  "leaf_put frm to leaves =
     (let k = (case first_idx (\<lambda>lf. inThisNode (fst lf) frm to) leaves of Some k \<Rightarrow> k | None \<Rightarrow> length leaves - 1) in
      bindE (vec_get leaves k) (\<lambda>lf.
      let newIdx = unat (frm - fromStart (fst lf)) in
      bindE (vec_get (snd lf) newIdx) (\<lambda>r. Inr (leaves[k := (fst lf, (snd lf)[newIdx := r @ [to]])]))))"

text \<open>The dimension file: a weight matrix of 256 by 256, and the rows of the tiles.\<close>

definition xw_text :: "nat \<Rightarrow> string" where
  "xw_text n = ''256'' @ [CHR 0x0A] @ ''256'' @ [CHR 0x0A] @ dec_string n @ [CHR 0x0A]"

text \<open>From the leaves on, all three programs are the same: both output files, \<open>_rs.txt\<close> and \<open>_rs_xw.txt\<close>.\<close>

definition tile_leaves :: "node_range list \<Rightarrow> u64 \<Rightarrow> string option \<Rightarrow> (string \<times> string) result" where
  "tile_leaves rs v file =
     bindE (case file of None \<Rightarrow> Inr (map newNode rs) | Some txt \<Rightarrow> distribute leaf_put (unat v) txt (map newNode rs)) (\<lambda>leaves.
     let new_csr = concat (map snd leaves) in Inr (print_csr new_csr, xw_text (length new_csr)))"

definition recursive_tiling :: "string \<Rightarrow> string option \<Rightarrow> string option \<Rightarrow> (string \<times> string) result" where
  "recursive_tiling arg1 config file =
     bindE (stoull arg1) (\<lambda>v. bindE (build_tree v config) (\<lambda>root. tile_leaves (getLeavesInorder root) v file))"

text \<open>\<open>recursive_tiling_maker_reschedule.cpp\<close> orders the leaves by the start of their targets first, through a \<open>std::set\<close>.\<close>

definition schedLeaves :: "node_range list \<Rightarrow> node_range list" where
  "schedLeaves leaves =
     (let idxSet = sort (remdups (map toStart leaves)) in concat (map (\<lambda>x. filter (\<lambda>p. toStart p = x) leaves) idxSet))"

definition recursive_tiling_resched :: "string \<Rightarrow> string option \<Rightarrow> string option \<Rightarrow> (string \<times> string) result" where
  "recursive_tiling_resched arg1 config file =
     bindE (stoull arg1) (\<lambda>v. bindE (build_tree v config) (\<lambda>root. tile_leaves (schedLeaves (getLeavesInorder root)) v file))"

text \<open>\<open>recursive_tiling_maker_uni_directed.cpp\<close>: one cut into three blocks.\<close>

definition undirected_tree :: "u64 \<Rightarrow> string option \<Rightarrow> Node result" where
  "undirected_tree v config =
     bindE (read_four (config_stream config)) (\<lambda>(flags, i).
     if 1 \<in> set flags then
       bindE (ceil_half v) (\<lambda>q2.
       Inr (Node (whole v)
         [Node \<lparr>fromStart = 0, fromEnd = q2, toStart = 0, toEnd = q2\<rparr> [],
          Node \<lparr>fromStart = q2 + 1, fromEnd = v, toStart = 0, toEnd = v\<rparr> [],
          Node \<lparr>fromStart = 0, fromEnd = q2, toStart = q2 + 1, toEnd = v\<rparr> []]))
     else Inr (Node (whole v) []))"

definition recursive_tiling_undirected :: "string \<Rightarrow> string option \<Rightarrow> string option \<Rightarrow> (string \<times> string) result" where
  "recursive_tiling_undirected arg1 config file =
     bindE (stoull arg1) (\<lambda>v. bindE (undirected_tree v config) (\<lambda>root. tile_leaves (getLeavesInorder root) v file))"

section \<open>The translator\<close>

text \<open>\<open>csr_translator.cpp\<close>.\<close>

record tr_state =
  rowindex :: "int list"
  colindex :: "int list list"

definition in_array :: "int \<Rightarrow> 'a list \<Rightarrow> nat result" where
  "in_array i xs = (if 0 \<le> i \<and> nat i < length xs then Inr (nat i) else Inl UB_Index)"

definition read_edge_line :: "string \<Rightarrow> tr_state \<Rightarrow> tr_state result" where
  "read_edge_line line s =
     (case tokens (CHR '' '') line of
        [] \<Rightarrow> Inr s
      | t # ts \<Rightarrow>
          bindE (stoi t) (\<lambda>vertex.
          bindE (in_array vertex (rowindex s)) (\<lambda>k.
          bindE (mapE stoi ts) (\<lambda>cols.
          Inr (s\<lparr>rowindex := (rowindex s)[k := rowindex s ! k + 1], colindex := (colindex s)[k := colindex s ! k @ cols]\<rparr>)))))"

primrec read_edge_lines :: "nat \<Rightarrow> string \<Rightarrow> istream \<Rightarrow> tr_state \<Rightarrow> tr_state result" where
  "read_edge_lines 0 line i s = Inr s"
| "read_edge_lines (Suc n) line i s =
     (case get_delim (CHR 0x0A) line i of (_, line', i') \<Rightarrow> bindE (read_edge_line line' s) (read_edge_lines n line' i'))"

text \<open>\<open>if (v != 0) rowindex[i] += rowindex[i-1];\<close> and \<open>sort\<close>.\<close>

definition accumulate_row :: "int \<Rightarrow> nat \<Rightarrow> tr_state \<Rightarrow> tr_state result" where
  "accumulate_row v i s =
     bindE (if v \<noteq> 0
            then bindE (in_array (int i - 1) (rowindex s)) (\<lambda>p.
                 bindE (vec_get (rowindex s) i) (\<lambda>x. Inr (s\<lparr>rowindex := (rowindex s)[i := x + rowindex s ! p]\<rparr>)))
            else Inr s) (\<lambda>s1.
     bindE (vec_get (colindex s1) i) (\<lambda>cs. Inr (s1\<lparr>colindex := (colindex s1)[i := sort cs]\<rparr>)))"

definition int_text :: "int \<Rightarrow> string" where
  "int_text i = (if i < 0 then CHR ''-'' # dec_string (nat (- i)) else dec_string (nat i))"

definition print_translated :: "tr_state \<Rightarrow> string" where
  "print_translated s =
     ''0 '' @ (if rowindex s = [] then [] else spaced (map int_text (rowindex s)) @ [CHR 0x0A])
     @ (if colindex s \<noteq> [] \<and> last (colindex s) \<noteq> [] then spaced (map int_text (concat (colindex s)))
        else concat (map (\<lambda>e. int_text e @ '' '') (concat (colindex s))))"

definition csr_translator :: "string option \<Rightarrow> string result" where
  "csr_translator file =
     (case file of
        None \<Rightarrow> Inl Invalid_Argument
      | Some txt \<Rightarrow>
          (case get_delim (CHR 0x0A) [] (stream_of txt) of (_, line1, f1) \<Rightarrow>
           bindE (stoi line1) (\<lambda>v.
           case get_delim (CHR 0x0A) line1 f1 of (_, line2, f2) \<Rightarrow>
           bindE (stoi line2) (\<lambda>e.
           bindE (checkE (0 \<le> v) Length_Error) (\<lambda>_.
           bindE (read_edge_lines (nat e) line2 f2 \<lparr>rowindex = replicate (nat v) 0, colindex = replicate (nat v) []\<rparr>) (\<lambda>s.
           bindE (foldE (accumulate_row v) [0 ..< nat v] s) (\<lambda>s'.
           Inr (print_translated s'))))))))"

section \<open>Lines and tokens\<close>

lemma tokens_from_append: "dl \<notin> set t \<Longrightarrow> tokens_from dl acc (t @ r) = tokens_from dl (acc @ t) r"
  by (induction t arbitrary: acc) auto

lemma tokens_cons: "CHR '' '' \<notin> set t \<Longrightarrow> tokens (CHR '' '') (t @ CHR '' '' # r) = t # tokens (CHR '' '') r"
  by (simp add: tokens_def tokens_from_append)

lemma tokens_one: "CHR '' '' \<notin> set t \<Longrightarrow> t \<noteq> [] \<Longrightarrow> tokens (CHR '' '') t = [t]"
  using tokens_from_append [of "CHR '' ''" t "[]" "[]"] by (simp add: tokens_def)

lemma tokens_spaced: "\<forall>t \<in> set ts. CHR '' '' \<notin> set t \<and> t \<noteq> [] \<Longrightarrow> tokens (CHR '' '') (spaced ts) = ts"
  by (induction ts rule: spaced.induct) (simp_all add: tokens_cons tokens_one, simp add: tokens_def)

lemma u64_text_facts: "u64_text w \<noteq> []" "CHR '' '' \<notin> set (u64_text w)" "CHR 0x0A \<notin> set (u64_text w)" "stoull (u64_text w) = Inr w"
proof -
  note f = dec_string_facts [of "unat w"]
  show "u64_text w \<noteq> []" using f by (simp add: u64_text_def)
  have d: "\<forall>ch \<in> set (u64_text w). is_digit ch" using f by (simp add: u64_text_def)
  then show "CHR '' '' \<notin> set (u64_text w)" "CHR 0x0A \<notin> set (u64_text w)" by (auto simp: is_digit_def)
  have "unat w < 2 ^ 64" using unsigned_less [of w, where 'a = nat] by simp
  then have "int (unat w) < 2 ^ 64" using of_nat_less_iff [of "unat w" "2 ^ 64", where 'a = int] by simp
  then show "stoull (u64_text w) = Inr w"
    using f by (simp add: u64_text_def stoull_def parse_dec_def split_sign_dec dec_string_whole)
qed

lemma stoull_dec: "n < 2 ^ 64 \<Longrightarrow> stoull (dec_string n) = Inr (of_nat n)"
  using u64_text_facts(4) [of "of_nat n"] by (simp add: u64_text_def unsigned_of_nat take_bit_nat_eq_self)

lemma unat_small: "n < 2 ^ 64 \<Longrightarrow> unat (of_nat n :: u64) = n"
  by (simp add: unsigned_of_nat take_bit_nat_eq_self)

lemma no_newline_spaced: "\<forall>t \<in> set ts. CHR 0x0A \<notin> set t \<Longrightarrow> CHR 0x0A \<notin> set (spaced ts)"
  by (induction ts rule: spaced.induct) auto

lemma mapE_Inr: "\<forall>x \<in> set xs. f (g x) = Inr x \<Longrightarrow> mapE f (map g xs) = Inr xs"
  by (induction xs) auto

text \<open>A stream from which the tokens \<open>ts\<close> can be read one after the other.\<close>

definition reads_tokens :: "string list \<Rightarrow> istream \<Rightarrow> bool" where
  "reads_tokens ts i \<longleftrightarrow> ts = [] \<or> \<not> is_eof i \<and> \<not> is_fail i
     \<and> (is_rest i = spaced ts \<or> is_rest i = concat (map (\<lambda>t. t @ '' '') ts))"

lemma get_token:
  assumes "reads_tokens (t # ts) i" and "CHR '' '' \<notin> set t" and "t \<noteq> []"
  shows "\<exists>i'. get_delim (CHR '' '') tmp i = (True, t, i') \<and> reads_tokens ts i'"
proof -
  have ok: "\<not> is_eof i" "\<not> is_fail i" using assms(1) by (simp_all add: reads_tokens_def)
  have w: "takeWhile (\<lambda>ch. ch \<noteq> CHR '' '') (t @ CHR '' '' # r) = t" "dropWhile (\<lambda>ch. ch \<noteq> CHR '' '') (t @ CHR '' '' # r) = CHR '' '' # r" for r
  proof -
    have "\<forall>x \<in> set t. x \<noteq> CHR '' ''" using assms(2) by auto
    from takeWhile_stop [OF this, of "CHR '' ''" r] show "takeWhile (\<lambda>ch. ch \<noteq> CHR '' '') (t @ CHR '' '' # r) = t"
      "dropWhile (\<lambda>ch. ch \<noteq> CHR '' '') (t @ CHR '' '' # r) = CHR '' '' # r" by simp_all
  qed
  consider "ts = []" "is_rest i = t" | u us where "ts = u # us" "is_rest i = t @ CHR '' '' # spaced ts"
    | "is_rest i = t @ CHR '' '' # concat (map (\<lambda>t. t @ '' '') ts)"
    using assms(1) by (cases ts) (auto simp: reads_tokens_def)
  then show ?thesis
  proof cases
    case 1
    have "takeWhile (\<lambda>ch. ch \<noteq> CHR '' '') t = t" "dropWhile (\<lambda>ch. ch \<noteq> CHR '' '') t = []"
      using assms(2) by (auto simp: takeWhile_eq_all_conv dropWhile_eq_Nil_conv)
    then show ?thesis using 1 ok assms(3) by (simp add: get_delim_def reads_tokens_def)
  next
    case 2
    then show ?thesis using ok w by (simp add: get_delim_def reads_tokens_def)
  next
    case 3
    then show ?thesis using ok w by (simp add: get_delim_def reads_tokens_def)
  qed
qed

section \<open>Distributing the edges of a graph\<close>

text \<open>The edges of a graph given by its adjacency lists, in the order of the file.\<close>

definition graph_edges :: "u64 list list \<Rightarrow> (u64 \<times> u64) list" where
  "graph_edges adj = concat (map (\<lambda>i. map (Pair (of_nat i)) (adj ! i)) [0 ..< length adj])"

definition put_all :: "(u64 \<Rightarrow> u64 \<Rightarrow> 's \<Rightarrow> 's result) \<Rightarrow> (u64 \<times> u64) list \<Rightarrow> 's \<Rightarrow> 's result" where
  "put_all put es s = foldE (\<lambda>p. put (fst p) (snd p)) es s"

lemma repeat_edge_reads:
  assumes "reads_tokens (map u64_text es @ ts) i"
  shows "(case foldE put es s of Inl f \<Rightarrow> repeat_edge (length es) put (s, tmp, i) = Inl f
    | Inr s' \<Rightarrow> \<exists>tmp' i'. repeat_edge (length es) put (s, tmp, i) = Inr (s', tmp', i') \<and> reads_tokens ts i')"
  using assms
proof (induction es arbitrary: s tmp i)
  case (Cons e es)
  obtain i' where g: "get_delim (CHR '' '') tmp i = (True, u64_text e, i')" "reads_tokens (map u64_text es @ ts) i'"
    using get_token [of "u64_text e" "map u64_text es @ ts" i tmp] Cons.prems u64_text_facts by auto
  show ?case
  proof (cases "put e s")
    case (Inl f)
    then show ?thesis using g u64_text_facts(4) by (simp add: next_edge_def)
  next
    case (Inr s1)
    have f: "foldE put (e # es) s = foldE put es s1" using Inr by simp
    have r: "repeat_edge (length (e # es)) put (s, tmp, i) = repeat_edge (length es) put (s1, u64_text e, i')"
      using Inr g(1) u64_text_facts(4) by (simp add: next_edge_def)
    show ?thesis unfolding f r by (rule Cons.IH [OF g(2)])
  qed
qed simp

lemma sums_from_diff:
  assumes "i < length adj"
  shows "(acc # sums_from acc adj) ! Suc i - (acc # sums_from acc adj) ! i = of_nat (length (adj ! i))"
  using assms
proof (induction adj arbitrary: i acc)
  case (Cons r adj)
  show ?case
  proof (cases i)
    case (Suc j)
    then show ?thesis using Cons.IH [of j "acc + of_nat (length r)"] Cons.prems by simp
  qed simp
qed simp

lemma length_sums_from [simp]: "length (sums_from acc adj) = length adj"
  by (induction adj arbitrary: acc) auto

lemma vertices_read:
  assumes "k + n = length adj" and "\<forall>r \<in> set adj. length r < 2 ^ 64"
    and "reads_tokens (map u64_text (concat (drop k adj))) i"
  shows "(case foldE (\<lambda>p. put (fst p) (snd p)) (concat (map (\<lambda>i. map (Pair (of_nat i)) (adj ! i)) [k ..< length adj])) s of
      Inl f \<Rightarrow> foldE (vertex_edges put (0 # sums_from 0 adj)) [k ..< length adj] (s, tmp, i) = Inl f
    | Inr s' \<Rightarrow> \<exists>p'. foldE (vertex_edges put (0 # sums_from 0 adj)) [k ..< length adj] (s, tmp, i) = Inr (s', p'))"
  using assms(1,3)
proof (induction n arbitrary: k s tmp i)
  case (Suc n)
  have k: "k < length adj" using Suc.prems by simp
  let ?row = "0 # sums_from 0 adj" and ?put = "\<lambda>p. put (fst p) (snd p)"
  have up: "[k ..< length adj] = k # [Suc k ..< length adj]" using k by (rule upt_conv_Cons)
  have "unat (of_nat (length (adj ! k)) :: u64) = length (adj ! k)"
    using assms(2) k by (simp add: unsigned_of_nat take_bit_nat_eq_self)
  then have ve: "vertex_edges put ?row k p = repeat_edge (length (adj ! k)) (put (of_nat k)) p" for p
    using sums_from_diff [OF k, of 0] k by (simp add: vertex_edges_def)
  have fm: "foldE ?put (map (Pair (of_nat k)) es) s = foldE (put (of_nat k)) es s" for es s
    by (induction es arbitrary: s) (auto intro: bindE_cong)
  have "reads_tokens (map u64_text (adj ! k) @ map u64_text (concat (drop (Suc k) adj))) i"
    using Suc.prems(2) k by (simp flip: Cons_nth_drop_Suc)
  note r = repeat_edge_reads [OF this, of "put (of_nat k)" s tmp]
  show ?case
  proof (cases "foldE (put (of_nat k)) (adj ! k) s")
    case (Inl f)
    then show ?thesis using r ve by (simp add: up foldE_append fm)
  next
    case (Inr s1)
    then obtain tmp1 i1 where 1: "repeat_edge (length (adj ! k)) (put (of_nat k)) (s, tmp, i) = Inr (s1, tmp1, i1)"
      "reads_tokens (map u64_text (concat (drop (Suc k) adj))) i1" using r by auto
    have "Suc k + n = length adj" using Suc.prems(1) by simp
    note ih = Suc.IH [OF this 1(2), of s1 tmp1]
    have f: "foldE ?put (concat (map (\<lambda>i. map (Pair (of_nat i)) (adj ! i)) [k ..< length adj])) s
        = foldE ?put (concat (map (\<lambda>i. map (Pair (of_nat i)) (adj ! i)) [Suc k ..< length adj])) s1"
      using Inr by (simp add: up foldE_append fm)
    have g: "foldE (vertex_edges put ?row) [k ..< length adj] (s, tmp, i) = foldE (vertex_edges put ?row) [Suc k ..< length adj] (s1, tmp1, i1)"
      unfolding up using 1(1) ve by simp
    show ?thesis unfolding f g by (rule ih)
  qed
qed simp

lemma first_line_read:
  assumes "adj \<noteq> []"
  shows "\<exists>line1. get_delim (CHR 0x0A) [] (stream_of (print_csr adj)) = (True, line1, stream_of (edge_line adj))
    \<and> read_rows line1 = Inr (0 # sums_from 0 adj) \<and> tokens (CHR '' '') line1 = ''0'' # map u64_text (sums_from 0 adj)"
proof -
  let ?ts = "map u64_text (sums_from 0 adj)"
  let ?l = "''0 '' @ spaced ?ts"
  have nn: "\<forall>x \<in> set ?l. x \<noteq> CHR 0x0A" using no_newline_spaced [of ?ts] u64_text_facts(3) by auto
  have "print_csr adj = ?l @ CHR 0x0A # edge_line adj" using assms by (simp add: print_csr_def)
  then have g: "get_delim (CHR 0x0A) [] (stream_of (print_csr adj)) = (True, ?l, stream_of (edge_line adj))"
    using takeWhile_stop [OF nn, of "CHR 0x0A" "edge_line adj"] by (simp add: get_delim_def stream_of_def)
  have "tokens (CHR '' '') (spaced ?ts) = ?ts" using u64_text_facts by (intro tokens_spaced) auto
  then have t: "tokens (CHR '' '') ?l = ''0'' # ?ts" using tokens_cons [of "''0''" "spaced ?ts"] by simp
  have "u64_text x \<noteq> [CHR 0x0A]" for x using u64_text_facts(3) [of x] by (metis list.set_intros(1))
  then have "\<forall>x \<in> set (''0'' # ?ts). x \<noteq> [CHR 0x0A]" by auto
  then have tw: "takeWhile (\<lambda>t. t \<noteq> [CHR 0x0A]) (''0'' # ?ts) = ''0'' # ?ts" by (simp add: takeWhile_eq_all_conv)
  have "stoull ''0'' = Inr 0" by (simp add: stoull_def parse_dec_def split_sign_def is_space_char_def is_digit_def digits_val_def)
  moreover have "mapE stoull ?ts = Inr (sums_from 0 adj)" using u64_text_facts(4) by (intro mapE_Inr) simp
  ultimately have "read_rows ?l = Inr (0 # sums_from 0 adj)" unfolding read_rows_def t tw by simp
  with g t show ?thesis by blast
qed

lemma second_line_read:
  "\<exists>b line2 f2. get_delim (CHR 0x0A) line1 (stream_of (edge_line adj)) = (b, line2, f2) \<and> reads_tokens (map u64_text (concat adj)) (stream_of line2)"
proof (cases "concat adj = []")
  case True
  then show ?thesis by (cases "get_delim (CHR 0x0A) line1 (stream_of (edge_line adj))") (auto simp: reads_tokens_def)
next
  case False
  let ?ts = "map u64_text (concat adj)"
  show ?thesis
  proof (cases "adj \<noteq> [] \<and> last adj \<noteq> []")
    case True
    have nn: "\<forall>x \<in> set (spaced ?ts). x \<noteq> CHR 0x0A" using no_newline_spaced [of ?ts] u64_text_facts(3) by auto
    have "get_delim (CHR 0x0A) line1 (stream_of (edge_line adj)) = (True, spaced ?ts, stream_of [])"
      using True takeWhile_stop [OF nn, of "CHR 0x0A" "[]"] by (simp add: edge_line_def get_delim_def stream_of_def)
    then show ?thesis by (intro exI [of _ True] exI [of _ "spaced ?ts"] exI [of _ "stream_of []"]) (simp add: reads_tokens_def stream_of_def)
  next
    case nl: False
    define l where "l = concat (map (\<lambda>e. u64_text e @ '' '') (concat adj))"
    have nn: "\<forall>x \<in> set l. x \<noteq> CHR 0x0A" using u64_text_facts(3) by (auto simp: l_def)
    have "l \<noteq> []" using False by (cases "concat adj") (auto simp: l_def)
    moreover have "takeWhile (\<lambda>ch. ch \<noteq> CHR 0x0A) l = l" "dropWhile (\<lambda>ch. ch \<noteq> CHR 0x0A) l = []"
      using nn by (simp_all only: takeWhile_eq_all_conv dropWhile_eq_Nil_conv)
    moreover have "edge_line adj = l" using nl by (auto simp: edge_line_def l_def)
    ultimately have "get_delim (CHR 0x0A) line1 (stream_of (edge_line adj)) = (True, l, stream_of [] \<lparr>is_eof := True\<rparr>)"
      by (simp add: get_delim_def stream_of_def del: dropWhile_eq_Nil_conv takeWhile_eq_all_conv)
    then show ?thesis by (intro exI [of _ True] exI [of _ l] exI [of _ "stream_of [] \<lparr>is_eof := True\<rparr>"])
      (simp add: reads_tokens_def stream_of_def comp_def l_def)
  qed
qed

text \<open>On a file in the format the programs write, \<open>distribute\<close> puts exactly the edges of the graph, in order.\<close>

lemma distribute_graph:
  assumes "adj \<noteq> []" and "\<forall>r \<in> set adj. length r < 2 ^ 64"
  shows "distribute put (length adj) (print_csr adj) s = put_all put (graph_edges adj) s"
proof -
  obtain line1 where l1: "get_delim (CHR 0x0A) [] (stream_of (print_csr adj)) = (True, line1, stream_of (edge_line adj))"
    "read_rows line1 = Inr (0 # sums_from 0 adj)" using first_line_read [OF assms(1)] by blast
  obtain b line2 f2 where l2: "get_delim (CHR 0x0A) line1 (stream_of (edge_line adj)) = (b, line2, f2)"
    "reads_tokens (map u64_text (concat adj)) (stream_of line2)" using second_line_read by blast
  have "reads_tokens (map u64_text (concat (drop 0 adj))) (stream_of line2)" using l2(2) by simp
  from vertices_read [OF _ assms(2) this, of "length adj" put s "tmp_after line1"] show ?thesis
    using l1 l2(1) by (cases "put_all put (graph_edges adj) s") (auto simp: distribute_def put_all_def graph_edges_def)
qed

locale edge_sink =
  fixes put :: "u64 \<Rightarrow> u64 \<Rightarrow> 's \<Rightarrow> 's result"
    and inv :: "'s \<Rightarrow> bool"
    and takes :: "u64 \<Rightarrow> u64 \<Rightarrow> bool"
    and held :: "'s \<Rightarrow> (u64 \<times> u64) multiset"
  assumes put_keeps: "inv s \<Longrightarrow> takes i e \<Longrightarrow> \<exists>s'. put i e s = Inr s' \<and> inv s' \<and> held s' = add_mset (i, e) (held s)"
begin

lemma put_all_keeps:
  assumes "inv s" and "\<forall>p \<in> set es. takes (fst p) (snd p)"
  shows "\<exists>s'. put_all put es s = Inr s' \<and> inv s' \<and> held s' = held s + mset es"
  using assms
proof (induction es arbitrary: s)
  case (Cons p es)
  then obtain s1 where s1: "put (fst p) (snd p) s = Inr s1" "inv s1" "held s1 = add_mset p (held s)"
    using put_keeps [of s "fst p" "snd p"] by auto
  from Cons.IH [OF s1(2)] Cons.prems(2) s1 show ?case by (auto simp: put_all_def)
qed (simp add: put_all_def)

lemma distribute_keeps:
  assumes "inv s" and "adj \<noteq> []" and "\<forall>r \<in> set adj. length r < 2 ^ 64" and "\<forall>p \<in> set (graph_edges adj). takes (fst p) (snd p)"
  shows "\<exists>s'. distribute put (length adj) (print_csr adj) s = Inr s' \<and> inv s' \<and> held s' = held s + mset (graph_edges adj)"
  unfolding distribute_graph [OF assms(2,3)] by (rule put_all_keeps [OF assms(1,4)])

end

section \<open>Rows that know their vertex\<close>

definition tagged :: "(nat \<Rightarrow> u64) \<Rightarrow> u64 list list \<Rightarrow> (u64 \<times> u64) multiset" where
  "tagged f csr = (\<Sum>k < length csr. image_mset (Pair (f k)) (mset (csr ! k)))"

lemma tagged_push:
  assumes "k < length csr"
  shows "tagged f (csr[k := csr ! k @ [e]]) = add_mset (f k, e) (tagged f csr)"
proof -
  let ?g = "\<lambda>csr j. image_mset (Pair (f j)) (mset (csr ! j))" and ?c = "csr[k := csr ! k @ [e]]"
  have k: "k \<in> {..< length csr}" using assms by simp
  have "tagged f ?c = ?g ?c k + (\<Sum>j \<in> {..< length csr} - {k}. ?g ?c j)"
    unfolding tagged_def length_list_update by (rule sum.remove [OF _ k]) simp
  moreover have "(\<Sum>j \<in> {..< length csr} - {k}. ?g ?c j) = (\<Sum>j \<in> {..< length csr} - {k}. ?g csr j)"
    by (rule sum.cong) auto
  moreover have "tagged f csr = ?g csr k + (\<Sum>j \<in> {..< length csr} - {k}. ?g csr j)"
    unfolding tagged_def by (rule sum.remove [OF _ k]) simp
  ultimately show ?thesis using assms by simp
qed

lemma tagged_empty [simp]: "tagged f (replicate n []) = {#}"
  by (simp add: tagged_def)

section \<open>Vertical tiles keep the edges\<close>

definition vt_ok :: "u64 \<Rightarrow> u64 \<Rightarrow> u64 \<Rightarrow> bool" where
  "vt_ok v tile_num v_num \<longleftrightarrow> 0 < unat v \<and> v_num \<noteq> 0 \<and> unat v \<le> unat v_num * unat tile_num \<and> unat v * unat tile_num < 2 ^ 64"

text \<open>Row \<open>k\<close> holds edges of vertex \<open>k mod v\<close> to vertices of tile \<open>k div v\<close>.\<close>

definition vt_inv :: "u64 \<Rightarrow> u64 \<Rightarrow> u64 \<Rightarrow> u64 list list \<Rightarrow> bool" where
  "vt_inv v tile_num v_num csr \<longleftrightarrow> vt_ok v tile_num v_num \<and> length csr = unat v * unat tile_num
     \<and> (\<forall>k < length csr. \<forall>e \<in> set (csr ! k). unat e div unat v_num = k div unat v)"

definition vt_held :: "u64 \<Rightarrow> u64 list list \<Rightarrow> (u64 \<times> u64) multiset" where
  "vt_held v csr = tagged (\<lambda>k. of_nat (k mod unat v)) csr"

lemma vt_index:
  assumes "vt_ok v tile_num v_num" and "unat i < unat v" and "unat e < unat v"
  shows "e div v_num \<noteq> tile_num" and "unat (i + v * (e div v_num)) = unat i + unat v * (unat e div unat v_num)"
    and "unat i + unat v * (unat e div unat v_num) < unat v * unat tile_num"
proof -
  have n: "0 < unat v_num" using assms(1) by (simp add: vt_ok_def unat_gt_0)
  have "unat e < unat v_num * unat tile_num" using assms(1,3) by (simp add: vt_ok_def)
  then have t: "unat e div unat v_num < unat tile_num" using n by (simp add: less_mult_imp_div_less mult.commute)
  then show "e div v_num \<noteq> tile_num" by (metis less_irrefl unat_div_distrib)
  have "unat v * (unat e div unat v_num) + unat v \<le> unat v * unat tile_num"
    using t by (metis Suc_leI mult.commute mult_Suc_right mult_le_mono2 add.commute)
  then show b: "unat i + unat v * (unat e div unat v_num) < unat v * unat tile_num" using assms(2) by linarith
  have lt: "unat v * unat tile_num < 2 ^ 64" using assms(1) by (simp add: vt_ok_def)
  have m: "unat (v * (e div v_num)) = unat v * (unat e div unat v_num)"
    using b lt by (simp add: unat_word_ariths(2) unat_div_distrib)
  show "unat (i + v * (e div v_num)) = unat i + unat v * (unat e div unat v_num)"
    using b lt m by (simp add: unat_word_ariths(1))
qed

interpretation vt: edge_sink "vt_put v tile_num v_num" "vt_inv v tile_num v_num" "\<lambda>i e. unat i < unat v \<and> unat e < unat v" "vt_held v"
  for v tile_num v_num
proof unfold_locales
  fix csr and i e :: u64
  assume inv: "vt_inv v tile_num v_num csr" and "unat i < unat v \<and> unat e < unat v"
  then have ie: "unat i < unat v" "unat e < unat v" by simp_all
  have ok: "vt_ok v tile_num v_num" using inv by (simp add: vt_inv_def)
  note x = vt_index [OF ok ie]
  let ?k = "unat i + unat v * (unat e div unat v_num)"
  have k: "?k < length csr" using x(3) inv by (simp add: vt_inv_def)
  have kd: "?k mod unat v = unat i" "?k div unat v = unat e div unat v_num" using ie(1) by simp_all
  let ?c = "csr[?k := csr ! ?k @ [e]]"
  have "v_num \<noteq> 0" using ok by (simp add: vt_ok_def)
  then have "vt_put v tile_num v_num i e csr = Inr ?c" using x(1,2) k by (simp add: vt_put_def Let_def)
  moreover have "vt_inv v tile_num v_num ?c" unfolding vt_inv_def
  proof (intro conjI allI impI ballI)
    fix j e'
    assume "j < length ?c" "e' \<in> set (?c ! j)"
    then show "unat e' div unat v_num = j div unat v" using inv kd k by (cases "j = ?k") (auto simp: vt_inv_def)
  qed (use inv in \<open>simp_all add: vt_inv_def\<close>)
  moreover have "vt_held v ?c = add_mset (i, e) (vt_held v csr)" using tagged_push [OF k, of "\<lambda>k. of_nat (k mod unat v)" e] kd by (simp add: vt_held_def)
  ultimately show "\<exists>s'. vt_put v tile_num v_num i e csr = Inr s' \<and> vt_inv v tile_num v_num s' \<and> vt_held v s' = add_mset (i, e) (vt_held v csr)" by blast
qed

text \<open>With an exact quotient the tiles are wide enough.\<close>

lemma vt_num_ok:
  assumes "0 < unat v" and "unat v < 2 ^ 24" and "0 < unat tile_num" and "unat tile_num < 2 ^ 24"
  shows "\<exists>n. vt_num v tile_num = Inr n \<and> unat n = ceil_div (unat v) (unat tile_num) \<and> vt_ok v tile_num n"
proof -
  have u: "uint w < 2 ^ float_p" if "unat w < 2 ^ 24" for w :: u64
    using that of_nat_less_iff [of "unat w" "2 ^ 24", where 'a = int] by (simp add: float_p_def)
  let ?c = "ceil_div (unat v) (unat tile_num)"
  have c: "ceil_div_fl float_p v tile_num = Inr (int ?c)"
    using assms(3) by (intro ceil_div_fl_exact u assms(2,4)) (auto simp: float_p_def unat_gt_0)
  have le: "?c \<le> unat v" by (rule ceil_div_le [OF assms(3)])
  then have lt: "?c < 2 ^ 64" using assms(2) by simp
  then have "int ?c < 2 ^ 64" using of_nat_less_iff [of ?c "2 ^ 64", where 'a = int] by simp
  then have n: "vt_num v tile_num = Inr (u64_of_int (int ?c))" using c by (simp add: vt_num_def u64_of_fl_def fl_trunc_def)
  have un: "unat (u64_of_int (int ?c)) = ?c" using lt by (rule unat_u64_of_int)
  have w: "unat v \<le> ?c * unat tile_num"
    using div_mult_mod_eq [of "unat v + unat tile_num - 1" "unat tile_num"] mod_less_divisor [OF assms(3), of "unat v + unat tile_num - 1"]
    unfolding ceil_div_def by linarith
  have "?c \<noteq> 0" using w assms(1) by (metis mult_0 not_le)
  then have "u64_of_int (int ?c) \<noteq> 0" using un by auto
  moreover have "unat v * unat tile_num < 2 ^ 24 * 2 ^ 24" using assms(1-4) by (intro mult_strict_mono) simp_all
  ultimately show ?thesis using n un w assms(1) by (simp add: vt_ok_def)
qed

section \<open>Leaves keep the edges\<close>

definition leaf_rows :: "node_range \<Rightarrow> nat" where
  "leaf_rows r = unat (fromEnd r - fromStart r + 1)"

definition leaves_inv :: "node_range list \<Rightarrow> leaf list \<Rightarrow> bool" where
  "leaves_inv rs leaves \<longleftrightarrow> map fst leaves = rs \<and> (\<forall>r \<in> set rs. fromEnd r \<noteq> - 1)
     \<and> (\<forall>lf \<in> set leaves. length (snd lf) = leaf_rows (fst lf)
         \<and> (\<forall>k < length (snd lf). \<forall>to \<in> set (snd lf ! k). inThisNode (fst lf) (fromStart (fst lf) + of_nat k) to))"

definition leaf_held :: "leaf \<Rightarrow> (u64 \<times> u64) multiset" where
  "leaf_held lf = tagged (\<lambda>k. fromStart (fst lf) + of_nat k) (snd lf)"

definition leaves_held :: "leaf list \<Rightarrow> (u64 \<times> u64) multiset" where
  "leaves_held leaves = sum_list (map leaf_held leaves)"

lemma leaf_row:
  assumes "inThisNode r i e" and "fromEnd r \<noteq> - 1"
  shows "unat (i - fromStart r) < leaf_rows r" and "fromStart r + of_nat (unat (i - fromStart r)) = i"
proof -
  have le: "fromStart r \<le> i" "i \<le> fromEnd r" using assms(1) by (simp_all add: inThisNode_def)
  have "fromEnd r - fromStart r \<noteq> - 1"
  proof
    assume "fromEnd r - fromStart r = - 1"
    then have "fromStart r = fromEnd r + 1" by (simp add: diff_eq_eq)
    moreover have "unat (fromEnd r + 1) = unat (fromEnd r) + 1" using assms(2) unatSuc [of "fromEnd r"] by (simp add: eq_neg_iff_add_eq_0 add.commute)
    moreover have "unat (fromStart r) \<le> unat (fromEnd r)" using le by (simp add: word_le_nat_alt)
    ultimately show False by simp
  qed
  then have "unat (fromEnd r - fromStart r + 1) = unat (fromEnd r - fromStart r) + 1"
    using unatSuc [of "fromEnd r - fromStart r"] by (simp add: eq_neg_iff_add_eq_0 add.commute)
  moreover have "unat (i - fromStart r) \<le> unat (fromEnd r - fromStart r)"
    using le by (simp add: unat_sub word_le_nat_alt)
  ultimately show "unat (i - fromStart r) < leaf_rows r" by (simp add: leaf_rows_def)
  show "fromStart r + of_nat (unat (i - fromStart r)) = i" by simp
qed

interpretation leaves: edge_sink leaf_put "leaves_inv rs" "\<lambda>i e. list_ex (\<lambda>r. inThisNode r i e) rs" leaves_held for rs
proof unfold_locales
  fix leaves i e
  assume inv: "leaves_inv rs leaves" and "list_ex (\<lambda>r. inThisNode r i e) rs"
  then obtain lf0 where "lf0 \<in> set leaves" "inThisNode (fst lf0) i e" by (auto simp: leaves_inv_def list_ex_iff)
  then obtain k where k0: "first_idx (\<lambda>lf. inThisNode (fst lf) i e) leaves = Some k"
    using first_idx_exists [of lf0 leaves "\<lambda>lf. inThisNode (fst lf) i e"] by auto
  then have k: "k < length leaves" "inThisNode (fst (leaves ! k)) i e" by (simp_all add: first_idx_Some)
  let ?lf = "leaves ! k" and ?n = "unat (i - fromStart (fst (leaves ! k)))"
  have lf: "?lf \<in> set leaves" using k(1) by simp
  have l: "length (snd ?lf) = leaf_rows (fst ?lf)" "fromEnd (fst ?lf) \<noteq> - 1"
    "\<And>j to. j < length (snd ?lf) \<Longrightarrow> to \<in> set (snd ?lf ! j) \<Longrightarrow> inThisNode (fst ?lf) (fromStart (fst ?lf) + of_nat j) to"
    using inv lf by (auto simp: leaves_inv_def)
  note row = leaf_row [OF k(2) l(2)]
  have n: "?n < length (snd ?lf)" using row(1) l(1) by simp
  let ?new = "(fst ?lf, (snd ?lf)[?n := snd ?lf ! ?n @ [e]])"
  let ?s = "leaves[k := ?new]"
  have "leaf_put i e leaves = Inr ?s" using k0 k(1) n by (simp add: leaf_put_def Let_def)
  moreover have "leaves_inv rs ?s"
  proof -
    have "map fst ?s = map fst leaves" using k(1) by (simp add: map_update list_update_same_conv)
    moreover have "inThisNode (fst ?new) (fromStart (fst ?new) + of_nat j) to" if "j < length (snd ?new)" "to \<in> set (snd ?new ! j)" for j to
      using that l(3) l(3) [OF n, unfolded row(2)] n row(2) k(2) by (cases "j = ?n") auto
    then have "\<forall>lf \<in> set ?s. length (snd lf) = leaf_rows (fst lf)
         \<and> (\<forall>k < length (snd lf). \<forall>to \<in> set (snd lf ! k). inThisNode (fst lf) (fromStart (fst lf) + of_nat k) to)"
      using inv l(1) by (auto simp: leaves_inv_def dest!: set_update_subset_insert [THEN subsetD])
    ultimately show ?thesis using inv by (simp add: leaves_inv_def)
  qed
  moreover have "leaf_held ?new = add_mset (i, e) (leaf_held ?lf)"
    using tagged_push [OF n, of "\<lambda>k. fromStart (fst ?lf) + of_nat k" e] row(2) by (simp add: leaf_held_def)
  then have "leaves_held ?s = add_mset (i, e) (leaves_held leaves)"
    unfolding leaves_held_def by (intro sum_list_update_mset k(1)) simp
  ultimately show "\<exists>s'. leaf_put i e leaves = Inr s' \<and> leaves_inv rs s' \<and> leaves_held s' = add_mset (i, e) (leaves_held leaves)" by blast
qed

lemma new_leaves_inv: "\<forall>r \<in> set rs. fromEnd r \<noteq> - 1 \<Longrightarrow> leaves_inv rs (map newNode rs)"
  by (auto simp: leaves_inv_def newNode_def leaf_rows_def comp_def)

lemma new_leaves_held: "leaves_held (map newNode rs) = {#}"
  by (induction rs) (simp_all add: leaves_held_def leaf_held_def newNode_def)

section \<open>The leaves cover the matrix\<close>

definition covers :: "node_range list \<Rightarrow> node_range \<Rightarrow> bool" where
  "covers rs r \<longleftrightarrow> (\<forall>i e. inThisNode r i e \<longrightarrow> list_ex (\<lambda>q. inThisNode q i e) rs)"

text \<open>Everything stays below the bound, so that no sum overflows and the halves are exact.\<close>

definition small :: "nat \<Rightarrow> node_range \<Rightarrow> bool" where
  "small b r \<longleftrightarrow> unat (fromStart r) \<le> 2 ^ 51 + b \<and> unat (fromEnd r) \<le> 2 ^ 51 + b \<and> unat (toStart r) \<le> 2 ^ 51 + b \<and> unat (toEnd r) \<le> 2 ^ 51 + b"

lemma fl_trunc_whole: "0 < snd x \<Longrightarrow> fst x = int n * int (snd x) \<Longrightarrow> fl_trunc x = int n"
  by (cases "n = 0") (simp_all add: fl_trunc_def abs_mult sgn_mult)

lemma u64_of_fl_exact:
  assumes "uint x < 2 ^ p" and p: "0 < p"
  shows "u64_of_fl (fl_of_u64 p x) = Inr x"
proof -
  let ?f = "fl_of_u64 p x"
  note v = fl_of_u64_val [OF assms]
  have "real_of_int (fst ?f) / real (snd ?f) = real (unat x)" using v(1) by (simp only: fl_val_def)
  then have "real_of_int (fst ?f) = real (unat x) * real (snd ?f)" using v(2) by (simp only: divide_eq_eq of_nat_0_less_iff)
  also have "\<dots> = real_of_int (int (unat x) * int (snd ?f))" by (simp only: of_int_mult of_int_of_nat_eq)
  finally have "fst ?f = int (unat x) * int (snd ?f)" by (simp only: of_int_eq_iff)
  then have "fl_trunc ?f = int (unat x)" by (rule fl_trunc_whole [OF v(2)])
  moreover have "int (unat x) < 2 ^ 64" using unsigned_less [of x, where 'a = nat] of_nat_less_iff [of "unat x" "2 ^ 64", where 'a = int] by simp
  ultimately show ?thesis by (simp add: u64_of_fl_def u64_of_int_def)
qed

lemma uint_below: "unat (x :: u64) < 2 ^ p \<Longrightarrow> uint x < 2 ^ p"
  using of_nat_less_iff [of "unat x" "2 ^ p", where 'a = int] by simp

lemma ceil_half_exact:
  assumes "unat x < 2 ^ 53"
  shows "ceil_half x = Inr (x div 2)"
proof -
  have "unat (x div 2) = unat x div 2" by (simp add: unat_div_distrib)
  then have "unat (x div 2) < 2 ^ 53" using assms by simp
  then show ?thesis using u64_of_fl_exact [of "x div 2" double_p] uint_below [of "x div 2" 53] by (simp add: ceil_half_def double_p_def)
qed

lemma half_of_sum:
  assumes "unat a \<le> 2 ^ 51 + b" and "unat e \<le> 2 ^ 51 + b" and "b < 2 ^ 50"
  shows "\<exists>q. ceil_half (a + e) = Inr q \<and> unat q \<le> 2 ^ 51 + b \<and> unat (q + 1) \<le> 2 ^ 51 + Suc b \<and> (\<forall>x. x \<le> q \<or> q + 1 \<le> (x :: u64))"
proof -
  have u: "unat (a + e) = unat a + unat e" using assms by (simp add: unat_word_ariths(1))
  let ?q = "(a + e) div 2"
  have q: "unat ?q = (unat a + unat e) div 2" using u by (simp add: unat_div_distrib)
  have le: "unat ?q \<le> 2 ^ 51 + b" using assms q by simp
  have s: "unat (?q + 1) = unat ?q + 1" using le assms(3) by (simp add: unat_word_ariths(1))
  have "x \<le> ?q \<or> ?q + 1 \<le> x" for x :: u64 using s by (auto simp: word_le_nat_alt)
  moreover have "ceil_half (a + e) = Inr ?q" using u assms by (intro ceil_half_exact) simp
  ultimately show ?thesis using le s by auto
qed

lemma quarter_covers:
  assumes "small b r" and "b < 2 ^ 50" and b': "b' = Suc b"
  shows "\<exists>qs. quarter r = Inr qs \<and> length qs = 4 \<and> covers qs r \<and> (\<forall>q \<in> set qs. small b' q)"
proof -
  obtain fq where f: "ceil_half (fromStart r + fromEnd r) = Inr fq" "unat fq \<le> 2 ^ 51 + b" "unat (fq + 1) \<le> 2 ^ 51 + Suc b"
    "\<And>x. x \<le> fq \<or> fq + 1 \<le> x" using half_of_sum [of "fromStart r" b "fromEnd r"] assms by (auto simp: small_def)
  obtain tq where t: "ceil_half (toStart r + toEnd r) = Inr tq" "unat tq \<le> 2 ^ 51 + b" "unat (tq + 1) \<le> 2 ^ 51 + Suc b"
    "\<And>x. x \<le> tq \<or> tq + 1 \<le> x" using half_of_sum [of "toStart r" b "toEnd r"] assms by (auto simp: small_def)
  let ?qs = "[\<lparr>fromStart = fromStart r, fromEnd = fq, toStart = toStart r, toEnd = tq\<rparr>,
          \<lparr>fromStart = fq + 1, fromEnd = fromEnd r, toStart = toStart r, toEnd = tq\<rparr>,
          \<lparr>fromStart = fromStart r, fromEnd = fq, toStart = tq + 1, toEnd = toEnd r\<rparr>,
          \<lparr>fromStart = fq + 1, fromEnd = fromEnd r, toStart = tq + 1, toEnd = toEnd r\<rparr>]"
  have "quarter r = Inr ?qs" using f(1) t(1) by (simp add: quarter_def)
  moreover have "covers ?qs r" unfolding covers_def
  proof (intro allI impI)
    fix i e
    assume "inThisNode r i e"
    then show "list_ex (\<lambda>q. inThisNode q i e) ?qs" using f(4) [of i] t(4) [of e] by (auto simp: inThisNode_def)
  qed
  moreover have "\<forall>q \<in> set ?qs. small (Suc b) q" using f(2,3) t(2,3) assms(1) by (auto simp: small_def)
  ultimately show ?thesis unfolding b' by auto
qed

primrec node_of :: "Node \<Rightarrow> node_range" where
  "node_of (Node r cs) = r"

definition node_ok :: "Node \<Rightarrow> bool" where
  "node_ok n \<longleftrightarrow> covers (getLeavesInorder n) (node_of n) \<and> (\<forall>l \<in> set (getLeavesInorder n). small 3 l)"

lemma small_mono: "small b r \<Longrightarrow> b \<le> b' \<Longrightarrow> small b' r"
  by (auto simp: small_def)

lemma leaf_ok: "small b r \<Longrightarrow> b \<le> 3 \<Longrightarrow> node_ok (Node r [])"
  using small_mono [of b r 3] by (simp add: node_ok_def covers_def)

lemma covers_children:
  assumes "covers (map node_of cs) r" and "\<forall>n \<in> set cs. node_ok n" and "cs \<noteq> []"
  shows "node_ok (Node r cs)"
proof -
  have "list_ex (\<lambda>q. inThisNode q i e) (concat (map getLeavesInorder cs))" if h: "inThisNode r i e" for i e
  proof -
    obtain n where "n \<in> set cs" "inThisNode (node_of n) i e" using assms(1) h by (auto simp: covers_def list_ex_iff)
    moreover from this assms(2) have "list_ex (\<lambda>q. inThisNode q i e) (getLeavesInorder n)" by (auto simp: node_ok_def covers_def)
    ultimately show ?thesis by (auto simp: list_ex_iff)
  qed
  then show ?thesis using assms(2,3) by (auto simp: node_ok_def covers_def)
qed

lemma one_lt_big: "(1 :: nat) < 2 ^ 50"
  by simp

lemma second_depth_ok:
  assumes "second_depth fd r i = Inr (n, i')" and "small 1 r" and "fd < 4"
  shows "node_ok n \<and> node_of n = r"
proof -
  obtain qs where qs: "quarter r = Inr qs" "length qs = 4" "covers qs r" "\<forall>q \<in> set qs. small 2 q"
    using quarter_covers [OF assms(2) one_lt_big, of 2] by auto
  have p: "qs ! fd \<in> set qs" using qs(2) assms(3) by simp
  then obtain four where four: "quarter (qs ! fd) = Inr four" "length four = 4" "covers four (qs ! fd)" "\<forall>q \<in> set four. small 3 q"
    using quarter_covers [of 2 "qs ! fd" 3] qs(4) by auto
  let ?lf = "map (\<lambda>q. Node q [])"
  have "\<exists>flags :: u64 list. n = Node r ((?lf qs)[fd := Node (qs ! fd) (concat (map (\<lambda>f. if f = 1 then ?lf four else []) flags))])"
    using assms(1,3) qs(1,2) four(1) by (cases "read_four i") (auto simp: second_depth_def Let_def)
  then obtain flags :: "u64 list" where fl: "n = Node r ((?lf qs)[fd := Node (qs ! fd) (concat (map (\<lambda>f. if f = 1 then ?lf four else []) flags))])" by blast
  define grand where "grand = concat (map (\<lambda>f. if f = (1 :: u64) then ?lf four else []) flags)"
  have g: "node_ok (Node (qs ! fd) grand)"
  proof (cases "1 \<in> set flags")
    case True
    have sub: "set (?lf four) \<subseteq> set grand" "set grand \<subseteq> set (?lf four)" using True by (auto simp: grand_def)
    have "four \<noteq> []" using four(2) by auto
    then have ne: "grand \<noteq> []" using sub by auto
    have "covers (map node_of grand) (qs ! fd)" unfolding covers_def
    proof (intro allI impI)
      fix i e
      assume "inThisNode (qs ! fd) i e"
      then obtain q where "q \<in> set four" "inThisNode q i e" using four(3) by (auto simp: covers_def list_ex_iff)
      then show "list_ex (\<lambda>q. inThisNode q i e) (map node_of grand)" using sub(1) by (auto simp: list_ex_iff intro!: bexI [of _ "Node q []"])
    qed
    moreover have "\<forall>n \<in> set grand. node_ok n" using sub(2) four(4) leaf_ok [of 3] by auto
    ultimately show ?thesis using ne by (rule covers_children)
  next
    case False
    then have "grand = []" by (auto simp: grand_def)
    then show ?thesis using leaf_ok [of 2 "qs ! fd"] qs(4) p by simp
  qed
  let ?cs = "(?lf qs)[fd := Node (qs ! fd) grand]"
  have "map node_of ?cs = qs" using qs(2) assms(3) by (simp add: map_update comp_def list_update_same_conv)
  moreover have "\<forall>n \<in> set ?cs. node_ok n" using g leaf_ok [of 2] qs(4) by (auto dest!: set_update_subset_insert [THEN subsetD])
  moreover have "?cs \<noteq> []" using qs(2) by auto
  ultimately have "node_ok (Node r ?cs)" using qs(3) by (intro covers_children) simp_all
  then show ?thesis using fl by (simp add: grand_def)
qed

lemma first_depth_ok:
  assumes "first_depth bs i = Inr ns" and "\<forall>b \<in> set bs. fst b < 4 \<and> small 1 (snd (snd b))"
  shows "map node_of ns = map (\<lambda>b. snd (snd b)) bs \<and> (\<forall>n \<in> set ns. node_ok n)"
  using assms
proof (induction bs arbitrary: i ns)
  case (Cons b bs)
  obtain fd flag r where b: "b = (fd, flag, r)" by (cases b)
  from Cons.prems(1) b obtain n i' ns' where n: "(if flag = 1 then second_depth fd r i else Inr (Node r [], i)) = Inr (n, i')"
    "first_depth bs i' = Inr ns'" "ns = n # ns'" by (auto simp: bindE_eq_Inr)
  have "node_ok n \<and> node_of n = r"
  proof (cases "flag = 1")
    case True
    then show ?thesis using n(1) Cons.prems(2) b second_depth_ok by simp
  next
    case False
    then show ?thesis using n(1) Cons.prems(2) b leaf_ok [of 1 r] by auto
  qed
  then show ?case using Cons.IH [OF n(2)] Cons.prems(2) n(3) b by simp
qed simp

lemma whole_small: "unat v \<le> 2 ^ 51 \<Longrightarrow> small 0 (whole v)"
  by (simp add: small_def whole_def)

lemma repeatE_length: "repeatE n f s = Inr (xs, s') \<Longrightarrow> length xs = n"
  by (induction n arbitrary: s xs) (auto simp: bindE_eq_Inr)

lemma build_tree_covers:
  assumes "build_tree v config = Inr tree" and "unat v \<le> 2 ^ 51"
  shows "covers (getLeavesInorder tree) (whole v) \<and> (\<forall>l \<in> set (getLeavesInorder tree). fromEnd l \<noteq> - 1)"
proof -
  have "node_ok tree \<and> node_of tree = whole v"
  proof -
    obtain flags i where fl: "read_four (config_stream config) = Inr (flags, i)"
      using assms(1) by (cases "read_four (config_stream config)") (simp_all add: build_tree_def, force)
    have root: "(if 1 \<in> set flags then bindE (quarter (whole v)) (\<lambda>qs. bindE (first_depth (zip [0 ..< 4] (zip flags qs)) i) (\<lambda>ns. Inr (Node (whole v) ns)))
         else Inr (Node (whole v) [])) = Inr tree" using assms(1) by (simp add: build_tree_def fl)
    have len: "length flags = 4" by (rule repeatE_length [OF fl [unfolded read_four_def]])
    obtain qs where qs: "quarter (whole v) = Inr qs" "length qs = 4" "covers qs (whole v)" "\<forall>q \<in> set qs. small 1 q"
      using quarter_covers [OF whole_small [OF assms(2)], of 1] by auto
    show ?thesis
    proof (cases "1 \<in> set flags")
      case True
      then obtain ns where ns: "first_depth (zip [0 ..< 4] (zip flags qs)) i = Inr ns" "tree = Node (whole v) ns"
        using root qs(1) by (auto simp: bindE_eq_Inr)
      have "\<forall>b \<in> set (zip [0 ..< 4] (zip flags qs)). fst b < 4 \<and> small 1 (snd (snd b))"
        using qs(4) by (auto simp: in_set_zip)
      from first_depth_ok [OF ns(1) this] have m: "map node_of ns = qs" "\<forall>n \<in> set ns. node_ok n"
        using len qs(2) by (simp_all flip: map_map [unfolded comp_def])
      then have "ns \<noteq> []" using qs(2) by auto
      then show ?thesis using covers_children [of ns "whole v"] m qs(3) ns(2) by simp
    next
      case False
      then show ?thesis using root leaf_ok [OF whole_small [OF assms(2)]] by auto
    qed
  qed
  moreover have "fromEnd l \<noteq> - 1" if "small 3 l" for l using that by (auto simp: small_def unsigned_minus_1_eq_mask mask_eq_exp_minus_1)
  ultimately show ?thesis by (auto simp: node_ok_def)
qed

lemma undirected_tree_covers:
  assumes "undirected_tree v config = Inr tree" and "unat v \<le> 2 ^ 51"
  shows "covers (getLeavesInorder tree) (whole v) \<and> (\<forall>l \<in> set (getLeavesInorder tree). fromEnd l \<noteq> - 1)"
proof -
  obtain q where q: "ceil_half v = Inr q" "unat q \<le> 2 ^ 51" "\<And>x. x \<le> q \<or> q + 1 \<le> x"
    using half_of_sum [of 0 0 v] assms(2) by auto
  obtain flags i where fl: "read_four (config_stream config) = Inr (flags, i)"
    using assms(1) by (cases "read_four (config_stream config)") (simp_all add: undirected_tree_def, force)
  have big: "w \<noteq> - 1" if "unat w \<le> 2 ^ 51" for w :: u64 using that by (auto simp: unsigned_minus_1_eq_mask mask_eq_exp_minus_1)
  show ?thesis
  proof (cases "1 \<in> set flags")
    case True
    let ?ls = "[\<lparr>fromStart = 0, fromEnd = q, toStart = 0, toEnd = q\<rparr>, \<lparr>fromStart = q + 1, fromEnd = v, toStart = 0, toEnd = v\<rparr>,
        \<lparr>fromStart = 0, fromEnd = q, toStart = q + 1, toEnd = v\<rparr>]"
    have "getLeavesInorder tree = ?ls" using assms(1) True q(1) by (auto simp: undirected_tree_def fl)
    moreover have "covers ?ls (whole v)" unfolding covers_def
    proof (intro allI impI)
      fix i e
      assume "inThisNode (whole v) i e"
      then show "list_ex (\<lambda>q. inThisNode q i e) ?ls" using q(3) [of i] q(3) [of e] by (auto simp: inThisNode_def whole_def)
    qed
    ultimately show ?thesis using big [OF q(2)] big [OF assms(2)] by simp
  next
    case False
    then have "getLeavesInorder tree = [whole v]" using assms(1) by (auto simp: undirected_tree_def fl)
    then show ?thesis using big [OF assms(2)] by (simp add: covers_def whole_def)
  qed
qed

section \<open>Rescheduling is a stable sort\<close>

lemma blocks_filter:
  "distinct ks \<Longrightarrow> filter (\<lambda>p. f p = x) (concat (map (\<lambda>k. filter (\<lambda>p. f p = k) xs) ks)) = (if x \<in> set ks then filter (\<lambda>p. f p = x) xs else [])"
proof (induction ks)
  case (Cons k ks)
  have "filter (\<lambda>p. f p = x) (filter (\<lambda>p. f p = k) xs) = (if x = k then filter (\<lambda>p. f p = x) xs else [])"
    by (induction xs) auto
  then show ?case using Cons by auto
qed simp

lemma blocks_mset:
  "distinct ks \<Longrightarrow> mset (concat (map (\<lambda>k. filter (\<lambda>p. f p = k) xs) ks)) = filter_mset (\<lambda>p. f p \<in> set ks) (mset xs)"
proof (induction ks)
  case (Cons k ks)
  have "filter_mset (\<lambda>p. f p \<in> set (k # ks)) M = filter_mset (\<lambda>p. f p = k) M + filter_mset (\<lambda>p. f p \<in> set ks) M" for M
    using Cons.prems by (intro multiset_eqI) auto
  then show ?case using Cons by simp
qed simp

lemma blocks_sorted: "sorted ks \<Longrightarrow> sorted (map f (concat (map (\<lambda>k. filter (\<lambda>p. f p = k) xs) ks)))"
proof (induction ks)
  case (Cons k ks)
  have "sorted (map f (filter (\<lambda>p. f p = k) xs))" by (induction xs) auto
  then show ?case using Cons by (auto simp: sorted_append)
qed simp

lemma schedLeaves_sort_key: "schedLeaves leaves = sort_key toStart leaves"
proof -
  let ?ks = "sort (remdups (map toStart leaves))"
  have d: "distinct ?ks" "sorted ?ks" "set ?ks = toStart ` set leaves" by simp_all
  have "sort_key toStart leaves = concat (map (\<lambda>x. filter (\<lambda>p. toStart p = x) leaves) ?ks)"
  proof (rule properties_for_sort_key)
    have "filter_mset (\<lambda>p. toStart p \<in> set ?ks) (mset leaves) = mset leaves" unfolding d(3) by (simp add: filter_mset_eq_conv)
    then show "mset (concat (map (\<lambda>x. filter (\<lambda>p. toStart p = x) leaves) ?ks)) = mset leaves" using blocks_mset [OF d(1)] by metis
  next
    fix k
    assume "k \<in> set (concat (map (\<lambda>x. filter (\<lambda>p. toStart p = x) leaves) ?ks))"
    then have "toStart k \<in> set ?ks" by auto
    then show "filter (\<lambda>x. toStart k = toStart x) (concat (map (\<lambda>x. filter (\<lambda>p. toStart p = x) leaves) ?ks)) = filter (\<lambda>x. toStart k = toStart x) leaves"
      using blocks_filter [OF d(1), of toStart "toStart k" leaves] by (simp only: eq_commute [of "toStart k"] if_True)
  qed (rule blocks_sorted [OF d(2)])
  then show ?thesis by (simp add: schedLeaves_def Let_def)
qed

lemma covers_set: "set rs = set rs' \<Longrightarrow> covers rs r = covers rs' r"
  by (simp add: covers_def list_ex_iff)

section \<open>The programs\<close>

lemma graph_edges_in:
  assumes "p \<in> set (graph_edges adj)" and "\<forall>r \<in> set adj. \<forall>e \<in> set r. unat e < length adj" and "length adj < 2 ^ 64"
  shows "unat (fst p) < length adj \<and> unat (snd p) < length adj"
proof -
  obtain i where i: "i < length adj" "fst p = of_nat i" "snd p \<in> set (adj ! i)" using assms(1) by (auto simp: graph_edges_def)
  then have "unat (fst p) = i" using assms(3) by (simp add: unsigned_of_nat take_bit_nat_eq_self)
  moreover have "adj ! i \<in> set adj" using i(1) by simp
  ultimately show ?thesis using i assms(2) by auto
qed

text \<open>Any of the tiling programs, once its leaves cover the matrix.\<close>

lemma tile_leaves_keep:
  assumes "covers rs (whole v)" and "\<forall>r \<in> set rs. fromEnd r \<noteq> - 1" and "adj \<noteq> []" and "unat v = length adj"
    and "\<forall>r \<in> set adj. length r < 2 ^ 64" and "\<forall>r \<in> set adj. \<forall>e \<in> set r. unat e < length adj"
  shows "\<exists>leaves. tile_leaves rs v (Some (print_csr adj)) = Inr (print_csr (concat (map snd leaves)), xw_text (length (concat (map snd leaves))))
    \<and> leaves_inv rs leaves \<and> leaves_held leaves = mset (graph_edges adj)"
proof -
  have l64: "length adj < 2 ^ 64" using assms(4) unsigned_less [of v, where 'a = nat] by simp
  have "\<forall>p \<in> set (graph_edges adj). list_ex (\<lambda>r. inThisNode r (fst p) (snd p)) rs"
  proof
    fix p
    assume "p \<in> set (graph_edges adj)"
    from graph_edges_in [OF this assms(6) l64] have "inThisNode (whole v) (fst p) (snd p)"
      using assms(4) by (simp add: inThisNode_def whole_def word_le_nat_alt)
    then show "list_ex (\<lambda>r. inThisNode r (fst p) (snd p)) rs" using assms(1) by (simp add: covers_def)
  qed
  from leaves.distribute_keeps [OF new_leaves_inv [OF assms(2)] assms(3,5) this] obtain leaves where
    "distribute leaf_put (length adj) (print_csr adj) (map newNode rs) = Inr leaves" "leaves_inv rs leaves"
    "leaves_held leaves = mset (graph_edges adj)" by (auto simp: new_leaves_held)
  then show ?thesis using assms(4) by (intro exI [of _ leaves]) (simp add: tile_leaves_def Let_def)
qed

end
