(* ===== verification/Dyadic.thy ===== *)
theory Dyadic
  imports Rounding
begin

text \<open>
  Sums, differences and comparisons of floating point values, and when they are exact.  A fraction whose
  denominator is a power of two and whose numerator fits the significand is represented exactly, and a
  rounded quotient of integers that fit the significand is cut to the exact quotient.
\<close>

section \<open>Definitions\<close>

definition fl_add :: "nat \<Rightarrow> fl \<Rightarrow> fl \<Rightarrow> fl" where
  "fl_add p x y = fl_round p (fst x * int (snd y) + fst y * int (snd x), snd x * snd y)"

definition fl_sub :: "nat \<Rightarrow> fl \<Rightarrow> fl \<Rightarrow> fl" where
  "fl_sub p x y = fl_round p (fst x * int (snd y) - fst y * int (snd x), snd x * snd y)"

definition fl_less :: "fl \<Rightarrow> fl \<Rightarrow> bool" where
  "fl_less x y \<longleftrightarrow> fst x * int (snd y) < fst y * int (snd x)"

section \<open>Dyadic fractions\<close>

lemma round_half_even_ge:
  assumes "0 < d" and "real k \<le> real n / real d"
  shows "k \<le> round_half_even n d"
proof -
  have "real (k * d) \<le> real n" using assms by (simp add: field_simps)
  then have "k * d \<le> n" by (simp only: of_nat_le_iff)
  then have "k \<le> n div d" using assms(1) by (simp add: less_eq_div_iff_mult_less_eq)
  then show ?thesis by (simp add: round_half_even_def Let_def)
qed

lemma fl_exp_dyadic:
  assumes "0 < n" and "0 < d" and "0 < p" and "real n / real d < 2 ^ p / 2 ^ m"
  shows "fl_exp p n d \<le> - int m"
proof (rule ccontr)
  assume "\<not> fl_exp p n d \<le> - int m"
  then have "(2::real) powr (1 - real m) \<le> 2 powr fl_exp p n d" by (intro powr_mono) linarith+
  then have "2 ^ (p - 1) * 2 powr (1 - real m) \<le> (2 ^ (p - 1) * 2 powr fl_exp p n d :: real)" by (rule mult_left_mono) simp
  also have "\<dots> \<le> real n / real d" by (rule fl_exp_low [OF assms(1-3)])
  finally have "2 ^ (p - 1) * 2 powr (1 - real m) \<le> real n / real d" .
  moreover have "2 ^ (p - 1) * 2 powr (1 - real m) = (2 ^ p / 2 ^ m :: real)"
    using assms(3) by (cases p) (simp_all add: powr_diff powr_realpow)
  ultimately show False using assms(4) by simp
qed

text \<open>Rounding does not pass an integer from above either.\<close>

lemma fl_round_pos_ge:
  assumes "0 < n" and "0 < d" and "0 < p" and "fl_round_pos p n d = (u, v)"
    and "real k \<le> real n / real d" and "real n / real d < 2 ^ p"
  shows "real k \<le> real u / real v"
proof -
  define e where "e = fl_exp p n d"
  obtain a b where ab: "fl_scale e n d = (a, b)" by fastforce
  note sc = fl_scale_val [OF assms(2) ab]
  define s where "s = nat (- e)"
  have "e \<le> 0" using fl_exp_dyadic [OF assms(1-3), of 0] assms(6) by (simp add: e_def)
  then have p2: "2 powr e = 1 / 2 ^ s" by (cases "e = 0") (auto simp: s_def powr_real_of_int inverse_eq_divide)
  have "real (k * 2 ^ s) \<le> real a / real b"
    using mult_right_mono [OF assms(5), of "2 ^ s"] sc(2) by (simp add: p2)
  then have "real (k * 2 ^ s) \<le> real (round_half_even a b)"
    using round_half_even_ge [OF sc(1)] by (simp del: of_nat_mult)
  then have "real k \<le> real (round_half_even a b) / 2 ^ s" by (simp add: le_divide_eq)
  then show ?thesis using fl_round_pos_val(2) [OF assms(1-4)] ab by (simp add: e_def [symmetric] p2)
qed

lemma fl_round_pos_dyadic:
  assumes "0 < n" and "0 < d" and "0 < p" and "fl_round_pos p n d = (u, v)"
    and "real n / real d = real k / 2 ^ m" and "k < 2 ^ p"
  shows "real u / real v = real k / 2 ^ m"
proof -
  obtain a b where ab: "fl_scale (fl_exp p n d) n d = (a, b)" by fastforce
  define s where "s = nat (- fl_exp p n d - int m)"
  note sc = fl_scale_val [OF assms(2) ab]
  have "real k < real (2 ^ p)" using assms(6) by (simp only: of_nat_less_iff)
  then have "real n / real d < 2 ^ p / 2 ^ m" unfolding assms(5) by (intro divide_strict_right_mono) simp_all
  from fl_exp_dyadic [OF assms(1-3) this] have "real_of_int (fl_exp p n d) = - real (m + s)" by (simp add: s_def)
  then have p2: "2 powr fl_exp p n d = 1 / (2 ^ m * 2 ^ s)"
    by (simp only: powr_minus powr_realpow zero_less_numeral power_add inverse_eq_divide)
  have "real a / real b = real (k * 2 ^ s)" using sc(2) assms(5) by (simp add: p2)
  then have "real a = real (k * 2 ^ s * b)" using sc(1) by (simp add: field_simps)
  then have "a = k * 2 ^ s * b" by (simp only: of_nat_eq_iff)
  then have "round_half_even a b = k * 2 ^ s" using sc(1) by (simp add: round_half_even_def Let_def)
  then show ?thesis using fl_round_pos_val(2) [OF assms(1-4) ab] p2 by simp
qed

text \<open>\<open>x\<close> is the value \<open>k / 2\<^sup>m\<close>, exactly.\<close>

definition dyadic :: "nat \<Rightarrow> nat \<Rightarrow> fl \<Rightarrow> bool" where
  "dyadic m k x \<longleftrightarrow> 0 < snd x \<and> 0 \<le> fst x \<and> fl_val x = real k / 2 ^ m"

lemma dyadic_round:
  assumes "0 < snd x" and "fl_val x = real k / 2 ^ m" and "k < 2 ^ p" and "0 < p"
  shows "dyadic m k (fl_round p x)"
proof (cases "k = 0")
  case True
  then have "fst x = 0" using assms by (simp add: fl_val_def)
  then show ?thesis using True by (simp add: fl_round_def fl_round_pos_def dyadic_def fl_val_def)
next
  case False
  obtain u v where uv: "fl_round_pos p (nat \<bar>fst x\<bar>) (snd x) = (u, v)" by fastforce
  have "0 < fl_val x" using False assms(2) by simp
  then have pos: "0 < fst x" using assms(1) by (simp add: fl_val_def zero_less_divide_iff)
  then have n: "0 < nat \<bar>fst x\<bar>" by simp
  have "real (nat \<bar>fst x\<bar>) / real (snd x) = real k / 2 ^ m" using pos assms(2) by (simp add: fl_val_def)
  from fl_round_pos_dyadic [OF n assms(1,4) uv this assms(3)] have "real u / real v = real k / 2 ^ m" .
  moreover obtain a b where "fl_scale (fl_exp p (nat \<bar>fst x\<bar>) (snd x)) (nat \<bar>fst x\<bar>) (snd x) = (a, b)" by fastforce
  then have "0 < v" using fl_round_pos_val(1) [OF n assms(1,4) uv] by simp
  ultimately show ?thesis using pos uv by (simp add: fl_round_def dyadic_def fl_val_def)
qed

lemma dyadic_of_u64: "unat w < 2 ^ p \<Longrightarrow> 0 < p \<Longrightarrow> dyadic m (unat w * 2 ^ m) (fl_of_u64 p w)"
  using fl_of_u64_val [of w p] of_nat_less_iff [of "unat w" "2 ^ p", where 'a = int] by (simp add: dyadic_def)

lemma dyadic_mul:
  assumes "dyadic m j x" and "dyadic n k y" and "j * k < 2 ^ p" and "0 < p"
  shows "dyadic (m + n) (j * k) (fl_mul p x y)"
proof -
  have "fl_val (fst x * fst y, snd x * snd y) = fl_val x * fl_val y" by (simp add: fl_val_def)
  then show ?thesis unfolding fl_mul_def using assms by (intro dyadic_round) (simp_all add: dyadic_def power_add)
qed

lemma dyadic_add:
  assumes "dyadic m j x" and "dyadic m k y" and "j + k < 2 ^ p" and "0 < p"
  shows "dyadic m (j + k) (fl_add p x y)"
proof -
  have "0 < snd x" "0 < snd y" using assms(1,2) by (simp_all add: dyadic_def)
  then have "fl_val (fst x * int (snd y) + fst y * int (snd x), snd x * snd y) = fl_val x + fl_val y"
    by (simp add: fl_val_def add_frac_eq mult.commute)
  then show ?thesis unfolding fl_add_def using assms by (intro dyadic_round) (simp_all add: dyadic_def add_divide_distrib)
qed

lemma dyadic_sub:
  assumes "dyadic m j x" and "dyadic m k y" and "k \<le> j" and "j < 2 ^ p" and "0 < p"
  shows "dyadic m (j - k) (fl_sub p x y)"
proof -
  have "0 < snd x" "0 < snd y" using assms(1,2) by (simp_all add: dyadic_def)
  then have "fl_val (fst x * int (snd y) - fst y * int (snd x), snd x * snd y) = fl_val x - fl_val y"
    by (simp add: fl_val_def diff_frac_eq mult.commute)
  then show ?thesis unfolding fl_sub_def using assms by (intro dyadic_round) (simp_all add: dyadic_def diff_divide_distrib of_nat_diff)
qed

lemma dyadic_less:
  assumes "dyadic m j x" and "dyadic m k y"
  shows "fl_less x y \<longleftrightarrow> j < k"
proof -
  have "0 < snd x" "0 < snd y" using assms by (simp_all add: dyadic_def)
  then have "fl_val x < fl_val y \<longleftrightarrow> real_of_int (fst x * int (snd y)) < real_of_int (fst y * int (snd x))"
    by (simp add: fl_val_def field_simps)
  then have "fl_less x y \<longleftrightarrow> fl_val x < fl_val y" by (simp only: fl_less_def of_int_less_iff)
  then show ?thesis using assms by (simp add: dyadic_def divide_less_cancel)
qed

lemma fl_trunc_floor: "0 < snd x \<Longrightarrow> 0 \<le> fst x \<Longrightarrow> fl_trunc x = \<lfloor>fl_val x\<rfloor>"
  using floor_divide_of_int_eq [of "fst x" "int (snd x)", where ?'a = real] by (cases "fst x = 0") (simp_all add: fl_trunc_def fl_val_def)

lemma dyadic_trunc: "dyadic m k x \<Longrightarrow> fl_trunc x = int (k div 2 ^ m)"
  using fl_trunc_floor [of x] floor_divide_of_nat_eq [of k "2 ^ m", where ?'a = real] by (simp add: dyadic_def)

lemma dyadic_u64: "dyadic m k x \<Longrightarrow> k div 2 ^ m < 2 ^ 64 \<Longrightarrow> u64_of_fl x = Inr (of_nat (k div 2 ^ m))"
  using dyadic_trunc [of m k x] of_nat_less_iff [of "k div 2 ^ m" "2 ^ 64", where 'a = int]
  by (simp add: u64_of_fl_def Let_def u64_of_int_def)


section \<open>Quotients of integers\<close>

lemma fl_div_rounds:
  assumes "dyadic 0 nx x" and "dyadic 0 ny y" and "0 < ny"
  shows "\<exists>n m. 0 < m \<and> real n / real m = real nx / real ny \<and> fl_div p x y = fl_round p (int n, m)"
proof -
  have "0 < fl_val y" using assms(2,3) by (simp add: dyadic_def)
  then have y: "0 < fst y" using assms(2) by (simp add: dyadic_def fl_val_def zero_less_divide_iff)
  define n m where "n = nat (fst x * int (snd y))" and "m = snd x * nat (fst y)"
  have x: "0 \<le> fst x" "0 < snd x" using assms(1) by (simp_all add: dyadic_def)
  have "fl_div p x y = fl_round p (int n, m)" using x y by (simp add: fl_div_def n_def m_def)
  moreover have "0 < m" using x y by (simp add: m_def)
  moreover have "real n / real m = fl_val x / fl_val y" using x y by (simp add: n_def m_def fl_val_def)
  then have "real n / real m = real nx / real ny" using assms(1,2) by (simp add: dyadic_def)
  ultimately show ?thesis by blast
qed

lemma fl_round_nat:
  assumes "0 < n" and "0 < m" and "0 < p"
  shows "\<exists>u v. 0 < v \<and> fl_round_pos p n m = (u, v) \<and> fl_round p (int n, m) = (int u, v)"
proof -
  obtain u v where uv: "fl_round_pos p n m = (u, v)" by fastforce
  obtain a b where "fl_scale (fl_exp p n m) n m = (a, b)" by fastforce
  then have "0 < v" using fl_round_pos_val(1) [OF assms uv] by simp
  then show ?thesis using uv assms(1) by (simp add: fl_round_def)
qed

lemma floor_close:
  fixes q :: real
  assumes "0 < d" and "\<bar>q - real n / real d\<bar> < 1 / real d" and "real (n div d) \<le> q"
  shows "\<lfloor>q\<rfloor> = int (n div d)"
proof -
  have "n < Suc (n div d) * d" using assms(1) dividend_less_div_times [of d n] by (simp add: add.commute)
  then have "n + 1 \<le> Suc (n div d) * d" by simp
  then have "real (n + 1) \<le> real (Suc (n div d) * d)" by (simp only: of_nat_le_iff)
  then have "(real n + 1) / real d \<le> real (n div d) + 1" using assms(1) by (simp add: divide_le_eq algebra_simps)
  then have "q < real (n div d) + 1" using assms(2) by (simp add: add_divide_distrib abs_less_iff)
  then show ?thesis using assms(3) by (simp add: floor_eq_iff)
qed

text \<open>The rounded quotient, cut: the quotient.\<close>

lemma fl_div_spec:
  assumes "dyadic 0 nx x" and "dyadic 0 ny y" and "nx < 2 ^ p" and "0 < ny" and "0 < p"
  shows "0 < snd (fl_div p x y) \<and> 0 \<le> fst (fl_div p x y) \<and> \<lfloor>fl_val (fl_div p x y)\<rfloor> = int (nx div ny) \<and> (nx \<le> ny \<longrightarrow> fl_val (fl_div p x y) \<le> 1)"
proof -
  let ?r = "fl_div p x y"
  obtain n m where nm: "0 < m" "real n / real m = real nx / real ny" "?r = fl_round p (int n, m)"
    using fl_div_rounds [OF assms(1,2,4)] by blast
  show ?thesis
  proof (cases "n = 0")
    case True
    then have "nx = 0" using nm(2) assms(4) by simp
    then show ?thesis using True nm(3) by (simp add: fl_round_def fl_round_pos_def fl_val_def)
  next
    case False
    then obtain u v where uv: "0 < v" "fl_round_pos p n m = (u, v)" "?r = (int u, v)" using fl_round_nat [of n m p] nm assms(5) by auto
    have "real nx < real (2 ^ p)" using assms(3) by (simp only: of_nat_less_iff)
    then have xs: "real nx < 2 ^ p" by simp
    have "real nx / real ny / 2 ^ p < 1 / real ny" using xs assms(4) by (simp add: field_simps)
    then have close: "\<bar>real u / real v - real nx / real ny\<bar> < 1 / real ny"
      using fl_round_pos_err [OF _ nm(1) assms(5) uv(2)] False nm(2) by simp
    have "real nx / real ny \<le> real nx" using assms(4) by (simp add: divide_le_eq mult_le_cancel_left1)
    then have lt: "real n / real m < 2 ^ p" using xs nm(2) by linarith
    have "real (nx div ny) \<le> real n / real m" unfolding nm(2) by (rule of_nat_div_le_of_nat)
    then have "real (nx div ny) \<le> real u / real v" using lt fl_round_pos_ge [OF _ nm(1) assms(5) uv(2)] False by blast
    from floor_close [OF assms(4) close this] have "\<lfloor>fl_val ?r\<rfloor> = int (nx div ny)" using uv by (simp add: fl_val_def)
    moreover have "real u / real v \<le> real 1" if "nx \<le> ny"
      using that assms(4) by (intro fl_round_pos_le [OF _ nm(1) assms(5) uv(2) _ lt]) (use False nm(2) in simp_all)
    ultimately show ?thesis using uv by (simp add: fl_val_def)
  qed
qed

lemma fl_div_u64:
  assumes "dyadic 0 nx x" and "dyadic 0 ny y" and "nx < 2 ^ p" and "0 < ny" and "0 < p" and "nx < 2 ^ 64"
  shows "u64_of_fl (fl_div p x y) = Inr (of_nat (nx div ny))"
proof -
  note t = fl_div_spec [OF assms(1-5)]
  have "nx div ny < 2 ^ 64" using assms(6) by (rule le_less_trans [OF div_le_dividend])
  then have "int (nx div ny) < 2 ^ 64" using of_nat_less_iff [of "nx div ny" "2 ^ 64", where 'a = int] by simp
  then show ?thesis using fl_trunc_floor [of "fl_div p x y"] t by (simp add: u64_of_fl_def Let_def u64_of_int_def)
qed

text \<open>A difference that is at most \<open>-1\<close> is not converted.\<close>

lemma fl_sub_negative:
  assumes "0 < snd x" and "0 \<le> fst x" and "fl_val x \<le> 1" and "1 < p"
  shows "u64_of_fl (fl_sub p x (2, 1)) = Inl UB_Conversion"
proof -
  define n where "n = nat (2 * int (snd x) - fst x)"
  have "real_of_int (fst x) \<le> real_of_int (int (snd x))" using assms(1,3) by (simp add: fl_val_def divide_le_eq)
  then have le: "fst x \<le> int (snd x)" by (simp only: of_int_le_iff)
  then have n: "0 < n" "fst x - 2 * int (snd x) = - int n" "snd x \<le> n" "n \<le> 2 * snd x" using assms(1,2) by (simp_all add: n_def)
  obtain u v where uv: "0 < v" "fl_round_pos p n (snd x) = (u, v)" using fl_round_nat [OF n(1) assms(1), of p] assms(4) by auto
  have "real (snd x) \<le> real n" "real n \<le> real (2 * snd x)" using n(3,4) by (simp_all only: of_nat_le_iff)
  then have q: "1 \<le> real n / real (snd x)" "real n / real (snd x) \<le> 2" using assms(1) by (simp_all add: le_divide_eq divide_le_eq)
  have "(2 :: real) ^ 1 < 2 ^ p" using assms(4) by (intro power_strict_increasing) simp_all
  then have "real 1 \<le> real u / real v" using fl_round_pos_ge [OF n(1) assms(1) _ uv(2), of 1] q assms(4) by simp
  then have "real v \<le> real u" using uv(1) by (simp add: le_divide_eq)
  then have "v \<le> u" by (simp only: of_nat_le_iff)
  then have "1 \<le> u div v" using uv(1) by (simp add: less_eq_div_iff_mult_less_eq)
  then have "1 \<le> int u div int v" by (simp flip: zdiv_int)
  moreover have "fl_sub p x (2, 1) = (- int u, v)" using n(1,2) uv(2) by (simp add: fl_sub_def fl_round_def)
  moreover have "0 < u" using \<open>v \<le> u\<close> uv(1) by simp
  ultimately show ?thesis by (simp add: u64_of_fl_def fl_trunc_def)
qed

end
