(* ===== verification/Csr_Dynamic.thy ===== *)
theory Csr_Dynamic
  imports Csr_Tools Dyadic
begin

text \<open>
  The five \<open>vtmake_dynamic\<close> programs of \<open>CSR_converter\<close>: they cut a graph into two by two tiles and one or
  two of these once more, and stack the tiles in one CSR file.  They differ in the row an edge goes to,
  which they compute in \<open>double\<close> (and one quotient in \<open>float\<close>); a conversion of a negative value or of an
  infinity to \<open>uint64_t\<close> is undefined.
\<close>

section \<open>The programs\<close>

abbreviation dbl :: "u64 \<Rightarrow> fl" where
  "dbl w \<equiv> fl_of_u64 double_p w"

abbreviation dmul :: "fl \<Rightarrow> fl \<Rightarrow> fl" where
  "dmul x y \<equiv> fl_mul double_p x y"

abbreviation dadd :: "fl \<Rightarrow> fl \<Rightarrow> fl" where
  "dadd x y \<equiv> fl_add double_p x y"

text \<open>\<open>v * (tile_num+0.5)\<close> with \<open>tile_num = 2\<close>.\<close>

definition tile_rows :: "u64 \<Rightarrow> fl" where
  "tile_rows v = dmul (dbl v) (dadd (dbl 2) (1, 2))"

text \<open>\<open>for (i = 0; i < x; i++) new_csr.push_back(...)\<close>: the counter is compared as a \<open>double\<close>.\<close>

partial_function (option) grow :: "fl \<Rightarrow> u64 \<Rightarrow> u64 list list \<Rightarrow> u64 list list option" where
  "grow x i new_csr = (if fl_less (dbl i) x then grow x (i + 1) (new_csr @ [[]]) else Some new_csr)"

text \<open>\<open>edge / ceil((float)(v_num/2))\<close>: a quotient of \<open>float\<close>s; division by zero gives a NaN or an infinity, which
  no program converts within the language.\<close>

definition half_quot :: "u64 \<Rightarrow> u64 \<Rightarrow> fl result" where
  "half_quot v_num edge =
     (if v_num div 2 = 0 then Inl UB_Conversion
      else Inr (fl_div float_p (fl_of_u64 float_p edge) (fl_ceil (fl_of_u64 float_p (v_num div 2)), 1)))"

text \<open>\<open>if (index == 2) index--;\<close>\<close>

definition clip2 :: "u64 \<Rightarrow> u64" where
  "clip2 index = (if index = 2 then index - 1 else index)"

definition whole_tile :: "u64 \<Rightarrow> u64 \<Rightarrow> u64 result" where
  "whole_tile v_num edge = bindE (checkE (v_num \<noteq> 0) UB_Division) (\<lambda>_. Inr (clip2 (edge div v_num)))"

definition half_tile :: "u64 \<Rightarrow> u64 \<Rightarrow> u64 result" where
  "half_tile v_num edge = bindE (half_quot v_num edge) (\<lambda>q. bindE (u64_of_fl q) (\<lambda>index. Inr (clip2 index)))"

text \<open>\<open>edge / ceil((float)(v_num/2)) - 2\<close>.\<close>

definition right_half_tile :: "u64 \<Rightarrow> u64 \<Rightarrow> u64 result" where
  "right_half_tile v_num edge =
     bindE (half_quot v_num edge) (\<lambda>q. bindE (u64_of_fl (fl_sub float_p q (2, 1))) (\<lambda>index. Inr (clip2 index)))"

text \<open>The row of an edge in the five programs.\<close>

definition vt0_row :: "u64 \<Rightarrow> u64 \<Rightarrow> u64 \<Rightarrow> u64 \<Rightarrow> u64 result" where
  "vt0_row v v_num i edge =
     (if i \<le> v div 2 then
        bindE (half_tile v_num edge) (\<lambda>index.
        if edge \<ge> 2 then u64_of_fl (dadd (dbl i) (dmul (3, 2) (dbl v)))
        else u64_of_fl (dadd (dbl i) (dmul (dmul (1, 2) (dbl v)) (dbl index))))
      else
        bindE (whole_tile v_num edge) (\<lambda>index.
        u64_of_fl (dadd (dadd (dmul (1, 2) (dbl v)) (dbl i)) (dbl (v * index)))))"

definition vt1_row :: "u64 \<Rightarrow> u64 \<Rightarrow> u64 \<Rightarrow> u64 \<Rightarrow> u64 result" where
  "vt1_row v v_num i edge =
     (if i \<le> v div 2 then
        bindE (right_half_tile v_num edge) (\<lambda>index.
        if edge \<ge> v div 2 then u64_of_fl (dadd (dbl (i + v)) (dmul (dmul (1, 2) (dbl v)) (dbl index))) else Inr i)
      else
        bindE (whole_tile v_num edge) (\<lambda>index. u64_of_fl (dadd (dbl i) (dmul (dmul (dbl v) (3, 2)) (dbl index)))))"

definition vt2_row :: "u64 \<Rightarrow> u64 \<Rightarrow> u64 \<Rightarrow> u64 \<Rightarrow> u64 result" where
  "vt2_row v v_num i edge =
     (if i \<le> v div 2 then
        bindE (whole_tile v_num edge) (\<lambda>index. u64_of_fl (dadd (dbl i) (dmul (dmul (3, 2) (dbl v)) (dbl index))))
      else
        bindE (half_tile v_num edge) (\<lambda>index.
        if edge \<ge> v div 2 then u64_of_fl (dadd (dbl i) (dmul (3, 2) (dbl v))) else Inr (i + v div 2 * index)))"

definition vt3_row :: "u64 \<Rightarrow> u64 \<Rightarrow> u64 \<Rightarrow> u64 \<Rightarrow> u64 result" where
  "vt3_row v v_num i edge =
     (if i \<le> v div 2 then bindE (whole_tile v_num edge) (\<lambda>index. Inr (i + v * index))
      else
        bindE (right_half_tile v_num edge) (\<lambda>index.
        if edge \<ge> v div 2 then u64_of_fl (dadd (dbl i) (dmul (3, 2) (dbl v))) else Inr (i + v div 2 * index)))"

definition vt03_row :: "u64 \<Rightarrow> u64 \<Rightarrow> u64 \<Rightarrow> u64 result" where
  "vt03_row v i edge =
     (if i < v div 2 then
        (if edge < v div 4 then Inr i
         else if edge < v div 2 then Inr (i + v div 2)
         else u64_of_fl (dadd (dbl i) (dmul (dbl v) (3, 2))))
      else if i \<ge> v div 2 \<and> i < v * 3 div 4 then
        (if edge < v div 2 then Inr (i + v div 2)
         else if edge < v * 3 div 4 then u64_of_fl (dadd (dbl i) (dmul (dbl v) (3, 2)))
         else Inr (i + v * 2))
      else
        (if edge < v div 2 then Inr (i + v div 2)
         else if edge < v * 3 div 4 then u64_of_fl (dadd (dbl i) (dmul (dbl v) (7, 4)))
         else u64_of_fl (dadd (dbl i) (dmul (dbl v) (9, 4)))))"

definition put_row :: "(u64 \<Rightarrow> u64 \<Rightarrow> u64 result) \<Rightarrow> u64 \<Rightarrow> u64 \<Rightarrow> u64 list list \<Rightarrow> u64 list list result" where
  "put_row row i edge new_csr =
     bindE (row i edge) (\<lambda>k. bindE (vec_get new_csr (unat k)) (\<lambda>r. Inr (new_csr[unat k := r @ [edge]])))"

text \<open>The output: the blank after a row pointer, and after the last edge of a row, is left out at one row only, the
  one the program takes for the last.\<close>

definition print_dynamic :: "u64 result \<Rightarrow> u64 list list \<Rightarrow> string result" where
  "print_dynamic last_row rows =
     bindE (if rows = [] then Inr 0 else last_row) (\<lambda>l.
     Inr (''0 '' @ concat (map (\<lambda>(i, s). u64_text s @ (if of_nat i \<noteq> l then '' '' else [])) (enumerate 0 (sums_from 0 rows))) @ [CHR 0x0A]
       @ concat (map (\<lambda>(i, r). concat (map (\<lambda>(j, e). u64_text e @ (if of_nat i = l \<and> j = length r - 1 then [CHR 0x0A] else '' ''))
             (enumerate 0 r))) (enumerate 0 rows))))"

definition vtmake_dynamic :: "(u64 \<Rightarrow> u64 \<Rightarrow> u64 \<Rightarrow> u64 \<Rightarrow> u64 result) \<Rightarrow> string \<Rightarrow> string option \<Rightarrow> string option result" where
  "vtmake_dynamic row arg1 file =
     bindE (stoull arg1) (\<lambda>v.
     bindE (vt_num v 2) (\<lambda>v_num.
     case file of
       None \<Rightarrow> Inr None
     | Some txt \<Rightarrow>
         bindE (case grow (tile_rows v) 0 [] of None \<Rightarrow> Inl Diverges | Some csr \<Rightarrow> Inr csr) (\<lambda>new_csr.
         bindE (distribute (put_row (row v v_num)) (unat v) txt new_csr) (\<lambda>new_csr'.
         bindE (print_dynamic (u64_of_fl (fl_sub double_p (tile_rows v) (1, 1))) new_csr') (\<lambda>out. Inr (Some out))))))"

definition vtmake_dynamic_vt_0 :: "string \<Rightarrow> string option \<Rightarrow> string option result" where
  "vtmake_dynamic_vt_0 = vtmake_dynamic vt0_row"

definition vtmake_dynamic_vt_1 :: "string \<Rightarrow> string option \<Rightarrow> string option result" where
  "vtmake_dynamic_vt_1 = vtmake_dynamic vt1_row"

definition vtmake_dynamic_vt_2 :: "string \<Rightarrow> string option \<Rightarrow> string option result" where
  "vtmake_dynamic_vt_2 = vtmake_dynamic vt2_row"

definition vtmake_dynamic_vt_3 :: "string \<Rightarrow> string option \<Rightarrow> string option result" where
  "vtmake_dynamic_vt_3 = vtmake_dynamic vt3_row"

definition vtmake_dynamic_vt_0_3 :: "string \<Rightarrow> string option \<Rightarrow> string option result" where
  "vtmake_dynamic_vt_0_3 arg1 file =
     bindE (stoull arg1) (\<lambda>v.
     bindE (vt_num v 2) (\<lambda>_.
     case file of
       None \<Rightarrow> Inr None
     | Some txt \<Rightarrow>
         bindE (distribute (put_row (vt03_row v)) (unat v) txt (replicate (unat (v * 3)) [])) (\<lambda>new_csr.
         bindE (print_dynamic (Inr (v * 3 - 1)) new_csr) (\<lambda>out. Inr (Some out)))))"

section \<open>Rows\<close>

lemma grow_rows:
  assumes "dyadic m k x" and "ceil_div k (2 ^ m) < 2 ^ 53" and "i \<le> ceil_div k (2 ^ m)"
  shows "grow x (of_nat i) csr = Some (csr @ replicate (ceil_div k (2 ^ m) - i) [])"
  using assms(3)
proof (induction "ceil_div k (2 ^ m) - i" arbitrary: i csr)
  case 0
  have i: "i = ceil_div k (2 ^ m)" using 0 by simp
  have u: "unat (of_nat i :: u64) = i" using i assms(2) by (simp add: unsigned_of_nat take_bit_nat_eq_self)
  have "\<not> i * 2 ^ m < k" unfolding i ceil_div_def
    using dividend_less_div_times [of "2 ^ m" "k + 2 ^ m - 1"] by simp
  then have "\<not> fl_less (dbl (of_nat i)) x"
    using dyadic_less [OF dyadic_of_u64 [of "of_nat i" double_p m] assms(1)] u i assms(2) by (simp add: double_p_def)
  then show ?case using i by (subst grow.simps) simp
next
  case (Suc n)
  then have i: "i < ceil_div k (2 ^ m)" by simp
  have u: "unat (of_nat i :: u64) = i" using i assms(2) by (simp add: unsigned_of_nat take_bit_nat_eq_self)
  have "Suc i * 2 ^ m \<le> k + 2 ^ m - 1" using i unfolding ceil_div_def by (metis Suc_leI less_eq_div_iff_mult_less_eq zero_less_numeral zero_less_power)
  then have "i * 2 ^ m < k" using one_le_power [of "2 :: nat" m] by (simp only: mult_Suc) linarith
  then have "fl_less (dbl (of_nat i)) x"
    using dyadic_less [OF dyadic_of_u64 [of "of_nat i" double_p m] assms(1)] u i assms(2) by (simp add: double_p_def)
  then have "grow x (of_nat i) csr = grow x (of_nat (Suc i)) (csr @ [[]])" by (subst grow.simps) (simp add: add.commute)
  also have "\<dots> = Some ((csr @ [[]]) @ replicate (ceil_div k (2 ^ m) - Suc i) [])" using Suc i by (intro Suc.hyps(1)) simp_all
  finally show ?case using i Suc.hyps(2) by (simp add: Suc_diff_Suc [symmetric] flip: replicate_Suc)
qed

lemma tile_rows_dyadic: "unat v < 2 ^ 50 \<Longrightarrow> dyadic 1 (5 * unat v) (tile_rows v)"
proof -
  assume v: "unat v < 2 ^ 50"
  have "dyadic 1 4 (dbl 2)" using dyadic_of_u64 [of 2 double_p 1] by (simp add: double_p_def)
  moreover have "dyadic 1 1 (1, 2)" by (simp add: dyadic_def fl_val_def)
  ultimately have "dyadic 1 5 (dadd (dbl 2) (1, 2))" using dyadic_add [of 1 4 "dbl 2" 1 "(1, 2)" double_p] by (simp add: double_p_def)
  moreover have "dyadic 0 (unat v) (dbl v)" using dyadic_of_u64 [of v double_p 0] v by (simp add: double_p_def)
  ultimately show ?thesis using dyadic_mul [of 0 "unat v" "dbl v" 1 5 _ double_p] v by (simp add: tile_rows_def double_p_def mult.commute)
qed


section \<open>The output of an even number of vertices\<close>

lemma spaced_append: "ts \<noteq> [] \<Longrightarrow> spaced (us @ ts) = concat (map (\<lambda>t. t @ '' '') us) @ spaced ts"
  by (induction us rule: spaced.induct) (cases ts; simp)+

lemma marked_spaced:
  assumes "ts \<noteq> []" and "m + length ts = Suc n"
  shows "concat (map (\<lambda>(j, t). t @ (if j = n then z else '' '')) (enumerate m ts)) = spaced ts @ z"
  using assms
proof (induction ts arbitrary: m)
  case (Cons t ts)
  then show ?case by (cases ts) auto
qed simp

lemma enumerate_map: "enumerate m (map f xs) = map (\<lambda>(j, x). (j, f x)) (enumerate m xs)"
  by (induction xs arbitrary: m) simp_all

lemma unmarked_row:
  "(\<And>j. \<not> P j) \<Longrightarrow> concat (map (\<lambda>(j, e). u64_text e @ (if P j then z else '' '')) (enumerate m r)) = concat (map (\<lambda>e. u64_text e @ '' '') r)"
  by (induction r arbitrary: m) simp_all

lemma unmarked_rows:
  assumes "m + length rows \<le> n"
  shows "concat (map (\<lambda>(i, r). concat (map (\<lambda>(j, e). u64_text e @ (if i = n \<and> Q r j then z else '' '')) (enumerate 0 r))) (enumerate m rows))
    = concat (map (\<lambda>e. u64_text e @ '' '') (concat rows))"
  using assms
proof (induction rows arbitrary: m)
  case (Cons r rows)
  then have "m \<noteq> n" by simp
  then show ?case using Cons.IH [of "Suc m"] Cons.prems unmarked_row [of "\<lambda>j. m = n \<and> Q r j" z 0 r] by simp
qed simp

lemma marked_row:
  assumes "r \<noteq> []"
  shows "concat (map (\<lambda>(j, e). u64_text e @ (if j = length r - 1 then z else '' '')) (enumerate 0 r)) = spaced (map u64_text r) @ z"
  using marked_spaced [of "map u64_text r" 0 "length r - 1" z] assms by (simp add: enumerate_map case_prod_unfold comp_def)

lemma of_nat_small_eq: "i < 2 ^ 64 \<Longrightarrow> j < 2 ^ 64 \<Longrightarrow> (of_nat i :: u64) = of_nat j \<longleftrightarrow> i = j"
  by (auto dest!: arg_cong [of _ _ unat] simp: unsigned_of_nat take_bit_nat_eq_self)

lemma edges_marked:
  assumes "rows \<noteq> []"
  shows "concat (map (\<lambda>(i, r). concat (map (\<lambda>(j, e). u64_text e @ (if i = length rows - 1 \<and> j = length r - 1 then [CHR 0x0A] else '' ''))
    (enumerate 0 r))) (enumerate 0 rows)) = edge_line rows"
proof -
  obtain rs r where rows: "rows = rs @ [r]" using assms by (cases rows rule: rev_cases) auto
  let ?f = "\<lambda>(i, r). concat (map (\<lambda>(j, e). u64_text e @ (if i = length rs \<and> j = length r - 1 then [CHR 0x0A] else '' '')) (enumerate 0 r))"
  have "concat (map ?f (enumerate 0 rows)) = concat (map (\<lambda>e. u64_text e @ '' '') (concat rs)) @ ?f (length rs, r)"
    using unmarked_rows [of 0 rs "length rs" "\<lambda>r j. j = length r - 1" "[CHR 0x0A]"] by (simp add: rows enumerate_append_eq)
  also have "\<dots> = edge_line rows"
  proof (cases "r = []")
    case False
    then show ?thesis using marked_row [OF False, of "[CHR 0x0A]"] spaced_append [of "map u64_text r" "map u64_text (concat rs)"]
      by (simp add: rows edge_line_def comp_def)
  qed (simp add: rows edge_line_def)
  finally show ?thesis by (simp add: rows)
qed

text \<open>When the row taken for the last is the last, the file is a CSR file.\<close>

lemma print_dynamic_csr:
  assumes "length rows = Suc n" and "Suc n < 2 ^ 64"
  shows "print_dynamic (Inr (of_nat n)) rows = Inr (print_csr rows)"
proof -
  have ne: "rows \<noteq> []" using assms(1) by auto
  have e: "i < Suc n \<Longrightarrow> (of_nat i :: u64) = of_nat n \<longleftrightarrow> i = n" for i
    using assms(2) by (intro of_nat_small_eq) simp_all
  have "map (\<lambda>(i, s). u64_text s @ (if of_nat i \<noteq> (of_nat n :: u64) then '' '' else [])) (enumerate 0 (sums_from 0 rows))
    = map (\<lambda>(i, t). t @ (if i = n then [] else '' '')) (enumerate 0 (map u64_text (sums_from 0 rows)))"
    by (rule nth_equalityI) (simp_all add: nth_enumerate_eq e assms(1))
  moreover have "sums_from 0 rows \<noteq> []" using ne length_sums_from [of 0 rows] by (metis length_0_conv)
  ultimately have 1: "concat (map (\<lambda>(i, s). u64_text s @ (if of_nat i \<noteq> (of_nat n :: u64) then '' '' else [])) (enumerate 0 (sums_from 0 rows)))
    = spaced (map u64_text (sums_from 0 rows))"
    using marked_spaced [of "map u64_text (sums_from 0 rows)" 0 n "[]"] assms(1) by simp
  have "map (\<lambda>(i, r). concat (map (\<lambda>(j, e). u64_text e @ (if of_nat i = (of_nat n :: u64) \<and> j = length r - 1 then [CHR 0x0A] else '' ''))
      (enumerate 0 r))) (enumerate 0 rows)
    = map (\<lambda>(i, r). concat (map (\<lambda>(j, e). u64_text e @ (if i = length rows - 1 \<and> j = length r - 1 then [CHR 0x0A] else '' ''))
      (enumerate 0 r))) (enumerate 0 rows)"
    by (rule nth_equalityI) (simp_all add: nth_enumerate_eq e assms(1))
  from arg_cong [OF this, of concat] have 2: "concat (map (\<lambda>(i, r). concat (map (\<lambda>(j, e). u64_text e @ (if of_nat i = (of_nat n :: u64) \<and> j = length r - 1
      then [CHR 0x0A] else '' '')) (enumerate 0 r))) (enumerate 0 rows)) = edge_line rows" unfolding edges_marked [OF ne] .
  show ?thesis unfolding print_dynamic_def print_csr_def using 1 2 ne by simp
qed


section \<open>Placing the edges\<close>

text \<open>What a row function owes: every edge it takes gets an existing row of its source vertex that it fits.\<close>

locale placement =
  fixes row :: "u64 \<Rightarrow> u64 \<Rightarrow> u64 result"
    and n :: nat
    and source :: "nat \<Rightarrow> u64"
    and takes :: "u64 \<Rightarrow> u64 \<Rightarrow> bool"
    and fits :: "nat \<Rightarrow> u64 \<Rightarrow> bool"
  assumes placed: "takes i e \<Longrightarrow> \<exists>k. row i e = Inr k \<and> unat k < n \<and> source (unat k) = i \<and> fits (unat k) e"

sublocale placement \<subseteq> edge_sink "put_row row" "\<lambda>csr. length csr = n \<and> (\<forall>k < n. \<forall>e \<in> set (csr ! k). fits k e)" takes "tagged source"
proof unfold_locales
  fix csr :: "u64 list list" and i e :: u64
  assume inv: "length csr = n \<and> (\<forall>k < n. \<forall>e \<in> set (csr ! k). fits k e)" and "takes i e"
  from placed [OF this(2)] obtain k where k: "row i e = Inr k" "unat k < n" "source (unat k) = i" "fits (unat k) e" by blast
  let ?c = "csr[unat k := csr ! unat k @ [e]]"
  have "put_row row i e csr = Inr ?c" using k inv by (simp add: put_row_def)
  moreover have "\<forall>j < n. \<forall>x \<in> set (?c ! j). fits j x" using inv k by (auto simp: nth_list_update)
  moreover have "tagged source ?c = add_mset (i, e) (tagged source csr)" using tagged_push [of "unat k" csr source e] k inv by simp
  ultimately show "\<exists>s'. put_row row i e csr = Inr s' \<and> (length s' = n \<and> (\<forall>k < n. \<forall>e \<in> set (s' ! k). fits k e)) \<and> tagged source s' = add_mset (i, e) (tagged source csr)"
    using inv by auto
qed

text \<open>An edge that no state takes ends the program.\<close>

lemma put_all_fails:
  assumes "p \<in> set es" and "I s" and keeps: "\<And>q s s'. put (fst q) (snd q) s = Inr s' \<Longrightarrow> I s \<Longrightarrow> I s'"
    and bad: "\<And>s. I s \<Longrightarrow> \<exists>f. put (fst p) (snd p) s = Inl f"
  shows "\<exists>f. put_all put es s = Inl f"
  using assms(1,2)
proof (induction es arbitrary: s)
  case (Cons q es)
  show ?case
  proof (cases "put (fst q) (snd q) s")
    case (Inr s')
    then have "q \<noteq> p" using bad [OF Cons.prems(2)] by auto
    then have "p \<in> set es" using Cons.prems(1) by simp
    from Cons.IH [OF this keeps [OF Inr Cons.prems(2)]] Inr show ?thesis by (simp add: put_all_def)
  qed (simp add: put_all_def)
qed simp

lemma put_row_length: "put_row row i e s = Inr s' \<Longrightarrow> length s' = length s"
  by (auto simp: put_row_def bindE_eq_Inr)

lemma graph_edgesI: "i < length adj \<Longrightarrow> e \<in> set (adj ! i) \<Longrightarrow> (of_nat i, e) \<in> set (graph_edges adj)"
  by (auto simp: graph_edges_def)

section \<open>The arithmetic of the rows\<close>

lemma row_sum:
  assumes "dyadic m a x" and "dyadic m b y" and "a + b < 2 ^ 53"
  shows "u64_of_fl (dadd x y) = Inr (of_nat ((a + b) div 2 ^ m))"
proof -
  have "dyadic m (a + b) (dadd x y)" using assms by (intro dyadic_add) (simp_all add: double_p_def)
  moreover have "(a + b) div 2 ^ m < 2 ^ 64" using assms(3) by (intro le_less_trans [OF div_le_dividend]) simp
  ultimately show ?thesis by (rule dyadic_u64)
qed

lemma dbl_dyadic: "unat w < 2 ^ 53 \<Longrightarrow> dyadic m (unat w * 2 ^ m) (dbl w)"
  by (rule dyadic_of_u64) (simp_all add: double_p_def)

lemma literals: "dyadic 1 1 (1, 2)" "dyadic 1 3 (3, 2)" "dyadic 2 7 (7, 4)" "dyadic 2 9 (9, 4)"
  by (simp_all add: dyadic_def fl_val_def)

lemma dbl_times:
  assumes "dyadic m k x" and "unat w < 2 ^ 53" and "k * unat w < 2 ^ 53"
  shows "dyadic m (k * unat w) (dmul x (dbl w))" and "dyadic m (k * unat w) (dmul (dbl w) x)"
proof -
  have w: "dyadic 0 (unat w) (dbl w)" using dbl_dyadic [OF assms(2), of 0] by simp
  show "dyadic m (k * unat w) (dmul x (dbl w))" using dyadic_mul [OF assms(1) w, of double_p] assms(3) by (simp add: double_p_def)
  show "dyadic m (k * unat w) (dmul (dbl w) x)" using dyadic_mul [OF w assms(1), of double_p] assms(3) by (simp add: double_p_def mult.commute)
qed

lemma half_quot_spec:
  assumes "unat v_num < 2 ^ 24" and "unat e < 2 ^ 24" and "2 \<le> unat v_num"
  shows "\<exists>q. half_quot v_num e = Inr q \<and> 0 < snd q \<and> 0 \<le> fst q \<and> u64_of_fl q = Inr (of_nat (unat e div (unat v_num div 2)))
    \<and> (unat e \<le> unat v_num div 2 \<longrightarrow> fl_val q \<le> 1)"
proof -
  let ?c = "v_num div 2"
  have c: "unat ?c = unat v_num div 2" by (simp add: unat_div_distrib)
  have pos: "0 < unat v_num div 2" using assms(3) by simp
  have "dyadic 0 (unat ?c) (fl_of_u64 float_p ?c)" using dyadic_of_u64 [of ?c float_p 0] c assms(1) by (simp add: float_p_def)
  then have "fl_ceil (fl_of_u64 float_p ?c) = int (unat ?c)" by (intro fl_ceil_unique) (simp_all add: dyadic_def)
  then have y: "dyadic 0 (unat v_num div 2) (fl_ceil (fl_of_u64 float_p ?c), 1)" using c by (simp add: dyadic_def fl_val_def)
  have x: "dyadic 0 (unat e) (fl_of_u64 float_p e)" using dyadic_of_u64 [of e float_p 0] assms(2) by (simp add: float_p_def)
  have "unat e < 2 ^ float_p" "0 < float_p" "unat e < 2 ^ 64" using assms(2) by (simp_all add: float_p_def)
  moreover have "?c \<noteq> 0" using c pos by auto
  ultimately show ?thesis using fl_div_spec [OF x y _ pos] fl_div_u64 [OF x y _ pos] by (simp add: half_quot_def)
qed


section \<open>Even numbers of vertices\<close>

definition halves :: "nat \<Rightarrow> u64 \<Rightarrow> u64 \<Rightarrow> bool" where
  "halves h v v_num \<longleftrightarrow> unat v = 2 * h \<and> unat v_num = h \<and> 2 \<le> h \<and> h < 2 ^ 23"

lemma halves_div: "halves h v v_num \<Longrightarrow> unat (v div 2) = h"
  by (simp add: halves_def unat_div_distrib)

lemma whole_tile_half:
  assumes "halves h v v_num" and "unat e < 2 * h"
  shows "whole_tile v_num e = Inr (if unat e < h then 0 else 1)"
proof -
  have "unat (e div v_num) = unat e div h" using assms(1) by (simp add: unat_div_distrib halves_def)
  moreover have "unat e div h = (if unat e < h then 0 else 1)" using assms(2) by (auto intro: div_nat_eqI)
  ultimately have "of_nat (unat (e div v_num)) = (if unat e < h then 0 else 1 :: u64)" by simp
  then have "e div v_num = (if unat e < h then 0 else 1)" by simp
  moreover have "v_num \<noteq> 0" using assms(1) by (auto simp: halves_def)
  ultimately show ?thesis by (simp add: whole_tile_def clip2_def)
qed

lemma half_tile_half:
  assumes "halves h v v_num" and "unat e < 2 * h"
  shows "half_tile v_num e = Inr (clip2 (of_nat (unat e div (h div 2))))"
proof -
  obtain q where "half_quot v_num e = Inr q" "u64_of_fl q = Inr (of_nat (unat e div (h div 2)))"
    using half_quot_spec [of v_num e] assms by (auto simp: halves_def)
  then show ?thesis by (simp add: half_tile_def)
qed

lemma clip_half:
  assumes "2 \<le> h" and "e < h"
  shows "clip2 (of_nat (e div (h div 2))) = (if e < h div 2 then 0 else 1)"
proof -
  have "0 < h div 2" using assms(1) by simp
  then have lt: "e < 3 * (h div 2)" using assms by linarith
  consider "e < h div 2" | "h div 2 \<le> e" "e < 2 * (h div 2)" | "2 * (h div 2) \<le> e" by linarith
  then show ?thesis
  proof cases
    case 2
    then have "e div (h div 2) = 1" by (intro div_nat_eqI) simp_all
    then show ?thesis using 2 by (simp add: clip2_def)
  next
    case 3
    then have "e div (h div 2) = 2" using lt by (intro div_nat_eqI) simp_all
    then show ?thesis using 3 \<open>0 < h div 2\<close> by (simp add: clip2_def)
  qed (simp add: clip2_def)
qed

text \<open>Row \<open>i\<close> of the block that starts at three halves of the vertices.\<close>

lemma three_halves:
  assumes "halves h v v_num" and "unat i < 2 * h"
  shows "u64_of_fl (dadd (dbl i) (dmul (3, 2) (dbl v))) = Inr (of_nat (unat i + 3 * h))"
    and "u64_of_fl (dadd (dbl i) (dmul (dmul (3, 2) (dbl v)) (dbl 0))) = Inr (of_nat (unat i))"
    and "u64_of_fl (dadd (dbl i) (dmul (dmul (3, 2) (dbl v)) (dbl 1))) = Inr (of_nat (unat i + 3 * h))"
proof -
  have i: "dyadic 1 (2 * unat i) (dbl i)" using dbl_dyadic [of i 1] assms by (simp add: halves_def mult.commute)
  have v: "dyadic 1 (6 * h) (dmul (3, 2) (dbl v))" using dbl_times(1) [OF literals(2), of v] assms(1) by (simp add: halves_def)
  have sm: "2 * unat i + 6 * h < 2 ^ 53" using assms by (simp add: halves_def)
  have d: "(2 * unat i + 6 * h) div 2 = unat i + 3 * h" by simp
  show "u64_of_fl (dadd (dbl i) (dmul (3, 2) (dbl v))) = Inr (of_nat (unat i + 3 * h))"
    using row_sum [OF i v sm] unfolding power_one_right d .
  have "dyadic 1 (6 * h * unat (0 :: u64)) (dmul (dmul (3, 2) (dbl v)) (dbl 0))" "dyadic 1 (6 * h * unat (1 :: u64)) (dmul (dmul (3, 2) (dbl v)) (dbl 1))"
    using assms(1) by (intro dbl_times(1) [OF v]; simp add: halves_def)+
  then have w: "dyadic 1 0 (dmul (dmul (3, 2) (dbl v)) (dbl 0))" "dyadic 1 (6 * h) (dmul (dmul (3, 2) (dbl v)) (dbl 1))" by simp_all
  show "u64_of_fl (dadd (dbl i) (dmul (dmul (3, 2) (dbl v)) (dbl 0))) = Inr (of_nat (unat i))"
    using row_sum [OF i w(1)] sm by simp
  show "u64_of_fl (dadd (dbl i) (dmul (dmul (3, 2) (dbl v)) (dbl 1))) = Inr (of_nat (unat i + 3 * h))"
    using row_sum [OF i w(2) sm] unfolding power_one_right d .
qed

text \<open>The vertex of a row: the left tiles take the first three halves of the rows, the lower left one twice.\<close>

definition vt_source :: "nat \<Rightarrow> nat \<Rightarrow> u64" where
  "vt_source h k = of_nat (if k < 2 * h then k else if k < 3 * h then k - h else k - 3 * h)"

text \<open>Program 2 cuts the lower left tile.\<close>

definition vt2_fits :: "nat \<Rightarrow> nat \<Rightarrow> u64 \<Rightarrow> bool" where
  "vt2_fits h k e \<longleftrightarrow>
     (if k \<le> h then unat e < h else if k < 2 * h then unat e < h div 2
      else if k < 3 * h then h div 2 \<le> unat e \<and> unat e < h else h \<le> unat e)"

lemma vt2_row_cases:
  assumes "halves h v v_num" and "unat i < 2 * h" and "unat e < 2 * h"
  shows "vt2_row v v_num i e = Inr (of_nat
    (if h \<le> unat e then unat i + 3 * h else if unat i \<le> h \<or> unat e < h div 2 then unat i else unat i + h))"
proof -
  have le: "i \<le> v div 2 \<longleftrightarrow> unat i \<le> h" "e \<ge> v div 2 \<longleftrightarrow> h \<le> unat e" using halves_div [OF assms(1)] by (simp_all add: word_le_nat_alt)
  have vd: "v div 2 = of_nat h" using arg_cong [OF halves_div [OF assms(1)], of "of_nat :: nat \<Rightarrow> u64"] by simp
  note t = three_halves [OF assms(1,2)]
  show ?thesis
  proof (cases "unat i \<le> h")
    case True
    then show ?thesis using t whole_tile_half [OF assms(1,3)] le by (simp add: vt2_row_def del: of_nat_add)
  next
    case False
    have "clip2 (of_nat (unat e div (h div 2))) = (if unat e < h div 2 then 0 else 1)" if "unat e < h"
      using clip_half [of h "unat e"] that assms(1) by (simp add: halves_def)
    then show ?thesis using False t(1) half_tile_half [OF assms(1,3)] le vd by (simp add: vt2_row_def)
  qed
qed

interpretation vt2: placement "vt2_row v v_num" "5 * h" "vt_source h" "\<lambda>i e. halves h v v_num \<and> unat i < 2 * h \<and> unat e < 2 * h" "vt2_fits h" for v v_num h
proof unfold_locales
  fix i e :: u64
  assume "halves h v v_num \<and> unat i < 2 * h \<and> unat e < 2 * h"
  then have h: "halves h v v_num" "unat i < 2 * h" "unat e < 2 * h" by simp_all
  let ?k = "if h \<le> unat e then unat i + 3 * h else if unat i \<le> h \<or> unat e < h div 2 then unat i else unat i + h"
  have "?k < 2 ^ 64" using h by (simp add: halves_def)
  then have "unat (of_nat ?k :: u64) = ?k" by (rule unat_small)
  moreover have "?k < 5 * h" "vt_source h ?k = i" "vt2_fits h ?k e" using h by (auto simp: vt_source_def vt2_fits_def halves_def)
  ultimately show "\<exists>k. vt2_row v v_num i e = Inr k \<and> unat k < 5 * h \<and> vt_source h (unat k) = i \<and> vt2_fits h (unat k) e"
    using vt2_row_cases [OF h] by (intro exI [of _ "of_nat ?k"]) simp
qed


text \<open>Program 0 is meant to cut the upper left tile; it asks for \<open>edge >= 2\<close>.\<close>

definition vt0_fits :: "nat \<Rightarrow> nat \<Rightarrow> u64 \<Rightarrow> bool" where
  "vt0_fits h k e \<longleftrightarrow> (if k \<le> h then unat e < 2 else if k < 3 * h then unat e < h else if k \<le> 4 * h then 2 \<le> unat e else h \<le> unat e)"

lemma vt0_row_cases:
  assumes "halves h v v_num" and "4 \<le> h" and "unat i < 2 * h" and "unat e < 2 * h"
  shows "vt0_row v v_num i e = Inr (of_nat
    (if unat i \<le> h then (if 2 \<le> unat e then unat i + 3 * h else unat i) else if unat e < h then unat i + h else unat i + 3 * h))"
proof -
  have le: "i \<le> v div 2 \<longleftrightarrow> unat i \<le> h" "e \<ge> 2 \<longleftrightarrow> 2 \<le> unat e" using halves_div [OF assms(1)] by (simp_all add: word_le_nat_alt)
  have i: "dyadic 1 (2 * unat i) (dbl i)" using dbl_dyadic [of i 1] assms by (simp add: halves_def mult.commute)
  have v: "dyadic 1 (2 * h) (dmul (1, 2) (dbl v))" using dbl_times(1) [OF literals(1), of v] assms(1) by (simp add: halves_def)
  show ?thesis
  proof (cases "unat i \<le> h")
    case True
    have "unat e div (h div 2) = 0" if "unat e < 2" using that assms(2) by simp
    then have tile: "half_tile v_num e = Inr 0" if "unat e < 2" using that half_tile_half [OF assms(1,4)] by (simp add: clip2_def)
    have "dyadic 1 (2 * h * unat (0 :: u64)) (dmul (dmul (1, 2) (dbl v)) (dbl 0))" by (rule dbl_times(1) [OF v]) simp_all
    then have "u64_of_fl (dadd (dbl i) (dmul (dmul (1, 2) (dbl v)) (dbl 0))) = Inr (of_nat (unat i))"
      using row_sum [OF i, of 0] assms by (simp add: halves_def)
    then show ?thesis using True le tile half_tile_half [OF assms(1,4)] three_halves(1) [OF assms(1,3)] by (auto simp: vt0_row_def)
  next
    case False
    let ?idx = "if unat e < h then 0 else 1 :: u64" and ?n = "if unat e < h then 0 else 1 :: nat"
    have a: "dyadic 1 (2 * h + 2 * unat i) (dadd (dmul (1, 2) (dbl v)) (dbl i))"
      using v i assms by (intro dyadic_add) (simp_all add: double_p_def halves_def)
    have b: "dyadic 1 (4 * h * ?n) (dbl (v * ?idx))" using dbl_dyadic [of v 1] dbl_dyadic [of 0 1] assms(1) by (simp add: halves_def)
    have d: "(2 * h + 2 * unat i + 4 * h * ?n) div 2 = (if unat e < h then unat i + h else unat i + 3 * h)" by auto
    have "2 * h + 2 * unat i + 4 * h * ?n < 2 ^ 53" using assms by (simp add: halves_def)
    from row_sum [OF a b this] have "u64_of_fl (dadd (dadd (dmul (1, 2) (dbl v)) (dbl i)) (dbl (v * ?idx)))
        = Inr (of_nat (if unat e < h then unat i + h else unat i + 3 * h))" unfolding power_one_right d .
    then show ?thesis using False le whole_tile_half [OF assms(1,4)] by (simp add: vt0_row_def)
  qed
qed

interpretation vt0: placement "vt0_row v v_num" "5 * h" "vt_source h" "\<lambda>i e. halves h v v_num \<and> 4 \<le> h \<and> unat i < 2 * h \<and> unat e < 2 * h" "vt0_fits h"
  for v v_num h
proof unfold_locales
  fix i e :: u64
  assume "halves h v v_num \<and> 4 \<le> h \<and> unat i < 2 * h \<and> unat e < 2 * h"
  then have h: "halves h v v_num" "4 \<le> h" "unat i < 2 * h" "unat e < 2 * h" by simp_all
  let ?k = "if unat i \<le> h then (if 2 \<le> unat e then unat i + 3 * h else unat i) else if unat e < h then unat i + h else unat i + 3 * h"
  have "?k < 2 ^ 64" using h by (simp add: halves_def)
  then have "unat (of_nat ?k :: u64) = ?k" by (rule unat_small)
  moreover have "?k < 5 * h" "vt_source h ?k = i" "vt0_fits h ?k e" using h by (auto simp: vt_source_def vt0_fits_def halves_def)
  ultimately show "\<exists>k. vt0_row v v_num i e = Inr k \<and> unat k < 5 * h \<and> vt_source h (unat k) = i \<and> vt0_fits h (unat k) e"
    using vt0_row_cases [OF h] by (intro exI [of _ "of_nat ?k"]) simp
qed

section \<open>The programs on a graph\<close>

lemma dynamic_program:
  assumes "length adj = n" and "0 < n" and "n < 2 ^ 24" and "\<forall>r \<in> set adj. length r < 2 ^ 64"
  shows "\<exists>v_num. unat v_num = ceil_div n 2 \<and> vtmake_dynamic row (dec_string n) (Some (print_csr adj)) =
     bindE (put_all (put_row (row (of_nat n) v_num)) (graph_edges adj) (replicate (ceil_div (5 * n) 2) [])) (\<lambda>new_csr.
     bindE (print_dynamic (Inr (of_nat ((5 * n - 2) div 2))) new_csr) (\<lambda>out. Inr (Some out)))"
proof -
  let ?v = "of_nat n :: u64"
  have v: "unat ?v = n" using assms(3) by (simp add: unat_small)
  obtain v_num where vn: "vt_num ?v 2 = Inr v_num" "unat v_num = ceil_div n 2" using vt_num_ok [of ?v 2] v assms(2,3) by auto
  have t: "dyadic 1 (5 * n) (tile_rows ?v)" using tile_rows_dyadic [of ?v] v assms(3) by simp
  have "ceil_div (5 * n) 2 \<le> 5 * n" by (rule ceil_div_le) simp
  then have g: "grow (tile_rows ?v) 0 [] = Some (replicate (ceil_div (5 * n) 2) [])" using grow_rows [OF t, of 0 "[]"] assms(3) by simp
  have "dyadic 1 2 (1, 1)" by (simp add: dyadic_def fl_val_def)
  then have "dyadic 1 (5 * n - 2) (fl_sub double_p (tile_rows ?v) (1, 1))" using assms(2,3) by (intro dyadic_sub [OF t]) (simp_all add: double_p_def)
  then have "u64_of_fl (fl_sub double_p (tile_rows ?v) (1, 1)) = Inr (of_nat ((5 * n - 2) div 2))"
    using dyadic_u64 [of 1 "5 * n - 2"] assms(3) unfolding power_one_right by simp
  moreover have "stoull (dec_string n) = Inr ?v" using assms(3) by (simp add: stoull_dec)
  moreover have "adj \<noteq> []" using assms(1,2) by auto
  note distribute_graph [OF this assms(4), of "put_row (row ?v v_num)"]
  ultimately show ?thesis using vn v g assms(1) by (intro exI [of _ v_num]) (simp add: vtmake_dynamic_def)
qed

text \<open>An edge without a row ends the program without a file.\<close>

lemma dynamic_fails:
  assumes "length adj = n" and "n < 2 ^ 24" and "\<forall>r \<in> set adj. length r < 2 ^ 64" and "i < n" and "e \<in> set (adj ! i)"
    and "\<And>v_num. unat v_num = ceil_div n 2 \<Longrightarrow> \<exists>f. row (of_nat n) v_num (of_nat i) e = Inl f"
  shows "\<exists>f. vtmake_dynamic row (dec_string n) (Some (print_csr adj)) = Inl f"
proof -
  have "0 < n" using assms(4) by simp
  from dynamic_program [OF assms(1) this assms(2,3), of row] obtain v_num where v: "unat v_num = ceil_div n 2"
    "vtmake_dynamic row (dec_string n) (Some (print_csr adj)) =
     bindE (put_all (put_row (row (of_nat n) v_num)) (graph_edges adj) (replicate (ceil_div (5 * n) 2) [])) (\<lambda>new_csr.
     bindE (print_dynamic (Inr (of_nat ((5 * n - 2) div 2))) new_csr) (\<lambda>out. Inr (Some out)))" by blast
  have "\<exists>f. put_row (row (of_nat n) v_num) (of_nat i) e s = Inl f" for s using assms(6) [OF v(1)] by (auto simp: put_row_def)
  then have "\<exists>f. put_all (put_row (row (of_nat n) v_num)) (graph_edges adj) (replicate (ceil_div (5 * n) 2) []) = Inl f"
    using graph_edgesI [of i adj e] assms(1,4,5) by (intro put_all_fails [of "(of_nat i, e)" _ "\<lambda>_. True"]) simp_all
  then show ?thesis using v(2) by auto
qed


text \<open>A graph with an even number of vertices whose edges all find a row.\<close>

lemma dynamic_keeps:
  assumes "length adj = 2 * h" and "2 \<le> h" and "h < 2 ^ 23" and "\<forall>r \<in> set adj. length r < 2 ^ 64"
    and "\<And>v_num. halves h (of_nat (2 * h)) v_num \<Longrightarrow> \<exists>csr. put_all (put_row (row (of_nat (2 * h)) v_num)) (graph_edges adj) (replicate (5 * h) []) = Inr csr
      \<and> (length csr = 5 * h \<and> (\<forall>k < 5 * h. \<forall>e \<in> set (csr ! k). fits k e)) \<and> tagged source csr = {#} + mset (graph_edges adj)"
  shows "\<exists>csr. vtmake_dynamic row (dec_string (length adj)) (Some (print_csr adj)) = Inr (Some (print_csr csr))
    \<and> length csr = 5 * h \<and> (\<forall>k < length csr. \<forall>e \<in> set (csr ! k). fits k e) \<and> tagged source csr = mset (graph_edges adj)"
proof -
  have "0 < 2 * h" "2 * h < 2 ^ 24" using assms(2,3) by simp_all
  from dynamic_program [OF assms(1) this assms(4), of row] obtain v_num where v: "unat v_num = ceil_div (2 * h) 2"
    "vtmake_dynamic row (dec_string (2 * h)) (Some (print_csr adj)) =
     bindE (put_all (put_row (row (of_nat (2 * h)) v_num)) (graph_edges adj) (replicate (ceil_div (5 * (2 * h)) 2) [])) (\<lambda>new_csr.
     bindE (print_dynamic (Inr (of_nat ((5 * (2 * h) - 2) div 2))) new_csr) (\<lambda>out. Inr (Some out)))" by blast
  have n: "ceil_div (2 * h) 2 = h" "ceil_div (5 * (2 * h)) 2 = 5 * h" "(5 * (2 * h) - 2) div 2 = 5 * h - 1" by (simp_all add: ceil_div_def)
  have "halves h (of_nat (2 * h)) v_num" using v(1) n(1) assms(2,3) unat_small [of "2 * h"] by (simp add: halves_def)
  from assms(5) [OF this] obtain csr where c: "put_all (put_row (row (of_nat (2 * h)) v_num)) (graph_edges adj) (replicate (5 * h) []) = Inr csr"
    "length csr = 5 * h" "\<forall>k < 5 * h. \<forall>e \<in> set (csr ! k). fits k e" "tagged source csr = mset (graph_edges adj)" by auto
  have "print_dynamic (Inr (of_nat (5 * h - 1))) csr = Inr (print_csr csr)" using c(2) assms(2,3) by (intro print_dynamic_csr) simp_all
  then have "vtmake_dynamic row (dec_string (length adj)) (Some (print_csr adj)) = Inr (Some (print_csr csr))"
    using v(2) c(1) assms(1) unfolding n by simp
  then show ?thesis using c by auto
qed


section \<open>Edges without a row\<close>

text \<open>\<open>edge / c - 2\<close> is at most \<open>-1\<close> for the targets of the first quarter, and not converted.\<close>

lemma right_half_tile_fails:
  assumes "unat v_num < 2 ^ 24" and "unat e \<le> unat v_num div 2"
  shows "right_half_tile v_num e = Inl UB_Conversion"
proof (cases "2 \<le> unat v_num")
  case True
  have "unat e < 2 ^ 24" using assms by linarith
  from half_quot_spec [OF assms(1) this True] obtain q where "half_quot v_num e = Inr q" "0 < snd q" "0 \<le> fst q" "fl_val q \<le> 1" using assms(2) by blast
  then show ?thesis using fl_sub_negative [of q float_p] by (simp add: right_half_tile_def float_p_def)
next
  case False
  then have "unat (v_num div 2) = 0" by (simp add: unat_div_distrib)
  then have "v_num div 2 = 0" by (simp add: unat_eq_0)
  then show ?thesis by (simp add: right_half_tile_def half_quot_def)
qed

text \<open>The rows of \<open>vtmake_dynamic_vt_0_3\<close> on four times \<open>m\<close> vertices.\<close>

definition vt03_pos :: "nat \<Rightarrow> nat \<Rightarrow> nat \<Rightarrow> nat" where
  "vt03_pos m i e =
     (if i < 2 * m then (if e < m then i else if e < 2 * m then i + 2 * m else i + 6 * m)
      else if i < 3 * m then (if e < 2 * m then i + 2 * m else if e < 3 * m then i + 6 * m else i + 8 * m)
      else (if e < 2 * m then i + 2 * m else if e < 3 * m then i + 7 * m else i + 9 * m))"

lemma vt03_sums:
  assumes "unat v = 4 * m" and "m < 2 ^ 22" and "unat i < 4 * m"
  shows "u64_of_fl (dadd (dbl i) (dmul (dbl v) (3, 2))) = Inr (of_nat (unat i + 6 * m))"
    and "u64_of_fl (dadd (dbl i) (dmul (dbl v) (7, 4))) = Inr (of_nat (unat i + 7 * m))"
    and "u64_of_fl (dadd (dbl i) (dmul (dbl v) (9, 4))) = Inr (of_nat (unat i + 9 * m))"
proof -
  have i: "dyadic 1 (2 * unat i) (dbl i)" "dyadic 2 (4 * unat i) (dbl i)" using dbl_dyadic [of i 1] dbl_dyadic [of i 2] assms by (simp_all add: mult.commute)
  have "dyadic 1 (3 * (4 * m)) (dmul (dbl v) (3, 2))" "dyadic 2 (7 * (4 * m)) (dmul (dbl v) (7, 4))" "dyadic 2 (9 * (4 * m)) (dmul (dbl v) (9, 4))"
    using dbl_times(2) [OF literals(2), of v] dbl_times(2) [OF literals(3), of v] dbl_times(2) [OF literals(4), of v] assms by simp_all
  note d = row_sum [OF i(1) this(1)] row_sum [OF i(2) this(2)] row_sum [OF i(2) this(3)]
  have e: "(2 * unat i + 3 * (4 * m)) div 2 ^ 1 = unat i + 6 * m" "(4 * unat i + 7 * (4 * m)) div 2 ^ 2 = unat i + 7 * m"
    "(4 * unat i + 9 * (4 * m)) div 2 ^ 2 = unat i + 9 * m" by simp_all
  have l: "2 * unat i + 3 * (4 * m) < 2 ^ 53" "4 * unat i + 7 * (4 * m) < 2 ^ 53" "4 * unat i + 9 * (4 * m) < 2 ^ 53" using assms by simp_all
  show "u64_of_fl (dadd (dbl i) (dmul (dbl v) (3, 2))) = Inr (of_nat (unat i + 6 * m))" using d(1) [OF l(1)] unfolding e .
  show "u64_of_fl (dadd (dbl i) (dmul (dbl v) (7, 4))) = Inr (of_nat (unat i + 7 * m))" using d(2) [OF l(2)] unfolding e .
  show "u64_of_fl (dadd (dbl i) (dmul (dbl v) (9, 4))) = Inr (of_nat (unat i + 9 * m))" using d(3) [OF l(3)] unfolding e .
qed

lemma vt03_row_pos:
  assumes "unat v = 4 * m" and "m < 2 ^ 22" and "unat i < 4 * m" and "unat e < 4 * m"
  shows "vt03_row v i e = Inr (of_nat (vt03_pos m (unat i) (unat e)))"
proof -
  have "unat (v * 3) = 12 * m" using assms(1,2) by (simp add: unat_word_ariths(2))
  then have u: "unat (v div 2) = 2 * m" "unat (v div 4) = m" "unat (v * 3 div 4) = 3 * m" using assms(1) by (simp_all add: unat_div_distrib)
  have w: "v div 2 = of_nat (2 * m)" "v * 2 = of_nat (8 * m)" using arg_cong [OF u(1), of "of_nat :: nat \<Rightarrow> u64"] arg_cong [OF assms(1), of "of_nat :: nat \<Rightarrow> u64"] by simp_all
  have i: "i = of_nat (unat i)" by simp
  have s: "i + v div 2 = of_nat (unat i + 2 * m)" "i + v * 2 = of_nat (unat i + 8 * m)" unfolding w by simp_all
  have lt: "x < v div 2 \<longleftrightarrow> unat x < 2 * m" "x < v div 4 \<longleftrightarrow> unat x < m" "x < v * 3 div 4 \<longleftrightarrow> unat x < 3 * m" "v div 2 \<le> x \<longleftrightarrow> 2 * m \<le> unat x" for x :: u64
    by (simp_all add: word_less_nat_alt word_le_nat_alt u)
  note t = vt03_sums [OF assms(1-3)]
  show ?thesis unfolding vt03_row_def vt03_pos_def lt s t by simp
qed

lemma vt03_fails:
  assumes "length adj = 4 * m" and "m < 2 ^ 22" and "\<forall>r \<in> set adj. length r < 2 ^ 64" and "i < 4 * m" and "e \<in> set (adj ! i)" and "unat e < 4 * m"
    and "12 * m \<le> vt03_pos m i (unat e)"
  shows "\<exists>f. vtmake_dynamic_vt_0_3 (dec_string (4 * m)) (Some (print_csr adj)) = Inl f"
proof -
  let ?v = "of_nat (4 * m) :: u64" and ?put = "put_row (vt03_row (of_nat (4 * m)))"
  have v: "unat ?v = 4 * m" using assms(2) by (intro unat_small) simp
  have i: "unat (of_nat i :: u64) = i" using assms(2,4) by (intro unat_small) simp
  obtain v_num where vn: "vt_num ?v 2 = Inr v_num" using vt_num_ok [of ?v 2] v assms(2,4) by auto
  have v3: "unat (?v * 3) = 12 * m" using unat_small [of "12 * m"] assms(2) by (simp add: mult.commute)
  have "vt03_pos m i (unat e) < 2 ^ 64" using assms(2,4) by (simp add: vt03_pos_def)
  then have "unat (of_nat (vt03_pos m i (unat e)) :: u64) = vt03_pos m i (unat e)" by (rule unat_small)
  then have bad: "\<exists>f. ?put (of_nat i) e s = Inl f" if "length s = 12 * m" for s
    using vt03_row_pos [OF v assms(2), of "of_nat i" e] i assms(4,6,7) that by (simp add: put_row_def)
  have "(of_nat i, e) \<in> set (graph_edges adj)" using graph_edgesI assms(1,4,5) by simp
  then have "\<exists>f. put_all ?put (graph_edges adj) (replicate (12 * m) []) = Inl f"
    by (rule put_all_fails [where I = "\<lambda>s. length s = 12 * m"]) (use bad in \<open>auto dest: put_row_length\<close>)
  moreover have "adj \<noteq> []" using assms(1,4) by auto
  note distribute_graph [OF this assms(3), of ?put]
  moreover have "stoull (dec_string (4 * m)) = Inr ?v" using assms(2) by (intro stoull_dec) simp
  ultimately show ?thesis using vn v v3 assms(1) by (auto simp: vtmake_dynamic_vt_0_3_def simp del: of_nat_mult)
qed

end
