(* ===== verification/Csr_Properties.thy ===== *)
theory Csr_Properties
  imports Csr_Dynamic Data_Reader
begin

text \<open>
  The properties of the conversion programs: no edge of a graph is lost or invented on the way into tiles,
  every tile holds only what belongs to it, the simulator's reader finds in the files what was written,
  and the one program that cannot work.
\<close>

section \<open>Graphs\<close>

text \<open>Adjacency lists of a graph whose edges end in its vertices.\<close>

definition graph :: "u64 list list \<Rightarrow> bool" where
  "graph adj \<longleftrightarrow> adj \<noteq> [] \<and> (\<forall>r \<in> set adj. length r < 2 ^ 64 \<and> (\<forall>e \<in> set r. unat e < length adj))"

lemma graphD: "graph adj \<Longrightarrow> adj \<noteq> []" "graph adj \<Longrightarrow> \<forall>r \<in> set adj. length r < 2 ^ 64"
  "graph adj \<Longrightarrow> \<forall>r \<in> set adj. \<forall>e \<in> set r. unat e < length adj"
  by (simp_all add: graph_def)

definition demo_graph :: "u64 list list" where
  "demo_graph = [[1, 2], [0, 3], [], [3]]"

lemma demo_graph_ok: "graph demo_graph"
  by (simp add: graph_def demo_graph_def)

section \<open>Vertical tiles\<close>

text \<open>C32: for every graph, \<open>vtmake\<close> writes a CSR file with one row per vertex and tile.  Row \<open>k\<close> has edges of vertex
  \<open>k mod v\<close> to vertices of tile \<open>k div v\<close> only, and all rows together have exactly the edges of the graph.\<close>

theorem vtmake_partitions:
  assumes "graph adj" and "length adj < 2 ^ 24" and "0 < t" and "t < 2 ^ 24"
  shows "\<exists>csr. vtmake (dec_string (length adj)) (dec_string t) (Some (print_csr adj)) = Inr (Some (print_csr csr))
    \<and> length csr = length adj * t
    \<and> (\<forall>k < length csr. \<forall>e \<in> set (csr ! k). unat e div ceil_div (length adj) t = k div length adj)
    \<and> vt_held (of_nat (length adj)) csr = mset (graph_edges adj)"
proof -
  let ?v = "of_nat (length adj) :: u64" and ?t = "of_nat t :: u64"
  have v: "unat ?v = length adj" "unat ?t = t" using assms(2,4) by (simp_all add: unat_small)
  have pos: "0 < length adj" using assms(1) by (simp add: graph_def)
  obtain n where n: "vt_num ?v ?t = Inr n" "unat n = ceil_div (length adj) t" "vt_ok ?v ?t n"
    using vt_num_ok [of ?v ?t] v assms pos by auto
  have lt: "length adj * t < 2 ^ 64" using n(3) v by (simp add: vt_ok_def)
  then have vt: "unat (?v * ?t) = length adj * t" using unat_small [of "length adj * t"] by simp
  have inv: "vt_inv ?v ?t n (replicate (unat (?v * ?t)) [])" using n(3) vt v by (simp add: vt_inv_def)
  have "\<forall>p \<in> set (graph_edges adj). unat (fst p) < unat ?v \<and> unat (snd p) < unat ?v"
    using graph_edges_in [OF _ graphD(3) [OF assms(1)]] assms(2) v by auto
  from vt.distribute_keeps [OF inv graphD(1,2) [OF assms(1)] this] obtain csr where
    c: "distribute (vt_put ?v ?t n) (length adj) (print_csr adj) (replicate (unat (?v * ?t)) []) = Inr csr"
    "vt_inv ?v ?t n csr" "vt_held ?v csr = mset (graph_edges adj)" by (auto simp: vt_held_def)
  have "stoull (dec_string (length adj)) = Inr ?v" "stoull (dec_string t) = Inr ?t" using assms(2,4) by (simp_all add: stoull_dec)
  then have "vtmake (dec_string (length adj)) (dec_string t) (Some (print_csr adj)) = Inr (Some (print_csr csr))"
    using n(1) c(1) v(1) by (simp add: vtmake_def)
  then show ?thesis using c(2,3) v n(2) by (auto simp: vt_inv_def)
qed

theorem vtmake_partitions_witness:
  "\<exists>csr. vtmake (dec_string (length demo_graph)) (dec_string 2) (Some (print_csr demo_graph)) = Inr (Some (print_csr csr))
    \<and> length csr = length demo_graph * 2 \<and> vt_held (of_nat (length demo_graph)) csr = mset (graph_edges demo_graph)"
proof -
  have "length demo_graph < 2 ^ 24" by (simp add: demo_graph_def)
  from vtmake_partitions [OF demo_graph_ok this, of 2] show ?thesis by auto
qed

section \<open>Recursive tiles\<close>

text \<open>C31: whatever tree a configuration makes, \<open>recursive_tiling\<close> puts every edge of the graph into exactly one leaf, in
  the row of its source vertex and within the ranges of the leaf, and writes the rows of all leaves; the
  second file announces their number.\<close>

theorem tiling_keeps_edges:
  assumes "graph adj" and "length adj \<le> 2 ^ 51" and "build_tree (of_nat (length adj)) config = Inr tree"
  shows "\<exists>leaves. recursive_tiling (dec_string (length adj)) config (Some (print_csr adj)) = Inr (print_csr (concat (map snd leaves)), xw_text (length (concat (map snd leaves))))
    \<and> leaves_inv (getLeavesInorder tree) leaves \<and> leaves_held leaves = mset (graph_edges adj)"
proof -
  let ?v = "of_nat (length adj) :: u64"
  have v: "unat ?v = length adj" using assms(2) by (intro unat_small) simp
  have "stoull (dec_string (length adj)) = Inr ?v" using assms(2) by (intro stoull_dec) simp
  then have "recursive_tiling (dec_string (length adj)) config (Some (print_csr adj)) = tile_leaves (getLeavesInorder tree) ?v (Some (print_csr adj))"
    using assms(3) by (simp add: recursive_tiling_def)
  then show ?thesis
    using tile_leaves_keep [OF _ _ graphD(1) [OF assms(1)] v graphD(2,3) [OF assms(1)]] build_tree_covers [OF assms(3)] v assms(2) by simp
qed

text \<open>A configuration printed from its digits is read back.\<close>

definition flags_text :: "nat list \<Rightarrow> string" where
  "flags_text ds = concat (map (\<lambda>d. [CHR '' '', digit_char d]) ds)"

lemma read_flag_digit:
  assumes "d < 10"
  shows "read_flag (stream_of (CHR '' '' # digit_char d # CHR '' '' # r)) = Inr (of_nat d, stream_of (CHR '' '' # r))"
proof -
  note f = digit_char_facts [OF assms]
  have "sentry (stream_of (CHR '' '' # digit_char d # CHR '' '' # r)) = (True, stream_of (digit_char d # CHR '' '' # r))"
    using f(4) separators(3) by (simp add: sentry_def stream_of_def)
  moreover have "split_sign (digit_char d # CHR '' '' # r) = (False, digit_char d # CHR '' '' # r)" using f by (simp add: split_sign_def)
  moreover have "base_val 10 [digit_char d] = d" using f(1) by (simp add: base_val_def)
  ultimately show ?thesis using f(2) separators(1) assms by (simp add: read_flag_def extract_u64_def stream_of_def known_def)
qed

lemma read_flags:
  "\<forall>d \<in> set ds. d < 10 \<Longrightarrow> repeatE (length ds) read_flag (stream_of (flags_text ds @ CHR '' '' # r)) = Inr (map of_nat ds, stream_of (CHR '' '' # r))"
proof (induction ds)
  case (Cons d ds)
  have "\<exists>q. flags_text ds @ CHR '' '' # r = CHR '' '' # q" by (cases ds) (auto simp: flags_text_def)
  then obtain q where q: "flags_text ds @ CHR '' '' # r = CHR '' '' # q" by blast
  have "flags_text (d # ds) @ CHR '' '' # r = CHR '' '' # digit_char d # CHR '' '' # q" using q by (simp add: flags_text_def)
  then show ?case using Cons read_flag_digit [of d q] q by simp
qed (simp add: flags_text_def)

lemma read_four_flags:
  assumes "length ds = 4" and "\<forall>d \<in> set ds. d < 10"
  shows "read_four (stream_of (flags_text ds @ CHR '' '' # r)) = Inr (map of_nat ds, stream_of (CHR '' '' # r))"
  using read_flags [OF assms(2), of r] unfolding assms(1) by (simp add: read_four_def)

definition demo_config :: string where
  "demo_config = flags_text [1, 0, 0, 0] @ flags_text [1, 0, 1, 0] @ '' ''"

lemma demo_tree: "\<exists>tree. build_tree (of_nat (length demo_graph)) (Some demo_config) = Inr tree"
proof -
  let ?v = "of_nat (length demo_graph) :: u64"
  have "\<exists>q. flags_text [1, 0, 1, 0] @ '' '' = CHR '' '' # q" by (simp add: flags_text_def)
  then obtain q where q: "flags_text [1, 0, 1, 0] @ '' '' = CHR '' '' # q" by blast
  have 1: "read_four (stream_of demo_config) = Inr ([1, 0, 0, 0], stream_of (CHR '' '' # q))"
    using read_four_flags [of "[1, 0, 0, 0]" q] q by (simp add: demo_config_def)
  have 2: "read_four (stream_of (CHR '' '' # q)) = Inr ([1, 0, 1, 0], stream_of '' '')"
    using read_four_flags [of "[1, 0, 1, 0]" "[]"] q by simp
  have "small 0 (whole ?v)" by (rule whole_small) (simp add: demo_graph_def)
  then obtain qs where qs: "quarter (whole ?v) = Inr qs" "length qs = 4" "\<forall>x \<in> set qs. small 1 x" using quarter_covers [of 0 _ 1] by force
  then obtain a b c d where abcd: "qs = [a, b, c, d]" by (auto simp: eval_nat_numeral length_Suc_conv)
  obtain as where as: "quarter a = Inr as" "length as = 4" "\<forall>x \<in> set as. small 2 x" using quarter_covers [OF _ one_lt_big, of a 2] qs(3) abcd by auto
  have "as ! 0 \<in> set as" using as(2) by simp
  then obtain fs where "quarter (as ! 0) = Inr fs" using quarter_covers [of 2 "as ! 0" 3] as(3) by auto
  then have "\<exists>n i. second_depth 0 a (stream_of (CHR '' '' # q)) = Inr (n, i)" using as 2 by (simp add: second_depth_def Let_def)
  then obtain n i where "second_depth 0 a (stream_of (CHR '' '' # q)) = Inr (n, i)" by blast
  then show ?thesis using 1 qs(1) abcd by (simp add: build_tree_def config_stream_def upt_rec)
qed

theorem tiling_keeps_edges_witness:
  "\<exists>tree leaves. build_tree (of_nat (length demo_graph)) (Some demo_config) = Inr tree
    \<and> leaves_inv (getLeavesInorder tree) leaves \<and> leaves_held leaves = mset (graph_edges demo_graph)"
proof -
  obtain tree where t: "build_tree (of_nat (length demo_graph)) (Some demo_config) = Inr tree" using demo_tree by blast
  have "length demo_graph \<le> 2 ^ 51" by (simp add: demo_graph_def)
  from tiling_keeps_edges [OF demo_graph_ok this t] t show ?thesis by auto
qed

text \<open>The rescheduling program orders the leaves by the start of their target range, leaves with the same
  start staying in their order, and distributes the edges over them just as completely.\<close>

theorem resched_keeps_edges:
  assumes "graph adj" and "length adj \<le> 2 ^ 51" and "build_tree (of_nat (length adj)) config = Inr tree"
  shows "\<exists>leaves. recursive_tiling_resched (dec_string (length adj)) config (Some (print_csr adj)) = Inr (print_csr (concat (map snd leaves)), xw_text (length (concat (map snd leaves))))
    \<and> map fst leaves = sort_key toStart (getLeavesInorder tree) \<and> leaves_inv (sort_key toStart (getLeavesInorder tree)) leaves
    \<and> leaves_held leaves = mset (graph_edges adj)"
proof -
  let ?v = "of_nat (length adj) :: u64" and ?rs = "sort_key toStart (getLeavesInorder tree)"
  have v: "unat ?v = length adj" using assms(2) by (intro unat_small) simp
  have "stoull (dec_string (length adj)) = Inr ?v" using assms(2) by (intro stoull_dec) simp
  then have "recursive_tiling_resched (dec_string (length adj)) config (Some (print_csr adj)) = tile_leaves ?rs ?v (Some (print_csr adj))"
    using assms(3) by (simp add: recursive_tiling_resched_def schedLeaves_sort_key)
  moreover have "covers ?rs (whole ?v)" using build_tree_covers [OF assms(3)] covers_set [of ?rs "getLeavesInorder tree"] v assms(2) by simp
  ultimately show ?thesis
    using tile_leaves_keep [OF _ _ graphD(1) [OF assms(1)] v graphD(2,3) [OF assms(1)], of ?rs] build_tree_covers [OF assms(3)] v assms(2)
    by (auto simp: leaves_inv_def)
qed

theorem resched_keeps_edges_witness:
  "\<exists>tree leaves. build_tree (of_nat (length demo_graph)) (Some demo_config) = Inr tree
    \<and> map fst leaves = sort_key toStart (getLeavesInorder tree) \<and> leaves_held leaves = mset (graph_edges demo_graph)"
proof -
  obtain tree where t: "build_tree (of_nat (length demo_graph)) (Some demo_config) = Inr tree" using demo_tree by blast
  have "length demo_graph \<le> 2 ^ 51" by (simp add: demo_graph_def)
  from resched_keeps_edges [OF demo_graph_ok this t] t show ?thesis by auto
qed

text \<open>The same for the program that cuts into three blocks.\<close>

lemma undirected_keeps_edges:
  assumes "graph adj" and "length adj \<le> 2 ^ 51" and "undirected_tree (of_nat (length adj)) config = Inr tree"
  shows "\<exists>leaves. recursive_tiling_undirected (dec_string (length adj)) config (Some (print_csr adj)) = Inr (print_csr (concat (map snd leaves)), xw_text (length (concat (map snd leaves))))
    \<and> leaves_inv (getLeavesInorder tree) leaves \<and> leaves_held leaves = mset (graph_edges adj)"
proof -
  let ?v = "of_nat (length adj) :: u64"
  have v: "unat ?v = length adj" using assms(2) by (intro unat_small) simp
  have "stoull (dec_string (length adj)) = Inr ?v" using assms(2) by (intro stoull_dec) simp
  then have "recursive_tiling_undirected (dec_string (length adj)) config (Some (print_csr adj)) = tile_leaves (getLeavesInorder tree) ?v (Some (print_csr adj))"
    using assms(3) by (simp add: recursive_tiling_undirected_def)
  then show ?thesis
    using tile_leaves_keep [OF _ _ graphD(1) [OF assms(1)] v graphD(2,3) [OF assms(1)]] undirected_tree_covers [OF assms(3)] v assms(2) by simp
qed

section \<open>Tiles cut twice\<close>

text \<open>For every graph with an even number of vertices, \<open>vtmake_dynamic_vt_2\<close> writes a CSR file of five halves of the
  vertices.  Each row holds edges of one vertex into one tile, where the lower left tile is cut into two by its
  targets, and all rows together have exactly the edges of the graph.\<close>

theorem dynamic_vt2_partitions:
  assumes "graph adj" and "length adj = 2 * h" and "2 \<le> h" and "h < 2 ^ 23"
  shows "\<exists>csr. vtmake_dynamic_vt_2 (dec_string (length adj)) (Some (print_csr adj)) = Inr (Some (print_csr csr))
    \<and> length csr = 5 * h \<and> (\<forall>k < length csr. \<forall>e \<in> set (csr ! k). vt2_fits h k e)
    \<and> tagged (vt_source h) csr = mset (graph_edges adj)"
proof -
  have edges: "\<forall>p \<in> set (graph_edges adj). unat (fst p) < 2 * h \<and> unat (snd p) < 2 * h"
    using graph_edges_in [OF _ graphD(3) [OF assms(1)]] assms(2,4) by auto
  show ?thesis unfolding vtmake_dynamic_vt_2_def
    using assms(3,4) vt2.put_all_keeps [of "replicate (5 * h) []" h "graph_edges adj" "of_nat (2 * h)"] edges
    by (intro dynamic_keeps [OF assms(2) _ _ graphD(2) [OF assms(1)]]) simp_all
qed

theorem dynamic_vt2_partitions_witness:
  "\<exists>csr. vtmake_dynamic_vt_2 (dec_string (length demo_graph)) (Some (print_csr demo_graph)) = Inr (Some (print_csr csr))
    \<and> length csr = 5 * 2 \<and> tagged (vt_source 2) csr = mset (graph_edges demo_graph)"
proof -
  have "length demo_graph = 2 * 2" by (simp add: demo_graph_def)
  from dynamic_vt2_partitions [OF demo_graph_ok this] show ?thesis by auto
qed

text \<open>\<open>vtmake_dynamic_vt_0\<close> keeps the edges as well, but its upper left tile is cut at vertex 2.\<close>

lemma dynamic_vt0_keeps:
  assumes "graph adj" and "length adj = 2 * h" and "4 \<le> h" and "h < 2 ^ 23"
  shows "\<exists>csr. vtmake_dynamic_vt_0 (dec_string (length adj)) (Some (print_csr adj)) = Inr (Some (print_csr csr))
    \<and> length csr = 5 * h \<and> (\<forall>k < length csr. \<forall>e \<in> set (csr ! k). vt0_fits h k e)
    \<and> tagged (vt_source h) csr = mset (graph_edges adj)"
proof -
  have edges: "\<forall>p \<in> set (graph_edges adj). unat (fst p) < 2 * h \<and> unat (snd p) < 2 * h"
    using graph_edges_in [OF _ graphD(3) [OF assms(1)]] assms(2,4) by auto
  show ?thesis unfolding vtmake_dynamic_vt_0_def
    using assms(3,4) vt0.put_all_keeps [of "replicate (5 * h) []" h "graph_edges adj" "of_nat (2 * h)"] edges
    by (intro dynamic_keeps [OF assms(2) _ _ graphD(2) [OF assms(1)]]) simp_all
qed

text \<open>\<open>vtmake_dynamic_vt_0_3\<close> on four times \<open>m\<close> vertices: an edge from the last quarter of the vertices to the last quarter
  belongs to row \<open>i + 9 * m\<close>, at or behind the end of the \<open>12 * m\<close> rows.  No graph that has one is converted.\<close>

theorem dynamic_vt03_out_of_range:
  assumes "graph adj" and "length adj = 4 * m" and "m < 2 ^ 22" and "3 * m \<le> i" and "i < 4 * m" and "e \<in> set (adj ! i)" and "3 * m \<le> unat e"
  shows "\<exists>f. vtmake_dynamic_vt_0_3 (dec_string (length adj)) (Some (print_csr adj)) = Inl f"
proof -
  have "adj ! i \<in> set adj" using assms(2,5) by simp
  then have "unat e < 4 * m" using graphD(3) [OF assms(1)] assms(2,6) by auto
  moreover have "12 * m \<le> vt03_pos m i (unat e)" using assms(4,7) by (simp add: vt03_pos_def)
  ultimately show ?thesis unfolding assms(2) by (intro vt03_fails [OF assms(2,3) graphD(2) [OF assms(1)] assms(5,6)])
qed

theorem dynamic_vt03_out_of_range_witness:
  "\<exists>f. vtmake_dynamic_vt_0_3 (dec_string (length demo_graph)) (Some (print_csr demo_graph)) = Inl f"
  by (rule dynamic_vt03_out_of_range [OF demo_graph_ok, of 1 3 3]) (simp_all add: demo_graph_def)

text \<open>Two blocks of the lower right tile share their rows.\<close>

lemma dynamic_vt03_merges:
  assumes "2 * m \<le> i" and "i < 3 * m" and "3 * m \<le> e" and "2 * m \<le> e'" and "e' < 3 * m"
  shows "vt03_pos m i e = vt03_pos m (i + m) e'"
  using assms by (simp add: vt03_pos_def)

text \<open>Programs 1 and 3: an edge to the first quarter of the vertices from the half whose right tile is cut.\<close>

lemma dynamic_vt1_fails:
  assumes "graph adj" and "length adj < 2 ^ 24" and "i < length adj" and "i \<le> length adj div 2" and "e \<in> set (adj ! i)"
    and "unat e \<le> ceil_div (length adj) 2 div 2"
  shows "\<exists>f. vtmake_dynamic_vt_1 (dec_string (length adj)) (Some (print_csr adj)) = Inl f"
  unfolding vtmake_dynamic_vt_1_def
proof (rule dynamic_fails [OF refl assms(2) graphD(2) [OF assms(1)] assms(3,5)])
  fix v_num :: u64
  assume v: "unat v_num = ceil_div (length adj) 2"
  then have "unat v_num < 2 ^ 24" using ceil_div_le [of 2 "length adj"] assms(2) by simp
  from right_half_tile_fails [OF this] have "right_half_tile v_num e = Inl UB_Conversion" using assms(6) v by simp
  moreover have "(of_nat i :: u64) \<le> of_nat (length adj) div 2" using assms(2,3,4) by (simp add: word_le_nat_alt unat_div_distrib unat_small)
  ultimately show "\<exists>f. vt1_row (of_nat (length adj)) v_num (of_nat i) e = Inl f" by (simp add: vt1_row_def)
qed

lemma dynamic_vt3_fails:
  assumes "graph adj" and "length adj < 2 ^ 24" and "i < length adj" and "length adj div 2 < i" and "e \<in> set (adj ! i)"
    and "unat e \<le> ceil_div (length adj) 2 div 2"
  shows "\<exists>f. vtmake_dynamic_vt_3 (dec_string (length adj)) (Some (print_csr adj)) = Inl f"
  unfolding vtmake_dynamic_vt_3_def
proof (rule dynamic_fails [OF refl assms(2) graphD(2) [OF assms(1)] assms(3,5)])
  fix v_num :: u64
  assume v: "unat v_num = ceil_div (length adj) 2"
  then have "unat v_num < 2 ^ 24" using ceil_div_le [of 2 "length adj"] assms(2) by simp
  from right_half_tile_fails [OF this] have "right_half_tile v_num e = Inl UB_Conversion" using assms(6) v by simp
  moreover have "\<not> (of_nat i :: u64) \<le> of_nat (length adj) div 2" using assms(2,3,4) by (simp add: word_le_nat_alt unat_div_distrib unat_small)
  ultimately show "\<exists>f. vt3_row (of_nat (length adj)) v_num (of_nat i) e = Inl f" by (simp add: vt3_row_def)
qed

text \<open>With an odd number of vertices the row taken for the last is the one before it: no blank separates the last two
  row pointers, and the edges of the last row are on a line of their own.\<close>

lemma odd_last_row: "odd n \<Longrightarrow> (5 * n - 2) div 2 = ceil_div (5 * n) 2 - 2"
  by (auto simp: ceil_div_def elim!: oddE)

lemma odd_rows_glued: "print_dynamic (Inr 0) [[5], [6]] = Inr (''0 12 '' @ [CHR 0x0A] @ ''5'' @ [CHR 0x0A] @ ''6 '')"
  by (simp add: print_dynamic_def u64_text_def dec_string.simps digit_char_def char_of_def bit_0)

section \<open>Reading the files back\<close>

lemma tokens_trailed: "\<forall>t \<in> set ts. CHR '' '' \<notin> set t \<Longrightarrow> tokens (CHR '' '') (concat (map (\<lambda>t. t @ '' '') ts)) = ts"
  by (induction ts) (simp_all add: tokens_cons, simp add: tokens_def)

lemma tokens_read:
  assumes "reads_tokens (map u64_text es) (stream_of l)" and "es \<noteq> []"
  shows "tokens (CHR '' '') l = map u64_text es"
proof -
  have t: "\<forall>t \<in> set (map u64_text es). CHR '' '' \<notin> set t \<and> t \<noteq> []" using u64_text_facts by auto
  from assms consider "l = spaced (map u64_text es)" | "l = concat (map (\<lambda>t. t @ '' '') (map u64_text es))"
    by (auto simp: reads_tokens_def stream_of_def)
  then show ?thesis using tokens_spaced [OF t] tokens_trailed [of "map u64_text es"] t by cases auto
qed

lemma stof_small: "unat e < 2 ^ 24 \<Longrightarrow> stof_u64 (u64_text e) = Inr e"
  using dec_string_facts [of "unat e"] u64_of_fl_exact [of e float_p] uint_below [of e 24]
  by (simp add: stof_u64_def parse_dec_def split_sign_dec dec_string_whole u64_text_def fl_of_u64_def float_p_def)

lemma block_scan_returns: "mv \<noteq> 0 \<Longrightarrow> \<exists>es vs. block_scan ah mv pc vc st xs = Inr (es, vs)"
proof (induction xs arbitrary: pc vc st)
  case (Cons x xs)
  obtain es vs where "block_scan ah mv (pc + 1) 0 x xs = Inr (es, vs)" using Cons by blast
  then show ?case using Cons by (auto simp: u_rem_def)
qed simp

text \<open>The lines of a file.\<close>

lemma tokens_step: "s \<noteq> [] \<Longrightarrow> tokens dl s = takeWhile (\<lambda>ch. ch \<noteq> dl) s # tokens dl (tl (dropWhile (\<lambda>ch. ch \<noteq> dl) s))"
proof (cases "dl \<in> set s")
  case True
  then obtain t r where s: "s = t @ dl # r" "dl \<notin> set t" using split_list_first by metis
  then have "\<forall>x \<in> set t. x \<noteq> dl" by auto
  from takeWhile_stop [OF this, of dl r] show ?thesis using s by (simp add: tokens_def tokens_from_append)
next
  case False
  then have w: "takeWhile (\<lambda>ch. ch \<noteq> dl) s = s" "dropWhile (\<lambda>ch. ch \<noteq> dl) s = []" by (auto simp: takeWhile_eq_all_conv)
  assume "s \<noteq> []"
  then show ?thesis unfolding w using tokens_from_append [of dl s "[]" "[]"] False by (simp add: tokens_def)
qed

lemma csr_lines:
  assumes "rows \<noteq> []" and "concat rows \<noteq> []"
  shows "\<exists>l1 l2. nth_line (tokens (CHR 0x0A) (print_csr rows)) 0 = l1 \<and> nth_line (tokens (CHR 0x0A) (print_csr rows)) 1 = l2
    \<and> tokens (CHR '' '') l1 = ''0'' # map u64_text (sums_from 0 rows) \<and> tokens (CHR '' '') l2 = map u64_text (concat rows)"
proof -
  obtain l1 where l1: "get_delim (CHR 0x0A) [] (stream_of (print_csr rows)) = (True, l1, stream_of (edge_line rows))"
    "tokens (CHR '' '') l1 = ''0'' # map u64_text (sums_from 0 rows)" using first_line_read [OF assms(1)] by blast
  obtain b l2 f where l2: "get_delim (CHR 0x0A) l1 (stream_of (edge_line rows)) = (b, l2, f)"
    "reads_tokens (map u64_text (concat rows)) (stream_of l2)" using second_line_read by blast
  have e: "edge_line rows \<noteq> []" using assms u64_text_facts(1) by (cases "concat rows") (auto simp: edge_line_def)
  have "print_csr rows \<noteq> []" by (simp add: print_csr_def)
  then have t: "tokens (CHR 0x0A) (print_csr rows) = l1 # tokens (CHR 0x0A) (edge_line rows)"
    using l1(1) tokens_step [of "print_csr rows" "CHR 0x0A"] by (simp add: get_delim_def stream_of_def Let_def)
  have "takeWhile (\<lambda>ch. ch \<noteq> CHR 0x0A) (edge_line rows) = l2" using l2(1) e by (simp add: get_delim_def stream_of_def Let_def)
  then have "tokens (CHR 0x0A) (edge_line rows) ! 0 = l2" "tokens (CHR 0x0A) (edge_line rows) \<noteq> []"
    using tokens_step [OF e, of "CHR 0x0A"] by simp_all
  then show ?thesis using t l1(2) tokens_read [OF l2(2) assms(2)] by (simp add: nth_line_def)
qed

lemma stoi_dec: "n < 2 ^ 31 \<Longrightarrow> stoi (dec_string n) = Inr (int n)"
  using dec_string_facts [of n] of_nat_less_iff [of n "2 ^ 31", where 'a = int]
  by (simp add: stoi_def parse_dec_def split_sign_dec dec_string_whole)

definition tile_dims :: "nat \<Rightarrow> dims" where
  "tile_dims n = \<lparr>w_h = 256, w_w = 256, x_h = of_nat n, x_w = 256, a_w = of_nat n, a_h = of_nat n\<rparr>"

lemma xw_lines:
  assumes "n < 2 ^ 31"
  shows "ReadDims (tokens (CHR 0x0A) (xw_text n)) = Inr (tile_dims n)"
proof -
  have d: "CHR 0x0A \<notin> set (dec_string n)" using dec_string_facts [of n] by (auto simp: is_digit_def)
  have t: "CHR 0x0A \<notin> set t \<Longrightarrow> tokens (CHR 0x0A) (t @ CHR 0x0A # r) = t # tokens (CHR 0x0A) r" for t r by (simp add: tokens_def tokens_from_append)
  have "tokens (CHR 0x0A) (xw_text n) = [''256'', ''256'', dec_string n]"
    using t [of "''256''"] t [OF d, of "[]"] unfolding xw_text_def by (simp add: tokens_def)
  moreover have "stoi ''256'' = Inr 256" by (simp add: stoi_def parse_dec_def split_sign_def is_space_char_def is_digit_def digits_val_def)
  ultimately show ?thesis using stoi_dec [OF assms] by (simp add: ReadDims_def nth_line_def tile_dims_def u64_of_int_def)
qed

text \<open>C30: the simulator's \<open>DataReader\<close> finds in the two files a tiling program wrote exactly what was meant: the number
  of rows, the row pointers and the edges of all rows in their order.\<close>

theorem csr_file_read_back:
  assumes "rows \<noteq> []" and "concat rows \<noteq> []" and "\<forall>r \<in> set rows. \<forall>e \<in> set r. unat e < 2 ^ 24" and "length rows < 2 ^ 31" and "max_v g \<noteq> 0"
  shows "\<exists>es vs g'. g' = g\<lparr>edge_req_count := edge_req_count g @ es, vertex_req_count := vertex_req_count g @ vs,
        edge_req_count_cnt := edge_req_count g @ es, vertex_req_count_cnt := vertex_req_count g @ vs\<rparr>
    \<and> ReadData c (Some (tokens (CHR 0x0A) (xw_text (length rows)))) (Some (tokens (CHR 0x0A) (print_csr rows))) g
      = bindE (axw_total c (tile_dims (length rows)) (length (edge_req_count g @ es))) (\<lambda>tot.
        Inr (tile_dims (length rows), 0 # sums_from 0 rows, concat rows, tot, g'))"
proof -
  obtain l1 l2 where l: "nth_line (tokens (CHR 0x0A) (print_csr rows)) 0 = l1" "nth_line (tokens (CHR 0x0A) (print_csr rows)) 1 = l2"
    "tokens (CHR '' '') l1 = ''0'' # map u64_text (sums_from 0 rows)" "tokens (CHR '' '') l2 = map u64_text (concat rows)"
    using csr_lines [OF assms(1,2)] by blast
  obtain e es where c: "concat rows = e # es" using assms(2) by (cases "concat rows") auto
  have m: "mapE stoull (map u64_text xs) = Inr xs" for xs using u64_text_facts(4) by (intro mapE_Inr) simp
  have z: "stof_u64 ''0'' = Inr 0" using stof_small [of 0] digit_char_facts(7) [of 0] by (simp add: u64_text_def dec_string.simps [of 0])
  obtain bs vs where "block_scan (a_h (tile_dims (length rows))) (max_v g) 0 1 0 (sums_from 0 rows) = Inr (bs, vs)"
    using block_scan_returns [OF assms(5)] by blast
  then have 1: "GetUint64Val (tile_dims (length rows)) True l1 g
      = Inr (0 # sums_from 0 rows, g\<lparr>edge_req_count := edge_req_count g @ bs, vertex_req_count := vertex_req_count g @ vs\<rparr>)"
    using l(3) m z by (simp add: GetUint64Val_def)
  have "e \<in> set (concat rows)" using c by simp
  then have "unat e < 2 ^ 24" using assms(3) by auto
  then have 2: "GetUint64Val d False l2 h = Inr (concat rows, h)" for d h using l(4) m stof_small [of e] by (simp add: GetUint64Val_def c)
  have r: "ReadData c (Some (tokens (CHR 0x0A) (xw_text (length rows)))) (Some (tokens (CHR 0x0A) (print_csr rows))) g
      = bindE (axw_total c (tile_dims (length rows)) (length (edge_req_count g @ bs))) (\<lambda>tot.
        Inr (tile_dims (length rows), 0 # sums_from 0 rows, concat rows, tot, g\<lparr>edge_req_count := edge_req_count g @ bs,
          vertex_req_count := vertex_req_count g @ vs, edge_req_count_cnt := edge_req_count g @ bs, vertex_req_count_cnt := vertex_req_count g @ vs\<rparr>))"
    unfolding ReadData_def using 1 2 l(1,2) xw_lines [OF assms(4)] by (simp add: Let_def)
  show ?thesis by (rule exI, rule exI, rule exI, rule conjI, rule refl, rule r)
qed

definition demo_globals :: globals where
  "demo_globals = \<lparr>edge_req_count = [], vertex_req_count = [], edge_req_count_cnt = [], vertex_req_count_cnt = [], v_limit = 0, e_limit = 0,
     v_cache = [], e_cache = [], last_v = 0, v_arch = 0, block_cnt = 0, zero_row = [], f_flag = False, max_v = 2, w_fold = 2\<rparr>"

theorem csr_file_read_back_witness:
  "\<forall>c. \<exists>(es :: u64 list) g'. ReadData c (Some (tokens (CHR 0x0A) (xw_text 4))) (Some (tokens (CHR 0x0A) (print_csr demo_graph))) demo_globals
      = bindE (axw_total c (tile_dims 4) (length es)) (\<lambda>tot. Inr (tile_dims 4, [0, 2, 4, 4, 5], [1, 2, 0, 3, 3], tot, g'))"
proof
  fix c
  have "demo_graph \<noteq> []" "concat demo_graph \<noteq> []" "\<forall>r \<in> set demo_graph. \<forall>e \<in> set r. unat e < 2 ^ 24" "length demo_graph < 2 ^ 31" "max_v demo_globals \<noteq> 0"
    by (simp_all add: demo_graph_def demo_globals_def)
  note read = csr_file_read_back [OF this, of c]
  have d: "length demo_graph = 4" "0 # sums_from 0 demo_graph = [0, 2, 4, 4, 5]" "concat demo_graph = [1, 2, 0, 3, 3]"
    by (simp_all add: demo_graph_def)
  from read [unfolded d] obtain es vs g' where
    r: "ReadData c (Some (tokens (CHR 0x0A) (xw_text 4))) (Some (tokens (CHR 0x0A) (print_csr demo_graph))) demo_globals
      = bindE (axw_total c (tile_dims 4) (length (edge_req_count demo_globals @ es))) (\<lambda>tot. Inr (tile_dims 4, [0, 2, 4, 4, 5], [1, 2, 0, 3, 3], tot, g'))"
    by (elim exE conjE)
  show "\<exists>(es :: u64 list) g'. ReadData c (Some (tokens (CHR 0x0A) (xw_text 4))) (Some (tokens (CHR 0x0A) (print_csr demo_graph))) demo_globals
      = bindE (axw_total c (tile_dims 4) (length es)) (\<lambda>tot. Inr (tile_dims 4, [0, 2, 4, 4, 5], [1, 2, 0, 3, 3], tot, g'))"
    by (rule exI, rule exI, rule r)
qed

section \<open>The translator\<close>

lemma foldE_first_fails: "i < n \<Longrightarrow> f i s = Inl e \<Longrightarrow> foldE f [i ..< n] s = Inl e"
  by (simp add: upt_conv_Cons)

lemma read_edge_line_length:
  "read_edge_line line s = Inr s' \<Longrightarrow> length (rowindex s') = length (rowindex s) \<and> length (colindex s') = length (colindex s)"
  by (auto simp: read_edge_line_def bindE_eq_Inr split: list.splits)

lemma read_edge_lines_length:
  "read_edge_lines n line i s = Inr s' \<Longrightarrow> length (rowindex s') = length (rowindex s) \<and> length (colindex s') = length (colindex s)"
  by (induction n arbitrary: line i s) (auto simp: bindE_eq_Inr dest!: read_edge_line_length split: prod.splits)

text \<open>\<open>csr_translator\<close> reads \<open>rowindex[-1]\<close> for the first vertex of every graph that has one, because its guard asks for
  \<open>v != 0\<close> where \<open>i != 0\<close> is meant.  The only file it can write within the language is that of the graph
  without vertices.\<close>

theorem translator_only_empty:
  assumes "csr_translator inp = Inr out"
  shows "out = ''0 ''"
proof -
  obtain body where body: "inp = Some body" using assms by (cases inp) (simp_all add: csr_translator_def)
  obtain b1 line1 f1 where g1: "get_delim (CHR 0x0A) [] (stream_of body) = (b1, line1, f1)" by (cases "get_delim (CHR 0x0A) [] (stream_of body)")
  obtain b2 line2 f2 where g2: "get_delim (CHR 0x0A) line1 f1 = (b2, line2, f2)" by (cases "get_delim (CHR 0x0A) line1 f1")
  from assms body g1 g2 obtain v e s s' where v: "0 \<le> v"
    "read_edge_lines (nat e) line2 f2 \<lparr>rowindex = replicate (nat v) 0, colindex = replicate (nat v) []\<rparr> = Inr s"
    "foldE (accumulate_row v) [0 ..< nat v] s = Inr s'" "out = print_translated s'"
    by (auto simp: csr_translator_def bindE_eq_Inr)
  have "v = 0"
  proof (rule ccontr)
    assume "v \<noteq> 0"
    then have "accumulate_row v 0 s = Inl UB_Index" by (simp add: accumulate_row_def in_array_def)
    then show False using v(1,3) \<open>v \<noteq> 0\<close> foldE_first_fails [of 0 "nat v" "accumulate_row v" s] by simp
  qed
  then have "s' = s" "rowindex s = []" "colindex s = []" using v(2,3) read_edge_lines_length [OF v(2)] by simp_all
  then show ?thesis using v(4) by (simp add: print_translated_def)
qed

theorem translator_only_empty_witness: "\<exists>out. csr_translator (Some (''0'' @ [CHR 0x0A] @ ''0'')) = Inr out \<and> out = ''0 ''"
proof -
  have "stoi ''0'' = Inr 0" by (simp add: stoi_def parse_dec_def split_sign_def is_space_char_def is_digit_def digits_val_def)
  then have "\<exists>out. csr_translator (Some (''0'' @ [CHR 0x0A] @ ''0'')) = Inr out"
    by (simp add: csr_translator_def get_delim_def stream_of_def)
  then show ?thesis using translator_only_empty by blast
qed

end
