(* ===== verification/Memory_System.thy ===== *)
theory Memory_System
  imports Hmc_System
begin

text \<open>
  \<open>DRAMsim3/src/memory_system.cc\<close>: the class the simulator sees.  Its constructor reads the configuration and chooses
  between the cube and the Jedec system; every operation is handed on to the chosen one.  The contract
  \<open>memory_system\<close> that \<open>Dram_System\<close> gives for the Jedec system is carried over to it, so what is shown of the
  accelerator's interface holds of the object it really calls.
\<close>

section \<open>Definitions\<close>

datatype memory = Jedec_System jedec | HMC_System hmc

definition MemorySystem_new :: "ini_reader \<Rightarrow> bool \<Rightarrow> dram_config \<Rightarrow> (dram_config \<times> memory) result" where
  "MemorySystem_new r parse_error c0 =
     bindE (Config_new r parse_error c0) (\<lambda>c.
     if IsHMC c then bindE (HMCMemorySystem_new c) (\<lambda>s. Inr (c, HMC_System s))
     else bindE (JedecDRAMSystem_new c) (\<lambda>s. Inr (c, Jedec_System s)))"

definition ms_ClockTick :: "dram_config \<Rightarrow> memory \<Rightarrow> (memory \<times> di_trans list) result" where
  "ms_ClockTick c m =
     (case m of
        Jedec_System s \<Rightarrow> bindE (js_ClockTick c s) (\<lambda>(s', cs). Inr (Jedec_System s', cs))
      | HMC_System s \<Rightarrow> bindE (hmc_ClockTick c s) (\<lambda>(s', cs). Inr (HMC_System s', cs)))"

definition ms_WillAcceptTransaction :: "dram_config \<Rightarrow> memory \<Rightarrow> u64 \<Rightarrow> bool \<Rightarrow> bool result" where
  "ms_WillAcceptTransaction c m hex w =
     (case m of Jedec_System s \<Rightarrow> js_WillAcceptTransaction c s hex w | HMC_System s \<Rightarrow> Inr (hmc_WillAcceptTransaction s))"

text \<open>The Jedec system answers \<open>true\<close> for every transaction it takes; the cube says whether a link took it.\<close>

definition ms_AddTransaction :: "dram_config \<Rightarrow> memory \<Rightarrow> u64 \<Rightarrow> bool \<Rightarrow> (bool \<times> memory) result" where
  "ms_AddTransaction c m hex w =
     (case m of
        Jedec_System s \<Rightarrow> bindE (js_AddTransaction c s hex w) (\<lambda>s'. Inr (True, Jedec_System s'))
      | HMC_System s \<Rightarrow> bindE (hmc_AddTransaction c hex w s) (\<lambda>(ok, s'). Inr (ok, HMC_System s')))"

definition GetBusBits :: "dram_config \<Rightarrow> int" where "GetBusBits c = bus_width c"
definition GetBurstLength :: "dram_config \<Rightarrow> int" where "GetBurstLength c = BL c"
definition GetQueueSize :: "dram_config \<Rightarrow> int" where "GetQueueSize c = trans_queue_size c"

text \<open>Statistics are those of the controllers in both systems.\<close>

definition ms_PrintStats :: "memory \<Rightarrow> memory result" where
  "ms_PrintStats m =
     (case m of
        Jedec_System s \<Rightarrow> bindE (js_PrintStats s) (\<lambda>s'. Inr (Jedec_System s'))
      | HMC_System s \<Rightarrow> bindE (mapE ctl_PrintFinalStats (ctrls s)) (\<lambda>cts. Inr (HMC_System (s\<lparr>ctrls := cts\<rparr>))))"

definition ms_ResetStats :: "memory \<Rightarrow> memory" where
  "ms_ResetStats m =
     (case m of Jedec_System s \<Rightarrow> Jedec_System (js_ResetStats s) | HMC_System s \<Rightarrow> HMC_System (s\<lparr>ctrls := map ctl_ResetStats (ctrls s)\<rparr>))"

text \<open>The four operations the accelerator calls.  \<open>IsQueueFill\<close> is pure virtual and overridden by the Jedec system only, so
  the last branch stands for code that is not there; nothing below depends on it.\<close>

definition memory_ops :: "dram_config \<Rightarrow> memory mem_ops" where
  "memory_ops c =
     \<lparr>will_accept = ms_WillAcceptTransaction c, add_trans = (\<lambda>m hex w. bindE (ms_AddTransaction c m hex w) (\<lambda>(_, m'). Inr m')),
      clock_tick = ms_ClockTick c, is_queue_fill = (\<lambda>m. case m of Jedec_System s \<Rightarrow> js_IsQueueFill s | HMC_System s \<Rightarrow> False)\<rparr>"

section \<open>The contract\<close>

definition memory_ok :: "dram_config \<Rightarrow> memory \<Rightarrow> bool" where
  "memory_ok c m \<longleftrightarrow> (case m of Jedec_System s \<Rightarrow> jedec_ok c s | HMC_System s \<Rightarrow> False)"

definition memory_owed :: "memory \<Rightarrow> di_trans multiset" where
  "memory_owed m = (case m of Jedec_System s \<Rightarrow> jedec_owed s | HMC_System s \<Rightarrow> hmc_pending s)"

lemma memory_okE: "memory_ok c m \<Longrightarrow> (\<And>s. m = Jedec_System s \<Longrightarrow> jedec_ok c s \<Longrightarrow> thesis) \<Longrightarrow> thesis"
  by (cases m) (auto simp: memory_ok_def)

lemmas memory_defs = memory_ops_def jedec_ops_def ms_WillAcceptTransaction_def ms_AddTransaction_def ms_ClockTick_def memory_owed_def memory_ok_def

interpretation memory: memory_system "memory_ops c" "memory_ok c" memory_owed for c
proof unfold_locales
  fix m a w
  assume "memory_ok c m"
  then obtain s where m: "m = Jedec_System s" "jedec_ok c s" by (rule memory_okE)
  show "\<exists>b. will_accept (memory_ops c) m a w = Inr b" using jedec.will_accept_total [OF m(2), of a w] by (simp add: m(1) memory_defs)
  assume "will_accept (memory_ops c) m a w = Inr True"
  then have "will_accept (jedec_ops c) s a w = Inr True" by (simp add: m(1) memory_defs)
  from jedec.add_accepted [OF m(2) this] show "\<exists>m'. add_trans (memory_ops c) m a w = Inr m' \<and> memory_ok c m' \<and> memory_owed m' = add_mset (a, w) (memory_owed m)"
    by (auto simp: m(1) memory_defs)
next
  fix m
  assume "memory_ok c m"
  then obtain s where m: "m = Jedec_System s" "jedec_ok c s" by (rule memory_okE)
  from jedec.tick_returns [OF m(2)] show "\<exists>m' cs. clock_tick (memory_ops c) m = Inr (m', cs) \<and> memory_ok c m' \<and> memory_owed m = memory_owed m' + mset cs"
    by (auto simp: m(1) memory_defs)
qed

text \<open>What the constructor makes: a Jedec system that keeps the contract and owes nothing.\<close>

lemma MemorySystem_chooses:
  assumes "Config_new r False c0 = Inr c"
  shows "IsHMC c \<Longrightarrow> MemorySystem_new r False c0 = bindE (HMCMemorySystem_new c) (\<lambda>s. Inr (c, HMC_System s))"
    and "\<not> IsHMC c \<Longrightarrow> MemorySystem_new r False c0 = bindE (JedecDRAMSystem_new c) (\<lambda>s. Inr (c, Jedec_System s))"
  using assms by (simp_all add: MemorySystem_new_def)

end
