(* ===== verification/Thermal_Plan.thy ===== *)
theory Thermal_Plan
  imports Dram_Config Dyadic Data_Reader
begin

text \<open>
  The heat map of \<open>DRAMsim3/src/thermal.cc\<close>, compiled with \<open>THERMAL\<close>: the power and thermal parameters of
  \<open>configuration.cc\<close>, the floor plan of \<open>ThermalCalculator\<close>, the mapping of locations, and where the energy of
  every command is added.  The temperatures follow in \<open>Thermal_Solver\<close> and \<open>Thermal_Run\<close>; the console output is left
  out.  A \<open>double\<close> is a fraction as in \<open>Rounding\<close>; every \<open>int\<close> is a \<open>double\<close> exactly, and the values that can be
  infinite or not a number, the aspect ratios, are \<open>None\<close> there.  \<open>INIReader::GetReal\<close> is the argument \<open>get_real\<close>.
\<close>

unbundle bit_operations_syntax

section \<open>Parameters\<close>

abbreviation dval :: "int \<Rightarrow> fl" where "dval i \<equiv> (i, 1)"

abbreviation d_mul :: "fl \<Rightarrow> fl \<Rightarrow> fl" where "d_mul \<equiv> fl_mul double_p"
abbreviation d_div :: "fl \<Rightarrow> fl \<Rightarrow> fl" where "d_div \<equiv> fl_div double_p"
abbreviation d_add :: "fl \<Rightarrow> fl \<Rightarrow> fl" where "d_add \<equiv> fl_add double_p"
abbreviation d_sub :: "fl \<Rightarrow> fl \<Rightarrow> fl" where "d_sub \<equiv> fl_sub double_p"

record thermal_config =
  num_dies :: int
  mat_dim_x :: int
  mat_dim_y :: int
  num_x_grids :: int
  num_y_grids :: int
  tile_row_num :: int
  row_tile :: int
  bank_asr :: "fl option"
  loc_mapping :: string
  bank_order :: int
  bank_layer_order :: int
  num_row_refresh :: int
  const_logic_power :: fl
  chip_dim_x :: fl
  chip_dim_y :: fl
  amb_temp :: fl
  act_energy_inc :: fl
  read_energy_inc :: fl
  write_energy_inc :: fl
  ref_energy_inc :: fl
  refb_energy_inc :: fl
  act_stb_energy_inc :: fl
  pre_stb_energy_inc :: fl
  pre_pd_energy_inc :: fl
  sref_energy_inc :: fl

definition InitPowerParams :: "(string \<Rightarrow> string \<Rightarrow> fl \<Rightarrow> fl) \<Rightarrow> dram_config \<Rightarrow> thermal_config \<Rightarrow> thermal_config" where
  "InitPowerParams get_real c tc =
     (let g = get_real ''power''; VDD = g ''VDD'' (fl_round double_p (12, 10)); IDD0 = g ''IDD0'' (dval 48); IDD2P = g ''IDD2P'' (dval 25);
          IDD2N = g ''IDD2N'' (dval 34); IDD3N = g ''IDD3N'' (dval 43); IDD4W = g ''IDD4W'' (dval 123); IDD4R = g ''IDD4R'' (dval 135);
          IDD5AB = g ''IDD5AB'' (dval 250); IDD5PB = g ''IDD5PB'' (dval 5); IDD6x = g ''IDD6x'' (dval 31);
          devices = dval (devices_per_rank c) in
      tc\<lparr>act_energy_inc := d_mul (d_mul VDD (d_sub (d_mul IDD0 (dval (tRC c))) (d_add (d_mul IDD3N (dval (tRAS c))) (d_mul IDD2N (dval (tRP c)))))) devices,
         read_energy_inc := d_mul (d_mul (d_mul VDD (d_sub IDD4R IDD3N)) (dval (burst_cycle c))) devices,
         write_energy_inc := d_mul (d_mul (d_mul VDD (d_sub IDD4W IDD3N)) (dval (burst_cycle c))) devices,
         ref_energy_inc := d_mul (d_mul (d_mul VDD (d_sub IDD5AB IDD3N)) (dval (tRFC c))) devices,
         refb_energy_inc := d_mul (d_mul (d_mul VDD (d_sub IDD5PB IDD3N)) (dval (tRFCb c))) devices,
         act_stb_energy_inc := d_mul (d_mul VDD IDD3N) devices,
         pre_stb_energy_inc := d_mul (d_mul VDD IDD2N) devices,
         pre_pd_energy_inc := d_mul (d_mul VDD IDD2P) devices,
         sref_energy_inc := d_mul (d_mul VDD IDD6x) devices\<rparr>)"

text \<open>\<open>(double)num_x_grids / num_y_grids\<close>; \<open>None\<close> is an infinity or not a number.\<close>

definition grid_asr :: "int \<Rightarrow> int \<Rightarrow> fl option" where
  "grid_asr nx ny = (if ny = 0 then None else Some (d_div (dval nx) (dval ny)))"

text \<open>\<open>while (row_tile * row_tile * 4 < bank_asr) row_tile *= 2\<close>; the first two conditions hold for every call.\<close>

function row_tiles :: "fl \<Rightarrow> int \<Rightarrow> int" where
  "row_tiles asr t = (if 0 < t \<and> 0 < snd asr \<and> fl_less (dval (t * t * 4)) asr then row_tiles asr (t * 2) else t)"
  by pat_completeness auto

termination row_tiles
proof (relation "measure (\<lambda>(asr, t). nat (fst asr - t))", goal_cases)
  case (2 asr t)
  then have h: "0 < t" "t * t * 4 * int (snd asr) < fst asr" "1 \<le> int (snd asr)" by (auto simp: fl_less_def)
  have "t * 1 \<le> t * t * 4" using h(1) by (simp only: mult.assoc) (intro mult_left_mono, auto)
  moreover have "t * t * 4 * 1 \<le> t * t * 4 * int (snd asr)" using h(1,3) by (intro mult_left_mono) auto
  ultimately have "t < fst asr" using h(2) by linarith
  then show ?case using h(1) by simp
qed simp

declare row_tiles.simps [simp del]

text \<open>\<open>static_cast<int>(ceil(rows / (64 * 1e6 / (tREFI * tCK))))\<close>\<close>

definition rows_per_refresh :: "int \<Rightarrow> int \<Rightarrow> fl \<Rightarrow> int result" where
  "rows_per_refresh rs refi tck =
     (let ns = d_mul (dval refi) tck in
      if fst ns = 0 then Inr 0 else to_c_int (fl_ceil (d_div (dval rs) (d_div (dval (64 * 1000000)) ns))))"

definition InitThermalParams :: "ini_reader \<Rightarrow> (string \<Rightarrow> string \<Rightarrow> fl \<Rightarrow> fl) \<Rightarrow> fl \<Rightarrow> dram_config \<Rightarrow> thermal_config \<Rightarrow> thermal_config result" where
  "InitThermalParams r get_real tck c tc =
     (let mx = cfg_GetInteger r ''thermal'' ''mat_dim_x'' 512; my = cfg_GetInteger r ''thermal'' ''mat_dim_y'' 512 in
      bindE (c_div (rows c) mx) (\<lambda>nx.
      bindE (c_div (columns c * device_width c) my) (\<lambda>ny.
      let asr = grid_asr nx ny; g = get_real ''thermal''; hundredth = fl_round double_p (1, 100);
          tc1 = tc\<lparr>const_logic_power := g ''const_logic_power'' (dval 5), mat_dim_x := mx, mat_dim_y := my\<rparr> in
      if banks_per_group c = 1 \<and> (case asr of None \<Rightarrow> 0 < nx | Some a \<Rightarrow> fl_less (dval 4) a) then
        (case asr of
           None \<Rightarrow> Inl Diverges
         | Some a \<Rightarrow>
             let t = row_tiles a 1 in
             bindE (c_div nx t) (\<lambda>nx'. bindE (c_div (rows c) t) (\<lambda>trn.
             Inr (tc1\<lparr>num_x_grids := nx', tile_row_num := trn, num_y_grids := ny * t, row_tile := t, bank_asr := grid_asr nx' (ny * t)\<rparr>))))
      else
        bindE (rows_per_refresh (rows c) (tREFI c) tck) (\<lambda>nrr.
        Inr (tc1\<lparr>num_x_grids := nx, tile_row_num := rows c, num_y_grids := ny, row_tile := 1, bank_asr := asr,
                 loc_mapping := rd_Get r ''thermal'' ''loc_mapping'' [], bank_order := cfg_GetInteger r ''thermal'' ''bank_order'' 1,
                 bank_layer_order := cfg_GetInteger r ''thermal'' ''bank_layer_order'' 0, num_row_refresh := nrr,
                 chip_dim_x := g ''chip_dim_x'' hundredth, chip_dim_y := g ''chip_dim_y'' hundredth, amb_temp := g ''amb_temp'' (dval 40)\<rparr>)))))"

section \<open>Locations\<close>

text \<open>One entry of a field of \<open>loc_mapping\<close>: a position or an inclusive range in either direction.\<close>

definition span :: "int \<Rightarrow> int \<Rightarrow> int list" where
  "span a b = (if a > b then rev [b..a] else [a..b])"

definition positions_of :: "string \<Rightarrow> int list result" where
  "positions_of s =
     (if CHR '':'' \<notin> set s then bindE (stoi s) (\<lambda>p. Inr [p])
      else bindE (stoi (takeWhile (\<lambda>ch. ch \<noteq> CHR '':'') s)) (\<lambda>a.
           bindE (stoi (tl (dropWhile (\<lambda>ch. ch \<noteq> CHR '':'') s))) (\<lambda>b. Inr (span a b))))"

definition field_positions :: "string \<Rightarrow> int list result" where
  "field_positions s = bindE (mapE positions_of (filter (\<lambda>t. t \<noteq> []) (StringSplit s (CHR ''-'')))) (\<lambda>ps. Inr (concat ps))"

text \<open>\<open>None\<close> is the mapping that leaves an address alone.\<close>

definition SetPhyAddressMapping :: "string \<Rightarrow> int list list option result" where
  "SetPhyAddressMapping s =
     (if s = [] then Inr None
      else let bit_fields = StringSplit s (CHR '','') in
        if length bit_fields \<noteq> 6 then Inl Abrupt_Exit
        else bindE (mapE field_positions bit_fields) (\<lambda>mp. Inr (Some mp)))"

definition shl64 :: "u64 \<Rightarrow> int \<Rightarrow> u64 result" where
  "shl64 w p = (if 0 \<le> p \<and> p < 64 then Inr (push_bit (nat p) w) else Inl UB_Shift)"

definition put_bit :: "int \<Rightarrow> nat \<Rightarrow> nat \<times> int \<Rightarrow> u64 \<Rightarrow> u64 result" where
  "put_bit v w jp new_hex =
     bindE (GetBitInPos (u64_of_int v) (int w - int (fst jp) - 1)) (\<lambda>this_bit.
     bindE (shl64 (u64_of_int this_bit) (snd jp)) (\<lambda>new_bit. Inr (new_hex OR new_bit)))"

definition put_field :: "int \<times> int list \<Rightarrow> u64 \<Rightarrow> u64 result" where
  "put_field f new_hex = foldE (put_bit (fst f) (length (snd f))) (enumerate 0 (snd f)) new_hex"

definition origin_pos :: "Address \<Rightarrow> int list" where
  "origin_pos a = [channel a, rank a, bankgroup a, bank a, row a, column a]"

text \<open>The fields of the new address from the last to the first.\<close>

fun slice_fields :: "u64 \<Rightarrow> nat \<Rightarrow> nat list \<Rightarrow> int list result" where
  "slice_fields h pos [] = Inr []"
| "slice_fields h pos (w # ws) =
     bindE (ModuloWidth h w pos) (\<lambda>v. bindE (slice_fields h (pos + w) ws) (\<lambda>vs. Inr (sint v # vs)))"

definition GetPhyAddress :: "dram_config \<Rightarrow> int list list option \<Rightarrow> Address \<Rightarrow> Address result" where
  "GetPhyAddress c mo a =
     (case mo of
        None \<Rightarrow> Inr a
      | Some mp \<Rightarrow>
          bindE (foldE put_field (zip (origin_pos a) mp) 0) (\<lambda>new_hex.
          bindE (slice_fields new_hex (nat (LogBase2 (BL c))) (map length (rev mp))) (\<lambda>vs.
          case vs of
            [co, ro, ba, bg, ra, ch] \<Rightarrow> Inr \<lparr>channel = ch, rank = ra, bankgroup = bg, bank = ba, row = ro, column = co\<rparr>
          | _ \<Rightarrow> Inl UB_Index)))"

section \<open>The floor plan\<close>

text \<open>The aspect ratio of \<open>x\<close> by \<open>y\<close> tiles of \<open>xd\<close> by \<open>yd\<close>.\<close>

definition asr_of :: "fl option \<Rightarrow> fl \<Rightarrow> int \<Rightarrow> int \<Rightarrow> fl option" where
  "asr_of xd yd x y =
     (case xd of
        None \<Rightarrow> None
      | Some d \<Rightarrow>
          let a = d_mul (dval x) d; b = d_mul (dval y) yd in
          if \<not> fl_less a b then Some (d_div (d_div a (dval y)) yd)
          else if fst d = 0 then None else Some (d_div (d_div b (dval x)) d))"

definition better_xy :: "fl option \<Rightarrow> fl \<Rightarrow> int \<Rightarrow> int \<Rightarrow> int \<times> fl \<Rightarrow> int \<times> fl" where
  "better_xy xd yd n y best =
     (let x = n div y in
      if x * y = n then
        (case asr_of xd yd x y of None \<Rightarrow> best | Some asr \<Rightarrow> if fl_less asr (snd best) then (x, asr) else best)
      else best)"

definition determineXY :: "fl option \<Rightarrow> fl \<Rightarrow> int \<Rightarrow> int" where
  "determineXY xd yd n = fst (fold (better_xy xd yd n) [1..n] (1, dval 1000))"

record thermal =
  numP :: int
  bank_x :: int
  bank_y :: int
  vault_x :: int
  vault_y :: int
  dimX :: int
  dimY :: int
  num_case :: int
  mapped_pos :: "int list list option"
  accu_Pmap :: "fl list list"
  cur_Pmap :: "fl list list"
  refresh_count :: "int list list"
  background_energy :: "fl list list"
  avg_logic_power :: fl
  sample_id :: int

text \<open>The dimensions, from the object \<open>t\<close> as allocated: without vaults \<open>vault_x\<close> and \<open>vault_y\<close> are never set.\<close>

definition floor_plan :: "dram_config \<Rightarrow> thermal_config \<Rightarrow> thermal \<Rightarrow> thermal result" where
  "floor_plan c tc t =
     (if IsHMC c then
        let vx = determineXY (map_option (d_mul (dval 1)) (bank_asr tc)) (d_mul (dval 2) (dval 1)) (channels c) in
        bindE (c_div (channels c) vx) (\<lambda>vy.
        Inr (t\<lparr>numP := num_dies tc + 1, bank_x := 1, bank_y := 2, vault_x := vx, vault_y := vy,
               dimX := vx * 1 * num_x_grids tc, dimY := vy * 2 * num_y_grids tc, num_case := 1\<rparr>))
      else if IsHBM c then
        Inr (t\<lparr>numP := num_dies tc + 1, bank_x := 8, bank_y := 2, vault_x := 1, vault_y := 2,
               dimX := 1 * 8 * num_x_grids tc, dimY := 2 * 2 * num_y_grids tc, num_case := 1\<rparr>)
      else
        let bx = determineXY (bank_asr tc) (dval 1) (banks c) in
        bindE (c_div (banks c) bx) (\<lambda>bky.
        Inr (t\<lparr>numP := 1, bank_x := bx, bank_y := bky, dimX := bx * num_x_grids tc, dimY := bky * num_y_grids tc,
               num_case := ranks c * channels c\<rparr>)))"

definition ThermalCalculator_new :: "dram_config \<Rightarrow> thermal_config \<Rightarrow> thermal \<Rightarrow> thermal result" where
  "ThermalCalculator_new c tc t0 =
     bindE (floor_plan c tc t0) (\<lambda>t.
     bindE (SetPhyAddressMapping (loc_mapping tc)) (\<lambda>mp.
     let zero_map = replicate (nat (num_case t)) (replicate (nat (numP t * dimX t * dimY t)) (dval 0)) in
     Inr (t\<lparr>mapped_pos := mp, accu_Pmap := zero_map, cur_Pmap := zero_map,
            refresh_count := replicate (nat (channels c * ranks c)) (replicate (nat (banks c)) 0),
            background_energy := replicate (nat (channels c)) (replicate (nat (ranks c)) (dval 0)),
            avg_logic_power := dval 0, sample_id := 0\<rparr>)))"

definition MapToVault :: "dram_config \<Rightarrow> thermal_config \<Rightarrow> thermal \<Rightarrow> int \<Rightarrow> (int \<times> int) result" where
  "MapToVault c tc t ch =
     (if IsHMC c then
        let f = (if bank_order tc = 0 then vault_x t else vault_y t) in
        bindE (c_div ch f) (\<lambda>q. bindE (c_rem ch f) (\<lambda>r. Inr (if bank_order tc = 0 then (r, q) else (q, r))))
      else if IsHBM c then bindE (c_rem ch 2) (\<lambda>r. Inr (0, r))
      else Inr (0, 0))"

definition MapToBank :: "dram_config \<Rightarrow> thermal_config \<Rightarrow> thermal \<Rightarrow> int \<Rightarrow> int \<Rightarrow> (int \<times> int) result" where
  "MapToBank c tc t bg b =
     (let abs_bank = bg * banks_per_group c + b;
          f = (if bank_order tc \<noteq> 0 then bank_y t else bank_x t);
          turn = (\<lambda>(q, r). if bank_order tc = 0 then (r, q) else (q, r)) in
      if IsHMC c then
        bindE (c_div (banks c) (num_dies tc)) (\<lambda>per_layer.
        bindE (c_rem abs_bank per_layer) (\<lambda>same_layer.
        bindE (c_div same_layer f) (\<lambda>q. bindE (c_rem same_layer f) (\<lambda>r. Inr (turn (q, r))))))
      else if IsHBM c then bindE (c_div b 2) (\<lambda>q. bindE (c_rem b 2) (\<lambda>r. Inr (bg * 2 + q, r)))
      else if bankgroups c > 1 then
        bindE (c_div b 2) (\<lambda>q. bindE (c_rem b 2) (\<lambda>r.
        let (x, y) = turn (q, r) in
        Inr (if bank_x t \<le> bank_y t then (x, y + bg * 2) else (x + bg * 2, y))))
      else bindE (c_div abs_bank f) (\<lambda>q. bindE (c_rem abs_bank f) (\<lambda>r. Inr (turn (q, r)))))"

definition MapToZ :: "dram_config \<Rightarrow> thermal_config \<Rightarrow> thermal \<Rightarrow> int \<Rightarrow> int \<Rightarrow> int result" where
  "MapToZ c tc t ch b =
     (if IsHMC c then
        bindE (c_div (banks c) (num_dies tc)) (\<lambda>per_layer.
        bindE (c_div b per_layer) (\<lambda>q. Inr (if bank_layer_order tc = 0 then q else numP t - q - 2)))
      else if IsHBM c then c_div ch 2
      else Inr 0)"

text \<open>Row and column of the grid inside a bank.\<close>

definition grid_x :: "thermal_config \<Rightarrow> int \<Rightarrow> int result" where
  "grid_x tc row_id = bindE (c_div row_id (mat_dim_x tc)) (\<lambda>m. c_div m (row_tile tc))"

definition grid_y :: "thermal_config \<Rightarrow> int \<Rightarrow> int \<Rightarrow> int result" where
  "grid_y tc row_id col_id =
     bindE (c_div row_id (tile_row_num tc)) (\<lambda>col_tile.
     bindE (c_div col_id (mat_dim_y tc)) (\<lambda>m.
     bindE (c_div (num_y_grids tc) (row_tile tc)) (\<lambda>per_tile. Inr (m + col_tile * per_tile))))"

text \<open>The coordinates of the \<open>device_width\<close> bits of one beat.\<close>

definition beat_xy :: "dram_config \<Rightarrow> thermal_config \<Rightarrow> thermal \<Rightarrow> Command \<Rightarrow> int \<times> int \<Rightarrow> int \<times> int \<Rightarrow> nat \<Rightarrow> (int \<times> int) list result" where
  "beat_xy c tc t cmd v b i =
     (let a = addr cmd in
      bindE (GetPhyAddress c (mapped_pos t) (a\<lparr>column := column a + int i\<rparr>)) (\<lambda>phy.
      mapE (\<lambda>j.
        bindE (grid_x tc (row a)) (\<lambda>gx.
        bindE (grid_y tc (row a) (column phy * device_width c + int j)) (\<lambda>gy.
        Inr (fst v * (bank_x t * num_x_grids tc) + fst b * num_x_grids tc + gx,
             snd v * (bank_y t * num_y_grids tc) + snd b * num_y_grids tc + gy))))
        [0..<nat (device_width c)]))"

definition MapToXY :: "dram_config \<Rightarrow> thermal_config \<Rightarrow> thermal \<Rightarrow> Command \<Rightarrow> int \<times> int \<Rightarrow> int \<times> int \<Rightarrow> (int \<times> int) list result" where
  "MapToXY c tc t cmd v b = bindE (mapE (beat_xy c tc t cmd v b) [0..<nat (BL c)]) (\<lambda>bs. Inr (concat bs))"

section \<open>Adding energy\<close>

definition add_to :: "int \<Rightarrow> int \<Rightarrow> fl \<Rightarrow> fl list list \<Rightarrow> fl list list result" where
  "add_to k i e m =
     bindE (vec_get m (idx_of_int k)) (\<lambda>r.
     bindE (vec_get r (idx_of_int i)) (\<lambda>x. Inr (m[idx_of_int k := r[idx_of_int i := d_add x e]])))"

definition add_cell :: "int \<Rightarrow> fl \<Rightarrow> int \<Rightarrow> thermal \<Rightarrow> thermal result" where
  "add_cell k e i t =
     bindE (add_to k i e (accu_Pmap t)) (\<lambda>a. bindE (add_to k i e (cur_Pmap t)) (\<lambda>b. Inr (t\<lparr>accu_Pmap := a, cur_Pmap := b\<rparr>)))"

definition cell_index :: "thermal \<Rightarrow> int \<Rightarrow> int \<times> int \<Rightarrow> int" where
  "cell_index t z p = z * (dimX t * dimY t) + snd p * dimX t + fst p"

definition LocationMappingANDaddEnergy ::
  "dram_config \<Rightarrow> thermal_config \<Rightarrow> int \<Rightarrow> Command \<Rightarrow> int \<Rightarrow> fl \<Rightarrow> thermal \<Rightarrow> thermal result" where
  "LocationMappingANDaddEnergy c tc ch cmd k add_energy t =
     bindE (MapToVault c tc t ch) (\<lambda>v.
     bindE (MapToBank c tc t (bankgroup (addr cmd)) (bank (addr cmd))) (\<lambda>b.
     bindE (MapToXY c tc t cmd v b) (\<lambda>xy.
     bindE (MapToZ c tc t ch (bank (addr cmd))) (\<lambda>z.
     foldE (add_cell k (d_div add_energy (dval (device_width c)))) (map (cell_index t z) xy) t))))"

definition LocationMappingANDaddEnergy_RF ::
  "dram_config \<Rightarrow> thermal_config \<Rightarrow> int \<Rightarrow> Command \<Rightarrow> int \<Rightarrow> int \<Rightarrow> int \<Rightarrow> fl \<Rightarrow> thermal \<Rightarrow> thermal result" where
  "LocationMappingANDaddEnergy_RF c tc ch cmd bank0 row0 k add_energy t =
     bindE (c_div bank0 (banks_per_group c)) (\<lambda>bg.
     bindE (c_rem bank0 (banks_per_group c)) (\<lambda>b.
     bindE (MapToVault c tc t ch) (\<lambda>v.
     bindE (MapToBank c tc t bg b) (\<lambda>p.
     bindE (MapToZ c tc t ch b) (\<lambda>z.
     bindE (GetPhyAddress c (mapped_pos t) ((addr cmd)\<lparr>row := row0, bankgroup := bg, bank := b\<rparr>)) (\<lambda>phy.
     bindE (grid_x tc (row phy)) (\<lambda>gx.
     bindE (grid_y tc (row phy) 0) (\<lambda>gy.
     let x = fst v * (bank_x t * num_x_grids tc) + fst p * num_x_grids tc + gx;
         y = snd v * (bank_y t * num_y_grids tc) + snd p * num_y_grids tc + gy in
     foldE (add_cell k add_energy) (map (\<lambda>i. cell_index t z (x, y + int i)) [0..<nat (num_y_grids tc)]) t))))))))"

section \<open>Commands\<close>

text \<open>The power map a command goes to, and the number of devices its energy is shared by.\<close>

definition case_of :: "dram_config \<Rightarrow> int \<Rightarrow> Command \<Rightarrow> int \<times> fl" where
  "case_of c ch cmd =
     (if IsHMC c \<or> IsHBM c then (0, dval 1) else (ch * ranks c + rank (addr cmd), dval (devices_per_rank c)))"

text \<open>The first row of the next refresh of a bank, and the counter behind it.\<close>

definition take_rows :: "dram_config \<Rightarrow> thermal_config \<Rightarrow> int \<Rightarrow> int \<Rightarrow> thermal \<Rightarrow> (int \<times> thermal) result" where
  "take_rows c tc k ib t =
     bindE (vec_get (refresh_count t) (idx_of_int k)) (\<lambda>r.
     bindE (vec_get r (idx_of_int ib)) (\<lambda>n.
     let n' = (if (n + 1) * num_row_refresh tc = rows c then 0 else n + 1) in
     Inr (n * num_row_refresh tc, t\<lparr>refresh_count := (refresh_count t)[idx_of_int k := r[idx_of_int ib := n']]\<rparr>)))"

definition refresh_rows :: "dram_config \<Rightarrow> thermal_config \<Rightarrow> int \<Rightarrow> Command \<Rightarrow> fl \<Rightarrow> int \<Rightarrow> thermal \<Rightarrow> thermal result" where
  "refresh_rows c tc ch cmd e ib t =
     bindE (take_rows c tc (ch * ranks c + rank (addr cmd)) ib t) (\<lambda>(row_s, t1).
     foldE (\<lambda>ir. LocationMappingANDaddEnergy_RF c tc ch cmd ib ir (fst (case_of c ch cmd)) e)
       (map (\<lambda>i. row_s + int i) [0..<nat (num_row_refresh tc)]) t1)"

definition cmd_energy :: "thermal_config \<Rightarrow> CommandType \<Rightarrow> fl" where
  "cmd_energy tc k =
     (case k of
        CMD_ACTIVATE \<Rightarrow> act_energy_inc tc
      | CMD_READ \<Rightarrow> read_energy_inc tc
      | CMD_READ_PRECHARGE \<Rightarrow> read_energy_inc tc
      | CMD_WRITE \<Rightarrow> write_energy_inc tc
      | CMD_WRITE_PRECHARGE \<Rightarrow> write_energy_inc tc
      | _ \<Rightarrow> dval 0)"

definition UpdateCMDPower :: "dram_config \<Rightarrow> thermal_config \<Rightarrow> int \<Rightarrow> Command \<Rightarrow> thermal \<Rightarrow> thermal result" where
  "UpdateCMDPower c tc ch cmd t =
     (let (k, device_scale) = case_of c ch cmd; scaled = (\<lambda>e. d_div (d_div e (dval 1000)) device_scale) in
      if cmd_type cmd = CMD_REFRESH then
        let energy = d_div (d_div (d_div (ref_energy_inc tc) (dval (num_row_refresh tc))) (dval (banks c))) (dval (num_y_grids tc)) in
        foldE (refresh_rows c tc ch cmd (scaled energy)) (map int [0..<nat (banks c)]) t
      else if cmd_type cmd = CMD_REFRESH_BANK then
        let energy = d_div (d_div (refb_energy_inc tc) (dval (num_row_refresh tc))) (dval (num_y_grids tc)) in
        refresh_rows c tc ch cmd (scaled energy) (bank (addr cmd)) t
      else
        let energy = cmd_energy tc (cmd_type cmd) in
        if fl_less (dval 0) energy
        then LocationMappingANDaddEnergy c tc ch cmd k (scaled (d_div energy (dval (BL c)))) t
        else Inr t)"

section \<open>Epochs\<close>

definition UpdateBackgroundEnergy :: "int \<Rightarrow> int \<Rightarrow> fl \<Rightarrow> thermal \<Rightarrow> thermal result" where
  "UpdateBackgroundEnergy ch rk energy t =
     bindE (vec_get (background_energy t) (idx_of_int ch)) (\<lambda>v.
     bindE (vec_set v (idx_of_int rk) energy) (\<lambda>v'.
     Inr (t\<lparr>background_energy := (background_energy t)[idx_of_int ch := v']\<rparr>)))"

definition SetLogicPower :: "fl \<Rightarrow> thermal \<Rightarrow> thermal" where
  "SetLogicPower p t = t\<lparr>avg_logic_power := p\<rparr>"

definition UpdatePowerMaps :: "dram_config \<Rightarrow> fl \<Rightarrow> bool \<Rightarrow> u64 \<Rightarrow> thermal \<Rightarrow> thermal result" where
  "UpdatePowerMaps c add_energy is_trans clk t =
     (let period = (if is_trans then dval (epoch_period c) else fl_of_u64 double_p clk);
          n = dimX t * dimY t * (numP t - 1);
          logic = d_mul (d_div (d_div (avg_logic_power t) (dval (dimX t))) (dval (dimY t))) period;
          one_case = (\<lambda>j m. bindE (foldE (\<lambda>i. add_to j i add_energy) [0..n - 1] m)
                              (foldE (\<lambda>i. add_to j i logic) [n..dimX t * dimY t * numP t - 1])) in
      bindE (foldE one_case [0..num_case t - 1] (if is_trans then cur_Pmap t else accu_Pmap t)) (\<lambda>m.
      Inr (if is_trans then t\<lparr>cur_Pmap := m\<rparr> else t\<lparr>accu_Pmap := m\<rparr>)))"

text \<open>\<open>for (int k = 0; k < n; i++) p_map[case_id][...] += e;\<close> with the index \<open>k\<close> in \<open>UpdateEpoch\<close> and \<open>i\<close> in
  \<open>PrintFinalPT\<close>: the loop counts \<open>i\<close>, the variable of the outermost loop.\<close>

partial_function (option) spread_loop ::
  "bool \<Rightarrow> int \<Rightarrow> int \<Rightarrow> int \<Rightarrow> fl \<Rightarrow> int \<Rightarrow> fl list list \<Rightarrow> (int \<times> fl list list) result option" where
  "spread_loop at_i n k cid e i m =
     (if k < n then
        (case add_to cid (if at_i then i else k) e m of
           Inl f \<Rightarrow> Some (Inl f) | Inr m' \<Rightarrow> spread_loop at_i n k cid e (i + 1) m')
      else Some (Inr (i, m)))"

definition spread_rank :: "dram_config \<Rightarrow> thermal \<Rightarrow> bool \<Rightarrow> int \<Rightarrow> int \<times> fl list list \<Rightarrow> (int \<times> fl list list) result" where
  "spread_rank c t at_i j im =
     (let i = fst im; n = dimX t * dimY t * numP t in
      bindE (vec_get (background_energy t) (idx_of_int i)) (\<lambda>v.
      bindE (vec_get v (idx_of_int j)) (\<lambda>b.
      let e = d_div (d_div (d_div b (dval n)) (dval 1000)) (dval (devices_per_rank c)) in
      case spread_loop at_i n 0 (i * ranks c + j) e i (snd im) of None \<Rightarrow> Inl Diverges | Some r \<Rightarrow> r)))"

partial_function (option) spread_channels ::
  "dram_config \<Rightarrow> thermal \<Rightarrow> bool \<Rightarrow> int \<Rightarrow> fl list list \<Rightarrow> fl list list result option" where
  "spread_channels c t at_i i m =
     (if i < channels c then
        (case foldE (spread_rank c t at_i) [0..ranks c - 1] (i, m) of
           Inl f \<Rightarrow> Some (Inl f) | Inr im \<Rightarrow> spread_channels c t at_i (fst im + 1) (snd im))
      else Some (Inr m))"

definition total_background :: "thermal \<Rightarrow> fl" where
  "total_background t = foldl d_add (dval 0) (concat (background_energy t))"

definition stacked_background :: "thermal \<Rightarrow> fl" where
  "stacked_background t = d_div (d_div (total_background t) (dval (dimX t * dimY t * (numP t - 1)))) (dval 1000)"

definition UpdateEpoch :: "dram_config \<Rightarrow> u64 \<Rightarrow> thermal \<Rightarrow> thermal result" where
  "UpdateEpoch c clk t =
     (if IsHBM c \<or> IsHMC c then UpdatePowerMaps c (stacked_background t) True (u64_of_int (epoch_period c)) t
      else
        bindE (case spread_channels c t False 0 (cur_Pmap t) of None \<Rightarrow> Inl Diverges | Some r \<Rightarrow> r) (\<lambda>m.
        Inr (t\<lparr>cur_Pmap := m\<rparr>)))"

text \<open>The end of \<open>PrintTransPT\<close>: the epoch's map is cleared after it was printed.\<close>

definition clear_epoch :: "thermal \<Rightarrow> thermal result" where
  "clear_epoch t =
     bindE (mapE (\<lambda>r. let n = nat (numP t * dimX t * dimY t) in
              if n \<le> length r then Inr (replicate n (dval 0) @ drop n r) else Inl UB_Index) (cur_Pmap t)) (\<lambda>m.
     Inr (t\<lparr>cur_Pmap := m, sample_id := sample_id t + 1\<rparr>))"

text \<open>What \<open>PrintFinalPT\<close> does to the power map before it calls the solver.\<close>

definition final_power :: "dram_config \<Rightarrow> u64 \<Rightarrow> thermal \<Rightarrow> thermal result" where
  "final_power c clk t =
     (if IsHBM c \<or> IsHMC c then UpdatePowerMaps c (stacked_background t) False clk t
      else
        bindE (case spread_channels c t True 0 (accu_Pmap t) of None \<Rightarrow> Inl Diverges | Some r \<Rightarrow> r) (\<lambda>m.
        Inr (t\<lparr>accu_Pmap := m\<rparr>)))"

text \<open>The power matrix the solver gets: the map of a case, divided by the time, with a border of one cell.\<close>

definition InitPowerM :: "dram_config \<Rightarrow> int \<Rightarrow> u64 \<Rightarrow> thermal \<Rightarrow> fl list list list result" where
  "InitPowerM c k clk t =
     (let dv = (if clk = 0 then dval (epoch_period c) else fl_of_u64 double_p clk);
          power_map = (if clk = 0 then cur_Pmap t else accu_Pmap t) in
      mapE (\<lambda>i. mapE (\<lambda>j. mapE (\<lambda>l.
        if 1 \<le> i \<and> i \<le> dimX t \<and> 1 \<le> j \<and> j \<le> dimY t then
          bindE (vec_get power_map (idx_of_int k)) (\<lambda>r.
          bindE (vec_get r (idx_of_int (cell_index t l (i - 1, j - 1)))) (\<lambda>p. Inr (d_div p dv)))
        else Inr (dval 0)) [0..numP t - 1]) [0..dimY t + 1]) [0..dimX t + 1])"

section \<open>The table of banks\<close>

record bank_line =
  vault_id :: int
  abs_bank_id :: int
  start_x :: int
  end_x :: int
  start_y :: int
  end_y :: int
  layer :: int

definition bank_line_of :: "dram_config \<Rightarrow> thermal_config \<Rightarrow> thermal \<Rightarrow> int \<Rightarrow> int \<Rightarrow> int \<Rightarrow> bank_line result" where
  "bank_line_of c tc t ch bg b =
     (let ab = bg * banks_per_group c + b in
      bindE (MapToVault c tc t ch) (\<lambda>v.
      bindE (MapToZ c tc t ch ab) (\<lambda>z.
      bindE (MapToBank c tc t bg b) (\<lambda>p.
      let ox = bank_x t * num_x_grids tc; oy = bank_y t * num_y_grids tc in
      Inr \<lparr>vault_id = ch, abs_bank_id = ab,
           start_x = fst v * ox + fst p * num_x_grids tc, end_x = fst v * ox + (fst p + 1) * num_x_grids tc - 1,
           start_y = snd v * oy + snd p * num_y_grids tc, end_y = snd v * oy + (snd p + 1) * num_y_grids tc - 1,
           layer = z\<rparr>))))"

definition PrintCSV_bank :: "dram_config \<Rightarrow> thermal_config \<Rightarrow> thermal \<Rightarrow> bank_line list result" where
  "PrintCSV_bank c tc t =
     mapE (\<lambda>(ch, bg, b). bank_line_of c tc t ch bg b)
       (List.product [0..channels c - 1] (List.product [0..bankgroups c - 1] [0..banks_per_group c - 1]))"

end
