(* ===== verification/Power_Stats.thy ===== *)
theory Power_Stats
  imports Thermal_Plan Simple_Stats
begin

text \<open>
  The computed values of \<open>DRAMsim3/src/simple_stats.cc\<close>: energies, bandwidth, power and averages at the end of an epoch
  and of the run, from the counters of \<open>Simple_Stats\<close> and the energy increments of \<open>Thermal_Plan\<close>.  A quotient with a zero
  number of cycles is an infinity or not a number, here \<open>None\<close>.  The lemmas show that the report leaves the counters
  as \<open>Simple_Stats\<close> has them, and that an average lies between the smallest and the largest recorded value.
\<close>

section \<open>Definitions\<close>

record computed =
  act_energy :: fl
  read_energy :: fl
  write_energy :: fl
  ref_energy :: fl
  refb_energy :: fl
  act_stb_energy :: "fl list"
  pre_stb_energy :: "fl list"
  sref_energy :: "fl list"
  average_bandwidth :: "fl option"
  total_energy :: fl
  average_power :: "fl option"
  average_read_latency :: fl
  average_interarrival :: fl

definition GetHistoAvg :: "histo_count \<Rightarrow> fl" where
  "GetHistoAvg hist_counts =
     (let (accu_sum, n) = histo_sums hist_counts in
      if n = 0 then dval 0 else d_div (fl_of_u64 double_p accu_sum) (fl_of_u64 double_p n))"

text \<open>A \<open>uint64_t\<close> times a \<open>double\<close>, and a \<open>double\<close> divided by one that may be zero.\<close>

abbreviation counted_energy :: "u64 \<Rightarrow> fl \<Rightarrow> fl" where "counted_energy n e \<equiv> d_mul (fl_of_u64 double_p n) e"

definition quotient :: "fl \<Rightarrow> fl \<Rightarrow> fl option" where
  "quotient x y = (if fst y = 0 then None else Some (d_div x y))"

definition rank_energy :: "thermal_config \<Rightarrow> (vec_name \<Rightarrow> u64 list) \<Rightarrow> nat \<Rightarrow> (fl \<times> fl \<times> fl) result" where
  "rank_energy tc vec i =
     bindE (vec_get (vec rank_active_cycles) i) (\<lambda>a.
     bindE (vec_get (vec all_bank_idle_cycles) i) (\<lambda>p.
     bindE (vec_get (vec sref_cycles) i) (\<lambda>s.
     Inr (counted_energy a (act_stb_energy_inc tc), counted_energy p (pre_stb_energy_inc tc), counted_energy s (sref_energy_inc tc)))))"

definition compute_stats ::
  "dram_config \<Rightarrow> thermal_config \<Rightarrow> fl \<Rightarrow> (counter_name \<Rightarrow> u64) \<Rightarrow> (vec_name \<Rightarrow> u64 list) \<Rightarrow> (histo_name \<Rightarrow> histo_count) \<Rightarrow> computed result" where
  "compute_stats c tc tck cnt vec hist =
     bindE (mapE (rank_energy tc vec) [0..<nat (ranks c)]) (\<lambda>rs.
     let act = counted_energy (cnt num_act_cmds) (act_energy_inc tc); rd = counted_energy (cnt num_read_cmds) (read_energy_inc tc);
         wr = counted_energy (cnt num_write_cmds) (write_energy_inc tc); rf = counted_energy (cnt num_ref_cmds) (ref_energy_inc tc);
         rb = counted_energy (cnt num_refb_cmds) (refb_energy_inc tc);
         background = foldl (\<lambda>b (a, p, s). d_add b (d_add (d_add a p) s)) (dval 0) rs;
         total_reqs = cnt num_reads_done + cnt num_writes_done; total_time = counted_energy (cnt num_cycles) tck;
         total = d_add (d_add (d_add (d_add (d_add act rd) wr) rf) rb) background in
     Inr \<lparr>act_energy = act, read_energy = rd, write_energy = wr, ref_energy = rf, refb_energy = rb,
          act_stb_energy = map fst rs, pre_stb_energy = map (fst \<circ> snd) rs, sref_energy = map (snd \<circ> snd) rs,
          average_bandwidth = quotient (fl_of_u64 double_p (total_reqs * u64_of_int (request_size_bytes c))) total_time,
          total_energy = total, average_power = quotient total (fl_of_u64 double_p (cnt num_cycles)),
          average_read_latency = GetHistoAvg (hist read_latency), average_interarrival = GetHistoAvg (hist interarrival_latency)\<rparr>)"

text \<open>\<open>UpdateEpochStats\<close> and \<open>UpdateFinalStats\<close> with the values they compute.\<close>

definition epoch_report :: "dram_config \<Rightarrow> thermal_config \<Rightarrow> fl \<Rightarrow> stats \<Rightarrow> (computed \<times> stats) result" where
  "epoch_report c tc tck st =
     bindE (UpdateCounters st) (\<lambda>st1.
     bindE (UpdateHistoBins st1) (\<lambda>st2.
     bindE (compute_stats c tc tck (epoch_counters st2) (epoch_vec_counters st2) (\<lambda>k. epoch_histo_counts (histos st2 k))) (\<lambda>r.
     Inr (r, st2\<lparr>epoch_counters := (\<lambda>_. 0), epoch_vec_counters := (\<lambda>k. map (\<lambda>_. 0) (epoch_vec_counters st2 k)),
                 histos := (\<lambda>k. (histos st2 k)\<lparr>epoch_histo_counts := []\<rparr>)\<rparr>))))"

definition final_report :: "dram_config \<Rightarrow> thermal_config \<Rightarrow> fl \<Rightarrow> stats \<Rightarrow> (computed \<times> stats) result" where
  "final_report c tc tck st =
     bindE (UpdateCounters st) (\<lambda>st1.
     bindE (UpdateHistoBins st1) (\<lambda>st2.
     bindE (compute_stats c tc tck (counters st2) (vec_counters st2) (\<lambda>k. histo_counts (histos st2 k))) (\<lambda>r. Inr (r, st2))))"

section \<open>The report leaves the counters alone\<close>

lemma compute_stats_total:
  assumes "\<And>k. length (vec k) = nat (ranks c)"
  shows "\<exists>r. compute_stats c tc tck cnt vec hist = Inr r \<and> length (act_stb_energy r) = nat (ranks c)"
proof -
  have "\<forall>i \<in> set [0..<nat (ranks c)]. \<exists>e. rank_energy tc vec i = Inr e \<and> True" using assms by (auto simp: rank_energy_def vec_get_def)
  from mapE_all [OF this] show ?thesis by (auto simp: compute_stats_def Let_def)
qed

lemma histos_kept:
  assumes "stats_ok n st" and "UpdateCounters st = Inr st1" and "UpdateHistoBins st1 = Inr st2"
  shows "stats_ok n st2"
proof -
  have "stats_ok n st1" using UpdateCounters_ok [OF assms(1)] assms(2) by auto
  then show ?thesis using UpdateHistoBins_ok assms(3) by fastforce
qed

lemma reports_total:
  assumes "stats_ok (nat (ranks c)) st"
  shows "\<exists>r st'. epoch_report c tc tck st = Inr (r, st') \<and> UpdateEpochStats st = Inr st'"
    and "\<exists>r st'. final_report c tc tck st = Inr (r, st') \<and> UpdateFinalStats st = Inr st'"
proof -
  obtain st1 where s1: "UpdateCounters st = Inr st1" "stats_ok (nat (ranks c)) st1" using UpdateCounters_ok [OF assms] by blast
  obtain st2 where s2: "UpdateHistoBins st1 = Inr st2" using UpdateHistoBins_ok [OF s1(2)] by blast
  have ok: "stats_ok (nat (ranks c)) st2" by (rule histos_kept [OF assms s1(1) s2])
  obtain r where "compute_stats c tc tck (epoch_counters st2) (epoch_vec_counters st2) (\<lambda>k. epoch_histo_counts (histos st2 k)) = Inr r"
    using compute_stats_total [of "epoch_vec_counters st2" c tc tck] ok unfolding stats_ok_def by blast
  then show "\<exists>r st'. epoch_report c tc tck st = Inr (r, st') \<and> UpdateEpochStats st = Inr st'"
    using s1(1) s2 by (simp add: epoch_report_def UpdateEpochStats_def)
  obtain r where "compute_stats c tc tck (counters st2) (vec_counters st2) (\<lambda>k. histo_counts (histos st2 k)) = Inr r"
    using compute_stats_total [of "vec_counters st2" c tc tck] ok unfolding stats_ok_def by blast
  then show "\<exists>r st'. final_report c tc tck st = Inr (r, st') \<and> UpdateFinalStats st = Inr st'"
    using s1(1) s2 by (simp add: final_report_def UpdateFinalStats_def)
qed

section \<open>Averages\<close>

text \<open>The sum and the number of the values of a histogram, as natural numbers.\<close>

definition value_sum :: "histo_count \<Rightarrow> nat" where
  "value_sum xs = (\<Sum>(v, n)\<leftarrow>xs. nat v * unat n)"

definition value_count :: "histo_count \<Rightarrow> nat" where
  "value_count xs = (\<Sum>(v, n)\<leftarrow>xs. unat n)"

lemma fold_sums:
  "fold (\<lambda>(v, n) (s, k). (s + u64_of_int v * n, k + n)) xs (s0, k0) = (s0 + (\<Sum>(v, n)\<leftarrow>xs. u64_of_int v * n), k0 + sum_list (map snd xs))"
  by (induction xs arbitrary: s0 k0) (auto simp: add.assoc)

lemma sums_as_nat:
  assumes "\<forall>(v, n) \<in> set xs. 0 \<le> v" 
  shows "histo_sums xs = (of_nat (value_sum xs), of_nat (value_count xs))"
proof -
  have "(\<Sum>(v, n)\<leftarrow>xs. u64_of_int v * n) = of_nat (value_sum xs)" using assms
    by (induction xs) (auto simp: value_sum_def u64_of_int_def)
  moreover have "sum_list (map snd xs) = of_nat (value_count xs)"
    by (induction xs) (auto simp: value_count_def)
  ultimately show ?thesis by (simp add: histo_sums_def fold_sums)
qed

lemma sum_bounds:
  assumes "\<forall>(v, n) \<in> set xs. int lo \<le> v \<and> v \<le> int hi"
  shows "lo * value_count xs \<le> value_sum xs \<and> value_sum xs \<le> hi * value_count xs"
  using assms
proof (induction xs)
  case (Cons x xs)
  obtain v n where x: "x = (v, n)" by (cases x)
  have v: "lo \<le> nat v" "nat v \<le> hi" using Cons.prems by (auto simp: x)
  have "lo * unat n \<le> nat v * unat n" "nat v * unat n \<le> hi * unat n" using v by (auto intro: mult_right_mono)
  moreover have "lo * value_count xs \<le> value_sum xs" "value_sum xs \<le> hi * value_count xs" using Cons by auto
  ultimately have "lo * unat n + lo * value_count xs \<le> nat v * unat n + value_sum xs" "nat v * unat n + value_sum xs \<le> hi * unat n + hi * value_count xs"
    by linarith+
  then show ?case by (simp add: x value_count_def value_sum_def distrib_left)
qed (simp add: value_count_def value_sum_def)

lemma average_between:
  assumes "\<forall>(v, n) \<in> set xs. int lo \<le> v \<and> v \<le> int hi" and "value_sum xs < 2 ^ 53" "value_count xs < 2 ^ 53" and "0 < value_count xs"
  shows "real lo \<le> fl_val (GetHistoAvg xs) \<and> fl_val (GetHistoAvg xs) \<le> real hi"
proof -
  let ?s = "value_sum xs" and ?n = "value_count xs"
  have nn: "\<forall>(v, n) \<in> set xs. 0 \<le> v" using assms(1) by force
  note b = sum_bounds [OF assms(1)]
  have u: "unat (of_nat ?s :: u64) = ?s" "unat (of_nat ?n :: u64) = ?n" using assms(2,3) by (simp_all add: unat_of_nat take_bit_nat_eq_self)
  have d: "dyadic 0 ?s (fl_of_u64 double_p (of_nat ?s))" "dyadic 0 ?n (fl_of_u64 double_p (of_nat ?n))"
    using dyadic_of_u64 [of "of_nat ?s" double_p 0] dyadic_of_u64 [of "of_nat ?n" double_p 0] assms(2,3) by (simp_all add: u double_p_def)
  have "(of_nat ?n :: u64) \<noteq> 0" using u(2) assms(4) by auto
  then have avg: "GetHistoAvg xs = d_div (fl_of_u64 double_p (of_nat ?s)) (fl_of_u64 double_p (of_nat ?n))"
    by (simp add: GetHistoAvg_def sums_as_nat [OF nn])
  obtain n m where nm: "0 < m" "real n / real m = real ?s / real ?n" "GetHistoAvg xs = fl_round double_p (int n, m)"
    using fl_div_rounds [OF d assms(4)] unfolding avg by blast
  have "real lo * real ?n \<le> real ?s" "real ?s \<le> real hi * real ?n" using b by (simp_all only: of_nat_mult [symmetric] of_nat_le_iff)
  then have q: "real lo \<le> real n / real m" "real n / real m \<le> real hi" unfolding nm(2) using assms(4) by (simp_all add: le_divide_eq divide_le_eq)
  have "real ?s / real ?n \<le> real ?s" using divide_left_mono [of 1 "real ?n" "real ?s"] assms(4) by simp
  moreover have "real ?s < 2 ^ double_p" using assms(2) by (simp add: double_p_def)
  ultimately have lt: "real n / real m < 2 ^ double_p" unfolding nm(2) by linarith
  show ?thesis
  proof (cases "n = 0")
    case True
    then have "fl_val (GetHistoAvg xs) = 0" by (simp add: nm(3) fl_round_def fl_round_pos_def fl_val_def)
    then show ?thesis using q True by simp
  next
    case False
    then have p: "0 < n" "0 < double_p" by (simp_all add: double_p_def)
    obtain w v where uv: "0 < v" "fl_round_pos double_p n m = (w, v)" "fl_round double_p (int n, m) = (int w, v)" using fl_round_nat [OF p(1) nm(1) p(2)] by blast
    from fl_round_pos_ge [OF p(1) nm(1) p(2) uv(2) q(1) lt] fl_round_pos_le [OF p(1) nm(1) p(2) uv(2) q(2) lt] show ?thesis
      by (simp add: nm(3) uv(3) fl_val_def)
  qed
qed

end
