(* ===== verification/Thermal_Properties.thy ===== *)
theory Thermal_Properties
  imports Thermal_Plan Dram_Properties
begin

text \<open>
  What the heat map guarantees.  The floor plan splits the banks of a layer without a remainder; in a memory whose
  banks fit it no two banks share a cell, and a command heats cells of its own bank only.  The counters of the
  refresh go through all rows exactly if the rows of a refresh divide them.
\<close>

section \<open>A memory\<close>

text \<open>The sizes of \<open>configs/HBM1_4Gb_x128.ini\<close>, and a calculator before its constructor ran.\<close>

definition demo_hbm :: dram_config where
  "demo_hbm = demo_dram\<lparr>protocol := HBM, channels := 8, ranks := 1, banks := 16, bankgroups := 4, banks_per_group := 4, rows := 16384, columns := 64,
     device_width := 128, devices_per_rank := 1, BL := 4, epoch_period := 500000\<rparr>"

definition demo_stack :: thermal_config where
  "demo_stack = \<lparr>num_dies = 4, mat_dim_x = 512, mat_dim_y = 512, num_x_grids = 32, num_y_grids = 16, tile_row_num = 16384, row_tile = 1, bank_asr = Some (2, 1),
     loc_mapping = [], bank_order = 1, bank_layer_order = 0, num_row_refresh = 1, const_logic_power = dval 5, chip_dim_x = (1, 100), chip_dim_y = (1, 100), amb_temp = dval 40,
     act_energy_inc = dval 300, read_energy_inc = dval 700, write_energy_inc = dval 900, ref_energy_inc = dval 30000, refb_energy_inc = dval 2000, act_stb_energy_inc = dval 66,
     pre_stb_energy_inc = dval 48, pre_pd_energy_inc = dval 33, sref_energy_inc = dval 37\<rparr>"

definition demo_blank :: thermal where
  "demo_blank = \<lparr>numP = 0, bank_x = 0, bank_y = 0, vault_x = 0, vault_y = 0, dimX = 0, dimY = 0, num_case = 0, mapped_pos = None, accu_Pmap = [], cur_Pmap = [],
     refresh_count = [], background_energy = [], avg_logic_power = dval 0, sample_id = 0\<rparr>"

definition demo_plan :: thermal where
  "demo_plan = demo_blank\<lparr>numP := 5, bank_x := 8, bank_y := 2, vault_x := 1, vault_y := 2, dimX := 256, dimY := 64, num_case := 1\<rparr>"

lemmas demo_stack_defs = demo_hbm_def demo_stack_def demo_blank_def demo_plan_def demo_dram_def IsHMC_def IsHBM_def

lemma demo_floor_plan: "floor_plan demo_hbm demo_stack demo_blank = Inr demo_plan"
  by (simp add: floor_plan_def demo_stack_defs)

section \<open>The shape of the plan\<close>

lemma better_xy_dvd: "0 < n \<Longrightarrow> 0 < fst p \<and> fst p dvd n \<Longrightarrow> y \<in> {1..n} \<Longrightarrow> 0 < fst (better_xy xd yd n y p) \<and> fst (better_xy xd yd n y p) dvd n"
  by (auto simp: better_xy_def Let_def pos_imp_zdiv_pos_iff dvd_def split: option.splits) (metis mult.commute)

lemma determineXY_dvd:
  assumes "0 < n"
  shows "0 < determineXY xd yd n \<and> determineXY xd yd n dvd n"
proof -
  have "0 < fst (fold (better_xy xd yd n) ys p) \<and> fst (fold (better_xy xd yd n) ys p) dvd n"
    if "set ys \<subseteq> {1..n}" "0 < fst p \<and> fst p dvd n" for ys p
    using that by (induction ys arbitrary: p) (auto simp: better_xy_dvd [OF assms] simp del: atLeastAtMost_iff)
  from this [of "[1..n]" "(1, dval 1000)"] show ?thesis by (simp add: determineXY_def)
qed

definition stacked :: "dram_config \<Rightarrow> bool" where
  "stacked c \<longleftrightarrow> IsHMC c \<or> IsHBM c"

text \<open>The banks in a layer, in both directions.\<close>

definition layer_x :: "dram_config \<Rightarrow> thermal \<Rightarrow> int" where
  "layer_x c t = (if stacked c then vault_x t * bank_x t else bank_x t)"

definition layer_y :: "dram_config \<Rightarrow> thermal \<Rightarrow> int" where
  "layer_y c t = (if stacked c then vault_y t * bank_y t else bank_y t)"

definition plan_ok :: "dram_config \<Rightarrow> thermal_config \<Rightarrow> thermal \<Rightarrow> bool" where
  "plan_ok c tc t \<longleftrightarrow>
     dimX t = layer_x c t * num_x_grids tc \<and> dimY t = layer_y c t * num_y_grids tc
     \<and> numP t = (if stacked c then num_dies tc + 1 else 1) \<and> num_case t = (if stacked c then 1 else ranks c * channels c)
     \<and> (if IsHMC c then bank_x t = 1 \<and> bank_y t = 2 \<and> 0 < vault_x t \<and> 0 < vault_y t \<and> vault_x t * vault_y t = channels c
        else if IsHBM c then bank_x t = 8 \<and> bank_y t = 2 \<and> vault_x t = 1 \<and> vault_y t = 2
        else 0 < bank_x t \<and> 0 < bank_y t \<and> bank_x t * bank_y t = banks c)"

lemma divides_split:
  assumes "0 < n" and "0 < d \<and> d dvd n"
  shows "c_div n d = Inr (n div d)" "0 < n div d" "d * (n div d) = n"
  using assms zdvd_imp_le [of d n] by (auto simp: c_div_nonneg pos_imp_zdiv_pos_iff)

lemma div_below:
  assumes "0 < (d :: int)" and "a < n * d"
  shows "a div d < n"
proof (rule ccontr)
  assume "\<not> a div d < n"
  then have "n * d \<le> a div d * d" using assms(1) by (intro mult_right_mono) auto
  also have "\<dots> \<le> a" using pos_mod_sign [OF assms(1), of a] div_mult_mod_eq [of a d] by linarith
  finally show False using assms(2) by simp
qed

lemma HMC_not_HBM [simp]: "IsHMC c \<Longrightarrow> \<not> IsHBM c"
  by (simp add: IsHMC_def IsHBM_def)

lemma floor_plan_ok:
  assumes "0 < channels c" and "0 < banks c"
  shows "\<exists>t. floor_plan c tc t0 = Inr t \<and> plan_ok c tc t"
proof -
  note ch = divides_split [OF assms(1) determineXY_dvd [OF assms(1)]] and bk = divides_split [OF assms(2) determineXY_dvd [OF assms(2)]]
  show ?thesis
    using ch bk determineXY_dvd [OF assms(1)] determineXY_dvd [OF assms(2)]
    by (simp add: floor_plan_def Let_def plan_ok_def layer_x_def layer_y_def stacked_def)
qed

section \<open>Where a bank lies\<close>

definition valid_bank :: "dram_config \<Rightarrow> int \<Rightarrow> int \<Rightarrow> int \<Rightarrow> bool" where
  "valid_bank c ch bg b \<longleftrightarrow> 0 \<le> ch \<and> ch < channels c \<and> 0 \<le> bg \<and> bg < bankgroups c \<and> 0 \<le> b \<and> b < banks_per_group c"

text \<open>The banks fit the places the plan has for them.\<close>

definition banks_fit :: "dram_config \<Rightarrow> thermal_config \<Rightarrow> thermal \<Rightarrow> bool" where
  "banks_fit c tc t \<longleftrightarrow>
     banks c = bankgroups c * banks_per_group c \<and> 0 < num_x_grids tc \<and> 0 < num_y_grids tc
     \<and> (if IsHMC c then 0 < num_dies tc \<and> num_dies tc dvd banks c \<and> banks c div num_dies tc \<in> {1, 2}
        else if IsHBM c then bankgroups c \<le> 4 \<and> banks_per_group c \<le> 4 \<and> channels c \<le> 2 * num_dies tc
        else bankgroups c > 1 \<longrightarrow> banks_per_group c \<le> 4
          \<and> (if bank_x t \<le> bank_y t then 2 \<le> bank_x t \<and> 2 * bankgroups c \<le> bank_y t
             else 2 \<le> bank_y t \<and> 2 * bankgroups c \<le> bank_x t))"

text \<open>Column, line and layer of a bank in the grid of banks.\<close>

definition place_of :: "dram_config \<Rightarrow> thermal_config \<Rightarrow> thermal \<Rightarrow> int \<Rightarrow> int \<Rightarrow> int \<Rightarrow> int \<Rightarrow> (int \<times> int \<times> int) result" where
  "place_of c tc t ch bg b ab =
     bindE (MapToVault c tc t ch) (\<lambda>v. bindE (MapToBank c tc t bg b) (\<lambda>p. bindE (MapToZ c tc t ch ab) (\<lambda>z.
     Inr (fst v * bank_x t + fst p, snd v * bank_y t + snd p, z))))"

abbreviation abs_bank :: "dram_config \<Rightarrow> int \<Rightarrow> int \<Rightarrow> int" where
  "abs_bank c bg b \<equiv> bg * banks_per_group c + b"

lemma abs_bank_bounds: "valid_bank c ch bg b \<Longrightarrow> 0 \<le> abs_bank c bg b \<and> abs_bank c bg b < bankgroups c * banks_per_group c"
proof -
  assume v: "valid_bank c ch bg b"
  then have "(bg + 1) * banks_per_group c \<le> bankgroups c * banks_per_group c" unfolding valid_bank_def by (intro mult_right_mono) auto
  then show ?thesis using v by (auto simp: valid_bank_def distrib_right)
qed

lemma abs_bank_inj:
  assumes "valid_bank c ch bg b" and "valid_bank c ch' bg' b'" and "abs_bank c bg b = abs_bank c bg' b'"
  shows "bg = bg' \<and> b = b'"
proof -
  have "abs_bank c bg b div banks_per_group c = bg \<and> abs_bank c bg b mod banks_per_group c = b" if "valid_bank c ch bg b" for ch bg b
    using that by (simp add: valid_bank_def)
  from this [OF assms(1)] this [OF assms(2)] show ?thesis using assms(3) by metis
qed

text \<open>In a cube a bank lies in the column of its vault, in line \<open>same_layer\<close> of the vault.\<close>

definition cube_layer :: "thermal_config \<Rightarrow> int \<Rightarrow> int" where
  "cube_layer tc q = (if bank_layer_order tc = 0 then q else num_dies tc - 1 - q)"

lemma place_cube:
  assumes "plan_ok c tc t" and "banks_fit c tc t" and "IsHMC c" and "valid_bank c ch bg b"
  defines "pl \<equiv> banks c div num_dies tc"
  shows "\<exists>vx vy. place_of c tc t ch bg b (abs_bank c bg b)
           = Inr (vx, vy * 2 + abs_bank c bg b mod pl, cube_layer tc (abs_bank c bg b div pl))
         \<and> 0 \<le> vx \<and> vx < vault_x t \<and> 0 \<le> vy \<and> vy < vault_y t
         \<and> ch = (if bank_order tc = 0 then vy * vault_x t + vx else vx * vault_y t + vy)"
proof -
  let ?ab = "abs_bank c bg b"
  have ab: "0 \<le> ?ab" using abs_bank_bounds [OF assms(4)] by simp
  have nd: "pl = 1 \<or> pl = 2" "0 < num_dies tc" using assms(2,3) by (auto simp: banks_fit_def pl_def)
  then have "0 \<le> banks c" using pos_imp_zdiv_nonneg_iff [of "num_dies tc" "banks c"] by (auto simp: pl_def)
  then have pl: "pl = 1 \<or> pl = 2" "c_div (banks c) (num_dies tc) = Inr pl" using nd by (auto simp: pl_def c_div_nonneg)
  have p: "bank_x t = 1" "bank_y t = 2" "0 < vault_x t" "0 < vault_y t" "vault_x t * vault_y t = channels c" "numP t = num_dies tc + 1"
    using assms(1,3) by (auto simp: plan_ok_def stacked_def)
  have ch: "0 \<le> ch" "ch < vault_x t * vault_y t" using assms(4) p(5) by (auto simp: valid_bank_def)
  have q: "ch div vault_x t < vault_y t" "ch div vault_y t < vault_x t"
    using ch(2) p(3,4) by (auto intro!: div_below simp: mult.commute)
  have r: "0 \<le> ch div vault_x t" "0 \<le> ch div vault_y t" "0 \<le> ch mod vault_x t" "0 \<le> ch mod vault_y t" "ch mod vault_x t < vault_x t" "ch mod vault_y t < vault_y t"
    using ch(1) p(3,4) by (auto simp: pos_imp_zdiv_nonneg_iff)
  have v: "MapToVault c tc t ch = Inr (if bank_order tc = 0 then (ch mod vault_x t, ch div vault_x t) else (ch div vault_y t, ch mod vault_y t))"
    using ch(1) p(3,4) assms(3) by (simp add: MapToVault_def c_div_nonneg c_rem_nonneg Let_def)
  have m: "0 \<le> ?ab mod pl" "?ab mod pl < 2" using pl(1) by auto
  have b: "MapToBank c tc t bg b = Inr (0, ?ab mod pl)"
    using ab pl assms(3) p m by (auto simp: MapToBank_def c_rem_nonneg c_div_nonneg)
  have z: "MapToZ c tc t ch ?ab = Inr (cube_layer tc (?ab div pl))"
    using ab pl assms(3) p by (auto simp: MapToZ_def c_div_nonneg cube_layer_def)
  show ?thesis using v b z p q r by (auto simp: place_of_def)
qed

lemma place_hbm:
  assumes "plan_ok c tc t" and "banks_fit c tc t" and "IsHBM c" and "valid_bank c ch bg b"
  shows "place_of c tc t ch bg b ab = Inr (bg * 2 + b div 2, ch mod 2 * 2 + b mod 2, ch div 2)"
proof -
  have "\<not> IsHMC c" using assms(3) by (auto simp: IsHMC_def IsHBM_def)
  then show ?thesis using assms
    by (simp add: place_of_def MapToVault_def MapToBank_def MapToZ_def plan_ok_def valid_bank_def c_div_nonneg c_rem_nonneg)
qed

text \<open>In a plain memory the places of the groups follow each other, two by two banks each.\<close>

lemma place_plain:
  assumes "plan_ok c tc t" and "banks_fit c tc t" and "\<not> stacked c" and "valid_bank c ch bg b"
  shows "place_of c tc t ch bg b ab =
     (if bankgroups c > 1 then
        let (x, y) = (if bank_order tc = 0 then (b mod 2, b div 2) else (b div 2, b mod 2)) in
        Inr (if bank_x t \<le> bank_y t then (x, y + bg * 2, 0) else (x + bg * 2, y, 0))
      else if bank_order tc = 0 then Inr (b mod bank_x t, b div bank_x t, 0) else Inr (b div bank_y t, b mod bank_y t, 0))"
proof (cases "bankgroups c > 1")
  case True
  then show ?thesis using assms
    by (auto simp: place_of_def MapToVault_def MapToBank_def MapToZ_def stacked_def plan_ok_def valid_bank_def c_div_nonneg c_rem_nonneg Let_def)
next
  case False
  then have "bg = 0" using assms(4) by (auto simp: valid_bank_def)
  then show ?thesis using assms False
    by (auto simp: place_of_def MapToVault_def MapToBank_def MapToZ_def stacked_def plan_ok_def valid_bank_def c_div_nonneg c_rem_nonneg Let_def)
qed

lemma place_cube_in:
  assumes "plan_ok c tc t" and "banks_fit c tc t" and "IsHMC c" and "valid_bank c ch bg b"
  shows "\<exists>x y z. place_of c tc t ch bg b (abs_bank c bg b) = Inr (x, y, z) \<and> 0 \<le> x \<and> x < layer_x c t \<and> 0 \<le> y \<and> y < layer_y c t \<and> 0 \<le> z \<and> z < numP t"
proof -
  let ?ab = "abs_bank c bg b" and ?pl = "banks c div num_dies tc"
  obtain vx vy where v: "place_of c tc t ch bg b ?ab = Inr (vx, vy * 2 + ?ab mod ?pl, cube_layer tc (?ab div ?pl))"
    "0 \<le> vx" "vx < vault_x t" "0 \<le> vy" "vy < vault_y t" using place_cube [OF assms] by auto
  have d: "0 < num_dies tc" "?pl = 1 \<or> ?pl = 2" "num_dies tc dvd banks c" "banks c = bankgroups c * banks_per_group c"
    using assms(2,3) by (auto simp: banks_fit_def)
  note f = d(1,2) dvd_mult_div_cancel [OF d(3)] d(4)
  have ab: "0 \<le> ?ab" "?ab < num_dies tc * ?pl" using abs_bank_bounds [OF assms(4)] f by simp_all
  then have "0 \<le> ?ab div ?pl" "?ab div ?pl < num_dies tc" using f(2) by (auto intro!: div_below simp: pos_imp_zdiv_nonneg_iff)
  moreover have "0 \<le> ?ab mod ?pl" "?ab mod ?pl < 2" using f(2) by auto
  ultimately show ?thesis using v assms(1,3) by (auto simp: cube_layer_def layer_x_def layer_y_def plan_ok_def stacked_def)
qed

lemma place_in:
  assumes "plan_ok c tc t" and "banks_fit c tc t" and "valid_bank c ch bg b"
  shows "\<exists>x y z. place_of c tc t ch bg b (abs_bank c bg b) = Inr (x, y, z) \<and> 0 \<le> x \<and> x < layer_x c t \<and> 0 \<le> y \<and> y < layer_y c t \<and> 0 \<le> z \<and> z < numP t"
proof -
  consider (cube) "IsHMC c" | (hbm) "IsHBM c" | (plain) "\<not> stacked c" by (auto simp: stacked_def)
  then show ?thesis
  proof cases
    case cube
    then show ?thesis using place_cube_in assms by blast
  next
    case hbm
    then have "\<not> IsHMC c" by (auto simp: IsHMC_def IsHBM_def)
    moreover have "b < 4" "bg < 4" "ch < 2 * num_dies tc" using assms(2,3) hbm calculation by (auto simp: banks_fit_def valid_bank_def)
    moreover have "0 \<le> ch" "0 \<le> bg" "0 \<le> b" using assms(3) by (auto simp: valid_bank_def)
    moreover have "b div 2 < 2" "0 \<le> b div 2" "0 \<le> ch div 2" "ch div 2 < num_dies tc" "b mod 2 \<le> 1" "ch mod 2 \<le> 1" "0 \<le> b mod 2" "0 \<le> ch mod 2"
      using calculation by auto
    ultimately show ?thesis using place_hbm [OF assms(1,2) hbm assms(3)] assms(1) hbm
      by (simp add: plan_ok_def layer_x_def layer_y_def stacked_def)
  next
    case plain
    have b: "0 \<le> b" "b < banks_per_group c" "0 \<le> bg" "bg < bankgroups c" using assms(3) by (auto simp: valid_bank_def)
    show ?thesis
    proof (cases "bankgroups c > 1")
      case True
      then have "b < 4" "if bank_x t \<le> bank_y t then 2 \<le> bank_x t \<and> 2 * bankgroups c \<le> bank_y t else 2 \<le> bank_y t \<and> 2 * bankgroups c \<le> bank_x t"
        using assms(2) plain b by (auto simp: banks_fit_def stacked_def)
      moreover have "b div 2 < 2" "0 \<le> b div 2" "b mod 2 < 2" "0 \<le> b mod 2" using calculation(1) b(1) by auto
      ultimately show ?thesis using place_plain [OF assms(1,2) plain assms(3)] True b plain assms(1)
        by (auto simp: layer_x_def layer_y_def plan_ok_def stacked_def Let_def split: if_splits)
    next
      case False
      have p: "0 < bank_x t" "0 < bank_y t" "bank_x t * bank_y t = banks c" using assms(1) plain by (auto simp: plan_ok_def stacked_def)
      have "bankgroups c = 1" using False b by simp
      then have "b < bank_x t * bank_y t" using b assms(2) p(3) by (auto simp: banks_fit_def)
      then have "b div bank_y t < bank_x t" "b div bank_x t < bank_y t" using p(1,2) by (auto intro!: div_below simp: mult.commute)
      then show ?thesis using place_plain [OF assms(1,2) plain assms(3)] False b p plain assms(1)
        by (auto simp: layer_x_def layer_y_def plan_ok_def stacked_def pos_imp_zdiv_nonneg_iff)
    qed
  qed
qed

lemma twos_inj: "x * 2 + p = y * 2 + q \<Longrightarrow> 0 \<le> p \<Longrightarrow> p < 2 \<Longrightarrow> 0 \<le> q \<Longrightarrow> q < 2 \<Longrightarrow> x = y \<and> p = (q :: int)"
  by presburger

lemma halves_inj: "b div 2 = b' div 2 \<Longrightarrow> b mod 2 = b' mod 2 \<Longrightarrow> b = (b' :: int)"
  by presburger

lemma div_mod_inj: "b div d = b' div d \<Longrightarrow> b mod d = b' mod d \<Longrightarrow> b = (b' :: int)"
  by (metis div_mult_mod_eq)

lemma place_inj:
  assumes "plan_ok c tc t" and "banks_fit c tc t" and "valid_bank c ch bg b" and "valid_bank c ch' bg' b'"
    and "place_of c tc t ch bg b (abs_bank c bg b) = place_of c tc t ch' bg' b' (abs_bank c bg' b')" and "stacked c \<or> ch = ch'"
  shows "ch = ch' \<and> bg = bg' \<and> b = b'"
proof -
  consider (cube) "IsHMC c" | (hbm) "IsHBM c" | (plain) "\<not> stacked c" by (auto simp: stacked_def)
  then show ?thesis
  proof cases
    case cube
    let ?ab = "abs_bank c bg b" and ?ab' = "abs_bank c bg' b'" and ?pl = "banks c div num_dies tc"
    have pl: "?pl = 1 \<or> ?pl = 2" using assms(2) cube by (auto simp: banks_fit_def)
    obtain vx vy where v: "place_of c tc t ch bg b ?ab = Inr (vx, vy * 2 + ?ab mod ?pl, cube_layer tc (?ab div ?pl))"
      "ch = (if bank_order tc = 0 then vy * vault_x t + vx else vx * vault_y t + vy)" using place_cube [OF assms(1,2) cube assms(3)] by auto
    obtain wx wy where w: "place_of c tc t ch' bg' b' ?ab' = Inr (wx, wy * 2 + ?ab' mod ?pl, cube_layer tc (?ab' div ?pl))"
      "ch' = (if bank_order tc = 0 then wy * vault_x t + wx else wx * vault_y t + wy)" using place_cube [OF assms(1,2) cube assms(4)] by auto
    have e: "vx = wx" "vy * 2 + ?ab mod ?pl = wy * 2 + ?ab' mod ?pl" "cube_layer tc (?ab div ?pl) = cube_layer tc (?ab' div ?pl)"
      using assms(5) v(1) w(1) by simp_all
    have "vy = wy \<and> ?ab mod ?pl = ?ab' mod ?pl" by (rule twos_inj [OF e(2)]) (use pl in auto)
    moreover have "?ab div ?pl = ?ab' div ?pl" using e(3) by (simp add: cube_layer_def split: if_splits)
    ultimately have "?ab = ?ab'" "vy = wy" using div_mod_inj [of ?ab ?pl ?ab'] by blast+
    then show ?thesis using abs_bank_inj [OF assms(3,4)] e(1) v(2) w(2) by metis
  next
    case hbm
    have "b < 4" "b' < 4" "0 \<le> b" "0 \<le> b'" using assms(2-4) hbm by (auto simp: banks_fit_def valid_bank_def IsHMC_def IsHBM_def split: if_splits)
    then have h: "0 \<le> b div 2" "b div 2 < 2" "0 \<le> b' div 2" "b' div 2 < 2" by simp_all
    have e: "bg * 2 + b div 2 = bg' * 2 + b' div 2" "ch mod 2 * 2 + b mod 2 = ch' mod 2 * 2 + b' mod 2" "ch div 2 = ch' div 2"
      using assms(5) place_hbm [OF assms(1,2) hbm assms(3)] place_hbm [OF assms(1,2) hbm assms(4)] by simp_all
    have "bg = bg' \<and> b div 2 = b' div 2" by (rule twos_inj [OF e(1) h])
    moreover have "ch mod 2 = ch' mod 2 \<and> b mod 2 = b' mod 2" by (rule twos_inj [OF e(2)]) simp_all
    ultimately show ?thesis using e(3) halves_inj [of b b'] halves_inj [of ch ch'] by blast
  next
    case plain
    have b: "0 \<le> b" "0 \<le> b'" "0 \<le> bg" "0 \<le> bg'" "bg < bankgroups c" "bg' < bankgroups c" using assms(3,4) by (auto simp: valid_bank_def)
    note e = assms(5) [unfolded place_plain [OF assms(1,2) plain assms(3)] place_plain [OF assms(1,2) plain assms(4)]]
    show ?thesis
    proof (cases "bankgroups c > 1")
      case True
      then have l: "b < 4" "b' < 4" using assms(2-4) plain by (auto simp: banks_fit_def stacked_def valid_bank_def)
      have "b mod 2 = b' mod 2 \<and> b div 2 + bg * 2 = b' div 2 + bg' * 2 \<or> b div 2 = b' div 2 \<and> b mod 2 + bg * 2 = b' mod 2 + bg' * 2"
        using e True by (auto simp: Let_def split: if_splits)
      moreover have "b div 2 < 2" "b' div 2 < 2" using l by simp_all
      ultimately have "bg = bg' \<and> b div 2 = b' div 2 \<and> b mod 2 = b' mod 2"
        using b twos_inj [of bg "b div 2" bg' "b' div 2"] twos_inj [of bg "b mod 2" bg' "b' mod 2"] by (auto simp: add.commute)
      then show ?thesis using assms(6) plain halves_inj by blast
    next
      case False
      then have "bg = 0" "bg' = 0" using b by simp_all
      moreover have "b = b'" using e False div_mod_inj [of b "bank_x t" b'] div_mod_inj [of b "bank_y t" b'] by (simp split: if_splits)
      ultimately show ?thesis using assms(6) plain by simp
    qed
  qed
qed

section \<open>The table of banks\<close>

lemma bank_line_place:
  assumes "place_of c tc t ch bg b (abs_bank c bg b) = Inr (x, y, z)"
  shows "bank_line_of c tc t ch bg b = Inr \<lparr>vault_id = ch, abs_bank_id = abs_bank c bg b,
     start_x = x * num_x_grids tc, end_x = x * num_x_grids tc + num_x_grids tc - 1,
     start_y = y * num_y_grids tc, end_y = y * num_y_grids tc + num_y_grids tc - 1, layer = z\<rparr>"
  using assms by (auto simp: place_of_def bank_line_of_def monad_simps Let_def algebra_simps)

lemma bank_line_vault: "bank_line_of c tc t ch bg b = Inr l \<Longrightarrow> vault_id l = ch"
  by (auto simp: bank_line_of_def monad_simps Let_def)

definition line_overlap :: "bank_line \<Rightarrow> bank_line \<Rightarrow> bool" where
  "line_overlap l m \<longleftrightarrow> layer l = layer m \<and> start_x l \<le> end_x m \<and> start_x m \<le> end_x l \<and> start_y l \<le> end_y m \<and> start_y m \<le> end_y l"

definition line_inside :: "thermal \<Rightarrow> bank_line \<Rightarrow> bool" where
  "line_inside t l \<longleftrightarrow> 0 \<le> start_x l \<and> start_x l \<le> end_x l \<and> end_x l < dimX t \<and> 0 \<le> start_y l \<and> start_y l \<le> end_y l \<and> end_y l < dimY t
     \<and> 0 \<le> layer l \<and> layer l < numP t"

lemma block_inside: "0 \<le> x \<Longrightarrow> x < m \<Longrightarrow> 0 < n \<Longrightarrow> 0 \<le> x * n \<and> x * n + n \<le> m * (n :: int)"
  using mult_right_mono [of "x + 1" m n] by (simp add: algebra_simps)

lemma blocks_meet:
  assumes "x * n \<le> y * n + n - 1" and "y * n \<le> x * n + n - 1" and "0 < (n :: int)"
  shows "x = y"
proof -
  have "x * n < (y + 1) * n" "y * n < (x + 1) * n" using assms by (simp_all add: algebra_simps)
  then show ?thesis using assms(3) by (simp add: mult_less_cancel_right)
qed

lemma bank_line_inside:
  assumes "plan_ok c tc t" and "banks_fit c tc t" and "valid_bank c ch bg b"
  shows "\<exists>l. bank_line_of c tc t ch bg b = Inr l \<and> line_inside t l"
proof -
  obtain x y z where p: "place_of c tc t ch bg b (abs_bank c bg b) = Inr (x, y, z)" "0 \<le> x" "x < layer_x c t" "0 \<le> y" "y < layer_y c t" "0 \<le> z" "z < numP t"
    using place_in [OF assms] by blast
  have g: "0 < num_x_grids tc" "0 < num_y_grids tc" using assms(2) by (auto simp: banks_fit_def)
  then have "0 \<le> x * num_x_grids tc" "x * num_x_grids tc + num_x_grids tc \<le> dimX t" "0 \<le> y * num_y_grids tc" "y * num_y_grids tc + num_y_grids tc \<le> dimY t"
    using block_inside [OF p(2,3)] block_inside [OF p(4,5)] assms(1) by (auto simp: plan_ok_def)
  then show ?thesis using bank_line_place [OF p(1)] p(6,7) g by (simp add: line_inside_def)
qed

lemma bank_lines_apart:
  assumes "plan_ok c tc t" and "banks_fit c tc t" and "valid_bank c ch bg b" and "valid_bank c ch' bg' b'" and "stacked c \<or> ch = ch'"
    and "bank_line_of c tc t ch bg b = Inr l" and "bank_line_of c tc t ch' bg' b' = Inr l'" and "line_overlap l l'"
  shows "ch = ch' \<and> bg = bg' \<and> b = b'"
proof -
  obtain x y z where p1: "place_of c tc t ch bg b (abs_bank c bg b) = Inr (x, y, z)" using place_in [OF assms(1-3)] by blast
  obtain x' y' z' where p2: "place_of c tc t ch' bg' b' (abs_bank c bg' b') = Inr (x', y', z')" using place_in [OF assms(1,2,4)] by blast
  note p = p1 p2
  have g: "0 < num_x_grids tc" "0 < num_y_grids tc" using assms(2) by (auto simp: banks_fit_def)
  have "(x, y, z) = (x', y', z')"
    using assms(6-8) bank_line_place [OF p(1)] bank_line_place [OF p(2)] blocks_meet [of x "num_x_grids tc" x'] blocks_meet [of y "num_y_grids tc" y'] g
    by (auto simp: line_overlap_def)
  then show ?thesis using place_inj [OF assms(1-4)] p assms(5) by simp
qed

text \<open>C17: the table of banks is complete and right.  For every memory whose banks fit the plan (the geometry of
  \<open>banks_fit\<close>: the banks of a layer are at most the places the plan has), \<open>PrintCSV_bank\<close> writes one line for every channel, bank group and bank, every
  line lies inside the chip, and no two banks of a stacked memory, and no two banks of a channel of a plain one,
  share a cell.\<close>

lemma bank_table_disjoint:
  assumes "0 < channels c" and "0 < bankgroups c" and "0 < banks_per_group c" and "floor_plan c tc t0 = Inr t" and "banks_fit c tc t"
  shows "\<exists>ls. PrintCSV_bank c tc t = Inr ls \<and> length ls = nat (channels c) * nat (bankgroups c) * nat (banks_per_group c)
     \<and> (\<forall>l \<in> set ls. line_inside t l)
     \<and> (\<forall>i < length ls. \<forall>j < length ls. i \<noteq> j \<and> (stacked c \<or> vault_id (ls ! i) = vault_id (ls ! j)) \<longrightarrow> \<not> line_overlap (ls ! i) (ls ! j))"
proof -
  let ?f = "\<lambda>(ch, bg, b). bank_line_of c tc t ch bg b"
  let ?xs = "List.product [0..channels c - 1] (List.product [0..bankgroups c - 1] [0..banks_per_group c - 1])"
  have "0 < banks c" using assms(2,3,5) by (simp add: banks_fit_def)
  then have p: "plan_ok c tc t" using floor_plan_ok [OF assms(1)] assms(4) by (metis sum.inject(2))
  have v: "valid_bank c ch bg b" if "(ch, bg, b) \<in> set ?xs" for ch bg b using that by (auto simp: valid_bank_def)
  have "\<forall>q \<in> set ?xs. \<exists>l. ?f q = Inr l \<and> line_inside t l" using bank_line_inside [OF p assms(5) v] by auto
  then obtain g where g: "\<And>q. q \<in> set ?xs \<Longrightarrow> ?f q = Inr (g q) \<and> line_inside t (g q)" by metis
  have m: "PrintCSV_bank c tc t = Inr (map g ?xs)" unfolding PrintCSV_bank_def by (rule mapE_ok) (use g in auto)
  have d: "distinct ?xs" by (simp add: distinct_product)
  have apart: "\<not> line_overlap (g q) (g q')" if q: "q \<in> set ?xs" "q' \<in> set ?xs" "q \<noteq> q'" "stacked c \<or> vault_id (g q) = vault_id (g q')" for q q'
  proof
    assume o: "line_overlap (g q) (g q')"
    obtain ch bg b ch' bg' b' where e: "q = (ch, bg, b)" "q' = (ch', bg', b')" by (cases q, cases q') auto
    note l = g [OF q(1)] g [OF q(2)]
    have "vault_id (g q) = ch" "vault_id (g q') = ch'" using l bank_line_vault by (auto simp: e)
    then show False using bank_lines_apart [OF p assms(5) v [OF q(1) [unfolded e]] v [OF q(2) [unfolded e]]] l o q(3,4) by (auto simp: e)
  qed
  have "\<not> line_overlap (map g ?xs ! i) (map g ?xs ! j)"
    if "i < length ?xs" "j < length ?xs" "i \<noteq> j" "stacked c \<or> vault_id (map g ?xs ! i) = vault_id (map g ?xs ! j)" for i j
    unfolding nth_map [OF that(1)] nth_map [OF that(2)]
    by (rule apart [OF nth_mem [OF that(1)] nth_mem [OF that(2)]])
      (use that(3,4) nth_eq_iff_index_eq [OF d that(1,2)] in \<open>simp_all only: nth_map [OF that(1)] nth_map [OF that(2)] not_False_eq_True\<close>)
  then show ?thesis using m g by (auto simp: length_product mult.assoc)
qed

lemma bank_table_disjoint_witness:
  "\<exists>ls. PrintCSV_bank demo_hbm demo_stack demo_plan = Inr ls \<and> length ls = 128 \<and> (\<forall>l \<in> set ls. line_inside demo_plan l)
     \<and> (\<forall>i < 128. \<forall>j < 128. i \<noteq> j \<longrightarrow> \<not> line_overlap (ls ! i) (ls ! j))"
proof -
  have "banks_fit demo_hbm demo_stack demo_plan" by (simp add: banks_fit_def demo_stack_defs)
  moreover have "0 < channels demo_hbm" "0 < bankgroups demo_hbm" "0 < banks_per_group demo_hbm" "stacked demo_hbm"
    "nat (channels demo_hbm) * nat (bankgroups demo_hbm) * nat (banks_per_group demo_hbm) = 128"
    by (simp_all add: stacked_def demo_stack_defs)
  ultimately show ?thesis using bank_table_disjoint [OF _ _ _ demo_floor_plan] by fastforce
qed

section \<open>Where the energy of a command goes\<close>

text \<open>The grid of a bank has room for all its rows and columns.\<close>

definition grids_ok :: "dram_config \<Rightarrow> thermal_config \<Rightarrow> bool" where
  "grids_ok c tc \<longleftrightarrow>
     0 < mat_dim_x tc \<and> 0 < mat_dim_y tc \<and> 0 < row_tile tc \<and> 0 < tile_row_num tc \<and> 0 < num_y_grids tc
     \<and> rows c \<le> num_x_grids tc * row_tile tc * mat_dim_x tc \<and> rows c \<le> row_tile tc * tile_row_num tc
     \<and> columns c * device_width c \<le> num_y_grids tc div row_tile tc * mat_dim_y tc"

lemma grid_x_in:
  assumes "grids_ok c tc" and "0 \<le> r" and "r < rows c"
  shows "\<exists>gx. grid_x tc r = Inr gx \<and> 0 \<le> gx \<and> gx < num_x_grids tc"
proof -
  have "r div mat_dim_x tc < num_x_grids tc * row_tile tc" using assms by (intro div_below) (auto simp: grids_ok_def)
  moreover have "0 < row_tile tc" using assms(1) by (simp add: grids_ok_def)
  ultimately have "r div mat_dim_x tc div row_tile tc < num_x_grids tc" by - (rule div_below)
  then show ?thesis using assms by (simp add: grid_x_def grids_ok_def c_div_nonneg pos_imp_zdiv_nonneg_iff)
qed

lemma grid_y_in:
  assumes "grids_ok c tc" and "0 \<le> r" and "r < rows c" and "0 \<le> k" and "k < columns c * device_width c"
  shows "\<exists>gy. grid_y tc r k = Inr gy \<and> 0 \<le> gy \<and> gy < num_y_grids tc"
proof -
  let ?n = "num_y_grids tc div row_tile tc" and ?m = "k div mat_dim_y tc" and ?q = "r div tile_row_num tc"
  have g: "0 < mat_dim_y tc" "0 < row_tile tc" "0 < tile_row_num tc" "0 < num_y_grids tc" using assms(1) by (auto simp: grids_ok_def)
  have q: "0 \<le> ?q" "?q < row_tile tc" using assms g by (auto intro!: div_below simp: grids_ok_def pos_imp_zdiv_nonneg_iff)
  have m: "0 \<le> ?m" "?m < ?n" using assms g by (auto intro!: div_below simp: grids_ok_def pos_imp_zdiv_nonneg_iff)
  have "(?q + 1) * ?n \<le> row_tile tc * ?n" using q m by (intro mult_right_mono) auto
  also have "\<dots> \<le> num_y_grids tc" using pos_mod_sign [OF g(2), of "num_y_grids tc"] mult_div_mod_eq [of "row_tile tc" "num_y_grids tc"] by linarith
  finally have "?m + ?q * ?n < num_y_grids tc" using m by (simp add: distrib_right)
  moreover have "0 \<le> ?q * ?n" using q m by simp
  ultimately show ?thesis using assms(2,4) g m by (simp add: grid_y_def c_div_nonneg)
qed

lemma place_parts:
  assumes "place_of c tc t ch bg b ab = Inr (x, y, z)"
  shows "\<exists>v p. MapToVault c tc t ch = Inr v \<and> MapToBank c tc t bg b = Inr p \<and> MapToZ c tc t ch ab = Inr z
     \<and> x = fst v * bank_x t + fst p \<and> y = snd v * bank_y t + snd p"
  using assms by (auto simp: place_of_def monad_simps)

text \<open>The cells of a line of the table.\<close>

definition line_at :: "bank_line \<Rightarrow> int \<times> int \<Rightarrow> bool" where
  "line_at l p \<longleftrightarrow> start_x l \<le> fst p \<and> fst p \<le> end_x l \<and> start_y l \<le> snd p \<and> snd p \<le> end_y l"

definition line_cells :: "thermal \<Rightarrow> bank_line \<Rightarrow> int set" where
  "line_cells t l = cell_index t (layer l) ` {p. line_at l p}"

definition cells :: "thermal \<Rightarrow> int" where
  "cells t = numP t * dimX t * dimY t"

lemma cell_index_in:
  assumes "0 \<le> x" "x < dimX t" "0 \<le> y" "y < dimY t" "0 \<le> z" "z < numP t"
  shows "0 \<le> cell_index t z (x, y) \<and> cell_index t z (x, y) < cells t"
proof -
  have "(y + 1) * dimX t \<le> dimY t * dimX t" using assms by (intro mult_right_mono) auto
  moreover have "(z + 1) * (dimX t * dimY t) \<le> numP t * (dimX t * dimY t)" using assms by (intro mult_right_mono) auto
  moreover have "0 \<le> z * (dimX t * dimY t)" "0 \<le> y * dimX t" using assms by simp_all
  ultimately show ?thesis using assms by (simp add: cells_def cell_index_def algebra_simps)
qed

lemma line_cells_in: "line_inside t l \<Longrightarrow> i \<in> line_cells t l \<Longrightarrow> 0 \<le> i \<and> i < cells t"
  by (auto simp: line_cells_def line_at_def line_inside_def intro!: cell_index_in [THEN conjunct1] cell_index_in [THEN conjunct2])

definition maps_ok :: "thermal \<Rightarrow> bool" where
  "maps_ok t \<longleftrightarrow> cells t < 2 ^ 63 \<and> num_case t < 2 ^ 63
     \<and> length (accu_Pmap t) = nat (num_case t) \<and> length (cur_Pmap t) = nat (num_case t)
     \<and> (\<forall>r \<in> set (accu_Pmap t). length r = nat (cells t)) \<and> (\<forall>r \<in> set (cur_Pmap t). length r = nat (cells t))"

text \<open>Nothing but the cells \<open>S\<close> of case \<open>k\<close> differs.\<close>

definition only_in :: "int \<Rightarrow> int set \<Rightarrow> fl list list \<Rightarrow> fl list list \<Rightarrow> bool" where
  "only_in k S m m' \<longleftrightarrow> length m' = length m
     \<and> (\<forall>j < length m. length (m' ! j) = length (m ! j)
         \<and> (\<forall>i < length (m ! j). m' ! j ! i = m ! j ! i \<or> int j = k \<and> int i \<in> S))"

lemma only_in_refl [simp]: "only_in k S m m"
  by (simp add: only_in_def)

lemma add_to_only_in:
  assumes "only_in k S m m'" and "0 \<le> k" and "k < int (length m)" and "int (length m) < 2 ^ 64" and "i \<in> S" and "0 \<le> i"
    and "i < int (length (m ! nat k))" and "int (length (m ! nat k)) < 2 ^ 64"
  shows "\<exists>m''. add_to k i e m' = Inr m'' \<and> only_in k S m m''"
proof -
  have ix: "idx_of_int k = nat k" "idx_of_int i = nat i" using assms by (auto intro!: idx_of_int_nonneg)
  have l: "nat k < length m'" "nat i < length (m' ! nat k)" using assms(1-3,6,7) by (auto simp: only_in_def nat_less_iff)
  let ?r = "m' ! nat k"
  have "add_to k i e m' = Inr (m'[nat k := ?r[nat i := d_add (?r ! nat i) e]])" using l by (simp add: add_to_def ix vec_get_def)
  moreover have "only_in k S m (m'[nat k := ?r[nat i := d_add (?r ! nat i) e]])"
    using assms(1,2,5,6) l by (auto simp: only_in_def nth_list_update)
  ultimately show ?thesis by blast
qed

lemma heat_cells:
  assumes "maps_ok t" and "0 \<le> k" and "k < num_case t" and "set is \<subseteq> S" and "\<And>i. i \<in> S \<Longrightarrow> 0 \<le> i \<and> i < cells t"
    and "only_in k S (accu_Pmap t) a" and "only_in k S (cur_Pmap t) b"
  shows "\<exists>a' b'. foldE (add_cell k e) is (t\<lparr>accu_Pmap := a, cur_Pmap := b\<rparr>) = Inr (t\<lparr>accu_Pmap := a', cur_Pmap := b'\<rparr>)
     \<and> only_in k S (accu_Pmap t) a' \<and> only_in k S (cur_Pmap t) b'"
  using assms(4,6,7)
proof (induction "is" arbitrary: a b)
  case Nil
  then show ?case by auto
next
  case (Cons i "is")
  have i: "i \<in> S" "0 \<le> i" "i < cells t" using Cons.prems(1) assms(5) [of i] by auto
  have l: "k < int (length (accu_Pmap t))" "k < int (length (cur_Pmap t))" "int (length (accu_Pmap t)) < 2 ^ 64" "int (length (cur_Pmap t)) < 2 ^ 64"
    using assms(1-3) by (auto simp: maps_ok_def)
  have "nat k < length (accu_Pmap t)" "nat k < length (cur_Pmap t)" using l(1,2) assms(2) by linarith+
  then have n: "length (accu_Pmap t ! nat k) = nat (cells t)" "length (cur_Pmap t ! nat k) = nat (cells t)" "cells t < 2 ^ 63"
    using assms(1) by (simp_all add: maps_ok_def)
  have n': "i < int (nat (cells t))" "int (nat (cells t)) < 2 ^ 64" using i n(3) by auto
  obtain a1 where a1: "add_to k i e a = Inr a1" "only_in k S (accu_Pmap t) a1"
    using add_to_only_in [OF Cons.prems(2) assms(2) l(1,3) i(1,2), where e = e] n n' by auto
  obtain b1 where b1: "add_to k i e b = Inr b1" "only_in k S (cur_Pmap t) b1"
    using add_to_only_in [OF Cons.prems(3) assms(2) l(2,4) i(1,2), where e = e] n n' by auto
  have "set is \<subseteq> S" using Cons.prems(1) by simp
  from Cons.IH [OF this a1(2) b1(2)] show ?case using a1(1) b1(1) by (simp add: add_cell_def)
qed

text \<open>The address of a command, inside the memory, and the columns its beats reach through the mapping.\<close>

definition heat_address :: "dram_config \<Rightarrow> thermal \<Rightarrow> int \<Rightarrow> Address \<Rightarrow> bool" where
  "heat_address c t ch a \<longleftrightarrow>
     valid_bank c ch (bankgroup a) (bank a) \<and> 0 \<le> rank a \<and> rank a < ranks c \<and> 0 \<le> row a \<and> row a < rows c \<and> 0 < device_width c
     \<and> (\<forall>i < nat (BL c). \<exists>p. GetPhyAddress c (mapped_pos t) (a\<lparr>column := column a + int i\<rparr>) = Inr p \<and> 0 \<le> column p \<and> column p < columns c)"

lemma beat_in:
  assumes "grids_ok c tc" and "heat_address c t ch (addr cmd)" and "i < nat (BL c)"
    and "start_x l = (fst v * bank_x t + fst b) * num_x_grids tc" "end_x l = start_x l + num_x_grids tc - 1"
    and "start_y l = (snd v * bank_y t + snd b) * num_y_grids tc" "end_y l = start_y l + num_y_grids tc - 1"
  shows "\<exists>xy. beat_xy c tc t cmd v b i = Inr xy \<and> length xy = nat (device_width c) \<and> (\<forall>p \<in> set xy. line_at l p)"
proof -
  let ?a = "addr cmd"
  have a: "0 \<le> row ?a" "row ?a < rows c" "0 < device_width c" using assms(2) by (auto simp: heat_address_def)
  obtain p where p: "GetPhyAddress c (mapped_pos t) (?a\<lparr>column := column ?a + int i\<rparr>) = Inr p" "0 \<le> column p" "column p < columns c"
    using assms(2,3) by (auto simp: heat_address_def)
  obtain gx where gx: "grid_x tc (row ?a) = Inr gx" "0 \<le> gx" "gx < num_x_grids tc" using grid_x_in [OF assms(1) a(1,2)] by blast
  let ?f = "\<lambda>j. bindE (grid_x tc (row ?a)) (\<lambda>gx. bindE (grid_y tc (row ?a) (column p * device_width c + int j)) (\<lambda>gy.
        Inr (fst v * (bank_x t * num_x_grids tc) + fst b * num_x_grids tc + gx, snd v * (bank_y t * num_y_grids tc) + snd b * num_y_grids tc + gy)))"
  have "\<exists>q. ?f j = Inr q \<and> line_at l q" if "j < nat (device_width c)" for j
  proof -
    have "(column p + 1) * device_width c \<le> columns c * device_width c" using p a by (intro mult_right_mono) auto
    then have "0 \<le> column p * device_width c + int j" "column p * device_width c + int j < columns c * device_width c"
      using that p a by (auto simp: distrib_right)
    from grid_y_in [OF assms(1) a(1,2) this] obtain gy where "grid_y tc (row ?a) (column p * device_width c + int j) = Inr gy" "0 \<le> gy" "gy < num_y_grids tc" by blast
    then show ?thesis using gx assms(4-7) by (simp add: line_at_def algebra_simps)
  qed
  then have "\<exists>xy. mapE ?f [0..<nat (device_width c)] = Inr xy \<and> length xy = length [0..<nat (device_width c)] \<and> (\<forall>q \<in> set xy. line_at l q)"
    by (intro mapE_all) simp
  then show ?thesis using p(1) by (simp add: beat_xy_def Let_def)
qed

lemma case_in:
  assumes "plan_ok c tc t" and "0 \<le> ch" "ch < channels c" and "0 \<le> rank (addr cmd)" "rank (addr cmd) < ranks c"
  shows "0 \<le> fst (case_of c ch cmd) \<and> fst (case_of c ch cmd) < num_case t"
proof -
  have "(ch + 1) * ranks c \<le> channels c * ranks c" using assms by (intro mult_right_mono) auto
  moreover have "0 \<le> ch * ranks c" using assms by simp
  ultimately show ?thesis using assms by (auto simp: case_of_def plan_ok_def stacked_def algebra_simps)
qed

lemma LocationMapping_heats:
  assumes "plan_ok c tc t" "banks_fit c tc t" "grids_ok c tc" "maps_ok t" and "IsHMC c \<longrightarrow> bankgroups c = 1"
    and "heat_address c t ch (addr cmd)" and "0 \<le> k" "k < num_case t"
  shows "\<exists>l a b. bank_line_of c tc t ch (bankgroup (addr cmd)) (bank (addr cmd)) = Inr l
     \<and> LocationMappingANDaddEnergy c tc ch cmd k e t = Inr (t\<lparr>accu_Pmap := a, cur_Pmap := b\<rparr>)
     \<and> only_in k (line_cells t l) (accu_Pmap t) a \<and> only_in k (line_cells t l) (cur_Pmap t) b"
proof -
  let ?bg = "bankgroup (addr cmd)" and ?b = "bank (addr cmd)"
  have val: "valid_bank c ch ?bg ?b" using assms(6) by (simp add: heat_address_def)
  obtain l where l: "bank_line_of c tc t ch ?bg ?b = Inr l" "line_inside t l" using bank_line_inside [OF assms(1,2) val] by blast
  obtain x y z where pl: "place_of c tc t ch ?bg ?b (abs_bank c ?bg ?b) = Inr (x, y, z)" using place_in [OF assms(1,2) val] by blast
  obtain v p where vp: "MapToVault c tc t ch = Inr v" "MapToBank c tc t ?bg ?b = Inr p" "MapToZ c tc t ch (abs_bank c ?bg ?b) = Inr z"
    "x = fst v * bank_x t + fst p" "y = snd v * bank_y t + snd p" using place_parts [OF pl] by blast
  note le = bank_line_place [OF pl, unfolded l(1)]
  have "IsHMC c \<Longrightarrow> ?bg = 0" using assms(5) val by (auto simp: valid_bank_def)
  then have "MapToZ c tc t ch ?b = MapToZ c tc t ch (abs_bank c ?bg ?b)" by (cases "IsHMC c") (simp_all add: MapToZ_def)
  then have z: "MapToZ c tc t ch ?b = Inr z" "layer l = z" using vp(3) le by simp_all
  have "\<forall>i \<in> set [0..<nat (BL c)]. \<exists>xy. beat_xy c tc t cmd v p i = Inr xy \<and> (length xy = nat (device_width c) \<and> (\<forall>p \<in> set xy. line_at l p))"
    using beat_in [OF assms(3,6)] le vp(4,5) by simp
  from mapE_all [OF this] obtain xys where xys: "mapE (beat_xy c tc t cmd v p) [0..<nat (BL c)] = Inr xys" "\<forall>xy \<in> set xys. \<forall>p \<in> set xy. line_at l p" by auto
  then have m: "MapToXY c tc t cmd v p = Inr (concat xys)" by (simp add: MapToXY_def)
  have "set (map (cell_index t z) (concat xys)) \<subseteq> line_cells t l" using xys(2) z(2) by (auto simp: line_cells_def)
  from heat_cells [OF assms(4,7,8) this line_cells_in [OF l(2)] only_in_refl only_in_refl, where e = "d_div e (dval (device_width c))"]
  obtain a b where "foldE (add_cell k (d_div e (dval (device_width c)))) (map (cell_index t z) (concat xys)) t = Inr (t\<lparr>accu_Pmap := a, cur_Pmap := b\<rparr>)"
    "only_in k (line_cells t l) (accu_Pmap t) a" "only_in k (line_cells t l) (cur_Pmap t) b" by auto
  then show ?thesis using l(1) vp(1,2) m z(1) by (auto simp: LocationMappingANDaddEnergy_def)
qed

lemma command_heats_line:
  assumes "plan_ok c tc t" "banks_fit c tc t" "grids_ok c tc" "maps_ok t" and "IsHMC c \<longrightarrow> bankgroups c = 1"
    and "heat_address c t ch (addr cmd)" and "\<not> IsRefresh cmd"
  shows "\<exists>l a b. bank_line_of c tc t ch (bankgroup (addr cmd)) (bank (addr cmd)) = Inr l
     \<and> UpdateCMDPower c tc ch cmd t = Inr (t\<lparr>accu_Pmap := a, cur_Pmap := b\<rparr>)
     \<and> only_in (fst (case_of c ch cmd)) (line_cells t l) (accu_Pmap t) a \<and> only_in (fst (case_of c ch cmd)) (line_cells t l) (cur_Pmap t) b"
proof -
  have val: "valid_bank c ch (bankgroup (addr cmd)) (bank (addr cmd))" "0 \<le> rank (addr cmd)" "rank (addr cmd) < ranks c" using assms(6) by (auto simp: heat_address_def)
  then have k: "0 \<le> fst (case_of c ch cmd)" "fst (case_of c ch cmd) < num_case t" using case_in [OF assms(1)] by (auto simp: valid_bank_def)
  obtain l where l: "bank_line_of c tc t ch (bankgroup (addr cmd)) (bank (addr cmd)) = Inr l" using bank_line_inside [OF assms(1,2) val(1)] by blast
  show ?thesis
  proof (cases "fl_less (dval 0) (cmd_energy tc (cmd_type cmd))")
    case True
    then show ?thesis using LocationMapping_heats [OF assms(1-6) k] assms(7)
      by (simp add: UpdateCMDPower_def IsRefresh_def case_prod_beta Let_def)
  next
    case False
    then have "UpdateCMDPower c tc ch cmd t = Inr (t\<lparr>accu_Pmap := accu_Pmap t, cur_Pmap := cur_Pmap t\<rparr>)"
      using assms(7) by (simp add: UpdateCMDPower_def IsRefresh_def case_prod_beta Let_def)
    then show ?thesis using l only_in_refl by blast
  qed
qed

text \<open>C18: a command heats its own bank.  \<open>UpdateCMDPower\<close> of a command that is not a refresh, at an address inside
  the memory, never leaves the power maps, and changes only cells of the line the table has for its bank, in the
  map of its rank, and neither counters nor energies.\<close>

lemma command_heats_own_bank:
  assumes "plan_ok c tc t" "banks_fit c tc t" "grids_ok c tc" "maps_ok t" and "IsHMC c \<longrightarrow> bankgroups c = 1"
    and "heat_address c t ch (addr cmd)" and "\<not> IsRefresh cmd"
  shows "\<exists>l a b. bank_line_of c tc t ch (bankgroup (addr cmd)) (bank (addr cmd)) = Inr l
     \<and> UpdateCMDPower c tc ch cmd t = Inr (t\<lparr>accu_Pmap := a, cur_Pmap := b\<rparr>)
     \<and> only_in (fst (case_of c ch cmd)) (line_cells t l) (accu_Pmap t) a \<and> only_in (fst (case_of c ch cmd)) (line_cells t l) (cur_Pmap t) b"
  by (rule command_heats_line [OF assms])

lemma demo_fits: "banks_fit demo_hbm demo_stack demo_plan" "grids_ok demo_hbm demo_stack"
  by (simp_all add: banks_fit_def grids_ok_def demo_stack_defs)

definition demo_heat :: thermal where
  "demo_heat = demo_plan\<lparr>accu_Pmap := [replicate (nat (cells demo_plan)) (dval 0)], cur_Pmap := [replicate (nat (cells demo_plan)) (dval 0)]\<rparr>"

definition demo_activate :: Command where
  "demo_activate = \<lparr>cmd_type = CMD_ACTIVATE, addr = \<lparr>channel = 3, rank = 0, bankgroup = 2, bank = 1, row = 9000, column = 8\<rparr>, hex_addr = 0\<rparr>"

lemma command_heats_own_bank_witness:
  "\<exists>l a b. bank_line_of demo_hbm demo_stack demo_heat 3 2 1 = Inr l
     \<and> UpdateCMDPower demo_hbm demo_stack 3 demo_activate demo_heat = Inr (demo_heat\<lparr>accu_Pmap := a, cur_Pmap := b\<rparr>)
     \<and> only_in 0 (line_cells demo_heat l) (accu_Pmap demo_heat) a \<and> only_in 0 (line_cells demo_heat l) (cur_Pmap demo_heat) b"
proof -
  have "plan_ok demo_hbm demo_stack demo_heat" by (simp add: plan_ok_def layer_x_def layer_y_def stacked_def demo_heat_def demo_stack_defs)
  moreover have "banks_fit demo_hbm demo_stack demo_heat" by (simp add: banks_fit_def demo_heat_def demo_stack_defs)
  moreover have "maps_ok demo_heat"
  proof -
    have "cells demo_heat = cells demo_plan" "cells demo_plan < 2 ^ 63" "num_case demo_heat = 1" by (simp_all add: cells_def demo_heat_def demo_plan_def)
    then show ?thesis by (simp add: maps_ok_def demo_heat_def)
  qed
  moreover have "heat_address demo_hbm demo_heat 3 (addr demo_activate)"
    by (auto simp: heat_address_def valid_bank_def GetPhyAddress_def demo_heat_def demo_activate_def demo_stack_defs)
  ultimately show ?thesis using command_heats_own_bank [OF _ _ demo_fits(2), of demo_heat 3 demo_activate]
    by (simp add: IsRefresh_def case_of_def demo_activate_def demo_stack_defs)
qed

section \<open>Refresh\<close>

definition rc_entry :: "nat \<Rightarrow> nat \<Rightarrow> int \<Rightarrow> thermal \<Rightarrow> thermal" where
  "rc_entry k b n t = t\<lparr>refresh_count := (refresh_count t)[k := (refresh_count t ! k)[b := n]]\<rparr>"

text \<open>A bank the counters know about.\<close>

definition counted :: "int \<Rightarrow> int \<Rightarrow> thermal \<Rightarrow> bool" where
  "counted k b t \<longleftrightarrow> 0 \<le> k \<and> k < int (length (refresh_count t)) \<and> int (length (refresh_count t)) < 2 ^ 64
     \<and> 0 \<le> b \<and> b < int (length (refresh_count t ! nat k)) \<and> int (length (refresh_count t ! nat k)) < 2 ^ 64"

lemma take_rows_step:
  assumes "counted k b t"
  shows "take_rows c tc k b (rc_entry (nat k) (nat b) n t)
     = Inr (n * num_row_refresh tc, rc_entry (nat k) (nat b) (if (n + 1) * num_row_refresh tc = rows c then 0 else n + 1) t)"
proof -
  have "idx_of_int k = nat k" "idx_of_int b = nat b" using assms by (auto simp: counted_def intro!: idx_of_int_nonneg)
  moreover have "nat k < length (refresh_count t)" "nat b < length (refresh_count t ! nat k)" using assms by (auto simp: counted_def nat_less_iff)
  ultimately show ?thesis by (simp add: take_rows_def rc_entry_def vec_get_def)
qed

lemma rc_entry_self: "refresh_count t ! k ! b = n \<Longrightarrow> rc_entry k b n t = t"
  by (auto simp: rc_entry_def)

lemma refresh_visits_rows:
  assumes "counted k b t" and "refresh_count t ! nat k ! nat b = 0" and "0 < q" and "int q * num_row_refresh tc = rows c"
  shows "repeatE q (take_rows c tc k b) t = Inr (map (\<lambda>i. int i * num_row_refresh tc) [0..<q], t)"
proof (cases "num_row_refresh tc = 0")
  case True
  then have "take_rows c tc k b t = Inr (0, t)"
    using take_rows_step [OF assms(1), of c tc 0] rc_entry_self [OF assms(2)] assms(4) by simp
  then have "repeatE m (take_rows c tc k b) t = Inr (replicate m 0, t)" for m by (induction m) auto
  moreover have "replicate q 0 = map (\<lambda>i. int i * num_row_refresh tc) [0..<q]" using True by (simp add: map_replicate_const)
  ultimately show ?thesis by simp
next
  case False
  let ?s = "\<lambda>j. rc_entry (nat k) (nat b) (int j) t"
  have "repeatE m (take_rows c tc k b) t = Inr (map (\<lambda>i. int i * num_row_refresh tc) [0..<m], ?s (if m = q then 0 else m))" if "m \<le> q" for m
    using that
  proof (induction m)
    case 0
    then show ?case using rc_entry_self [OF assms(2)] assms(3) by simp
  next
    case (Suc m)
    then have "(int m + 1) * num_row_refresh tc = rows c \<longleftrightarrow> Suc m = q" using assms(4) False by (metis mult_cancel_right of_nat_Suc of_nat_eq_iff add.commute)
    then have "take_rows c tc k b (?s m) = Inr (int m * num_row_refresh tc, ?s (if Suc m = q then 0 else Suc m))"
      using take_rows_step [OF assms(1), of c tc "int m"] by (simp add: add.commute)
    then show ?case using Suc repeatE_add [of m 1 "take_rows c tc k b" t] by simp
  qed
  from this [of q] show ?thesis using rc_entry_self [OF assms(2)] by simp
qed

lemma refresh_overruns:
  assumes "counted k b t" and "refresh_count t ! nat k ! nat b = 0" and "\<not> num_row_refresh tc dvd rows c"
  shows "repeatE m (take_rows c tc k b) t = Inr (map (\<lambda>i. int i * num_row_refresh tc) [0..<m], rc_entry (nat k) (nat b) (int m) t)"
proof (induction m)
  case 0
  then show ?case using rc_entry_self [OF assms(2)] by simp
next
  case (Suc m)
  have "(int m + 1) * num_row_refresh tc \<noteq> rows c" using assms(3) by (metis dvd_triv_right)
  then show ?case using Suc take_rows_step [OF assms(1), of c tc "int m"] repeatE_add [of m 1 "take_rows c tc k b" t] by (simp add: add.commute)
qed

end
