(* ===== verification/Thermal_Mapping.thy ===== *)
theory Thermal_Mapping
  imports Thermal_Properties
begin

text \<open>
  The mapping of locations moves the bits of an address.  A mapping that permutes the bits above the burst is
  injective on the addresses of the memory: no two locations are heated in the same place.
\<close>

unbundle bit_operations_syntax

section \<open>Gathering bits\<close>

lemma take_xor: "x XOR push_bit w (drop_bit w x) = take_bit w (x :: u64)"
  by (rule bit_eqI) (auto simp: bit_xor_iff bit_push_bit_iff bit_drop_bit_eq bit_take_bit_iff)

lemma put_bit_bits:
  assumes "j < w" and "w \<le> 64" and "0 \<le> p" and "p < 64"
  shows "\<exists>h'. put_bit v w (j, p) h = Inr h' \<and> (\<forall>n. bit h' n \<longleftrightarrow> bit h n \<or> n = nat p \<and> bit (u64_of_int v) (w - 1 - j))"
proof -
  let ?k = "w - 1 - j"
  define b :: u64 where "b = drop_bit ?k (u64_of_int v) AND 1"
  have k: "int w - int j - 1 = int ?k" "?k < 64" using assms(1,2) by auto
  have b: "b = of_bool (bit (u64_of_int v) ?k)" by (simp add: b_def and_one_eq bit_iff_odd_drop_bit mod_2_eq_odd)
  have "GetBitInPos (u64_of_int v) (int w - int j - 1) = Inr (int_of_u64 b)" unfolding k(1) using k(2) by (simp add: GetBitInPos_def shr64_def b_def)
  moreover have "u64_of_int (int_of_u64 b) = b" unfolding b by (simp add: int_of_u64_def u64_of_int_def)
  ultimately have "put_bit v w (j, p) h = Inr (h OR push_bit (nat p) b)" using assms(3,4) by (simp add: put_bit_def shl64_def)
  moreover have "bit (h OR push_bit (nat p) b) n \<longleftrightarrow> bit h n \<or> n = nat p \<and> bit (u64_of_int v) ?k" for n
    unfolding b using assms(3,4) by (auto simp: bit_or_iff bit_push_bit_iff bit_1_iff bit_imp_le_length split: if_splits)
  ultimately show ?thesis by blast
qed

lemma put_bits:
  assumes "\<forall>p \<in> set ps. 0 \<le> p \<and> p < 64" and "s + length ps = w" and "w \<le> 64"
  shows "\<exists>h'. foldE (put_bit v w) (enumerate s ps) h = Inr h'
     \<and> (\<forall>n. bit h' n \<longleftrightarrow> bit h n \<or> (\<exists>j < length ps. n = nat (ps ! j) \<and> bit (u64_of_int v) (w - 1 - (s + j))))"
  using assms(1,2)
proof (induction ps arbitrary: s h)
  case Nil
  then show ?case by simp
next
  case (Cons p ps)
  obtain h1 where h1: "put_bit v w (s, p) h = Inr h1" "\<And>n. bit h1 n \<longleftrightarrow> bit h n \<or> n = nat p \<and> bit (u64_of_int v) (w - 1 - s)"
    using put_bit_bits [of s w p v h] Cons.prems assms(3) by auto
  have "Suc s + length ps = w" "\<forall>p \<in> set ps. 0 \<le> p \<and> p < 64" using Cons.prems by auto
  from Cons.IH [OF this(2,1), of h1] obtain h2 where h2: "foldE (put_bit v w) (enumerate (Suc s) ps) h1 = Inr h2"
    "\<And>n. bit h2 n \<longleftrightarrow> bit h1 n \<or> (\<exists>j < length ps. n = nat (ps ! j) \<and> bit (u64_of_int v) (w - 1 - (Suc s + j)))" by blast
  have "(\<exists>j < length (p # ps). n = nat ((p # ps) ! j) \<and> bit (u64_of_int v) (w - 1 - (s + j)))
      \<longleftrightarrow> n = nat p \<and> bit (u64_of_int v) (w - 1 - s) \<or> (\<exists>j < length ps. n = nat (ps ! j) \<and> bit (u64_of_int v) (w - 1 - (Suc s + j)))" for n
    by (simp only: length_Cons Ex_less_Suc2) simp
  then show ?case using h1 h2 by auto
qed

text \<open>Field \<open>i\<close> puts its bit \<open>w - 1 - j\<close> to the position \<open>j\<close> of its list.\<close>

definition moved :: "(int \<times> int list) list \<Rightarrow> nat \<Rightarrow> bool" where
  "moved fs n \<longleftrightarrow> (\<exists>f \<in> set fs. \<exists>j < length (snd f). n = nat (snd f ! j) \<and> bit (u64_of_int (fst f)) (length (snd f) - 1 - j))"

lemma put_fields:
  assumes "\<forall>f \<in> set fs. length (snd f) \<le> 64 \<and> (\<forall>p \<in> set (snd f). 0 \<le> p \<and> p < 64)"
  shows "\<exists>h'. foldE put_field fs h = Inr h' \<and> (\<forall>n. bit h' n \<longleftrightarrow> bit h n \<or> moved fs n)"
  using assms
proof (induction fs arbitrary: h)
  case Nil
  then show ?case by (simp add: moved_def)
next
  case (Cons f fs)
  then have "length (snd f) \<le> 64" "\<forall>p \<in> set (snd f). 0 \<le> p \<and> p < 64" by auto
  from put_bits [OF this(2) _ this(1), of 0 "fst f" h] obtain h1 where h1: "put_field f h = Inr h1"
    "\<And>n. bit h1 n \<longleftrightarrow> bit h n \<or> (\<exists>j < length (snd f). n = nat (snd f ! j) \<and> bit (u64_of_int (fst f)) (length (snd f) - 1 - j))"
    by (auto simp: put_field_def)
  obtain h2 where "foldE put_field fs h1 = Inr h2" "\<And>n. bit h2 n \<longleftrightarrow> bit h1 n \<or> moved fs n" using Cons by force
  then show ?case using h1 by (auto simp: moved_def)
qed

section \<open>Slicing\<close>

lemma ModuloWidth_slice: "w < 64 \<Longrightarrow> pos < 64 \<Longrightarrow> ModuloWidth h w pos = Inr (ucast (take_bit w (drop_bit pos h)))"
  by (simp add: ModuloWidth_def shr64_def take_xor)

lemma slice_total:
  "\<forall>w \<in> set ws. w < 64 \<Longrightarrow> pos + sum_list ws < 64 \<Longrightarrow> \<exists>vs. slice_fields h pos ws = Inr vs \<and> length vs = length ws"
proof (induction ws arbitrary: pos)
  case (Cons w ws)
  then obtain vs where "slice_fields h (pos + w) ws = Inr vs" "length vs = length ws" by force
  then show ?case using Cons.prems by (simp add: ModuloWidth_slice)
qed simp

lemma slice_bits:
  assumes "\<forall>w \<in> set ws. w \<le> 32" and "pos + sum_list ws < 64" and "slice_fields h pos ws = Inr vs" and "slice_fields h' pos ws = Inr vs"
    and "pos \<le> n" and "n < pos + sum_list ws"
  shows "bit h n = bit h' n"
  using assms
proof (induction ws arbitrary: pos vs)
  case (Cons w ws)
  have w: "w < 64" "pos < 64" "w \<le> 32" using Cons.prems(1,2) by auto
  let ?x = "\<lambda>h. ucast (take_bit w (drop_bit pos h :: u64)) :: u32"
  obtain us where us: "slice_fields h (pos + w) ws = Inr us" "vs = sint (?x h) # us" using Cons.prems(3) w by (auto simp: ModuloWidth_slice monad_simps)
  have us': "slice_fields h' (pos + w) ws = Inr us" "sint (?x h) = sint (?x h')" using Cons.prems(4) w us(2) by (auto simp: ModuloWidth_slice monad_simps)
  show ?case
  proof (cases "n < pos + w")
    case True
    have "?x h = ?x h'" using us'(2) by (simp add: signed_word_eqI)
    then have "bit (?x h) (n - pos) = bit (?x h') (n - pos)" by simp
    moreover have "n - pos < w" "n - pos < 32" "pos + (n - pos) = n" using True Cons.prems(5) w by auto
    ultimately show ?thesis by (simp add: bit_ucast_iff bit_take_bit_iff bit_drop_bit_eq)
  next
    case False
    then show ?thesis using Cons.IH [OF _ _ us(1) us'(1)] Cons.prems by simp
  qed
qed simp

section \<open>Permutations of bits are injective\<close>

lemma bits_of_field:
  assumes "0 \<le> v" "v < 2 ^ w" "0 \<le> v'" "v' < 2 ^ w" and "w \<le> 64" and "\<And>k. k < w \<Longrightarrow> bit (u64_of_int v) k = bit (u64_of_int v') k"
  shows "v = v'"
proof -
  have "take_bit w v = v" "take_bit w v' = v'" using assms(1-4) by (simp_all add: take_bit_int_eq_self)
  moreover have "take_bit w v = take_bit w v'"
  proof (rule bit_eqI)
    fix k
    show "bit (take_bit w v) k = bit (take_bit w v') k"
    proof (cases "k < w")
      case True
      then show ?thesis using assms(5) assms(6) [OF True] by (simp add: bit_take_bit_iff u64_of_int_def bit_word_of_int_iff)
    next
      case False
      then show ?thesis by (simp add: bit_take_bit_iff)
    qed
  qed
  ultimately show ?thesis by metis
qed

text \<open>The bits of all fields above the burst are moved to each other's places; \<open>w\<close> are the widths of the fields.\<close>

definition bit_permutation :: "dram_config \<Rightarrow> int list list \<Rightarrow> bool" where
  "bit_permutation c mp \<longleftrightarrow>
     length mp = 6 \<and> distinct (concat mp) \<and> (\<forall>ps \<in> set mp. length ps \<le> 31) \<and> LogBase2 (BL c) + int (length (concat mp)) < 64
     \<and> set (concat mp) = {LogBase2 (BL c)..<LogBase2 (BL c) + int (length (concat mp))}"

definition in_fields :: "int list list \<Rightarrow> Address \<Rightarrow> bool" where
  "in_fields mp a \<longleftrightarrow> list_all2 (\<lambda>v ps. 0 \<le> v \<and> v < 2 ^ length ps) (origin_pos a) mp"

lemma same_field: "distinct (concat (map snd fs)) \<Longrightarrow> f \<in> set fs \<Longrightarrow> g \<in> set fs \<Longrightarrow> x \<in> set (snd f) \<Longrightarrow> x \<in> set (snd g) \<Longrightarrow> f = g"
  by (induction fs) auto

lemma moved_at:
  assumes "distinct (concat (map snd fs))" and "\<forall>p \<in> set (concat (map snd fs)). 0 \<le> p" and "f \<in> set fs" and "j < length (snd f)"
  shows "moved fs (nat (snd f ! j)) = bit (u64_of_int (fst f)) (length (snd f) - 1 - j)"
proof
  assume "moved fs (nat (snd f ! j))"
  then obtain g i where g: "g \<in> set fs" "i < length (snd g)" "nat (snd f ! j) = nat (snd g ! i)" "bit (u64_of_int (fst g)) (length (snd g) - 1 - i)"
    by (auto simp: moved_def)
  have m: "snd f ! j \<in> set (snd f)" "snd g ! i \<in> set (snd g)" using assms(4) g(2) by simp_all
  then have "snd f ! j \<in> set (concat (map snd fs))" "snd g ! i \<in> set (concat (map snd fs))" using assms(3) g(1) by auto
  then have "0 \<le> snd f ! j" "0 \<le> snd g ! i" using assms(2) by blast+
  then have e: "snd f ! j = snd g ! i" using g(3) by (simp add: eq_nat_nat_iff)
  have "f = g" by (rule same_field [OF assms(1,3) g(1) m(1)]) (use e m(2) in simp)
  moreover have "distinct (snd f)" using assms(1,3) by (induction fs) auto
  ultimately have "i = j" using e g(2) assms(4) nth_eq_iff_index_eq by metis
  then show "bit (u64_of_int (fst f)) (length (snd f) - 1 - j)" using g(4) \<open>f = g\<close> by simp
next
  assume "bit (u64_of_int (fst f)) (length (snd f) - 1 - j)"
  then show "moved fs (nat (snd f ! j))" using assms(3,4) by (auto simp: moved_def)
qed

lemma GetPhyAddress_inj:
  assumes "bit_permutation c mp" and "in_fields mp a" and "in_fields mp b" and "GetPhyAddress c (Some mp) a = GetPhyAddress c (Some mp) b"
  shows "a = b \<and> (\<exists>p. GetPhyAddress c (Some mp) a = Inr p)"
proof -
  obtain off where off: "LogBase2 (BL c) = int off" using nonneg_int_cases [OF LogBase2_nonneg] .
  let ?ws = "map length (rev mp)" and ?fs = "\<lambda>a. zip (origin_pos a) mp"
  have bp: "length mp = 6" "distinct (concat mp)" "\<forall>ps \<in> set mp. length ps \<le> 31" "off + length (concat mp) < 64"
    "\<forall>p \<in> set (concat mp). int off \<le> p \<and> p < int (off + length (concat mp))"
    using assms(1) unfolding bit_permutation_def off by (simp_all del: set_concat)
  have "0 \<le> p" if "p \<in> set (concat mp)" for p using bp(5) that by force
  then have nn: "\<forall>p \<in> set (concat mp). 0 \<le> p" by blast
  have sl: "sum_list ?ws = length (concat mp)" by (simp add: length_concat rev_map [symmetric] sum_list_rev)
  have six: "length (origin_pos a) = 6" for a by (simp add: origin_pos_def)
  have z: "map snd (?fs a) = mp" for a using bp(1) six by simp
  have rng: "\<forall>f \<in> set (?fs a). length (snd f) \<le> 64 \<and> (\<forall>p \<in> set (snd f). 0 \<le> p \<and> p < 64)" for a
  proof
    fix f assume "f \<in> set (?fs a)"
    then have m: "snd f \<in> set mp" by (metis set_zip_rightD prod.collapse)
    then have "\<forall>p \<in> set (snd f). int off \<le> p \<and> p < int (off + length (concat mp))" using bp(5) by auto
    then show "length (snd f) \<le> 64 \<and> (\<forall>p \<in> set (snd f). 0 \<le> p \<and> p < 64)" using bp(3,4) m by fastforce
  qed
  have img: "\<exists>h vs p. GetPhyAddress c (Some mp) a = Inr p \<and> slice_fields h off ?ws = Inr vs \<and> vs = rev (origin_pos p) \<and> (\<forall>n. bit h n = moved (?fs a) n)" for a
  proof -
    obtain h where h: "foldE put_field (?fs a) 0 = Inr h" "\<forall>n. bit h n = moved (?fs a) n" using put_fields [OF rng, of a 0] by auto
    have "\<forall>w \<in> set ?ws. w < 64" using bp(3) by fastforce
    from slice_total [OF this, of off h] obtain vs where vs: "slice_fields h off ?ws = Inr vs" "length vs = 6" using bp(1,4) sl by auto
    obtain v1 v2 v3 v4 v5 v6 where "vs = [v1, v2, v3, v4, v5, v6]" using vs(2) by (auto simp: numeral_eq_Suc length_Suc_conv)
    then show ?thesis using h vs(1) by (auto simp: GetPhyAddress_def origin_pos_def off)
  qed
  obtain h p where h: "GetPhyAddress c (Some mp) a = Inr p" "slice_fields h off ?ws = Inr (rev (origin_pos p))" "\<And>n. bit h n = moved (?fs a) n" using img by blast
  obtain h' where h': "slice_fields h' off ?ws = Inr (rev (origin_pos p))" "\<And>n. bit h' n = moved (?fs b) n" using img [of b] assms(4) h(1) by auto
  have eq: "moved (?fs a) n = moved (?fs b) n" if "off \<le> n" "n < off + length (concat mp)" for n
    using slice_bits [OF _ _ h(2) h'(1), of n] that bp(3,4) sl h(3) h'(2) by fastforce
  have "origin_pos a ! i = origin_pos b ! i" if i: "i < 6" for i
  proof (rule bits_of_field [where w = "length (mp ! i)"])
    show "0 \<le> origin_pos a ! i" "origin_pos a ! i < 2 ^ length (mp ! i)" "0 \<le> origin_pos b ! i" "origin_pos b ! i < 2 ^ length (mp ! i)"
      using assms(2,3) i six by (auto simp: in_fields_def list_all2_conv_all_nth)
    have "length (mp ! i) \<le> 31" using bp(1,3) i by simp
    then show "length (mp ! i) \<le> 64" by simp
    fix k assume k: "k < length (mp ! i)"
    let ?j = "length (mp ! i) - 1 - k"
    have p: "mp ! i ! ?j \<in> set (concat mp)" using i k bp(1) by (auto intro!: bexI [of _ "mp ! i"])
    have m: "(origin_pos a ! i, mp ! i) \<in> set (?fs a)" for a using i bp(1) six by (auto simp: set_zip)
    have q: "distinct (concat (map snd (?fs a)))" "\<forall>p \<in> set (concat (map snd (?fs a))). 0 \<le> p" for a using bp(2) nn unfolding z by simp_all
    have "moved (?fs a) (nat (mp ! i ! ?j)) = moved (?fs b) (nat (mp ! i ! ?j))" using p bp(5) by (intro eq) force+
    then show "bit (u64_of_int (origin_pos a ! i)) k = bit (u64_of_int (origin_pos b ! i)) k"
      using moved_at [OF q m, of ?j] k by simp
  qed
  then have "origin_pos a = origin_pos b" using six by (auto intro: nth_equalityI)
  then show ?thesis using h(1) by (cases a, cases b) (auto simp: origin_pos_def)
qed

text \<open>C21: a location mapping that permutes the address bits above the burst maps every address of the memory, and no two of
  them to the same physical location.\<close>

lemma phy_mapping_injective:
  assumes "bit_permutation c mp"
  shows "inj_on (GetPhyAddress c (Some mp)) {a. in_fields mp a} \<and> (\<forall>a. in_fields mp a \<longrightarrow> (\<exists>p. GetPhyAddress c (Some mp) a = Inr p))"
  using GetPhyAddress_inj [OF assms] by (auto intro!: inj_onI)

definition demo_mapping :: "int list list" where
  "demo_mapping = [[34], [33], [32, 31], [30, 29], rev [13..26] @ [27, 28], rev [3..12]]"

lemma phy_mapping_injective_witness:
  "inj_on (GetPhyAddress (undefined\<lparr>BL := 8\<rparr>) (Some demo_mapping)) {a. in_fields demo_mapping a}
     \<and> in_fields demo_mapping \<lparr>channel = 0, rank = 1, bankgroup = 2, bank = 3, row = 513, column = 1000\<rparr>"
proof -
  have b: "LogBase2 8 = 3" by (simp add: LogBase2_def LogBase2_nat.simps)
  have l: "length (concat demo_mapping) = 32" by (simp add: demo_mapping_def)
  have "set (concat demo_mapping) = set [3..34]" by code_simp
  moreover have "{3..34} = {3..<35 :: int}" by (rule set_eqI) (simp, arith)
  ultimately have s: "set (concat demo_mapping) = {3..<35}" unfolding set_upto by metis
  have "bit_permutation (undefined\<lparr>BL := 8\<rparr>) demo_mapping"
    unfolding bit_permutation_def l s by (simp add: b) (simp add: demo_mapping_def)
  from phy_mapping_injective [OF this] show ?thesis by (simp add: in_fields_def origin_pos_def demo_mapping_def)
qed

end
