(* ===== verification/Thermal_Epochs.thy ===== *)
theory Thermal_Epochs
  imports Thermal_Properties
begin

text \<open>
  The constructor of the heat map and the end of an epoch: with stacked dies the map of the epoch is added to and
  cleared, without them the loops never end or leave the map.  Then the plans that do not fit: the memories of the
  repository whose banks share cells, and the cells a tiled bank never uses.
\<close>

section \<open>The end of an epoch without stacked dies\<close>

text \<open>The number of cells of a row of a power map.\<close>

definition has_cell :: "int \<Rightarrow> int \<Rightarrow> fl list list \<Rightarrow> bool" where
  "has_cell k i m \<longleftrightarrow> idx_of_int k < length m \<and> idx_of_int i < length (m ! idx_of_int k)"

lemma add_to_cases:
  "has_cell k i m \<Longrightarrow> \<exists>m'. add_to k i e m = Inr m' \<and> length m' = length m \<and> (\<forall>j < length m. length (m' ! j) = length (m ! j))"
  "\<not> has_cell k i m \<Longrightarrow> add_to k i e m = Inl UB_Index"
  by (auto simp: has_cell_def add_to_def vec_get_def nth_list_update split: if_splits)

lemma spread_loop_never_returns:
  assumes "k < n" and "has_cell cid k m"
  shows "spread_loop False n k cid e i m = None"
proof (rule ccontr)
  assume "spread_loop False n k cid e i m \<noteq> None"
  then obtain r where r: "spread_loop False n k cid e i m = Some r" by blast
  let ?P = "\<lambda>at_i n k cid (e :: fl) (i :: int) m (r :: (int \<times> fl list list) result). at_i \<or> n \<le> k \<or> \<not> has_cell cid k m"
  have "?P False n k cid e i m r"
  proof (rule spread_loop.raw_induct [where P = ?P, OF _ r])
    fix f :: "bool \<Rightarrow> int \<Rightarrow> int \<Rightarrow> int \<Rightarrow> fl \<Rightarrow> int \<Rightarrow> fl list list \<Rightarrow> (int \<times> fl list list) result option" and at_i n k cid e i m r
    assume ih: "\<And>at_i n k cid e i m r. f at_i n k cid e i m = Some r \<Longrightarrow> ?P at_i n k cid e i m r"
      and st: "(if k < n then case add_to cid (if at_i then i else k) e m of Inl f \<Rightarrow> Some (Inl f) | Inr m' \<Rightarrow> f at_i n k cid e (i + 1) m' else Some (Inr (i, m))) = Some r"
    show "?P at_i n k cid e i m r"
    proof (rule ccontr)
      assume "\<not> ?P at_i n k cid e i m r"
      then have h: "\<not> at_i" "k < n" "has_cell cid k m" by auto
      obtain m' where m': "add_to cid k e m = Inr m'" "length m' = length m" "\<forall>j < length m. length (m' ! j) = length (m ! j)"
        using add_to_cases(1) [OF h(3)] by blast
      then have "f at_i n k cid e (i + 1) m' = Some r" using st h by simp
      from ih [OF this] show False using h m' by (auto simp: has_cell_def)
    qed
  qed
  then show False using assms by simp
qed

lemma spread_loop_overruns:
  assumes "k < n" and "0 \<le> i" and "idx_of_int cid < length m" and "int (length (m ! idx_of_int cid)) < 2 ^ 64" and "i \<le> int (length (m ! idx_of_int cid))"
  shows "spread_loop True n k cid e i m = Some (Inl UB_Index)"
  using assms(2-)
proof (induction "nat (int (length (m ! idx_of_int cid)) - i)" arbitrary: i m rule: less_induct)
  case less
  have ix: "idx_of_int i = nat i" using less.prems by (intro idx_of_int_nonneg) auto
  show ?case
  proof (cases "i < int (length (m ! idx_of_int cid))")
    case True
    then have "has_cell cid i m" using less.prems ix by (simp add: has_cell_def nat_less_iff)
    from add_to_cases(1) [OF this, of e] obtain m' where m': "add_to cid i e m = Inr m'" "length m' = length m" "\<forall>j < length m. length (m' ! j) = length (m ! j)" by blast
    then have "spread_loop True n k cid e (i + 1) m' = Some (Inl UB_Index)"
      using True less.prems by (intro less.hyps) auto
    then show ?thesis using assms(1) m'(1) by (simp add: spread_loop.simps)
  next
    case False
    then have "\<not> has_cell cid i m" using ix less.prems by (simp add: has_cell_def)
    from add_to_cases(2) [OF this] show ?thesis using assms(1) by (simp add: spread_loop.simps)
  qed
qed

section \<open>The constructor\<close>

definition thermal_ok :: "dram_config \<Rightarrow> thermal_config \<Rightarrow> thermal \<Rightarrow> bool" where
  "thermal_ok c tc t \<longleftrightarrow> plan_ok c tc t \<and> maps_ok t
     \<and> length (background_energy t) = nat (channels c) \<and> (\<forall>v \<in> set (background_energy t). length v = nat (ranks c))
     \<and> length (refresh_count t) = nat (channels c * ranks c) \<and> (\<forall>v \<in> set (refresh_count t). length v = nat (banks c))"

lemma plan_ok_frame [simp]:
  "plan_ok c tc (t\<lparr>mapped_pos := mp\<rparr>) = plan_ok c tc t" "plan_ok c tc (t\<lparr>accu_Pmap := m\<rparr>) = plan_ok c tc t"
  "plan_ok c tc (t\<lparr>cur_Pmap := m\<rparr>) = plan_ok c tc t" "plan_ok c tc (t\<lparr>refresh_count := r\<rparr>) = plan_ok c tc t"
  "plan_ok c tc (t\<lparr>background_energy := b\<rparr>) = plan_ok c tc t" "plan_ok c tc (t\<lparr>avg_logic_power := p\<rparr>) = plan_ok c tc t"
  "plan_ok c tc (t\<lparr>sample_id := s\<rparr>) = plan_ok c tc t"
  by (simp_all add: plan_ok_def layer_x_def layer_y_def)

lemma ThermalCalculator_new_ok:
  assumes "0 < channels c" and "0 < banks c" and "SetPhyAddressMapping (loc_mapping tc) = Inr mp"
    and "\<And>t. floor_plan c tc t0 = Inr t \<Longrightarrow> cells t < 2 ^ 63 \<and> num_case t < 2 ^ 63"
  shows "\<exists>t. ThermalCalculator_new c tc t0 = Inr t \<and> thermal_ok c tc t \<and> mapped_pos t = mp"
proof -
  obtain t where t: "floor_plan c tc t0 = Inr t" "plan_ok c tc t" using floor_plan_ok [OF assms(1,2)] by blast
  then show ?thesis using assms(3) assms(4) [OF t(1)]
    by (simp add: ThermalCalculator_new_def thermal_ok_def maps_ok_def cells_def Let_def)
qed

lemma spread_first:
  assumes "0 < channels c" and "0 < ranks c" and "thermal_ok c tc t"
    and "\<And>e. (case spread_loop at_i (dimX t * dimY t * numP t) 0 0 e 0 m of None \<Rightarrow> Inl Diverges | Some r \<Rightarrow> r) = Inl f"
  shows "spread_channels c t at_i 0 m = Some (Inl f)"
proof -
  obtain v vs where v: "background_energy t = v # vs" "length v = nat (ranks c)"
    using assms(1,3) by (cases "background_energy t") (auto simp: thermal_ok_def)
  obtain b bs where b: "v = b # bs" using v(2) assms(2) by (cases v) auto
  have "[0..ranks c - 1] = 0 # [1..ranks c - 1]" using assms(2) by (simp add: upto_rec1)
  moreover have "spread_rank c t at_i 0 (0, m) = Inl f"
    using assms(4) by (simp add: spread_rank_def v b idx_of_int_def u64_of_int_def vec_get_def)
  ultimately show ?thesis using assms(1) by (simp add: spread_channels.simps)
qed

text \<open>C22: without stacked dies an epoch never ends.  For every memory that is neither HMC nor HBM, and the calculator
  its constructor makes, \<open>UpdateEpoch\<close> never returns, and the end of the simulation adds the background energy
  beyond the end of the accumulated map: the inner loops of both count the variable of the outermost loop.\<close>

lemma plain_epoch_never_ends:
  assumes "\<not> stacked c" and "0 < channels c" and "0 < ranks c" and "thermal_ok c tc t" and "0 < cells t"
  shows "UpdateEpoch c clk t = Inl Diverges \<and> final_power c clk t = Inl UB_Index"
proof -
  have n: "0 < dimX t * dimY t * numP t" using assms(5) by (simp add: cells_def mult_ac)
  have "0 < ranks c * channels c" using assms(2,3) by simp
  then have l: "0 < length (accu_Pmap t)" "0 < length (cur_Pmap t)" using assms(1,4) by (auto simp: thermal_ok_def maps_ok_def plan_ok_def)
  then have w: "length (accu_Pmap t ! 0) = nat (cells t)" "length (cur_Pmap t ! 0) = nat (cells t)" "cells t < 2 ^ 63"
    using assms(4) nth_mem by (fastforce simp: thermal_ok_def maps_ok_def)+
  have z: "idx_of_int 0 = 0" by (simp add: idx_of_int_def u64_of_int_def)
  have "spread_loop False (dimX t * dimY t * numP t) 0 0 e 0 (cur_Pmap t) = None" for e
    using n l(2) w(2) assms(5) by (intro spread_loop_never_returns) (auto simp: has_cell_def z)
  moreover have "spread_loop True (dimX t * dimY t * numP t) 0 0 e 0 (accu_Pmap t) = Some (Inl UB_Index)" for e
    using n l(1) w(1,3) by (intro spread_loop_overruns) (auto simp: z)
  ultimately show ?thesis
    using spread_first [OF assms(2-4), of False "cur_Pmap t" Diverges] spread_first [OF assms(2-4), of True "accu_Pmap t" UB_Index] assms(1)
    by (simp add: UpdateEpoch_def final_power_def stacked_def)
qed

text \<open>A small DDR4 memory: two bank groups of two banks, eight rows in one mat.\<close>

definition demo_flat :: thermal_config where
  "demo_flat = demo_stack\<lparr>num_dies := 1, mat_dim_x := 4, mat_dim_y := 64, num_x_grids := 2, num_y_grids := 2, tile_row_num := 8, bank_asr := Some (1, 1)\<rparr>"

lemma plain_epoch_never_ends_witness:
  "\<exists>t. ThermalCalculator_new demo_dram demo_flat demo_blank = Inr t \<and> UpdateEpoch demo_dram 1000 t = Inl Diverges \<and> final_power demo_dram 1000 t = Inl UB_Index"
proof -
  have c: "0 < channels demo_dram" "0 < banks demo_dram" "0 < ranks demo_dram" "\<not> stacked demo_dram" "ranks demo_dram * channels demo_dram = 2" "banks demo_dram = 4"
    by (simp_all add: stacked_def demo_stack_defs)
  have g: "num_x_grids demo_flat = 2" "num_y_grids demo_flat = 2" "loc_mapping demo_flat = []" by (simp_all add: demo_flat_def demo_stack_def)
  have m: "SetPhyAddressMapping (loc_mapping demo_flat) = Inr None" by (simp add: g SetPhyAddressMapping_def)
  have four: "cells t = 16" "num_case t = 2" if "plan_ok demo_dram demo_flat t" for t
  proof -
    have "bank_x t * bank_y t = 4" using that c by (simp add: plan_ok_def stacked_def)
    moreover have "cells t = (bank_x t * bank_y t) * 4" using that c(4) g by (simp add: cells_def plan_ok_def layer_x_def layer_y_def)
    ultimately show "cells t = 16" by simp
    show "num_case t = 2" using that c(4,5) by (simp add: plan_ok_def)
  qed
  have "cells t < 2 ^ 63 \<and> num_case t < 2 ^ 63" if "floor_plan demo_dram demo_flat demo_blank = Inr t" for t
    using floor_plan_ok [OF c(1,2), of demo_flat demo_blank] that four [of t] by simp
  from ThermalCalculator_new_ok [OF c(1,2) m this] obtain t where t: "ThermalCalculator_new demo_dram demo_flat demo_blank = Inr t" "thermal_ok demo_dram demo_flat t" by blast
  then have "0 < cells t" using four(1) [of t] by (simp add: thermal_ok_def)
  from plain_epoch_never_ends [OF c(4,1,3) t(2) this] show ?thesis using t(1) by blast
qed

text \<open>With stacked dies the background power is added to every cell and the loops end.\<close>

definition map_shape :: "nat \<Rightarrow> nat \<Rightarrow> fl list list \<Rightarrow> bool" where
  "map_shape k n m \<longleftrightarrow> length m = k \<and> (\<forall>r \<in> set m. length r = n)"

lemma add_to_shape:
  assumes "map_shape k n m" and "0 \<le> j" "j < int k" "0 \<le> i" "i < int n" and "int k < 2 ^ 64" "int n < 2 ^ 64"
  shows "\<exists>m'. add_to j i e m = Inr m' \<and> map_shape k n m'"
proof -
  have ix: "idx_of_int j = nat j" "idx_of_int i = nat i" using assms by (auto intro!: idx_of_int_nonneg)
  have l: "nat j < length m" "length (m ! nat j) = n" using assms(1-3) by (auto simp: map_shape_def nat_less_iff)
  then have "nat i < length (m ! nat j)" using assms(4,5) by (simp add: nat_less_iff)
  then have "add_to j i e m = Inr (m[nat j := (m ! nat j)[nat i := d_add (m ! nat j ! nat i) e]])" using l by (simp add: add_to_def ix vec_get_def)
  moreover have "length r = n" if "r \<in> set (m[nat j := (m ! nat j)[nat i := d_add (m ! nat j ! nat i) e]])" for r
    using subsetD [OF set_update_subset_insert that] assms(1) l by (auto simp: map_shape_def)
  ultimately show ?thesis using assms(1) by (simp add: map_shape_def)
qed

lemma add_range_shape:
  assumes "map_shape k n m" and "0 \<le> j" "j < int k" and "int k < 2 ^ 64" "int n < 2 ^ 64" and "0 \<le> lo" "hi \<le> int n"
  shows "\<exists>m'. foldE (\<lambda>i. add_to j i e) [lo..hi - 1] m = Inr m' \<and> map_shape k n m'"
  using assms by (intro foldE_total) (auto intro!: add_to_shape)

lemma power_maps_shape:
  assumes "thermal_ok c tc t" and "0 \<le> dimX t" "0 \<le> dimY t" "1 \<le> numP t"
  shows "\<exists>t'. UpdatePowerMaps c e is_trans clk t = Inr t'
     \<and> t' = (if is_trans then t\<lparr>cur_Pmap := cur_Pmap t'\<rparr> else t\<lparr>accu_Pmap := accu_Pmap t'\<rparr>) \<and> thermal_ok c tc t'"
proof -
  let ?k = "nat (num_case t)" and ?n = "nat (cells t)" and ?lo = "dimX t * dimY t * (numP t - 1)"
  have s: "map_shape ?k ?n (if is_trans then cur_Pmap t else accu_Pmap t)" "int ?k < 2 ^ 64" "int ?n < 2 ^ 64"
    using assms(1) by (auto simp: thermal_ok_def maps_ok_def map_shape_def)
  have r: "0 \<le> ?lo" "?lo \<le> dimX t * dimY t * numP t" "dimX t * dimY t * numP t = cells t" "0 \<le> cells t"
    using assms(2-4) by (auto simp: cells_def mult_ac intro!: mult_left_mono)
  have "\<exists>m'. bindE (foldE (\<lambda>i. add_to j i e) [0..?lo - 1] m) (foldE (\<lambda>i. add_to j i f) [?lo..dimX t * dimY t * numP t - 1]) = Inr m' \<and> map_shape ?k ?n m'"
    if js: "j \<in> set [0..num_case t - 1]" and sh: "map_shape ?k ?n m" for j m e f
  proof -
    have j: "0 \<le> j" "j < int ?k" using js by auto
    obtain m1 where m1: "foldE (\<lambda>i. add_to j i e) [0..?lo - 1] m = Inr m1" "map_shape ?k ?n m1"
      using add_range_shape [OF sh j s(2,3), of 0 ?lo e] r by auto
    obtain m2 where "foldE (\<lambda>i. add_to j i f) [?lo..dimX t * dimY t * numP t - 1] m1 = Inr m2" "map_shape ?k ?n m2"
      using add_range_shape [OF m1(2) j s(2,3), of ?lo "dimX t * dimY t * numP t" f] r by auto
    then show ?thesis using m1(1) by auto
  qed
  note step = this
  let ?f = "d_mul (d_div (d_div (avg_logic_power t) (dval (dimX t))) (dval (dimY t))) (if is_trans then dval (epoch_period c) else fl_of_u64 double_p clk)"
  have "\<exists>m. foldE (\<lambda>j m. bindE (foldE (\<lambda>i. add_to j i e) [0..?lo - 1] m) (foldE (\<lambda>i. add_to j i ?f) [?lo..dimX t * dimY t * numP t - 1])) [0..num_case t - 1]
      (if is_trans then cur_Pmap t else accu_Pmap t) = Inr m \<and> map_shape ?k ?n m"
    by (rule foldE_total [where P = "map_shape ?k ?n"]) (rule s(1), rule step)
  then obtain m where m: "UpdatePowerMaps c e is_trans clk t = Inr (if is_trans then t\<lparr>cur_Pmap := m\<rparr> else t\<lparr>accu_Pmap := m\<rparr>)" "map_shape ?k ?n m"
    by (auto simp: UpdatePowerMaps_def Let_def)
  then have "thermal_ok c tc (if is_trans then t\<lparr>cur_Pmap := m\<rparr> else t\<lparr>accu_Pmap := m\<rparr>)"
    using assms(1) by (auto simp: thermal_ok_def maps_ok_def map_shape_def cells_def)
  then show ?thesis using m(1) by auto
qed

lemma clear_epoch_ok:
  assumes "thermal_ok c tc t"
  shows "clear_epoch t = Inr (t\<lparr>cur_Pmap := replicate (nat (num_case t)) (replicate (nat (cells t)) (dval 0)), sample_id := sample_id t + 1\<rparr>)"
proof -
  let ?z = "replicate (nat (cells t)) (dval 0)"
  have l: "length (cur_Pmap t) = nat (num_case t)" "\<forall>r \<in> set (cur_Pmap t). length r = nat (cells t)"
    using assms by (auto simp: thermal_ok_def maps_ok_def)
  then have "mapE (\<lambda>r. let n = nat (numP t * dimX t * dimY t) in
              if n \<le> length r then Inr (replicate n (dval 0) @ drop n r) else Inl UB_Index) (cur_Pmap t) = Inr (map (\<lambda>_. ?z) (cur_Pmap t))"
    by (intro mapE_ok) (simp add: cells_def)
  then show ?thesis using l(1) by (simp add: clear_epoch_def map_replicate_const)
qed

lemma stacked_epoch_added:
  assumes "stacked c" and "thermal_ok c tc t" and "0 \<le> dimX t" "0 \<le> dimY t" "1 \<le> numP t"
  shows "\<exists>m. UpdateEpoch c clk t = Inr (t\<lparr>cur_Pmap := m\<rparr>) \<and> thermal_ok c tc (t\<lparr>cur_Pmap := m\<rparr>)"
    and "\<exists>m. final_power c clk t = Inr (t\<lparr>accu_Pmap := m\<rparr>) \<and> thermal_ok c tc (t\<lparr>accu_Pmap := m\<rparr>)"
  using power_maps_shape [OF assms(2-5), of "stacked_background t" True "u64_of_int (epoch_period c)"]
    power_maps_shape [OF assms(2-5), of "stacked_background t" False clk] assms(1)
  by (auto simp: UpdateEpoch_def final_power_def stacked_def)

section \<open>Plans that do not fit\<close>

lemma wrapped_cells_meet:
  assumes "layer l = layer l'" and "start_x l' = start_x l + dimX t" and "start_y l' = start_y l" and "start_x l \<le> end_x l" "start_x l' \<le> end_x l'"
    and "start_y l < end_y l" "start_y l' < end_y l'"
  shows "line_cells t l \<inter> line_cells t l' \<noteq> {}"
proof -
  have "cell_index t (layer l) (start_x l, start_y l + 1) = cell_index t (layer l') (start_x l', start_y l')"
    using assms(1-3) by (simp add: cell_index_def algebra_simps)
  moreover have "line_at l (start_x l, start_y l + 1)" "line_at l' (start_x l', start_y l')" using assms(4-7) by (simp_all add: line_at_def)
  ultimately show ?thesis unfolding line_cells_def by (metis (mono_tags, lifting) IntI empty_iff imageI mem_Collect_eq)
qed

lemmas plan_eval = grid_asr_def determineXY_def better_xy_def asr_of_def fl_less_def fl_eval double_p_def upto_rec1

lemma x4_plan: "determineXY (grid_asr 128 8) (dval 1) 16 = 1"
  by (simp add: plan_eval)

lemma cube_plan: "determineXY (map_option (d_mul (dval 1)) (grid_asr 128 4)) (d_mul (dval 2) (dval 1)) 16 = 1"
  by (simp add: plan_eval)

lemma lines_meet:
  assumes "place_of c tc t ch bg b (abs_bank c bg b) = Inr (x, y, z)" and "place_of c tc t ch bg b' (abs_bank c bg b') = Inr (x + 1, y, z)"
    and "dimX t = num_x_grids tc" and "0 < num_x_grids tc" and "1 < num_y_grids tc"
  shows "\<exists>l l'. bank_line_of c tc t ch bg b = Inr l \<and> bank_line_of c tc t ch bg b' = Inr l' \<and> line_cells t l \<inter> line_cells t l' \<noteq> {}"
proof -
  obtain l where l: "bank_line_of c tc t ch bg b = Inr l" "start_x l = x * num_x_grids tc" "end_x l = start_x l + num_x_grids tc - 1"
    "start_y l = y * num_y_grids tc" "end_y l = start_y l + num_y_grids tc - 1" "layer l = z" using bank_line_place [OF assms(1)] by force
  obtain l' where l': "bank_line_of c tc t ch bg b' = Inr l'" "start_x l' = (x + 1) * num_x_grids tc" "end_x l' = start_x l' + num_x_grids tc - 1"
    "start_y l' = y * num_y_grids tc" "end_y l' = start_y l' + num_y_grids tc - 1" "layer l' = z" using bank_line_place [OF assms(2)] by force
  have "line_cells t l \<inter> line_cells t l' \<noteq> {}"
    by (rule wrapped_cells_meet) (use assms(3-5) l l' in \<open>simp_all add: distrib_right\<close>)
  then show ?thesis using l(1) l'(1) by blast
qed

lemma x4_banks_overlap:
  assumes "\<not> stacked c" and "bankgroups c = 4" "banks_per_group c = 4" "banks c = 16" and "num_x_grids tc = 128" "num_y_grids tc = 8"
    and "bank_asr tc = grid_asr 128 8" and "bank_order tc \<noteq> 0" and "floor_plan c tc t0 = Inr t"
  shows "\<exists>l l'. bank_line_of c tc t ch bg 0 = Inr l \<and> bank_line_of c tc t ch bg 2 = Inr l' \<and> line_cells t l \<inter> line_cells t l' \<noteq> {}"
proof -
  have p: "bank_x t = 1" "bank_y t = 16" "dimX t = 128"
    using assms(1,4-7,9) x4_plan by (auto simp: floor_plan_def stacked_def c_div_def)
  have "place_of c tc t ch bg b ab = Inr (b div 2, b mod 2 + bg * 2, 0)" if "b \<in> {0, 2}" for b ab
    using that assms(1,2,8) p by (auto simp: place_of_def MapToVault_def MapToBank_def MapToZ_def stacked_def c_div_def c_rem_def)
  from this [of 0] this [of 2] show ?thesis using assms(5,6) p(3) by (intro lines_meet) auto
qed

lemma cube_banks_overlap:
  assumes "IsHMC c" and "channels c = 16" "bankgroups c = 1" "banks_per_group c = 16" "banks c = 16" and "num_dies tc = 4" "num_x_grids tc = 128" "num_y_grids tc = 4"
    and "bank_asr tc = grid_asr 128 4" and "bank_order tc \<noteq> 0" and "floor_plan c tc t0 = Inr t" and "0 \<le> ch" "ch < 16"
  shows "\<exists>l l'. bank_line_of c tc t ch 0 0 = Inr l \<and> bank_line_of c tc t ch 0 2 = Inr l' \<and> line_cells t l \<inter> line_cells t l' \<noteq> {}"
proof -
  have p: "bank_x t = 1" "bank_y t = 2" "vault_x t = 1" "vault_y t = 16" "dimX t = 128" "numP t = 5"
    using assms(1,2,6-9,11) cube_plan by (auto simp: floor_plan_def c_div_def)
  have "place_of c tc t ch 0 b b = Inr (b div 2, ch * 2 + b mod 2, if bank_layer_order tc = 0 then 0 else 3)" if "b \<in> {0, 2}" for b
    using that assms(1,4-6,10,12,13) p by (auto simp: place_of_def MapToVault_def MapToBank_def MapToZ_def c_div_nonneg c_rem_nonneg)
  from this [of 0] this [of 2] show ?thesis using assms(7,8) p(5) by (intro lines_meet) auto
qed

lemma tiled_rows_diagonal:
  assumes "0 < mat_dim_x tc" and "0 < row_tile tc" and "num_x_grids tc = row_tile tc * s" and "0 < s" and "tile_row_num tc = num_x_grids tc * mat_dim_x tc"
    and "0 \<le> r" and "grid_x tc r = Inr gx" and "c_div r (tile_row_num tc) = Inr col_tile"
  shows "gx div s = col_tile"
proof -
  have "gx = r div mat_dim_x tc div row_tile tc" using assms(1,2,6,7) by (simp add: grid_x_def c_div_nonneg pos_imp_zdiv_nonneg_iff)
  then have "gx div s = r div (mat_dim_x tc * row_tile tc * s)" using assms(1,2,4) by (simp add: zdiv_zmult2_eq)
  moreover have "0 < tile_row_num tc" using assms(1-5) by simp
  then have "col_tile = r div tile_row_num tc" using assms(6,8) by (simp add: c_div_nonneg)
  ultimately show ?thesis using assms(3,5) by (simp add: mult_ac)
qed

end
