(* ===== verification/Thermal_Solver.thy ===== *)
theory Thermal_Solver
  imports Thermal_Properties
begin

text \<open>
  \<open>DRAMsim3/src/thermal_solver.c\<close> and the functions of \<open>thermal.cc\<close> that call it: the thermal conductance matrix of
  the chip as a list of non-zero entries, the capacitances, the arrays the steady solver hands to SuperLU, the
  explicit steps of the transient solver, and the choice of the time step.  SuperLU is the argument \<open>solve\<close>, which
  gets a matrix by compressed columns and a right hand side.  Allocation and console output are left out.  The
  lemmas show that the matrix fills the allocated array exactly, has its rows in order and sorted, and is
  symmetric, so that handing rows over as columns is right; and that neither solver leaves its arrays.
\<close>

section \<open>Material\<close>

abbreviation lit :: "int \<Rightarrow> nat \<Rightarrow> fl" where "lit a b \<equiv> fl_round double_p (a, b)"

definition T0 :: fl where "T0 = lit 27315 100"
definition R_TSV :: fl where "R_TSV = lit 5 1000000"
definition M_PI :: fl where "M_PI = lit 314159265358979323846 100000000000000000000"
definition Ksi :: fl where "Ksi = dval 148"
definition Kcu :: fl where "Kcu = dval 401"
definition Kin :: fl where "Kin = lit 15 10"
definition Khs :: fl where "Khs = dval 4"
definition Csi :: fl where "Csi = dval 1660000"
definition Ccu :: fl where "Ccu = dval 3200000"
definition Cin :: fl where "Cin = dval 1650000"
definition Chs :: fl where "Chs = dval 2420000"
definition Hsi :: fl where "Hsi = lit 400 1000000"
definition Hcu :: fl where "Hcu = lit 5 1000000"
definition Hin :: fl where "Hin = lit 20 1000000"
definition Hhs :: fl where "Hhs = lit 1000 1000000"

text \<open>\<open>switch (i % 3)\<close> over the three layers of a tier.\<close>

definition by_layer :: "'a \<Rightarrow> 'a \<Rightarrow> 'a \<Rightarrow> nat \<Rightarrow> 'a" where
  "by_layer si cu ins i = (if i mod 3 = 0 then si else if i mod 3 = 1 then cu else ins)"

definition initialize_Temperature :: "nat \<Rightarrow> nat \<Rightarrow> nat \<Rightarrow> fl \<Rightarrow> fl list" where
  "initialize_Temperature np nx nz Tamb = replicate (nx * nz * (np * 3 + 1)) Tamb"

definition calculate_Cap_array :: "fl \<Rightarrow> fl \<Rightarrow> nat \<Rightarrow> nat \<Rightarrow> nat \<Rightarrow> fl list" where
  "calculate_Cap_array W Lc np nx nz =
     (let gridX = d_div W (dval (int nx)); gridZ = d_div Lc (dval (int nz)) in
      d_mul (d_mul (d_mul Chs Hhs) gridX) gridZ
      # map (\<lambda>i. d_mul (d_mul (d_mul (by_layer Csi Ccu Cin i) (by_layer Hsi Hcu Hin i)) gridX) gridZ) [0..<np * 3])"

section \<open>Resistances\<close>

definition mapTSV :: "nat \<Rightarrow> nat list" where
  "mapTSV np =
     (map (\<lambda>i. if i = 0 \<or> i = np * 3 - 1 then 0 else (i - 1) div 3 + 1) [0..<np * 3])[np * 3 - 2 := np - 1]"

text \<open>The resistance of a layer with \<open>n\<close> vias beside it.  Without vias \<open>H / Ktsv / 0\<close> is infinite and its inverse 0.\<close>

definition tsv_resistance :: "fl \<Rightarrow> fl \<Rightarrow> fl \<Rightarrow> nat \<Rightarrow> fl" where
  "tsv_resistance H K area n =
     (let a = d_mul (d_mul (d_mul M_PI R_TSV) R_TSV) (dval (int n));
          own = d_div (dval 1) (d_div (d_div H K) (d_sub area a));
          via = (if fst a = 0 then dval 0 else d_div (dval 1) (d_div (d_div H Kcu) a)) in
      d_div (dval 1) (d_add own via))"

definition Rsinky :: "fl \<Rightarrow> fl \<Rightarrow> nat \<Rightarrow> nat \<Rightarrow> fl" where
  "Rsinky W Lc nx nz = d_div (d_div (d_div Hhs Khs) (d_div W (dval (int nx)))) (d_div Lc (dval (int nz)))"

definition Ramb :: "fl \<Rightarrow> fl \<Rightarrow> nat \<Rightarrow> nat \<Rightarrow> fl" where
  "Ramb W Lc nx nz = d_div (Rsinky W Lc nx nz) (dval 2)"

text \<open>\<open>Rvert[i][j]\<close>, which is the same for all \<open>i\<close> and \<open>j\<close> since no cell has vias.\<close>

definition layer_resistance :: "nat \<Rightarrow> fl \<Rightarrow> nat \<Rightarrow> fl result" where
  "layer_resistance np area l =
     (let H = by_layer Hsi Hcu Hin l; K = by_layer Ksi Kcu Kin l; TSV = replicate (np - 1) 0 in
      bindE (vec_get (mapTSV np) l) (\<lambda>tier.
      if tier \<noteq> 0 then bindE (vec_get TSV (tier - 1)) (\<lambda>n. Inr (tsv_resistance H K area n))
      else Inr (d_div (d_div H K) area)))"

definition Rvert :: "fl \<Rightarrow> fl \<Rightarrow> nat \<Rightarrow> nat \<Rightarrow> nat \<Rightarrow> fl list result" where
  "Rvert W Lc np nx nz =
     bindE (mapE (layer_resistance np (d_mul (d_div W (dval (int nx))) (d_div Lc (dval (int nz))))) [0..<np * 3]) (\<lambda>rs.
     Inr (Rsinky W Lc nx nz # rs))"

definition Rhori :: "fl \<Rightarrow> fl \<Rightarrow> nat \<Rightarrow> nat \<Rightarrow> nat \<Rightarrow> (fl \<times> fl) list" where
  "Rhori W Lc np nx nz =
     (let gx = d_div W (dval (int nx)); gz = d_div Lc (dval (int nz)) in
      (d_div (d_div (d_div gx Khs) gz) Hhs, d_div (d_div (d_div gz Khs) gx) Hhs)
      # map (\<lambda>i. let H = by_layer Hsi Hcu Hin i; K = by_layer Ksi Kcu Kin i in
               (d_mul (d_div (d_div (d_div gx K) gz) H) (dval 10), d_mul (d_div (d_div (d_div gz K) gz) H) (dval 10))) [0..<np * 3])"

section \<open>The conductance matrix\<close>

type_synonym entry = "nat \<times> nat \<times> fl"

abbreviation ecol :: "entry \<Rightarrow> nat" where "ecol e \<equiv> fst (snd e)"
abbreviation eval_of :: "entry \<Rightarrow> fl" where "eval_of e \<equiv> snd (snd e)"

definition node :: "nat \<Rightarrow> nat \<Rightarrow> nat \<Rightarrow> nat \<Rightarrow> nat \<Rightarrow> nat" where
  "node nx nz l j i = l * nx * nz + j * nx + i"

definition vert_conductance :: "fl list \<Rightarrow> nat \<Rightarrow> nat \<Rightarrow> fl" where
  "vert_conductance rv a b = d_div (dval (- 1)) (d_add (d_div (rv ! a) (dval 2)) (d_div (rv ! b) (dval 2)))"

definition off_entries :: "fl list \<Rightarrow> (fl \<times> fl) list \<Rightarrow> nat \<Rightarrow> nat \<Rightarrow> nat \<Rightarrow> nat \<Rightarrow> nat \<Rightarrow> nat \<Rightarrow> entry list" where
  "off_entries rv rh numLayer nx nz l j i =
     (let r = node nx nz l j i; hx = d_div (dval (- 1)) (fst (rh ! l)); hz = d_div (dval (- 1)) (snd (rh ! l)) in
      (if 0 < l then [(r, node nx nz (l - 1) j i, vert_conductance rv l (l - 1))] else [])
      @ (if 0 < j then [(r, node nx nz l (j - 1) i, hz)] else [])
      @ (if 0 < i then [(r, node nx nz l j (i - 1), hx)] else [])
      @ (if i + 1 < nx then [(r, node nx nz l j (i + 1), hx)] else [])
      @ (if j + 1 < nz then [(r, node nx nz l (j + 1) i, hz)] else [])
      @ (if l < numLayer then [(r, node nx nz (l + 1) j i, vert_conductance rv l (l + 1))] else []))"

definition diag_entry :: "fl \<Rightarrow> nat \<Rightarrow> nat \<Rightarrow> nat \<Rightarrow> entry list \<Rightarrow> entry" where
  "diag_entry ramb nx nz r es =
     (let v = foldl d_sub (dval 0) (map eval_of es) in
      (r, r, if r < nx * nz then d_add v (d_div (dval 1) ramb) else v))"

text \<open>The loop that moves the last entry of a row to its place, from the end of the row.\<close>

fun bubble :: "entry \<Rightarrow> entry list \<Rightarrow> entry list" where
  "bubble d [] = [d]"
| "bubble d (e # es) = (if ecol e > ecol d then e # bubble d es else d # e # es)"

definition row_entries :: "fl list \<Rightarrow> (fl \<times> fl) list \<Rightarrow> fl \<Rightarrow> nat \<Rightarrow> nat \<Rightarrow> nat \<Rightarrow> nat \<times> nat \<times> nat \<Rightarrow> entry list" where
  "row_entries rv rh ramb numLayer nx nz =
     (\<lambda>(l, j, i). let es = off_entries rv rh numLayer nx nz l j i in
        rev (bubble (diag_entry ramb nx nz (node nx nz l j i) es) (rev es)))"

definition count_entries :: "nat \<Rightarrow> nat \<Rightarrow> nat \<Rightarrow> nat" where
  "count_entries numLayer nx nz =
     sum_list (map (\<lambda>(l, i, j). of_bool (0 < i) + of_bool (i + 1 < nx) + of_bool (0 < j) + of_bool (j + 1 < nz)
                        + of_bool (l < numLayer) + of_bool (0 < l))
       (List.product [0..<numLayer + 1] (List.product [0..<nx] [0..<nz]))) + nx * nz * (numLayer + 1)"

text \<open>The array has room for the counted entries; entries that were not filled in would stay 0.\<close>

definition calculate_Midx_array :: "fl \<Rightarrow> fl \<Rightarrow> nat \<Rightarrow> nat \<Rightarrow> nat \<Rightarrow> entry list result" where
  "calculate_Midx_array W Lc np nx nz =
     bindE (Rvert W Lc np nx nz) (\<lambda>rv.
     let numLayer = np * 3; count = count_entries numLayer nx nz;
         es = concat (map (row_entries rv (Rhori W Lc np nx nz) (Ramb W Lc nx nz) numLayer nx nz)
                (List.product [0..<numLayer + 1] (List.product [0..<nz] [0..<nx]))) in
     if length es > count then Inl UB_Index else Inr (es @ replicate (count - length es) (0, 0, dval 0)))"

section \<open>The steady solver\<close>

text \<open>The loop that notes where each row starts; \<open>None\<close> is an element of \<open>xa\<close> that was not written.\<close>

fun row_starts :: "entry list \<Rightarrow> nat \<Rightarrow> int \<Rightarrow> nat option list \<Rightarrow> (int \<times> nat option list) result" where
  "row_starts [] k r xa = Inr (r, xa)"
| "row_starts (e # es) k r xa =
     (if int (fst e) > r then bindE (vec_set xa (fst e) (Some k)) (row_starts es (k + 1) (int (fst e)))
      else row_starts es (k + 1) r xa)"

definition compressed :: "nat \<Rightarrow> entry list \<Rightarrow> (nat option list \<times> nat list \<times> fl list) result" where
  "compressed n midx =
     bindE (row_starts midx 0 (- 1) (replicate (n + 1) None)) (\<lambda>(r, xa).
     bindE (vec_set xa (nat (r + 1)) (Some (length midx))) (\<lambda>xa'. Inr (xa', map ecol midx, map eval_of midx)))"

text \<open>\<open>v[f k] = x k\<close> for all \<open>k\<close> of a list.\<close>

definition vec_sets :: "('k \<Rightarrow> nat) \<Rightarrow> ('k \<Rightarrow> 'a result) \<Rightarrow> 'k list \<Rightarrow> 'a list \<Rightarrow> 'a list result" where
  "vec_sets f x = foldE (\<lambda>k v. bindE (x k) (vec_set v (f k)))"

definition power_at :: "fl list list list \<Rightarrow> nat \<Rightarrow> nat \<Rightarrow> nat \<Rightarrow> fl result" where
  "power_at powerM i j l = bindE (vec_get powerM i) (\<lambda>p. bindE (vec_get p j) (\<lambda>q. vec_get q l))"

definition steady_rhs :: "fl list list list \<Rightarrow> fl \<Rightarrow> nat \<Rightarrow> nat \<Rightarrow> nat \<Rightarrow> fl \<Rightarrow> fl list result" where
  "steady_rhs powerM ramb np nx nz Tamb =
     bindE (vec_sets id (\<lambda>_. Inr (d_div Tamb ramb)) [0..<nx * nz] (replicate (nx * nz * (np * 3 + 1)) (dval 0)))
       (vec_sets (\<lambda>(l, i, j). nx * nz * (l * 3 + 1) + j * nx + i) (\<lambda>(l, i, j). power_at powerM i j l)
          (List.product [0..<np] (List.product [0..<nx] [0..<nz])))"

definition steady_thermal_solver ::
  "(nat \<Rightarrow> nat option list \<Rightarrow> nat list \<Rightarrow> fl list \<Rightarrow> fl list \<Rightarrow> fl list) \<Rightarrow> fl list list list \<Rightarrow> fl \<Rightarrow> fl \<Rightarrow> nat \<Rightarrow> nat \<Rightarrow> nat \<Rightarrow> entry list \<Rightarrow> fl \<Rightarrow> fl list result" where
  "steady_thermal_solver solve powerM W Lc np nx nz midx Tamb =
     (let n = nx * nz * (np * 3 + 1) in
      bindE (compressed n midx) (\<lambda>(xa, asub, a).
      bindE (steady_rhs powerM (Ramb W Lc nx nz) np nx nz Tamb) (\<lambda>rhs.
      Inr (map (\<lambda>x. d_sub x T0) (solve n xa asub a rhs)))))"

section \<open>The transient solver\<close>

definition trans_rhs :: "fl list list list \<Rightarrow> fl \<Rightarrow> nat \<Rightarrow> nat \<Rightarrow> nat \<Rightarrow> fl \<Rightarrow> fl list result" where
  "trans_rhs powerM ramb np nx nz Tamb =
     bindE (vec_sets id (\<lambda>_. Inr (d_div Tamb ramb)) [0..<nx * nz] (replicate (nx * nz * (np * 3 + 1)) (dval 0)))
       (vec_sets (\<lambda>(l, j, i). nx * nz * (l * 3 + 1) + i * nz + j) (\<lambda>(l, j, i). power_at powerM i j l)
          (List.product [0..<np] (List.product [0..<nz] [0..<nx])))"

text \<open>\<open>(int)(x + 0.01)\<close> for a row or column stored as a \<open>double\<close>.\<close>

definition entry_index :: "nat \<Rightarrow> nat" where
  "entry_index x = nat (fl_trunc (d_add (dval (int x)) (lit 1 100)))"

definition heat_entry :: "nat \<Rightarrow> fl list \<Rightarrow> fl \<Rightarrow> fl list \<Rightarrow> fl list \<Rightarrow> entry \<Rightarrow> fl list \<Rightarrow> fl list result" where
  "heat_entry cells_per_layer cap dt p tp e t =
     (let idx0 = entry_index (fst e); idx1 = entry_index (ecol e); tmp_c = eval_of e in
      bindE (vec_get cap (idx0 div cells_per_layer)) (\<lambda>c.
      bindE (vec_get tp idx1) (\<lambda>x.
      bindE (vec_get t idx0) (\<lambda>y.
      if idx0 = idx1 then
        bindE (vec_get p idx0) (\<lambda>q.
        let tmp_a = d_sub (dval 1) (d_div (d_mul tmp_c dt) c);
            tmp_b = d_add (d_mul tmp_a x) (d_div (d_mul q dt) c) in
        vec_set t idx0 (d_add y tmp_b))
      else vec_set t idx0 (d_sub y (d_div (d_mul (d_mul tmp_c x) dt) c))))))"

text \<open>The entries in blocks of eight: \<open>for (j = 0; j < n; j += 8) for (b = j; b < bound; b++)\<close>.\<close>

function blocks :: "nat \<Rightarrow> nat \<Rightarrow> nat list" where
  "blocks n j = (if j < n then [j..<(if j + 8 < n then j + 8 else n)] @ blocks n (j + 8) else [])"
  by pat_completeness auto
termination by (relation "measure (\<lambda>(n, j). n - j)") auto

declare blocks.simps [simp del]

definition heat_step :: "nat \<Rightarrow> entry list \<Rightarrow> fl list \<Rightarrow> fl \<Rightarrow> fl list \<Rightarrow> fl list \<Rightarrow> fl list result" where
  "heat_step cells_per_layer midx cap dt p tp =
     foldE (\<lambda>b t. bindE (vec_get midx b) (\<lambda>e. heat_entry cells_per_layer cap dt p tp e t))
       (blocks (length midx) 0) (replicate (length p) (dval 0))"

primrec heat_steps :: "nat \<Rightarrow> nat \<Rightarrow> entry list \<Rightarrow> fl list \<Rightarrow> fl \<Rightarrow> fl list \<Rightarrow> fl list \<Rightarrow> fl list result" where
  "heat_steps 0 m midx cap dt p tp = Inr tp"
| "heat_steps (Suc k) m midx cap dt p tp = bindE (heat_step m midx cap dt p tp) (heat_steps k m midx cap dt p)"

definition transient_thermal_solver ::
  "fl list list list \<Rightarrow> fl \<Rightarrow> fl \<Rightarrow> nat \<Rightarrow> nat \<Rightarrow> nat \<Rightarrow> entry list \<Rightarrow> fl list \<Rightarrow> fl \<Rightarrow> nat \<Rightarrow> fl list \<Rightarrow> fl \<Rightarrow> fl list result" where
  "transient_thermal_solver powerM W Lc np nx nz midx cap time iter T_trans Tamb =
     bindE (trans_rhs powerM (Ramb W Lc nx nz) np nx nz Tamb) (\<lambda>p.
     heat_steps iter (nx * nz) midx cap (d_div time (dval (int iter))) p T_trans)"

definition get_maxT :: "fl list \<Rightarrow> fl" where
  "get_maxT ts = foldl (\<lambda>m t. if fl_less m t then t else m) (dval 0) ts"

section \<open>Calls from the calculator\<close>

text \<open>The smallest ratio of capacitance and conductance, at most 100.\<close>

definition max_dt :: "nat \<Rightarrow> fl list \<Rightarrow> entry list \<Rightarrow> fl result" where
  "max_dt layer_dim cap midx =
     foldE (\<lambda>e dt.
       let idx0 = entry_index (fst e); idx1 = entry_index (ecol e) in
       if idx0 = idx1 then
         bindE (vec_get cap (idx0 div layer_dim)) (\<lambda>c. let q = d_div c (eval_of e) in Inr (if fl_less q dt then q else dt))
       else Inr dt) midx (dval 100)"

partial_function (option) iterate_time :: "fl \<Rightarrow> fl \<Rightarrow> int \<Rightarrow> int option" where
  "iterate_time epoch dt n = (if \<not> fl_less (d_div epoch (dval n)) dt then iterate_time epoch dt (n + 1) else Some n)"

definition calculate_time_step :: "nat \<Rightarrow> fl list \<Rightarrow> entry list \<Rightarrow> int \<Rightarrow> fl \<Rightarrow> int result" where
  "calculate_time_step layer_dim cap midx epoch tck =
     bindE (max_dt layer_dim cap midx) (\<lambda>dt.
     case iterate_time (d_mul (d_mul (dval epoch) tck) (lit 1 1000000000)) dt 10 of None \<Rightarrow> Inl Diverges | Some n \<Rightarrow> Inr n)"

definition GetMaxTofCase :: "fl list \<Rightarrow> fl" where
  "GetMaxTofCase ts = foldl (\<lambda>m t. if fl_less m t then t else m) (dval 0) ts"

definition GetMaxTofCaseLayer :: "thermal \<Rightarrow> fl list \<Rightarrow> nat \<Rightarrow> fl result" where
  "GetMaxTofCaseLayer t ts l =
     (let nx = nat (dimX t + 2); nz = nat (dimY t + 2); off = (l * 3 + 1) * (nx * nz) in
      foldE (\<lambda>(j, i) m. bindE (vec_get ts (off + j * nx + i)) (\<lambda>x. let d = d_sub x T0 in Inr (if fl_less d m then m else d)))
        (List.product [1..<nat (dimY t) + 1] [1..<nat (dimX t) + 1]) (dval 0))"

definition CalcTransT ::
  "dram_config \<Rightarrow> fl \<Rightarrow> fl \<times> fl \<Rightarrow> fl \<Rightarrow> entry list \<Rightarrow> fl list \<Rightarrow> nat \<Rightarrow> int \<Rightarrow> thermal \<Rightarrow> fl list \<Rightarrow> fl list result" where
  "CalcTransT c tck chip Tamb midx cap time_iter k t T_trans =
     bindE (InitPowerM c k 0 t) (\<lambda>powerM.
     transient_thermal_solver powerM (fst chip) (snd chip) (nat (numP t)) (nat (dimX t + 2)) (nat (dimY t + 2)) midx cap
       (d_mul (d_mul (dval (epoch_period c)) tck) (lit 1 1000000000)) time_iter T_trans Tamb)"

definition CalcFinalT ::
  "(nat \<Rightarrow> nat option list \<Rightarrow> nat list \<Rightarrow> fl list \<Rightarrow> fl list \<Rightarrow> fl list) \<Rightarrow> dram_config \<Rightarrow> fl \<times> fl \<Rightarrow> fl \<Rightarrow> entry list \<Rightarrow> int \<Rightarrow> u64 \<Rightarrow> thermal \<Rightarrow> fl list result" where
  "CalcFinalT solve c chip Tamb midx k clk t =
     bindE (InitPowerM c k clk t) (\<lambda>powerM.
     steady_thermal_solver solve powerM (fst chip) (snd chip) (nat (numP t)) (nat (dimX t + 2)) (nat (dimY t + 2)) midx Tamb)"

section \<open>The matrix fills its array\<close>

lemma node_le:
  assumes "l \<le> numLayer" and "j < nz" and "i < nx"
  shows "node nx nz l j i < nx * nz * (numLayer + 1)"
proof -
  have "(j + 1) * nx \<le> nz * nx" using assms(2) by (intro mult_right_mono) auto
  then have "j * nx + i < nx * nz" using assms(3) by (simp add: algebra_simps)
  moreover have "l * (nx * nz) \<le> numLayer * (nx * nz)" using assms(1) by (intro mult_right_mono) auto
  ultimately have "l * (nx * nz) + (j * nx + i) < numLayer * (nx * nz) + nx * nz" by linarith
  then show ?thesis by (simp add: node_def algebra_simps)
qed

lemma pairs_in_order: "map (\<lambda>(j, i). j * nx + i) (List.product [0..<nz] [0..<nx]) = [0..<nz * nx]"
proof (induction nz)
  case (Suc nz)
  have "map (\<lambda>i. nz * nx + i) [0..<nx] = [nz * nx..<nz * nx + nx]" using map_add_upt [of "nz * nx" nx] by (simp add: add.commute)
  then have "map (\<lambda>(j, i). j * nx + i) (List.product [0..<Suc nz] [0..<nx]) = [0..<nz * nx] @ [nz * nx..<nz * nx + nx]"
    using Suc by (simp add: product_concat_map o_def)
  also have "\<dots> = [0..<Suc nz * nx]" using upt_add_eq_append [of 0 "nz * nx" nx] by (simp add: add.commute)
  finally show ?case .
qed simp

lemma nodes_in_order:
  "map (\<lambda>(l, j, i). node nx nz l j i) (List.product [0..<m] (List.product [0..<nz] [0..<nx])) = [0..<nx * nz * m]"
proof -
  let ?f = "\<lambda>(l, q). l * (nz * nx) + q"
  have "map (\<lambda>(l, j, i). node nx nz l j i) (List.product [0..<m] (List.product [0..<nz] [0..<nx]))
      = map ?f (map (\<lambda>(l, p). (l, (\<lambda>(j, i). j * nx + i) p)) (List.product [0..<m] (List.product [0..<nz] [0..<nx])))"
    by (auto simp: node_def mult_ac)
  also have "map (\<lambda>(l, p). (l, (\<lambda>(j, i). j * nx + i) p)) (List.product [0..<m] (List.product [0..<nz] [0..<nx])) = List.product [0..<m] [0..<nz * nx]"
    unfolding pairs_in_order [symmetric] by (simp add: product_concat_map map_concat o_def)
  also have "map ?f (List.product [0..<m] [0..<nz * nx]) = [0..<m * (nz * nx)]" by (rule pairs_in_order)
  finally show ?thesis by (simp add: mult_ac)
qed

lemma length_bubble [simp]: "length (bubble d es) = Suc (length es)"
  by (induction es) auto

lemma length_row: "length (row_entries rv rh ramb numLayer nx nz (l, j, i))
   = 1 + (of_bool (0 < i) + of_bool (i + 1 < nx) + of_bool (0 < j) + of_bool (j + 1 < nz) + of_bool (l < numLayer) + of_bool (0 < l))"
  by (simp add: row_entries_def off_entries_def Let_def)

lemma sum_concat: "sum_list (concat xs) = sum_list (map sum_list xs)" for xs :: "nat list list"
  by (induction xs) simp_all

lemma sum_swap: "(\<Sum>x\<leftarrow>xs. \<Sum>y\<leftarrow>ys. f x y) = (\<Sum>y\<leftarrow>ys. \<Sum>x\<leftarrow>xs. f x y)" for f :: "'a \<Rightarrow> 'b \<Rightarrow> nat"
  by (induction xs) (simp_all add: sum_list_addf)

lemma entries_fill_array:
  "length (concat (map (row_entries rv rh ramb numLayer nx nz) (List.product [0..<numLayer + 1] (List.product [0..<nz] [0..<nx])))) = count_entries numLayer nx nz"
proof -
  let ?k = "\<lambda>l i j. of_bool (0 < i) + of_bool (i + 1 < nx) + of_bool (0 < j) + of_bool (j + 1 < nz) + of_bool (l < numLayer) + of_bool (0 < l) :: nat"
  have "length (concat (map (row_entries rv rh ramb numLayer nx nz) (List.product [0..<numLayer + 1] (List.product [0..<nz] [0..<nx]))))
      = (\<Sum>l\<leftarrow>[0..<numLayer + 1]. \<Sum>j\<leftarrow>[0..<nz]. \<Sum>i\<leftarrow>[0..<nx]. 1 + ?k l i j)"
    by (simp only: length_concat map_map o_def) (simp add: product_concat_map map_concat sum_concat o_def length_row)
  also have "\<dots> = (\<Sum>l\<leftarrow>[0..<numLayer + 1]. (\<Sum>j\<leftarrow>[0..<nz]. \<Sum>i\<leftarrow>[0..<nx]. ?k l i j) + nz * nx)"
    by (simp only: sum_list_addf sum_list_triv length_upt) (simp add: sum_list_triv add.commute)
  also have "\<dots> = (\<Sum>l\<leftarrow>[0..<numLayer + 1]. \<Sum>i\<leftarrow>[0..<nx]. \<Sum>j\<leftarrow>[0..<nz]. ?k l i j) + nx * nz * (numLayer + 1)"
    by (simp only: sum_list_addf sum_swap [of _ "[0..<nx]"]) (simp add: sum_list_triv algebra_simps)
  also have "\<dots> = count_entries numLayer nx nz"
    by (simp add: count_entries_def product_concat_map map_concat sum_concat o_def)
  finally show ?thesis .
qed

lemma mapTSV_in:
  assumes "l < np * 3"
  shows "l < length (mapTSV np) \<and> (mapTSV np ! l \<noteq> 0 \<longrightarrow> mapTSV np ! l - 1 < np - 1)"
proof (cases "l = np * 3 - 2")
  case True
  then show ?thesis using assms by (auto simp: mapTSV_def)
next
  case False
  then have "l = 0 \<or> l = np * 3 - 1 \<or> (l - 1) div 3 < np - 1" using assms by auto
  then show ?thesis using assms False by (auto simp: mapTSV_def)
qed

lemma Rvert_total: "\<exists>rv. Rvert W Lc np nx nz = Inr rv \<and> length rv = np * 3 + 1"
proof -
  have "\<exists>y. layer_resistance np area l = Inr y \<and> True" if "l < np * 3" for l area
    using mapTSV_in [OF that] by (auto simp: layer_resistance_def vec_get_def Let_def)
  then have "\<forall>l \<in> set [0..<np * 3]. \<exists>y. layer_resistance np area l = Inr y \<and> True" for area by simp
  from mapE_all [OF this [of "d_mul (d_div W (dval (int nx))) (d_div Lc (dval (int nz)))"]] show ?thesis by (auto simp: Rvert_def)
qed

abbreviation chip_rows :: "fl \<Rightarrow> fl \<Rightarrow> nat \<Rightarrow> nat \<Rightarrow> nat \<Rightarrow> fl list \<Rightarrow> entry list list" where
  "chip_rows W Lc np nx nz rv \<equiv> map (row_entries rv (Rhori W Lc np nx nz) (Ramb W Lc nx nz) (np * 3) nx nz)
     (List.product [0..<np * 3 + 1] (List.product [0..<nz] [0..<nx]))"

lemma Midx_rows:
  "\<exists>rv. Rvert W Lc np nx nz = Inr rv \<and> calculate_Midx_array W Lc np nx nz = Inr (concat (chip_rows W Lc np nx nz rv))
     \<and> length (concat (chip_rows W Lc np nx nz rv)) = count_entries (np * 3) nx nz"
proof -
  obtain rv where rv: "Rvert W Lc np nx nz = Inr rv" using Rvert_total by blast
  have "length (concat (chip_rows W Lc np nx nz rv)) = count_entries (np * 3) nx nz" by (rule entries_fill_array)
  then show ?thesis using rv by (simp only: calculate_Midx_array_def bindE_simps Let_def) simp
qed

section \<open>Rows are sorted\<close>

abbreviation by_col :: "entry \<Rightarrow> entry \<Rightarrow> bool" where "by_col e f \<equiv> ecol e < ecol f"

lemma set_bubble [simp]: "set (bubble d es) = insert d (set es)"
  by (induction es) auto

lemma bubble_sorted: "sorted_wrt (\<lambda>e f. by_col f e) es \<Longrightarrow> \<forall>e \<in> set es. ecol e \<noteq> ecol d \<Longrightarrow> sorted_wrt (\<lambda>e f. by_col f e) (bubble d es)"
proof (induction es)
  case (Cons e es)
  show ?case
  proof (cases "ecol d < ecol e")
    case True
    then show ?thesis using Cons by simp
  next
    case False
    then have "ecol e < ecol d" using Cons.prems(2) by simp
    moreover have "ecol f < ecol e" if "f \<in> set es" for f using Cons.prems(1) that by simp
    ultimately show ?thesis using Cons.prems(1) False less_trans by fastforce
  qed
qed simp

lemma node_steps:
  shows "0 < l \<Longrightarrow> nx * nz \<le> node nx nz l j i \<and> node nx nz (l - 1) j i = node nx nz l j i - nx * nz"
    and "0 < j \<Longrightarrow> nx \<le> node nx nz l j i \<and> node nx nz l (j - 1) i = node nx nz l j i - nx"
    and "0 < i \<Longrightarrow> 1 \<le> node nx nz l j i \<and> node nx nz l j (i - 1) = node nx nz l j i - 1"
    and "node nx nz l j (i + 1) = node nx nz l j i + 1" and "node nx nz l (j + 1) i = node nx nz l j i + nx"
    and "node nx nz (l + 1) j i = node nx nz l j i + nx * nz"
  by (auto simp: node_def algebra_simps gr0_conv_Suc)

lemma sorted_filtered: "sorted_wrt (\<lambda>x y. fst x \<longrightarrow> fst y \<longrightarrow> snd x < snd y) xs \<Longrightarrow> sorted_wrt (<) (map snd (filter fst xs))"
  by (induction xs) auto

lemma not_filtered: "\<forall>x \<in> set xs. fst x \<longrightarrow> snd x \<noteq> r \<Longrightarrow> r \<notin> set (map snd (filter fst xs))"
  by auto

lemma off_cols:
  assumes "0 < nx" and "0 < nz" and "i < nx" and "j < nz"
  shows "sorted_wrt by_col (off_entries rv rh numLayer nx nz l j i) \<and> (\<forall>e \<in> set (off_entries rv rh numLayer nx nz l j i). ecol e \<noteq> node nx nz l j i)"
proof -
  define r A where "r = node nx nz l j i" and "A = nx * nz"
  have s: "0 < l \<Longrightarrow> A \<le> r \<and> node nx nz (l - 1) j i = r - A" "0 < j \<Longrightarrow> nx \<le> r \<and> node nx nz l (j - 1) i = r - nx"
    "0 < i \<Longrightarrow> 1 \<le> r \<and> node nx nz l j (i - 1) = r - 1" "node nx nz l j (i + 1) = r + 1" "node nx nz l (j + 1) i = r + nx" "node nx nz (l + 1) j i = r + A"
    unfolding r_def A_def by (rule node_steps, assumption?)+
  have a: "0 < j \<or> j + 1 < nz \<Longrightarrow> nx < A" "0 < i \<or> i + 1 < nx \<Longrightarrow> 1 < nx" "nx \<le> A" "0 < nx"
  proof -
    show "nx < A" if "0 < j \<or> j + 1 < nz"
    proof -
      have "1 < nz" using that assms(4) by auto
      then show ?thesis using assms(1) by (simp add: A_def)
    qed
    show "1 < nx" if "0 < i \<or> i + 1 < nx" using that assms(3) by auto
    show "nx \<le> A" "0 < nx" using assms(1,2) by (simp_all add: A_def)
  qed
  let ?c = "[(0 < l, node nx nz (l - 1) j i), (0 < j, node nx nz l (j - 1) i), (0 < i, node nx nz l j (i - 1)),
    (i + 1 < nx, node nx nz l j (i + 1)), (j + 1 < nz, node nx nz l (j + 1) i), (l < numLayer, node nx nz (l + 1) j i)]"
  have "map ecol (off_entries rv rh numLayer nx nz l j i) = map snd (filter fst ?c)" by (simp add: off_entries_def Let_def)
  moreover have "sorted_wrt (\<lambda>x y. fst x \<longrightarrow> fst y \<longrightarrow> snd x < snd y) ?c" unfolding s(4-6) using s(1-3) a by auto
  then have "sorted_wrt (<) (map snd (filter fst ?c))" by (rule sorted_filtered)
  moreover have "\<forall>x \<in> set ?c. fst x \<longrightarrow> snd x \<noteq> r" unfolding s(4-6) using s(1-3) a by auto
  then have "r \<notin> set (map snd (filter fst ?c))" by (rule not_filtered)
  ultimately have "sorted_wrt (<) (map ecol (off_entries rv rh numLayer nx nz l j i))" "r \<notin> set (map ecol (off_entries rv rh numLayer nx nz l j i))" by (simp_all only: not_False_eq_True)
  then show ?thesis unfolding r_def by (force simp: sorted_wrt_map)
qed

lemma row_sorted:
  assumes "0 < nx" and "0 < nz" and "i < nx" and "j < nz"
  shows "sorted_wrt by_col (row_entries rv rh ramb numLayer nx nz (l, j, i)) \<and> (\<forall>e \<in> set (row_entries rv rh ramb numLayer nx nz (l, j, i)). fst e = node nx nz l j i)"
proof -
  let ?es = "off_entries rv rh numLayer nx nz l j i"
  note o = off_cols [OF assms, of rv rh numLayer l]
  have "\<forall>e \<in> set ?es. fst e = node nx nz l j i" by (auto simp: off_entries_def Let_def split: if_splits)
  moreover have "sorted_wrt (\<lambda>e f. by_col f e) (bubble (diag_entry ramb nx nz (node nx nz l j i) ?es) (rev ?es))"
    using o by (intro bubble_sorted) (auto simp: sorted_wrt_rev diag_entry_def Let_def)
  ultimately show ?thesis by (simp add: row_entries_def Let_def sorted_wrt_rev diag_entry_def)
qed

section \<open>The matrix is symmetric\<close>

lemma fl_add_commute: "fl_add p x y = fl_add p y x"
  by (simp add: fl_add_def mult.commute add.commute)

lemma vert_commute: "vert_conductance rv a b = vert_conductance rv b a"
  by (simp add: vert_conductance_def fl_add_commute)

text \<open>The entries beside the diagonal.\<close>

definition chip_offs :: "fl list \<Rightarrow> (fl \<times> fl) list \<Rightarrow> nat \<Rightarrow> nat \<Rightarrow> nat \<Rightarrow> entry set" where
  "chip_offs rv rh numLayer nx nz = (\<Union>l \<le> numLayer. \<Union>j < nz. \<Union>i < nx. set (off_entries rv rh numLayer nx nz l j i))"

lemma off_entriesI:
  "0 < l \<Longrightarrow> (node nx nz l j i, node nx nz (l - 1) j i, vert_conductance rv l (l - 1)) \<in> set (off_entries rv rh L nx nz l j i)"
  "0 < j \<Longrightarrow> (node nx nz l j i, node nx nz l (j - 1) i, d_div (dval (- 1)) (snd (rh ! l))) \<in> set (off_entries rv rh L nx nz l j i)"
  "0 < i \<Longrightarrow> (node nx nz l j i, node nx nz l j (i - 1), d_div (dval (- 1)) (fst (rh ! l))) \<in> set (off_entries rv rh L nx nz l j i)"
  "i + 1 < nx \<Longrightarrow> (node nx nz l j i, node nx nz l j (i + 1), d_div (dval (- 1)) (fst (rh ! l))) \<in> set (off_entries rv rh L nx nz l j i)"
  "j + 1 < nz \<Longrightarrow> (node nx nz l j i, node nx nz l (j + 1) i, d_div (dval (- 1)) (snd (rh ! l))) \<in> set (off_entries rv rh L nx nz l j i)"
  "l < L \<Longrightarrow> (node nx nz l j i, node nx nz (l + 1) j i, vert_conductance rv l (l + 1)) \<in> set (off_entries rv rh L nx nz l j i)"
  by (auto simp: off_entries_def Let_def)

lemma off_entriesE:
  assumes "e \<in> set (off_entries rv rh L nx nz l j i)"
  obtains (down) "0 < l" "e = (node nx nz l j i, node nx nz (l - 1) j i, vert_conductance rv l (l - 1))"
    | (south) "0 < j" "e = (node nx nz l j i, node nx nz l (j - 1) i, d_div (dval (- 1)) (snd (rh ! l)))"
    | (west) "0 < i" "e = (node nx nz l j i, node nx nz l j (i - 1), d_div (dval (- 1)) (fst (rh ! l)))"
    | (east) "i + 1 < nx" "e = (node nx nz l j i, node nx nz l j (i + 1), d_div (dval (- 1)) (fst (rh ! l)))"
    | (north) "j + 1 < nz" "e = (node nx nz l j i, node nx nz l (j + 1) i, d_div (dval (- 1)) (snd (rh ! l)))"
    | (up) "l < L" "e = (node nx nz l j i, node nx nz (l + 1) j i, vert_conductance rv l (l + 1))"
  using assms unfolding off_entries_def Let_def by (auto split: if_splits)

lemma chip_offsI: "l \<le> L \<Longrightarrow> j < nz \<Longrightarrow> i < nx \<Longrightarrow> e \<in> set (off_entries rv rh L nx nz l j i) \<Longrightarrow> e \<in> chip_offs rv rh L nx nz"
  by (auto simp: chip_offs_def)

lemma chip_offs_sym:
  assumes "(r, k, v) \<in> chip_offs rv rh L nx nz"
  shows "(k, r, v) \<in> chip_offs rv rh L nx nz"
proof -
  obtain l j i where n: "l \<le> L" "j < nz" "i < nx" and e: "(r, k, v) \<in> set (off_entries rv rh L nx nz l j i)" using assms by (auto simp: chip_offs_def)
  from e show ?thesis
  proof (cases rule: off_entriesE)
    case down
    then show ?thesis using n off_entriesI(6) [of "l - 1" L nx nz j i rv rh] by (intro chip_offsI [of "l - 1" L j nz i nx]) (auto simp: vert_commute)
  next
    case south
    then show ?thesis using n off_entriesI(5) [of "j - 1" nz nx l i rh rv L] by (intro chip_offsI [of l L "j - 1" nz i nx]) auto
  next
    case west
    then show ?thesis using n off_entriesI(4) [of "i - 1" nx nz l j rh rv L] by (intro chip_offsI [of l L j nz "i - 1" nx]) auto
  next
    case east
    then show ?thesis using n off_entriesI(3) [of "i + 1" nx nz l j rh rv L] by (intro chip_offsI [of l L j nz "i + 1" nx]) auto
  next
    case north
    then show ?thesis using n off_entriesI(2) [of "j + 1" nx nz l i rh rv L] by (intro chip_offsI [of l L "j + 1" nz i nx]) auto
  next
    case up
    then show ?thesis using n off_entriesI(1) [of "l + 1" nx nz j i rv rh L] by (intro chip_offsI [of "l + 1" L j nz i nx]) (auto simp: vert_commute)
  qed
qed

lemma row_set: "set (row_entries rv rh ramb L nx nz (l, j, i)) = insert (diag_entry ramb nx nz (node nx nz l j i) (off_entries rv rh L nx nz l j i)) (set (off_entries rv rh L nx nz l j i))"
  by (simp add: row_entries_def Let_def)

lemma product_rows:
  "e \<in> set (concat (map R (List.product [0..<L + 1] (List.product [0..<nz] [0..<nx])))) \<longleftrightarrow> (\<exists>l \<le> L. \<exists>j < nz. \<exists>i < nx. e \<in> set (R (l, j, i)))"
proof -
  have "set (List.product [0..<L + 1] (List.product [0..<nz] [0..<nx])) = {(l, j, i). l \<le> L \<and> j < nz \<and> i < nx}"
    by (auto simp: less_Suc_eq_le simp del: upt_Suc)
  then show ?thesis by (simp only: set_concat set_map) auto
qed

lemma chip_sym:
  assumes "(r, k, v) \<in> set (concat (chip_rows W Lc np nx nz rv))"
  shows "(k, r, v) \<in> set (concat (chip_rows W Lc np nx nz rv))"
proof -
  let ?rh = "Rhori W Lc np nx nz" and ?R = "row_entries rv (Rhori W Lc np nx nz) (Ramb W Lc nx nz) (np * 3) nx nz"
  have mem: "e \<in> set (concat (chip_rows W Lc np nx nz rv)) \<longleftrightarrow> (\<exists>l \<le> np * 3. \<exists>j < nz. \<exists>i < nx. e \<in> set (?R (l, j, i)))" for e
    by (rule product_rows)
  obtain l j i where n: "l \<le> np * 3" "j < nz" "i < nx" "(r, k, v) \<in> set (?R (l, j, i))" using assms mem by blast
  show ?thesis
  proof (cases "(r, k, v) \<in> set (off_entries rv ?rh (np * 3) nx nz l j i)")
    case True
    have "(r, k, v) \<in> chip_offs rv ?rh (np * 3) nx nz" by (rule chip_offsI [OF n(1-3) True])
    then have "(k, r, v) \<in> chip_offs rv ?rh (np * 3) nx nz" by (rule chip_offs_sym)
    then obtain l j i where m: "l \<le> np * 3" "j < nz" "i < nx" "(k, r, v) \<in> set (off_entries rv ?rh (np * 3) nx nz l j i)" by (auto simp: chip_offs_def)
    then have "(k, r, v) \<in> set (?R (l, j, i))" by (simp add: row_set)
    then show ?thesis unfolding mem using m(1-3) by blast
  next
    case False
    then have "(r, k, v) = diag_entry (Ramb W Lc nx nz) nx nz (node nx nz l j i) (off_entries rv ?rh (np * 3) nx nz l j i)" using n(4) unfolding row_set by blast
    then have "r = k" by (simp add: diag_entry_def Let_def)
    then show ?thesis using assms by simp
  qed
qed

section \<open>Compressed columns\<close>

fun starts :: "nat \<Rightarrow> 'a list list \<Rightarrow> nat list" where
  "starts k [] = []"
| "starts k (x # xs) = k # starts (k + length x) xs"

lemma length_starts [simp]: "length (starts k xs) = length xs"
  by (induction k xs rule: starts.induct) auto

lemma row_starts_skip: "\<forall>e \<in> set es. int (fst e) \<le> r \<Longrightarrow> row_starts (es @ rest) k r xa = row_starts rest (k + length es) r xa"
  by (induction es arbitrary: k) auto

lemma row_starts_rows:
  assumes "\<forall>k < length rs. rs ! k \<noteq> [] \<and> (\<forall>e \<in> set (rs ! k). fst e = r0 + k)" and "length pre = r0" and "length rs \<le> length post"
  shows "row_starts (concat rs) k (int r0 - 1) (pre @ post) = Inr (int (r0 + length rs) - 1, pre @ map Some (starts k rs) @ drop (length rs) post)"
  using assms
proof (induction rs arbitrary: k r0 pre post)
  case (Cons x rs)
  have x: "x \<noteq> []" "\<forall>e \<in> set x. fst e = r0" using Cons.prems(1) by force+
  then obtain e es where e: "x = e # es" "fst e = r0" by (cases x) auto
  obtain q qs where q: "post = q # qs" using Cons.prems(3) by (cases post) auto
  have "\<forall>k < length rs. rs ! k \<noteq> [] \<and> (\<forall>e \<in> set (rs ! k). fst e = (r0 + 1) + k)" using Cons.prems(1) by fastforce
  from Cons.IH [OF this, of "pre @ [Some k]" qs "k + length x"] Cons.prems(2,3) q
  have ih: "row_starts (concat rs) (k + length x) (int r0) (pre @ Some k # qs) = Inr (int (r0 + length (x # rs)) - 1, pre @ map Some (starts k (x # rs)) @ drop (length (x # rs)) post)"
    by simp
  have "row_starts (concat (x # rs)) k (int r0 - 1) (pre @ post) = row_starts (es @ concat rs) (k + 1) (int r0) (pre @ Some k # qs)"
    using e q Cons.prems(2) by (simp add: vec_set_def list_update_append)
  also have "\<dots> = row_starts (concat rs) (k + length x) (int r0) (pre @ Some k # qs)"
    using x(2) e by (subst row_starts_skip) auto
  finally show ?case using ih by simp
qed simp

lemma compressed_rows:
  assumes "\<forall>k < length rs. rs ! k \<noteq> [] \<and> (\<forall>e \<in> set (rs ! k). fst e = k)" and "0 < length rs"
  shows "compressed (length rs) (concat rs) = Inr (map Some (starts 0 rs @ [length (concat rs)]), map ecol (concat rs), map eval_of (concat rs))"
proof -
  have one: "replicate (Suc 0) None = [None :: nat option]" by simp
  have "row_starts (concat rs) 0 (- 1) (replicate (length rs + 1) None) = Inr (int (length rs) - 1, map Some (starts 0 rs) @ [None])"
    using row_starts_rows [of rs 0 "[]" "replicate (length rs + 1) None" 0] assms(1) one by (simp del: replicate_Suc)
  then show ?thesis by (simp add: compressed_def vec_set_def list_update_append)
qed

text \<open>Column \<open>k\<close> of a matrix in compressed columns: pairs of row and value.\<close>

definition csc_col :: "nat option list \<Rightarrow> nat list \<Rightarrow> fl list \<Rightarrow> nat \<Rightarrow> (nat \<times> fl) list" where
  "csc_col xa asub a k = (case (xa ! k, xa ! (k + 1)) of (Some s, Some e) \<Rightarrow> drop s (take e (zip asub a)) | _ \<Rightarrow> [])"

lemma starts_slice:
  "k < length rs \<Longrightarrow> \<exists>s e. (starts n rs @ [n + length (concat rs)]) ! k = n + s \<and> (starts n rs @ [n + length (concat rs)]) ! (k + 1) = n + e
     \<and> drop s (take e (concat rs)) = rs ! k"
proof (induction rs arbitrary: n k)
  case (Cons x rs)
  show ?case
  proof (cases k)
    case 0
    have "(starts (n + length x) rs @ [n + length (concat (x # rs))]) ! 0 = n + length x" by (cases rs) simp_all
    then show ?thesis using 0 by (auto intro!: exI [of _ 0])
  next
    case (Suc m)
    obtain s e where "(starts (n + length x) rs @ [n + length x + length (concat rs)]) ! m = n + length x + s"
      "(starts (n + length x) rs @ [n + length x + length (concat rs)]) ! (m + 1) = n + length x + e" "drop s (take e (concat rs)) = rs ! m"
      using Cons.IH [of m "n + length x"] Cons.prems Suc by auto
    then show ?thesis using Suc by (intro exI [of _ "length x + s"] exI [of _ "length x + e"]) (simp add: add.assoc)
  qed
qed simp

lemma csc_col_rows:
  assumes "k < length rs"
  shows "csc_col (map Some (starts 0 rs @ [length (concat rs)])) (map ecol (concat rs)) (map eval_of (concat rs)) k = map snd (rs ! k)"
proof -
  obtain s e where se: "(starts 0 rs @ [length (concat rs)]) ! k = s" "(starts 0 rs @ [length (concat rs)]) ! (k + 1) = e" "drop s (take e (concat rs)) = rs ! k"
    using starts_slice [OF assms, of 0] by auto
  have "k < length (starts 0 rs @ [length (concat rs)])" "k + 1 < length (starts 0 rs @ [length (concat rs)])" using assms by simp_all
  then have "csc_col (map Some (starts 0 rs @ [length (concat rs)])) (map ecol (concat rs)) (map eval_of (concat rs)) k
      = drop s (take e (zip (map ecol (concat rs)) (map eval_of (concat rs))))"
    unfolding csc_col_def using se(1,2) by (simp only: nth_map option.case prod.case)
  also have "zip (map ecol (concat rs)) (map eval_of (concat rs)) = map snd (concat rs)" by (simp add: zip_map_map zip_same_conv_map)
  finally show ?thesis using se(3) by (simp add: drop_map take_map)
qed

lemma chip_rows_nth:
  assumes "0 < nx" and "0 < nz" and "k < nx * nz * (np * 3 + 1)"
  shows "chip_rows W Lc np nx nz rv ! k \<noteq> [] \<and> (\<forall>e \<in> set (chip_rows W Lc np nx nz rv ! k). fst e = k) \<and> sorted_wrt by_col (chip_rows W Lc np nx nz rv ! k)"
proof -
  let ?qs = "List.product [0..<np * 3 + 1] (List.product [0..<nz] [0..<nx])"
  have len: "length ?qs = nx * nz * (np * 3 + 1)" using arg_cong [OF nodes_in_order [of nx nz "np * 3 + 1"], of length] by (simp only: length_map length_upt)
  obtain l j i where q: "?qs ! k = (l, j, i)" by (cases "?qs ! k") auto
  have kl: "k < length ?qs" unfolding len by (rule assms(3))
  have "map (\<lambda>(l, j, i). node nx nz l j i) ?qs ! k = [0..<nx * nz * (np * 3 + 1)] ! k" by (simp only: nodes_in_order)
  also have "\<dots> = k" using assms(3) by (simp only: nth_upt add_0)
  finally have "(\<lambda>(l, j, i). node nx nz l j i) (?qs ! k) = k" by (simp only: nth_map [OF kl])
  then have k: "node nx nz l j i = k" using q by simp
  have "?qs ! k \<in> set ?qs" using kl by (rule nth_mem)
  then have ji: "j < nz" "i < nx" using q by (auto simp del: upt_Suc)
  have "chip_rows W Lc np nx nz rv ! k = row_entries rv (Rhori W Lc np nx nz) (Ramb W Lc nx nz) (np * 3) nx nz (l, j, i)"
    by (simp only: nth_map [OF kl] q)
  moreover have "row_entries rv (Rhori W Lc np nx nz) (Ramb W Lc nx nz) (np * 3) nx nz (l, j, i) \<noteq> []"
    unfolding length_0_conv [symmetric] length_row by simp
  ultimately show ?thesis using row_sorted [OF assms(1,2) ji(2,1), of rv _ _ _ l] k by simp
qed

lemma length_chip_rows: "length (chip_rows W Lc np nx nz rv) = nx * nz * (np * 3 + 1)"
  using arg_cong [OF nodes_in_order [of nx nz "np * 3 + 1"], of length] by (simp only: length_map length_upt)

lemma chip_matrix:
  assumes "0 < nx" and "0 < nz"
  shows "\<exists>midx xa asub a. calculate_Midx_array W Lc np nx nz = Inr midx \<and> length midx = count_entries (np * 3) nx nz
     \<and> compressed (nx * nz * (np * 3 + 1)) midx = Inr (xa, asub, a) \<and> length xa = nx * nz * (np * 3 + 1) + 1
     \<and> (\<forall>k < nx * nz * (np * 3 + 1). sorted_wrt (<) (map fst (csc_col xa asub a k))
          \<and> (\<forall>r v. (r, v) \<in> set (csc_col xa asub a k) \<longleftrightarrow> (r, k, v) \<in> set midx))"
proof -
  let ?n = "nx * nz * (np * 3 + 1)"
  obtain rv where m: "calculate_Midx_array W Lc np nx nz = Inr (concat (chip_rows W Lc np nx nz rv))"
    "length (concat (chip_rows W Lc np nx nz rv)) = count_entries (np * 3) nx nz" using Midx_rows by metis
  define rs where "rs = chip_rows W Lc np nx nz rv"
  have l: "length rs = ?n" unfolding rs_def by (rule length_chip_rows)
  have rows: "rs ! k \<noteq> []" "\<forall>e \<in> set (rs ! k). fst e = k" "sorted_wrt by_col (rs ! k)" if "k < ?n" for k
    using chip_rows_nth [OF assms that, where W = W and Lc = Lc and rv = rv] by (auto simp: rs_def)
  have "0 < ?n" using assms by simp
  then have c: "compressed ?n (concat rs) = Inr (map Some (starts 0 rs @ [length (concat rs)]), map ecol (concat rs), map eval_of (concat rs))"
    using compressed_rows [of rs] rows l by simp
  have "sorted_wrt (<) (map fst (map snd (rs ! k))) \<and> (\<forall>r v. (r, v) \<in> set (map snd (rs ! k)) \<longleftrightarrow> (r, k, v) \<in> set (concat rs))" if k: "k < ?n" for k
  proof -
    have "(r, v) \<in> set (map snd (rs ! k)) \<longleftrightarrow> (k, r, v) \<in> set (concat rs)" for r v
    proof
      assume "(r, v) \<in> set (map snd (rs ! k))"
      then obtain e where "e \<in> set (rs ! k)" "snd e = (r, v)" by auto
      then have "(k, r, v) \<in> set (rs ! k)" using rows(2) [OF k] by (metis prod.collapse)
      then show "(k, r, v) \<in> set (concat rs)" using k l nth_mem [of k rs] by fastforce
    next
      assume "(k, r, v) \<in> set (concat rs)"
      then obtain x where "x \<in> set rs" "(k, r, v) \<in> set x" by auto
      then obtain i where "i < length rs" "(k, r, v) \<in> set (rs ! i)" by (metis in_set_conv_nth)
      then show "(r, v) \<in> set (map snd (rs ! k))" using rows(2) [of i] l by force
    qed
    moreover have "(k, r, v) \<in> set (concat rs) \<longleftrightarrow> (r, k, v) \<in> set (concat rs)" for r v unfolding rs_def by (blast intro: chip_sym)
    ultimately show ?thesis using rows(3) [OF k] by (simp add: sorted_wrt_map)
  qed
  then have "sorted_wrt (<) (map fst (csc_col (map Some (starts 0 rs @ [length (concat rs)])) (map ecol (concat rs)) (map eval_of (concat rs)) k))
      \<and> (\<forall>r v. (r, v) \<in> set (csc_col (map Some (starts 0 rs @ [length (concat rs)])) (map ecol (concat rs)) (map eval_of (concat rs)) k) \<longleftrightarrow> (r, k, v) \<in> set (concat rs))"
    if "k < ?n" for k using csc_col_rows [of k rs] l that by simp
  then show ?thesis using m c l unfolding rs_def [symmetric] by (intro exI conjI) (assumption | simp)+
qed

text \<open>C20: SuperLU gets the conductance matrix of the chip.  For a chip of any size the entries
  \<open>calculate_Midx_array\<close> writes fill the array it allocates exactly, the loop of the steady solver over them sets
  every element of \<open>xa\<close>, and column \<open>k\<close> of the compressed matrix it hands over holds exactly the entries of column
  \<open>k\<close>, by increasing row, although they were collected row by row.\<close>

lemma superlu_gets_matrix:
  assumes "0 < nx" and "0 < nz"
  shows "\<exists>midx xa asub a. calculate_Midx_array W Lc np nx nz = Inr midx \<and> length midx = count_entries (np * 3) nx nz
     \<and> compressed (nx * nz * (np * 3 + 1)) midx = Inr (xa, asub, a) \<and> length xa = nx * nz * (np * 3 + 1) + 1
     \<and> (\<forall>k < nx * nz * (np * 3 + 1). sorted_wrt (<) (map fst (csc_col xa asub a k))
          \<and> (\<forall>r v. (r, v) \<in> set (csc_col xa asub a k) \<longleftrightarrow> (r, k, v) \<in> set midx))"
  by (rule chip_matrix [OF assms])

lemma superlu_gets_matrix_witness:
  "\<exists>midx xa asub a. calculate_Midx_array (1, 100) (1, 100) 2 3 4 = Inr midx \<and> length midx = count_entries 6 3 4
     \<and> compressed 84 midx = Inr (xa, asub, a) \<and> length xa = 85
     \<and> (\<forall>k < 84. sorted_wrt (<) (map fst (csc_col xa asub a k)) \<and> (\<forall>r v. (r, v) \<in> set (csc_col xa asub a k) \<longleftrightarrow> (r, k, v) \<in> set midx))"
  using superlu_gets_matrix [of 3 4 "(1, 100)" "(1, 100)" 2] by simp

end
