(* ===== verification/Thermal_Temperatures.thy ===== *)
theory Thermal_Temperatures
  imports Thermal_Solver
begin

text \<open>
  The two solvers on the heat map: the transient solver never leaves its arrays, the steady one gets the power of
  every cell at the node of the cell, the transient one at the node of the transposed chip; the chosen number of
  time steps is the smallest one that is fine enough.
\<close>

section \<open>The transient solver stays inside its arrays\<close>

lemma blocks_flat: "blocks n j = [j..<n]"
proof (induction n j rule: blocks.induct)
  case (1 n j)
  show ?case
  proof (cases "j + 8 < n")
    case True
    then show ?thesis using 1 upt_add_eq_append [of j "j + 8" "n - (j + 8)"] by (subst blocks.simps) simp
  next
    case False
    then show ?thesis using 1 by (subst blocks.simps) simp
  qed
qed

lemma hundredth: "lit 1 100 = (5764607523034235, 576460752303423488)"
  by (simp add: fl_eval double_p_def)

lemma entry_index_exact:
  assumes "x < 2 ^ 31"
  shows "entry_index x = x"
proof -
  let ?d = "576460752303423488 :: nat" and ?n = "x * 576460752303423488 + 5764607523034235"
  obtain u v where uv: "fl_round_pos double_p ?n ?d = (u, v)" by (cases "fl_round_pos double_p ?n ?d")
  have p: "0 < ?n" "0 < ?d" "0 < double_p" by (simp_all add: double_p_def)
  have e: "d_add (dval (int x)) (lit 1 100) = (int u, v)"
    unfolding hundredth using uv by (simp add: fl_add_def fl_round_def nat_add_distrib nat_mult_distrib)
  have val: "real ?n / real ?d = real x + 5764607523034235 / 576460752303423488" by (simp add: field_simps)
  have x: "real x < 2147483648" using assms by simp
  have v: "0 < v" using fl_round_pos_val(1) [OF p uv] by (metis surj_pair)
  have lo: "real x \<le> real u / real v" by (rule fl_round_pos_ge [OF p uv]) (use val x in \<open>auto simp: double_p_def\<close>)
  have "\<bar>real u / real v - real ?n / real ?d\<bar> \<le> real ?n / real ?d / 2 ^ double_p" by (rule fl_round_pos_err [OF p uv])
  also have "\<dots> \<le> 1 / 2" unfolding val using x by (simp add: double_p_def)
  finally have "\<bar>real u / real v - (real x + 5764607523034235 / 576460752303423488)\<bar> \<le> 1 / 2" unfolding val .
  from abs_le_D1 [OF this] have "real u / real v < real x + 1" by linarith
  then have "real u < real (v * Suc x)" "real (v * x) \<le> real u" using lo v by (simp_all add: divide_less_eq le_divide_eq mult.commute distrib_left add.commute)
  then have "u < v * Suc x" "v * x \<le> u" by (simp_all only: of_nat_less_iff of_nat_le_iff)
  then have "u div v = x" by (intro div_nat_eqI)
  then have "fl_trunc (int u, v) = int x" by (cases "u = 0") (auto simp: fl_trunc_def zdiv_int)
  then show ?thesis unfolding entry_index_def e by simp
qed

lemma heat_entry_total:
  assumes "fst e < n" "ecol e < n" and "n < 2 ^ 31" and "length p = n" "length tp = n" "length t = n" and "\<forall>i < n. i div m < length cap"
  shows "\<exists>t'. heat_entry m cap dt p tp e t = Inr t' \<and> length t' = n"
proof -
  have "entry_index (fst e) = fst e" "entry_index (ecol e) = ecol e" using assms(1-3) by (simp_all add: entry_index_exact)
  then show ?thesis using assms by (simp add: heat_entry_def Let_def vec_get_def vec_set_def)
qed

lemma heat_steps_total:
  assumes "\<forall>e \<in> set midx. fst e < n \<and> ecol e < n" and "n < 2 ^ 31" and "length p = n" and "length tp = n" and "\<forall>i < n. i div m < length cap"
  shows "\<exists>t'. heat_steps k m midx cap dt p tp = Inr t' \<and> length t' = n"
  using assms(4)
proof (induction k arbitrary: tp)
  case (Suc k)
  have "\<exists>t'. heat_step m midx cap dt p tp = Inr t' \<and> length t' = n"
    unfolding heat_step_def blocks_flat
  proof (rule foldE_total)
    fix b and t :: "fl list" assume b: "b \<in> set [0..<length midx]" and t: "length t = n"
    have "midx ! b \<in> set midx" using b by simp
    then have "fst (midx ! b) < n" "ecol (midx ! b) < n" using assms(1) by blast+
    from heat_entry_total [OF this assms(2,3) Suc.prems t assms(5)] show "\<exists>t'. bindE (vec_get midx b) (\<lambda>e. heat_entry m cap dt p tp e t) = Inr t' \<and> length t' = n"
      using b by (simp add: vec_get_def)
  qed (simp add: assms(3))
  then show ?case using Suc.IH by auto
qed simp

lemma Midx_in:
  assumes "0 < nx" and "0 < nz" and "calculate_Midx_array W Lc np nx nz = Inr midx" and "e \<in> set midx"
  shows "fst e < nx * nz * (np * 3 + 1) \<and> ecol e < nx * nz * (np * 3 + 1)"
proof -
  obtain rv where m: "midx = concat (chip_rows W Lc np nx nz rv)" using Midx_rows [of W Lc np nx nz] assms(3) by auto
  have "fst f < nx * nz * (np * 3 + 1)" if f: "f \<in> set midx" for f
  proof -
    obtain x where "x \<in> set (chip_rows W Lc np nx nz rv)" "f \<in> set x" using f unfolding m set_concat by blast
    then obtain k where "k < length (chip_rows W Lc np nx nz rv)" "f \<in> set (chip_rows W Lc np nx nz rv ! k)" by (metis in_set_conv_nth)
    then show ?thesis using chip_rows_nth [OF assms(1,2)] unfolding length_chip_rows by metis
  qed
  moreover have "(ecol e, fst e, eval_of e) \<in> set midx" using assms(4) chip_sym [of "fst e" "ecol e" "eval_of e"] unfolding m by simp
  ultimately show ?thesis using assms(4) by fastforce
qed

section \<open>Where the power is put\<close>

lemma vec_sets_ok:
  assumes "inj_on f (set ks)" and "\<forall>k \<in> set ks. f k < length v \<and> x k = Inr (g k)" and "distinct ks"
  shows "\<exists>v'. vec_sets f x ks v = Inr v' \<and> length v' = length v \<and> (\<forall>k \<in> set ks. v' ! f k = g k) \<and> (\<forall>i. i \<notin> f ` set ks \<longrightarrow> v' ! i = v ! i)"
  using assms
proof (induction ks arbitrary: v)
  case Nil
  then show ?case by (simp add: vec_sets_def)
next
  case (Cons k ks)
  have "\<exists>v'. vec_sets f x ks (v[f k := g k]) = Inr v' \<and> length v' = length (v[f k := g k]) \<and> (\<forall>k \<in> set ks. v' ! f k = g k) \<and> (\<forall>i. i \<notin> f ` set ks \<longrightarrow> v' ! i = v[f k := g k] ! i)"
    using Cons.prems by (intro Cons.IH) auto
  then obtain v' where v': "vec_sets f x ks (v[f k := g k]) = Inr v'" "length v' = length v" "\<forall>k \<in> set ks. v' ! f k = g k" "\<And>i. i \<notin> f ` set ks \<Longrightarrow> v' ! i = v[f k := g k] ! i" by auto
  have k: "x k = Inr (g k)" "f k < length v" "f k \<notin> f ` set ks" using Cons.prems by (auto simp: inj_on_def)
  have "vec_sets f x (k # ks) v = Inr v'" using v'(1) k(1,2) by (simp add: vec_sets_def vec_set_def)
  moreover have "v' ! i = v ! i" if "i \<notin> f ` set (k # ks)" for i using that v'(4) [of i] by auto
  moreover have "v' ! f k = g k" using v'(4) [OF k(3)] k(2) by simp
  ultimately show ?case using v'(2,3) by auto
qed

definition power_shape :: "nat \<Rightarrow> nat \<Rightarrow> nat \<Rightarrow> fl list list list \<Rightarrow> bool" where
  "power_shape np nx nz pm \<longleftrightarrow> length pm = nx \<and> (\<forall>q \<in> set pm. length q = nz \<and> (\<forall>r \<in> set q. length r = np))"

lemma power_at_ok: "power_shape np nx nz pm \<Longrightarrow> i < nx \<Longrightarrow> j < nz \<Longrightarrow> l < np \<Longrightarrow> power_at pm i j l = Inr (pm ! i ! j ! l)"
proof -
  assume s: "power_shape np nx nz pm" and l: "i < nx" "j < nz" "l < np"
  then have q: "pm ! i \<in> set pm" "length (pm ! i) = nz" by (auto simp: power_shape_def)
  then have "pm ! i ! j \<in> set (pm ! i)" using l by simp
  then have "length (pm ! i ! j) = np" using s q(1) by (auto simp: power_shape_def)
  then show ?thesis using s q(2) l by (simp add: power_shape_def power_at_def vec_get_def)
qed

lemma node_inj:
  assumes "node nx nz l j i = node nx nz l' j' i'" and "i < nx" "i' < nx" "j < nz" "j' < nz"
  shows "l = l' \<and> j = j' \<and> i = i'"
proof -
  have n: "node nx nz l j i = (l * nz + j) * nx + i" for l j i by (simp add: node_def algebra_simps)
  have e: "(l * nz + j) * nx + i = (l' * nz + j') * nx + i'" using assms(1) by (simp only: n)
  have "i = i'" using arg_cong [OF e, of "\<lambda>x. x mod nx"] assms(2,3) by simp
  moreover have q: "l * nz + j = l' * nz + j'" using arg_cong [OF e, of "\<lambda>x. x div nx"] assms(2,3) by simp
  moreover have "j = j'" using arg_cong [OF q, of "\<lambda>x. x mod nz"] assms(4,5) by simp
  moreover have "l = l'" using arg_cong [OF q, of "\<lambda>x. x div nz"] assms(4,5) by simp
  ultimately show ?thesis by simp
qed

lemma sink_filled:
  fixes x :: fl
  assumes "n \<le> length v"
  shows "\<exists>v'. vec_sets id (\<lambda>_. Inr x) [0..<n] v = Inr v' \<and> length v' = length v"
  using vec_sets_ok [of id "[0..<n]" v "\<lambda>_. Inr x" "\<lambda>_. x"] assms by auto

lemma powers_placed:
  assumes "distinct ks" and "inj_on f (set ks)" and "\<forall>k \<in> set ks. f k < nx * nz * (np * 3 + 1) \<and> x k = Inr (g k)"
  shows "\<exists>v. bindE (vec_sets id (\<lambda>_. Inr (y :: fl)) [0..<nx * nz] (replicate (nx * nz * (np * 3 + 1)) (dval 0))) (vec_sets f x ks) = Inr v
     \<and> length v = nx * nz * (np * 3 + 1) \<and> (\<forall>k \<in> set ks. v ! f k = g k)"
proof -
  obtain v0 where v0: "vec_sets id (\<lambda>_. Inr y) [0..<nx * nz] (replicate (nx * nz * (np * 3 + 1)) (dval 0)) = Inr v0" "length v0 = nx * nz * (np * 3 + 1)"
    using sink_filled [of "nx * nz" "replicate (nx * nz * (np * 3 + 1)) (dval 0)" y] by auto
  then show ?thesis using vec_sets_ok [OF assms(2) _ assms(1), of v0 x g] assms(3) by auto
qed

lemma cells_placed:
  assumes "\<And>l p q. l < np \<Longrightarrow> p < a \<Longrightarrow> q < b \<Longrightarrow> x (l, p, q) = Inr (g l p q)"
  shows "\<exists>v. bindE (vec_sets id (\<lambda>_. Inr (y :: fl)) [0..<a * b] (replicate (a * b * (np * 3 + 1)) (dval 0)))
       (vec_sets (\<lambda>(l, p, q). a * b * (l * 3 + 1) + q * a + p) x (List.product [0..<np] (List.product [0..<a] [0..<b]))) = Inr v
     \<and> length v = a * b * (np * 3 + 1) \<and> (\<forall>l < np. \<forall>q < b. \<forall>p < a. v ! node a b (l * 3 + 1) q p = g l p q)"
proof -
  let ?ks = "List.product [0..<np] (List.product [0..<a] [0..<b])" and ?f = "\<lambda>(l, p, q). a * b * (l * 3 + 1) + q * a + p"
  have f: "?f (l, p, q) = node a b (l * 3 + 1) q p" for l p q by (simp add: node_def algebra_simps)
  have inj: "inj_on ?f (set ?ks)"
  proof (rule inj_onI)
    fix s t assume st: "s \<in> set ?ks" "t \<in> set ?ks" "?f s = ?f t"
    obtain l p q l' p' q' where e: "s = (l, p, q)" "t = (l', p', q')" by (cases s, cases t) auto
    show "s = t" using st node_inj [of a b "l * 3 + 1" q p "l' * 3 + 1" q' p'] unfolding e f by auto
  qed
  have ok: "\<forall>k \<in> set ?ks. ?f k < a * b * (np * 3 + 1) \<and> x k = Inr ((\<lambda>(l, p, q). g l p q) k)"
  proof
    fix k assume k: "k \<in> set ?ks"
    obtain l p q where e: "k = (l, p, q)" by (cases k)
    have b: "l < np" "p < a" "q < b" using k by (auto simp: e)
    then have "?f k < a * b * (np * 3 + 1)" unfolding e f by (intro node_le) auto
    then show "?f k < a * b * (np * 3 + 1) \<and> x k = Inr ((\<lambda>(l, p, q). g l p q) k)" using assms [OF b] by (simp add: e)
  qed
  have "distinct ?ks" by (simp add: distinct_product)
  from powers_placed [OF this inj ok] obtain v where v: "bindE (vec_sets id (\<lambda>_. Inr y) [0..<a * b] (replicate (a * b * (np * 3 + 1)) (dval 0))) (vec_sets ?f x ?ks) = Inr v"
    "length v = a * b * (np * 3 + 1)" "\<forall>k \<in> set ?ks. v ! ?f k = (\<lambda>(l, p, q). g l p q) k" by blast
  have "v ! node a b (l * 3 + 1) q p = g l p q" if "l < np" "q < b" "p < a" for l q p
    using v(3) [rule_format, of "(l, p, q)"] that f [of l p q] by simp
  then show ?thesis using v(1,2) by blast
qed

text \<open>The steady solver puts the power of a cell to its node; the transient one to the node of the transposed chip.\<close>

lemma steady_power_at_nodes:
  assumes "power_shape np nx nz pm"
  shows "\<exists>rhs. steady_rhs pm ramb np nx nz Tamb = Inr rhs \<and> length rhs = nx * nz * (np * 3 + 1)
     \<and> (\<forall>l < np. \<forall>j < nz. \<forall>i < nx. rhs ! node nx nz (l * 3 + 1) j i = pm ! i ! j ! l)"
  unfolding steady_rhs_def by (rule cells_placed) (simp add: power_at_ok [OF assms])

lemma trans_power_transposed:
  assumes "power_shape np nx nz pm"
  shows "\<exists>p. trans_rhs pm ramb np nx nz Tamb = Inr p \<and> length p = nx * nz * (np * 3 + 1)
     \<and> (\<forall>l < np. \<forall>j < nz. \<forall>i < nx. p ! node nz nx (l * 3 + 1) i j = pm ! i ! j ! l)"
  unfolding trans_rhs_def using cells_placed [of np nz nx "\<lambda>(l, j, i). power_at pm i j l" "\<lambda>l j i. pm ! i ! j ! l" "d_div Tamb ramb"] power_at_ok [OF assms]
  by (simp add: mult.commute [of nz nx]) blast

lemma transient_total:
  assumes "0 < nx" and "0 < nz" and "nx * nz * (np * 3 + 1) < 2 ^ 31" and "calculate_Midx_array W Lc np nx nz = Inr midx"
    and "power_shape np nx nz pm" and "length T = nx * nz * (np * 3 + 1)"
  shows "\<exists>T'. transient_thermal_solver pm W Lc np nx nz midx (calculate_Cap_array W Lc np nx nz) time iter T Tamb = Inr T' \<and> length T' = nx * nz * (np * 3 + 1)"
proof -
  let ?n = "nx * nz * (np * 3 + 1)"
  obtain p where p: "trans_rhs pm (Ramb W Lc nx nz) np nx nz Tamb = Inr p" "length p = ?n" using trans_power_transposed [OF assms(5)] by blast
  have "\<forall>e \<in> set midx. fst e < ?n \<and> ecol e < ?n" using Midx_in [OF assms(1,2,4)] by blast
  moreover have "\<forall>i < ?n. i div (nx * nz) < length (calculate_Cap_array W Lc np nx nz)"
    using assms(1,2) by (auto simp: calculate_Cap_array_def Let_def less_mult_imp_div_less mult.commute simp del: mult_Suc_right)
  ultimately show ?thesis unfolding transient_thermal_solver_def p(1) bindE_simps
    by (rule heat_steps_total [OF _ assms(3) p(2) assms(6)])
qed

section \<open>From the heat map to temperatures\<close>

definition power_cell :: "dram_config \<Rightarrow> int \<Rightarrow> u64 \<Rightarrow> thermal \<Rightarrow> int \<Rightarrow> int \<Rightarrow> int \<Rightarrow> fl" where
  "power_cell c k clk t i j l =
     (if 1 \<le> i \<and> i \<le> dimX t \<and> 1 \<le> j \<and> j \<le> dimY t
      then d_div ((if clk = 0 then cur_Pmap t else accu_Pmap t) ! nat k ! nat (cell_index t l (i - 1, j - 1)))
        (if clk = 0 then dval (epoch_period c) else fl_of_u64 double_p clk)
      else dval 0)"

lemma InitPowerM_cells:
  assumes "maps_ok t" and "0 \<le> k" "k < num_case t"
  shows "InitPowerM c k clk t = Inr (map (\<lambda>i. map (\<lambda>j. map (power_cell c k clk t i j) [0..numP t - 1]) [0..dimY t + 1]) [0..dimX t + 1])"
proof -
  let ?m = "if clk = 0 then cur_Pmap t else accu_Pmap t"
  have ix: "idx_of_int k = nat k" using assms by (intro idx_of_int_nonneg) (auto simp: maps_ok_def)
  have kl: "nat k < length ?m" "\<forall>r \<in> set ?m. length r = nat (cells t)" "cells t < 2 ^ 63" using assms by (auto simp: maps_ok_def nat_less_iff)
  then have row: "vec_get ?m (idx_of_int k) = Inr (?m ! nat k)" "length (?m ! nat k) = nat (cells t)" by (simp_all add: ix vec_get_def)
  have "vec_get (?m ! nat k) (idx_of_int (cell_index t l (x, y))) = Inr (?m ! nat k ! nat (cell_index t l (x, y)))"
    if "0 \<le> x" "x < dimX t" "0 \<le> y" "y < dimY t" "0 \<le> l" "l < numP t" for x y l
  proof -
    have "0 \<le> cell_index t l (x, y)" "cell_index t l (x, y) < cells t" using cell_index_in [OF that] by auto
    moreover from this have "idx_of_int (cell_index t l (x, y)) = nat (cell_index t l (x, y))" using kl(3) by (intro idx_of_int_nonneg) auto
    ultimately show ?thesis using row(2) by (simp add: vec_get_def nat_less_iff)
  qed
  then show ?thesis unfolding InitPowerM_def Let_def by (intro mapE_ok ballI) (auto intro!: mapE_ok simp: power_cell_def row(1))
qed

lemma InitPowerM_shape:
  assumes "maps_ok t" and "0 \<le> k" "k < num_case t"
  shows "\<exists>pm. InitPowerM c k clk t = Inr pm \<and> power_shape (nat (numP t)) (nat (dimX t + 2)) (nat (dimY t + 2)) pm"
  using InitPowerM_cells [OF assms] by (auto simp: power_shape_def)

definition chip_nodes :: "thermal \<Rightarrow> nat" where
  "chip_nodes t = nat (dimX t + 2) * nat (dimY t + 2) * (nat (numP t) * 3 + 1)"

lemma CalcTransT_total:
  assumes "maps_ok t" and "0 \<le> k" "k < num_case t" and "0 \<le> dimX t" "0 \<le> dimY t" and "chip_nodes t < 2 ^ 31" and "length T = chip_nodes t"
    and "calculate_Midx_array (fst chip) (snd chip) (nat (numP t)) (nat (dimX t + 2)) (nat (dimY t + 2)) = Inr midx"
  shows "\<exists>T'. CalcTransT c tck chip Tamb midx (calculate_Cap_array (fst chip) (snd chip) (nat (numP t)) (nat (dimX t + 2)) (nat (dimY t + 2))) iter k t T = Inr T' \<and> length T' = chip_nodes t"
proof -
  obtain pm where pm: "InitPowerM c k 0 t = Inr pm" "power_shape (nat (numP t)) (nat (dimX t + 2)) (nat (dimY t + 2)) pm" using InitPowerM_shape [OF assms(1-3)] by blast
  have "0 < nat (dimX t + 2)" "0 < nat (dimY t + 2)" using assms(4,5) by auto
  from transient_total [OF this assms(6) [unfolded chip_nodes_def] assms(8) pm(2) assms(7) [unfolded chip_nodes_def]] show ?thesis
    by (simp add: CalcTransT_def pm(1) chip_nodes_def)
qed

lemma CalcFinalT_total:
  assumes "maps_ok t" and "0 \<le> k" "k < num_case t" and "0 \<le> dimX t" "0 \<le> dimY t"
    and "calculate_Midx_array (fst chip) (snd chip) (nat (numP t)) (nat (dimX t + 2)) (nat (dimY t + 2)) = Inr midx"
  shows "\<exists>xa asub a rhs. compressed (chip_nodes t) midx = Inr (xa, asub, a) \<and> length rhs = chip_nodes t
     \<and> CalcFinalT solve c chip Tamb midx k clk t = Inr (map (\<lambda>x. d_sub x T0) (solve (chip_nodes t) xa asub a rhs))"
proof -
  obtain pm where pm: "InitPowerM c k clk t = Inr pm" "power_shape (nat (numP t)) (nat (dimX t + 2)) (nat (dimY t + 2)) pm" using InitPowerM_shape [OF assms(1-3)] by blast
  have n: "0 < nat (dimX t + 2)" "0 < nat (dimY t + 2)" using assms(4,5) by auto
  obtain xa asub a where c: "compressed (chip_nodes t) midx = Inr (xa, asub, a)"
    using chip_matrix [OF n, of "fst chip" "snd chip" "nat (numP t)"] assms(6) by (auto simp: chip_nodes_def)
  obtain rhs where "steady_rhs pm (Ramb (fst chip) (snd chip) (nat (dimX t + 2)) (nat (dimY t + 2))) (nat (numP t)) (nat (dimX t + 2)) (nat (dimY t + 2)) Tamb = Inr rhs" "length rhs = chip_nodes t"
    using steady_power_at_nodes [OF pm(2)] unfolding chip_nodes_def by blast
  then have "CalcFinalT solve c chip Tamb midx k clk t = Inr (map (\<lambda>x. d_sub x T0) (solve (chip_nodes t) xa asub a rhs))"
    using c pm(1) by (simp add: CalcFinalT_def steady_thermal_solver_def chip_nodes_def)
  then show ?thesis using c \<open>length rhs = chip_nodes t\<close> by blast
qed

section \<open>The time step\<close>

lemma iterate_time_sound:
  assumes "iterate_time epoch dt n = Some m"
  shows "n \<le> m \<and> fl_less (d_div epoch (dval m)) dt \<and> (\<forall>k. n \<le> k \<and> k < m \<longrightarrow> \<not> fl_less (d_div epoch (dval k)) dt)"
proof (rule iterate_time.raw_induct [where P = "\<lambda>epoch dt n m. n \<le> m \<and> fl_less (d_div epoch (dval m)) dt \<and> (\<forall>k. n \<le> k \<and> k < m \<longrightarrow> \<not> fl_less (d_div epoch (dval k)) dt)", OF _ assms])
  fix f epoch dt n m
  assume ih: "\<And>epoch dt n m. f epoch dt n = Some m \<Longrightarrow> n \<le> m \<and> fl_less (d_div epoch (dval m)) dt \<and> (\<forall>k. n \<le> k \<and> k < m \<longrightarrow> \<not> fl_less (d_div epoch (dval k)) dt)"
    and s: "(if \<not> fl_less (d_div epoch (dval n)) dt then f epoch dt (n + 1) else Some n) = Some m"
  show "n \<le> m \<and> fl_less (d_div epoch (dval m)) dt \<and> (\<forall>k. n \<le> k \<and> k < m \<longrightarrow> \<not> fl_less (d_div epoch (dval k)) dt)"
  proof (cases "fl_less (d_div epoch (dval n)) dt")
    case True
    then show ?thesis using s by auto
  next
    case False
    then have "f epoch dt (n + 1) = Some m" using s by simp
    from ih [OF this] show ?thesis using False by (metis add1_zle_eq le_less order_less_imp_le)
  qed
qed

lemma iterate_time_ends:
  assumes "fl_less (d_div epoch (dval m)) dt" and "n \<le> m"
  shows "\<exists>k. iterate_time epoch dt n = Some k"
  using assms(2)
proof (induction "nat (m - n)" arbitrary: n rule: less_induct)
  case less
  show ?case
  proof (cases "fl_less (d_div epoch (dval n)) dt")
    case True
    then show ?thesis by (simp add: iterate_time.simps)
  next
    case False
    then have "n \<noteq> m" using assms(1) by auto
    then have "\<exists>k. iterate_time epoch dt (n + 1) = Some k" using less.prems by (intro less.hyps) auto
    then show ?thesis using False by (simp add: iterate_time.simps)
  qed
qed

end
