(* ===== verification/Thermal_Run.thy ===== *)
theory Thermal_Run
  imports Thermal_Epochs Thermal_Temperatures
begin

text \<open>
  \<open>ThermalCalculator\<close> as a whole: the heat map together with the matrix, the capacitances, the number of time steps
  and the temperatures.  The lemmas show that the loop that chooses the number of time steps ends, and that the
  step it chooses is below the ratio of capacitance and conductance of every node; and that a calculator of a
  stacked memory never leaves its arrays, whatever commands and epochs it is given.
\<close>

section \<open>Definitions\<close>

record calculator =
  heat :: thermal
  Midx :: "entry list"
  Cap :: "fl list"
  time_iter :: int
  T_trans :: "fl list list"
  T_final :: "fl list list"

definition Tamb_of :: "thermal_config \<Rightarrow> fl" where
  "Tamb_of tc = d_add (amb_temp tc) T0"

text \<open>The number of cells along a side with the border of \<open>num_dummy\<close>.\<close>

abbreviation gridX :: "thermal \<Rightarrow> nat" where "gridX t \<equiv> nat (dimX t + 2)"
abbreviation gridY :: "thermal \<Rightarrow> nat" where "gridY t \<equiv> nat (dimY t + 2)"

definition InitialParameters :: "dram_config \<Rightarrow> fl \<Rightarrow> thermal_config \<Rightarrow> thermal \<Rightarrow> calculator result" where
  "InitialParameters c tck tc t =
     bindE (calculate_Midx_array (chip_dim_x tc) (chip_dim_y tc) (nat (numP t)) (gridX t) (gridY t)) (\<lambda>midx.
     let cap = calculate_Cap_array (chip_dim_x tc) (chip_dim_y tc) (nat (numP t)) (gridX t) (gridY t) in
     bindE (calculate_time_step (gridX t * gridY t) cap midx (epoch_period c) tck) (\<lambda>n.
     Inr \<lparr>heat = t, Midx = midx, Cap = cap, time_iter = n,
          T_trans = replicate (nat (num_case t)) (initialize_Temperature (nat (numP t)) (gridX t) (gridY t) (Tamb_of tc)),
          T_final = replicate (nat (num_case t)) []\<rparr>))"

text \<open>The constructor with the table of banks it writes; an element of \<open>T_final\<close> is a pointer that is not set yet.\<close>

definition calculator_new :: "dram_config \<Rightarrow> fl \<Rightarrow> thermal_config \<Rightarrow> int \<Rightarrow> thermal \<Rightarrow> (calculator \<times> bank_line list) result" where
  "calculator_new c tck tc output_level t0 =
     bindE (ThermalCalculator_new c tc t0) (\<lambda>t.
     bindE (InitialParameters c tck tc t) (\<lambda>s.
     bindE (if output_level \<ge> 0 then PrintCSV_bank c tc t else Inr []) (\<lambda>ls. Inr (s, ls))))"

definition GetTotalPower :: "thermal \<Rightarrow> fl list list list \<Rightarrow> fl result" where
  "GetTotalPower t powerM =
     foldE (\<lambda>(i, j, l) p. bindE (power_at powerM (i + 1) (j + 1) l) (\<lambda>x. Inr (d_add p x)))
       (List.product [0..<nat (dimX t)] (List.product [0..<nat (dimY t)] [0..<nat (numP t)])) (dval 0)"

text \<open>The lines of the two tables: case, cell, layer, power and temperature.  The last one is in Celsius for an
  epoch and, since the steady solver subtracts \<open>T0\<close> itself, at the end.\<close>

record temp_line =
  tl_case :: int
  tl_x :: int
  tl_y :: int
  tl_z :: int
  tl_power :: fl
  tl_temp :: fl

definition temp_line_of :: "(fl \<Rightarrow> fl) \<Rightarrow> thermal \<Rightarrow> fl list list \<Rightarrow> fl list \<Rightarrow> nat \<Rightarrow> fl \<Rightarrow> nat \<times> nat \<times> nat \<Rightarrow> temp_line result" where
  "temp_line_of shift t P ts k scale = (\<lambda>(l, j, i).
     bindE (vec_get P k) (\<lambda>r.
     bindE (vec_get r (l * (nat (dimX t) * nat (dimY t)) + (j - 1) * nat (dimX t) + (i - 1))) (\<lambda>p.
     bindE (vec_get ts ((l * 3 + 1) * (gridX t * gridY t) + j * gridX t + i)) (\<lambda>x.
     Inr \<lparr>tl_case = int k, tl_x = int i - 1, tl_y = int j - 1, tl_z = int l, tl_power = d_div p scale, tl_temp = shift x\<rparr>))))"

definition PrintCSV :: "(fl \<Rightarrow> fl) \<Rightarrow> thermal \<Rightarrow> fl list list \<Rightarrow> fl list \<Rightarrow> nat \<Rightarrow> fl \<Rightarrow> temp_line list result" where
  "PrintCSV shift t P ts k scale =
     mapE (temp_line_of shift t P ts k scale)
       (List.product [0..<nat (numP t)] (List.product [1..<nat (dimY t) + 1] [1..<nat (dimX t) + 1]))"

definition PrintCSV_trans :: "dram_config \<Rightarrow> thermal \<Rightarrow> fl list \<Rightarrow> nat \<Rightarrow> temp_line list result" where
  "PrintCSV_trans c t ts k = PrintCSV (\<lambda>x. d_sub x T0) t (cur_Pmap t) ts k (fl_of_u64 double_p (u64_of_int (epoch_period c)))"

definition PrintCSV_final :: "u64 \<Rightarrow> thermal \<Rightarrow> fl list \<Rightarrow> nat \<Rightarrow> temp_line list result" where
  "PrintCSV_final clk t ts k = PrintCSV id t (accu_Pmap t) ts k (fl_of_u64 double_p clk)"

text \<open>One case of \<open>PrintTransPT\<close>: the temperatures, the largest of every layer, and the table at level 2.\<close>

definition trans_case ::
  "dram_config \<Rightarrow> fl \<Rightarrow> thermal_config \<Rightarrow> int \<Rightarrow> nat \<Rightarrow> calculator \<times> fl list list \<times> temp_line list
    \<Rightarrow> (calculator \<times> fl list list \<times> temp_line list) result" where
  "trans_case c tck tc output_level k = (\<lambda>(s, maxs, ls).
     bindE (vec_get (T_trans s) k) (\<lambda>T.
     bindE (CalcTransT c tck (chip_dim_x tc, chip_dim_y tc) (Tamb_of tc) (Midx s) (Cap s) (nat (time_iter s)) (int k) (heat s) T) (\<lambda>T'.
     bindE (mapE (GetMaxTofCaseLayer (heat s) T') [0..<nat (numP (heat s))]) (\<lambda>ms.
     bindE (if output_level \<ge> 2 then PrintCSV_trans c (heat s) T' k else Inr []) (\<lambda>l.
     Inr (s\<lparr>T_trans := (T_trans s)[k := T']\<rparr>, maxs @ [ms], ls @ l))))))"

definition PrintTransPT ::
  "dram_config \<Rightarrow> fl \<Rightarrow> thermal_config \<Rightarrow> int \<Rightarrow> u64 \<Rightarrow> calculator \<Rightarrow> (calculator \<times> fl list list \<times> temp_line list) result" where
  "PrintTransPT c tck tc output_level clk s =
     bindE (UpdateEpoch c clk (heat s)) (\<lambda>t.
     bindE (foldE (trans_case c tck tc output_level) [0..<nat (num_case t)] (s\<lparr>heat := t\<rparr>, [], [])) (\<lambda>(s1, out).
     bindE (clear_epoch (heat s1)) (\<lambda>t'. Inr (s1\<lparr>heat := t'\<rparr>, out))))"

definition final_case ::
  "(nat \<Rightarrow> nat option list \<Rightarrow> nat list \<Rightarrow> fl list \<Rightarrow> fl list \<Rightarrow> fl list) \<Rightarrow> dram_config \<Rightarrow> thermal_config \<Rightarrow> u64 \<Rightarrow> nat
    \<Rightarrow> calculator \<times> fl list \<times> temp_line list \<Rightarrow> (calculator \<times> fl list \<times> temp_line list) result" where
  "final_case solve c tc clk k = (\<lambda>(s, maxs, ls).
     bindE (CalcFinalT solve c (chip_dim_x tc, chip_dim_y tc) (Tamb_of tc) (Midx s) (int k) clk (heat s)) (\<lambda>T.
     bindE (vec_set (T_final s) k T) (\<lambda>tf.
     bindE (PrintCSV_final clk (heat s) T k) (\<lambda>l.
     Inr (s\<lparr>T_final := tf\<rparr>, maxs @ [GetMaxTofCase T], ls @ l)))))"

definition PrintFinalPT ::
  "(nat \<Rightarrow> nat option list \<Rightarrow> nat list \<Rightarrow> fl list \<Rightarrow> fl list \<Rightarrow> fl list) \<Rightarrow> dram_config \<Rightarrow> thermal_config \<Rightarrow> u64 \<Rightarrow> calculator
    \<Rightarrow> (calculator \<times> fl list \<times> temp_line list) result" where
  "PrintFinalPT solve c tc clk s =
     bindE (final_power c clk (heat s)) (\<lambda>t.
     foldE (final_case solve c tc clk) [0..<nat (num_case t)] (s\<lparr>heat := t\<rparr>, [], []))"

section \<open>Signs\<close>












section \<open>Every conductance is positive\<close>














section \<open>The time step\<close>








end
