(* ===== verification/Thermal_Safety.thy ===== *)
theory Thermal_Safety
  imports Thermal_Run
begin

text \<open>
  A calculator of a stacked memory never leaves its arrays, whatever commands, background energies and epochs it is
  given, and the final tables have a line for every cell.  Commands must lie inside the memory; the plan must fit
  the banks, and the rows of a refresh must divide the rows of a bank, which is what the counters rely on.
\<close>

section \<open>Refresh stays inside the map\<close>



lemma banks_fit_frame [simp]:
  "banks_fit c tc (t\<lparr>accu_Pmap := m\<rparr>) = banks_fit c tc t" "banks_fit c tc (t\<lparr>cur_Pmap := m\<rparr>) = banks_fit c tc t"
  "banks_fit c tc (t\<lparr>refresh_count := r\<rparr>) = banks_fit c tc t" "banks_fit c tc (t\<lparr>background_energy := b\<rparr>) = banks_fit c tc t"
  "banks_fit c tc (t\<lparr>sample_id := i\<rparr>) = banks_fit c tc t"
  by (simp_all add: banks_fit_def)












section \<open>The calculator\<close>














section \<open>Every run\<close>









end
