(* ===== verification/Spec2Isabelle.thy ===== *)
theory Spec2Isabelle
  imports Cache_Properties System_Properties Hmc_Properties Cpu_Properties Csr_Properties Memory_System Power_Stats Thermal_Mapping Thermal_Safety
begin

text \<open>
  A verification library for GCNSim with the AWB memory path: a cycle-level simulator of a graph
  convolution accelerator (the \<open>.cpp\<close> files of the top directory) on top of a modified copy of the DRAM
  simulator DRAMsim3 (\<open>DRAMsim3/src\<close>).

  \<^bold>\<open>The program.\<close>  \<open>RunSimulator.cpp\<close> reads a configuration (\<open>IniParser\<close>) and a sparse matrix in CSR form
  (\<open>DataReader\<close>), deals the rows out to the accelerator units (\<open>Distributer\<close>) and then runs one cycle after
  the other: completed DRAM reads are classified by address (\<open>DataController\<close>) and handed to the readers of
  their unit (\<open>VertexReader\<close> for row pointers, \<open>EdgeReader\<close> for column indices; \<open>BasisEdgeReader\<close>, \<open>XWReader\<close>,
  \<open>GlobalBuffer\<close> and \<open>Accelerator\<close> form the second mechanism), the readers issue new requests, and
  \<open>DRAMInterface\<close> forwards them to the memory systems and advances these by one clock.  A memory system
  (\<open>dram_system.cc\<close>) has a \<open>Controller\<close> per channel; a controller has transaction queues, a \<open>CommandQueue\<close>,
  a \<open>Refresh\<close> timer, statistics, and the \<open>ChannelState\<close> with one \<open>BankState\<close> per bank, ruled by the tables of
  \<open>Timing\<close>.  Completions come back through callbacks.  Beside the Jedec system there is the hybrid memory cube
  (\<open>hmc.cc\<close>), whose controllers sit behind links and a crossbar.  Compiled with \<open>THERMAL\<close>, every issued command also
  heats cells of a map of the chip (\<open>thermal.cc\<close>), from which a solver (\<open>thermal_solver.c\<close>) makes temperatures at the
  end of every epoch and of the run.  DRAMsim3 can also run alone, driven by one of the
  processors of \<open>cpu.cc\<close>.  The programs under \<open>CSR_converter\<close> prepare the input: they turn edge lists into CSR and cut
  CSR files into tiles.

  \<^bold>\<open>How it is modelled.\<close>  One theory per component, operations under their C++ names (with a prefix where two
  classes share one), state as records passed explicitly, \<open>uint64_t\<close> as 64-bit words, \<open>int\<close> as unbounded
  integers, and the error monad of \<open>Prelude\<close>: an access outside a vector, \<open>front\<close> on an empty queue, a
  division by zero, an \<open>AbruptExit\<close> or an exception is a value of type \<open>fault\<close>, so a lemma that says an
  operation returns \<open>Inr\<close> says that none of these happens.

  \<^item> \<open>Prelude\<close>: integers, faults, the monad, checked containers.  \<open>Rounding\<close>: the \<open>float\<close> and \<open>double\<close>
    arithmetic of the line counts (round to nearest even).  \<open>Common_Types\<close>: \<open>Common.h\<close> and the globals.
  \<^item> \<open>Recency_Policies\<close>, \<open>Rrip_Ship\<close>, \<open>Bloom_Filter\<close>: the replacement policies of \<open>CacheReplacement.cpp\<close> over
    their file-level vectors.  \<open>Global_Buffer\<close>: the set-associative buffer that uses them.
  \<^item> \<open>Data_Controller\<close>, \<open>Vertex_Reader\<close>, \<open>Edge_Reader\<close>, \<open>Basis_Path\<close> (the basis edge reader, the XW reader and the
    accelerator), \<open>Data_Reader\<close>, \<open>Distributer\<close>, \<open>Ini_Parser\<close>, \<open>Run_Simulator\<close>: the files of these names.
  \<^item> \<open>Dram_Interface\<close>: \<open>DRAMInterface.cpp\<close>, with the locale \<open>memory_system\<close>: what the interface needs of a memory
    system (an accepted transaction is owed, a tick pays back exactly what it calls back).
  \<^item> \<open>Dram_Config\<close> (\<open>common.h\<close>, \<open>configuration.cc\<close>), \<open>Dram_Timing\<close>, \<open>Bank_State\<close>, \<open>Channel_State\<close>, \<open>Simple_Stats\<close>,
    \<open>Dram_Refresh\<close>, \<open>Command_Queue\<close>, \<open>Dram_Controller\<close>, \<open>Dram_System\<close>: DRAMsim3, bottom up.  \<open>Dram_System\<close>
    interprets \<open>memory_system\<close> on the Jedec system.  \<open>Hmc_System\<close>: \<open>hmc.cc\<close> on the same controllers.
    \<open>Memory_System\<close>: \<open>memory_system.cc\<close>, the choice between the two, with the contract carried over.
    \<open>Power_Stats\<close>: the energies, power and averages of \<open>simple_stats.cc\<close>.
  \<^item> \<open>Streams\<close>: what the programs use of \<open>std::istream\<close>.  \<open>Cpu_Models\<close>: \<open>cpu.cc\<close>, \<open>operator>>\<close> of \<open>common.cc\<close> and the
    loop of \<open>main.cc\<close>; its lemmas are proved in the locale \<open>memory_system\<close>, for every memory.
  \<^item> \<open>Csr_Tools\<close>: \<open>csr_translator.cpp\<close>, \<open>vtmake.cpp\<close> and the three \<open>recursive_tiling_maker\<close> programs.  All of them hand
    the edges of a file to a place that takes them, the locale \<open>edge_sink\<close>, interpreted on vertical tiles and on the
    leaves of a tree.  \<open>Csr_Dynamic\<close>: the five \<open>vtmake_dynamic\<close> programs, whose row functions are instances of the
    locale \<open>placement\<close>, a special \<open>edge_sink\<close>.  \<open>Dyadic\<close>: when their \<open>double\<close> arithmetic is exact.
  \<^item> \<open>Thermal_Plan\<close>: the power and thermal parameters of \<open>configuration.cc\<close> and, of \<open>thermal.cc\<close>, the floor plan, the
    mapping of locations, the power maps, the refresh counters and the background power.  \<open>Thermal_Solver\<close>:
    \<open>thermal_solver.c\<close>, the conductance matrix, the two solvers and the choice of the time step, with the linear
    solver of SuperLU as an argument.  \<open>Thermal_Run\<close>: the calculator as a whole with its epochs and tables.

  \<^bold>\<open>What is shown.\<close>
  \<^item> Whole system (\<open>System_Properties\<close>): reads are conserved between the accelerator and the memory cells, sending
    always returns, the simulation ends only when the expected output has been written.
  \<^item> Memory system (\<open>Channel_Traces\<close>, \<open>Controller_Invariants\<close>, \<open>Dram_Properties\<close>): every run of ticks and accepted
    transactions is free of errors; the commands a controller issues are legal, keep all distances of the timing
    tables and the activation window; pending transactions and queues agree; returning by erasing is filtering;
    writes wait for earlier reads; refreshes reach every bank; addresses decode into the geometry, injectively;
    statistics keep every count, and an average lies between the smallest and the largest value (\<open>Power_Stats\<close>).
  \<^item> Buffer (\<open>Cache_Properties\<close>): the victims of FIFO, LRU, RRIP and the Bloom filter; found lines; one request per
    missing line.
  \<^item> Readers (\<open>Reader_Properties\<close>): complete delivery of the CSR arrays, repetition of blocks, requested lines,
    consumed rows, written passes, distribution as a partition, the round trip of the configuration file, and where
    the rounding of line counts is exact and where it is not.
  \<^item> Cube (\<open>Hmc_Properties\<close>): accepted transactions are answered or under way, exactly once; no tick fails; the two clocks
    stay in step.
  \<^item> Processors (\<open>Cpu_Properties\<close>): the transactions the random, the stream and the trace driven processor send, in their
    order, and that all of them are answered or owed.
  \<^item> Conversion (\<open>Csr_Properties\<close>): no tiling program loses or invents an edge, and each edge is in the tile it belongs to;
    rescheduling is a stable sort; the simulator reads back what was written; which inputs the faulty programs reject.
  \<^item> Heat (\<open>Thermal_Properties\<close>, \<open>Thermal_Mapping\<close>, \<open>Thermal_Epochs\<close>, \<open>Thermal_Temperatures\<close>, \<open>Thermal_Run\<close>, \<open>Thermal_Safety\<close>):
    banks that fit the plan share no cell and commands heat their own bank; refreshes go through all rows; a location
    mapping that permutes bits is injective; the matrix handed to SuperLU is the one that was collected; the time step
    is chosen and below the limit of every node; the calculator of a stacked memory never leaves its arrays.  Also what
    goes wrong: epochs without stacked dies never end, memories of the repository whose banks overlap, tiled banks that
    use their diagonal only, refreshes that leave the bank, and the transposed heat map of the transient solver.

  \<^bold>\<open>Loops.\<close>  Loops bounded by a container are structural recursion or folds; the \<open>while (true)\<close> over finished
  transactions is a function whose measure is the return queue; loops that may not end (the dispatch loop, the
  search of RRIP, the simulation loop, the weight fill, the links and the logic cycles of the cube, the loop with a
  \<open>double\<close> bound of the tiling programs, the search for a time step, the background power of plain memories) are partial functions into \<open>option\<close>, with lemmas that they
  return (dispatch, RRIP on sets with ways, the loops of the cube and of the tiling programs, the time step) or do not (RRIP without ways, the background power).  No fuel is used, except the round count of
  \<open>GetCommandToIssue\<close>, which is the loop bound of the source.

  \<^bold>\<open>Conditions.\<close>  The properties of the memory system are about configurations with self refresh and dual commands
  switched off (\<open>memory_cfg\<close>), a geometry whose products fit an \<open>int\<close>, and, for the time stamps of the trace, runs
  of fewer than $2^{64}$ ticks.  The operations themselves are modelled with both features.  The runs of the cube have
  fewer than $2^{54}$ ticks, so that its picosecond counters do not wrap.  The conversion programs are about graphs of
  fewer than $2^{24}$ vertices where a \<open>float\<close> quotient is used, and up to $2^{51}$ where only \<open>double\<close> is.  The heat
  map is about memories whose banks fit the plan (\<open>banks_fit\<close>) and chips of fewer than $2^{31}$ nodes; a \<open>double\<close> is rounded
  to 53 bits and has no bounds on its exponent.

  \<^bold>\<open>Not modelled.\<close>  Reports, traces and other output; the lists and the JSON object \<open>simple_stats.cc\<close> prints; the linear solver of SuperLU, a submodule, and its parameters in \<open>sp_ienv.c\<close>;
  \<open>thermal_replay.cc\<close>, which does not compile against these sources, as the calls of \<open>RankBackgroundEnergy\<close> in the
  controller do not (the background energy of a rank is therefore an arbitrary input of the heat map); the command
  line of both programs; \<open>xwgen.cpp\<close>, which writes random numbers; vendored libraries.  \<open>INIReader\<close> and the random
  number generator are arguments of the model.  The termination of the whole simulation is not claimed: some inputs
  make the readers wait forever.
\<close>

end
